(* ===== verification/MS_Prelude.thy ===== *)
theory MS_Prelude
  imports Main "HOL-Library.Word" "HOL-Library.Multiset"
begin

text \<open>
  Shared vocabulary of the development: the C types the components use, the C library
  functions on characters and strings that the sources call, the error reports that an
  operation hands to \<open>msSetError\<close>, the return codes of \<open>mapserver.h\<close>, and generic facts
  on lists that several components need. Memory allocation is taken to succeed wherever a
  component does not say otherwise.

  A C string is a HOL \<open>string\<close> without its terminating NUL. Its characters are bytes.
\<close>

unbundle bit_operations_syntax

section \<open>Collections of facts\<close>

named_theorems ms_inv \<open>preservation of component invariants\<close>
named_theorems ms_ci \<open>facts on case-insensitive comparison\<close>

section \<open>Types and return codes\<close>

type_synonym byte = "8 word"
type_synonym u32 = "32 word"
type_synonym i32 = "32 word" \<comment> \<open>read with \<open>sint\<close>\<close>

datatype ms_return = MS_SUCCESS | MS_FAILURE | MS_DONE

text \<open>A call \<open>msSetError(code, message, routine)\<close>; the format arguments are dropped.\<close>

datatype report = Report (report_code: int) (report_message: string) (report_routine: string)

text \<open>The result and the new state of an operation, without its reports.\<close>

definition no_reports :: "'a \<times> 'b \<times> report list \<Rightarrow> 'a \<times> 'b" where
  "no_reports r = (fst r, fst (snd r))"

lemma no_reports_simp [simp]: "no_reports (a, b, es) = (a, b)"
  by (simp add: no_reports_def)

abbreviation (input) MS_IOERR :: int where "MS_IOERR \<equiv> 1"
abbreviation (input) MS_NOTFOUND :: int where "MS_NOTFOUND \<equiv> 18"
abbreviation (input) MS_SHPERR :: int where "MS_SHPERR \<equiv> 19"
abbreviation (input) MS_MEMERR :: int where "MS_MEMERR \<equiv> 2"
abbreviation (input) MS_MISCERR :: int where "MS_MISCERR \<equiv> 12"
abbreviation (input) MS_WEBERR :: int where "MS_WEBERR \<equiv> 14"
abbreviation (input) MS_HASHERR :: int where "MS_HASHERR \<equiv> 16"
abbreviation (input) MS_CHILDERR :: int where "MS_CHILDERR \<equiv> 31"

section \<open>Characters and strings of the C library\<close>

text \<open>\<open>tolower\<close> in the C locale, on the unsigned value of a character.\<close>

definition tolower_char :: "char \<Rightarrow> char" where
  "tolower_char c =
     (let n = of_char c :: nat in if 65 \<le> n \<and> n \<le> 90 then char_of (n + 32) else c)"

definition lower :: "string \<Rightarrow> string" where
  "lower s = map tolower_char s"

text \<open>
  \<open>strcasecmp\<close>: POSIX fixes the sign of the result only, so the model returns the sign.
\<close>

fun strcasecmp :: "string \<Rightarrow> string \<Rightarrow> int" where
  "strcasecmp [] [] = 0"
| "strcasecmp [] (y # ys) = -1"
| "strcasecmp (x # xs) [] = 1"
| "strcasecmp (x # xs) (y # ys) =
     (let a = of_char (tolower_char x) :: int; b = of_char (tolower_char y) :: int in
      if a = b then strcasecmp xs ys else if a < b then -1 else 1)"

lemma strcasecmp_eq_0 [ms_ci]: "strcasecmp a b = 0 \<longleftrightarrow> lower a = lower b"
proof (induction a b rule: strcasecmp.induct)
  case (4 x xs y ys)
  then show ?case by (auto simp: lower_def Let_def)
qed (auto simp: lower_def)

lemma strcasecmp_refl [simp]: "strcasecmp a a = 0"
  by (simp add: strcasecmp_eq_0)

lemma strcasecmp_sym: "strcasecmp a b = 0 \<longleftrightarrow> strcasecmp b a = 0"
  by (auto simp: strcasecmp_eq_0)

lemma lower_Nil [simp]: "lower [] = []"
  by (simp add: lower_def)

lemma lower_Cons [simp]: "lower (c # s) = tolower_char c # lower s"
  by (simp add: lower_def)

abbreviation NUL :: char where "NUL \<equiv> CHR 0x00"

definition isspace :: "char \<Rightarrow> bool" where
  "isspace c \<longleftrightarrow> (let n = of_char c :: nat in n = 32 \<or> (9 \<le> n \<and> n \<le> 13))"

text \<open>\<open>atoi\<close>, for values that an \<open>int\<close> can hold.\<close>

fun digits_value :: "string \<Rightarrow> int \<Rightarrow> int" where
  "digits_value [] acc = acc"
| "digits_value (c # cs) acc =
     (let n = of_char c :: int in if 48 \<le> n \<and> n \<le> 57 then digits_value cs (acc * 10 + (n - 48)) else acc)"

definition atoi :: "string \<Rightarrow> int" where
  "atoi s =
     (case dropWhile isspace s of
        [] \<Rightarrow> 0
      | c # cs \<Rightarrow> if c = CHR ''-'' then - digits_value cs 0
                  else if c = CHR ''+'' then digits_value cs 0 else digits_value (c # cs) 0)"

text \<open>The decimal digits that \<open>printf\<close> writes for a number.\<close>

fun digits_of :: "nat \<Rightarrow> string" where
  "digits_of n = (if n < 10 then [char_of (48 + n)] else digits_of (n div 10) @ [char_of (48 + n mod 10)])"

declare digits_of.simps [simp del]

definition digit_char :: "char \<Rightarrow> bool" where
  "digit_char c \<longleftrightarrow> (let n = of_char c :: nat in 48 \<le> n \<and> n \<le> 57)"

lemma digits_of_digits: "c \<in> set (digits_of n) \<Longrightarrow> digit_char c"
proof (induction n arbitrary: c rule: digits_of.induct)
  case (1 n)
  have "digit_char (char_of (48 + n mod 10))" "n < 10 \<Longrightarrow> digit_char (char_of (48 + n))"
    by (auto simp: digit_char_def Let_def)
  then show ?case using 1 by (auto simp: digits_of.simps [of n] split: if_splits)
qed

lemma digits_of_nonempty: "digits_of n \<noteq> []"
  by (simp add: digits_of.simps [of n])

lemma digits_value_digits_of: "digits_value (digits_of n @ s) acc = digits_value s (acc * 10 ^ length (digits_of n) + int n)"
proof (induction n arbitrary: s acc rule: digits_of.induct)
  case (1 n)
  have d: "(of_char (char_of (48 + m) :: char) :: int) = 48 + int m" if "m < 10" for m
  proof -
    have "(of_char (char_of (48 + m) :: char) :: nat) = 48 + m" using that by simp
    then show ?thesis by (metis of_nat_add of_nat_numeral of_nat_of_char)
  qed
  show ?case
  proof (cases "n < 10")
    case True
    then show ?thesis using d [of n] by (simp add: digits_of.simps [of n] Let_def)
  next
    case False
    have "int n = int (n div 10) * 10 + int (n mod 10)" by (metis div_mult_mod_eq of_nat_add of_nat_mult of_nat_numeral)
    moreover have "n mod 10 \<le> 9" using mod_less_divisor [of 10 n] by linarith
    ultimately show ?thesis using False 1 [OF False] d [of "n mod 10"]
      by (simp add: digits_of.simps [of n] Let_def algebra_simps)
  qed
qed

section \<open>Lists\<close>

text \<open>The C loops that open or close a gap in an array, as list operations.\<close>

definition insert_at :: "nat \<Rightarrow> 'a \<Rightarrow> 'a list \<Rightarrow> 'a list" where
  "insert_at i x xs = take i xs @ x # drop i xs"

definition remove_at :: "nat \<Rightarrow> 'a list \<Rightarrow> 'a list" where
  "remove_at i xs = take i xs @ drop (Suc i) xs"

lemma length_insert_at [simp]: "length (insert_at i x xs) = Suc (length xs)"
  by (simp add: insert_at_def)

lemma length_remove_at [simp]: "i < length xs \<Longrightarrow> length (remove_at i xs) = length xs - 1"
  by (simp add: remove_at_def)

lemma remove_insert_at [simp]: "i \<le> length xs \<Longrightarrow> remove_at i (insert_at i x xs) = xs"
  by (simp add: insert_at_def remove_at_def)

lemma insert_remove_at: "i < length xs \<Longrightarrow> insert_at i (xs ! i) (remove_at i xs) = xs"
  by (simp add: insert_at_def remove_at_def min_def id_take_nth_drop [symmetric])

lemma mset_insert_at [simp]: "mset (insert_at i x xs) = add_mset x (mset xs)"
  by (metis add_mset_add_single append_take_drop_id insert_at_def mset.simps(2) mset_append
      union_mset_add_mset_right)

lemma mset_remove_at: "i < length xs \<Longrightarrow> add_mset (xs ! i) (mset (remove_at i xs)) = mset xs"
  by (metis insert_remove_at mset_insert_at)

lemma nth_insert_at_eq [simp]: "i \<le> length xs \<Longrightarrow> insert_at i x xs ! i = x"
  by (simp add: insert_at_def nth_append)

lemma distinct_concat_nth:
  assumes "\<And>i. i < length xss \<Longrightarrow> distinct (xss ! i)"
    and "\<And>i j. i < j \<Longrightarrow> j < length xss \<Longrightarrow> set (xss ! i) \<inter> set (xss ! j) = {}"
  shows "distinct (concat xss)"
  using assms
proof (induction xss)
  case (Cons xs xss)
  have "distinct xs" using Cons.prems(1) [of 0] by simp
  moreover have "distinct (concat xss)"
  proof (rule Cons.IH)
    show "distinct (xss ! i)" if "i < length xss" for i
      using Cons.prems(1) [of "Suc i"] that by simp
    show "set (xss ! i) \<inter> set (xss ! j) = {}" if "i < j" "j < length xss" for i j
      using Cons.prems(2) [of "Suc i" "Suc j"] that by simp
  qed
  moreover have "set xs \<inter> set (concat xss) = {}"
    using Cons.prems(2) [of 0 "Suc j" for j] by (fastforce simp: in_set_conv_nth)
  ultimately show ?case by simp
qed simp

lemma concat_split:
  "concat xss = pre @ e # post \<Longrightarrow>
    \<exists>i c1 c2. i < length xss \<and> xss ! i = c1 @ e # c2 \<and> post = c2 @ concat (drop (Suc i) xss)"
proof (induction xss arbitrary: pre)
  case (Cons xs xss)
  show ?case
  proof (cases "length pre < length xs")
    case True
    with Cons.prems have "xs = pre @ e # drop (Suc (length pre)) xs"
      and "post = drop (Suc (length pre)) xs @ concat xss"
      by (auto simp: append_eq_append_conv2 append_eq_Cons_conv Cons_eq_append_conv)
    then show ?thesis by (intro exI [of _ 0]) auto
  next
    case False
    with Cons.prems obtain pre' where "pre = xs @ pre'" "concat xss = pre' @ e # post"
      by (auto simp: append_eq_append_conv2 append_eq_Cons_conv Cons_eq_append_conv)
    then obtain i c1 c2 where "i < length xss" "xss ! i = c1 @ e # c2"
      "post = c2 @ concat (drop (Suc i) xss)" using Cons.IH by blast
    then show ?thesis by (intro exI [of _ "Suc i"]) auto
  qed
qed simp

section \<open>Searching strings\<close>

text \<open>\<open>strstr\<close>: the index of the first occurrence.\<close>

fun strstr_at :: "string \<Rightarrow> string \<Rightarrow> nat option" where
  "strstr_at [] pat = (if pat = [] then Some 0 else None)"
| "strstr_at (c # cs) pat =
     (if take (length pat) (c # cs) = pat then Some 0 else map_option Suc (strstr_at cs pat))"

lemma strstr_at_Some:
  "strstr_at s pat = Some k \<Longrightarrow>
     k \<le> length s \<and> take (length pat) (drop k s) = pat \<and> (\<forall>j<k. take (length pat) (drop j s) \<noteq> pat)"
proof (induction s arbitrary: k)
  case (Cons c cs)
  show ?case
  proof (cases "take (length pat) (c # cs) = pat")
    case False
    then obtain m where m: "strstr_at cs pat = Some m" "k = Suc m" using Cons.prems by auto
    then show ?thesis using Cons.IH [OF m(1)] False by (auto simp: less_Suc_eq_0_disj)
  qed (use Cons.prems in simp)
qed (auto split: if_splits)

end
