(* ===== verification/MapHash.thy ===== *)
theory MapHash
  imports MS_Prelude
begin

text \<open>
  \<^verbatim>\<open>maphash.c\<close>: the string hash table used for configuration options and metadata. A table
  is an array of \<open>MS_HASHSIZE\<close> singly linked chains; a chain is a list here, the \<open>next\<close>
  pointer being the tail. Keys compare case-insensitively. A table whose items were freed
  has no chains (\<open>items = []\<close>, the NULL pointer of the source).
\<close>

section \<open>The table\<close>

record hashObj =
  hkey :: string
  hdata :: string

record hashTableObj =
  items :: "hashObj list list"
  numitems :: int

abbreviation (input) MS_HASHSIZE :: nat where "MS_HASHSIZE \<equiv> 41"

text \<open>
  \<open>tolower(*key)\<close> takes a plain \<open>char\<close>, which is signed: bytes above 127 are
  sign-extended before the addition on \<open>unsigned\<close>.
\<close>

definition tolower_int :: "char \<Rightarrow> u32" where
  "tolower_int c = signed (of_char (tolower_char c) :: byte)"

fun hash_loop :: "u32 \<Rightarrow> string \<Rightarrow> u32" where
  "hash_loop hashval [] = hashval"
| "hash_loop hashval (c # key) = hash_loop (tolower_int c + 31 * hashval) key"

definition hash :: "string \<Rightarrow> nat" where
  "hash key = unat (hash_loop 0 key mod 41)"

definition msCreateHashTable :: hashTableObj where
  "msCreateHashTable = \<lparr>items = replicate MS_HASHSIZE [], numitems = 0\<rparr>"

text \<open>\<open>initHashTable\<close> fills a caller's structure the same way and returns \<open>MS_SUCCESS\<close>.\<close>

definition initHashTable :: "hashTableObj \<Rightarrow> ms_return \<times> hashTableObj" where
  "initHashTable table =
     (MS_SUCCESS, table\<lparr>items := replicate MS_HASHSIZE [], numitems := 0\<rparr>)"

definition msHashIsEmpty :: "hashTableObj \<Rightarrow> bool" where
  "msHashIsEmpty table = (numitems table = 0)"

text \<open>
  \<open>msFreeHashItems\<close> releases every chain and the array, and leaves \<open>numitems\<close> as it was.
\<close>

definition msFreeHashItems :: "hashTableObj option \<Rightarrow> report list \<times> hashTableObj option" where
  "msFreeHashItems table =
     (case table of
        None \<Rightarrow> ([Report MS_HASHERR ''Can't free NULL table'' ''msFreeHashItems()''], None)
      | Some t \<Rightarrow>
          if items t \<noteq> [] then ([], Some (t\<lparr>items := []\<rparr>))
          else ([Report MS_HASHERR ''No items allocated.'' ''msFreeHashItems()''], Some t))"

text \<open>\<open>msFreeHashTable\<close> frees the items and then the table itself; a NULL table is left alone.\<close>

definition msFreeHashTable :: "hashTableObj option \<Rightarrow> report list \<times> hashTableObj option" where
  "msFreeHashTable table =
     (case table of None \<Rightarrow> ([], None)
      | Some t \<Rightarrow> (fst (msFreeHashItems (Some t)), None))"

section \<open>Operations\<close>

text \<open>The scan of a chain for a key.\<close>

fun chain_find :: "string \<Rightarrow> hashObj list \<Rightarrow> hashObj option" where
  "chain_find key [] = None"
| "chain_find key (tp # rest) =
     (if strcasecmp key (hkey tp) = 0 then Some tp else chain_find key rest)"

text \<open>Overwriting the data of the entry the scan stopped at: the entry keeps its key.\<close>

fun chain_set :: "string \<Rightarrow> string \<Rightarrow> hashObj list \<Rightarrow> hashObj list" where
  "chain_set key v [] = []"
| "chain_set key v (tp # rest) =
     (if strcasecmp key (hkey tp) = 0 then tp\<lparr>hdata := v\<rparr> # rest else tp # chain_set key v rest)"

definition msInsertHashTable ::
  "hashTableObj option \<Rightarrow> string option \<Rightarrow> string option
    \<Rightarrow> report list \<times> hashTableObj option \<times> hashObj option" where
  "msInsertHashTable table key val =
     (case (table, key, val) of
        (Some t, Some k, Some v) \<Rightarrow>
          (let h = hash k; chain = items t ! h in
           (case chain_find k chain of
              None \<Rightarrow>
                (let tp = \<lparr>hkey = k, hdata = v\<rparr> in
                 ([], Some (t\<lparr>items := (items t)[h := tp # chain], numitems := numitems t + 1\<rparr>), Some tp))
            | Some tp \<Rightarrow>
                ([], Some (t\<lparr>items := (items t)[h := chain_set k v chain]\<rparr>), Some (tp\<lparr>hdata := v\<rparr>))))
      | _ \<Rightarrow> ([Report MS_HASHERR ''Invalid hash table or key'' ''msInsertHashTable''], table, None))"

definition msLookupHashTable :: "hashTableObj option \<Rightarrow> string option \<Rightarrow> string option" where
  "msLookupHashTable table key =
     (case (table, key) of
        (Some t, Some k) \<Rightarrow> map_option hdata (chain_find k (items t ! hash k))
      | _ \<Rightarrow> None)"

text \<open>
  The unlinking loop of \<open>msRemoveHashTable\<close>: the first matching entry is dropped, be it the
  head of the chain (\<open>prev_tp = NULL\<close>) or a later one.
\<close>

fun chain_unlink :: "string \<Rightarrow> hashObj list \<Rightarrow> ms_return \<times> hashObj list" where
  "chain_unlink key [] = (MS_FAILURE, [])"
| "chain_unlink key (tp # rest) =
     (if strcasecmp key (hkey tp) = 0 then (MS_SUCCESS, rest)
      else (case chain_unlink key rest of (st, rest') \<Rightarrow> (st, tp # rest')))"

definition msRemoveHashTable ::
  "hashTableObj option \<Rightarrow> string option \<Rightarrow> report list \<times> hashTableObj option \<times> ms_return" where
  "msRemoveHashTable table key =
     (case (table, key) of
        (Some t, Some k) \<Rightarrow>
          (let h = hash k; chain = items t ! h in
           if chain = [] then
             ([Report MS_HASHERR ''No such hash entry'' ''msRemoveHashTable''], Some t, MS_FAILURE)
           else
             (case chain_unlink k chain of (st, chain') \<Rightarrow>
                ([], Some (t\<lparr>items := (items t)[h := chain'],
                              numitems := (if st = MS_SUCCESS then numitems t - 1 else numitems t)\<rparr>), st)))
      | _ \<Rightarrow> ([Report MS_HASHERR ''No hash table'' ''msRemoveHashTable''], table, MS_FAILURE))"

text \<open>The search for the first non-empty chain, shared by the two iteration functions.\<close>

fun first_chain_key :: "hashObj list list \<Rightarrow> string option" where
  "first_chain_key [] = None"
| "first_chain_key (c # cs) = (case c of [] \<Rightarrow> first_chain_key cs | e # _ \<Rightarrow> Some (hkey e))"

definition msFirstKeyFromHashTable :: "hashTableObj option \<Rightarrow> report list \<times> string option" where
  "msFirstKeyFromHashTable table =
     (case table of
        None \<Rightarrow> ([Report MS_HASHERR ''No hash table'' ''msFirstKeyFromHashTable''], None)
      | Some t \<Rightarrow> ([], first_chain_key (items t)))"

text \<open>\<open>link = link->next\<close> until the key matches: the rest of the chain from the match on.\<close>

fun chain_from :: "string \<Rightarrow> hashObj list \<Rightarrow> hashObj list" where
  "chain_from key [] = []"
| "chain_from key (e # es) = (if strcasecmp key (hkey e) \<noteq> 0 then chain_from key es else e # es)"

definition msNextKeyFromHashTable ::
  "hashTableObj option \<Rightarrow> string option \<Rightarrow> report list \<times> string option" where
  "msNextKeyFromHashTable table lastKey =
     (case table of
        None \<Rightarrow> ([Report MS_HASHERR ''No hash table'' ''msNextKeyFromHashTable''], None)
      | Some t \<Rightarrow>
          (case lastKey of
             None \<Rightarrow> msFirstKeyFromHashTable table
           | Some k \<Rightarrow>
               (case chain_from k (items t ! hash k) of
                  _ # e # _ \<Rightarrow> ([], Some (hkey e))
                | _ \<Rightarrow> ([], first_chain_key (drop (Suc (hash k)) (items t))))))"

text \<open>
  The client loop \<open>for (key = First(t); key != NULL; key = Next(t, key))\<close>, with fuel.
\<close>

fun key_loop :: "nat \<Rightarrow> hashTableObj \<Rightarrow> string option \<Rightarrow> string list option" where
  "key_loop fuel t None = Some []"
| "key_loop 0 t (Some k) = None"
| "key_loop (Suc fuel) t (Some k) =
     map_option (Cons k) (key_loop fuel t (snd (msNextKeyFromHashTable (Some t) (Some k))))"

section \<open>The invariant of a table\<close>

definition hash_ok :: "hashTableObj \<Rightarrow> bool" where
  "hash_ok t \<longleftrightarrow>
     length (items t) = MS_HASHSIZE
     \<and> list_all (\<lambda>(i, c). list_all (\<lambda>e. hash (hkey e) = i) c) (enumerate 0 (items t))
     \<and> list_all (\<lambda>c. distinct (map (lower \<circ> hkey) c)) (items t)
     \<and> numitems t = int (sum_list (map length (items t)))"

lemma hash_loop_lower: "hash_loop h a = hash_loop h (lower a)"
proof (induction a arbitrary: h)
  case (Cons x a)
  have "tolower_char (tolower_char x) = tolower_char x"
    by (simp add: tolower_char_def Let_def)
  then show ?case by (simp add: tolower_int_def Cons.IH [symmetric])
qed simp

lemma hash_lower [ms_ci]: "lower a = lower b \<Longrightarrow> hash a = hash b"
  by (metis hash_def hash_loop_lower)

lemma hash_bound [simp, intro]: "hash k < MS_HASHSIZE"
proof -
  have "hash_loop 0 k mod 41 < 41"
    by (rule word_mod_less_divisor) simp
  then show ?thesis
    unfolding hash_def by (simp add: word_less_nat_alt)
qed

lemma hash_okD:
  assumes "hash_ok t"
  shows "length (items t) = MS_HASHSIZE"
    and "\<And>i e. i < MS_HASHSIZE \<Longrightarrow> e \<in> set (items t ! i) \<Longrightarrow> hash (hkey e) = i"
    and "\<And>i. i < MS_HASHSIZE \<Longrightarrow> distinct (map (lower \<circ> hkey) (items t ! i))"
    and "numitems t = int (sum_list (map length (items t)))"
proof -
  show len: "length (items t) = MS_HASHSIZE"
    and "numitems t = int (sum_list (map length (items t)))"
    using assms by (simp_all add: hash_ok_def)
  show "hash (hkey e) = i" if "i < MS_HASHSIZE" "e \<in> set (items t ! i)" for i e
    using assms len that by (fastforce simp: hash_ok_def list_all_iff in_set_enumerate_eq)
  show "distinct (map (lower \<circ> hkey) (items t ! i))" if "i < MS_HASHSIZE" for i
    using assms len that by (simp add: hash_ok_def list_all_iff)
qed

lemma hash_okI:
  assumes "length (items t) = MS_HASHSIZE"
    and "\<And>i e. i < MS_HASHSIZE \<Longrightarrow> e \<in> set (items t ! i) \<Longrightarrow> hash (hkey e) = i"
    and "\<And>i. i < MS_HASHSIZE \<Longrightarrow> distinct (map (lower \<circ> hkey) (items t ! i))"
    and "numitems t = int (sum_list (map length (items t)))"
  shows "hash_ok t"
proof -
  have "\<forall>(i, c) \<in> set (enumerate 0 (items t)). \<forall>e \<in> set c. hash (hkey e) = i"
    using assms(1,2) by (auto simp: in_set_enumerate_eq)
  moreover have "\<forall>c \<in> set (items t). distinct (map (lower \<circ> hkey) c)"
    using assms(1,3) by (auto simp: in_set_conv_nth)
  ultimately show ?thesis
    using assms(1,4) by (simp add: hash_ok_def list_all_iff)
qed

lemma sum_list_update_length:
  "i < length xs \<Longrightarrow>
     int (sum_list (map length (xs[i := c]))) =
     int (sum_list (map length xs)) + int (length c) - int (length (xs ! i))"
proof (induction xs arbitrary: i)
  case (Cons x xs)
  then show ?case by (cases i) auto
qed simp

text \<open>Replacing one chain by another that still belongs there keeps the invariant.\<close>

lemma hash_ok_update:
  assumes ok: "hash_ok t" and h: "h < MS_HASHSIZE"
    and home: "\<And>e. e \<in> set c \<Longrightarrow> hash (hkey e) = h"
    and dist: "distinct (map (lower \<circ> hkey) c)"
    and num: "n = numitems t + int (length c) - int (length (items t ! h))"
  shows "hash_ok (t\<lparr>items := (items t)[h := c], numitems := n\<rparr>)"
proof (rule hash_okI)
  note d = hash_okD [OF ok]
  show "length (items (t\<lparr>items := (items t)[h := c], numitems := n\<rparr>)) = MS_HASHSIZE"
    using d(1) by simp
  show "hash (hkey e) = i" if "i < MS_HASHSIZE"
    "e \<in> set (items (t\<lparr>items := (items t)[h := c], numitems := n\<rparr>) ! i)" for i e
    using that d(1,2) home by (cases "i = h") auto
  show "distinct (map (lower \<circ> hkey) (items (t\<lparr>items := (items t)[h := c], numitems := n\<rparr>) ! i))"
    if "i < MS_HASHSIZE" for i
    using that d(1,3) dist by (cases "i = h") auto
  show "numitems (t\<lparr>items := (items t)[h := c], numitems := n\<rparr>) =
      int (sum_list (map length (items (t\<lparr>items := (items t)[h := c], numitems := n\<rparr>))))"
    using d(1,4) h num by (simp add: sum_list_update_length)
qed

section \<open>Chains\<close>

lemma chain_find_set:
  "chain_find k (chain_set k' v c) =
     (if lower k = lower k' then map_option (\<lambda>e. e\<lparr>hdata := v\<rparr>) (chain_find k' c)
      else chain_find k c)"
  by (induction c) (auto simp: strcasecmp_eq_0)

lemma chain_set_keys [simp]: "map hkey (chain_set k v c) = map hkey c"
  by (induction c) auto

lemma chain_set_lower [simp]: "map (lower \<circ> hkey) (chain_set k v c) = map (lower \<circ> hkey) c"
  by (metis chain_set_keys list.map_comp)

lemma chain_set_length [simp]: "length (chain_set k v c) = length c"
  by (metis chain_set_keys length_map)

lemma chain_find_None:
  "chain_find k c = None \<longleftrightarrow> lower k \<notin> set (map (lower \<circ> hkey) c)"
  by (induction c) (auto simp: strcasecmp_eq_0)

lemma chain_find_key: "chain_find k c = Some e \<Longrightarrow> lower (hkey e) = lower k"
  by (induction c) (auto simp: strcasecmp_eq_0 split: if_splits)

lemma chain_find_cong: "lower k = lower k' \<Longrightarrow> chain_find k c = chain_find k' c"
  by (induction c) (auto simp: strcasecmp_eq_0)

lemma chain_unlink_status: "fst (chain_unlink k c) = (if chain_find k c = None then MS_FAILURE else MS_SUCCESS)"
  by (induction c) (auto simp: strcasecmp_eq_0 split: prod.splits if_splits)

lemma chain_unlink_subset: "set (snd (chain_unlink k c)) \<subseteq> set c"
  by (induction c) (auto split: prod.splits)

lemma chain_unlink_distinct:
  "distinct (map (lower \<circ> hkey) c) \<Longrightarrow> distinct (map (lower \<circ> hkey) (snd (chain_unlink k c)))"
proof (induction c)
  case (Cons e c)
  have "lower (hkey e) \<notin> (lower \<circ> hkey) ` set (snd (chain_unlink k c))"
    using Cons.prems chain_unlink_subset [of k c] by auto
  with Cons show ?case by (auto split: prod.splits)
qed simp

lemma chain_unlink_length:
  "chain_unlink k c = (st, c') \<Longrightarrow>
     int (length c') = int (length c) - (if st = MS_SUCCESS then 1 else 0) \<and> st \<noteq> MS_DONE"
  by (induction c arbitrary: c' st) (auto split: prod.splits if_splits)

lemma chain_find_unlink:
  "distinct (map (lower \<circ> hkey) c) \<Longrightarrow>
     chain_find k (snd (chain_unlink k' c)) = (if lower k = lower k' then None else chain_find k c)"
proof (induction c)
  case (Cons e c)
  then show ?case by (auto simp: strcasecmp_eq_0 chain_find_None split: prod.splits if_splits)
qed simp

section \<open>The contract of a case-insensitive table\<close>

text \<open>
  What the clients of the table rely on: lookups modulo case, and an invariant that every
  operation keeps. The client lemmas are proved once here.
\<close>

locale ci_table =
  fixes invar :: "'t \<Rightarrow> bool"
    and look :: "'t \<Rightarrow> string \<Rightarrow> string option"
    and ins :: "'t \<Rightarrow> string \<Rightarrow> string \<Rightarrow> 't"
    and del :: "'t \<Rightarrow> string \<Rightarrow> 't"
  assumes look_ins: "invar t \<Longrightarrow>
      look (ins t k v) k' = (if lower k' = lower k then Some v else look t k')"
    and look_del: "invar t \<Longrightarrow> look (del t k) k' = (if lower k' = lower k then None else look t k')"
    and invar_ins: "invar t \<Longrightarrow> invar (ins t k v)"
    and invar_del: "invar t \<Longrightarrow> invar (del t k)"
begin

text \<open>Replacing an entry by removing it first: the idiom of \<open>msSetConfigOption\<close>.\<close>

definition replace :: "'t \<Rightarrow> string \<Rightarrow> string \<Rightarrow> 't" where
  "replace t k v = ins (if look t k \<noteq> None then del t k else t) k v"

lemma invar_replace: "invar t \<Longrightarrow> invar (replace t k v)"
  by (simp add: replace_def invar_ins invar_del)

lemma look_replace: "invar t \<Longrightarrow> look (replace t k v) k' = (if lower k' = lower k then Some v else look t k')"
  by (simp add: replace_def look_ins look_del invar_del)

text \<open>A run of writes leaves, under each key, the last value written to it.\<close>

fun writes :: "'t \<Rightarrow> (string \<times> string) list \<Rightarrow> 't" where
  "writes t [] = t"
| "writes t ((k, v) # kvs) = writes (ins t k v) kvs"

lemma invar_writes: "invar t \<Longrightarrow> invar (writes t kvs)"
  by (induction t kvs rule: writes.induct) (simp_all add: invar_ins)

lemma look_writes:
  "invar t \<Longrightarrow>
     look (writes t kvs) k =
       (case map_of (rev (map (map_prod lower id) kvs)) (lower k) of None \<Rightarrow> look t k | Some v \<Rightarrow> Some v)"
proof (induction t kvs rule: writes.induct)
  case (2 t k' v kvs)
  then show ?case
    by (auto simp: look_ins invar_ins map_add_def split: option.splits)
qed simp

end

section \<open>The hash table meets the contract\<close>

abbreviation tbl_lookup :: "hashTableObj \<Rightarrow> string \<Rightarrow> string option" where
  "tbl_lookup t k \<equiv> msLookupHashTable (Some t) (Some k)"

definition tbl_insert :: "hashTableObj \<Rightarrow> string \<Rightarrow> string \<Rightarrow> hashTableObj" where
  "tbl_insert t k v = the (fst (snd (msInsertHashTable (Some t) (Some k) (Some v))))"

definition tbl_remove :: "hashTableObj \<Rightarrow> string \<Rightarrow> hashTableObj" where
  "tbl_remove t k = the (fst (snd (msRemoveHashTable (Some t) (Some k))))"

lemma msInsertHashTable_Some:
  "msInsertHashTable (Some t) (Some k) (Some v) =
     ([], Some (tbl_insert t k v), Some (case chain_find k (items t ! hash k) of
        None \<Rightarrow> \<lparr>hkey = k, hdata = v\<rparr> | Some tp \<Rightarrow> tp\<lparr>hdata := v\<rparr>))"
  by (simp add: tbl_insert_def msInsertHashTable_def Let_def split: option.split)

lemma msCreateHashTable_ok [ms_inv]: "hash_ok msCreateHashTable"
  by (rule hash_okI) (auto simp: msCreateHashTable_def sum_list_replicate)

lemma tbl_insert_ok [ms_inv]:
  assumes "hash_ok t"
  shows "hash_ok (tbl_insert t k v)"
proof (cases "chain_find k (items t ! hash k)")
  case None
  then have "distinct (map (lower \<circ> hkey) (\<lparr>hkey = k, hdata = v\<rparr> # items t ! hash k))"
    using hash_okD(3) [OF assms, of "hash k"] by (simp add: chain_find_None)
  then have "hash_ok (t\<lparr>items := (items t)[hash k := \<lparr>hkey = k, hdata = v\<rparr> # items t ! hash k],
      numitems := numitems t + 1\<rparr>)"
    using hash_okD(2) [OF assms] by (intro hash_ok_update [OF assms]) auto
  then show ?thesis
    using None by (simp add: tbl_insert_def msInsertHashTable_def Let_def)
next
  case (Some tp)
  have "hash (hkey e) = hash k" if "e \<in> set (chain_set k v (items t ! hash k))" for e
  proof -
    have "hkey e \<in> hkey ` set (items t ! hash k)"
      using that by (metis chain_set_keys image_eqI list.set_map)
    then show ?thesis using hash_okD(2) [OF assms] by auto
  qed
  then have "hash_ok (t\<lparr>items := (items t)[hash k := chain_set k v (items t ! hash k)],
      numitems := numitems t\<rparr>)"
    using hash_okD(3) [OF assms, of "hash k"] by (intro hash_ok_update [OF assms]) auto
  then show ?thesis
    using Some by (simp add: tbl_insert_def msInsertHashTable_def Let_def)
qed

lemma tbl_remove_items:
  "hash_ok t \<Longrightarrow> items (tbl_remove t k) = (items t)[hash k := snd (chain_unlink k (items t ! hash k))]"
  by (auto simp: tbl_remove_def msRemoveHashTable_def Let_def split: prod.split)
    (metis list_update_id)

lemma tbl_remove_ok [ms_inv]:
  assumes "hash_ok t"
  shows "hash_ok (tbl_remove t k)"
proof (cases "items t ! hash k = []")
  case True
  then show ?thesis using assms by (simp add: tbl_remove_def msRemoveHashTable_def Let_def)
next
  case False
  obtain st c' where u: "chain_unlink k (items t ! hash k) = (st, c')"
    by (cases "chain_unlink k (items t ! hash k)") auto
  have "hash_ok (t\<lparr>items := (items t)[hash k := c'],
      numitems := if st = MS_SUCCESS then numitems t - 1 else numitems t\<rparr>)"
  proof (rule hash_ok_update [OF assms])
    show "hash (hkey e) = hash k" if "e \<in> set c'" for e
      using that u chain_unlink_subset [of k "items t ! hash k"] hash_okD(2) [OF assms, of "hash k" e]
      by auto
    show "distinct (map (lower \<circ> hkey) c')"
      using chain_unlink_distinct [OF hash_okD(3) [OF assms], of "hash k" k] u by simp
  qed (use chain_unlink_length [OF u] in auto)
  then show ?thesis
    using u False by (simp add: tbl_remove_def msRemoveHashTable_def Let_def)
qed

lemma tbl_lookup_insert:
  assumes "hash_ok t"
  shows "tbl_lookup (tbl_insert t k v) k' = (if lower k' = lower k then Some v else tbl_lookup t k')"
proof -
  have len: "hash k < length (items t)" using hash_okD(1) [OF assms] by simp
  show ?thesis
  proof (cases "hash k' = hash k")
    case True
    then show ?thesis using len
      by (auto simp: tbl_insert_def msInsertHashTable_def msLookupHashTable_def Let_def
          chain_find_set strcasecmp_eq_0 comp_def split: option.split)
  next
    case False
    then have "lower k' \<noteq> lower k" using hash_lower by blast
    then show ?thesis using len False
      by (auto simp: tbl_insert_def msInsertHashTable_def msLookupHashTable_def Let_def
          split: option.split)
  qed
qed

lemma tbl_lookup_remove:
  assumes "hash_ok t"
  shows "tbl_lookup (tbl_remove t k) k' = (if lower k' = lower k then None else tbl_lookup t k')"
proof -
  have len: "hash k < length (items t)" using hash_okD(1) [OF assms] by simp
  have *: "chain_find k' (snd (chain_unlink k (items t ! hash k))) =
      (if lower k' = lower k then None else chain_find k' (items t ! hash k))"
    by (rule chain_find_unlink) (simp add: hash_okD(3) [OF assms])
  show ?thesis
    using * len hash_lower [of k' k]
    by (cases "hash k' = hash k")
      (auto simp: msLookupHashTable_def tbl_remove_items [OF assms])
qed

interpretation ht: ci_table hash_ok tbl_lookup tbl_insert tbl_remove
  by unfold_locales (simp_all add: tbl_lookup_insert tbl_lookup_remove tbl_insert_ok tbl_remove_ok)

section \<open>Counting and iteration\<close>

definition table_keys :: "hashTableObj \<Rightarrow> string list" where
  "table_keys t = map hkey (concat (items t))"

lemma length_table_keys: "hash_ok t \<Longrightarrow> int (length (table_keys t)) = numitems t"
  by (simp add: hash_okD(4) table_keys_def length_concat)

lemma table_keys_lookup:
  assumes "hash_ok t"
  shows "tbl_lookup t k \<noteq> None \<longleftrightarrow> lower k \<in> lower ` set (table_keys t)"
proof
  assume "tbl_lookup t k \<noteq> None"
  then have "lower k \<in> (lower \<circ> hkey) ` set (items t ! hash k)"
    by (auto simp: msLookupHashTable_def chain_find_None)
  moreover have "items t ! hash k \<in> set (items t)"
    using hash_okD(1) [OF assms] by simp
  ultimately show "lower k \<in> lower ` set (table_keys t)"
    by (auto simp: table_keys_def)
next
  assume "lower k \<in> lower ` set (table_keys t)"
  then obtain c e where "c \<in> set (items t)" "e \<in> set c" "lower k = lower (hkey e)"
    by (auto simp: table_keys_def)
  then obtain i where i: "i < length (items t)" "e \<in> set (items t ! i)" "lower k = lower (hkey e)"
    by (metis in_set_conv_nth)
  then have "hash k = i" using hash_okD(1,2) [OF assms] hash_lower by metis
  then show "tbl_lookup t k \<noteq> None"
    using i by (auto simp: msLookupHashTable_def chain_find_None)
qed

lemma table_keys_distinct:
  assumes "hash_ok t"
  shows "distinct (map lower (table_keys t))"
proof -
  let ?f = "lower \<circ> hkey" and ?xs = "map (map (lower \<circ> hkey)) (items t)"
  note d = hash_okD [OF assms]
  have "distinct (concat ?xs)"
  proof (rule distinct_concat_nth)
    show "distinct (?xs ! i)" if "i < length ?xs" for i
      using that d(1,3) by simp
    show "set (?xs ! i) \<inter> set (?xs ! j) = {}" if "i < j" "j < length ?xs" for i j
    proof -
      have "lower (hkey x) \<noteq> lower (hkey y)" if "x \<in> set (items t ! i)" "y \<in> set (items t ! j)" for x y
        using d(2) [of i x] d(2) [of j y] hash_lower [of "hkey x" "hkey y"] that d(1) \<open>i < j\<close>
          \<open>j < length ?xs\<close> by auto
      then show ?thesis using that d(1) by fastforce
    qed
  qed
  then show ?thesis by (simp add: table_keys_def map_concat comp_def)
qed

lemma first_chain_key_concat:
  "first_chain_key cs = (case concat cs of [] \<Rightarrow> None | e # _ \<Rightarrow> Some (hkey e))"
proof (induction cs)
  case (Cons c cs)
  then show ?case by (cases c) simp_all
qed simp

lemma chain_from_append:
  "lower k \<notin> set (map (lower \<circ> hkey) c1) \<Longrightarrow> chain_from k (c1 @ c2) = chain_from k c2"
  by (induction c1) (auto simp: strcasecmp_eq_0)

text \<open>The successor of a stored key is the entry after it in chain order.\<close>

lemma msNextKey_successor:
  assumes ok: "hash_ok t" and split: "concat (items t) = pre @ e # post"
  shows "msNextKeyFromHashTable (Some t) (Some (hkey e)) =
    ([], case post of [] \<Rightarrow> None | e' # _ \<Rightarrow> Some (hkey e'))"
proof -
  obtain i c1 c2 where i: "i < length (items t)" "items t ! i = c1 @ e # c2"
    and post: "post = c2 @ concat (drop (Suc i) (items t))"
    using concat_split [OF split] by blast
  have "i < MS_HASHSIZE" using i(1) hash_okD(1) [OF ok] by simp
  then have h: "hash (hkey e) = i" and "distinct (map (lower \<circ> hkey) (items t ! i))"
    using hash_okD(2) [OF ok, of i e] hash_okD(3) [OF ok, of i] i(2) by auto
  then have "lower (hkey e) \<notin> set (map (lower \<circ> hkey) c1)"
    using i(2) by auto
  then have "chain_from (hkey e) (items t ! i) = e # c2"
    using i(2) by (metis chain_from.simps(2) chain_from_append strcasecmp_refl)
  then show ?thesis
    by (cases c2) (simp_all add: msNextKeyFromHashTable_def h post first_chain_key_concat split: list.split)
qed

lemma key_loop_suffix:
  assumes ok: "hash_ok t"
  shows "concat (items t) = pre @ s \<Longrightarrow> length s \<le> fuel \<Longrightarrow>
    key_loop fuel t (case s of [] \<Rightarrow> None | e # _ \<Rightarrow> Some (hkey e)) = Some (map hkey s)"
proof (induction s arbitrary: pre fuel)
  case (Cons e s)
  then obtain f where f: "fuel = Suc f" "length s \<le> f" by (cases fuel) auto
  have "key_loop f t (case s of [] \<Rightarrow> None | e # _ \<Rightarrow> Some (hkey e)) = Some (map hkey s)"
    using Cons.IH [of "pre @ [e]" f] Cons.prems(1) f(2) by simp
  then show ?case
    using msNextKey_successor [OF ok Cons.prems(1)] f(1) by simp
qed simp

section \<open>Properties\<close>

text \<open>C8. A successful insert into a valid table reports no error, keeps the table valid, makes
  the new value visible under every spelling of the key, leaves every other key alone and
  counts a new entry exactly when no spelling of the key was present.\<close>

theorem hash_insert_correct:
  assumes "hash_ok t"
  shows "\<exists>u tp. msInsertHashTable (Some t) (Some k) (Some v) = ([], Some u, Some tp)
     \<and> hash_ok u \<and> hdata tp = v \<and> lower (hkey tp) = lower k
     \<and> (\<forall>k'. msLookupHashTable (Some u) (Some k') =
           (if lower k' = lower k then Some v else msLookupHashTable (Some t) (Some k')))
     \<and> numitems u = numitems t + (if msLookupHashTable (Some t) (Some k) = None then 1 else 0)"
proof (intro exI conjI)
  show "msInsertHashTable (Some t) (Some k) (Some v) = ([], Some (tbl_insert t k v), Some
    (case chain_find k (items t ! hash k) of None \<Rightarrow> \<lparr>hkey = k, hdata = v\<rparr> | Some tp \<Rightarrow> tp\<lparr>hdata := v\<rparr>))"
    by (rule msInsertHashTable_Some)
  show "lower (hkey (case chain_find k (items t ! hash k) of
      None \<Rightarrow> \<lparr>hkey = k, hdata = v\<rparr> | Some tp \<Rightarrow> tp\<lparr>hdata := v\<rparr>)) = lower k"
    by (auto split: option.split dest: chain_find_key)
  show "numitems (tbl_insert t k v) =
      numitems t + (if msLookupHashTable (Some t) (Some k) = None then 1 else 0)"
    by (simp add: tbl_insert_def msInsertHashTable_def msLookupHashTable_def Let_def split: option.split)
qed (auto simp: ht.look_ins [OF assms] ht.invar_ins [OF assms] split: option.split)

theorem hash_insert_correct_witness:
  "hash_ok msCreateHashTable \<and>
   (\<exists>u. fst (snd (msInsertHashTable (Some msCreateHashTable) (Some ''Key'') (Some ''v''))) = Some u \<and>
        msLookupHashTable (Some u) (Some ''KEY'') = Some ''v'' \<and> numitems u = 1)"
proof -
  have "msLookupHashTable (Some msCreateHashTable) (Some ''Key'') = None"
    and "numitems msCreateHashTable = 0"
    by (simp_all add: msLookupHashTable_def msCreateHashTable_def)
  moreover have "lower ''KEY'' = lower ''Key''" by code_simp
  ultimately show ?thesis
    using hash_insert_correct [OF msCreateHashTable_ok, of "''Key''" "''v''"] msCreateHashTable_ok by auto
qed

text \<open>Removing a key from a valid table succeeds exactly when some spelling of it is
  present; afterwards no spelling of the key is found, every other lookup is unchanged, the
  entry count drops by one on success only, and an error is reported only when the key's
  chain is empty.\<close>

theorem hash_remove_correct:
  assumes "hash_ok t"
  shows "\<exists>reps u st. msRemoveHashTable (Some t) (Some k) = (reps, Some u, st)
     \<and> hash_ok u
     \<and> st = (if msLookupHashTable (Some t) (Some k) = None then MS_FAILURE else MS_SUCCESS)
     \<and> (\<forall>k'. msLookupHashTable (Some u) (Some k') =
           (if lower k' = lower k then None else msLookupHashTable (Some t) (Some k')))
     \<and> numitems u = numitems t - (if st = MS_SUCCESS then 1 else 0)
     \<and> (reps \<noteq> [] \<longleftrightarrow> items t ! hash k = [])"
proof -
  obtain reps t' st where r: "msRemoveHashTable (Some t) (Some k) = (reps, t', st)"
    by (cases "msRemoveHashTable (Some t) (Some k)") auto
  then have u: "t' = Some (tbl_remove t k)"
    by (auto simp: tbl_remove_def msRemoveHashTable_def Let_def split: if_splits prod.splits)
  have "st = (if msLookupHashTable (Some t) (Some k) = None then MS_FAILURE else MS_SUCCESS)"
    using r chain_unlink_status [of k "items t ! hash k"]
    by (auto simp: msRemoveHashTable_def msLookupHashTable_def Let_def split: if_splits prod.splits)
  moreover have "numitems (tbl_remove t k) = numitems t - (if st = MS_SUCCESS then 1 else 0)"
    and "reps \<noteq> [] \<longleftrightarrow> items t ! hash k = []"
    using r by (auto simp: tbl_remove_def msRemoveHashTable_def Let_def split: if_splits prod.splits)
  ultimately show ?thesis
    using r u ht.invar_del [OF assms] ht.look_del [OF assms] by blast
qed

theorem hash_remove_correct_witness:
  "hash_ok msCreateHashTable \<and>
   snd (snd (msRemoveHashTable (Some msCreateHashTable) (Some ''Key''))) = MS_FAILURE"
proof -
  have "msLookupHashTable (Some msCreateHashTable) (Some ''Key'') = None"
    by (simp add: msLookupHashTable_def msCreateHashTable_def)
  then show ?thesis
    using hash_remove_correct [OF msCreateHashTable_ok, of "''Key''"] msCreateHashTable_ok by auto
qed

text \<open>C29. Iterating a valid table with \<open>msFirstKeyFromHashTable\<close> and
  \<open>msNextKeyFromHashTable\<close> stops after \<open>numitems\<close> steps and yields each stored key once:
  no two keys agree up to case, there are \<open>numitems\<close> of them, and they are exactly the keys
  a lookup finds.\<close>

theorem hash_iteration_complete:
  assumes "hash_ok t"
  shows "\<exists>ks. key_loop (nat (numitems t)) t (snd (msFirstKeyFromHashTable (Some t))) = Some ks
     \<and> int (length ks) = numitems t \<and> distinct (map lower ks)
     \<and> (\<forall>k. msLookupHashTable (Some t) (Some k) \<noteq> None \<longleftrightarrow> lower k \<in> lower ` set ks)"
proof (intro exI conjI)
  have "length (concat (items t)) \<le> nat (numitems t)"
    using length_table_keys [OF assms] by (simp add: table_keys_def)
  from key_loop_suffix [OF assms, of "[]", OF _ this]
  show "key_loop (nat (numitems t)) t (snd (msFirstKeyFromHashTable (Some t))) = Some (table_keys t)"
    by (simp add: msFirstKeyFromHashTable_def first_chain_key_concat table_keys_def)
  show "\<forall>k. msLookupHashTable (Some t) (Some k) \<noteq> None \<longleftrightarrow> lower k \<in> lower ` set (table_keys t)"
    using table_keys_lookup [OF assms] by blast
qed (simp_all add: length_table_keys table_keys_distinct assms)

theorem hash_iteration_complete_witness:
  "hash_ok (tbl_insert msCreateHashTable ''a'' ''1'') \<and>
   (\<exists>ks. key_loop (nat (numitems (tbl_insert msCreateHashTable ''a'' ''1'')))
      (tbl_insert msCreateHashTable ''a'' ''1'')
      (snd (msFirstKeyFromHashTable (Some (tbl_insert msCreateHashTable ''a'' ''1'')))) = Some ks)"
  using hash_iteration_complete [OF tbl_insert_ok [OF msCreateHashTable_ok], of "''a''" "''1''"]
    tbl_insert_ok [OF msCreateHashTable_ok] by blast

end
