(* ===== verification/MapString.thy ===== *)
theory MapString
  imports MS_Prelude
begin

text \<open>
  \<open>mapstring.cpp\<close>: the path builder used by the key file reader and by the error log, and the
  URL encoder whose output the request reader of \<open>cgiutil.c\<close> decodes.
\<close>

section \<open>Bounded copies\<close>

text \<open>
  \<open>strlcpy(dst, src, siz)\<close>: the bytes copied while \<open>n\<close> of them still fit, and the text of \<open>dst\<close>
  afterwards, which no caller here passes with \<open>siz = 0\<close>.
\<close>

fun strlcpy_bytes :: "string \<Rightarrow> nat \<Rightarrow> string" where
  "strlcpy_bytes s 0 = []"
| "strlcpy_bytes [] (Suc n) = []"
| "strlcpy_bytes (c # s) (Suc n) = c # strlcpy_bytes s n"

definition strlcpy :: "string \<Rightarrow> nat \<Rightarrow> string" where
  "strlcpy src siz = strlcpy_bytes src (siz - 1)"

lemma strlcpy_bytes_eq: "strlcpy_bytes s n = take n s"
  by (induction s n rule: strlcpy_bytes.induct) auto

lemma strlcpy_def': "strlcpy src siz = take (siz - 1) src"
  by (simp add: strlcpy_def strlcpy_bytes_eq)

text \<open>
  \<open>strlcat(dst, src, siz)\<close>: with no room left nothing is written, else the characters of \<open>src\<close> are
  appended while more than one byte is left.
\<close>

definition strlcat :: "string \<Rightarrow> string \<Rightarrow> nat \<Rightarrow> string" where
  "strlcat dst src siz = (if siz \<le> length dst then dst else dst @ strlcpy_bytes src (siz - length dst - 1))"

lemma strlcat_eq: "length dst < siz \<Longrightarrow> strlcat dst src siz = take (siz - 1) (dst @ src)"
  by (simp add: strlcat_def strlcpy_bytes_eq)

section \<open>Paths\<close>

abbreviation (input) MS_MAXPATHLEN :: nat where "MS_MAXPATHLEN \<equiv> 1024"

definition msBuildPath :: "string option \<Rightarrow> string option \<Rightarrow> report list \<times> string option" where
  "msBuildPath abs_path path =
     (case path of
        None \<Rightarrow> ([Report MS_IOERR '''' ''msBuildPath''], None)
      | Some p \<Rightarrow>
          (let abslen = (case abs_path of None \<Rightarrow> 0 | Some a \<Rightarrow> length a); pathlen = length p in
           if pathlen + abslen + 2 > MS_MAXPATHLEN then
             ([Report MS_IOERR ''Path is too long.  Check server logs.'' ''msBuildPath()''], None)
           else
             (case abs_path of
                None \<Rightarrow> ([], Some p)
              | Some a \<Rightarrow>
                  if abslen = 0 \<or> (p \<noteq> [] \<and> (p ! 0 = CHR 0x5C \<or> p ! 0 = CHR ''/''))
                     \<or> (pathlen > 1 \<and> p ! 1 = CHR '':'')
                  then ([], Some p)
                  else if last a = CHR ''/'' \<or> last a = CHR 0x5C then ([], Some (a @ p))
                  else ([], Some (a @ ''/'' @ p)))))"

text \<open>A built path always fits the caller's buffer, terminating NUL included.\<close>

lemma msBuildPath_length:
  "msBuildPath a p = (reps, Some r) \<Longrightarrow> length r + 1 \<le> MS_MAXPATHLEN \<and> reps = []"
  by (auto simp: msBuildPath_def Let_def split: option.splits if_splits)


section \<open>URL encoding\<close>

text \<open>\<open>msEncodeChar\<close>: the characters that stay are letters, digits and \<open>! ' ( ) * - . _ ~\<close>.\<close>

definition msEncodeChar :: "char \<Rightarrow> bool" where
  "msEncodeChar c =
     (let n = of_char c :: nat in
      \<not> ((0x61 \<le> n \<and> n \<le> 0x7A) \<or> (0x41 \<le> n \<and> n \<le> 0x5A) \<or> (0x30 \<le> n \<and> n \<le> 0x39) \<or>
         (0x27 \<le> n \<and> n \<le> 0x2A) \<or> (0x2D \<le> n \<and> n \<le> 0x2E) \<or> n = 0x5F \<or> n = 0x21 \<or> n = 0x7E))"

definition upper_hex :: "nat \<Rightarrow> char" where
  "upper_hex n = ''0123456789ABCDEF'' ! n"

text \<open>An exception character NUL means no exception.\<close>

fun msEncodeUrlExcept :: "string \<Rightarrow> char \<Rightarrow> string" where
  "msEncodeUrlExcept [] exc = []"
| "msEncodeUrlExcept (c # cs) exc =
     (if exc \<noteq> CHR 0x00 \<and> c = exc then exc # msEncodeUrlExcept cs exc
      else if msEncodeChar c
      then let ch = of_char c :: nat in
           CHR ''%'' # upper_hex (ch div 16) # upper_hex (ch mod 16) # msEncodeUrlExcept cs exc
      else c # msEncodeUrlExcept cs exc)"

definition msEncodeUrl :: "string \<Rightarrow> string" where
  "msEncodeUrl s = msEncodeUrlExcept s (CHR 0x00)"

end
