(* ===== verification/MapCrypto.thy ===== *)
theory MapCrypto
  imports MapHash MapString
begin

text \<open>
  \<^verbatim>\<open>mapcrypto.c\<close>: the TEA block cipher, hexadecimal coding, and the encryption of connection
  strings with a key read from a file. Buffers and C strings are byte lists (without the
  terminating NUL); \<open>char\<close> is signed, and the host is little-endian, which fixes how bytes
  map to the words the cipher works on. The key file, the process configuration of GDAL and
  the file system are parameters.
\<close>

section \<open>The block cipher\<close>

abbreviation (input) delta :: u32 where "delta \<equiv> 0x9E3779B9"

definition tea_mix :: "u32 \<Rightarrow> u32 \<Rightarrow> u32 \<Rightarrow> u32" where
  "tea_mix z sm kw = ((push_bit 4 z XOR drop_bit 5 z) + z) XOR (sm + kw)"

fun encipher_loop :: "nat \<Rightarrow> u32 list \<Rightarrow> u32 \<Rightarrow> u32 \<Rightarrow> u32 \<Rightarrow> u32 \<times> u32" where
  "encipher_loop 0 k y z sm = (y, z)"
| "encipher_loop (Suc n) k y z sm =
     (let y' = y + tea_mix z sm (k ! unat (sm AND 3));
          sm' = sm + delta;
          z' = z + tea_mix y' sm' (k ! unat (drop_bit 11 sm' AND 3))
      in encipher_loop n k y' z' sm')"

definition encipher :: "u32 \<times> u32 \<Rightarrow> u32 list \<Rightarrow> u32 \<times> u32" where
  "encipher v k = encipher_loop 32 k (fst v) (snd v) 0"

fun decipher_loop :: "nat \<Rightarrow> u32 list \<Rightarrow> u32 \<Rightarrow> u32 \<Rightarrow> u32 \<Rightarrow> u32 \<times> u32" where
  "decipher_loop 0 k y z sm = (y, z)"
| "decipher_loop (Suc n) k y z sm =
     (let z' = z - tea_mix y sm (k ! unat (drop_bit 11 sm AND 3));
          sm' = sm - delta;
          y' = y - tea_mix z' sm' (k ! unat (sm' AND 3))
      in decipher_loop n k y' z' sm')"

definition decipher :: "u32 \<times> u32 \<Rightarrow> u32 list \<Rightarrow> u32 \<times> u32" where
  "decipher v k = decipher_loop 32 k (fst v) (snd v) 0xC6EF3720"

section \<open>Hexadecimal coding\<close>

text \<open>\<open>hex[n]\<close> for the table \<open>0123456789ABCDEF\<close>.\<close>

definition hex_digit :: "byte \<Rightarrow> byte" where
  "hex_digit n = of_char (''0123456789ABCDEF'' ! unat n)"

fun msHexEncode :: "byte list \<Rightarrow> byte list" where
  "msHexEncode [] = []"
| "msHexEncode (b # bs) = hex_digit (b div 16) # hex_digit (b mod 16) # msHexEncode bs"

text \<open>
  The value of one digit, an \<open>int\<close> expression on a signed \<open>char\<close>: no check that the
  character is a digit.
\<close>

definition hex_value :: "byte \<Rightarrow> int" where
  "hex_value c = (if 65 \<le> sint c then (uint (c AND 0xDF) - 65) + 10 else sint c - 48)"

fun hex_decode_loop :: "byte list \<Rightarrow> int \<Rightarrow> byte list" where
  "hex_decode_loop (c1 # c2 # rest) numchars =
     (if numchars \<noteq> 0
      then (word_of_int (0x10 * hex_value c1) + word_of_int (hex_value c2)) # hex_decode_loop rest (numchars - 2)
      else [])"
| "hex_decode_loop _ numchars = []"

text \<open>The bytes written to \<open>out\<close>; the returned count is their number.\<close>

definition msHexDecode :: "byte list \<Rightarrow> int \<Rightarrow> byte list" where
  "msHexDecode inp numchars =
     (let n = (numchars div 2) * 2 in hex_decode_loop inp (if n < 2 then -1 else n))"

section \<open>Bytes and words\<close>

definition bytes_le :: "u32 \<Rightarrow> byte list" where
  "bytes_le w = [ucast w, ucast (drop_bit 8 w), ucast (drop_bit 16 w), ucast (drop_bit 24 w)]"

fun word_le :: "byte list \<Rightarrow> u32" where
  "word_le [] = 0"
| "word_le (b # bs) = ucast b OR push_bit 8 (word_le bs)"

text \<open>The 16 key bytes read as four words.\<close>

definition key_words :: "byte list \<Rightarrow> u32 list" where
  "key_words key = [word_le (take 4 key), word_le (take 4 (drop 4 key)),
     word_le (take 4 (drop 8 key)), word_le (take 4 (drop 12 key))]"

section \<open>Strings\<close>

text \<open>
  Copying up to four characters into \<open>v[i]\<close>. A \<open>char\<close> is promoted to \<open>int\<close> before the shift,
  so it is sign-extended. The flag is \<open>last_block\<close>.
\<close>

function encrypt_fill :: "nat \<Rightarrow> u32 \<Rightarrow> byte list \<Rightarrow> u32 \<times> byte list \<times> bool" where
  "encrypt_fill j v inp =
     (if j < 4 then
        (case inp of [] \<Rightarrow> (v, [], True)
         | c # cs \<Rightarrow> encrypt_fill (j + 1) (v OR push_bit (j * 8) (signed c)) cs)
      else (v, inp, False))"
  by pat_completeness auto
termination
  by (relation "measure (\<lambda>(j, v, inp). 4 - j)") auto

declare encrypt_fill.simps [simp del]

text \<open>One pass of the block loop: the block, the rest of the input and \<open>last_block\<close>.\<close>

definition encrypt_block :: "byte list \<Rightarrow> (u32 \<times> u32) \<times> byte list \<times> bool" where
  "encrypt_block inp =
     (let (v0, in1, last1) = encrypt_fill 0 0 inp;
          (v1, in2, last2) = (if last1 then (0, in1, True) else encrypt_fill 0 0 in1)
      in ((v0, v1), in2, last2 \<or> in2 = []))"

lemma encrypt_fill_length:
  "encrypt_fill j v inp = (w, rest, False) \<Longrightarrow> length rest + (4 - j) = length inp"
proof (induction j v inp rule: encrypt_fill.induct)
  case (1 j v inp)
  from "1.prems" have "(if j < 4 then
      (case inp of [] \<Rightarrow> (v, [], True)
       | c # cs \<Rightarrow> encrypt_fill (j + 1) (v OR push_bit (j * 8) (signed c)) cs)
      else (v, inp, False)) = (w, rest, False)"
    by (simp only: encrypt_fill.simps [of j v inp])
  then show ?case
    using "1.IH" by (auto split: if_splits list.splits)
qed

lemma encrypt_block_shorter: "encrypt_block inp = (v, rest, False) \<Longrightarrow> length rest < length inp"
  by (auto simp: encrypt_block_def Let_def split: prod.splits if_splits dest!: encrypt_fill_length)

function msEncryptStringWithKey :: "byte list \<Rightarrow> byte list \<Rightarrow> byte list" where
  "msEncryptStringWithKey key inp =
     (case encrypt_block inp of (v, rest, last_block) \<Rightarrow>
        (case encipher v (key_words key) of (w0, w1) \<Rightarrow>
           msHexEncode (bytes_le w0) @ msHexEncode (bytes_le w1)
           @ (if last_block then [] else msEncryptStringWithKey key rest)))"
  by pat_completeness auto
termination
  by (relation "measure (\<lambda>(key, inp). length inp)") (auto dest: encrypt_block_shorter [OF sym])

declare msEncryptStringWithKey.simps [simp del]

text \<open>
  One pass of the decryption loop. The hexadecimal digits are decoded straight into \<open>v\<close>, which
  was zeroed; a short read ends the loop after this block.
\<close>

definition decrypt_block :: "byte list \<Rightarrow> (u32 \<times> u32) \<times> byte list \<times> bool" where
  "decrypt_block inp =
     (let d0 = msHexDecode inp 8 in
      if length d0 \<noteq> 4 then ((word_le d0, 0), inp, True)
      else
        (let in1 = drop 8 inp; d1 = msHexDecode in1 8 in
         if length d1 \<noteq> 4 then ((word_le d0, word_le d1), in1, True)
         else ((word_le d0, word_le d1), drop 8 in1, False)))"

lemma hex_decode_loop_length: "2 * length (hex_decode_loop inp n) \<le> length inp"
  by (induction inp n rule: hex_decode_loop.induct) auto

lemma decrypt_block_shorter: "decrypt_block inp = (v, rest, False) \<Longrightarrow> length rest < length inp"
  using hex_decode_loop_length [of inp 8]
  by (auto simp: decrypt_block_def msHexDecode_def Let_def split: if_splits)

text \<open>Every byte written to \<open>out\<close>, without the terminating NUL that ends the buffer.\<close>

function decrypt_bytes :: "byte list \<Rightarrow> byte list \<Rightarrow> byte list" where
  "decrypt_bytes key inp =
     (case decrypt_block inp of (v, rest, last_block) \<Rightarrow>
        (case decipher v (key_words key) of (w0, w1) \<Rightarrow>
           bytes_le w0 @ bytes_le w1
           @ (if last_block \<or> rest = [] then [] else decrypt_bytes key rest)))"
  by pat_completeness auto
termination
  by (relation "measure (\<lambda>(key, inp). length inp)") (auto dest: decrypt_block_shorter [OF sym])

declare decrypt_bytes.simps [simp del]

text \<open>The buffer \<open>out\<close> after the call, and the C string it holds.\<close>

definition msDecryptStringWithKey :: "byte list \<Rightarrow> byte list \<Rightarrow> byte list" where
  "msDecryptStringWithKey key inp = decrypt_bytes key inp @ [0]"

definition c_string :: "byte list \<Rightarrow> byte list" where
  "c_string buf = takeWhile (\<lambda>c. c \<noteq> 0) buf"

section \<open>The key and the tokens of a map\<close>

text \<open>The fields of \<open>mapObj\<close> these functions use.\<close>

record mapKeys =
  configoptions :: hashTableObj
  mappath :: "string option"
  encryption_key_loaded :: bool
  encryption_key :: "byte list"

text \<open>The process environment: \<open>CPLGetConfigOption\<close> of GDAL and the files that \<open>fopen\<close> finds.\<close>

record cryptoEnv =
  cplGetConfigOption :: "string \<Rightarrow> string option"
  file_content :: "string \<Rightarrow> byte list option"

abbreviation (input) MS_ENCRYPTION_KEY_SIZE :: nat where "MS_ENCRYPTION_KEY_SIZE \<equiv> 16"

text \<open>\<open>rand\<close> is a parameter: the sequence of values it returns after \<open>srand\<close>.\<close>

definition msGenerateEncryptionKey :: "(nat \<Rightarrow> int) \<Rightarrow> byte list" where
  "msGenerateEncryptionKey rand = map (\<lambda>i. word_of_int (rand i)) [0..<MS_ENCRYPTION_KEY_SIZE]"

definition msReadEncryptionKeyFromFile ::
  "cryptoEnv \<Rightarrow> string \<Rightarrow> byte list \<Rightarrow> string option \<Rightarrow> report list \<times> byte list \<times> ms_return" where
  "msReadEncryptionKeyFromFile env keyfile k relTo =
     (case msBuildPath relTo (Some keyfile) of
        (reps, None) \<Rightarrow> (reps, k, MS_FAILURE)
      | (reps, Some path) \<Rightarrow>
          (case file_content env path of
             None \<Rightarrow> (reps @ [Report MS_MISCERR ''Cannot open key file.''
                        ''msReadEncryptionKeyFromFile()''], k, MS_FAILURE)
           | Some content \<Rightarrow>
               (let szBuf = take (MS_ENCRYPTION_KEY_SIZE * 2) content in
                if length szBuf \<noteq> MS_ENCRYPTION_KEY_SIZE * 2 then
                  (reps @ [Report MS_MISCERR ''Invalid key file, got %d chars, expected %d.''
                     ''msReadEncryptionKeyFromFile()''], k, MS_FAILURE)
                else
                  (let d = msHexDecode (c_string szBuf) (int (MS_ENCRYPTION_KEY_SIZE * 2)) in
                   (reps, d @ drop (length d) k, MS_SUCCESS)))))"

definition msLoadEncryptionKey ::
  "cryptoEnv \<Rightarrow> mapKeys option \<Rightarrow> report list \<times> mapKeys option \<times> ms_return" where
  "msLoadEncryptionKey env mo =
     (case mo of
        None \<Rightarrow> ([Report MS_MISCERR ''NULL MapObj.'' ''msLoadEncryptionKey()''], None, MS_FAILURE)
      | Some m \<Rightarrow>
          if encryption_key_loaded m then ([], Some m, MS_SUCCESS)
          else
            (let failed = Report MS_MISCERR (''Failed reading encryption key. Make sure '' @
                   ''MS_ENCRYPTION_KEY is set and points to a valid key file.'') ''msLoadEncryptionKey()'';
                 keyfile = (case msLookupHashTable (Some (configoptions m)) (Some ''MS_ENCRYPTION_KEY'') of
                   None \<Rightarrow> cplGetConfigOption env ''MS_ENCRYPTION_KEY'' | Some f \<Rightarrow> Some f) in
             (case keyfile of
                None \<Rightarrow> ([failed], Some m, MS_FAILURE)
              | Some f \<Rightarrow>
                  (case msReadEncryptionKeyFromFile env f (encryption_key m) (mappath m) of
                     (reps, k, st) \<Rightarrow>
                       (let m' = m\<lparr>encryption_key := k\<rparr> in
                        if st = MS_SUCCESS then (reps, Some (m'\<lparr>encryption_key_loaded := True\<rparr>), MS_SUCCESS)
                        else (reps @ [failed], Some m', MS_FAILURE))))))"

definition isxdigit :: "byte \<Rightarrow> bool" where
  "isxdigit c \<longleftrightarrow> (48 \<le> c \<and> c \<le> 57) \<or> (65 \<le> c \<and> c \<le> 70) \<or> (97 \<le> c \<and> c \<le> 102)"

text \<open>
  The text after an opening brace starts a token when a closing brace follows and all of the
  two or more characters between are hexadecimal digits: the token and what follows it.
\<close>

definition read_token :: "byte list \<Rightarrow> (byte list \<times> byte list) option" where
  "read_token cs =
     (let tok = takeWhile (\<lambda>c. c \<noteq> 0x7D) cs in
      if length tok < length cs \<and> 1 < length tok \<and> list_all isxdigit tok
      then Some (tok, drop (length tok + 1) cs) else None)"

lemma read_token_shorter: "read_token cs = Some (tok, rest) \<Longrightarrow> length rest < length cs"
  by (auto simp: read_token_def Let_def split: if_splits)

function decrypt_tokens :: "cryptoEnv \<Rightarrow> mapKeys \<Rightarrow> byte list \<Rightarrow> report list \<times> mapKeys \<times> byte list option" where
  "decrypt_tokens env m inp =
     (case inp of
        [] \<Rightarrow> ([], m, Some [])
      | c # cs \<Rightarrow>
          (let copy = (case decrypt_tokens env m cs of (r, m', out) \<Rightarrow> (r, m', map_option (Cons c) out)) in
           if c = 0x7B then
             (case read_token cs of
                None \<Rightarrow> copy
              | Some (tok, rest) \<Rightarrow>
                  (case msLoadEncryptionKey env (Some m) of
                     (reps, m1, st) \<Rightarrow>
                       if st \<noteq> MS_SUCCESS then (reps, the m1, None)
                       else
                         (case decrypt_tokens env (the m1) rest of (r, m', out) \<Rightarrow>
                            (reps @ r, m', map_option
                               (append (c_string (msDecryptStringWithKey (encryption_key (the m1)) tok))) out))))
           else copy))"
  by pat_completeness auto
termination
  by (relation "measure (\<lambda>(env, m, inp). length inp)")
    (auto dest: read_token_shorter)

declare decrypt_tokens.simps [simp del]

definition msDecryptStringTokens ::
  "cryptoEnv \<Rightarrow> mapKeys option \<Rightarrow> byte list \<Rightarrow> report list \<times> mapKeys option \<times> byte list option" where
  "msDecryptStringTokens env mo inp =
     (case mo of
        None \<Rightarrow> ([Report MS_MISCERR ''NULL MapObj.'' ''msLoadEncryptionKey()''], None, None)
      | Some m \<Rightarrow> (case decrypt_tokens env m inp of (reps, m', out) \<Rightarrow> (reps, Some m', out)))"

section \<open>The contract of a block cipher\<close>

text \<open>
  The string functions only need a cipher whose two directions undo each other. What holds of
  a run of blocks under any such cipher is proved here.
\<close>

locale block_cipher =
  fixes enc dec :: "'b \<Rightarrow> 'k \<Rightarrow> 'b"
  assumes dec_enc: "dec (enc v k) k = v"
    and enc_dec: "enc (dec v k) k = v"
begin

lemma enc_inj: "enc v k = enc v' k \<longleftrightarrow> v = v'"
  by (metis dec_enc)

lemma enc_bij: "bij (\<lambda>v. enc v k)"
  by (rule bij_betw_byWitness [where f' = "\<lambda>v. dec v k"]) (auto simp: dec_enc enc_dec)

lemma map_dec_enc: "map (\<lambda>v. dec v k) (map (\<lambda>v. enc v k) vs) = vs"
  by (simp add: dec_enc comp_def)

end

lemma funpow_inverse:
  fixes f g :: "'a \<Rightarrow> 'a"
  assumes "\<And>x. g (f x) = x"
  shows "(g ^^ n) ((f ^^ n) x) = x"
  by (induction n arbitrary: x) (simp_all add: assms funpow_swap1)

definition enc_step :: "u32 list \<Rightarrow> u32 \<times> u32 \<times> u32 \<Rightarrow> u32 \<times> u32 \<times> u32" where
  "enc_step k = (\<lambda>(y, z, sm).
     let y' = y + tea_mix z sm (k ! unat (sm AND 3)); sm' = sm + delta
     in (y', z + tea_mix y' sm' (k ! unat (drop_bit 11 sm' AND 3)), sm'))"

definition dec_step :: "u32 list \<Rightarrow> u32 \<times> u32 \<times> u32 \<Rightarrow> u32 \<times> u32 \<times> u32" where
  "dec_step k = (\<lambda>(y, z, sm).
     let z' = z - tea_mix y sm (k ! unat (drop_bit 11 sm AND 3)); sm' = sm - delta
     in (y - tea_mix z' sm' (k ! unat (sm' AND 3)), z', sm'))"

lemma dec_enc_step: "dec_step k (enc_step k s) = s" and enc_dec_step: "enc_step k (dec_step k s) = s"
  by (auto simp: enc_step_def dec_step_def Let_def split: prod.splits)

lemma encipher_loop_funpow:
  "encipher_loop n k y z sm = (case (enc_step k ^^ n) (y, z, sm) of (y', z', _) \<Rightarrow> (y', z'))"
  by (induction n k y z sm rule: encipher_loop.induct)
    (simp_all add: funpow_swap1 enc_step_def Let_def)

lemma decipher_loop_funpow:
  "decipher_loop n k y z sm = (case (dec_step k ^^ n) (y, z, sm) of (y', z', _) \<Rightarrow> (y', z'))"
  by (induction n k y z sm rule: decipher_loop.induct)
    (simp_all add: funpow_swap1 dec_step_def Let_def)

lemma enc_step_sum: "snd (snd ((enc_step k ^^ n) s)) = snd (snd s) + of_nat n * delta"
  by (induction n) (auto simp: enc_step_def Let_def algebra_simps split: prod.splits)

lemma dec_step_sum: "snd (snd ((dec_step k ^^ n) s)) = snd (snd s) - of_nat n * delta"
  by (induction n) (auto simp: dec_step_def Let_def algebra_simps split: prod.splits)

lemma decipher_encipher: "decipher (encipher v k) k = v"
proof -
  obtain y z sm where e: "(enc_step k ^^ 32) (fst v, snd v, 0) = (y, z, sm)"
    by (cases "(enc_step k ^^ 32) (fst v, snd v, 0)") auto
  have "sm = 0xC6EF3720" using enc_step_sum [of 32 k "(fst v, snd v, 0)"] e by simp
  moreover have "(dec_step k ^^ 32) (y, z, sm) = (fst v, snd v, 0)"
    unfolding e [symmetric] by (rule funpow_inverse) (rule dec_enc_step)
  ultimately show ?thesis
    by (simp add: encipher_def decipher_def encipher_loop_funpow decipher_loop_funpow e)
qed

lemma encipher_decipher: "encipher (decipher v k) k = v"
proof -
  obtain y z sm where e: "(dec_step k ^^ 32) (fst v, snd v, 0xC6EF3720) = (y, z, sm)"
    by (cases "(dec_step k ^^ 32) (fst v, snd v, 0xC6EF3720)") auto
  have "sm = 0" using dec_step_sum [of 32 k "(fst v, snd v, 0xC6EF3720)"] e by simp
  moreover have "(enc_step k ^^ 32) (y, z, sm) = (fst v, snd v, 0xC6EF3720)"
    unfolding e [symmetric] by (rule funpow_inverse) (rule enc_dec_step)
  ultimately show ?thesis
    by (simp add: encipher_def decipher_def encipher_loop_funpow decipher_loop_funpow e)
qed

interpretation tea: block_cipher encipher decipher
  by unfold_locales (rule decipher_encipher, rule encipher_decipher)

section \<open>Coding lemmas\<close>

lemma hex_value_digit:
  assumes "n < 16"
  shows "hex_value (hex_digit n) = uint n"
proof -
  have "list_all (\<lambda>m. hex_value (hex_digit (of_nat m)) = int m) [0..<16]"
    by code_simp
  moreover have "unat n < 16" using assms by (simp add: word_less_nat_alt)
  ultimately have "hex_value (hex_digit (of_nat (unat n))) = int (unat n)"
    unfolding list_all_iff by (metis atLeast_upt lessThan_iff)
  then show ?thesis by simp
qed

lemma nibble_bounds: "(b::byte) div 16 < 16" "(b::byte) mod 16 < 16"
proof -
  have "unat b div 16 < 16" using unsigned_less [of b] by (simp add: div_less_iff_less_mult)
  then show "b div 16 < 16" by (simp add: word_less_nat_alt unat_div)
  show "b mod 16 < 16" by (rule word_mod_less_divisor) simp
qed

lemma hex_decode_loop_0 [simp]: "hex_decode_loop cs 0 = []"
  by (cases "(cs, 0 :: int)" rule: hex_decode_loop.cases) auto

lemma hex_decode_loop_encode:
  "n = 2 * int (length bs) \<Longrightarrow> hex_decode_loop (msHexEncode bs @ rest) n = bs"
  by (induction bs arbitrary: n)
    (simp_all add: hex_value_digit nibble_bounds mult_div_mod_eq)

lemma length_msHexEncode [simp]: "length (msHexEncode bs) = 2 * length bs"
  by (induction bs) auto

lemma msHexDecode_encode4:
  "length bs = 4 \<Longrightarrow> msHexDecode (msHexEncode bs @ rest) 8 = bs"
  by (simp add: msHexDecode_def hex_decode_loop_encode)

lemma length_bytes_le [simp]: "length (bytes_le w) = 4"
  by (simp add: bytes_le_def)

lemma word_le_bytes_le [simp]: "word_le (bytes_le w) = w"
proof (rule bit_word_eqI)
  fix n assume "n < LENGTH(32)"
  then consider "n < 8" | "8 \<le> n" "n < 16" | "16 \<le> n" "n < 24" | "24 \<le> n" "n < 32" by force
  then show "bit (word_le (bytes_le w)) n = bit w n"
    by cases (auto simp: bytes_le_def bit_simps)
qed

text \<open>The word the encryption builds from up to four characters, sign extension included.\<close>

fun sword_le :: "byte list \<Rightarrow> u32" where
  "sword_le [] = 0"
| "sword_le (b # bs) = signed b OR push_bit 8 (sword_le bs)"

lemma encrypt_fill_eq:
  "j \<le> 4 \<Longrightarrow> encrypt_fill j v inp =
     (v OR push_bit (8 * j) (sword_le (take (4 - j) inp)), drop (4 - j) inp, length inp < 4 - j)"
proof (induction j v inp rule: encrypt_fill.induct)
  case (1 j v inp)
  show ?case
  proof (cases "j < 4")
    case False
    with "1.prems" have "j = 4" by simp
    then show ?thesis by (simp add: encrypt_fill.simps [of 4 v inp])
  next
    case True
    show ?thesis
    proof (cases inp)
      case Nil
      then show ?thesis using True by (simp add: encrypt_fill.simps [of j v])
    next
      case (Cons c cs)
      obtain m where m: "4 - j = Suc m" "m = 4 - (j + 1)" using True by (cases "4 - j") auto
      have "encrypt_fill j v inp = encrypt_fill (j + 1) (v OR push_bit (j * 8) (signed c)) cs"
        using True Cons by (simp add: encrypt_fill.simps [of j v "c # cs"])
      also have "\<dots> = ((v OR push_bit (j * 8) (signed c)) OR push_bit (8 * (j + 1)) (sword_le (take m cs)),
          drop m cs, length cs < m)"
        using "1.IH" [OF True Cons] True m(2) by simp
      finally show ?thesis
        using Cons m(1) by (simp add: push_bit_or or.assoc mult.commute add.commute)
    qed
  qed
qed

lemma encrypt_block_eq:
  "encrypt_block inp = ((sword_le (take 4 inp), sword_le (take 4 (drop 4 inp))), drop 8 inp, length inp \<le> 8)"
  by (auto simp: encrypt_block_def encrypt_fill_eq Let_def)

lemma decrypt_block_encode:
  "decrypt_block (msHexEncode (bytes_le w0) @ msHexEncode (bytes_le w1) @ rest) = ((w0, w1), rest, False)"
  by (simp add: decrypt_block_def msHexDecode_encode4 Let_def)

text \<open>What decryption makes of an encrypted string: the blocks the encryption built.\<close>

function plain_bytes :: "byte list \<Rightarrow> byte list" where
  "plain_bytes inp = bytes_le (sword_le (take 4 inp)) @ bytes_le (sword_le (take 4 (drop 4 inp)))
     @ (if length inp \<le> 8 then [] else plain_bytes (drop 8 inp))"
  by pat_completeness auto
termination
  by (relation "measure length") auto

declare plain_bytes.simps [simp del]

lemma msEncrypt_nonempty [simp]: "msEncryptStringWithKey key inp \<noteq> []"
  by (subst msEncryptStringWithKey.simps) (auto simp: bytes_le_def split: prod.split)

lemma decrypt_encrypt_bytes: "decrypt_bytes key (msEncryptStringWithKey key inp) = plain_bytes inp"
proof (induction inp rule: plain_bytes.induct)
  case (1 inp)
  let ?v = "(sword_le (take 4 inp), sword_le (take 4 (drop 4 inp)))"
  obtain w0 w1 where w: "encipher ?v (key_words key) = (w0, w1)"
    by (cases "encipher ?v (key_words key)")
  define rest where "rest = (if length inp \<le> 8 then [] else msEncryptStringWithKey key (drop 8 inp))"
  have enc: "msEncryptStringWithKey key inp = msHexEncode (bytes_le w0) @ msHexEncode (bytes_le w1) @ rest"
    by (subst msEncryptStringWithKey.simps) (simp add: encrypt_block_eq w rest_def)
  have dec: "decipher (w0, w1) (key_words key) = ?v"
    using tea.dec_enc [of ?v "key_words key"] w by simp
  have "rest = [] \<longleftrightarrow> length inp \<le> 8" by (simp add: rest_def)
  then show ?case
    using "1.IH" dec by (auto simp: enc decrypt_bytes.simps [of key "_ @ _"] decrypt_block_encode
        plain_bytes.simps [of inp] rest_def)
qed

section \<open>Seven-bit text\<close>

definition ascii :: "byte list \<Rightarrow> bool" where
  "ascii s \<longleftrightarrow> list_all (\<lambda>c. c \<noteq> 0 \<and> c < 128) s"

lemma signed_ascii:
  assumes "(c::byte) < 128"
  shows "(signed c :: u32) = ucast c"
proof (rule bit_word_eqI)
  fix n assume n: "n < LENGTH(32)"
  have "take_bit 7 c = c" using assms by (simp add: take_bit_eq_mod word_less_nat_alt word_unat_eq_iff unat_mod)
  then have hi: "\<not> bit c m" if "7 \<le> m" for m
    by (metis bit_take_bit_iff linorder_not_less that)
  show "bit (signed c :: u32) n = bit (ucast c :: u32) n"
    using n hi [of 7] hi [of n] by (auto simp: bit_simps min_def)
qed

lemma sword_le_ascii: "list_all (\<lambda>c. c < 128) bs \<Longrightarrow> sword_le bs = word_le bs"
  by (induction bs) (simp_all add: signed_ascii)

lemma word_le_pad: "word_le (bs @ replicate k 0) = word_le bs"
proof (induction bs)
  case Nil
  show ?case by (induction k) simp_all
qed simp

lemma bytes_le_word_le4: "length bs = 4 \<Longrightarrow> bytes_le (word_le bs) = bs"
proof -
  assume "length bs = 4"
  then obtain a b c d where bs: "bs = [a, b, c, d]"
    by (auto simp: numeral_eq_Suc length_Suc_conv)
  have "ucast (word_le bs) = a" "ucast (drop_bit 8 (word_le bs)) = b"
    "ucast (drop_bit 16 (word_le bs)) = c" "ucast (drop_bit 24 (word_le bs)) = d"
    by (rule bit_word_eqI; auto simp: bs bit_simps dest: bit_imp_le_length)+
  then show ?thesis by (simp add: bytes_le_def bs)
qed

lemma bytes_le_word_le: "length bs \<le> 4 \<Longrightarrow> bytes_le (word_le bs) = bs @ replicate (4 - length bs) 0"
  using bytes_le_word_le4 [of "bs @ replicate (4 - length bs) 0"] by (simp add: word_le_pad)

lemma plain_bytes_ascii:
  "list_all (\<lambda>c. c < 128) inp \<Longrightarrow> \<exists>k. plain_bytes inp = inp @ replicate k 0"
proof (induction inp rule: plain_bytes.induct)
  case (1 inp)
  have a: "list_all (\<lambda>c. c < 128) (take m (drop n inp))" for m n
    using "1.prems" by (auto simp: list_all_iff dest!: in_set_takeD in_set_dropD)
  have b: "bytes_le (sword_le (take 4 (drop n inp))) =
      take 4 (drop n inp) @ replicate (4 - (length inp - n)) 0" for n
    using a [of 4 n] by (simp add: sword_le_ascii bytes_le_word_le min_def)
  have eq: "plain_bytes inp = take 4 inp @ replicate (4 - length inp) 0
      @ take 4 (drop 4 inp) @ replicate (4 - (length inp - 4)) 0
      @ (if length inp \<le> 8 then [] else plain_bytes (drop 8 inp))"
    using b [of 0] b [of 4] by (simp add: plain_bytes.simps [of inp])
  consider "length inp \<le> 4" | "4 < length inp" "length inp \<le> 8" | "8 < length inp" by linarith
  then show ?case
  proof cases
    case 1
    then show ?thesis using eq by (auto simp flip: replicate_add)
  next
    case 2
    then have "plain_bytes inp = take 4 inp @ drop 4 inp @ replicate (4 - (length inp - 4)) 0"
      using eq by simp
    then have "plain_bytes inp = inp @ replicate (4 - (length inp - 4)) 0"
      by (simp only: append_assoc [symmetric] append_take_drop_id)
    then show ?thesis by blast
  next
    case 3
    then obtain k where k: "plain_bytes (drop 8 inp) = drop 8 inp @ replicate k 0"
      using "1.IH" a [of "length inp" 8] by auto
    have "take 4 (drop 4 inp) @ drop 8 inp = drop 4 inp"
      using append_take_drop_id [of 4 "drop 4 inp"] by simp
    then have "take 4 inp @ take 4 (drop 4 inp) @ drop 8 inp @ replicate k 0 = inp @ replicate k 0"
      by (metis append.assoc append_take_drop_id)
    then have "plain_bytes inp = inp @ replicate k 0" using eq 3 k by simp
    then show ?thesis by blast
  qed
qed

lemma c_string_pad: "list_all (\<lambda>c. c \<noteq> 0) s \<Longrightarrow> c_string (s @ replicate k 0 @ [0]) = s"
proof -
  assume "list_all (\<lambda>c. c \<noteq> 0) s"
  then have "takeWhile (\<lambda>c. c \<noteq> 0) (s @ replicate k 0 @ [0]) =
      s @ takeWhile (\<lambda>c. c \<noteq> 0) (replicate k 0 @ [0])"
    by (intro takeWhile_append2) (auto simp: list_all_iff)
  then show ?thesis by (cases k) (simp_all add: c_string_def)
qed

section \<open>How much decryption writes\<close>

lemma hex_decode_loop_count:
  "0 \<le> n \<Longrightarrow> even n \<Longrightarrow> length (hex_decode_loop inp n) = min (nat n div 2) (length inp div 2)"
proof (induction inp n rule: hex_decode_loop.induct)
  case (1 c1 c2 rest n)
  show ?case
  proof (cases "n = 0")
    case False
    with "1.prems" have n: "2 \<le> n" by presburger
    then have "length (hex_decode_loop rest (n - 2)) = min (nat (n - 2) div 2) (length rest div 2)"
      using "1.IH" "1.prems" False by simp
    moreover have "nat n div 2 = Suc (nat (n - 2) div 2)" using n by (simp add: nat_diff_distrib)
    ultimately show ?thesis using False by simp
  qed simp
qed simp_all

lemma decrypt_block_last:
  "decrypt_block inp = (v, rest, last_block) \<Longrightarrow>
     last_block = (length inp < 16) \<and> (\<not> last_block \<longrightarrow> rest = drop 16 inp)"
  by (auto simp: decrypt_block_def msHexDecode_def Let_def hex_decode_loop_count min_def split: if_splits)

lemma length_decrypt_bytes: "length (decrypt_bytes key inp) = 8 * max 1 ((length inp + 15) div 16)"
proof (induction "length inp" arbitrary: inp rule: less_induct)
  case less
  obtain v rest last_block where b: "decrypt_block inp = (v, rest, last_block)"
    by (cases "decrypt_block inp") auto
  obtain w0 w1 where w: "decipher v (key_words key) = (w0, w1)"
    by (cases "decipher v (key_words key)")
  have eq: "length (decrypt_bytes key inp) =
      8 + (if last_block \<or> rest = [] then 0 else length (decrypt_bytes key rest))"
    by (simp add: decrypt_bytes.simps [of key inp] b w)
  show ?case
  proof (cases "length inp \<le> 16")
    case True
    then have "last_block \<or> rest = []" using decrypt_block_last [OF b] by auto
    moreover have "max 1 ((length inp + 15) div 16) = 1" using True by (simp add: max_def) linarith
    ultimately show ?thesis using eq by simp
  next
    case False
    then have r: "\<not> last_block" "rest = drop 16 inp" "rest \<noteq> []"
      using decrypt_block_last [OF b] by auto
    have "length (decrypt_bytes key rest) = 8 * max 1 ((length rest + 15) div 16)"
      by (rule less) (use r False in auto)
    moreover have "(length inp + 15) div 16 = Suc ((length rest + 15) div 16)"
      "1 \<le> (length rest + 15) div 16"
      using False r(2) by (simp_all add: div_greater_zero_iff)
    ultimately show ?thesis using eq r(1,3) by simp
  qed
qed

lemma encrypt_roundtrip_text:
  assumes "ascii s"
  shows "c_string (msDecryptStringWithKey key (msEncryptStringWithKey key s)) = s"
proof -
  have "list_all (\<lambda>c. c < 128) s" and nz: "list_all (\<lambda>c. c \<noteq> 0) s"
    using assms by (auto simp: ascii_def list_all_iff)
  then obtain k where "plain_bytes s = s @ replicate k 0" using plain_bytes_ascii by blast
  then show ?thesis
    by (simp add: msDecryptStringWithKey_def decrypt_encrypt_bytes c_string_pad [OF nz])
qed

section \<open>Tokens\<close>

lemma decrypt_tokens_plain:
  "0x7B \<notin> set a \<Longrightarrow> decrypt_tokens env m (a @ inp) =
     (case decrypt_tokens env m inp of (r, m', out) \<Rightarrow> (r, m', map_option (append a) out))"
proof (induction a)
  case Nil
  show ?case by (simp add: option.map_ident split: prod.split)
next
  case (Cons c a)
  then show ?case
    by (auto simp: decrypt_tokens.simps [of env m "c # _"] Let_def option.map_comp comp_def
        split: prod.splits)
qed

lemma hex_digit_isxdigit: "n < 16 \<Longrightarrow> isxdigit (hex_digit n) \<and> hex_digit n \<noteq> 0x7D"
proof -
  assume "n < 16"
  have "list_all (\<lambda>m. isxdigit (hex_digit (of_nat m)) \<and> hex_digit (of_nat m) \<noteq> 0x7D) [0..<16]"
    by code_simp
  moreover have "unat n < 16" using \<open>n < 16\<close> by (simp add: word_less_nat_alt)
  ultimately have "isxdigit (hex_digit (of_nat (unat n))) \<and> hex_digit (of_nat (unat n)) \<noteq> 0x7D"
    unfolding list_all_iff by (metis atLeast_upt lessThan_iff)
  then show ?thesis by simp
qed

lemma msHexEncode_xdigits: "c \<in> set (msHexEncode bs) \<Longrightarrow> isxdigit c \<and> c \<noteq> 0x7D"
  by (induction bs) (auto simp: hex_digit_isxdigit nibble_bounds)

lemma msEncrypt_xdigits: "c \<in> set (msEncryptStringWithKey key inp) \<Longrightarrow> isxdigit c \<and> c \<noteq> 0x7D"
proof (induction inp rule: plain_bytes.induct)
  case (1 inp)
  obtain w0 w1 where w: "encipher (sword_le (take 4 inp), sword_le (take 4 (drop 4 inp))) (key_words key) = (w0, w1)"
    by (cases "encipher (sword_le (take 4 inp), sword_le (take 4 (drop 4 inp))) (key_words key)")
  have "msEncryptStringWithKey key inp = msHexEncode (bytes_le w0) @ msHexEncode (bytes_le w1)
      @ (if length inp \<le> 8 then [] else msEncryptStringWithKey key (drop 8 inp))"
    by (subst msEncryptStringWithKey.simps) (simp add: encrypt_block_eq w)
  then show ?case
    using 1 msHexEncode_xdigits by (auto split: if_splits)
qed

lemma msEncrypt_length: "16 \<le> length (msEncryptStringWithKey key inp)"
  by (subst msEncryptStringWithKey.simps) (auto split: prod.split)

lemma read_token_encrypted:
  "read_token (msEncryptStringWithKey key s @ 0x7D # b) = Some (msEncryptStringWithKey key s, b)"
proof -
  let ?t = "msEncryptStringWithKey key s"
  have "takeWhile (\<lambda>c. c \<noteq> 0x7D) (?t @ 0x7D # b) = ?t"
    using msEncrypt_xdigits [of _ key s] by (subst takeWhile_append2) auto
  moreover have "list_all isxdigit ?t" "1 < length ?t"
    using msEncrypt_xdigits [of _ key s] msEncrypt_length [of key s] by (auto simp: list_all_iff)
  ultimately show ?thesis by (simp add: read_token_def)
qed

section \<open>Properties\<close>

text \<open>Under every key the two directions of the block cipher undo each other on every pair
  of 32-bit words, so each is a permutation of the blocks.\<close>

theorem tea_inverse:
  "decipher (encipher v k) k = v \<and> encipher (decipher v k) k = v \<and> bij (\<lambda>v. encipher v k)"
  by (simp add: tea.dec_enc tea.enc_dec tea.enc_bij)

text \<open>Decoding the hexadecimal form of any bytes gives the bytes back, whether the whole
  string is decoded or exactly its number of characters.\<close>

theorem hex_roundtrip:
  "msHexDecode (msHexEncode bs) (-1) = bs
    \<and> (bs \<noteq> [] \<longrightarrow> msHexDecode (msHexEncode bs @ rest) (int (2 * length bs)) = bs)"
proof -
  have "n < 0 \<Longrightarrow> hex_decode_loop (msHexEncode bs) n = bs" for n
    by (induction bs arbitrary: n) (simp_all add: hex_value_digit nibble_bounds mult_div_mod_eq)
  then show ?thesis
    by (auto simp: msHexDecode_def Let_def hex_decode_loop_encode neq_Nil_conv)
qed

theorem hex_roundtrip_witness:
  "msHexEncode [0x12, 0xFF] = [0x31, 0x32, 0x46, 0x46] \<and>
   msHexDecode (msHexEncode [0x12, 0xFF] @ [0x30]) 4 = [0x12, 0xFF]"
proof -
  have "msHexEncode [0x12, 0xFF] = [0x31, 0x32, 0x46, 0x46]" by code_simp
  then show ?thesis using hex_roundtrip [of "[0x12, 0xFF]" "[0x30]"] by simp
qed

text \<open>Decrypting an encrypted string of seven-bit characters with the same key gives the
  string back, whatever its length and the key.\<close>

theorem encrypt_roundtrip:
  assumes "ascii s"
  shows "c_string (msDecryptStringWithKey key (msEncryptStringWithKey key s)) = s"
  by (rule encrypt_roundtrip_text [OF assms])

theorem encrypt_roundtrip_witness:
  "ascii [0x74, 0x65, 0x73, 0x74] \<and>
   c_string (msDecryptStringWithKey (replicate 16 7)
     (msEncryptStringWithKey (replicate 16 7) [0x74, 0x65, 0x73, 0x74])) = [0x74, 0x65, 0x73, 0x74]"
proof -
  have "ascii [0x74, 0x65, 0x73, 0x74]" by (simp add: ascii_def)
  then show ?thesis using encrypt_roundtrip by blast
qed

text \<open>The round trip does not extend to eight-bit text: a byte above 127 is sign-extended
  into the block, so under every key the one-character string \<open>0xE9\<close> decrypts to four
  characters.\<close>

lemma encrypt_high_bit_lost:
  "c_string (msDecryptStringWithKey key (msEncryptStringWithKey key [0xE9])) = [0xE9, 0xFF, 0xFF, 0xFF]"
proof -
  have "plain_bytes [0xE9] = [0xE9, 0xFF, 0xFF, 0xFF, 0, 0, 0, 0]"
    by (simp add: plain_bytes.simps bytes_le_def)
  then show ?thesis by (simp add: msDecryptStringWithKey_def decrypt_encrypt_bytes c_string_def)
qed

text \<open>Decrypting a token always writes whole blocks, and what it writes (terminating NUL
  included) fits the buffer that \<open>msDecryptStringTokens\<close> allocates for a string holding only
  the braced token exactly when the token has at least six digits: shorter tokens, which the
  token test accepts from two digits on, overflow it.\<close>

lemma decrypt_token_write_bound:
  "length (msDecryptStringWithKey key tok) = 8 * max 1 ((length tok + 15) div 16) + 1
    \<and> (length (msDecryptStringWithKey key tok) \<le> length (0x7B # tok @ [0x7D :: byte]) + 1
       \<longleftrightarrow> 6 \<le> length tok)"
proof -
  define L where "L = length tok"
  define q where "q = (L + 15) div 16"
  have "16 * q \<le> L + 15" "L + 15 < 16 * q + 16" by (auto simp: q_def)
  then have "8 * max 1 q + 1 \<le> L + 3 \<longleftrightarrow> 6 \<le> L"
    by (cases "q \<le> 1") auto
  then have "8 * max 1 ((L + 15) div 16) + 1 \<le> L + 3 \<longleftrightarrow> 6 \<le> L" by (simp add: q_def)
  then show ?thesis by (simp add: msDecryptStringWithKey_def length_decrypt_bytes L_def)
qed

text \<open>C13. With the key loaded, decrypting the tokens of a text replaces an encrypted seven-bit
  string between braces by the string itself, leaves the surrounding text alone, reports
  nothing and keeps the map.\<close>

theorem token_roundtrip:
  assumes "encryption_key_loaded m" and "ascii s" and "0x7B \<notin> set a" and "0x7B \<notin> set b"
  shows "msDecryptStringTokens env (Some m)
      (a @ 0x7B # msEncryptStringWithKey (encryption_key m) s @ 0x7D # b) = ([], Some m, Some (a @ s @ b))"
proof -
  let ?t = "msEncryptStringWithKey (encryption_key m) s"
  have "decrypt_tokens env m (b @ []) = ([], m, Some b)"
    using decrypt_tokens_plain [OF assms(4), of env m "[]"] by (simp add: decrypt_tokens.simps)
  then have "decrypt_tokens env m (0x7B # ?t @ 0x7D # b) = ([], m, Some (s @ b))"
    using assms(1) encrypt_roundtrip_text [OF assms(2)]
    by (simp add: decrypt_tokens.simps [of env m "0x7B # _"] read_token_encrypted msLoadEncryptionKey_def)
  then show ?thesis
    by (simp add: msDecryptStringTokens_def decrypt_tokens_plain [OF assms(3)])
qed

theorem token_roundtrip_witness:
  "ascii [0x70, 0x77] \<and>
   snd (snd (msDecryptStringTokens \<lparr>cplGetConfigOption = (\<lambda>_. None), file_content = (\<lambda>_. None)\<rparr>
     (Some \<lparr>configoptions = msCreateHashTable, mappath = None, encryption_key_loaded = True,
            encryption_key = replicate 16 7\<rparr>)
     ([0x61] @ 0x7B # msEncryptStringWithKey (replicate 16 7) [0x70, 0x77] @ 0x7D # [0x62])))
   = Some [0x61, 0x70, 0x77, 0x62]"
proof -
  have "ascii [0x70, 0x77]" by (simp add: ascii_def)
  then show ?thesis
    using token_roundtrip [of "\<lparr>configoptions = msCreateHashTable, mappath = None,
        encryption_key_loaded = True, encryption_key = replicate 16 7\<rparr>" "[0x70, 0x77]" "[0x61]" "[0x62]"]
    by simp
qed

end
