(* ===== verification/MapBits.thy ===== *)
theory MapBits
  imports MS_Prelude
begin

text \<open>
  \<^verbatim>\<open>mapbits.c\<close>: arrays of bits packed into 32-bit words, used as the result of spatial
  searches. An array is the list of its words; bit indices and sizes are non-negative.
  \<open>msSetAllBits\<close> fills bytes, which the model lays out little-endian.
\<close>

section \<open>Operations\<close>

type_synonym ms_bitarray = "u32 list"

abbreviation (input) MS_ARRAY_BIT :: nat where "MS_ARRAY_BIT \<equiv> 32"

definition msGetBitArraySize :: "nat \<Rightarrow> nat" where
  "msGetBitArraySize numbits = (numbits + MS_ARRAY_BIT - 1) div MS_ARRAY_BIT"

text \<open>
  \<open>calloc\<close> is asked for that many elements of \<open>MS_ARRAY_BIT\<close> bytes, which is eight words
  for each word the array needs.
\<close>

definition msAllocBitArray :: "nat \<Rightarrow> ms_bitarray" where
  "msAllocBitArray numbits =
     replicate (((numbits + MS_ARRAY_BIT - 1) div MS_ARRAY_BIT * MS_ARRAY_BIT) div 4) 0"

definition msGetBit :: "ms_bitarray \<Rightarrow> nat \<Rightarrow> bool" where
  "msGetBit array index =
     (array ! (index div MS_ARRAY_BIT) AND push_bit (index mod MS_ARRAY_BIT) 1 \<noteq> 0)"

function msGetNextBit :: "ms_bitarray \<Rightarrow> nat \<Rightarrow> nat \<Rightarrow> int" where
  "msGetNextBit array i siz =
     (if i < siz then
        (let b = array ! (i div MS_ARRAY_BIT) in
         if b \<noteq> 0 \<and> drop_bit (i mod MS_ARRAY_BIT) b \<noteq> 0 then
           (if b AND push_bit (i mod MS_ARRAY_BIT) 1 \<noteq> 0 then int i
            else msGetNextBit array (i + 1) siz)
         else msGetNextBit array (i + (MS_ARRAY_BIT - i mod MS_ARRAY_BIT)) siz)
      else -1)"
  by pat_completeness auto
termination
  by (relation "measure (\<lambda>(array, i, siz). siz - i)") auto

declare msGetNextBit.simps [simp del]

definition msSetBit :: "ms_bitarray \<Rightarrow> nat \<Rightarrow> bool \<Rightarrow> ms_bitarray" where
  "msSetBit array index val =
     (let w = index div MS_ARRAY_BIT; m = push_bit (index mod MS_ARRAY_BIT) 1 in
      if val then array[w := array ! w OR m] else array[w := array ! w AND NOT m])"

text \<open>\<open>memset\<close> of the first \<open>(numbits + 7) / 8\<close> bytes: word \<open>j\<close> holds the bytes \<open>4j\<close> to \<open>4j + 3\<close>.\<close>

definition fill_word :: "nat \<Rightarrow> bool \<Rightarrow> nat \<Rightarrow> u32 \<Rightarrow> u32" where
  "fill_word nbytes val j w =
     (let m = mask (8 * min 4 (nbytes - 4 * j)) in if val then w OR m else w AND NOT m)"

definition msSetAllBits :: "ms_bitarray \<Rightarrow> nat \<Rightarrow> bool \<Rightarrow> ms_bitarray" where
  "msSetAllBits array numbits val =
     map (\<lambda>(j, w). fill_word ((numbits + 7) div 8) val j w) (enumerate 0 array)"

definition msFlipBit :: "ms_bitarray \<Rightarrow> nat \<Rightarrow> ms_bitarray" where
  "msFlipBit array index =
     (let w = index div MS_ARRAY_BIT in
      array[w := array ! w XOR push_bit (index mod MS_ARRAY_BIT) 1])"

section \<open>Bits of a word\<close>

lemma msGetBit_bit: "msGetBit a i = bit (a ! (i div 32)) (i mod 32)"
  by (simp add: msGetBit_def and_exp_eq_0_iff_not_bit)

lemma drop_bit_eq_0_word: "drop_bit k (w::u32) = 0 \<longleftrightarrow> (\<forall>n\<ge>k. \<not> bit w n)"
proof
  assume "drop_bit k w = 0"
  moreover have "bit (drop_bit k w) m = bit w (k + m)" for m
    by (simp add: bit_drop_bit_eq)
  ultimately have "\<not> bit w (k + m)" for m
    by (metis bit_0_eq bot_apply bot_bool_def)
  then show "\<forall>n\<ge>k. \<not> bit w n" by (metis le_iff_add)
next
  assume "\<forall>n\<ge>k. \<not> bit w n"
  then show "drop_bit k w = 0" by (intro bit_eqI) (simp add: bit_drop_bit_eq)
qed

lemma same_word:
  fixes i j :: nat
  assumes "i \<le> j" and "j < i + (32 - i mod 32)"
  shows "j div 32 = i div 32 \<and> i mod 32 \<le> j mod 32"
proof -
  define q r where "q = i div 32" and "r = i mod 32"
  have i: "i = 32 * q + r" "r < 32" by (simp_all add: q_def r_def)
  define s where "s = j - 32 * q"
  have "j = 32 * q + s" "r \<le> s" "s < 32"
    using assms i unfolding s_def by auto
  then have "j div 32 = q" "r \<le> j mod 32" by simp_all
  then show ?thesis by (simp add: q_def r_def)
qed

definition bits_cover :: "ms_bitarray \<Rightarrow> nat \<Rightarrow> bool" where
  "bits_cover a n \<longleftrightarrow> n \<le> 32 * length a"

lemma bits_coverD: "bits_cover a n \<Longrightarrow> i < n \<Longrightarrow> i div 32 < length a"
  by (simp add: bits_cover_def less_mult_imp_div_less mult.commute)

lemma msGetBit_msSetBit:
  assumes "bits_cover a n" and "i < n"
  shows "msGetBit (msSetBit a i v) j = (if j = i then v else msGetBit a j)"
proof -
  have w: "i div 32 < length a" using assms by (rule bits_coverD)
  have ij: "j = i \<longleftrightarrow> j div 32 = i div 32 \<and> j mod 32 = i mod 32"
    by (metis mult_div_mod_eq)
  show ?thesis
    using w by (cases "j div 32 = i div 32") (auto simp: msSetBit_def msGetBit_bit Let_def bit_simps ij)
qed

lemma msGetBit_msFlipBit:
  assumes "bits_cover a n" and "i < n"
  shows "msGetBit (msFlipBit a i) j = (if j = i then \<not> msGetBit a j else msGetBit a j)"
proof -
  have w: "i div 32 < length a" using assms by (rule bits_coverD)
  have ij: "j = i \<longleftrightarrow> j div 32 = i div 32 \<and> j mod 32 = i mod 32"
    by (metis mult_div_mod_eq)
  show ?thesis
    using w by (cases "j div 32 = i div 32") (auto simp: msFlipBit_def msGetBit_bit Let_def bit_simps ij)
qed

lemma bits_cover_ops [simp]:
  "bits_cover (msSetBit a i v) n = bits_cover a n"
  "bits_cover (msFlipBit a i) n = bits_cover a n"
  "bits_cover (msSetAllBits a k v) n = bits_cover a n"
  by (simp_all add: bits_cover_def msSetBit_def msFlipBit_def msSetAllBits_def Let_def)

lemma msAllocBitArray_cover [simp, intro]: "bits_cover (msAllocBitArray n) n"
  by (simp add: bits_cover_def msAllocBitArray_def)

lemma msGetBit_msAllocBitArray [simp]: "i < n \<Longrightarrow> \<not> msGetBit (msAllocBitArray n) i"
  using bits_coverD [OF msAllocBitArray_cover, of i n] by (simp add: msGetBit_bit msAllocBitArray_def)

section \<open>Scanning\<close>

text \<open>What a scan from \<open>i\<close> returns: the first set index below \<open>n\<close>, or -1 when there is none.\<close>

definition first_from :: "(nat \<Rightarrow> bool) \<Rightarrow> nat \<Rightarrow> nat \<Rightarrow> int \<Rightarrow> bool" where
  "first_from P i n r \<longleftrightarrow>
     (r = -1 \<and> (\<forall>j. i \<le> j \<and> j < n \<longrightarrow> \<not> P j))
     \<or> (\<exists>j. r = int j \<and> i \<le> j \<and> j < n \<and> P j \<and> (\<forall>k. i \<le> k \<and> k < j \<longrightarrow> \<not> P k))"

lemma first_from_skip:
  assumes "first_from P i' n r" and "i \<le> i'" and "\<And>j. i \<le> j \<Longrightarrow> j < i' \<Longrightarrow> j < n \<Longrightarrow> \<not> P j"
  shows "first_from P i n r"
proof -
  have skip: "\<not> P k" if "i \<le> k" "k < m" "m \<le> n" "\<forall>k. i' \<le> k \<and> k < m \<longrightarrow> \<not> P k" for k m
    using that assms(3) [of k] by (cases "k < i'") auto
  from assms(1) consider "r = -1" "\<forall>j. i' \<le> j \<and> j < n \<longrightarrow> \<not> P j"
    | j where "r = int j" "i' \<le> j" "j < n" "P j" "\<forall>k. i' \<le> k \<and> k < j \<longrightarrow> \<not> P k"
    by (auto simp: first_from_def)
  then show ?thesis
  proof cases
    case 1
    then show ?thesis using skip [of _ n] by (auto simp: first_from_def)
  next
    case (2 j)
    then have "\<forall>k. i \<le> k \<and> k < j \<longrightarrow> \<not> P k" using skip [of _ j] by auto
    then show ?thesis using 2 assms(2) by (auto simp: first_from_def)
  qed
qed

lemma msGetNextBit_first:
  "bits_cover a n \<Longrightarrow> first_from (msGetBit a) i n (msGetNextBit a i n)"
proof (induction a i n rule: msGetNextBit.induct)
  case (1 a i n)
  let ?b = "a ! (i div 32)"
  show ?case
  proof (cases "i < n")
    case False
    then show ?thesis by (auto simp: msGetNextBit.simps [of a i n] first_from_def)
  next
    case i: True
    show ?thesis
    proof (cases "?b \<noteq> 0 \<and> drop_bit (i mod 32) ?b \<noteq> 0")
      case hit: True
      show ?thesis
      proof (cases "msGetBit a i")
        case True
        then have "msGetNextBit a i n = int i"
          using i hit by (simp add: msGetNextBit.simps [of a i n] msGetBit_def Let_def)
        then show ?thesis using True i by (auto simp: first_from_def)
      next
        case False
        then have eq: "msGetNextBit a i n = msGetNextBit a (i + 1) n"
          using i hit by (simp add: msGetNextBit.simps [of a i n] msGetBit_def Let_def)
        have "first_from (msGetBit a) (i + 1) n (msGetNextBit a (i + 1) n)"
          by (rule "1.IH"(1) [OF i refl hit]) (use False "1.prems" in \<open>simp_all add: msGetBit_def\<close>)
        then show ?thesis
          unfolding eq by (rule first_from_skip) (use False in \<open>auto simp: le_less_Suc_eq\<close>)
      qed
    next
      case miss: False
      let ?i = "i + (32 - i mod 32)"
      have eq: "msGetNextBit a i n = msGetNextBit a ?i n"
        using i miss by (auto simp: msGetNextBit.simps [of a i n] Let_def)
      have "first_from (msGetBit a) ?i n (msGetNextBit a ?i n)"
        using "1.IH"(2) [OF i refl miss "1.prems"] .
      moreover have "\<not> msGetBit a j" if "i \<le> j" "j < ?i" for j
      proof -
        have "j div 32 = i div 32 \<and> i mod 32 \<le> j mod 32"
          using that by (rule same_word)
        then show ?thesis
          using miss by (auto simp: msGetBit_bit drop_bit_eq_0_word)
      qed
      ultimately show ?thesis
        unfolding eq using first_from_skip [of "msGetBit a" ?i n _ i] by simp
    qed
  qed
qed

lemma first_from_Least:
  "first_from P i n r \<Longrightarrow>
     r = (if \<exists>j. i \<le> j \<and> j < n \<and> P j then int (LEAST j. i \<le> j \<and> j < n \<and> P j) else -1)"
  unfolding first_from_def
proof (elim disjE exE conjE)
  fix j assume "r = int j" "i \<le> j" "j < n" "P j" "\<forall>k. i \<le> k \<and> k < j \<longrightarrow> \<not> P k"
  then show ?thesis by (auto intro!: Least_equality [symmetric] simp: not_less [symmetric])
qed auto

section \<open>The contract of a bit set\<close>

text \<open>
  The interface the spatial searches use: reading and writing one index, and stepping to
  the next set index. The loop that visits every set index and clears some of them (the
  shape of \<open>msFilterTreeSearch\<close>) is analysed once, here.
\<close>

locale bit_set =
  fixes covers :: "'a \<Rightarrow> nat \<Rightarrow> bool"
    and get :: "'a \<Rightarrow> nat \<Rightarrow> bool"
    and put :: "'a \<Rightarrow> nat \<Rightarrow> bool \<Rightarrow> 'a"
    and nxt :: "'a \<Rightarrow> nat \<Rightarrow> nat \<Rightarrow> int"
  assumes get_put: "covers a n \<Longrightarrow> i < n \<Longrightarrow> get (put a i v) j = (if j = i then v else get a j)"
    and covers_put: "covers a n \<Longrightarrow> covers (put a i v) n"
    and nxt_first: "covers a n \<Longrightarrow> first_from (get a) i n (nxt a i n)"
begin

text \<open>\<open>while (i >= 0) { if (!keep(i)) clear(i); i = next(i + 1); }\<close>\<close>

fun filter_loop :: "nat \<Rightarrow> (nat \<Rightarrow> bool) \<Rightarrow> nat \<Rightarrow> 'a \<Rightarrow> int \<Rightarrow> 'a option" where
  "filter_loop 0 keep n a i = (if i < 0 then Some a else None)"
| "filter_loop (Suc f) keep n a i =
     (if i < 0 then Some a
      else (let a' = (if keep (nat i) then a else put a (nat i) False)
            in filter_loop f keep n a' (nxt a' (nat i + 1) n)))"

lemma filter_loop_correct:
  "covers a n \<Longrightarrow> first_from (get a) k n i \<Longrightarrow> n - k \<le> f \<Longrightarrow>
     \<exists>a'. filter_loop f keep n a i = Some a' \<and> covers a' n
       \<and> (\<forall>j<n. get a' j = (get a j \<and> (j < k \<or> keep j)))"
proof (induction f arbitrary: a i k)
  case 0
  then show ?case by (auto simp: first_from_def)
next
  case (Suc f)
  show ?case
  proof (cases "i < 0")
    case True
    with Suc.prems show ?thesis by (auto simp: first_from_def not_le [symmetric])
  next
    case False
    with Suc.prems(2) obtain m where m: "i = int m" "k \<le> m" "m < n" "get a m"
      and least: "\<And>j. k \<le> j \<Longrightarrow> j < m \<Longrightarrow> \<not> get a j"
      by (auto simp: first_from_def)
    let ?a = "if keep m then a else put a m False"
    have cov: "covers ?a n" using Suc.prems(1) covers_put by simp
    obtain a' where a': "filter_loop f keep n ?a (nxt ?a (m + 1) n) = Some a'" "covers a' n"
      "\<forall>j<n. get a' j = (get ?a j \<and> (j < m + 1 \<or> keep j))"
      using Suc.IH [OF cov nxt_first [OF cov, of "m + 1"]] Suc.prems(3) m(2) by fastforce
    have "get a' j = (get a j \<and> (j < k \<or> keep j))" if "j < n" for j
      using that a'(3) get_put [OF Suc.prems(1) m(3)] m least [of j]
      by (cases "j = m"; cases "j < k") (auto simp: less_Suc_eq not_less)
    then show ?thesis using a'(1,2) m(1) by (auto simp: Let_def)
  qed
qed

end

interpretation bits: bit_set bits_cover msGetBit msSetBit msGetNextBit
  by unfold_locales (simp_all add: msGetBit_msSetBit msGetNextBit_first)

section \<open>Properties\<close>

lemma fill_word_index:
  fixes j nb :: nat
  shows "j mod 32 < 8 * min 4 (nb - 4 * (j div 32)) \<longleftrightarrow> j div 8 < nb"
proof -
  define q p where "q = j div 32" and "p = j mod 32"
  have j: "j = 8 * (4 * q) + p" "p < 32" by (simp_all add: q_def p_def)
  then have "j div 8 = 4 * q + p div 8" by simp
  moreover have "p < 8 * m \<longleftrightarrow> p div 8 < m" for m
    by (simp add: less_mult_imp_div_less div_less_iff_less_mult mult.commute)
  moreover have "p div 8 < 4" using j(2) by (simp add: div_less_iff_less_mult)
  ultimately show ?thesis by (simp flip: q_def p_def) linarith
qed

lemma msGetBit_msSetAllBits:
  assumes "j div 32 < length a"
  shows "msGetBit (msSetAllBits a n v) j = (if j div 8 < (n + 7) div 8 then v else msGetBit a j)"
proof -
  have "msSetAllBits a n v ! (j div 32) = fill_word ((n + 7) div 8) v (j div 32) (a ! (j div 32))"
    using assms by (simp add: msSetAllBits_def nth_enumerate_eq)
  moreover have "bit (fill_word k v q w) p = (if p < 8 * min 4 (k - 4 * q) then v else bit w p)"
    if "p < 32" for k q p and w :: u32
    using that by (auto simp: fill_word_def Let_def bit_simps bit_mask_iff)
  ultimately show ?thesis
    by (simp add: msGetBit_bit fill_word_index del: min_less_iff_conj)
qed

text \<open>C39. \<open>msGetNextBit\<close> stops and returns the least set index at or after the start and
  below the size, or -1 when there is none, although it skips whole words at a time.\<close>

theorem next_bit_least:
  assumes "bits_cover a n"
  shows "msGetNextBit a i n =
    (if \<exists>j. i \<le> j \<and> j < n \<and> msGetBit a j then int (LEAST j. i \<le> j \<and> j < n \<and> msGetBit a j) else -1)"
  by (rule first_from_Least) (rule bits.nxt_first [OF assms])

theorem next_bit_least_witness:
  "bits_cover [0, 4] 64 \<and> msGetNextBit [0, 4] 3 64 = 34"
proof -
  have c: "bits_cover [0, 4] 64" by (simp add: bits_cover_def)
  have b: "msGetBit [0, 4] 34" by (simp add: msGetBit_def)
  have none: "\<not> msGetBit [0, 4] j" if "j < 34" for j
  proof (cases "j < 32")
    case False
    with that have "j = 32 \<or> j = 33" by auto
    then show ?thesis by (auto simp: msGetBit_def)
  qed (simp add: msGetBit_bit)
  have "(LEAST j. 3 \<le> j \<and> j < 64 \<and> msGetBit [0, 4] j) = 34"
    using b none by (intro Least_equality) (auto simp: not_less [symmetric])
  moreover have "\<exists>j. 3 \<le> j \<and> j < 64 \<and> msGetBit [0, 4] j"
    using b by (intro exI [of _ 34]) simp
  ultimately show ?thesis using next_bit_least [OF c, of 3] c by simp
qed

text \<open>Writing a bit changes that bit and no other, flipping inverts that bit and no other,
  and filling the array with a value sets every bit below the size to it; no operation
  shrinks the array.\<close>

theorem bit_write_frame:
  assumes "bits_cover a n" and "i < n" and "j < n"
  shows "msGetBit (msSetBit a i v) j = (if j = i then v else msGetBit a j)
    \<and> msGetBit (msFlipBit a i) j = (msGetBit a j \<noteq> (j = i))
    \<and> msGetBit (msSetAllBits a n v) j = v
    \<and> bits_cover (msSetBit a i v) n \<and> bits_cover (msFlipBit a i) n \<and> bits_cover (msSetAllBits a n v) n"
proof -
  have "j div 8 < (n + 7) div 8" using assms(3) by (simp add: div_less_iff_less_mult)
  then show ?thesis
    using assms msGetBit_msSetAllBits [OF bits_coverD [OF assms(1,3)]]
    by (auto simp: msGetBit_msSetBit msGetBit_msFlipBit)
qed

theorem bit_write_frame_witness:
  "bits_cover [0] 8 \<and> msGetBit (msSetBit [0] 3 True) 3 \<and> msGetBit (msFlipBit [0] 3) 3"
  using bit_write_frame [of "[0]" 8 3 3 True] by (auto simp: bits_cover_def msGetBit_def)

end
