(* ===== verification/Float64.thy ===== *)
theory Float64
  imports MS_Prelude
begin

text \<open>
  IEEE 754 binary64, the C type \<open>double\<close>, as its 64 bits. Comparison, addition, subtraction
  and multiplication follow the standard with rounding to nearest, ties to even; every
  not-a-number result is the same quiet NaN. The spatial components compare coordinates and
  compute split points with these operations.
\<close>

section \<open>Fields of a double\<close>

type_synonym f64 = "64 word"

definition f64_neg :: "f64 \<Rightarrow> bool" where
  "f64_neg w = bit w 63"

definition f64_expo :: "f64 \<Rightarrow> int" where
  "f64_expo w = uint (take_bit 11 (drop_bit 52 w))"

definition f64_frac :: "f64 \<Rightarrow> int" where
  "f64_frac w = uint (take_bit 52 w)"

definition f64_nan :: "f64 \<Rightarrow> bool" where
  "f64_nan w \<longleftrightarrow> f64_expo w = 0x7FF \<and> f64_frac w \<noteq> 0"

definition f64_inf :: "f64 \<Rightarrow> bool" where
  "f64_inf w \<longleftrightarrow> f64_expo w = 0x7FF \<and> f64_frac w = 0"

text \<open>A finite double is \<open>\<plusminus> f64_mant w * 2 ^ f64_exp2 w\<close>.\<close>

definition f64_mant :: "f64 \<Rightarrow> int" where
  "f64_mant w = (if f64_expo w = 0 then f64_frac w else f64_frac w + 2 ^ 52)"

definition f64_exp2 :: "f64 \<Rightarrow> int" where
  "f64_exp2 w = (if f64_expo w = 0 then 1 else f64_expo w) - 1075"

definition f64_qnan :: f64 where
  "f64_qnan = 0x7FF8000000000000"

section \<open>Comparison\<close>

text \<open>
  The order of the doubles is that of their magnitudes with the sign applied; the two zeros are
  equal, and a NaN is unordered: every comparison with it is false.
\<close>

definition f64_key :: "f64 \<Rightarrow> int" where
  "f64_key w = (let m = uint (take_bit 63 w) in if f64_neg w then - m else m)"

definition f64_lt :: "f64 \<Rightarrow> f64 \<Rightarrow> bool" where
  "f64_lt a b \<longleftrightarrow> \<not> f64_nan a \<and> \<not> f64_nan b \<and> f64_key a < f64_key b"

definition f64_le :: "f64 \<Rightarrow> f64 \<Rightarrow> bool" where
  "f64_le a b \<longleftrightarrow> \<not> f64_nan a \<and> \<not> f64_nan b \<and> f64_key a \<le> f64_key b"

lemma f64_le_trans: "f64_le a b \<Longrightarrow> f64_le b c \<Longrightarrow> f64_le a c"
  by (auto simp: f64_le_def)

lemma f64_le_lt_trans: "f64_le a b \<Longrightarrow> f64_lt b c \<Longrightarrow> f64_lt a c"
  by (auto simp: f64_le_def f64_lt_def)

lemma f64_lt_le_trans: "f64_lt a b \<Longrightarrow> f64_le b c \<Longrightarrow> f64_lt a c"
  by (auto simp: f64_le_def f64_lt_def)

lemma f64_lt_asym: "f64_lt a b \<Longrightarrow> \<not> f64_le b a"
  by (auto simp: f64_le_def f64_lt_def)

section \<open>Rounding\<close>

text \<open>The number of binary digits of a non-negative integer.\<close>

function int_bits :: "int \<Rightarrow> int" where
  "int_bits m = (if m \<le> 0 then 0 else 1 + int_bits (m div 2))"
  by pat_completeness auto
termination
  by (relation "measure nat") auto

declare int_bits.simps [simp del]

text \<open>\<open>m div 2 ^ s\<close> rounded to the nearest integer, ties to the even one.\<close>

definition round_half_even :: "int \<Rightarrow> nat \<Rightarrow> int" where
  "round_half_even m s =
     (let d = 2 ^ s; q = m div d; r = m mod d in
      if 2 * r < d \<or> (2 * r = d \<and> even q) then q else q + 1)"

definition f64_pack :: "bool \<Rightarrow> int \<Rightarrow> int \<Rightarrow> f64" where
  "f64_pack neg expo frac =
     (if neg then 0x8000000000000000 else 0) OR push_bit 52 (word_of_int expo) OR word_of_int frac"

text \<open>The double nearest to \<open>\<plusminus> m * 2 ^ e\<close>, for \<open>m \<ge> 0\<close>.\<close>

definition f64_round :: "bool \<Rightarrow> int \<Rightarrow> int \<Rightarrow> f64" where
  "f64_round neg m e =
     (if m = 0 then f64_pack neg 0 0
      else
        (let q = max (int_bits m + e - 53) (-1074);
             m1 = (if q \<le> e then m * 2 ^ nat (e - q) else round_half_even m (nat (q - e)));
             (m2, q2) = (if m1 = 2 ^ 53 then (2 ^ 52, q + 1) else (m1, q)) in
         if m2 < 2 ^ 52 then f64_pack neg 0 m2
         else if q2 > 971 then f64_pack neg 0x7FF 0
         else f64_pack neg (q2 + 1075) (m2 - 2 ^ 52)))"

section \<open>Arithmetic\<close>

definition f64_minus :: "f64 \<Rightarrow> f64" where
  "f64_minus w = w XOR 0x8000000000000000"

definition f64_add :: "f64 \<Rightarrow> f64 \<Rightarrow> f64" where
  "f64_add a b =
     (if f64_nan a \<or> f64_nan b then f64_qnan
      else if f64_inf a then (if f64_inf b \<and> f64_neg a \<noteq> f64_neg b then f64_qnan else a)
      else if f64_inf b then b
      else
        (let e = min (f64_exp2 a) (f64_exp2 b);
             sg = (\<lambda>w. if f64_neg w then - 1 else 1 :: int);
             s = sg a * f64_mant a * 2 ^ nat (f64_exp2 a - e) + sg b * f64_mant b * 2 ^ nat (f64_exp2 b - e) in
         if s = 0 then f64_pack (f64_neg a \<and> f64_neg b) 0 0 else f64_round (s < 0) \<bar>s\<bar> e))"

definition f64_sub :: "f64 \<Rightarrow> f64 \<Rightarrow> f64" where
  "f64_sub a b = (if f64_nan b then f64_qnan else f64_add a (f64_minus b))"

definition f64_mul :: "f64 \<Rightarrow> f64 \<Rightarrow> f64" where
  "f64_mul a b =
     (let neg = (f64_neg a \<noteq> f64_neg b) in
      if f64_nan a \<or> f64_nan b then f64_qnan
      else if f64_inf a then (if f64_mant b = 0 then f64_qnan else f64_pack neg 0x7FF 0)
      else if f64_inf b then (if f64_mant a = 0 then f64_qnan else f64_pack neg 0x7FF 0)
      else f64_round neg (f64_mant a * f64_mant b) (f64_exp2 a + f64_exp2 b))"

text \<open>\<open>1.0 + 2.0 = 3.0\<close>, \<open>3.0 * 0.55\<close> (rounded) and \<open>1.0 - 3.0 = -2.0\<close>.\<close>

lemma f64_samples:
  "f64_add 0x3FF0000000000000 0x4000000000000000 = 0x4008000000000000"
  "f64_mul 0x4008000000000000 0x3FE199999999999A = 0x3FFA666666666667"
  "f64_sub 0x3FF0000000000000 0x4008000000000000 = 0xC000000000000000"
  by code_simp+

end
