(* ===== verification/MapRect.thy ===== *)
theory MapRect
  imports Float64
begin

text \<open>
  \<open>mapsearch.c\<close>: the rectangle tests behind every spatial search, on the doubles of
  \<open>Float64\<close> (so a comparison with a NaN is false, as in C).
\<close>

section \<open>Rectangles and points\<close>

record rectObj =
  minx :: f64
  miny :: f64
  maxx :: f64
  maxy :: f64

record pointObj =
  px :: f64
  py :: f64

definition msRectOverlap :: "rectObj \<Rightarrow> rectObj \<Rightarrow> bool" where
  "msRectOverlap a b =
     (if f64_lt (maxx b) (minx a) then False
      else if f64_lt (maxx a) (minx b) then False
      else if f64_lt (maxy b) (miny a) then False
      else if f64_lt (maxy a) (miny b) then False
      else True)"

text \<open>
  The first rectangle becomes the intersection; the result is meant to be false when that is
  empty. The second comparison is on \<open>b\<close>, as in the source.
\<close>

definition msRectIntersect :: "rectObj \<Rightarrow> rectObj \<Rightarrow> rectObj \<times> bool" where
  "msRectIntersect a b =
     (let a1 = (if f64_lt (maxx b) (maxx a) then a\<lparr>maxx := maxx b\<rparr> else a);
          a2 = (if f64_lt (minx a1) (minx b) then a1\<lparr>minx := minx b\<rparr> else a1);
          a3 = (if f64_lt (maxy b) (maxy a2) then a2\<lparr>maxy := maxy b\<rparr> else a2);
          a4 = (if f64_lt (miny a3) (miny b) then a3\<lparr>miny := miny b\<rparr> else a3)
      in (a4, \<not> (f64_lt (maxx a4) (minx a4) \<or> f64_lt (maxx b) (minx b))))"

definition msRectContained :: "rectObj \<Rightarrow> rectObj \<Rightarrow> bool" where
  "msRectContained a b =
     (f64_le (minx b) (minx a) \<and> f64_le (maxx a) (maxx b)
      \<and> f64_le (miny b) (miny a) \<and> f64_le (maxy a) (maxy b))"

definition ms_min :: "f64 \<Rightarrow> f64 \<Rightarrow> f64" where "ms_min a b = (if f64_lt a b then a else b)"
definition ms_max :: "f64 \<Rightarrow> f64 \<Rightarrow> f64" where "ms_max a b = (if f64_lt b a then a else b)"

definition msMergeRect :: "rectObj \<Rightarrow> rectObj \<Rightarrow> rectObj" where
  "msMergeRect a b =
     a\<lparr>minx := ms_min (minx a) (minx b), maxx := ms_max (maxx a) (maxx b),
       miny := ms_min (miny a) (miny b), maxy := ms_max (maxy a) (maxy b)\<rparr>"

definition msPointInRect :: "pointObj \<Rightarrow> rectObj \<Rightarrow> bool" where
  "msPointInRect p rect =
     (if f64_lt (px p) (minx rect) then False
      else if f64_lt (maxx rect) (px p) then False
      else if f64_lt (py p) (miny rect) then False
      else if f64_lt (maxy rect) (py p) then False
      else True)"

section \<open>Lemmas\<close>

text \<open>What pruning a search relies on: a rectangle around an overlapping one overlaps.\<close>

lemma overlap_contained:
  "msRectContained a b \<Longrightarrow> msRectOverlap a c \<Longrightarrow> msRectOverlap b c"
  by (auto simp: msRectContained_def msRectOverlap_def split: if_splits
      dest: f64_lt_le_trans f64_le_lt_trans)

lemma contained_trans: "msRectContained a b \<Longrightarrow> msRectContained b c \<Longrightarrow> msRectContained a c"
  by (auto simp: msRectContained_def dest: f64_le_trans)

definition rect_valid :: "rectObj \<Rightarrow> bool" where
  "rect_valid r \<longleftrightarrow> f64_le (minx r) (maxx r) \<and> f64_le (miny r) (maxy r)"

lemma overlap_sym: "msRectOverlap a b = msRectOverlap b a"
  by (auto simp: msRectOverlap_def)

lemma merge_contains:
  assumes "rect_valid a" and "rect_valid b"
  shows "msRectContained a (msMergeRect a b)" and "msRectContained b (msMergeRect a b)"
  using assms by (auto simp: msRectContained_def msMergeRect_def rect_valid_def ms_min_def ms_max_def
      f64_le_def f64_lt_def)


text \<open>
  The result of \<open>msRectIntersect\<close> looks at the x range of \<open>b\<close> instead of the y range of the
  intersection: two rectangles one above the other do not overlap, and the intersection is
  reported as not empty although its y range is reversed.
\<close>

lemma rect_intersect_ignores_y:
  "\<exists>a b. rect_valid a \<and> rect_valid b \<and> \<not> msRectOverlap a b \<and> snd (msRectIntersect a b) \<and>
     f64_lt (maxy (fst (msRectIntersect a b))) (miny (fst (msRectIntersect a b)))"
proof -
  define a where "a = \<lparr>minx = 0, miny = 0, maxx = 0x3FF0000000000000, maxy = 0x3FF0000000000000\<rparr>"
  define b where "b = \<lparr>minx = 0, miny = 0x4000000000000000, maxx = 0x3FF0000000000000, maxy = 0x4008000000000000\<rparr>"
  have "rect_valid a \<and> rect_valid b \<and> \<not> msRectOverlap a b \<and> snd (msRectIntersect a b) \<and>
     f64_lt (maxy (fst (msRectIntersect a b))) (miny (fst (msRectIntersect a b)))"
    unfolding a_def b_def by code_simp
  then show ?thesis by blast
qed

end
