(* ===== verification/MapTree.thy ===== *)
theory MapTree
  imports MapBits MapRect
begin

text \<open>
  \<^verbatim>\<open>maptree.c\<close>, the quadtree over the bounds of the shapes of a shapefile, as it is built,
  searched and trimmed in memory (\<open>MapTreeDisk\<close> holds its file format). A node is a value
  with the list of its shape ids and the list of its subnodes; the entries of
  \<open>subnode[]\<close> below \<open>numsubnodes\<close> are never NULL in a tree built by this code, so the
  NULL tests of the traversals are always passed. Shape ids and counts are C \<open>int\<close>s.
\<close>

section \<open>Data\<close>

datatype treeNodeObj = TreeNode (nrect: rectObj) (ids: "int list") (subnode: "treeNodeObj list")

record treeObj =
  numshapes :: int
  maxdepth :: int
  root :: treeNodeObj

text \<open>The fields of an open shapefile that the tree code reads; \<open>read_bounds\<close> is
  \<open>msSHPReadBounds(hSHP, i, ...)\<close>, with \<open>None\<close> for its failure.\<close>

record shapefileObj =
  shp_numshapes :: int
  shp_bounds :: rectObj
  read_bounds :: "int \<Rightarrow> rectObj option"

section \<open>Building\<close>

definition treeNodeCreate :: "rectObj \<Rightarrow> treeNodeObj" where
  "treeNodeCreate rect = TreeNode rect [] []"

text \<open>The double nearest to 0.55.\<close>

definition SPLITRATIO :: f64 where "SPLITRATIO = 0x3FE199999999999A"

definition treeSplitBounds :: "rectObj \<Rightarrow> rectObj \<times> rectObj" where
  "treeSplitBounds r =
     (if f64_lt (f64_sub (maxy r) (miny r)) (f64_sub (maxx r) (minx r)) then
        (let range = f64_sub (maxx r) (minx r) in
         (r\<lparr>maxx := f64_add (minx r) (f64_mul range SPLITRATIO)\<rparr>,
          r\<lparr>minx := f64_sub (maxx r) (f64_mul range SPLITRATIO)\<rparr>))
      else
        (let range = f64_sub (maxy r) (miny r) in
         (r\<lparr>maxy := f64_add (miny r) (f64_mul range SPLITRATIO)\<rparr>,
          r\<lparr>miny := f64_sub (maxy r) (f64_mul range SPLITRATIO)\<rparr>)))"

text \<open>The quarters of a node: both halves of its rectangle, split again.\<close>

definition quads :: "rectObj \<Rightarrow> rectObj list" where
  "quads r =
     (let (half1, half2) = treeSplitBounds r;
          (quad1, quad2) = treeSplitBounds half1;
          (quad3, quad4) = treeSplitBounds half2
      in [quad1, quad2, quad3, quad4])"

text \<open>The first subnode, by index, whose rectangle contains \<open>rect\<close>.\<close>

fun find_subnode :: "rectObj \<Rightarrow> treeNodeObj list \<Rightarrow> nat option" where
  "find_subnode rect [] = None"
| "find_subnode rect (n # ns) =
     (if msRectContained rect (nrect n) then Some 0 else map_option Suc (find_subnode rect ns))"

lemma quads_not_empty [simp]: "quads r \<noteq> []"
  by (simp add: quads_def split: prod.split)

text \<open>The result is always \<open>MS_TRUE\<close>; the model returns the changed node.\<close>

function treeNodeAddShapeId :: "treeNodeObj \<Rightarrow> int \<Rightarrow> rectObj \<Rightarrow> int \<Rightarrow> treeNodeObj" where
  "treeNodeAddShapeId (TreeNode r is subs) i rect depth =
     (if 1 < depth \<and> subs \<noteq> [] then
        (case find_subnode rect subs of
           Some k \<Rightarrow> TreeNode r is (subs[k := treeNodeAddShapeId (subs ! k) i rect (depth - 1)])
         | None \<Rightarrow> TreeNode r (is @ [i]) subs)
      else if 1 < depth \<and> subs = [] \<and> list_ex (msRectContained rect) (quads r) then
        treeNodeAddShapeId (TreeNode r is (map treeNodeCreate (quads r))) i rect depth
      else TreeNode r (is @ [i]) subs)"
  by pat_completeness auto

termination
  by (relation "measures [\<lambda>(n, i, rect, depth). nat depth,
        \<lambda>(n, i, rect, depth). if subnode n = [] then 1 else 0]") auto

declare treeNodeAddShapeId.simps [simp del]

definition treeAddShapeId :: "treeObj \<Rightarrow> int \<Rightarrow> rectObj \<Rightarrow> treeObj" where
  "treeAddShapeId tree i rect = tree\<lparr>root := treeNodeAddShapeId (root tree) i rect (maxdepth tree)\<rparr>"

text \<open>
  The depth chosen when none is given. The loop starts with \<open>numnodes = 1\<close>, which the test
  \<open>0 < numnodes\<close> records; on a C \<open>int\<close> it needs \<open>numshapes \<le> 2 ^ 30\<close>, since
  \<open>numnodes * 4\<close> overflows beyond.
\<close>

function depth_loop :: "int \<Rightarrow> int \<Rightarrow> int \<Rightarrow> int" where
  "depth_loop shapes depth numnodes =
     (if 0 < numnodes \<and> numnodes * 4 < shapes then depth_loop shapes (depth + 1) (numnodes * 2)
      else depth)"
  by pat_completeness auto
termination
  by (relation "measure (\<lambda>(shapes, depth, numnodes). nat (shapes - numnodes))") auto

declare depth_loop.simps [simp del]

definition add_shape :: "shapefileObj \<Rightarrow> treeObj \<Rightarrow> int \<Rightarrow> treeObj" where
  "add_shape shp tree i =
     (case read_bounds shp i of Some bounds \<Rightarrow> treeAddShapeId tree i bounds | None \<Rightarrow> tree)"

definition msCreateTree :: "shapefileObj option \<Rightarrow> int \<Rightarrow> treeObj option" where
  "msCreateTree shapefile depth =
     (case shapefile of
        None \<Rightarrow> None
      | Some shp \<Rightarrow>
          (let depth' = (if depth = 0 then depth_loop (shp_numshapes shp) 0 1 else depth);
               tree = \<lparr>numshapes = shp_numshapes shp, maxdepth = depth',
                       root = treeNodeCreate (shp_bounds shp)\<rparr>
           in Some (foldl (add_shape shp) tree (map int [0..<nat (shp_numshapes shp)]))))"

section \<open>Searching\<close>

definition set_ids :: "int \<Rightarrow> int list \<Rightarrow> ms_bitarray \<Rightarrow> ms_bitarray" where
  "set_ids n is status =
     foldl (\<lambda>st i. if 0 \<le> i \<and> i < n then msSetBit st (nat i) True else st) status is"

fun treeCollectShapeIds :: "treeNodeObj \<Rightarrow> rectObj \<Rightarrow> int \<Rightarrow> ms_bitarray \<Rightarrow> ms_bitarray" where
  "treeCollectShapeIds (TreeNode r is subs) aoi n status =
     (if \<not> msRectOverlap r aoi then status
      else fold (\<lambda>sub st. treeCollectShapeIds sub aoi n st) subs (set_ids n is status))"

definition msSearchTree :: "treeObj \<Rightarrow> rectObj \<Rightarrow> ms_bitarray" where
  "msSearchTree tree aoi =
     treeCollectShapeIds (root tree) aoi (numshapes tree) (msAllocBitArray (nat (numshapes tree)))"

text \<open>Clears the results whose own bounds miss the search rectangle. The visited indices
  increase, so \<open>numshapes\<close> rounds are enough.\<close>

definition filter_keep :: "shapefileObj \<Rightarrow> rectObj \<Rightarrow> nat \<Rightarrow> bool" where
  "filter_keep shp search_rect i =
     (case read_bounds shp (int i) of
        Some shape_rect \<Rightarrow> msRectOverlap shape_rect search_rect
      | None \<Rightarrow> True)"

fun filter_search :: "nat \<Rightarrow> shapefileObj \<Rightarrow> rectObj \<Rightarrow> ms_bitarray \<Rightarrow> int \<Rightarrow> ms_bitarray option" where
  "filter_search 0 shp search_rect status i = (if i < 0 then Some status else None)"
| "filter_search (Suc fuel) shp search_rect status i =
     (if i < 0 then Some status
      else (let status' = (if filter_keep shp search_rect (nat i) then status
                           else msSetBit status (nat i) False)
            in filter_search fuel shp search_rect status'
                 (msGetNextBit status' (nat i + 1) (nat (shp_numshapes shp)))))"

definition msFilterTreeSearch :: "shapefileObj \<Rightarrow> ms_bitarray \<Rightarrow> rectObj \<Rightarrow> ms_bitarray option" where
  "msFilterTreeSearch shp status search_rect =
     filter_search (nat (shp_numshapes shp)) shp search_rect status
       (msGetNextBit status 0 (nat (shp_numshapes shp)))"

section \<open>Trimming\<close>

definition tree_empty :: "treeNodeObj \<Rightarrow> bool" where
  "tree_empty n \<longleftrightarrow> subnode n = [] \<and> ids n = []"

text \<open>
  The loop over the subnodes, after each one has been trimmed: a subnode that came back
  empty is destroyed and its entry is taken by the last one, which is looked at next.
  Every subnode is trimmed exactly once, when the loop reaches it; trimming one does not
  read another, so the model trims them first.
\<close>

function drop_empty :: "nat \<Rightarrow> treeNodeObj list \<Rightarrow> treeNodeObj list" where
  "drop_empty i subs =
     (if i < length subs then
        (if tree_empty (subs ! i) then drop_empty i (butlast (subs[i := last subs]))
         else drop_empty (i + 1) subs)
      else subs)"
  by pat_completeness auto
termination
  by (relation "measure (\<lambda>(i, subs). length subs - i)") auto

declare drop_empty.simps [simp del]

lemma drop_empty_Nil [simp]: "drop_empty i [] = []"
  by (simp add: drop_empty.simps)

text \<open>A node left with one subnode and no shapes takes that subnode's place.\<close>

definition promote :: "treeNodeObj \<Rightarrow> treeNodeObj" where
  "promote n =
     (case subnode n of
        [sub] \<Rightarrow> if ids n = [] then TreeNode (nrect sub) (ids sub) (subnode sub) else n
      | _ \<Rightarrow> n)"

fun treeNodeTrim :: "treeNodeObj \<Rightarrow> treeNodeObj" where
  "treeNodeTrim (TreeNode r is subs) = promote (TreeNode r is (drop_empty 0 (map treeNodeTrim subs)))"

definition msTreeTrim :: "treeObj \<Rightarrow> treeObj" where
  "msTreeTrim tree = tree\<lparr>root := treeNodeTrim (root tree)\<rparr>"

section \<open>What a tree holds\<close>

fun all_ids :: "treeNodeObj \<Rightarrow> int list" where
  "all_ids (TreeNode r is subs) = is @ concat (map all_ids subs)"

text \<open>The ids that a search for \<open>aoi\<close> reaches.\<close>

fun visible_ids :: "rectObj \<Rightarrow> treeNodeObj \<Rightarrow> int list" where
  "visible_ids aoi (TreeNode r is subs) =
     (if msRectOverlap r aoi then is @ concat (map (visible_ids aoi) subs) else [])"

text \<open>Below the root, the rectangle of a node contains the bounds of every shape under it.\<close>

fun covered :: "(int \<Rightarrow> rectObj) \<Rightarrow> treeNodeObj \<Rightarrow> bool" where
  "covered b (TreeNode r is subs) \<longleftrightarrow>
     (\<forall>c\<in>set subs. covered b c \<and> (\<forall>i\<in>set (all_ids c). msRectContained (b i) (nrect c)))"

lemma find_subnode_Some:
  "find_subnode rect ns = Some k \<Longrightarrow> k < length ns \<and> msRectContained rect (nrect (ns ! k))"
  by (induction ns arbitrary: k) (auto split: if_splits)

lemma nrect_add [simp]: "nrect (treeNodeAddShapeId n i rect d) = nrect n"
proof (induction n i rect d rule: treeNodeAddShapeId.induct)
  case (1 r "is" subs i rect d)
  then show ?case by (auto simp: treeNodeAddShapeId.simps [of r] split: option.splits)
qed

lemma mset_concat_update:
  "k < length xs \<Longrightarrow>
     mset (concat (map f (xs[k := y]))) + mset (f (xs ! k)) = mset (concat (map f xs)) + mset (f y)"
proof (induction xs arbitrary: k)
  case (Cons x xs)
  then show ?case by (cases k) (simp_all add: ac_simps)
qed simp

lemma concat_created [simp]: "concat (map (all_ids \<circ> treeNodeCreate) rs) = []"
  by (induction rs) (simp_all add: treeNodeCreate_def)

lemma all_ids_add: "mset (all_ids (treeNodeAddShapeId n i rect d)) = add_mset i (mset (all_ids n))"
proof (induction n i rect d rule: treeNodeAddShapeId.induct)
  case (1 r "is" subs i rect d)
  show ?case
  proof (cases "1 < d \<and> subs \<noteq> []")
    case True
    show ?thesis
    proof (cases "find_subnode rect subs")
      case (Some k)
      then have k: "k < length subs" using find_subnode_Some by blast
      let ?c = "treeNodeAddShapeId (subs ! k) i rect (d - 1)"
      have "mset (all_ids ?c) = add_mset i (mset (all_ids (subs ! k)))"
        using "1.IH"(1) True Some by simp
      then have "mset (concat (map all_ids (subs[k := ?c]))) = add_mset i (mset (concat (map all_ids subs)))"
        using mset_concat_update [OF k, of all_ids ?c] by simp
      then show ?thesis using True Some by (simp add: treeNodeAddShapeId.simps [of r])
    qed (use True in \<open>simp add: treeNodeAddShapeId.simps [of r]\<close>)
  next
    case False
    then show ?thesis using "1.IH"(2) by (auto simp: treeNodeAddShapeId.simps [of r "is" subs])
  qed
qed

lemmas set_all_ids_add = all_ids_add [THEN arg_cong [where f = set_mset], simplified]

lemma covered_created: "covered b (TreeNode r is (map treeNodeCreate rs))"
  by (auto simp: treeNodeCreate_def)

lemma covered_add: "covered b n \<Longrightarrow> covered b (treeNodeAddShapeId n i (b i) d)"
proof (induction n i "b i" d rule: treeNodeAddShapeId.induct)
  case (1 r "is" subs i d)
  show ?case
  proof (cases "1 < d \<and> subs \<noteq> []")
    case True
    show ?thesis
    proof (cases "find_subnode (b i) subs")
      case (Some k)
      then have k: "k < length subs" "msRectContained (b i) (nrect (subs ! k))"
        using find_subnode_Some by blast+
      let ?c = "treeNodeAddShapeId (subs ! k) i (b i) (d - 1)"
      have old: "\<forall>c\<in>set subs. covered b c \<and> (\<forall>j\<in>set (all_ids c). msRectContained (b j) (nrect c))"
        using "1.prems" by simp
      have "covered b ?c" using "1.hyps"(1) True Some old k(1) by simp
      moreover have "\<forall>j\<in>set (all_ids ?c). msRectContained (b j) (nrect ?c)"
        using old k by (auto simp: set_all_ids_add)
      ultimately have "covered b (TreeNode r is (subs[k := ?c]))"
        using old by (auto dest!: set_update_subset_insert [THEN subsetD])
      then show ?thesis using True Some by (simp add: treeNodeAddShapeId.simps [of r])
    qed (use True "1.prems" in \<open>simp add: treeNodeAddShapeId.simps [of r]\<close>)
  next
    case False
    then show ?thesis
      using "1.hyps"(2) "1.prems" covered_created by (auto simp: treeNodeAddShapeId.simps [of r "is" subs])
  qed
qed

section \<open>What a search finds\<close>

lemma set_ids_get:
  assumes "bits_cover st (nat n)"
  shows "bits_cover (set_ids n is st) (nat n)
    \<and> (\<forall>j<nat n. msGetBit (set_ids n is st) j = (msGetBit st j \<or> int j \<in> set is))"
  using assms
proof (induction "is" arbitrary: st)
  case (Cons i "is")
  let ?st = "if 0 \<le> i \<and> i < n then msSetBit st (nat i) True else st"
  have "msGetBit ?st j = (msGetBit st j \<or> int j = i)" if "j < nat n" for j
    using that msGetBit_msSetBit [OF Cons.prems, of "nat i"] by auto
  moreover have "bits_cover ?st (nat n)" using Cons.prems by simp
  ultimately show ?case using Cons.IH [of ?st] by (auto simp: set_ids_def)
qed (simp add: set_ids_def)

lemma collect_get:
  assumes "bits_cover st (nat n)"
  shows "bits_cover (treeCollectShapeIds node aoi n st) (nat n)
    \<and> (\<forall>j<nat n. msGetBit (treeCollectShapeIds node aoi n st) j
          = (msGetBit st j \<or> int j \<in> set (visible_ids aoi node)))"
  using assms
proof (induction node arbitrary: st)
  case (TreeNode r "is" subs)
  let ?step = "\<lambda>sub st. treeCollectShapeIds sub aoi n st"
  have sub: "bits_cover (fold ?step ss st) (nat n) \<and> (\<forall>j<nat n. msGetBit (fold ?step ss st) j
      = (msGetBit st j \<or> int j \<in> set (concat (map (visible_ids aoi) ss))))"
    if "set ss \<subseteq> set subs" "bits_cover st (nat n)" for ss st
    using that
  proof (induction ss arbitrary: st)
    case (Cons c ss)
    then show ?case using TreeNode.IH [of c st] by auto
  qed simp
  show ?case
    using set_ids_get [OF TreeNode.prems, of "is"] sub [of subs "set_ids n is st"] TreeNode.prems by auto
qed

lemma visible_subset: "set (visible_ids aoi n) \<subseteq> set (all_ids n)"
proof (induction n)
  case (TreeNode r "is" subs)
  then show ?case by auto
qed

lemma covered_visible:
  "covered b n \<Longrightarrow> msRectOverlap (nrect n) aoi \<Longrightarrow> i \<in> set (all_ids n) \<Longrightarrow> msRectOverlap (b i) aoi
     \<Longrightarrow> i \<in> set (visible_ids aoi n)"
proof (induction n)
  case (TreeNode r "is" subs)
  show ?case
  proof (cases "i \<in> set is")
    case False
    then obtain c where c: "c \<in> set subs" "i \<in> set (all_ids c)" using TreeNode.prems(3) by auto
    then have "msRectOverlap (nrect c) aoi"
      using TreeNode.prems overlap_contained [of "b i" "nrect c" aoi] by auto
    then show ?thesis using TreeNode.IH [OF c(1)] TreeNode.prems c by auto
  qed (use TreeNode.prems in auto)
qed

section \<open>Trimming keeps the search results\<close>

text \<open>The swap with the last entry, in terms of multisets.\<close>

lemma mset_butlast_swap:
  assumes "i < length xs"
  shows "add_mset (xs ! i) (mset (butlast (xs[i := last xs]))) = mset xs"
proof -
  from assms obtain ys z where xs: "xs = ys @ [z]" by (metis length_0_conv less_nat_zero_code rev_exhaust)
  show ?thesis
  proof (cases "i < length ys")
    case True
    then have "butlast (xs[i := last xs]) = ys[i := z]" by (simp add: xs list_update_append1)
    moreover have "add_mset (ys ! i) (mset (ys[i := z])) = add_mset z (mset ys)"
      using True mset_update [OF True, of z] by (simp add: in_multiset_in_set)
    ultimately show ?thesis using True by (simp add: xs nth_append)
  next
    case False
    then have "i = length ys" using assms by (simp add: xs)
    then show ?thesis by (simp add: xs)
  qed
qed

lemma drop_empty_filter:
  "(\<forall>c\<in>set (take i subs). \<not> tree_empty c) \<Longrightarrow>
     mset (drop_empty i subs) = filter_mset (\<lambda>c. \<not> tree_empty c) (mset subs)"
proof (induction i subs rule: drop_empty.induct)
  case (1 i subs)
  show ?case
  proof (cases "i < length subs")
    case i: True
    show ?thesis
    proof (cases "tree_empty (subs ! i)")
      case True
      let ?s = "butlast (subs[i := last subs])"
      have len: "i \<le> length ?s" using i by simp
      have "take i ?s = take i subs" using i by (simp add: take_butlast)
      then have "mset (drop_empty i ?s) = filter_mset (\<lambda>c. \<not> tree_empty c) (mset ?s)"
        using "1.IH"(1) [OF i True] "1.prems" by simp
      also have "\<dots> = filter_mset (\<lambda>c. \<not> tree_empty c) (mset subs)"
        using mset_butlast_swap [OF i] True by (metis filter_mset_add_mset)
      finally show ?thesis using i True by (simp add: drop_empty.simps [of i])
    next
      case False
      then have "\<forall>c\<in>set (take (i + 1) subs). \<not> tree_empty c"
        using i "1.prems" by (auto simp: take_Suc_conv_app_nth)
      then show ?thesis using "1.IH"(2) [OF i False] i False by (simp add: drop_empty.simps [of i subs])
    qed
  next
    case False
    then have "filter_mset (\<lambda>c. \<not> tree_empty c) (mset subs) = mset subs"
      using "1.prems" by (simp add: filter_mset_eq_conv)
    then show ?thesis using False by (simp add: drop_empty.simps [of i])
  qed
qed

lemmas drop_empty_mset = drop_empty_filter [of 0, simplified]
lemmas drop_empty_set = drop_empty_mset [THEN arg_cong [where f = set_mset], simplified]

lemma empty_ids: "tree_empty n \<Longrightarrow> all_ids n = [] \<and> visible_ids aoi n = []"
  by (cases n) (simp add: tree_empty_def)

lemma mset_concat_drop_empty:
  assumes "\<And>c. tree_empty c \<Longrightarrow> f c = []"
  shows "mset (concat (map f (drop_empty 0 cs))) = mset (concat (map f cs))"
proof -
  have "sum_mset (image_mset (\<lambda>c. mset (f c)) (filter_mset (\<lambda>c. \<not> tree_empty c) (mset cs)))
      = sum_mset (image_mset (\<lambda>c. mset (f c)) (mset cs))"
    using assms by (induction cs) auto
  moreover have "mset (concat (map f xs)) = sum_mset (image_mset (\<lambda>c. mset (f c)) (mset xs))" for xs
    by (induction xs) simp_all
  ultimately show ?thesis by (simp add: drop_empty_mset)
qed

definition contains_all :: "(int \<Rightarrow> rectObj) \<Rightarrow> treeNodeObj \<Rightarrow> bool" where
  "contains_all b n \<longleftrightarrow> (\<forall>i\<in>set (all_ids n). msRectContained (b i) (nrect n))"

lemma covered_iff: "covered b (TreeNode r is subs) \<longleftrightarrow> (\<forall>c\<in>set subs. covered b c \<and> contains_all b c)"
  by (simp add: contains_all_def)

lemma promote_cases:
  "promote n = n \<or> (\<exists>r sub. n = TreeNode r [] [sub] \<and> promote (TreeNode r [] [sub]) = sub)"
  by (cases n) (auto simp: promote_def split: list.splits)

lemma promote_ids [simp]: "all_ids (promote n) = all_ids n"
  using promote_cases [of n] by auto

lemma promote_visible: "set (visible_ids aoi n) \<subseteq> set (visible_ids aoi (promote n))"
  using promote_cases [of n] by auto

lemma trim_ids: "mset (all_ids (treeNodeTrim n)) = mset (all_ids n)"
proof (induction n)
  case (TreeNode r "is" subs)
  have "mset (concat (map all_ids (map treeNodeTrim subs))) = mset (concat (map all_ids subs))"
    using TreeNode by (induction subs) simp_all
  then show ?case using mset_concat_drop_empty [of all_ids] empty_ids by simp
qed

lemmas set_trim_ids = trim_ids [THEN arg_cong [where f = set_mset], simplified]

lemma trim_visible: "set (visible_ids aoi n) \<subseteq> set (visible_ids aoi (treeNodeTrim n))"
proof (induction n)
  case (TreeNode r "is" subs)
  let ?cs = "map treeNodeTrim subs"
  have "set (concat (map (visible_ids aoi) (drop_empty 0 ?cs))) = set (concat (map (visible_ids aoi) ?cs))"
    using mset_concat_drop_empty [of "visible_ids aoi" ?cs] empty_ids by (metis set_mset_mset)
  then have "set (visible_ids aoi (TreeNode r is subs))
      \<subseteq> set (visible_ids aoi (TreeNode r is (drop_empty 0 ?cs)))"
    using TreeNode by fastforce
  also have "\<dots> \<subseteq> set (visible_ids aoi (promote (TreeNode r is (drop_empty 0 ?cs))))"
    by (rule promote_visible)
  finally show ?case by simp
qed

lemma promote_covered:
  "covered b n \<Longrightarrow> covered b (promote n) \<and> (contains_all b n \<longrightarrow> contains_all b (promote n))"
  using promote_cases [of n] unfolding contains_all_def by auto

lemma trim_covered:
  "covered b n \<Longrightarrow> covered b (treeNodeTrim n) \<and> (contains_all b n \<longrightarrow> contains_all b (treeNodeTrim n))"
proof (induction n)
  case (TreeNode r "is" subs)
  let ?n = "TreeNode r is (drop_empty 0 (map treeNodeTrim subs))"
  have "\<forall>c\<in>set subs. covered b (treeNodeTrim c) \<and> contains_all b (treeNodeTrim c)"
    using TreeNode.IH TreeNode.prems unfolding covered_iff by blast
  then have "covered b ?n" by (auto simp: contains_all_def drop_empty_set)
  moreover have "contains_all b (TreeNode r is subs) \<longrightarrow> contains_all b ?n"
    using set_trim_ids by (auto simp: contains_all_def drop_empty_set)
  ultimately show ?case using promote_covered [of b ?n] by simp
qed

text \<open>After trimming no subnode is empty and no node is a mere link to one subnode.\<close>

fun trimmed :: "treeNodeObj \<Rightarrow> bool" where
  "trimmed (TreeNode r is subs) \<longleftrightarrow>
     \<not> (is = [] \<and> length subs = 1) \<and> (\<forall>c\<in>set subs. \<not> tree_empty c \<and> trimmed c)"

lemma trim_trimmed: "trimmed (treeNodeTrim n)"
proof (induction n)
  case (TreeNode r "is" subs)
  let ?cs = "drop_empty 0 (map treeNodeTrim subs)"
  have cs: "\<forall>c\<in>set ?cs. \<not> tree_empty c \<and> trimmed c"
    using TreeNode by (auto simp: drop_empty_set)
  show ?case
  proof (cases "is = [] \<and> length ?cs = 1")
    case True
    then obtain c where "?cs = [c]" by (auto simp: length_Suc_conv)
    then show ?thesis using True cs by (simp add: promote_def)
  next
    case False
    then have "promote (TreeNode r is ?cs) = TreeNode r is ?cs"
      by (auto simp: promote_def split: list.splits)
    then show ?thesis using False cs by auto
  qed
qed

section \<open>The tree of a shapefile\<close>

text \<open>The bounds of the shapes that can be read, as a total function.\<close>

definition bounds_of :: "shapefileObj \<Rightarrow> int \<Rightarrow> rectObj" where
  "bounds_of shp i = the (read_bounds shp i)"

definition readable :: "shapefileObj \<Rightarrow> int list \<Rightarrow> int list" where
  "readable shp is = filter (\<lambda>i. read_bounds shp i \<noteq> None) is"

lemma add_shapes:
  assumes "covered (bounds_of shp) (root t)"
  shows "covered (bounds_of shp) (root (foldl (add_shape shp) t is))
    \<and> mset (all_ids (root (foldl (add_shape shp) t is))) = mset (all_ids (root t)) + mset (readable shp is)
    \<and> nrect (root (foldl (add_shape shp) t is)) = nrect (root t)
    \<and> numshapes (foldl (add_shape shp) t is) = numshapes t"
  using assms
proof (induction "is" arbitrary: t)
  case (Cons i "is")
  show ?case
  proof (cases "read_bounds shp i")
    case (Some r)
    then have b: "bounds_of shp i = r" by (simp add: bounds_of_def)
    have "covered (bounds_of shp) (root (add_shape shp t i))"
      using covered_add [OF Cons.prems, of i] Some by (simp add: add_shape_def treeAddShapeId_def b)
    then show ?thesis
      using Cons.IH Some by (simp add: add_shape_def treeAddShapeId_def all_ids_add readable_def)
  qed (use Cons in \<open>simp add: add_shape_def readable_def\<close>)
qed (simp add: readable_def)

lemma msCreateTree_spec:
  "\<exists>t. msCreateTree (Some shp) d = Some t \<and> covered (bounds_of shp) (root t)
    \<and> mset (all_ids (root t)) = mset (readable shp (map int [0..<nat (shp_numshapes shp)]))
    \<and> nrect (root t) = shp_bounds shp \<and> numshapes t = shp_numshapes shp"
  using add_shapes [of shp "\<lparr>numshapes = shp_numshapes shp,
      maxdepth = (if d = 0 then depth_loop (shp_numshapes shp) 0 1 else d),
      root = treeNodeCreate (shp_bounds shp)\<rparr>"]
  by (simp add: msCreateTree_def treeNodeCreate_def Let_def)

lemma msSearchTree_get:
  "bits_cover (msSearchTree t aoi) (nat (numshapes t))
    \<and> (\<forall>j<nat (numshapes t). msGetBit (msSearchTree t aoi) j = (int j \<in> set (visible_ids aoi (root t))))"
  using collect_get [OF msAllocBitArray_cover, of "root t" aoi "numshapes t"] by (simp add: msSearchTree_def)

lemma filter_search_loop:
  "filter_search f shp r st i = bits.filter_loop f (filter_keep shp r) (nat (shp_numshapes shp)) st i"
  by (induction f arbitrary: st i) (simp_all add: Let_def)

lemma msFilterTreeSearch_spec:
  assumes "bits_cover st (nat (shp_numshapes shp))"
  shows "\<exists>st'. msFilterTreeSearch shp st r = Some st' \<and> bits_cover st' (nat (shp_numshapes shp))
    \<and> (\<forall>j<nat (shp_numshapes shp). msGetBit st' j = (msGetBit st j \<and> filter_keep shp r j))"
  using bits.filter_loop_correct [OF assms bits.nxt_first [OF assms], of 0 _ "filter_keep shp r"]
  by (auto simp: msFilterTreeSearch_def filter_search_loop)

text \<open>A search result that contains every overlapping shape and only readable ones is
  exact once filtered.\<close>

lemma filter_exact:
  assumes "bits_cover st (nat (shp_numshapes shp))"
    and "\<And>j. j < nat (shp_numshapes shp) \<Longrightarrow> msGetBit st j \<Longrightarrow> read_bounds shp (int j) \<noteq> None"
    and "\<And>j b. j < nat (shp_numshapes shp) \<Longrightarrow> read_bounds shp (int j) = Some b
      \<Longrightarrow> msRectOverlap b r \<Longrightarrow> msGetBit st j"
  shows "\<exists>st'. msFilterTreeSearch shp st r = Some st'
    \<and> (\<forall>j<nat (shp_numshapes shp). msGetBit st' j
          = (\<exists>b. read_bounds shp (int j) = Some b \<and> msRectOverlap b r))"
proof -
  have "(msGetBit st j \<and> filter_keep shp r j) = (\<exists>b. read_bounds shp (int j) = Some b \<and> msRectOverlap b r)"
    if "j < nat (shp_numshapes shp)" for j
    using that assms(2,3) [of j] by (auto simp: filter_keep_def split: option.split_asm)
  then show ?thesis using msFilterTreeSearch_spec [OF assms(1), of r] by auto
qed

section \<open>Properties\<close>

text \<open>Adding a shape to a node files its id exactly once, somewhere below the node, keeps
  every other id and the node's rectangle, and keeps each subnode's rectangle around the
  bounds of all the shapes filed below it.\<close>

theorem tree_insert_correct:
  assumes "covered b n"
  shows "mset (all_ids (treeNodeAddShapeId n i (b i) d)) = add_mset i (mset (all_ids n))
    \<and> covered b (treeNodeAddShapeId n i (b i) d) \<and> nrect (treeNodeAddShapeId n i (b i) d) = nrect n"
  using assms covered_add all_ids_add by simp

theorem tree_insert_correct_witness:
  "covered (\<lambda>i. \<lparr>minx = 0, miny = 0, maxx = 0, maxy = 0\<rparr>)
     (treeNodeAddShapeId (TreeNode \<lparr>minx = 0, miny = 0, maxx = 0x4010000000000000, maxy = 0\<rparr> [] []) 7
        \<lparr>minx = 0, miny = 0, maxx = 0, maxy = 0\<rparr> 3)"
  using tree_insert_correct [of "\<lambda>i. \<lparr>minx = 0, miny = 0, maxx = 0, maxy = 0\<rparr>"
      "TreeNode \<lparr>minx = 0, miny = 0, maxx = 0x4010000000000000, maxy = 0\<rparr> [] []" 7 3] by simp

text \<open>C2. Building the index of a shapefile and searching it, then filtering the result against
  the bounds of the shapes, marks exactly the readable shapes whose bounds overlap the
  search rectangle, for every maximal depth, provided the search rectangle overlaps the
  bounds of the file.\<close>

theorem tree_search_exact:
  assumes "msRectOverlap (shp_bounds shp) aoi"
  shows "\<exists>t st. msCreateTree (Some shp) d = Some t
    \<and> msFilterTreeSearch shp (msSearchTree t aoi) aoi = Some st
    \<and> (\<forall>j<nat (shp_numshapes shp). msGetBit st j
          = (\<exists>b. read_bounds shp (int j) = Some b \<and> msRectOverlap b aoi))"
proof -
  obtain t where t: "msCreateTree (Some shp) d = Some t" "covered (bounds_of shp) (root t)"
    "mset (all_ids (root t)) = mset (readable shp (map int [0..<nat (shp_numshapes shp)]))"
    "nrect (root t) = shp_bounds shp" "numshapes t = shp_numshapes shp"
    using msCreateTree_spec by blast
  have ids: "int j \<in> set (all_ids (root t)) \<longleftrightarrow> read_bounds shp (int j) \<noteq> None"
    if "j < nat (shp_numshapes shp)" for j
    using arg_cong [OF t(3), of set_mset] that by (auto simp: readable_def)
  have "\<exists>st. msFilterTreeSearch shp (msSearchTree t aoi) aoi = Some st
    \<and> (\<forall>j<nat (shp_numshapes shp). msGetBit st j
          = (\<exists>b. read_bounds shp (int j) = Some b \<and> msRectOverlap b aoi))"
  proof (rule filter_exact)
    show "read_bounds shp (int j) \<noteq> None"
      if "j < nat (shp_numshapes shp)" "msGetBit (msSearchTree t aoi) j" for j
      using that ids visible_subset [of aoi "root t"] msSearchTree_get [of t aoi] t(5) by auto
    show "msGetBit (msSearchTree t aoi) j"
      if "j < nat (shp_numshapes shp)" "read_bounds shp (int j) = Some b" "msRectOverlap b aoi" for j b
      using covered_visible [OF t(2), of aoi "int j"] that ids assms t(4,5) msSearchTree_get [of t aoi]
      by (simp add: bounds_of_def)
  qed (use msSearchTree_get [of t aoi] t(5) in simp)
  then show ?thesis using t(1) by blast
qed

theorem tree_search_exact_witness:
  "\<exists>t st. msCreateTree (Some \<lparr>shp_numshapes = 2, shp_bounds = \<lparr>minx = 0, miny = 0, maxx = 0x4010000000000000, maxy = 0\<rparr>,
        read_bounds = (\<lambda>i. if i = 1 then Some \<lparr>minx = 0, miny = 0, maxx = 0, maxy = 0\<rparr> else None)\<rparr>) 0 = Some t
     \<and> msFilterTreeSearch \<lparr>shp_numshapes = 2, shp_bounds = \<lparr>minx = 0, miny = 0, maxx = 0x4010000000000000, maxy = 0\<rparr>,
        read_bounds = (\<lambda>i. if i = 1 then Some \<lparr>minx = 0, miny = 0, maxx = 0, maxy = 0\<rparr> else None)\<rparr>
        (msSearchTree t \<lparr>minx = 0, miny = 0, maxx = 0, maxy = 0\<rparr>) \<lparr>minx = 0, miny = 0, maxx = 0, maxy = 0\<rparr> = Some st
     \<and> msGetBit st 1 \<and> \<not> msGetBit st 0"
proof -
  let ?r = "\<lparr>minx = 0, miny = 0, maxx = 0, maxy = 0\<rparr>"
  let ?s = "\<lparr>shp_numshapes = 2, shp_bounds = \<lparr>minx = 0, miny = 0, maxx = 0x4010000000000000, maxy = 0\<rparr>,
        read_bounds = (\<lambda>i. if i = 1 then Some ?r else None)\<rparr>"
  have "msRectOverlap (shp_bounds ?s) ?r" by (simp, code_simp)
  moreover have "msRectOverlap ?r ?r" by code_simp
  ultimately show ?thesis using tree_search_exact [of ?s ?r 0] by fastforce
qed

text \<open>Trimming the tree loses and duplicates no shape id, keeps the rectangles of the
  subnodes around their shapes, leaves no empty subnode and no node that only links to one
  subnode, and a search of the trimmed tree marks every shape that a search of the tree
  marked before.\<close>

theorem tree_trim_correct:
  assumes "covered b (root t)"
  shows "mset (all_ids (root (msTreeTrim t))) = mset (all_ids (root t))
    \<and> covered b (root (msTreeTrim t)) \<and> trimmed (root (msTreeTrim t))
    \<and> (\<forall>aoi. \<forall>j<nat (numshapes t).
          msGetBit (msSearchTree t aoi) j \<longrightarrow> msGetBit (msSearchTree (msTreeTrim t) aoi) j)"
proof -
  have "msGetBit (msSearchTree (msTreeTrim t) aoi) j"
    if "j < nat (numshapes t)" "msGetBit (msSearchTree t aoi) j" for aoi j
    using that msSearchTree_get [of t aoi] msSearchTree_get [of "msTreeTrim t" aoi]
      trim_visible [of aoi "root t"] by (auto simp: msTreeTrim_def)
  then show ?thesis
    using trim_ids trim_trimmed trim_covered [OF assms] by (simp add: msTreeTrim_def)
qed

theorem tree_trim_correct_witness:
  "mset (all_ids (root (msTreeTrim \<lparr>numshapes = 3, maxdepth = 2, root =
      TreeNode \<lparr>minx = 0, miny = 0, maxx = 0, maxy = 0\<rparr> []
        [treeNodeCreate \<lparr>minx = 0, miny = 0, maxx = 0, maxy = 0\<rparr>,
         TreeNode \<lparr>minx = 0, miny = 0, maxx = 0, maxy = 0\<rparr> [2] []]\<rparr>))) = {#2#}"
proof -
  have "msRectContained \<lparr>minx = 0, miny = 0, maxx = 0, maxy = 0\<rparr> \<lparr>minx = 0, miny = 0, maxx = 0, maxy = 0\<rparr>"
    by code_simp
  then show ?thesis
    using tree_trim_correct [of "\<lambda>i. \<lparr>minx = 0, miny = 0, maxx = 0, maxy = 0\<rparr>"
        "\<lparr>numshapes = 3, maxdepth = 2, root =
          TreeNode \<lparr>minx = 0, miny = 0, maxx = 0, maxy = 0\<rparr> []
            [treeNodeCreate \<lparr>minx = 0, miny = 0, maxx = 0, maxy = 0\<rparr>,
             TreeNode \<lparr>minx = 0, miny = 0, maxx = 0, maxy = 0\<rparr> [2] []]\<rparr>"]
    by (simp add: treeNodeCreate_def)
qed

end
