(* ===== verification/ByteOrder.thy ===== *)
theory ByteOrder
  imports MS_Prelude
begin

text \<open>
  How C objects lie in memory and in binary files: the bytes of a word in either byte
  order, the byte swap \<open>SwapWord\<close> of \<^verbatim>\<open>maptree.c\<close> and \<^verbatim>\<open>mapshape.c\<close>, and the parts of
  \<open>stdio\<close> those files use on a file held as its bytes and a position.
\<close>

section \<open>Words and bytes\<close>

definition le_bytes :: "nat \<Rightarrow> 'a::len word \<Rightarrow> byte list" where
  "le_bytes n w = map (\<lambda>i. ucast (drop_bit (8 * i) w)) [0..<n]"

fun le_word :: "byte list \<Rightarrow> 'a::len word" where
  "le_word [] = 0"
| "le_word (b # bs) = ucast b OR push_bit 8 (le_word bs)"

text \<open>The bytes of an object of \<open>n\<close> bytes in memory, on a host that is big-endian or not.\<close>

definition host_bytes :: "bool \<Rightarrow> nat \<Rightarrow> 'a::len word \<Rightarrow> byte list" where
  "host_bytes bBigEndian n w = (if bBigEndian then rev (le_bytes n w) else le_bytes n w)"

definition host_word :: "bool \<Rightarrow> byte list \<Rightarrow> 'a::len word" where
  "host_word bBigEndian bs = le_word (if bBigEndian then rev bs else bs)"

text \<open>\<open>SwapWord\<close> exchanges the bytes \<open>i\<close> and \<open>length - i - 1\<close> for \<open>i\<close> below half the length.\<close>

definition SwapWord :: "nat \<Rightarrow> byte list \<Rightarrow> byte list" where
  "SwapWord n p = foldl (\<lambda>q i. q[i := q ! (n - i - 1), n - i - 1 := q ! i]) p [0..<n div 2]"

section \<open>Files\<close>

record cfile =
  content :: "byte list"
  pos :: nat

text \<open>\<open>fread(buf, n, 1, fp)\<close>: the bytes when all are there. A short read leaves the position at
  the end of the file.\<close>

definition fread :: "nat \<Rightarrow> cfile \<Rightarrow> byte list option \<times> cfile" where
  "fread n fp =
     (if pos fp + n \<le> length (content fp)
      then (Some (take n (drop (pos fp) (content fp))), fp\<lparr>pos := pos fp + n\<rparr>)
      else (None, fp\<lparr>pos := max (pos fp) (length (content fp))\<rparr>))"

text \<open>\<open>fseek(fp, offset, SEEK_CUR)\<close> refuses a position before the start.\<close>

definition fseek_cur :: "int \<Rightarrow> cfile \<Rightarrow> bool \<times> cfile" where
  "fseek_cur offset fp =
     (if int (pos fp) + offset < 0 then (False, fp) else (True, fp\<lparr>pos := nat (int (pos fp) + offset)\<rparr>))"

text \<open>\<open>fwrite(buf, n, 1, fp)\<close> at the end of a file that can hold \<open>cap\<close> bytes.\<close>

definition fwrite :: "nat \<Rightarrow> byte list \<Rightarrow> byte list \<Rightarrow> bool \<times> byte list" where
  "fwrite cap buf out = (length out + length buf \<le> cap, take cap (out @ buf))"

section \<open>Lemmas\<close>

lemma length_le_bytes [simp]: "length (le_bytes n w) = n"
  by (simp add: le_bytes_def)

lemma length_host_bytes [simp]: "length (host_bytes be n w) = n"
  by (simp add: host_bytes_def)

lemma bit_le_word:
  "bit (le_word bs :: 'a::len word) k \<longleftrightarrow> k < LENGTH('a) \<and> k < 8 * length bs \<and> bit (bs ! (k div 8)) (k mod 8)"
proof (induction bs arbitrary: k)
  case (Cons b bs)
  show ?case
  proof (cases "k < 8")
    case True
    then show ?thesis by (auto simp: bit_simps)
  next
    case False
    then have "k div 8 = Suc ((k - 8) div 8)" "k mod 8 = (k - 8) mod 8"
      by (simp_all add: div_if mod_if)
    then show ?thesis using False Cons.IH [of "k - 8"] bit_imp_le_length [of b k] by (auto simp: bit_simps)
  qed
qed simp

lemma le_word_le_bytes:
  assumes "LENGTH('a) \<le> 8 * n"
  shows "le_word (le_bytes n w) = (w :: 'a::len word)"
proof (rule bit_eqI)
  fix k assume "possible_bit TYPE('a word) k"
  then have k: "k < LENGTH('a)" by simp
  then have "k div 8 < n" using assms by (simp add: less_mult_imp_div_less mult.commute)
  then show "bit (le_word (le_bytes n w) :: 'a word) k = bit w k"
    using k assms by (auto simp: bit_le_word le_bytes_def bit_simps)
qed

lemma host_word_host_bytes:
  "LENGTH('a) \<le> 8 * n \<Longrightarrow> host_word be (host_bytes be n w) = (w :: 'a::len word)"
  by (simp add: host_word_def host_bytes_def le_word_le_bytes)

definition swapped :: "byte list \<Rightarrow> nat \<Rightarrow> byte list \<Rightarrow> bool" where
  "swapped p k q \<longleftrightarrow> length q = length p
     \<and> (\<forall>j<length p. q ! j = (if j < k \<or> length p - k \<le> j then p ! (length p - j - 1) else p ! j))"

lemma swapped_Suc:
  assumes q: "swapped p k q" and k: "k < length p - k - 1"
  shows "swapped p (Suc k) (q[k := q ! (length p - k - 1), length p - k - 1 := q ! k])"
proof -
  let ?n = "length p"
  have at: "q ! k = p ! k" "q ! (?n - k - 1) = p ! (?n - k - 1)"
    using q k by (auto simp: swapped_def)
  have "q[k := p ! (?n - k - 1), ?n - k - 1 := p ! k] ! j
      = (if j < Suc k \<or> ?n - Suc k \<le> j then p ! (?n - j - 1) else p ! j)" if j: "j < ?n" for j
  proof (cases "j = k \<or> j = ?n - k - 1")
    case True
    then show ?thesis using q k by (auto simp: swapped_def nth_list_update)
  next
    case False
    then have "q[k := p ! (?n - k - 1), ?n - k - 1 := p ! k] ! j = q ! j" by auto
    moreover have "(j < Suc k \<or> ?n - Suc k \<le> j) = (j < k \<or> ?n - k \<le> j)" using False by linarith
    ultimately show ?thesis using q j by (simp add: swapped_def)
  qed
  moreover have "length q = ?n" using q by (simp add: swapped_def)
  ultimately show ?thesis unfolding swapped_def at by simp
qed

lemma SwapWord_rounds:
  "k \<le> length p div 2 \<Longrightarrow>
     swapped p k (foldl (\<lambda>q i. q[i := q ! (length p - i - 1), length p - i - 1 := q ! i]) p [0..<k])"
proof (induction k)
  case (Suc k)
  then show ?case using swapped_Suc [of p k] by simp
qed (simp add: swapped_def)

lemma SwapWord_rev:
  assumes "length p = n"
  shows "SwapWord n p = rev p"
proof (rule nth_equalityI)
  let ?k = "n div 2"
  have r: "swapped p ?k (SwapWord n p)"
    using SwapWord_rounds [of ?k p] assms by (simp add: SwapWord_def)
  then show "length (SwapWord n p) = length (rev p)" by (simp add: swapped_def)
  fix j assume "j < length (SwapWord n p)"
  then have j: "j < n" using r assms by (simp add: swapped_def)
  have "SwapWord n p ! j = p ! (n - j - 1)"
  proof (cases "j < ?k \<or> n - ?k \<le> j")
    case False
    then have "j = n - j - 1" using j by linarith
    then show ?thesis using r j assms False by (simp add: swapped_def)
  qed (use r j assms in \<open>simp add: swapped_def\<close>)
  then show "SwapWord n p ! j = rev p ! j" using j assms by (simp add: rev_nth)
qed

lemma fread_here:
  "pos fp = length pre \<Longrightarrow> content fp = pre @ buf @ post \<Longrightarrow> n = length buf
     \<Longrightarrow> fread n fp = (Some buf, fp\<lparr>pos := length pre + n\<rparr>)"
  by (simp add: fread_def)

lemma fwrite_fits: "length out + length buf \<le> cap \<Longrightarrow> fwrite cap buf out = (True, out @ buf)"
  by (simp add: fwrite_def)

end
