(* ===== verification/MapTreeDisk.thy ===== *)
theory MapTreeDisk
  imports MapTree ByteOrder
begin

text \<open>
  \<^verbatim>\<open>maptree.c\<close>, the spatial index on disk (\<^verbatim>\<open>.qix\<close>): the writer, the reader that searches the
  file without loading it, and the reader of the root node. \<open>bBigEndian\<close> is the byte order
  of the host, a file system is a map from names to contents, and a file that is written can
  hold \<open>cap\<close> bytes. A name without characters, on which the code reads before its
  buffer, is left as it is.
\<close>

section \<open>The handle of an index file\<close>

record SHPTreeInfo =
  fp :: cfile
  signature :: "byte list"
  LSB_order :: bool
  needswap :: bool
  version :: byte
  flags :: "byte list"
  nShapes :: i32
  nDepth :: i32

type_synonym fsys = "string \<rightharpoonup> byte list"

abbreviation (input) MS_LSB_ORDER :: int where "MS_LSB_ORDER \<equiv> -1"
abbreviation (input) MS_MSB_ORDER :: int where "MS_MSB_ORDER \<equiv> -2"
abbreviation (input) MS_NATIVE_ORDER :: int where "MS_NATIVE_ORDER \<equiv> 0"
abbreviation (input) MS_NEW_LSB_ORDER :: int where "MS_NEW_LSB_ORDER \<equiv> 1"
abbreviation (input) MS_NEW_MSB_ORDER :: int where "MS_NEW_MSB_ORDER \<equiv> 2"

text \<open>The base name: what is before the last dot, if no directory separator follows it.\<close>

fun strip_from :: "string \<Rightarrow> nat \<Rightarrow> string" where
  "strip_from s 0 = (if s \<noteq> [] \<and> s ! 0 = CHR ''.'' then [] else s)"
| "strip_from s (Suc i) =
     (if s ! Suc i \<noteq> CHR ''.'' \<and> s ! Suc i \<noteq> CHR ''/'' \<and> s ! Suc i \<noteq> CHR 0x5C then strip_from s i
      else if s ! Suc i = CHR ''.'' then take (Suc i) s else s)"

definition base_name :: "string \<Rightarrow> string" where
  "base_name s = strip_from s (length s - 1)"

text \<open>\<open>memcpy\<close> of a 4-byte field out of a buffer, after a swap if the file needs one.\<close>

definition get4 :: "bool \<Rightarrow> bool \<Rightarrow> byte list \<Rightarrow> i32" where
  "get4 bBigEndian swap buf = host_word bBigEndian (if swap then SwapWord 4 buf else buf)"

definition get8 :: "bool \<Rightarrow> bool \<Rightarrow> byte list \<Rightarrow> f64" where
  "get8 bBigEndian swap buf = host_word bBigEndian (if swap then SwapWord 8 buf else buf)"

definition put4 :: "bool \<Rightarrow> bool \<Rightarrow> i32 \<Rightarrow> byte list" where
  "put4 bBigEndian swap w =
     (let buf = host_bytes bBigEndian 4 w in if swap then SwapWord 4 buf else buf)"

definition put8 :: "bool \<Rightarrow> bool \<Rightarrow> f64 \<Rightarrow> byte list" where
  "put8 bBigEndian swap w =
     (let buf = host_bytes bBigEndian 8 w in if swap then SwapWord 8 buf else buf)"

definition get_rect :: "bool \<Rightarrow> bool \<Rightarrow> byte list \<Rightarrow> rectObj" where
  "get_rect bBigEndian swap buf =
     \<lparr>minx = get8 bBigEndian swap (take 8 buf), miny = get8 bBigEndian swap (take 8 (drop 8 buf)),
      maxx = get8 bBigEndian swap (take 8 (drop 16 buf)), maxy = get8 bBigEndian swap (take 8 (drop 24 buf))\<rparr>"

definition put_rect :: "bool \<Rightarrow> bool \<Rightarrow> rectObj \<Rightarrow> byte list" where
  "put_rect bBigEndian swap r =
     put8 bBigEndian swap (minx r) @ put8 bBigEndian swap (miny r)
     @ put8 bBigEndian swap (maxx r) @ put8 bBigEndian swap (maxy r)"

section \<open>Opening\<close>

definition msSHPDiskTreeOpen :: "bool \<Rightarrow> fsys \<Rightarrow> string \<Rightarrow> SHPTreeInfo option" where
  "msSHPDiskTreeOpen bBigEndian fs pszTree =
     (let base = base_name pszTree in
      case (case fs (base @ ''.qix'') of None \<Rightarrow> fs (base @ ''.QIX'') | Some c \<Rightarrow> Some c) of
        None \<Rightarrow> None
      | Some c \<Rightarrow>
         (case fread 8 \<lparr>content = c, pos = 0\<rparr> of
            (None, _) \<Rightarrow> None
          | (Some buf, f1) \<Rightarrow>
             (if take 3 buf \<noteq> [83, 81, 84] then
                (let lsb = (if buf ! 4 = 0 \<and> buf ! 5 = 0 \<and> buf ! 6 = 0 \<and> buf ! 7 = 0
                            then \<not> (buf ! 0 = 0 \<and> buf ! 1 = 0) else \<not> (buf ! 4 = 0 \<and> buf ! 5 = 0));
                     swap = (lsb \<noteq> (\<not> bBigEndian))
                 in Some \<lparr>fp = f1, signature = take 3 buf, LSB_order = lsb, needswap = swap, version = 0,
                          flags = [], nShapes = get4 bBigEndian swap (take 4 buf),
                          nDepth = get4 bBigEndian swap (take 4 (drop 4 buf))\<rparr>)
              else
                (let swap = ((buf ! 3 = 2) \<noteq> bBigEndian) in
                 case fread 8 f1 of
                   (None, _) \<Rightarrow> None
                 | (Some buf2, f2) \<Rightarrow>
                     Some \<lparr>fp = f2, signature = take 3 buf, LSB_order = (buf ! 3 = 1), needswap = swap,
                           version = buf ! 4, flags = take 3 (drop 5 buf),
                           nShapes = get4 bBigEndian swap (take 4 buf2),
                           nDepth = get4 bBigEndian swap (take 4 (drop 4 buf2))\<rparr>))))"

section \<open>Searching the file\<close>

text \<open>The state a search threads: the file, the result so far and the errors reported.\<close>

record search_state =
  sfp :: cfile
  status :: ms_bitarray
  errors :: "report list"

definition io_error :: "search_state \<Rightarrow> search_state" where
  "io_error s = s\<lparr>errors := errors s @ [Report MS_IOERR '''' ''searchDiskTreeNode()'']\<rparr>"

fun repeatM :: "nat \<Rightarrow> ('s \<Rightarrow> 's option) \<Rightarrow> 's \<Rightarrow> 's option" where
  "repeatM 0 step s = Some s"
| "repeatM (Suc n) step s = (case step s of None \<Rightarrow> None | Some s' \<Rightarrow> repeatM n step s')"

fun chunks4 :: "nat \<Rightarrow> byte list \<Rightarrow> byte list list" where
  "chunks4 0 bs = []"
| "chunks4 (Suc n) bs = take 4 bs # chunks4 n (drop 4 bs)"

text \<open>The ids of a node are read only when it has some.\<close>

definition read_ids :: "int \<Rightarrow> cfile \<Rightarrow> byte list option \<times> cfile" where
  "read_ids n f = (if 0 < n then fread (nat n * 4) f else (Some [], f))"

text \<open>
  One call of \<open>searchDiskTreeNode\<close>. The fuel bounds the depth of the recursion; a call that
  would go deeper is \<open>None\<close>.
\<close>

fun searchDiskTreeNode :: "nat \<Rightarrow> bool \<Rightarrow> SHPTreeInfo \<Rightarrow> rectObj \<Rightarrow> search_state \<Rightarrow> search_state option" where
  "searchDiskTreeNode 0 bBigEndian disktree aoi s = None"
| "searchDiskTreeNode (Suc fuel) bBigEndian disktree aoi s =
     (case fread 4 (sfp s) of
        (None, f) \<Rightarrow> Some (io_error (s\<lparr>sfp := f\<rparr>))
      | (Some b1, f1) \<Rightarrow>
     (case fread 32 f1 of
        (None, f) \<Rightarrow> Some (io_error (s\<lparr>sfp := f\<rparr>))
      | (Some b2, f2) \<Rightarrow>
     (case fread 4 f2 of
        (None, f) \<Rightarrow> Some (io_error (s\<lparr>sfp := f\<rparr>))
      | (Some b3, f3) \<Rightarrow>
        (let swap = needswap disktree;
             offset = get4 bBigEndian swap b1;
             rect = get_rect bBigEndian swap b2;
             numshapes = get4 bBigEndian swap b3
         in
         if sint numshapes < 0 \<or> 536870911 < sint numshapes then Some (io_error (s\<lparr>sfp := f3\<rparr>))
         else if \<not> msRectOverlap rect aoi then
           (let offset' = offset + (numshapes * 4 + 4) in
            case fseek_cur (sint offset') f3 of
              (False, f) \<Rightarrow> Some (io_error (s\<lparr>sfp := f\<rparr>))
            | (True, f) \<Rightarrow> Some (s\<lparr>sfp := f\<rparr>))
         else
           (case read_ids (sint numshapes) f3 of
              (None, f) \<Rightarrow> Some (io_error (s\<lparr>sfp := f\<rparr>))
            | (Some b4, f4) \<Rightarrow>
              (let idl = map (\<lambda>b. sint (get4 bBigEndian swap b)) (chunks4 (nat (sint numshapes)) b4);
                   s4 = s\<lparr>sfp := f4, status := set_ids (sint (nShapes disktree)) idl (status s)\<rparr>
               in
               case fread 4 f4 of
                 (None, f) \<Rightarrow> Some (io_error (s4\<lparr>sfp := f\<rparr>))
               | (Some b5, f5) \<Rightarrow>
                 (let numsubnodes = get4 bBigEndian swap b5; s5 = s4\<lparr>sfp := f5\<rparr> in
                  if sint numsubnodes < 0 \<or> 536870911 < sint numsubnodes then Some (io_error s5)
                  else repeatM (nat (sint numsubnodes))
                         (searchDiskTreeNode fuel bBigEndian disktree aoi) s5)))))))"

declare searchDiskTreeNode.simps(2) [simp del]

definition msSearchDiskTree ::
    "nat \<Rightarrow> bool \<Rightarrow> fsys \<Rightarrow> string \<Rightarrow> rectObj \<Rightarrow> bool \<Rightarrow> int \<Rightarrow> (ms_bitarray option \<times> report list) option" where
  "msSearchDiskTree fuel bBigEndian fs filename aoi debug shapes =
     (case msSHPDiskTreeOpen bBigEndian fs filename of
        None \<Rightarrow> Some (None, if debug then [Report MS_NOTFOUND
            ''Unable to open spatial index for %s. In most cases you can safely ignore this message, otherwise check file names and permissions.''
            ''msSearchDiskTree()''] else [])
      | Some disktree \<Rightarrow>
          (let n = sint (nShapes disktree) in
           if n \<noteq> shapes then
             Some (None, [Report MS_SHPERR ''The spatial index file %s is corrupt.'' ''msSearchDiskTree()''])
           else if n + 31 \<le> -32 then Some (None, [Report MS_MEMERR '''' ''msSearchDiskTree()''])
           else (case searchDiskTreeNode fuel bBigEndian disktree aoi
                        \<lparr>sfp = fp disktree, status = msAllocBitArray (nat n), errors = []\<rparr> of
                   None \<Rightarrow> None
                 | Some s \<Rightarrow> Some (Some (status s), errors s))))"

section \<open>Reading the root node\<close>

text \<open>What \<open>readTreeNode\<close> fills in: \<open>numsubnodes\<close> is set and \<open>subnode[]\<close> is not.\<close>

record diskNode =
  dn_rect :: rectObj
  dn_ids :: "int list"
  dn_numsubnodes :: int

definition readTreeNode :: "bool \<Rightarrow> SHPTreeInfo \<Rightarrow> diskNode option" where
  "readTreeNode bBigEndian disktree =
     (let swap = needswap disktree in
      case fread 4 (fp disktree) of (None, _) \<Rightarrow> None
      | (Some b1, f1) \<Rightarrow> (case fread 32 f1 of (None, _) \<Rightarrow> None
      | (Some b2, f2) \<Rightarrow> (case fread 4 f2 of (None, _) \<Rightarrow> None
      | (Some b3, f3) \<Rightarrow>
         (let n = sint (get4 bBigEndian swap b3) in
          if n < 0 \<or> 536870911 < n then None
          else (case read_ids n f3 of
             (None, _) \<Rightarrow> None
           | (Some b4, f4) \<Rightarrow> (case fread 4 f4 of (None, _) \<Rightarrow> None
           | (Some b5, f5) \<Rightarrow>
               Some \<lparr>dn_rect = get_rect bBigEndian swap b2,
                     dn_ids = map (\<lambda>b. sint (get4 bBigEndian swap b)) (chunks4 (nat n) b4),
                     dn_numsubnodes = sint (get4 bBigEndian swap b5)\<rparr>))))))"

record diskTree =
  dt_numshapes :: int
  dt_maxdepth :: int
  dt_root :: "diskNode option"

definition msReadTree :: "bool \<Rightarrow> fsys \<Rightarrow> string \<Rightarrow> diskTree option \<times> report list" where
  "msReadTree bBigEndian fs filename =
     (case msSHPDiskTreeOpen bBigEndian fs filename of
        None \<Rightarrow> (None, [Report MS_IOERR '''' ''msReadTree()''])
      | Some disktree \<Rightarrow>
          (Some \<lparr>dt_numshapes = sint (nShapes disktree), dt_maxdepth = sint (nDepth disktree),
                 dt_root = readTreeNode bBigEndian disktree\<rparr>, []))"

section \<open>Writing\<close>

text \<open>The size of the records of the subnodes, computed on 32 bits.\<close>

fun getSubNodeOffset :: "treeNodeObj \<Rightarrow> i32" where
  "getSubNodeOffset (TreeNode r is subs) =
     foldl (\<lambda>offset (n, d). offset + (32 + (word_of_nat n + 3) * 4) + d) 0
       (map (\<lambda>c. (length (ids c), getSubNodeOffset c)) subs)"

definition node_record :: "bool \<Rightarrow> bool \<Rightarrow> treeNodeObj \<Rightarrow> byte list" where
  "node_record bBigEndian swap n =
     put4 bBigEndian swap (getSubNodeOffset n) @ put_rect bBigEndian swap (nrect n)
     @ put4 bBigEndian swap (word_of_nat (length (ids n)))
     @ concat (map (\<lambda>i. put4 bBigEndian swap (word_of_int i)) (ids n))
     @ put4 bBigEndian swap (word_of_nat (length (subnode n)))"

fun writeTreeNode :: "nat \<Rightarrow> bool \<Rightarrow> bool \<Rightarrow> treeNodeObj \<Rightarrow> byte list \<Rightarrow> byte list" where
  "writeTreeNode cap bBigEndian swap (TreeNode r is subs) out =
     fold (\<lambda>c out. writeTreeNode cap bBigEndian swap c out) subs
       (snd (fwrite cap (node_record bBigEndian swap (TreeNode r is subs)) out))"

record write_result =
  w_ok :: bool
  w_tree :: treeObj
  w_fs :: fsys
  w_errors :: "report list"

definition write_swap :: "bool \<Rightarrow> int \<Rightarrow> bool" where
  "write_swap mtBigEndian B_order =
     (if B_order = MS_NATIVE_ORDER then False
      else mtBigEndian = (B_order = MS_LSB_ORDER \<or> B_order = MS_NEW_LSB_ORDER))"

definition msWriteTree ::
    "nat \<Rightarrow> (string \<Rightarrow> bool) \<Rightarrow> bool \<Rightarrow> fsys \<Rightarrow> treeObj \<Rightarrow> string \<Rightarrow> int \<Rightarrow> write_result" where
  "msWriteTree cap writable mtBigEndian fs tree filename B_order =
     (let name = base_name filename @ ''.qix'' in
      if \<not> writable name then
        \<lparr>w_ok = False, w_tree = tree, w_fs = fs, w_errors = [Report MS_IOERR '''' ''msWriteTree()'']\<rparr>
      else
        (let tree' = msTreeTrim tree;
             swap = write_swap mtBigEndian B_order;
             out1 = (if 0 < B_order
                     then snd (fwrite cap [83, 81, 84, word_of_int B_order, 1, 0, 0, 0] []) else []);
             buf = put4 mtBigEndian swap (word_of_int (numshapes tree'))
                   @ put4 mtBigEndian swap (word_of_int (maxdepth tree'));
             (i, out2) = fwrite cap buf out1
         in if \<not> i then \<lparr>w_ok = False, w_tree = tree', w_fs = fs(name \<mapsto> out2), w_errors = []\<rparr>
            else \<lparr>w_ok = True, w_tree = tree',
                  w_fs = fs(name \<mapsto> writeTreeNode cap mtBigEndian swap (root tree') out2),
                  w_errors = []\<rparr>))"

section \<open>Fields and records\<close>

lemma length_put [simp]: "length (put4 be sw w) = 4" "length (put8 be sw d) = 8"
  "length (put_rect be sw r) = 32"
  by (simp_all add: put4_def put8_def put_rect_def Let_def SwapWord_rev)

lemma get4_put4 [simp]: "get4 be sw (put4 be sw w) = w"
  by (simp add: get4_def put4_def Let_def SwapWord_rev host_word_host_bytes)

lemma get8_put8 [simp]: "get8 be sw (put8 be sw w) = w"
  by (simp add: get8_def put8_def Let_def SwapWord_rev host_word_host_bytes)

lemma get_rect_put_rect [simp]: "get_rect be sw (put_rect be sw r) = r"
  by (simp add: get_rect_def put_rect_def)

lemma chunks4_put4:
  "map (\<lambda>b. sint (get4 be sw b)) (chunks4 (length is) (concat (map (\<lambda>i. put4 be sw (f i)) is) @ rest))
     = map (sint \<circ> f) is"
  by (induction "is") simp_all

text \<open>The bytes of a subtree and their number.\<close>

fun tree_bytes :: "bool \<Rightarrow> bool \<Rightarrow> treeNodeObj \<Rightarrow> byte list" where
  "tree_bytes be sw (TreeNode r is subs) =
     node_record be sw (TreeNode r is subs) @ concat (map (tree_bytes be sw) subs)"

fun tree_size :: "treeNodeObj \<Rightarrow> nat" where
  "tree_size (TreeNode r is subs) = 44 + 4 * length is + sum_list (map tree_size subs)"

lemma tree_size_eq: "tree_size n = 44 + 4 * length (ids n) + sum_list (map tree_size (subnode n))"
  by (cases n) simp

lemma length_concat_4: "(\<And>x. length (f x) = 4) \<Longrightarrow> length (concat (map f xs)) = 4 * length xs"
  by (induction xs) simp_all

lemma length_node_record [simp]: "length (node_record be sw n) = 44 + 4 * length (ids n)"
  by (simp add: node_record_def length_concat_4)

lemma length_tree_bytes: "length (tree_bytes be sw n) = tree_size n"
proof (induction n)
  case (TreeNode r "is" subs)
  then have "length (concat (map (tree_bytes be sw) subs)) = sum_list (map tree_size subs)"
    by (induction subs) simp_all
  then show ?case by simp
qed

lemma getSubNodeOffset_size:
  "getSubNodeOffset n = word_of_nat (sum_list (map tree_size (subnode n)))"
proof (induction n)
  case (TreeNode r "is" subs)
  have "foldl (\<lambda>offset (n, d). offset + (32 + (word_of_nat n + 3) * 4) + d) a
      (map (\<lambda>c. (length (ids c), getSubNodeOffset c)) cs) = a + word_of_nat (sum_list (map tree_size cs))"
    if "set cs \<subseteq> set subs" for a :: i32 and cs
    using that
  proof (induction cs arbitrary: a)
    case (Cons c cs)
    have "32 + (word_of_nat (length (ids c)) + 3) * 4 + getSubNodeOffset c = (word_of_nat (tree_size c) :: i32)"
      using TreeNode.IH [of c] Cons.prems by (simp add: tree_size_eq [of c] algebra_simps)
    then show ?case using Cons.IH Cons.prems by (simp add: algebra_simps)
  qed simp
  from this [of subs 0] show ?case by simp
qed

lemma writeTreeNode_bytes:
  "length out + tree_size n \<le> cap \<Longrightarrow> writeTreeNode cap be sw n out = out @ tree_bytes be sw n"
proof (induction n arbitrary: out)
  case (TreeNode r "is" subs)
  have "fold (\<lambda>c out. writeTreeNode cap be sw c out) cs o1 = o1 @ concat (map (tree_bytes be sw) cs)"
    if "set cs \<subseteq> set subs" "length o1 + sum_list (map tree_size cs) \<le> cap" for cs o1
    using that
  proof (induction cs arbitrary: o1)
    case (Cons c cs)
    then show ?case using TreeNode.IH [of c o1] by (simp add: length_tree_bytes)
  qed simp
  then show ?case using TreeNode.prems by (simp add: fwrite_fits)
qed

section \<open>Searching what was written\<close>

fun height :: "treeNodeObj \<Rightarrow> nat" where
  "height (TreeNode r is subs) = Suc (fold max (map height subs) 0)"

lemma height_sub: "c \<in> set (subnode n) \<Longrightarrow> height c < height n"
proof (cases n)
  case (TreeNode r "is" subs)
  have "x \<le> fold max xs a \<and> a \<le> fold max xs a" if "x \<in> set xs \<or> x \<le> a" for x a :: nat and xs
    using that by (induction xs arbitrary: a x) (fastforce simp: max_def split: if_splits)+
  moreover assume "c \<in> set (subnode n)"
  ultimately show ?thesis using TreeNode by (simp add: less_Suc_eq_le)
qed

fun ids_in_range :: "treeNodeObj \<Rightarrow> bool" where
  "ids_in_range (TreeNode r is subs) \<longleftrightarrow>
     (\<forall>i\<in>set is. - (2 ^ 31) \<le> i \<and> i < 2 ^ 31) \<and> (\<forall>c\<in>set subs. ids_in_range c)"

lemma sint_small_int: "- (2 ^ 31) \<le> i \<Longrightarrow> i < 2 ^ 31 \<Longrightarrow> sint (word_of_int i :: i32) = i"
  by (simp add: signed_of_int signed_take_bit_int_eq_self)

lemma sint_small_nat: "n < 2 ^ 31 \<Longrightarrow> sint (word_of_nat n :: i32) = int n"
  using sint_small_int [of "int n"] by simp

lemma sum_sizes: "44 * length cs \<le> sum_list (map tree_size cs)"
proof (induction cs)
  case (Cons c cs)
  then show ?case by (cases c) simp
qed simp

text \<open>The loop over the subnodes, given that one call consumes one subtree.\<close>

definition after_nodes :: "SHPTreeInfo \<Rightarrow> rectObj \<Rightarrow> treeNodeObj list \<Rightarrow> search_state \<Rightarrow> search_state" where
  "after_nodes h aoi cs s =
     s\<lparr>sfp := (sfp s)\<lparr>pos := pos (sfp s) + sum_list (map tree_size cs)\<rparr>,
       status := fold (\<lambda>c st. treeCollectShapeIds c aoi (sint (nShapes h)) st) cs (status s)\<rparr>"

definition at_nodes :: "bool \<Rightarrow> SHPTreeInfo \<Rightarrow> treeNodeObj list \<Rightarrow> search_state \<Rightarrow> bool" where
  "at_nodes be h cs s \<longleftrightarrow>
     (\<exists>pre post. content (sfp s) = pre @ concat (map (tree_bytes be (needswap h)) cs) @ post
        \<and> pos (sfp s) = length pre)"

lemma at_nodes_Cons:
  assumes "at_nodes be h (c # cs) s"
  shows "at_nodes be h [c] s \<and> at_nodes be h cs (after_nodes h aoi [c] s)"
proof -
  from assms obtain pre post where p: "pos (sfp s) = length pre"
    "content (sfp s) = pre @ concat (map (tree_bytes be (needswap h)) (c # cs)) @ post"
    unfolding at_nodes_def by blast
  show ?thesis
    unfolding at_nodes_def
  proof (intro conjI exI)
    show "content (sfp s) = pre @ concat (map (tree_bytes be (needswap h)) [c])
        @ (concat (map (tree_bytes be (needswap h)) cs) @ post)" "pos (sfp s) = length pre"
      using p by simp_all
    show "content (sfp (after_nodes h aoi [c] s))
        = (pre @ tree_bytes be (needswap h) c) @ concat (map (tree_bytes be (needswap h)) cs) @ post"
      "pos (sfp (after_nodes h aoi [c] s)) = length (pre @ tree_bytes be (needswap h) c)"
      using p by (simp_all add: after_nodes_def length_tree_bytes)
  qed
qed

lemma repeatM_nodes:
  assumes "\<And>c s. c \<in> set cs \<Longrightarrow> at_nodes be h [c] s \<Longrightarrow> step s = Some (after_nodes h aoi [c] s)"
    and "at_nodes be h cs s"
  shows "repeatM (length cs) step s = Some (after_nodes h aoi cs s)"
  using assms
proof (induction cs arbitrary: s)
  case Nil
  then show ?case by (simp add: after_nodes_def)
next
  case (Cons c cs)
  have at: "at_nodes be h [c] s" "at_nodes be h cs (after_nodes h aoi [c] s)"
    using at_nodes_Cons [OF Cons.prems(2)] by blast+
  have "after_nodes h aoi cs (after_nodes h aoi [c] s) = after_nodes h aoi (c # cs) s"
    by (simp add: after_nodes_def)
  then show ?case using Cons.prems(1) [OF _ at(1)] Cons.IH [OF _ at(2)] Cons.prems(1) by simp
qed

lemma searchDiskTreeNode_written:
  "at_nodes be h [n] s \<Longrightarrow> tree_size n < 2 ^ 31 \<Longrightarrow> ids_in_range n \<Longrightarrow> height n \<le> fuel \<Longrightarrow>
     searchDiskTreeNode fuel be h aoi s = Some (after_nodes h aoi [n] s)"
proof (induction n arbitrary: fuel s)
  case (TreeNode r "is" subs)
  let ?n = "TreeNode r is subs" and ?sw = "needswap h"
  let ?idb = "concat (map (\<lambda>i. put4 be ?sw (word_of_int i)) is)"
  let ?subb = "concat (map (tree_bytes be ?sw) subs)"
  obtain f where f: "fuel = Suc f" using TreeNode.prems(4) by (cases fuel) auto
  from TreeNode.prems(1) obtain pre post where p: "pos (sfp s) = length pre"
    "content (sfp s) = pre @ put4 be ?sw (getSubNodeOffset ?n) @ put_rect be ?sw r
       @ put4 be ?sw (word_of_nat (length is)) @ ?idb @ put4 be ?sw (word_of_nat (length subs)) @ ?subb @ post"
    by (auto simp: at_nodes_def node_record_def)
  let ?at = "\<lambda>k. (sfp s)\<lparr>pos := length pre + k\<rparr>"
  let ?m = "length is"
  have size: "tree_size ?n < 2 ^ 31" by (rule TreeNode.prems(2))
  have m: "sint (word_of_nat ?m :: i32) = int ?m" "?m \<le> 536870911"
    and k: "sint (word_of_nat (length subs) :: i32) = int (length subs)" "length subs \<le> 536870911"
    using size sum_sizes [of subs] by (auto intro!: sint_small_nat)
  have r1: "fread 4 (sfp s) = (Some (put4 be ?sw (getSubNodeOffset ?n)), ?at 4)"
    using p by (subst fread_here [where pre = pre]) auto
  have r2: "fread 32 (?at 4) = (Some (put_rect be ?sw r), ?at 36)"
    using p by (subst fread_here [where pre = "pre @ put4 be ?sw (getSubNodeOffset ?n)"]) auto
  have r3: "fread 4 (?at 36) = (Some (put4 be ?sw (word_of_nat ?m)), ?at 40)"
    using p by (subst fread_here [where pre = "pre @ put4 be ?sw (getSubNodeOffset ?n) @ put_rect be ?sw r"]) auto
  have r4: "fread (?m * 4) (?at 40) = (Some ?idb, ?at (40 + ?m * 4))"
    using p by (subst fread_here [where pre = "pre @ put4 be ?sw (getSubNodeOffset ?n) @ put_rect be ?sw r
          @ put4 be ?sw (word_of_nat ?m)" and buf = ?idb]) (auto simp: length_concat_4)
  have r5: "fread 4 (?at (40 + ?m * 4)) = (Some (put4 be ?sw (word_of_nat (length subs))), ?at (44 + ?m * 4))"
    using p by (subst fread_here [where pre = "pre @ put4 be ?sw (getSubNodeOffset ?n) @ put_rect be ?sw r
          @ put4 be ?sw (word_of_nat ?m) @ ?idb"]) (auto simp: length_concat_4)
  show ?case
  proof (cases "msRectOverlap r aoi")
    case False
    have "getSubNodeOffset ?n + (word_of_nat ?m * 4 + 4) = (word_of_nat (tree_size ?n - 40) :: i32)"
      by (simp add: getSubNodeOffset_size algebra_simps)
    then have "sint (getSubNodeOffset ?n + (word_of_nat ?m * 4 + 4)) = int (tree_size ?n - 40)"
      using size by (simp only: sint_small_nat)
    then have "fseek_cur (sint (getSubNodeOffset ?n + (word_of_nat ?m * 4 + 4))) (?at 40)
        = (True, ?at (tree_size ?n))"
      by (simp add: fseek_cur_def nat_add_distrib)
    then show ?thesis
      using False p(1) m by (simp add: f searchDiskTreeNode.simps r1 r2 r3 after_nodes_def Let_def)
  next
    case True
    have ids: "map (\<lambda>b. sint (get4 be ?sw b)) (chunks4 ?m ?idb) = is"
      using chunks4_put4 [of be ?sw "is" word_of_int "[]"] TreeNode.prems(3)
      by (simp add: map_idI sint_small_int)
    have r4': "read_ids (int ?m) (?at 40) = (Some ?idb, ?at (40 + ?m * 4))"
      using r4 by (simp add: read_ids_def)
    let ?s5 = "s\<lparr>status := set_ids (sint (nShapes h)) is (status s), sfp := ?at (44 + ?m * 4)\<rparr>"
    have at: "at_nodes be h subs ?s5"
      unfolding at_nodes_def
    proof (intro exI conjI)
      show "content (sfp ?s5) = (pre @ put4 be ?sw (getSubNodeOffset ?n) @ put_rect be ?sw r
          @ put4 be ?sw (word_of_nat ?m) @ ?idb @ put4 be ?sw (word_of_nat (length subs))) @ ?subb @ post"
        using p by simp
    qed (simp add: length_concat_4)
    have "repeatM (length subs) (searchDiskTreeNode f be h aoi) ?s5 = Some (after_nodes h aoi subs ?s5)"
    proof (rule repeatM_nodes [OF _ at])
      fix c s' assume c: "c \<in> set subs" and at_c: "at_nodes be h [c] s'"
      have "tree_size c \<le> sum_list (map tree_size subs)" using c by (simp add: member_le_sum_list)
      then show "searchDiskTreeNode f be h aoi s' = Some (after_nodes h aoi [c] s')"
        using TreeNode.IH [OF c at_c, of f] size TreeNode.prems(3,4) c height_sub [of c ?n] f by simp
    qed
    moreover have "after_nodes h aoi subs ?s5 = after_nodes h aoi [?n] s"
      using True p(1) by (simp add: after_nodes_def algebra_simps)
    ultimately show ?thesis
      using True m k
      by (simp add: f searchDiskTreeNode.simps r1 r2 r3 r4' r5 Let_def ids del: chunks4.simps)
  qed
qed

section \<open>Byte order between hosts\<close>

lemma put_cross:
  assumes "(be \<noteq> sw) = (be' \<noteq> sw')"
  shows "put4 be sw = put4 be' sw'" and "put8 be sw = put8 be' sw'"
  using assms by (auto simp: put4_def put8_def Let_def SwapWord_rev host_bytes_def fun_eq_iff)

lemma tree_bytes_cross:
  assumes "(be \<noteq> sw) = (be' \<noteq> sw')"
  shows "tree_bytes be sw n = tree_bytes be' sw' n"
proof (induction n)
  case (TreeNode r "is" subs)
  have "concat (map (tree_bytes be sw) subs) = concat (map (tree_bytes be' sw') subs)"
    using TreeNode by (metis map_eq_conv)
  then show ?case using put_cross [OF assms] by (simp add: node_record_def put_rect_def)
qed

lemma write_swap_cross:
  "B_order = 1 \<or> B_order = 2 \<Longrightarrow> (be \<noteq> write_swap be B_order) = (be' \<noteq> ((B_order = 2) \<noteq> be'))"
  by (auto simp: write_swap_def)

lemma ids_in_range_all: "(\<forall>i\<in>set (all_ids n). - (2 ^ 31) \<le> i \<and> i < 2 ^ 31) \<Longrightarrow> ids_in_range n"
proof (induction n)
  case (TreeNode r "is" subs)
  then have "ids_in_range c" if "c \<in> set subs" for c using that by (auto intro!: TreeNode.IH)
  then show ?case using TreeNode.prems by simp
qed

text \<open>The file that \<open>msWriteTree\<close> produces in one of the current byte orders.\<close>

definition index_file :: "bool \<Rightarrow> bool \<Rightarrow> int \<Rightarrow> treeObj \<Rightarrow> byte list" where
  "index_file be sw B_order t =
     [83, 81, 84, word_of_int B_order, 1, 0, 0, 0] @ put4 be sw (word_of_int (numshapes t))
     @ put4 be sw (word_of_int (maxdepth t)) @ tree_bytes be sw (root t)"

lemma msWriteTree_file:
  assumes "0 < B_order" and "writable (base_name filename @ ''.qix'')"
    and "16 + tree_size (root (msTreeTrim t)) \<le> cap"
  shows "msWriteTree cap writable be fs t filename B_order =
    \<lparr>w_ok = True, w_tree = msTreeTrim t,
     w_fs = fs(base_name filename @ ''.qix'' \<mapsto> index_file be (write_swap be B_order) B_order (msTreeTrim t)),
     w_errors = []\<rparr>"
  using assms by (simp add: msWriteTree_def Let_def fwrite_fits writeTreeNode_bytes index_file_def)

lemma msSHPDiskTreeOpen_index:
  assumes "B_order = 1 \<or> B_order = 2"
    and "fs (base_name filename @ ''.qix'') = Some (index_file be ((B_order = 2) \<noteq> be) B_order t)"
  shows "msSHPDiskTreeOpen be fs filename = Some
    \<lparr>fp = \<lparr>content = index_file be ((B_order = 2) \<noteq> be) B_order t, pos = 16\<rparr>, signature = [83, 81, 84],
     LSB_order = (B_order = 1), needswap = ((B_order = 2) \<noteq> be), version = 1, flags = [0, 0, 0],
     nShapes = word_of_int (numshapes t), nDepth = word_of_int (maxdepth t)\<rparr>"
proof -
  have "(word_of_int B_order = (2::byte)) = (B_order = 2)" "(word_of_int B_order = (1::byte)) = (B_order = 1)"
    using assms(1) by auto
  moreover have "fread 8 \<lparr>content = index_file be sw B_order t, pos = 0\<rparr>
      = (Some [83, 81, 84, word_of_int B_order, 1, 0, 0, 0], \<lparr>content = index_file be sw B_order t, pos = 8\<rparr>)" for sw
    by (simp add: fread_def index_file_def)
  moreover have "fread 8 \<lparr>content = index_file be sw B_order t, pos = 8\<rparr>
      = (Some (put4 be sw (word_of_int (numshapes t)) @ put4 be sw (word_of_int (maxdepth t))),
         \<lparr>content = index_file be sw B_order t, pos = 16\<rparr>)" for sw
    by (simp add: fread_def index_file_def)
  ultimately show ?thesis
    using assms(2) by (simp add: msSHPDiskTreeOpen_def Let_def)
qed

lemma msSearchDiskTree_index:
  assumes "B_order = 1 \<or> B_order = 2"
    and "fs (base_name filename @ ''.qix'') = Some (index_file be ((B_order = 2) \<noteq> be) B_order t)"
    and "0 \<le> numshapes t" and "numshapes t < 2 ^ 31" and "tree_size (root t) < 2 ^ 31"
    and "ids_in_range (root t)" and "height (root t) \<le> fuel"
  shows "msSearchDiskTree fuel be fs filename aoi debug (numshapes t) = Some (Some (msSearchTree t aoi), [])"
proof -
  let ?sw = "(B_order = 2) \<noteq> be" and ?c = "index_file be ((B_order = 2) \<noteq> be) B_order t"
  let ?h = "\<lparr>fp = \<lparr>content = ?c, pos = 16\<rparr>, signature = [83, 81, 84],
     LSB_order = (B_order = 1), needswap = ?sw, version = 1, flags = [0, 0, 0],
     nShapes = word_of_int (numshapes t), nDepth = word_of_int (maxdepth t)\<rparr>"
  let ?s = "\<lparr>sfp = \<lparr>content = ?c, pos = 16\<rparr>, status = msAllocBitArray (nat (numshapes t)), errors = []\<rparr>"
  have n: "sint (word_of_int (numshapes t) :: i32) = numshapes t" using assms by (simp add: sint_small_int)
  have "at_nodes be ?h [root t] ?s"
    unfolding at_nodes_def
    by (intro exI [of _ "[83, 81, 84, word_of_int B_order, 1, 0, 0, 0] @ put4 be ?sw (word_of_int (numshapes t))
          @ put4 be ?sw (word_of_int (maxdepth t))"] exI [of _ "[]"]) (simp add: index_file_def)
  then have "searchDiskTreeNode fuel be ?h aoi ?s = Some (after_nodes ?h aoi [root t] ?s)"
    by (rule searchDiskTreeNode_written) (use assms in auto)
  then show ?thesis
    using n assms(3)
    by (simp add: msSearchDiskTree_def msSHPDiskTreeOpen_index [of B_order fs filename be t, OF assms(1,2)] Let_def after_nodes_def
        msSearchTree_def)
qed

lemma index_file_cross:
  assumes "B_order = 1 \<or> B_order = 2"
  shows "index_file be (write_swap be B_order) B_order t = index_file be' ((B_order = 2) \<noteq> be') B_order t"
  using put_cross(1) [OF write_swap_cross [OF assms], of be be']
    tree_bytes_cross [OF write_swap_cross [OF assms], of be "root t" be']
  unfolding index_file_def by simp

section \<open>Properties\<close>

lemma disk_index_search:
  assumes "B_order = 1 \<or> B_order = 2" and "writable (base_name filename @ ''.qix'')"
    and "0 \<le> numshapes t" and "numshapes t < 2 ^ 31"
    and "\<forall>i\<in>set (all_ids (root t)). 0 \<le> i \<and> i < 2 ^ 31"
    and "16 + tree_size (treeNodeTrim (root t)) \<le> cap" and "tree_size (treeNodeTrim (root t)) < 2 ^ 31"
    and "height (treeNodeTrim (root t)) \<le> fuel"
  shows "w_ok (msWriteTree cap writable be fs t filename B_order)
    \<and> msSearchDiskTree fuel be' (w_fs (msWriteTree cap writable be fs t filename B_order)) filename aoi debug
        (numshapes t) = Some (Some (msSearchTree (msTreeTrim t) aoi), [])"
proof -
  let ?t = "msTreeTrim t"
  have "ids_in_range (root ?t)"
    using assms(5) set_trim_ids [of "root t"] by (fastforce simp: msTreeTrim_def intro!: ids_in_range_all)
  moreover have w: "msWriteTree cap writable be fs t filename B_order =
    \<lparr>w_ok = True, w_tree = ?t,
     w_fs = fs(base_name filename @ ''.qix'' \<mapsto> index_file be' ((B_order = 2) \<noteq> be') B_order ?t),
     w_errors = []\<rparr>"
    using msWriteTree_file [of B_order writable filename t cap] index_file_cross [OF assms(1), of be ?t be'] assms
    by (auto simp: msTreeTrim_def)
  ultimately have "msSearchDiskTree fuel be' (w_fs (msWriteTree cap writable be fs t filename B_order)) filename
      aoi debug (numshapes ?t) = Some (Some (msSearchTree ?t aoi), [])"
    using assms by (intro msSearchDiskTree_index) (auto simp: msTreeTrim_def)
  then show ?thesis using w by (simp add: msTreeTrim_def)
qed

text \<open>C1. An index that \<open>msWriteTree\<close> writes on any host, in either byte order, is searched by
  \<open>msSearchDiskTree\<close> on any host with the result that a search of the trimmed tree in memory
  has, and no error is reported; the search ends as soon as the recursion may go as deep as
  the tree. This needs the file to fit the medium and the 31 bits of the stored offsets.\<close>

theorem disk_index_correct:
  assumes "B_order = 1 \<or> B_order = 2" and "writable (base_name filename @ ''.qix'')"
    and "0 \<le> numshapes t" and "numshapes t < 2 ^ 31"
    and "\<forall>i\<in>set (all_ids (root t)). 0 \<le> i \<and> i < 2 ^ 31"
    and "16 + tree_size (treeNodeTrim (root t)) \<le> cap" and "tree_size (treeNodeTrim (root t)) < 2 ^ 31"
    and "height (treeNodeTrim (root t)) \<le> fuel"
  shows "w_ok (msWriteTree cap writable be fs t filename B_order)
    \<and> msSearchDiskTree fuel be' (w_fs (msWriteTree cap writable be fs t filename B_order)) filename aoi debug
        (numshapes t) = Some (Some (msSearchTree (msTreeTrim t) aoi), [])"
  using assms by (rule disk_index_search)

theorem disk_index_correct_witness:
  "msSearchDiskTree 1 True (w_fs (msWriteTree 100 (\<lambda>_. True) False Map.empty
      \<lparr>numshapes = 2, maxdepth = 1, root = TreeNode \<lparr>minx = 0, miny = 0, maxx = 0, maxy = 0\<rparr> [1] []\<rparr> ''a.shp'' 1))
      ''a.shp'' \<lparr>minx = 0, miny = 0, maxx = 0, maxy = 0\<rparr> False 2
    = Some (Some (msSearchTree (msTreeTrim
      \<lparr>numshapes = 2, maxdepth = 1, root = TreeNode \<lparr>minx = 0, miny = 0, maxx = 0, maxy = 0\<rparr> [1] []\<rparr>)
      \<lparr>minx = 0, miny = 0, maxx = 0, maxy = 0\<rparr>), [])"
proof -
  show ?thesis
    using disk_index_correct [of 1 "\<lambda>_. True" "''a.shp''"
        "\<lparr>numshapes = 2, maxdepth = 1, root = TreeNode \<lparr>minx = 0, miny = 0, maxx = 0, maxy = 0\<rparr> [1] []\<rparr>"
        100 1 False Map.empty True "\<lparr>minx = 0, miny = 0, maxx = 0, maxy = 0\<rparr>" False]
    by (simp add: promote_def)
qed

text \<open>The root of a written index as \<open>readTreeNode\<close> returns it.\<close>

lemma readTreeNode_index:
  assumes "content (fp h) = pre @ tree_bytes be (needswap h) n @ post" and "pos (fp h) = length pre"
    and "tree_size n < 2 ^ 31" and "\<forall>i\<in>set (ids n). - (2 ^ 31) \<le> i \<and> i < 2 ^ 31"
  shows "readTreeNode be h = Some \<lparr>dn_rect = nrect n, dn_ids = ids n, dn_numsubnodes = int (length (subnode n))\<rparr>"
proof -
  let ?sw = "needswap h" and ?m = "length (ids n)"
  let ?idb = "concat (map (\<lambda>i. put4 be ?sw (word_of_int i)) (ids n))"
  let ?p1 = "put4 be ?sw (getSubNodeOffset n)" and ?p2 = "put_rect be ?sw (nrect n)"
  let ?p3 = "put4 be ?sw (word_of_nat ?m)" and ?p5 = "put4 be ?sw (word_of_nat (length (subnode n)))"
  let ?at = "\<lambda>k. (fp h)\<lparr>pos := length pre + k\<rparr>"
  obtain post' where c: "content (fp h) = pre @ ?p1 @ ?p2 @ ?p3 @ ?idb @ ?p5 @ post'"
    using assms(1) by (cases n) (simp add: node_record_def)
  have m: "sint (word_of_nat ?m :: i32) = int ?m" "?m \<le> 536870911"
    and k: "sint (word_of_nat (length (subnode n)) :: i32) = int (length (subnode n))"
    using assms(3) sum_sizes [of "subnode n"] unfolding tree_size_eq [of n] by (auto intro!: sint_small_nat)
  have r1: "fread 4 (fp h) = (Some ?p1, ?at 4)"
    using c assms(2) by (subst fread_here [where pre = pre]) auto
  have r2: "fread 32 (?at 4) = (Some ?p2, ?at 36)"
    using c by (subst fread_here [where pre = "pre @ ?p1"]) auto
  have r3: "fread 4 (?at 36) = (Some ?p3, ?at 40)"
    using c by (subst fread_here [where pre = "pre @ ?p1 @ ?p2"]) auto
  have "fread (?m * 4) (?at 40) = (Some ?idb, ?at (40 + ?m * 4))"
    using c by (subst fread_here [where pre = "pre @ ?p1 @ ?p2 @ ?p3" and buf = ?idb]) (auto simp: length_concat_4)
  then have r4: "read_ids (int ?m) (?at 40) = (Some ?idb, ?at (40 + ?m * 4))"
    by (simp add: read_ids_def)
  have r5: "fread 4 (?at (40 + ?m * 4)) = (Some ?p5, ?at (44 + ?m * 4))"
    using c by (subst fread_here [where pre = "pre @ ?p1 @ ?p2 @ ?p3 @ ?idb"]) (auto simp: length_concat_4)
  have "map (\<lambda>b. sint (get4 be ?sw b)) (chunks4 ?m ?idb) = ids n"
    using chunks4_put4 [of be ?sw "ids n" word_of_int "[]"] assms(4) by (simp add: map_idI sint_small_int)
  then show ?thesis
    using m k by (simp add: readTreeNode_def r1 r2 r3 r4 r5 Let_def del: chunks4.simps)
qed

text \<open>\<open>msReadTree\<close> of a written index gives back the number of shapes, the depth and the
  rectangle, the shape ids and the number of subnodes of the root (the subnodes themselves
  are not read).\<close>

theorem read_tree_roundtrip:
  assumes "B_order = 1 \<or> B_order = 2" and "writable (base_name filename @ ''.qix'')"
    and "0 \<le> numshapes t" and "numshapes t < 2 ^ 31" and "0 \<le> maxdepth t" and "maxdepth t < 2 ^ 31"
    and "\<forall>i\<in>set (all_ids (root t)). 0 \<le> i \<and> i < 2 ^ 31"
    and "16 + tree_size (treeNodeTrim (root t)) \<le> cap" and "tree_size (treeNodeTrim (root t)) < 2 ^ 31"
  shows "msReadTree be' (w_fs (msWriteTree cap writable be fs t filename B_order)) filename =
    (Some \<lparr>dt_numshapes = numshapes t, dt_maxdepth = maxdepth t,
           dt_root = Some \<lparr>dn_rect = nrect (treeNodeTrim (root t)), dn_ids = ids (treeNodeTrim (root t)),
                           dn_numsubnodes = int (length (subnode (treeNodeTrim (root t))))\<rparr>\<rparr>, [])"
proof -
  let ?t = "msTreeTrim t" and ?sw = "(B_order = 2) \<noteq> be'"
  have fs: "w_fs (msWriteTree cap writable be fs t filename B_order)
      = fs(base_name filename @ ''.qix'' \<mapsto> index_file be' ?sw B_order ?t)"
    using msWriteTree_file [of B_order writable filename t cap] index_file_cross [OF assms(1), of be ?t be'] assms
    by (auto simp: msTreeTrim_def)
  have "set (ids n) \<subseteq> set (all_ids n)" for n by (cases n) simp
  then have range: "\<forall>i\<in>set (ids (treeNodeTrim (root t))). - (2 ^ 31) \<le> i \<and> i < 2 ^ 31"
    using assms(7) set_trim_ids [of "root t"] by fastforce
  have "readTreeNode be' \<lparr>fp = \<lparr>content = index_file be' ?sw B_order ?t, pos = 16\<rparr>, signature = [83, 81, 84],
     LSB_order = (B_order = 1), needswap = ?sw, version = 1, flags = [0, 0, 0],
     nShapes = word_of_int (numshapes ?t), nDepth = word_of_int (maxdepth ?t)\<rparr>
     = Some \<lparr>dn_rect = nrect (root ?t), dn_ids = ids (root ?t), dn_numsubnodes = int (length (subnode (root ?t)))\<rparr>"
    by (rule readTreeNode_index [where pre = "[83, 81, 84, word_of_int B_order, 1, 0, 0, 0]
          @ put4 be' ?sw (word_of_int (numshapes ?t)) @ put4 be' ?sw (word_of_int (maxdepth ?t))" and post = "[]"])
      (use range assms(9) in \<open>simp_all add: index_file_def msTreeTrim_def\<close>)
  then show ?thesis
    using msSHPDiskTreeOpen_index [OF assms(1), of "w_fs (msWriteTree cap writable be fs t filename B_order)" filename be' ?t]
      fs assms(3-6) by (simp add: msReadTree_def msTreeTrim_def sint_small_int)
qed

theorem read_tree_roundtrip_witness:
  "msReadTree True (w_fs (msWriteTree 100 (\<lambda>_. True) False Map.empty
      \<lparr>numshapes = 2, maxdepth = 1, root = TreeNode \<lparr>minx = 0, miny = 0, maxx = 0, maxy = 0\<rparr> [1] []\<rparr> ''a.shp'' 1)) ''a.shp''
   = (Some \<lparr>dt_numshapes = 2, dt_maxdepth = 1,
       dt_root = Some \<lparr>dn_rect = \<lparr>minx = 0, miny = 0, maxx = 0, maxy = 0\<rparr>, dn_ids = [1], dn_numsubnodes = 0\<rparr>\<rparr>, [])"
proof -
  show ?thesis
    using read_tree_roundtrip [of 1 "\<lambda>_. True" "''a.shp''"
        "\<lparr>numshapes = 2, maxdepth = 1, root = TreeNode \<lparr>minx = 0, miny = 0, maxx = 0, maxy = 0\<rparr> [1] []\<rparr>"
        100 True False Map.empty]
    by (simp add: promote_def)
qed

text \<open>
  A file of 104 bytes: a root with two subnodes of which the first, outside the area of
  interest, stores a negative offset that leads back to the root.
\<close>

definition zero_rect :: rectObj where
  "zero_rect = \<lparr>minx = 0, miny = 0, maxx = 0, maxy = 0\<rparr>"

definition one_rect :: rectObj where
  "one_rect = \<lparr>minx = 0x3FF0000000000000, miny = 0, maxx = 0x3FF0000000000000, maxy = 0\<rparr>"

definition cyclic_index :: "byte list" where
  "cyclic_index =
     [83, 81, 84, 1, 1, 0, 0, 0] @ put4 False False 1 @ put4 False False 1
     @ put4 False False 0 @ put_rect False False zero_rect @ put4 False False 0 @ put4 False False 2
     @ put4 False False (-88) @ put_rect False False one_rect @ put4 False False 0 @ put4 False False 0"

lemma cyclic_rects: "msRectOverlap zero_rect zero_rect" "\<not> msRectOverlap one_rect zero_rect"
  by code_simp+

lemma cyclic_child:
  assumes "content (sfp s) = cyclic_index" and "pos (sfp s) = 60" and "\<not> needswap h"
  shows "searchDiskTreeNode (Suc f) False h zero_rect s = Some (s\<lparr>sfp := (sfp s)\<lparr>pos := 16\<rparr>\<rparr>)"
  using assms cyclic_rects(2)
  by (simp add: searchDiskTreeNode.simps fread_def cyclic_index_def Let_def fseek_cur_def)

lemma cyclic_root:
  assumes "content (sfp s) = cyclic_index" and "pos (sfp s) = 16" and "\<not> needswap h"
  shows "searchDiskTreeNode (Suc f) False h zero_rect s =
    repeatM 2 (searchDiskTreeNode f False h zero_rect) (s\<lparr>sfp := (sfp s)\<lparr>pos := 60\<rparr>\<rparr>)"
  using assms cyclic_rects(1)
  by (simp add: searchDiskTreeNode.simps fread_def cyclic_index_def Let_def read_ids_def set_ids_def)

lemma cyclic_loops:
  assumes "\<not> needswap h"
  shows "content (sfp s) = cyclic_index \<Longrightarrow> pos (sfp s) = 16 \<Longrightarrow>
    searchDiskTreeNode f False h zero_rect s = None"
proof (induction f arbitrary: s)
  case (Suc f)
  show ?case
  proof (cases f)
    case (Suc g)
    let ?s = "s\<lparr>sfp := (sfp s)\<lparr>pos := 60\<rparr>\<rparr>" and ?s' = "s\<lparr>sfp := (sfp s)\<lparr>pos := 16\<rparr>\<rparr>"
    have "searchDiskTreeNode f False h zero_rect ?s = Some ?s'"
      using cyclic_child [of ?s h g] assms Suc.prems \<open>f = Suc g\<close> by simp
    moreover have "searchDiskTreeNode f False h zero_rect ?s' = None"
      using Suc.IH [of ?s'] Suc.prems by simp
    ultimately show ?thesis
      using cyclic_root [OF Suc.prems assms, of f] by (simp add: numeral_2_eq_2)
  qed (use cyclic_root [OF Suc.prems assms, of f] in \<open>simp add: numeral_2_eq_2\<close>)
qed simp

text \<open>C40. The reader trusts the stored offsets: there is an index file of 104 bytes on which the
  recursion of \<open>searchDiskTreeNode\<close> exceeds every bound on its depth, so that the search
  never returns.\<close>

theorem disk_search_unbounded:
  "msSearchDiskTree fuel False [''a.qix'' \<mapsto> cyclic_index] ''a.shp'' zero_rect debug 1 = None
    \<and> length cyclic_index = 104"
proof -
  have open_ok: "msSHPDiskTreeOpen False [''a.qix'' \<mapsto> cyclic_index] ''a.shp'' = Some
    \<lparr>fp = \<lparr>content = cyclic_index, pos = 16\<rparr>, signature = [83, 81, 84], LSB_order = True,
     needswap = False, version = 1, flags = [0, 0, 0], nShapes = 1, nDepth = 1\<rparr>"
    by (simp add: msSHPDiskTreeOpen_def base_name_def fread_def cyclic_index_def Let_def numeral_eq_Suc)
  show ?thesis
    by (simp add: msSearchDiskTree_def open_ok Let_def cyclic_loops) (simp add: cyclic_index_def)
qed

end
