(* ===== verification/Vsi.thy ===== *)
theory Vsi
  imports ByteOrder
begin

text \<open>
  GDAL's virtual file system, through which the shapefile and the dBASE code reach their files. It is
  not part of the program: its calls are a record of operations, an argument of the definitions
  that use it. The locale \<open>posix_vsi\<close> states what the readers rely on, namely that the calls behave
  as the \<open>fseek\<close> and \<open>fread\<close> they are documented to be analogues of; \<open>writable_vsi\<close> adds \<open>fwrite\<close> on a
  device with room. The files of the C library are an instance of both.
\<close>

section \<open>The virtual file system\<close>

record 'f vsi =
  VSIFSeekL :: "'f \<Rightarrow> nat \<Rightarrow> bool \<times> 'f"                          \<comment> \<open>\<open>SEEK_SET\<close>; true for the result 0\<close>
  VSIFReadL :: "'f \<Rightarrow> nat \<Rightarrow> nat \<Rightarrow> nat \<times> byte list \<times> 'f"      \<comment> \<open>items read and their bytes\<close>
  VSIFSizeL :: "'f \<Rightarrow> nat"                                       \<comment> \<open>\<open>VSIFTellL\<close> after \<open>SEEK_END\<close>\<close>

text \<open>One item of \<open>n\<close> bytes.\<close>

definition vread1 :: "('f, 'z) vsi_scheme \<Rightarrow> 'f \<Rightarrow> nat \<Rightarrow> byte list option \<times> 'f" where
  "vread1 ops f n =
     (case VSIFReadL ops f n 1 of (k, bs, f') \<Rightarrow> (if k = 1 then Some bs else None, f'))"

locale posix_vsi =
  fixes ops :: "('f, 'z) vsi_scheme" and bytes :: "'f \<Rightarrow> byte list" and at :: "'f \<Rightarrow> nat"
  assumes seek: "\<exists>f'. VSIFSeekL ops f n = (True, f') \<and> bytes f' = bytes f \<and> at f' = n"
    and read_all: "at f + s * k \<le> length (bytes f) \<Longrightarrow>
      \<exists>f'. VSIFReadL ops f s k = (k, take (s * k) (drop (at f) (bytes f)), f') \<and> bytes f' = bytes f
        \<and> at f' = at f + s * k"
    and read_short: "0 < s \<Longrightarrow> 0 < k \<Longrightarrow> length (bytes f) < at f + s * k \<Longrightarrow>
      \<exists>j bs f'. VSIFReadL ops f s k = (j, bs, f') \<and> j < k \<and> bytes f' = bytes f"
    and size: "VSIFSizeL ops f = length (bytes f)"
begin

lemma seek_read_all:
  assumes "VSIFSeekL ops f n = (b, f1)" and "n + s * k \<le> length (bytes f)"
  shows "b \<and> (\<exists>f2. VSIFReadL ops f1 s k = (k, take (s * k) (drop n (bytes f)), f2) \<and> bytes f2 = bytes f)"
  using seek [of f n] read_all [of f1 s k] assms by auto

lemma seek_read_short:
  assumes "VSIFSeekL ops f n = (b, f1)" and "0 < s" and "0 < k" and "length (bytes f) < n + s * k"
  shows "b \<and> (\<exists>j bs f2. VSIFReadL ops f1 s k = (j, bs, f2) \<and> j < k \<and> bytes f2 = bytes f)"
  using seek [of f n] read_short [of s k f1] assms by auto

end

text \<open>The C library's own files have this behaviour.\<close>

definition stdio_vsi :: "'a cfile_scheme vsi" where
  "stdio_vsi =
     \<lparr>VSIFSeekL = (\<lambda>f n. (True, f\<lparr>pos := n\<rparr>)),
      VSIFReadL = (\<lambda>f s k.
        if s = 0 then (k, [], f)
        else (let avail = length (content f) - pos f; m = min k (avail div s) in
         (m, take (s * m) (drop (pos f) (content f)),
          f\<lparr>pos := (if m = k then pos f + s * k else max (pos f) (length (content f)))\<rparr>))),
      VSIFSizeL = (\<lambda>f. length (content f))\<rparr>"

interpretation stdio: posix_vsi stdio_vsi content pos
proof
  fix f :: "'a cfile_scheme" and s k n :: nat
  show "\<exists>f'. VSIFSeekL stdio_vsi f n = (True, f') \<and> content f' = content f \<and> pos f' = n"
    by (simp add: stdio_vsi_def)
  show "\<exists>f'. VSIFReadL stdio_vsi f s k = (k, take (s * k) (drop (pos f) (content f)), f')
      \<and> content f' = content f \<and> pos f' = pos f + s * k" if "pos f + s * k \<le> length (content f)"
  proof -
    have "s \<noteq> 0 \<Longrightarrow> k \<le> (length (content f) - pos f) div s"
      using that by (simp add: less_eq_div_iff_mult_less_eq mult.commute)
    then show ?thesis by (auto simp: stdio_vsi_def Let_def min_absorb1)
  qed
  show "\<exists>j bs f'. VSIFReadL stdio_vsi f s k = (j, bs, f') \<and> j < k \<and> content f' = content f"
    if "0 < s" "0 < k" "length (content f) < pos f + s * k"
  proof -
    define m where "m = s * k"
    have "0 < m" "length (content f) < pos f + m" using that by (simp_all add: m_def)
    then have "length (content f) - pos f < m" by linarith
    then have "length (content f) - pos f < k * s" by (simp add: m_def mult.commute)
    then have "(length (content f) - pos f) div s < k" using that(1) by (simp add: div_less_iff_less_mult)
    then show ?thesis using that(1) by (simp add: stdio_vsi_def Let_def)
  qed
  show "VSIFSizeL stdio_vsi f = length (content f)" by (simp add: stdio_vsi_def)
qed

section \<open>Files that can be written\<close>

record 'f vsi_rw = "'f vsi" +
  VSIFWriteL :: "'f \<Rightarrow> byte list \<Rightarrow> 'f"  \<comment> \<open>the callers ignore the result\<close>

text \<open>Writing at a position behind the end fills the gap with zeros.\<close>

definition overwrite :: "byte list \<Rightarrow> nat \<Rightarrow> byte list \<Rightarrow> byte list" where
  "overwrite c n bs = take n c @ replicate (n - length c) 0 @ bs @ drop (n + length bs) c"

locale writable_vsi = posix_vsi ops bytes at for ops :: "'f vsi_rw" and bytes :: "'f \<Rightarrow> byte list" and at :: "'f \<Rightarrow> nat" +
  assumes store: "bytes (VSIFWriteL ops f bs) = overwrite (bytes f) (at f) bs \<and> at (VSIFWriteL ops f bs) = at f + length bs"
begin

lemma seek_write:
  "bytes (VSIFWriteL ops (snd (VSIFSeekL ops f n)) bs) = overwrite (bytes f) n bs"
  "at (VSIFWriteL ops (snd (VSIFSeekL ops f n)) bs) = n + length bs"
  using seek [of f n] store [of "snd (VSIFSeekL ops f n)" bs] by auto

lemma seek_read1:
  assumes "n + k \<le> length (bytes f)"
  shows "\<exists>f'. VSIFReadL ops (snd (VSIFSeekL ops f n)) k 1 = (1, take k (drop n (bytes f)), f') \<and> bytes f' = bytes f"
  using seek_read_all [of f n "fst (VSIFSeekL ops f n)" "snd (VSIFSeekL ops f n)" k 1] assms by auto

end

definition stdio_rw :: "'a cfile_scheme vsi_rw" where
  "stdio_rw =
     \<lparr>VSIFSeekL = VSIFSeekL stdio_vsi, VSIFReadL = VSIFReadL stdio_vsi, VSIFSizeL = VSIFSizeL stdio_vsi,
      VSIFWriteL = (\<lambda>f bs. f\<lparr>content := overwrite (content f) (pos f) bs, pos := pos f + length bs\<rparr>)\<rparr>"

interpretation stdio_rw: writable_vsi stdio_rw content pos
proof
  fix f :: "'a cfile_scheme" and s k n :: nat
  show "\<exists>f'. VSIFSeekL stdio_rw f n = (True, f') \<and> content f' = content f \<and> pos f' = n"
    using stdio.seek by (simp add: stdio_rw_def)
  show "\<exists>f'. VSIFReadL stdio_rw f s k = (k, take (s * k) (drop (pos f) (content f)), f')
      \<and> content f' = content f \<and> pos f' = pos f + s * k" if "pos f + s * k \<le> length (content f)"
    using stdio.read_all [OF that] by (simp add: stdio_rw_def)
  show "\<exists>j bs f'. VSIFReadL stdio_rw f s k = (j, bs, f') \<and> j < k \<and> content f' = content f"
    if "0 < s" "0 < k" "length (content f) < pos f + s * k"
    using stdio.read_short [OF that] by (simp add: stdio_rw_def)
  show "VSIFSizeL stdio_rw f = length (content f)" using stdio.size by (simp add: stdio_rw_def)
  show "content (VSIFWriteL stdio_rw f bs) = overwrite (content f) (pos f) bs \<and> pos (VSIFWriteL stdio_rw f bs) = pos f + length bs" for bs
    by (simp add: stdio_rw_def)
qed

section \<open>Overwriting\<close>

lemma length_overwrite: "length (overwrite c n bs) = max (length c) (n + length bs)"
  by (simp add: overwrite_def)

lemma overwrite_same: "take (length bs) (drop n (overwrite c n bs)) = bs"
  by (simp add: overwrite_def)

lemma overwrite_before: "p + k \<le> n \<Longrightarrow> p + k \<le> length c \<Longrightarrow> take k (drop p (overwrite c n bs)) = take k (drop p c)"
  by (simp add: overwrite_def min_def drop_take)

lemma overwrite_after:
  assumes "n + length bs \<le> p" and "p + k \<le> length c"
  shows "take k (drop p (overwrite c n bs)) = take k (drop p c)"
  using assms by (simp add: overwrite_def)

lemma overwrite_nth:
  "i < max (length c) (n + length bs) \<Longrightarrow> n \<le> length c \<Longrightarrow>
   overwrite c n bs ! i = (if n \<le> i \<and> i < n + length bs then bs ! (i - n) else c ! i)"
  by (auto simp: overwrite_def nth_append)

end
