(* ===== verification/MapShape.thy ===== *)
theory MapShape
  imports MapTreeDisk Vsi
begin

text \<open>
  \<^verbatim>\<open>mapshape.c\<close>, the reading side: opening a \<^verbatim>\<open>.shp\<close>/\<^verbatim>\<open>.shx\<close> pair, the page cache over the
  record index (\<^verbatim>\<open>.shx\<close>), the bounds and the points of single records, and
  \<open>msShapefileWhichShapes\<close>, which decides what a search of a layer visits.

  Files are reached through GDAL's virtual file system, the record of operations of \<open>Vsi\<close>, which
  is an argument of every definition. Arrays come from \<open>malloc\<close> with arbitrary contents, the
  argument \<open>junk\<close>.
\<close>

section \<open>The handle\<close>

record 'f SHPInfo =
  fpSHP :: 'f
  fpSHX :: 'f
  nShapeType :: int
  nFileSize :: int
  nRecords :: int
  nMaxRecords :: int
  panRecOffset :: "int list"
  panRecSize :: "int list"
  panRecLoaded :: ms_bitarray
  panRecAllLoaded :: bool
  adBoundsMin :: "f64 list"
  adBoundsMax :: "f64 list"
  nBufSize :: int
  nPartMax :: int
  bUpdated :: bool

abbreviation (input) SHX_BUFFER_PAGE :: nat where "SHX_BUFFER_PAGE \<equiv> 1024"
abbreviation (input) SHP_POINT :: int where "SHP_POINT \<equiv> 1"
abbreviation (input) SHP_POINTZ :: int where "SHP_POINTZ \<equiv> 11"
abbreviation (input) SHP_POINTM :: int where "SHP_POINTM \<equiv> 21"

text \<open>Big-endian integers and little-endian doubles of the file format, out of a buffer.\<close>

definition shp_int :: "bool \<Rightarrow> byte list \<Rightarrow> nat \<Rightarrow> int" where
  "shp_int bBigEndian buf k = sint (get4 bBigEndian (\<not> bBigEndian) (take 4 (drop k buf)))"

definition shp_double :: "bool \<Rightarrow> byte list \<Rightarrow> nat \<Rightarrow> f64" where
  "shp_double bBigEndian buf k = get8 bBigEndian bBigEndian (take 8 (drop k buf))"

text \<open>The handle over a record index with the header \<open>h2\<close> and \<open>n\<close> records.\<close>

definition init_handle :: "(nat \<Rightarrow> int) \<Rightarrow> bool \<Rightarrow> 'f \<Rightarrow> 'f \<Rightarrow> byte list \<Rightarrow> int \<Rightarrow> int \<Rightarrow> 'f SHPInfo" where
  "init_handle junk bBigEndian shp shx h2 fsize n =
     \<lparr>fpSHP = shp, fpSHX = shx, nShapeType = uint (h2 ! 32), nFileSize = fsize,
      nRecords = n, nMaxRecords = n, panRecOffset = map junk [0..<nat n],
      panRecSize = map junk [0..<nat n],
      panRecLoaded = msAllocBitArray (1 + nat n div SHX_BUFFER_PAGE),
      panRecAllLoaded = False,
      adBoundsMin = map (shp_double bBigEndian h2) [36, 44, 68, 84],
      adBoundsMax = map (shp_double bBigEndian h2) [52, 60, 76, 92],
      nBufSize = 0, nPartMax = 0, bUpdated = False\<rparr>"

definition msSHPOpenVirtualFile ::
    "('f, 'z) vsi_scheme \<Rightarrow> (nat \<Rightarrow> int) \<Rightarrow> bool \<Rightarrow> 'f \<Rightarrow> 'f \<Rightarrow> 'f SHPInfo option \<times> report list" where
  "msSHPOpenVirtualFile ops junk bBigEndian f1 f2 =
     (case vread1 ops f1 100 of
        (None, _) \<Rightarrow> (None, [])
      | (Some h1, shp) \<Rightarrow>
         (let half = shp_int bBigEndian h1 24;
              fsize = (if half < 0 \<or> 1073741823 < half then
                         (if 2147483647 < VSIFSizeL ops shp then 0 else int (VSIFSizeL ops shp))
                       else half * 2)
          in
          case vread1 ops f2 100 of
            (None, _) \<Rightarrow> (None, [Report MS_SHPERR ''Corrupted .shx file'' ''msSHPOpen()''])
          | (Some h2, shx) \<Rightarrow>
             (if h2 ! 0 \<noteq> 0 \<or> h2 ! 1 \<noteq> 0 \<or> h2 ! 2 \<noteq> 0x27 \<or> (h2 ! 3 \<noteq> 0x0a \<and> h2 ! 3 \<noteq> 0x0d) then
                (None, [Report MS_SHPERR ''Corrupted .shx file'' ''msSHPOpen()''])
              else
                (let halfx = shp_int bBigEndian h2 24;
                     n = (if 50 \<le> halfx then (halfx - 50) div 4 else -1)
                 in
                 if n < 0 \<or> 256000000 < n then
                   (None, [Report MS_SHPERR ''Corrupted .shx file : nRecords = %d.'' ''msSHPOpen()''])
                 else
                   (Some (init_handle junk bBigEndian shp shx h2 fsize n), [])))))"

definition msSHPGetInfo :: "'f SHPInfo \<Rightarrow> int \<times> int" where
  "msSHPGetInfo psSHP = (nRecords psSHP, nShapeType psSHP)"

section \<open>The record index\<close>

text \<open>Offsets and sizes are stored in units of two bytes; what cannot be doubled is 0.\<close>

definition shx_double :: "int \<Rightarrow> int" where
  "shx_double x = (if 0 < x \<and> x < 1073741823 then x * 2 else 0)"

text \<open>Overwrite \<open>length vs\<close> entries of an array from index \<open>k\<close> on.\<close>

definition put_range :: "nat \<Rightarrow> 'a list \<Rightarrow> 'a list \<Rightarrow> 'a list" where
  "put_range k vs xs = take k xs @ vs @ drop (k + length vs) xs"

text \<open>
  A page of the index is read and marked as loaded; on a failure its entries are 0. The
  result of the C function is not used by its callers and is not modelled.
\<close>

definition page_count :: "'f SHPInfo \<Rightarrow> nat \<Rightarrow> nat" where
  "page_count psSHP page =
     (if int page < nRecords psSHP div int SHX_BUFFER_PAGE then SHX_BUFFER_PAGE
      else nat (nRecords psSHP - int (page * SHX_BUFFER_PAGE)))"

definition store_page :: "'f SHPInfo \<Rightarrow> nat \<Rightarrow> 'f \<Rightarrow> int list \<Rightarrow> int list \<Rightarrow> 'f SHPInfo" where
  "store_page psSHP page shx offs sizes =
     psSHP\<lparr>fpSHX := shx,
           panRecOffset := put_range (page * SHX_BUFFER_PAGE) offs (panRecOffset psSHP),
           panRecSize := put_range (page * SHX_BUFFER_PAGE) sizes (panRecSize psSHP),
           panRecLoaded := msSetBit (panRecLoaded psSHP) page True\<rparr>"

definition msSHXLoadPage :: "('f, 'z) vsi_scheme \<Rightarrow> bool \<Rightarrow> 'f SHPInfo \<Rightarrow> nat \<Rightarrow> 'f SHPInfo \<times> report list" where
  "msSHXLoadPage ops bBigEndian psSHP page =
     (let n = page_count psSHP page in
      case VSIFSeekL ops (fpSHX psSHP) (100 + page * SHX_BUFFER_PAGE * 8) of
        (False, f) \<Rightarrow>
          (store_page psSHP page f (replicate n 0) (replicate n 0),
           [Report MS_IOERR ''failed to seek offset'' ''msSHXLoadPage()''])
      | (True, f) \<Rightarrow>
         (case VSIFReadL ops f 8 n of
            (got, buffer, f') \<Rightarrow>
              (if got \<noteq> n then
                 (store_page psSHP page f' (replicate n 0) (replicate n 0),
                  [Report MS_IOERR ''failed to fread SHX record'' ''msSHXLoadPage()''])
               else
                 (store_page psSHP page f'
                    (map (\<lambda>i. shx_double (shp_int bBigEndian buffer (8 * i))) [0..<n])
                    (map (\<lambda>i. shx_double (shp_int bBigEndian buffer (8 * i + 4))) [0..<n]), []))))"

text \<open>The whole index, from the current position of the file; \<open>malloc\<close> of its buffer succeeds.\<close>

definition msSHXLoadAll :: "('f, 'z) vsi_scheme \<Rightarrow> bool \<Rightarrow> 'f SHPInfo \<Rightarrow> ms_return \<times> 'f SHPInfo \<times> report list" where
  "msSHXLoadAll ops bBigEndian psSHP =
     (let n = nat (nRecords psSHP) in
      case VSIFReadL ops (fpSHX psSHP) 8 n of
        (got, buf, f) \<Rightarrow>
          (if got \<noteq> n then
             (MS_FAILURE, psSHP\<lparr>fpSHX := f\<rparr>, [Report MS_IOERR ''failed to read shx records'' ''msSHXLoadAll()''])
           else
             (MS_SUCCESS,
              psSHP\<lparr>fpSHX := f,
                    panRecOffset := put_range 0 (map (\<lambda>i. shx_double (shp_int bBigEndian buf (i * 8))) [0..<n])
                                      (panRecOffset psSHP),
                    panRecSize := put_range 0 (map (\<lambda>i. shx_double (shp_int bBigEndian buf (i * 8 + 4))) [0..<n])
                                    (panRecSize psSHP),
                    panRecAllLoaded := True\<rparr>, [])))"

definition ensure_page :: "('f, 'z) vsi_scheme \<Rightarrow> bool \<Rightarrow> 'f SHPInfo \<Rightarrow> nat \<Rightarrow> 'f SHPInfo \<times> report list" where
  "ensure_page ops bBigEndian psSHP page =
     (if panRecAllLoaded psSHP \<or> msGetBit (panRecLoaded psSHP) page then (psSHP, [])
      else msSHXLoadPage ops bBigEndian psSHP page)"

definition msSHXReadOffset :: "('f, 'z) vsi_scheme \<Rightarrow> bool \<Rightarrow> 'f SHPInfo \<Rightarrow> int \<Rightarrow> int \<times> 'f SHPInfo \<times> report list" where
  "msSHXReadOffset ops bBigEndian psSHP hEntity =
     (if hEntity < 0 \<or> nRecords psSHP \<le> hEntity then (0, psSHP, [])
      else (case ensure_page ops bBigEndian psSHP (nat hEntity div SHX_BUFFER_PAGE) of
              (h, errs) \<Rightarrow> (panRecOffset h ! nat hEntity, h, errs)))"

definition msSHXReadSize :: "('f, 'z) vsi_scheme \<Rightarrow> bool \<Rightarrow> 'f SHPInfo \<Rightarrow> int \<Rightarrow> int \<times> 'f SHPInfo \<times> report list" where
  "msSHXReadSize ops bBigEndian psSHP hEntity =
     (if hEntity < 0 \<or> nRecords psSHP \<le> hEntity then (0, psSHP, [])
      else (case ensure_page ops bBigEndian psSHP (nat hEntity div SHX_BUFFER_PAGE) of
              (h, errs) \<Rightarrow> (panRecSize h ! nat hEntity, h, errs)))"

section \<open>Bounds and points\<close>

definition rect0 :: rectObj where
  "rect0 = \<lparr>minx = 0, miny = 0, maxx = 0, maxy = 0\<rparr>"

text \<open>The rectangle is an in-out argument: some failures leave it as it was.\<close>

definition msSHPReadBounds ::
    "('f, 'z) vsi_scheme \<Rightarrow> bool \<Rightarrow> 'f SHPInfo \<Rightarrow> int \<Rightarrow> rectObj \<Rightarrow> ms_return \<times> rectObj \<times> 'f SHPInfo \<times> report list" where
  "msSHPReadBounds ops bBigEndian psSHP hEntity padBounds =
     (if nRecords psSHP \<le> 0 \<or> hEntity < -1 \<or> nRecords psSHP \<le> hEntity then (MS_FAILURE, rect0, psSHP, [])
      else if hEntity = -1 then
        (MS_SUCCESS, \<lparr>minx = adBoundsMin psSHP ! 0, miny = adBoundsMin psSHP ! 1,
                      maxx = adBoundsMax psSHP ! 0, maxy = adBoundsMax psSHP ! 1\<rparr>, psSHP, [])
      else
        (case msSHXReadSize ops bBigEndian psSHP hEntity of
           (siz, h1, e1) \<Rightarrow>
             (if siz \<le> 4 then (MS_FAILURE, rect0, h1, e1)
              else
                (case msSHXReadOffset ops bBigEndian h1 hEntity of
                   (offset, h2, e2) \<Rightarrow>
                     (let seek_failed = (MS_FAILURE, padBounds, h2,
                            e1 @ e2 @ [Report MS_IOERR ''failed to seek offset'' ''msSHPReadBounds()'']) in
                      if offset \<le> 0 \<or> 2147483635 \<le> offset then seek_failed
                      else
                        (case VSIFSeekL ops (fpSHP h2) (nat offset + 12) of
                           (False, f) \<Rightarrow> (MS_FAILURE, padBounds, h2\<lparr>fpSHP := f\<rparr>,
                              e1 @ e2 @ [Report MS_IOERR ''failed to seek offset'' ''msSHPReadBounds()''])
                         | (True, f) \<Rightarrow>
                             (if nShapeType h2 \<noteq> SHP_POINT \<and> nShapeType h2 \<noteq> SHP_POINTZ \<and> nShapeType h2 \<noteq> SHP_POINTM then
                                (case vread1 ops f 32 of
                                   (None, f') \<Rightarrow> (MS_FAILURE, padBounds, h2\<lparr>fpSHP := f'\<rparr>,
                                      e1 @ e2 @ [Report MS_IOERR ''failed to fread record'' ''msSHPReadBounds()''])
                                 | (Some buf, f') \<Rightarrow>
                                     (let r = get_rect bBigEndian bBigEndian buf in
                                      if f64_nan (minx r) then (MS_FAILURE, rect0, h2\<lparr>fpSHP := f'\<rparr>, e1 @ e2)
                                      else (MS_SUCCESS, r, h2\<lparr>fpSHP := f'\<rparr>, e1 @ e2)))
                              else
                                (case vread1 ops f 16 of
                                   (None, f') \<Rightarrow> (MS_FAILURE, padBounds, h2\<lparr>fpSHP := f'\<rparr>,
                                      e1 @ e2 @ [Report MS_IOERR ''failed to fread record'' ''msSHPReadBounds()''])
                                 | (Some buf, f') \<Rightarrow>
                                     (let x = shp_double bBigEndian buf 0; y = shp_double bBigEndian buf 8 in
                                      (MS_SUCCESS, \<lparr>minx = x, miny = y, maxx = x, maxy = y\<rparr>,
                                       h2\<lparr>fpSHP := f'\<rparr>, e1 @ e2))))))))))"

text \<open>The size of the record buffer after it was made large enough, or a failure.\<close>

definition msSHPReadAllocateBuffer ::
    "('f, 'z) vsi_scheme \<Rightarrow> bool \<Rightarrow> 'f SHPInfo \<Rightarrow> int \<Rightarrow> string \<Rightarrow> bool \<times> 'f SHPInfo \<times> report list" where
  "msSHPReadAllocateBuffer ops bBigEndian psSHP hEntity caller =
     (case msSHXReadSize ops bBigEndian psSHP hEntity of
        (siz, h, errs) \<Rightarrow>
          (if siz \<le> 0 \<or> 2147483639 < siz then
             (False, h, errs @ [Report MS_MEMERR
                ''Out of memory. Cannot allocate %d bytes. Probably broken shapefile at feature %d'' caller])
           else (True, (if nBufSize h < siz + 8 then h\<lparr>nBufSize := siz + 8\<rparr> else h), errs)))"

definition msSHPReadPoint ::
    "('f, 'z) vsi_scheme \<Rightarrow> bool \<Rightarrow> 'f SHPInfo \<Rightarrow> int \<Rightarrow> pointObj option \<times> 'f SHPInfo \<times> report list" where
  "msSHPReadPoint ops bBigEndian psSHP hEntity =
     (if nShapeType psSHP \<noteq> SHP_POINT then
        (None, psSHP, [Report MS_SHPERR ''msSHPReadPoint only operates on point shapefiles.'' ''msSHPReadPoint()''])
      else if hEntity < 0 \<or> nRecords psSHP \<le> hEntity then
        (None, psSHP, [Report MS_SHPERR ''Record index out of bounds.'' ''msSHPReadPoint()''])
      else
        (case msSHXReadSize ops bBigEndian psSHP hEntity of
           (siz, h1, e1) \<Rightarrow>
             (let nEntitySize = siz + 8 in
              if nEntitySize = 12 then
                (None, h1, e1 @ [Report MS_SHPERR ''NULL feature encountered.'' ''msSHPReadPoint()''])
              else if nEntitySize < 28 then
                (None, h1, e1 @ [Report MS_SHPERR ''Corrupted feature encountered.  hEntity=%d, nEntitySize=%d''
                    ''msSHPReadPoint()''])
              else
                (case msSHPReadAllocateBuffer ops bBigEndian h1 hEntity ''msSHPReadPoint()'' of
                   (False, h2, e2) \<Rightarrow> (None, h2, e1 @ e2)
                 | (True, h2, e2) \<Rightarrow>
                    (case msSHXReadOffset ops bBigEndian h2 hEntity of
                       (offset, h3, e3) \<Rightarrow>
                         (let es = e1 @ e2 @ e3;
                              seek_err = [Report MS_IOERR ''failed to seek offset'' ''msSHPReadPoint()''] in
                          if offset \<le> 0 then (None, h3, es @ seek_err)
                          else
                            (case VSIFSeekL ops (fpSHP h3) (nat offset) of
                               (False, f) \<Rightarrow> (None, h3\<lparr>fpSHP := f\<rparr>, es @ seek_err)
                             | (True, f) \<Rightarrow>
                                 (case vread1 ops f (nat nEntitySize) of
                                    (None, f') \<Rightarrow> (None, h3\<lparr>fpSHP := f'\<rparr>,
                                       es @ [Report MS_IOERR ''failed to fread record'' ''msSHPReadPoint()''])
                                  | (Some rec, f') \<Rightarrow>
                                      (Some \<lparr>px = shp_double bBigEndian rec 12, py = shp_double bBigEndian rec 20\<rparr>,
                                       h3\<lparr>fpSHP := f'\<rparr>, es)))))))))"

section \<open>Which shapes a search visits\<close>

record openShapefile = shapefileObj +
  source :: string
  shp_status :: "ms_bitarray option"
  lastshape :: int
  read_size :: "int \<Rightarrow> int"   \<comment> \<open>\<open>msSHXReadSize(hSHP, i)\<close>\<close>

text \<open>
  The view of an open handle that the search uses. The handle is the same for all records:
  what is read does not depend on the pages that other reads have cached (\<open>shx_cache_transparent\<close>).
\<close>

definition open_view :: "('f, 'z) vsi_scheme \<Rightarrow> bool \<Rightarrow> 'f SHPInfo \<Rightarrow> string \<Rightarrow> openShapefile" where
  "open_view ops bBigEndian h src =
     \<lparr>shp_numshapes = fst (msSHPGetInfo h),
      shp_bounds = fst (snd (msSHPReadBounds ops bBigEndian h (-1) rect0)),
      read_bounds = (\<lambda>i. case msSHPReadBounds ops bBigEndian h i rect0 of
                       (st, r, _) \<Rightarrow> if st = MS_SUCCESS then Some r else None),
      source = src, shp_status = None, lastshape = -1,
      read_size = (\<lambda>i. fst (msSHXReadSize ops bBigEndian h i))\<rparr>"

text \<open>
  \<open>msShapefileOpenHandle\<close>: the result code and the shapefile. The attribute table that is opened
  with it plays no part in the search.
\<close>

definition msShapefileOpenHandle ::
    "('f, 'z) vsi_scheme \<Rightarrow> bool \<Rightarrow> string \<Rightarrow> 'f SHPInfo \<Rightarrow> int \<times> openShapefile option \<times> report list" where
  "msShapefileOpenHandle ops bBigEndian filename h =
     (let shp = open_view ops bBigEndian h (take 1023 filename) in
      if shp_numshapes shp < 0 \<or> 256000000 < shp_numshapes shp
      then (-1, None, [Report MS_SHPERR ''Corrupted .shp file : numshapes = %d.'' ''msShapefileOpen()''])
      else (0, Some shp, []))"

text \<open>A handle that \<open>msSHPOpenVirtualFile\<close> returns is never refused.\<close>

lemma opened_count:
  assumes "msSHPOpenVirtualFile ops junk bBigEndian f1 f2 = (Some h, es)"
  shows "0 \<le> nRecords h \<and> nRecords h \<le> 256000000"
proof -
  obtain h1 shp where 1: "vread1 ops f1 100 = (Some h1, shp)"
    using assms by (cases "vread1 ops f1 100"; cases "fst (vread1 ops f1 100)") (simp_all add: msSHPOpenVirtualFile_def)
  obtain h2 shx where 2: "vread1 ops f2 100 = (Some h2, shx)"
    using assms 1 by (cases "vread1 ops f2 100"; cases "fst (vread1 ops f2 100)") (simp_all add: msSHPOpenVirtualFile_def Let_def)
  define n where "n = (if 50 \<le> shp_int bBigEndian h2 24 then (shp_int bBigEndian h2 24 - 50) div 4 else -1)"
  have "nRecords h = n \<and> \<not> (n < 0 \<or> 256000000 < n)"
    using assms unfolding msSHPOpenVirtualFile_def 1 2 prod.case option.case Let_def n_def [symmetric]
    by (simp only: prod.inject option.inject option.distinct init_handle_def split: if_splits) auto
  then show ?thesis by simp
qed

lemma open_handle_accepts:
  "msSHPOpenVirtualFile ops junk bBigEndian f1 f2 = (Some h, es) \<Longrightarrow>
   \<exists>shp. msShapefileOpenHandle ops bBigEndian filename h = (0, Some shp, [])"
  using opened_count [of ops junk bBigEndian f1 f2 h es]
  by (simp add: msShapefileOpenHandle_def open_view_def msSHPGetInfo_def)

definition cut_at :: "string \<Rightarrow> string \<Rightarrow> string option" where
  "cut_at s pat = map_option (\<lambda>k. take k s) (strstr_at s pat)"

definition index_name :: "string \<Rightarrow> string" where
  "index_name src =
     (case cut_at src ''.shp'' of
        Some s \<Rightarrow> s
      | None \<Rightarrow> (case cut_at src ''.SHP'' of Some s \<Rightarrow> s | None \<Rightarrow> src)) @ ''.qix''"

text \<open>The scan without an index. A record that cannot be read ends it, unless it is a NULL shape.\<close>

fun scan_shapes :: "openShapefile \<Rightarrow> rectObj \<Rightarrow> int list \<Rightarrow> ms_bitarray \<Rightarrow> ms_return \<times> ms_bitarray" where
  "scan_shapes shp rect [] st = (MS_SUCCESS, st)"
| "scan_shapes shp rect (i # is) st =
     (case read_bounds shp i of
        None \<Rightarrow> if read_size shp i = 4 then scan_shapes shp rect is st else (MS_FAILURE, st)
      | Some r \<Rightarrow> scan_shapes shp rect is (if msRectOverlap r rect then msSetBit st (nat i) True else st))"

definition msShapefileWhichShapes ::
    "nat \<Rightarrow> bool \<Rightarrow> fsys \<Rightarrow> openShapefile \<Rightarrow> rectObj \<Rightarrow> bool
     \<Rightarrow> (ms_return \<times> openShapefile \<times> report list) option" where
  "msShapefileWhichShapes fuel bBigEndian fs shp rect debug =
     (let n = shp_numshapes shp; shp0 = shp\<lparr>shp_status := None\<rparr> in
      if \<not> msRectOverlap (shp_bounds shp) rect then Some (MS_DONE, shp0, [])
      else if msRectContained (shp_bounds shp) rect then
        Some (MS_SUCCESS, shp0\<lparr>shp_status := Some (msSetAllBits (msAllocBitArray (nat n)) (nat n) True),
                               lastshape := -1\<rparr>, [])
      else
        (case msSearchDiskTree fuel bBigEndian fs (index_name (source shp)) rect debug n of
           None \<Rightarrow> None
         | Some (Some st, errs) \<Rightarrow>
             (case msFilterTreeSearch (shapefileObj.truncate shp) st rect of
                None \<Rightarrow> None
              | Some st' \<Rightarrow> Some (MS_SUCCESS, shp0\<lparr>shp_status := Some st', lastshape := -1\<rparr>, errs))
         | Some (None, errs) \<Rightarrow>
             (case scan_shapes shp rect (map int [0..<nat n]) (msAllocBitArray (nat n)) of
                (MS_SUCCESS, st) \<Rightarrow> Some (MS_SUCCESS, shp0\<lparr>shp_status := Some st, lastshape := -1\<rparr>, errs)
              | (_, st) \<Rightarrow> Some (MS_FAILURE, shp0\<lparr>shp_status := Some st\<rparr>, errs))))"

section \<open>The index cache is transparent\<close>

text \<open>What the index file says of record \<open>i\<close>: a page that is not there in full counts as zero.\<close>

definition shx_count :: "int \<Rightarrow> nat \<Rightarrow> nat" where
  "shx_count n page =
     (if int page < n div int SHX_BUFFER_PAGE then SHX_BUFFER_PAGE else nat (n - int (page * SHX_BUFFER_PAGE)))"

definition shx_entry :: "bool \<Rightarrow> byte list \<Rightarrow> int \<Rightarrow> nat \<Rightarrow> int \<times> int" where
  "shx_entry be shx n i =
     (let page = i div SHX_BUFFER_PAGE in
      if 100 + page * SHX_BUFFER_PAGE * 8 + 8 * shx_count n page \<le> length shx
      then (shx_double (shp_int be shx (100 + 8 * i)), shx_double (shp_int be shx (104 + 8 * i)))
      else (0, 0))"

definition shx_known :: "'f SHPInfo \<Rightarrow> nat \<Rightarrow> bool" where
  "shx_known h page \<longleftrightarrow> panRecAllLoaded h \<or> msGetBit (panRecLoaded h) page"

definition shx_inv :: "bool \<Rightarrow> ('f \<Rightarrow> byte list) \<Rightarrow> 'f SHPInfo \<Rightarrow> bool" where
  "shx_inv be bytes h \<longleftrightarrow>
     nat (nRecords h) \<le> length (panRecOffset h) \<and> nat (nRecords h) \<le> length (panRecSize h)
     \<and> bits_cover (panRecLoaded h) (1 + nat (nRecords h) div SHX_BUFFER_PAGE)
     \<and> (\<forall>i<nat (nRecords h). shx_known h (i div SHX_BUFFER_PAGE) \<longrightarrow>
          (panRecOffset h ! i, panRecSize h ! i) = shx_entry be (bytes (fpSHX h)) (nRecords h) i)"

lemma length_put_range [simp]: "k + length vs \<le> length xs \<Longrightarrow> length (put_range k vs xs) = length xs"
  by (simp add: put_range_def)

lemma nth_put_range:
  "k + length vs \<le> length xs \<Longrightarrow> i < length xs \<Longrightarrow>
     put_range k vs xs ! i = (if k \<le> i \<and> i < k + length vs then vs ! (i - k) else xs ! i)"
  by (auto simp: put_range_def nth_append min_def)

lemma page_count_eq: "page_count h page = shx_count (nRecords h) page"
  by (simp add: page_count_def shx_count_def)

lemma shx_count_range:
  assumes "page * 1024 < nat n"
  shows "0 < shx_count n page" and "page * 1024 + shx_count n page \<le> nat n"
    and "i < nat n \<Longrightarrow> i div 1024 = page \<longleftrightarrow> page * 1024 \<le> i \<and> i < page * 1024 + shx_count n page"
proof -
  have n: "0 < n" using assms by linarith
  define m where "m = nat n"
  have nm: "n = int m" using n by (simp add: m_def)
  have c: "shx_count n page = (if page < m div 1024 then 1024 else m - page * 1024)"
  proof -
    have "(int page < int m div int 1024) = (page < m div 1024)" by (metis of_nat_less_iff zdiv_int)
    moreover have "nat (int m - int (page * 1024)) = m - page * 1024" by (metis nat_minus_as_int)
    ultimately show ?thesis unfolding shx_count_def nm by simp
  qed
  have pm: "page * 1024 < m" using assms by (simp add: m_def)
  have full: "page < m div 1024 \<Longrightarrow> page * 1024 + 1024 \<le> m" by linarith
  have last: "\<not> page < m div 1024 \<Longrightarrow> page = m div 1024" using pm by linarith
  show "0 < shx_count n page" "page * 1024 + shx_count n page \<le> nat n"
    using c pm full by (auto simp: m_def [symmetric])
  show "i div 1024 = page \<longleftrightarrow> page * 1024 \<le> i \<and> i < page * 1024 + shx_count n page" if "i < nat n"
    using that c full last unfolding m_def [symmetric] by (auto simp: not_less)
qed

lemma shp_int_window:
  "k + 4 \<le> m \<Longrightarrow> shp_int be (take m (drop p c)) k = shp_int be c (p + k)"
  by (simp add: shp_int_def drop_take min_def add.commute)

text \<open>Storing a page whose entries are right keeps the invariant and makes the page known.\<close>

lemma store_page_inv:
  assumes inv: "shx_inv be bytes h" and page: "page * 1024 < nat (nRecords h)"
    and same: "bytes f = bytes (fpSHX h)"
    and len: "length offs = shx_count (nRecords h) page" "length sizes = shx_count (nRecords h) page"
    and vals: "\<And>j. j < shx_count (nRecords h) page \<Longrightarrow>
      (offs ! j, sizes ! j) = shx_entry be (bytes (fpSHX h)) (nRecords h) (page * 1024 + j)"
  shows "shx_inv be bytes (store_page h page f offs sizes) \<and> shx_known (store_page h page f offs sizes) page"
proof -
  let ?n = "nat (nRecords h)" and ?h = "store_page h page f offs sizes"
  note cnt = shx_count_range [OF page]
  have fit: "page * 1024 + length offs \<le> length (panRecOffset h)"
    "page * 1024 + length sizes \<le> length (panRecSize h)"
    using inv cnt(2) len by (auto simp: shx_inv_def)
  have pg: "page < 1 + ?n div 1024" using page by linarith
  have known: "shx_known ?h q \<longleftrightarrow> q = page \<or> shx_known h q" for q
    using inv pg msGetBit_msSetBit [of "panRecLoaded h" "1 + ?n div 1024" page True q]
    by (auto simp: shx_known_def store_page_def shx_inv_def)
  have "(panRecOffset ?h ! i, panRecSize ?h ! i) = shx_entry be (bytes (fpSHX h)) (nRecords h) i"
    if i: "i < ?n" and k: "shx_known ?h (i div 1024)" for i
  proof (cases "i div 1024 = page")
    case True
    then have r: "page * 1024 \<le> i" "i < page * 1024 + shx_count (nRecords h) page" using cnt(3) [OF i] by auto
    then have "(offs ! (i - page * 1024), sizes ! (i - page * 1024)) = shx_entry be (bytes (fpSHX h)) (nRecords h) i"
      using vals [of "i - page * 1024"] by auto
    then show ?thesis using r fit len i inv by (simp add: store_page_def nth_put_range shx_inv_def)
  next
    case False
    then have "\<not> (page * 1024 \<le> i \<and> i < page * 1024 + shx_count (nRecords h) page)" using cnt(3) [OF i] by simp
    then show ?thesis using False k known inv i fit len
      by (auto simp: store_page_def nth_put_range shx_inv_def)
  qed
  then show ?thesis using inv known same fit by (auto simp: shx_inv_def store_page_def)
qed

text \<open>The parts of a handle that caching leaves alone.\<close>

definition same_file :: "('f \<Rightarrow> byte list) \<Rightarrow> 'f SHPInfo \<Rightarrow> 'f SHPInfo \<Rightarrow> bool" where
  "same_file bytes h h' \<longleftrightarrow> bytes (fpSHX h') = bytes (fpSHX h) \<and> bytes (fpSHP h') = bytes (fpSHP h)
     \<and> nRecords h' = nRecords h \<and> nShapeType h' = nShapeType h
     \<and> adBoundsMin h' = adBoundsMin h \<and> adBoundsMax h' = adBoundsMax h"

lemma same_file_trans: "same_file bytes h h' \<Longrightarrow> same_file bytes h' h'' \<Longrightarrow> same_file bytes h h''"
  by (simp add: same_file_def)

context posix_vsi
begin

lemma msSHXLoadPage_inv:
  assumes inv: "shx_inv be bytes h" and page: "page * 1024 < nat (nRecords h)"
    and load: "msSHXLoadPage ops be h page = (h', es)"
  shows "shx_inv be bytes h' \<and> shx_known h' page \<and> same_file bytes h h'"
proof -
  let ?n = "shx_count (nRecords h) page" and ?p = "100 + page * 1024 * 8" and ?c = "bytes (fpSHX h)"
  obtain b f1 where s: "VSIFSeekL ops (fpSHX h) ?p = (b, f1)" by fastforce
  have n: "0 < ?n" by (rule shx_count_range(1) [OF page])
  have pg: "(page * 1024 + j) div 1024 = page" if "j < ?n" for j
    using shx_count_range(3) [OF page, of "page * 1024 + j"] shx_count_range(2) [OF page] that by simp
  have same: "same_file bytes h (store_page h page f offs sizes)" if "bytes f = ?c" for f offs sizes
    using that by (simp add: same_file_def store_page_def)
  show ?thesis
  proof (cases "?p + 8 * ?n \<le> length ?c")
    case True
    then obtain f2 where r: "b" "VSIFReadL ops f1 8 ?n = (?n, take (8 * ?n) (drop ?p ?c), f2)" "bytes f2 = ?c"
      using seek_read_all [OF s] by blast
    have "(shx_double (shp_int be (take (8 * ?n) (drop ?p ?c)) (8 * j)),
        shx_double (shp_int be (take (8 * ?n) (drop ?p ?c)) (8 * j + 4))) = shx_entry be ?c (nRecords h) (page * 1024 + j)"
      if "j < ?n" for j
      using that True pg [OF that] by (simp add: shx_entry_def shp_int_window algebra_simps)
    then show ?thesis
      using store_page_inv [OF inv page r(3)] same [OF r(3)] load s r
      by (auto simp: msSHXLoadPage_def page_count_eq Let_def)
  next
    case False
    then obtain j bs f2 where r: "b" "VSIFReadL ops f1 8 ?n = (j, bs, f2)" "j \<noteq> ?n" "bytes f2 = ?c"
      using seek_read_short [OF s, of 8 ?n] n by fastforce
    have "(0, 0) = shx_entry be ?c (nRecords h) (page * 1024 + j)" if "j < ?n" for j
      using that False pg [OF that] by (simp add: shx_entry_def)
    then show ?thesis
      using store_page_inv [OF inv page r(4)] same [OF r(4)] load s r
      by (auto simp: msSHXLoadPage_def page_count_eq Let_def)
  qed
qed

lemma ensure_page_inv:
  assumes "shx_inv be bytes h" and "page * 1024 < nat (nRecords h)" and "ensure_page ops be h page = (h', es)"
  shows "shx_inv be bytes h' \<and> shx_known h' page \<and> same_file bytes h h'"
proof (cases "shx_known h page")
  case True
  then show ?thesis using assms by (simp add: ensure_page_def shx_known_def same_file_def)
next
  case False
  then have "msSHXLoadPage ops be h page = (h', es)" using assms(3) by (simp add: ensure_page_def shx_known_def)
  then show ?thesis by (rule msSHXLoadPage_inv [OF assms(1,2)])
qed

lemma msSHXRead_spec:
  assumes inv: "shx_inv be bytes h"
    and i: "0 \<le> i" "i < nRecords h"
  shows "\<exists>h1 e1 h2 e2. msSHXReadOffset ops be h i = (fst (shx_entry be (bytes (fpSHX h)) (nRecords h) (nat i)), h1, e1)
    \<and> msSHXReadSize ops be h i = (snd (shx_entry be (bytes (fpSHX h)) (nRecords h) (nat i)), h2, e2)
    \<and> shx_inv be bytes h1 \<and> same_file bytes h h1 \<and> shx_inv be bytes h2 \<and> same_file bytes h h2"
proof -
  let ?page = "nat i div 1024"
  obtain h' es where e: "ensure_page ops be h ?page = (h', es)" by fastforce
  have "?page * 1024 < nat (nRecords h)" using i by linarith
  then have h': "shx_inv be bytes h'" "shx_known h' ?page" "same_file bytes h h'"
    using ensure_page_inv [OF inv _ e] by auto
  then have "(panRecOffset h' ! nat i, panRecSize h' ! nat i) = shx_entry be (bytes (fpSHX h)) (nRecords h) (nat i)"
    using i by (auto simp: shx_inv_def same_file_def)
  then have "panRecOffset h' ! nat i = fst (shx_entry be (bytes (fpSHX h)) (nRecords h) (nat i))"
    "panRecSize h' ! nat i = snd (shx_entry be (bytes (fpSHX h)) (nRecords h) (nat i))"
    by (simp_all add: prod_eq_iff)
  then show ?thesis using i e h' by (auto simp: msSHXReadOffset_def msSHXReadSize_def)
qed

lemma vread1_at:
  assumes "VSIFSeekL ops f n = (b, f1)" and "0 < m"
  shows "b \<and> (\<exists>f2. vread1 ops f1 m = (if n + m \<le> length (bytes f) then Some (take m (drop n (bytes f))) else None, f2)
    \<and> bytes f2 = bytes f)"
proof (cases "n + m \<le> length (bytes f)")
  case True
  then show ?thesis using seek_read_all [OF assms(1), of m 1] by (auto simp: vread1_def)
next
  case False
  then show ?thesis using seek_read_short [OF assms(1), of m 1] assms(2) by (auto simp: vread1_def)
qed

end

text \<open>The bounds that the two files hold for record \<open>i\<close>.\<close>

definition is_point_type :: "int \<Rightarrow> bool" where
  "is_point_type t \<longleftrightarrow> t = SHP_POINT \<or> t = SHP_POINTZ \<or> t = SHP_POINTM"

definition bounds_at :: "bool \<Rightarrow> byte list \<Rightarrow> int \<Rightarrow> nat \<Rightarrow> rectObj option" where
  "bounds_at be shp t p =
     (if is_point_type t then
        (if p + 16 \<le> length shp then
           Some \<lparr>minx = shp_double be (drop p shp) 0, miny = shp_double be (drop p shp) 8,
                 maxx = shp_double be (drop p shp) 0, maxy = shp_double be (drop p shp) 8\<rparr>
         else None)
      else if p + 32 \<le> length shp then
        (let r = get_rect be be (take 32 (drop p shp)) in if f64_nan (minx r) then None else Some r)
      else None)"

definition file_bounds :: "bool \<Rightarrow> byte list \<Rightarrow> byte list \<Rightarrow> int \<Rightarrow> int \<Rightarrow> nat \<Rightarrow> rectObj option" where
  "file_bounds be shp shx n t i =
     (case shx_entry be shx n i of
        (off, siz) \<Rightarrow>
          (if siz \<le> 4 \<or> off \<le> 0 \<or> 2147483635 \<le> off then None else bounds_at be shp t (nat off + 12)))"

lemma shp_double_window: "k + 8 \<le> m \<Longrightarrow> shp_double be (take m c) k = shp_double be c k"
  by (simp add: shp_double_def drop_take min_def)

context posix_vsi
begin

lemma msSHPReadBounds_spec:
  assumes inv: "shx_inv be bytes h" and i: "0 \<le> i" "i < nRecords h"
  shows "\<exists>st r h' es. msSHPReadBounds ops be h i pad = (st, r, h', es)
    \<and> (if st = MS_SUCCESS then Some r else None)
        = file_bounds be (bytes (fpSHP h)) (bytes (fpSHX h)) (nRecords h) (nShapeType h) (nat i)
    \<and> shx_inv be bytes h' \<and> same_file bytes h h'"
proof -
  let ?e = "shx_entry be (bytes (fpSHX h)) (nRecords h) (nat i)"
  obtain off siz where e: "?e = (off, siz)" by fastforce
  obtain h1 e1 where 1: "msSHXReadSize ops be h i = (siz, h1, e1)" "shx_inv be bytes h1" "same_file bytes h h1"
    using msSHXRead_spec [OF inv i] e by auto
  obtain h2 e2 where 2: "msSHXReadOffset ops be h1 i = (off, h2, e2)" "shx_inv be bytes h2" "same_file bytes h h2"
    using msSHXRead_spec [OF 1(2), of i] i 1(3) e by (auto simp: same_file_def)
  obtain b f1 where s: "VSIFSeekL ops (fpSHP h2) (nat off + 12) = (b, f1)" by fastforce
  have shp: "bytes (fpSHP h2) = bytes (fpSHP h)" and ty: "nShapeType h2 = nShapeType h"
    using 2(3) by (auto simp: same_file_def)
  have upd: "shx_inv be bytes (h2\<lparr>fpSHP := f\<rparr>) \<and> same_file bytes h (h2\<lparr>fpSHP := f\<rparr>)" if "bytes f = bytes (fpSHP h)" for f
    using that 2(2,3) by (simp add: shx_inv_def same_file_def shx_known_def)
  have i': "\<not> (nRecords h \<le> 0 \<or> i < -1 \<or> nRecords h \<le> i)" "i \<noteq> -1" using i by auto
  consider (bad) "siz \<le> 4" | (off) "4 < siz" "off \<le> 0 \<or> 2147483635 \<le> off"
    | (ok) "4 < siz" "0 < off" "off < 2147483635" by linarith
  then show ?thesis
  proof cases
    case ok
    show ?thesis
    proof (cases "is_point_type (nShapeType h)")
      case True
      obtain f2 where "b" "bytes f2 = bytes (fpSHP h)" "vread1 ops f1 16 = (if nat off + 12 + 16 \<le> length (bytes (fpSHP h))
          then Some (take 16 (drop (nat off + 12) (bytes (fpSHP h)))) else None, f2)"
        using vread1_at [OF s, of 16] shp by auto
      then show ?thesis using ok True i' e 1 2 s ty upd
        by (auto simp: msSHPReadBounds_def file_bounds_def bounds_at_def is_point_type_def Let_def shp_double_window)
    next
      case False
      obtain f2 where "b" "bytes f2 = bytes (fpSHP h)" "vread1 ops f1 32 = (if nat off + 12 + 32 \<le> length (bytes (fpSHP h))
          then Some (take 32 (drop (nat off + 12) (bytes (fpSHP h)))) else None, f2)"
        using vread1_at [OF s, of 32] shp by auto
      then show ?thesis using ok False i' e 1 2 s ty upd
        by (auto simp: msSHPReadBounds_def file_bounds_def bounds_at_def is_point_type_def Let_def)
    qed
  qed (use i' e 1 2 in \<open>auto simp: msSHPReadBounds_def file_bounds_def Let_def\<close>)
qed

end

section \<open>Sequences of reads\<close>

text \<open>The handles that any sequence of reads can produce from a given one.\<close>

inductive reads_to :: "('f, 'z) vsi_scheme \<Rightarrow> bool \<Rightarrow> 'f SHPInfo \<Rightarrow> 'f SHPInfo \<Rightarrow> bool" for ops be h0 where
  start: "reads_to ops be h0 h0"
| offset: "reads_to ops be h0 h \<Longrightarrow> msSHXReadOffset ops be h i = (v, h', es) \<Longrightarrow> reads_to ops be h0 h'"
| sizes: "reads_to ops be h0 h \<Longrightarrow> msSHXReadSize ops be h i = (v, h', es) \<Longrightarrow> reads_to ops be h0 h'"
| bounds: "reads_to ops be h0 h \<Longrightarrow> msSHPReadBounds ops be h i pad = (st, r, h', es) \<Longrightarrow> reads_to ops be h0 h'"
| point: "reads_to ops be h0 h \<Longrightarrow> msSHPReadPoint ops be h i = (p, h', es) \<Longrightarrow> reads_to ops be h0 h'"

lemma shx_inv_upd [simp]: "shx_inv be bytes (h\<lparr>fpSHP := f\<rparr>) = shx_inv be bytes h"
  "shx_inv be bytes (h\<lparr>nBufSize := k\<rparr>) = shx_inv be bytes h"
  by (simp_all add: shx_inv_def shx_known_def)

lemma same_file_refl [simp]: "same_file bytes h h"
  by (simp add: same_file_def)

lemma same_file_upd: "same_file bytes h h1 \<Longrightarrow> bytes f = bytes (fpSHP h1) \<Longrightarrow> same_file bytes h (h1\<lparr>fpSHP := f\<rparr>)"
  "same_file bytes h h1 \<Longrightarrow> same_file bytes h (h1\<lparr>nBufSize := k\<rparr>)"
  by (simp_all add: same_file_def)

context posix_vsi
begin

definition kept :: "bool \<Rightarrow> 'f SHPInfo \<Rightarrow> 'f SHPInfo \<Rightarrow> bool" where
  "kept be h h' \<longleftrightarrow> shx_inv be bytes h' \<and> same_file bytes h h'"

lemma kept_refl: "shx_inv be bytes h \<Longrightarrow> kept be h h"
  by (simp add: kept_def)

lemma kept_trans: "kept be h h1 \<Longrightarrow> kept be h1 h2 \<Longrightarrow> kept be h h2"
  by (auto simp: kept_def same_file_def)

lemma kept_SHX:
  assumes "shx_inv be bytes h"
  shows "msSHXReadOffset ops be h i = (v, h', es) \<Longrightarrow> kept be h h'"
    and "msSHXReadSize ops be h i = (v, h', es) \<Longrightarrow> kept be h h'"
proof -
  show "kept be h h'" if r: "msSHXReadOffset ops be h i = (v, h', es)"
  proof (cases "0 \<le> i \<and> i < nRecords h")
    case True
    then show ?thesis using msSHXRead_spec [OF assms, of i] r by (auto simp: kept_def)
  next
    case False
    then have "h' = h" using r by (auto simp: msSHXReadOffset_def)
    then show ?thesis using assms by (simp add: kept_refl)
  qed
  show "kept be h h'" if r: "msSHXReadSize ops be h i = (v, h', es)"
  proof (cases "0 \<le> i \<and> i < nRecords h")
    case True
    then show ?thesis using msSHXRead_spec [OF assms, of i] r by (auto simp: kept_def)
  next
    case False
    then have "h' = h" using r by (auto simp: msSHXReadSize_def)
    then show ?thesis using assms by (simp add: kept_refl)
  qed
qed

lemma kept_bounds:
  assumes "shx_inv be bytes h" and "msSHPReadBounds ops be h i pad = (st, r, h', es)"
  shows "kept be h h'"
proof (cases "0 \<le> i \<and> i < nRecords h")
  case True
  then show ?thesis using msSHPReadBounds_spec [OF assms(1), of i pad] assms(2) by (auto simp: kept_def)
next
  case False
  then have "h' = h" using assms(2) by (auto simp: msSHPReadBounds_def split: if_splits)
  then show ?thesis using assms(1) by (simp add: kept_refl)
qed

lemma kept_buffer:
  assumes "shx_inv be bytes h" and "msSHPReadAllocateBuffer ops be h i c = (b, h', es)"
  shows "kept be h h'"
proof -
  obtain v h1 e1 where 1: "msSHXReadSize ops be h i = (v, h1, e1)" by (cases "msSHXReadSize ops be h i")
  have "kept be h h1" by (rule kept_SHX(2) [OF assms(1) 1])
  then show ?thesis using assms(2) 1
    by (auto simp: msSHPReadAllocateBuffer_def kept_def same_file_def split: if_splits)
qed

lemma kept_point:
  assumes inv: "shx_inv be bytes h" and rd: "msSHPReadPoint ops be h i = (p, h', es)"
  shows "kept be h h'"
proof (cases "nShapeType h \<noteq> 1 \<or> i < 0 \<or> nRecords h \<le> i")
  case True
  then have "h' = h" using rd by (auto simp: msSHPReadPoint_def split: if_splits)
  then show ?thesis using inv by (simp add: kept_refl)
next
  case valid: False
  obtain v h1 e1 where 1: "msSHXReadSize ops be h i = (v, h1, e1)" by (cases "msSHXReadSize ops be h i")
  obtain b h2 e2 where 2: "msSHPReadAllocateBuffer ops be h1 i ''msSHPReadPoint()'' = (b, h2, e2)"
    by (cases "msSHPReadAllocateBuffer ops be h1 i ''msSHPReadPoint()''")
  obtain off h3 e3 where 3: "msSHXReadOffset ops be h2 i = (off, h3, e3)" by (cases "msSHXReadOffset ops be h2 i")
  have k1: "kept be h h1" by (rule kept_SHX(2) [OF inv 1])
  have k2: "kept be h h2" using k1 kept_buffer [OF _ 2] kept_trans by (auto simp: kept_def)
  have k3: "kept be h h3" using k2 kept_SHX(1) [OF _ 3] kept_trans by (auto simp: kept_def)
  obtain c f where s: "VSIFSeekL ops (fpSHP h3) (nat off) = (c, f)" by fastforce
  have upd: "kept be h (h3\<lparr>fpSHP := g\<rparr>)" if "bytes g = bytes (fpSHP h3)" for g
    using that k3 by (simp add: kept_def same_file_upd)
  obtain f2 where f2: "c" "vread1 ops f (nat (v + 8)) = (if nat off + nat (v + 8) \<le> length (bytes (fpSHP h3))
      then Some (take (nat (v + 8)) (drop (nat off) (bytes (fpSHP h3)))) else None, f2)"
      "bytes f2 = bytes (fpSHP h3)" if "28 \<le> v + 8"
    using vread1_at [OF s, of "nat (v + 8)"] by fastforce
  show ?thesis
  proof (cases "v + 8 < 28")
    case True
    then have "h' = h1" using rd valid by (simp add: msSHPReadPoint_def 1 Let_def split: if_splits)
    then show ?thesis using k1 by simp
  next
    case big: False
    show ?thesis
    proof (cases "b \<and> 0 < off")
      case True
      then have "h' = h3\<lparr>fpSHP := f2\<rparr>"
        using rd valid big f2(1,2) by (simp add: msSHPReadPoint_def 1 2 3 s Let_def split: if_splits)
      then show ?thesis using upd [OF f2(3)] big by simp
    next
      case False
      then have "h' = h2 \<or> h' = h3"
        using rd valid big by (cases b) (simp_all add: msSHPReadPoint_def 1 2 3 Let_def split: if_splits)
      then show ?thesis using k2 k3 by blast
    qed
  qed
qed

lemma reads_to_kept:
  assumes "reads_to ops be h0 h" and "shx_inv be bytes h0"
  shows "kept be h0 h"
  using assms(1)
proof induction
  case start
  then show ?case using assms(2) by (rule kept_refl)
next
  case (offset h i v h' es)
  then show ?case using kept_SHX(1) kept_trans kept_def by metis
next
  case (sizes h i v h' es)
  then show ?case using kept_SHX(2) kept_trans kept_def by metis
next
  case (bounds h i pad st r h' es)
  then show ?case using kept_bounds kept_trans kept_def by metis
next
  case (point h i p h' es)
  then show ?case using kept_point kept_trans kept_def by metis
qed

lemma vread1_keeps:
  assumes "vread1 ops f n = (r, f')" and "0 < n"
  shows "bytes f' = bytes f \<and> (r \<noteq> None \<longrightarrow> at f' = at f + n)"
  using assms read_all [of f n 1] read_short [of n 1 f]
  by (cases "at f + n \<le> length (bytes f)") (fastforce simp: vread1_def)+

lemma msSHPOpenVirtualFile_inv:
  assumes "msSHPOpenVirtualFile ops junk be f1 f2 = (Some h, es)"
  shows "shx_inv be bytes h \<and> bytes (fpSHP h) = bytes f1 \<and> bytes (fpSHX h) = bytes f2
    \<and> 0 \<le> nRecords h \<and> nRecords h \<le> 256000000 \<and> at (fpSHX h) = at f2 + 100 \<and> \<not> panRecAllLoaded h"
proof -
  obtain h1 shp where 1: "vread1 ops f1 100 = (Some h1, shp)"
    using assms by (auto simp: msSHPOpenVirtualFile_def split: prod.splits option.splits)
  obtain h2 shx where 2: "vread1 ops f2 100 = (Some h2, shx)"
    using assms 1 by (auto simp: msSHPOpenVirtualFile_def Let_def split: prod.splits option.splits)
  have "bytes shp = bytes f1" "bytes shx = bytes f2" "at shx = at f2 + 100"
    using vread1_keeps [OF 1] vread1_keeps [OF 2] by auto
  moreover have "\<not> msGetBit (msAllocBitArray (Suc (m div 1024))) (i div 1024)" if "i < m" for i m
    using that by (intro msGetBit_msAllocBitArray) (simp add: le_imp_less_Suc div_le_mono)
  moreover obtain fsize n where "h = init_handle junk be shp shx h2 fsize n" "0 \<le> n" "n \<le> 256000000"
    using assms unfolding msSHPOpenVirtualFile_def 1 2 by (auto simp: Let_def split: if_splits)
  ultimately show ?thesis
    by (auto simp: init_handle_def shx_inv_def shx_known_def)
qed

text \<open>Reading the whole index needs the file to stand at the first record.\<close>

lemma msSHXLoadAll_ok:
  assumes inv: "shx_inv be bytes h" and pos: "at (fpSHX h) = 100"
    and len: "100 + 8 * nat (nRecords h) \<le> length (bytes (fpSHX h))"
  shows "\<exists>h'. msSHXLoadAll ops be h = (MS_SUCCESS, h', []) \<and> panRecAllLoaded h' \<and> shx_inv be bytes h'"
proof -
  let ?n = "nat (nRecords h)" and ?c = "bytes (fpSHX h)"
  let ?buf = "take (8 * ?n) (drop 100 ?c)"
  obtain f where f: "VSIFReadL ops (fpSHX h) 8 ?n = (?n, ?buf, f)" "bytes f = ?c"
    using read_all [of "fpSHX h" 8 ?n] pos len by auto
  have fits: "?n \<le> length (panRecOffset h)" "?n \<le> length (panRecSize h)" using inv by (auto simp: shx_inv_def)
  have entry: "shx_entry be ?c (nRecords h) i = (shx_double (shp_int be ?buf (i * 8)), shx_double (shp_int be ?buf (i * 8 + 4)))"
    if "i < ?n" for i
  proof -
    have "i div 1024 * 1024 + shx_count (nRecords h) (i div 1024) \<le> ?n"
      using shx_count_range(2) [of "i div 1024" "nRecords h"] that by linarith
    then have "100 + i div 1024 * 1024 * 8 + 8 * shx_count (nRecords h) (i div 1024) \<le> length ?c"
      using len by linarith
    then show ?thesis using that by (simp add: shx_entry_def shp_int_window algebra_simps)
  qed
  show ?thesis
    using f inv fits entry
    by (auto simp: msSHXLoadAll_def Let_def shx_inv_def shx_known_def nth_put_range)
qed

lemma msSHXLoadAll_late:
  assumes "length (bytes (fpSHX h)) < at (fpSHX h) + 8 * nat (nRecords h)" and "0 < nRecords h"
  shows "\<exists>f. msSHXLoadAll ops be h = (MS_FAILURE, h\<lparr>fpSHX := f\<rparr>,
    [Report MS_IOERR ''failed to read shx records'' ''msSHXLoadAll()''])"
  using read_short [of 8 "nat (nRecords h)" "fpSHX h"] assms by (auto simp: msSHXLoadAll_def Let_def)

lemma msSHXReadOffset_moves:
  assumes "\<not> shx_known h (nat i div 1024)" and i: "0 \<le> i" "i < nRecords h"
    and len: "100 + 8 * nat (nRecords h) \<le> length (bytes (fpSHX h))"
    and rd: "msSHXReadOffset ops be h i = (v, h', es)"
  shows "100 < at (fpSHX h') \<and> bytes (fpSHX h') = bytes (fpSHX h) \<and> nRecords h' = nRecords h
    \<and> panRecAllLoaded h' = panRecAllLoaded h"
proof -
  let ?page = "nat i div 1024" and ?n = "shx_count (nRecords h) (nat i div 1024)"
  have page: "?page * 1024 < nat (nRecords h)" using i by linarith
  note c = shx_count_range [OF page]
  obtain f1 where s: "VSIFSeekL ops (fpSHX h) (100 + ?page * 1024 * 8) = (True, f1)"
    "bytes f1 = bytes (fpSHX h)" "at f1 = 100 + ?page * 1024 * 8"
    using seek [of "fpSHX h" "100 + ?page * 1024 * 8"] by auto
  have "at f1 + 8 * ?n \<le> length (bytes f1)" unfolding s(2,3) using c(2) len by linarith
  then obtain bs f2 where r: "VSIFReadL ops f1 8 ?n = (?n, bs, f2)" "bytes f2 = bytes (fpSHX h)" "at f2 = at f1 + 8 * ?n"
    using read_all [of f1 8 ?n] unfolding s(2) by blast
  have "100 < at f2" using r(3) s(3) c(1) by linarith
  then show ?thesis
    using rd i assms(1) s(1) r(1,2)
    by (auto simp: msSHXReadOffset_def ensure_page_def shx_known_def msSHXLoadPage_def page_count_eq Let_def
        store_page_def)
qed

end

section \<open>Searching with and without an index\<close>

lemma scan_shapes_get:
  assumes "scan_shapes shp rect is st = (MS_SUCCESS, st')" and "bits_cover st n"
    and "\<forall>i\<in>set is. 0 \<le> i \<and> i < int n"
  shows "\<forall>j<n. msGetBit st' j = (msGetBit st j \<or> (int j \<in> set is
    \<and> (\<exists>b. read_bounds shp (int j) = Some b \<and> msRectOverlap b rect)))"
  using assms
proof (induction "is" arbitrary: st)
  case (Cons i "is")
  show ?case
  proof (cases "read_bounds shp i")
    case None
    then have "scan_shapes shp rect is st = (MS_SUCCESS, st')" using Cons.prems(1) by (auto split: if_splits)
    then show ?thesis using Cons.IH [of st] Cons.prems None by auto
  next
    case (Some r)
    let ?st = "if msRectOverlap r rect then msSetBit st (nat i) True else st"
    have i: "0 \<le> i" "nat i < n" using Cons.prems(3) by auto
    have get: "msGetBit ?st j = (msGetBit st j \<or> (int j = i \<and> msRectOverlap r rect))" for j
      using msGetBit_msSetBit [OF Cons.prems(2) i(2), of True j] i by auto
    have "\<forall>j<n. msGetBit st' j = (msGetBit ?st j \<or> (int j \<in> set is
        \<and> (\<exists>b. read_bounds shp (int j) = Some b \<and> msRectOverlap b rect)))"
      by (rule Cons.IH) (use Cons.prems Some in auto)
    then show ?thesis using get Some by auto
  qed
qed simp

lemma which_scan:
  assumes "msRectOverlap (shp_bounds shp) rect" and "\<not> msRectContained (shp_bounds shp) rect"
    and "msSHPDiskTreeOpen be fs (index_name (source shp)) = None"
    and "msShapefileWhichShapes fuel be fs shp rect debug = Some (MS_SUCCESS, s, es)"
  shows "\<exists>st. shp_status s = Some st \<and> (\<forall>j<nat (shp_numshapes shp). msGetBit st j
    = (\<exists>b. read_bounds shp (int j) = Some b \<and> msRectOverlap b rect))"
proof -
  let ?n = "nat (shp_numshapes shp)"
  obtain st where st: "scan_shapes shp rect (map int [0..<?n]) (msAllocBitArray ?n) = (MS_SUCCESS, st)"
    "shp_status s = Some st"
    using assms by (auto simp: msShapefileWhichShapes_def msSearchDiskTree_def Let_def
        split: prod.splits ms_return.splits)
  have "\<forall>j<?n. msGetBit st j = (msGetBit (msAllocBitArray ?n) j \<or> (int j \<in> set (map int [0..<?n])
      \<and> (\<exists>b. read_bounds shp (int j) = Some b \<and> msRectOverlap b rect)))"
    by (rule scan_shapes_get [OF st(1)]) auto
  then show ?thesis using st(2) by auto
qed

lemma truncate_simps [simp]:
  "shp_numshapes (shapefileObj.truncate shp) = shp_numshapes shp"
  "shp_bounds (shapefileObj.truncate shp) = shp_bounds shp"
  "read_bounds (shapefileObj.truncate shp) = read_bounds shp"
  by (simp_all add: shapefileObj.truncate_def)

lemma which_index:
  assumes over: "msRectOverlap (shp_bounds shp) rect" and out: "\<not> msRectContained (shp_bounds shp) rect"
    and t: "msCreateTree (Some (shapefileObj.truncate shp)) d = Some t"
    and search: "msSearchDiskTree fuel be fs (index_name (source shp)) rect debug (shp_numshapes shp)
      = Some (Some (msSearchTree (msTreeTrim t) rect), [])"
  shows "\<exists>s st. msShapefileWhichShapes fuel be fs shp rect debug = Some (MS_SUCCESS, s, [])
    \<and> shp_status s = Some st \<and> (\<forall>j<nat (shp_numshapes shp). msGetBit st j
          = (\<exists>b. read_bounds shp (int j) = Some b \<and> msRectOverlap b rect))"
proof -
  let ?shp = "shapefileObj.truncate shp" and ?n = "nat (shp_numshapes shp)"
  have t': "covered (bounds_of ?shp) (root t)" "nrect (root t) = shp_bounds shp" "numshapes t = shp_numshapes shp"
    "mset (all_ids (root t)) = mset (readable ?shp (map int [0..<?n]))"
    using msCreateTree_spec [of ?shp d] t by auto
  have ids: "int j \<in> set (all_ids (root t)) \<longleftrightarrow> read_bounds shp (int j) \<noteq> None" if "j < ?n" for j
    using arg_cong [OF t'(4), of set_mset] that by (auto simp: readable_def)
  let ?st = "msSearchTree (msTreeTrim t) rect"
  have get: "bits_cover ?st ?n" "\<And>j. j < ?n \<Longrightarrow> msGetBit ?st j = (int j \<in> set (visible_ids rect (treeNodeTrim (root t))))"
    using msSearchTree_get [of "msTreeTrim t" rect] t'(3) by (simp_all add: msTreeTrim_def)
  have "\<exists>st'. msFilterTreeSearch ?shp ?st rect = Some st' \<and> (\<forall>j<nat (shp_numshapes ?shp). msGetBit st' j
      = (\<exists>b. read_bounds ?shp (int j) = Some b \<and> msRectOverlap b rect))"
  proof (rule filter_exact)
    show "read_bounds ?shp (int j) \<noteq> None" if "j < nat (shp_numshapes ?shp)" "msGetBit ?st j" for j
      using that ids get(2) visible_subset [of rect "treeNodeTrim (root t)"] set_trim_ids [of "root t"] by auto
    show "msGetBit ?st j" if "j < nat (shp_numshapes ?shp)" "read_bounds ?shp (int j) = Some b" "msRectOverlap b rect" for j b
    proof -
      have "int j \<in> set (visible_ids rect (root t))"
        by (rule covered_visible [OF t'(1)]) (use that ids over t'(2) in \<open>auto simp: bounds_of_def\<close>)
      then show ?thesis using trim_visible [of rect "root t"] get(2) that by auto
    qed
  qed (use get in simp)
  then show ?thesis using over out search by (auto simp: msShapefileWhichShapes_def Let_def)
qed

section \<open>Properties\<close>

text \<open>C12. The page cache over the record index is transparent: on a handle reached from an opened
  pair of files by any sequence of reads, the offset, the size and the bounds of a record are
  those that the two files hold, whatever pages are cached and whatever the cache arrays held
  when they were allocated.\<close>

theorem shx_cache_transparent:
  assumes "posix_vsi ops bytes at"
    and "msSHPOpenVirtualFile ops junk be f1 f2 = (Some h0, es)"
    and "reads_to ops be h0 h" and "0 \<le> i" and "i < nRecords h0"
  shows "(fst (msSHXReadOffset ops be h i), fst (msSHXReadSize ops be h i))
      = shx_entry be (bytes f2) (nRecords h0) (nat i)
    \<and> (case msSHPReadBounds ops be h i pad of (st, r, _) \<Rightarrow> if st = MS_SUCCESS then Some r else None)
      = file_bounds be (bytes f1) (bytes f2) (nRecords h0) (nShapeType h0) (nat i)"
proof -
  note o = posix_vsi.msSHPOpenVirtualFile_inv [OF assms(1,2)]
  have k: "shx_inv be bytes h \<and> same_file bytes h0 h"
    using posix_vsi.reads_to_kept [OF assms(1,3)] o posix_vsi.kept_def [OF assms(1)] by auto
  then have i: "i < nRecords h" using assms(5) by (simp add: same_file_def)
  have eq: "bytes (fpSHX h) = bytes f2" "bytes (fpSHP h) = bytes f1" "nRecords h = nRecords h0" "nShapeType h = nShapeType h0"
    using k o by (auto simp: same_file_def)
  obtain h1 e1 h2 e2 where "msSHXReadOffset ops be h i = (fst (shx_entry be (bytes f2) (nRecords h0) (nat i)), h1, e1)"
    "msSHXReadSize ops be h i = (snd (shx_entry be (bytes f2) (nRecords h0) (nat i)), h2, e2)"
    using posix_vsi.msSHXRead_spec [OF assms(1) k [THEN conjunct1] assms(4) i] eq by auto
  moreover obtain st r h' es' where "msSHPReadBounds ops be h i pad = (st, r, h', es')"
    "(if st = MS_SUCCESS then Some r else None) = file_bounds be (bytes f1) (bytes f2) (nRecords h0) (nShapeType h0) (nat i)"
    using posix_vsi.msSHPReadBounds_spec [OF assms(1) k [THEN conjunct1] assms(4) i, of pad] eq by auto
  ultimately show ?thesis by simp
qed

text \<open>A pair of files with one point record at offset 100, for the witnesses.\<close>

definition shx_sample :: "byte list" where
  "shx_sample = [0, 0, 0x27, 0x0a] @ replicate 20 0 @ [0, 0, 0, 54] @ replicate 4 0 @ [1] @ replicate 67 0
     @ [0, 0, 0, 50, 0, 0, 0, 10]"

definition shp_sample :: "byte list" where
  "shp_sample = [0, 0, 0x27, 0x0a] @ replicate 20 0 @ [0, 0, 0, 64] @ replicate 4 0 @ [1] @ replicate 67 0
     @ [0, 0, 0, 1, 0, 0, 0, 10, 1, 0, 0, 0] @ replicate 16 0"

definition sample_handle :: "cfile SHPInfo" where
  "sample_handle = init_handle (\<lambda>_. 7) False \<lparr>content = shp_sample, pos = 100\<rparr> \<lparr>content = shx_sample, pos = 100\<rparr>
     (take 100 shx_sample) 128 1"

lemma sample_open:
  "msSHPOpenVirtualFile stdio_vsi (\<lambda>_. 7) False \<lparr>content = shp_sample, pos = 0\<rparr> \<lparr>content = shx_sample, pos = 0\<rparr>
     = (Some sample_handle, [])"
proof -
  have 1: "vread1 stdio_vsi \<lparr>content = shp_sample, pos = 0\<rparr> 100 = (Some (take 100 shp_sample), \<lparr>content = shp_sample, pos = 100\<rparr>)"
    "vread1 stdio_vsi \<lparr>content = shx_sample, pos = 0\<rparr> 100 = (Some (take 100 shx_sample), \<lparr>content = shx_sample, pos = 100\<rparr>)"
    by (simp_all add: vread1_def stdio_vsi_def shp_sample_def shx_sample_def)
  have 2: "shp_int False (take 100 shp_sample) 24 = 64" "shp_int False (take 100 shx_sample) 24 = 54"
    "take 100 shx_sample ! 0 = 0 \<and> take 100 shx_sample ! 1 = 0 \<and> take 100 shx_sample ! 2 = 0x27
      \<and> take 100 shx_sample ! 3 = 0x0a"
    by code_simp+
  show ?thesis
    unfolding msSHPOpenVirtualFile_def 1 by (simp add: 2 [simplified] sample_handle_def)
qed

theorem shx_cache_transparent_witness:
  "(fst (msSHXReadOffset stdio_vsi False sample_handle 0), fst (msSHXReadSize stdio_vsi False sample_handle 0)) = (100, 20)"
proof -
  have "shx_entry False shx_sample 1 0 = (100, 20)" by code_simp
  moreover have "nRecords sample_handle = 1" by (simp add: sample_handle_def init_handle_def)
  ultimately show ?thesis
    using shx_cache_transparent [OF stdio.posix_vsi_axioms sample_open reads_to.start, of 0] by simp
qed

text \<open>C38. Right after opening, \<open>msSHXLoadAll\<close> fills the cache with what the index file holds, if the
  file is complete. After a read of one record it fails instead, for an index file of the
  exact length: it reads on from wherever the last page ended.\<close>

theorem shx_load_all:
  assumes "posix_vsi ops bytes at" and "msSHPOpenVirtualFile ops junk be f1 f2 = (Some h0, es)" and "at f2 = 0"
    and "length (bytes f2) = 100 + 8 * nat (nRecords h0)" and "0 \<le> i" and "i < nRecords h0"
  shows "(\<exists>h'. msSHXLoadAll ops be h0 = (MS_SUCCESS, h', []) \<and> panRecAllLoaded h' \<and> shx_inv be bytes h')
    \<and> (\<forall>v h es. msSHXReadOffset ops be h0 i = (v, h, es) \<longrightarrow>
         (\<exists>h' es'. msSHXLoadAll ops be h = (MS_FAILURE, h', es') \<and> \<not> panRecAllLoaded h'))"
proof -
  note o = posix_vsi.msSHPOpenVirtualFile_inv [OF assms(1,2)]
  have late: "\<exists>h' es'. msSHXLoadAll ops be h = (MS_FAILURE, h', es') \<and> \<not> panRecAllLoaded h'"
    if rd: "msSHXReadOffset ops be h0 i = (v, h, es)" for v h es
  proof -
    have "panRecLoaded h0 = msAllocBitArray (1 + nat (nRecords h0) div 1024)"
      using assms(2) by (auto simp: msSHPOpenVirtualFile_def Let_def init_handle_def
          split: prod.splits option.splits if_splits)
    moreover have "nat i div 1024 < 1 + nat (nRecords h0) div 1024" using assms(5,6) by (simp add: div_le_mono le_imp_less_Suc)
    ultimately have "\<not> shx_known h0 (nat i div 1024)" using o by (simp add: shx_known_def)
    then have m: "100 < at (fpSHX h)" "bytes (fpSHX h) = bytes f2" "nRecords h = nRecords h0" "\<not> panRecAllLoaded h"
      using posix_vsi.msSHXReadOffset_moves [OF assms(1) _ assms(5,6) _ rd] o assms(4) by auto
    then show ?thesis
      using posix_vsi.msSHXLoadAll_late [OF assms(1), of h be] assms(4-6) by auto
  qed
  show ?thesis
    using late posix_vsi.msSHXLoadAll_ok [OF assms(1), of be h0] o assms(3,4) by auto
qed

theorem shx_load_all_witness:
  "\<exists>h'. msSHXLoadAll stdio_vsi False sample_handle = (MS_SUCCESS, h', []) \<and> panRecAllLoaded h'"
  using shx_load_all [OF stdio.posix_vsi_axioms sample_open, of 0]
  by (auto simp: sample_handle_def init_handle_def shx_sample_def)

text \<open>C10. A spatial index does not change what a search visits, for a rectangle that overlaps the bounds of
  the file and does not contain them (for the others the index is not read: nothing is visited, or
  every record, readable or not). With an index that was built from the shapefile and
  written on any host in either byte order, \<open>msShapefileWhichShapes\<close> marks exactly the readable
  shapes whose bounds overlap the rectangle, and so the same shapes as the scan without an
  index marks when that succeeds. The number of shapes and the size of the tree fit in 31 bits,
  the index file can be written and the disk has room for it, no index file was there before, and
  the search may recurse as deep as the tree is high.\<close>

theorem which_shapes_index:
  assumes "msRectOverlap (shp_bounds shp) rect" and "\<not> msRectContained (shp_bounds shp) rect"
    and "0 \<le> shp_numshapes shp" and "shp_numshapes shp < 2 ^ 31"
    and "msCreateTree (Some (shapefileObj.truncate shp)) d = Some t"
    and "B_order = 1 \<or> B_order = 2" and "writable (base_name (index_name (source shp)) @ ''.qix'')"
    and "16 + tree_size (treeNodeTrim (root t)) \<le> cap" and "tree_size (treeNodeTrim (root t)) < 2 ^ 31"
    and "height (treeNodeTrim (root t)) \<le> fuel"
    and "msSHPDiskTreeOpen be fs (index_name (source shp)) = None"
  shows "\<exists>s st. msShapefileWhichShapes fuel be (w_fs (msWriteTree cap writable be' fs t (index_name (source shp)) B_order))
        shp rect debug = Some (MS_SUCCESS, s, []) \<and> shp_status s = Some st
    \<and> (\<forall>j<nat (shp_numshapes shp). msGetBit st j
          = (\<exists>b. read_bounds shp (int j) = Some b \<and> msRectOverlap b rect))
    \<and> (\<forall>s0 es. msShapefileWhichShapes fuel be fs shp rect debug = Some (MS_SUCCESS, s0, es) \<longrightarrow>
         (\<exists>st0. shp_status s0 = Some st0 \<and> (\<forall>j<nat (shp_numshapes shp). msGetBit st0 j = msGetBit st j)))"
proof -
  let ?shp = "shapefileObj.truncate shp" and ?n = "nat (shp_numshapes shp)"
  have t: "numshapes t = shp_numshapes shp" "mset (all_ids (root t)) = mset (readable ?shp (map int [0..<?n]))"
    using msCreateTree_spec [of ?shp d] assms(5) by auto
  have "\<forall>i\<in>set (all_ids (root t)). 0 \<le> i \<and> i < 2 ^ 31"
    using arg_cong [OF t(2), of set_mset] assms(3,4) by (auto simp: readable_def)
  then have "msSearchDiskTree fuel be (w_fs (msWriteTree cap writable be' fs t (index_name (source shp)) B_order))
      (index_name (source shp)) rect debug (shp_numshapes shp) = Some (Some (msSearchTree (msTreeTrim t) rect), [])"
    using disk_index_search [of B_order writable "index_name (source shp)" t cap fuel be' fs be rect debug] assms t(1)
    by auto
  then obtain s st where "msShapefileWhichShapes fuel be (w_fs (msWriteTree cap writable be' fs t (index_name (source shp)) B_order))
        shp rect debug = Some (MS_SUCCESS, s, [])" "shp_status s = Some st"
    "\<forall>j<?n. msGetBit st j = (\<exists>b. read_bounds shp (int j) = Some b \<and> msRectOverlap b rect)"
    using which_index [OF assms(1,2,5)] by blast
  moreover have "\<exists>st0. shp_status s0 = Some st0 \<and> (\<forall>j<?n. msGetBit st0 j = msGetBit st j)"
    if "msShapefileWhichShapes fuel be fs shp rect debug = Some (MS_SUCCESS, s0, es)" for s0 es
    using which_scan [OF assms(1,2,11) that] calculation(3) by auto
  ultimately show ?thesis by blast
qed

definition sample_shp :: openShapefile where
  "sample_shp = \<lparr>shp_numshapes = 1, shp_bounds = \<lparr>minx = 0, miny = 0, maxx = 0x3FF0000000000000, maxy = 0\<rparr>,
     read_bounds = (\<lambda>i. Some zero_rect), source = ''a.shp'', shp_status = None, lastshape = -1, read_size = (\<lambda>i. 20)\<rparr>"

theorem which_shapes_index_witness:
  "\<exists>s st. msShapefileWhichShapes 1 False (w_fs (msWriteTree 100 (\<lambda>_. True) True Map.empty
       \<lparr>numshapes = 1, maxdepth = 1, root = TreeNode (shp_bounds sample_shp) [0] []\<rparr> (index_name ''a.shp'') 2))
     sample_shp zero_rect False = Some (MS_SUCCESS, s, []) \<and> shp_status s = Some st \<and> msGetBit st 0"
proof -
  let ?t = "\<lparr>numshapes = 1, maxdepth = 1, root = TreeNode (shp_bounds sample_shp) [0] []\<rparr>"
  have "msRectOverlap (shp_bounds sample_shp) zero_rect" "\<not> msRectContained (shp_bounds sample_shp) zero_rect"
    "msRectOverlap zero_rect zero_rect"
    by code_simp+
  moreover have "msCreateTree (Some (shapefileObj.truncate sample_shp)) 1 = Some ?t"
    by (simp add: msCreateTree_def sample_shp_def shapefileObj.truncate_def add_shape_def treeAddShapeId_def
        treeNodeCreate_def treeNodeAddShapeId.simps)
  moreover have "source sample_shp = ''a.shp''" "shp_numshapes sample_shp = 1" "read_bounds sample_shp 0 = Some zero_rect"
    by (simp_all add: sample_shp_def)
  ultimately show ?thesis
    using which_shapes_index [of sample_shp zero_rect 1 ?t 2 "\<lambda>_. True" 100 1 False Map.empty True False]
    by (simp add: promote_def msSHPDiskTreeOpen_def Let_def) blast
qed

end
