(* ===== verification/ShapeGeom.thy ===== *)
theory ShapeGeom
  imports MapShape "HOL-Library.Monad_Syntax"
begin

text \<open>
  \<^verbatim>\<open>mapshape.c\<close>, the geometry of single records: \<open>msSHPReadShape\<close>, which decodes a record of a file that
  anybody may have written, and the lemmas on the bytes of a record that reading and writing
  share. An access outside the bytes of the record is \<open>None\<close>; the main result is that no file,
  however corrupt, makes the reader do it.
\<close>

section \<open>Shapes\<close>

record vertexObj = pointObj +
  pz :: f64
  pm :: f64

type_synonym lineObj = "vertexObj list"

datatype MS_SHAPE_TYPE = MS_SHAPE_POINT | MS_SHAPE_LINE | MS_SHAPE_POLYGON | MS_SHAPE_NULL

record shapeObj =
  line :: "lineObj list"
  bounds :: rectObj
  shape_type :: MS_SHAPE_TYPE
  index :: int

definition msInitShape :: shapeObj where
  "msInitShape =
     (let m1 = 0xBFF0000000000000 in
      \<lparr>line = [], bounds = \<lparr>minx = m1, miny = m1, maxx = m1, maxy = m1\<rparr>, shape_type = MS_SHAPE_NULL, index = -1\<rparr>)"

abbreviation (input) SHP_ARC :: int where "SHP_ARC \<equiv> 3"
abbreviation (input) SHP_POLYGON :: int where "SHP_POLYGON \<equiv> 5"
abbreviation (input) SHP_MULTIPOINT :: int where "SHP_MULTIPOINT \<equiv> 8"
abbreviation (input) SHP_ARCZ :: int where "SHP_ARCZ \<equiv> 13"
abbreviation (input) SHP_POLYGONZ :: int where "SHP_POLYGONZ \<equiv> 15"
abbreviation (input) SHP_MULTIPOINTZ :: int where "SHP_MULTIPOINTZ \<equiv> 18"
abbreviation (input) SHP_ARCM :: int where "SHP_ARCM \<equiv> 23"
abbreviation (input) SHP_POLYGONM :: int where "SHP_POLYGONM \<equiv> 25"
abbreviation (input) SHP_MULTIPOINTM :: int where "SHP_MULTIPOINTM \<equiv> 28"

text \<open>The three families of shape types that the reader and the writer treat alike.\<close>

definition poly_type :: "int \<Rightarrow> bool" where
  "poly_type ty \<longleftrightarrow> ty = SHP_POLYGON \<or> ty = SHP_ARC \<or> ty = SHP_POLYGONM \<or> ty = SHP_ARCM \<or> ty = SHP_POLYGONZ \<or> ty = SHP_ARCZ"

definition multi_type :: "int \<Rightarrow> bool" where
  "multi_type ty \<longleftrightarrow> ty = SHP_MULTIPOINT \<or> ty = SHP_MULTIPOINTM \<or> ty = SHP_MULTIPOINTZ"

definition point_type :: "int \<Rightarrow> bool" where
  "point_type ty \<longleftrightarrow> ty = SHP_POINT \<or> ty = SHP_POINTM \<or> ty = SHP_POINTZ"

section \<open>Reading out of a record\<close>

text \<open>\<open>memcpy\<close> of \<open>n\<close> bytes at offset \<open>k\<close>, and the little-endian fields of the format.\<close>

definition peek :: "nat \<Rightarrow> nat \<Rightarrow> byte list \<Rightarrow> byte list option" where
  "peek k n pabyRec = (if k + n \<le> length pabyRec then Some (take n (drop k pabyRec)) else None)"

definition peek_int :: "bool \<Rightarrow> nat \<Rightarrow> byte list \<Rightarrow> int option" where
  "peek_int bBigEndian k pabyRec = map_option (\<lambda>bs. sint (get4 bBigEndian bBigEndian bs)) (peek k 4 pabyRec)"

definition peek_double :: "bool \<Rightarrow> nat \<Rightarrow> byte list \<Rightarrow> f64 option" where
  "peek_double bBigEndian k pabyRec = map_option (get8 bBigEndian bBigEndian) (peek k 8 pabyRec)"

definition ReadRect :: "bool \<Rightarrow> nat \<Rightarrow> byte list \<Rightarrow> rectObj option" where
  "ReadRect bBigEndian k pabyRec = map_option (get_rect bBigEndian bBigEndian) (peek k 32 pabyRec)"

text \<open>A vertex with its coordinates at \<open>k\<close>, and its height and measure where there are any.\<close>

definition read_vertex :: "bool \<Rightarrow> byte list \<Rightarrow> nat \<Rightarrow> nat option \<Rightarrow> nat option \<Rightarrow> vertexObj option" where
  "read_vertex bBigEndian pabyRec k zat mat =
     do {
       x \<leftarrow> peek_double bBigEndian k pabyRec;
       y \<leftarrow> peek_double bBigEndian (k + 8) pabyRec;
       z \<leftarrow> (case zat of None \<Rightarrow> Some 0 | Some p \<Rightarrow> peek_double bBigEndian p pabyRec);
       m \<leftarrow> (case mat of None \<Rightarrow> Some 0 | Some p \<Rightarrow> peek_double bBigEndian p pabyRec);
       Some \<lparr>px = x, py = y, pz = z, pm = m\<rparr>
     }"

text \<open>The vertex with the overall number \<open>k\<close> of a polygon or an arc.\<close>

definition poly_vertex :: "bool \<Rightarrow> int \<Rightarrow> byte list \<Rightarrow> nat \<Rightarrow> nat \<Rightarrow> nat \<Rightarrow> vertexObj option" where
  "poly_vertex bBigEndian ty pabyRec nParts nPoints k =
     (let nOffset = 44 + 8 + 4 * nParts + 16 * nPoints;
          extra = (if nOffset + 16 + 8 * nPoints \<le> length pabyRec then Some (nOffset + 16 + k * 8) else None) in
      read_vertex bBigEndian pabyRec (44 + 4 * nParts + 8 + k * 16)
        (if ty = SHP_POLYGONZ \<or> ty = SHP_ARCZ then extra else None)
        (if ty = SHP_POLYGONM \<or> ty = SHP_ARCM then extra else None))"

text \<open>
  The parts, from the part that starts at \<open>s\<close> on; \<open>k\<close> counts the vertices that were read. \<open>Inl\<close> is the
  report of a part that does not fit: the lines read so far are freed.
\<close>

fun read_parts :: "bool \<Rightarrow> int \<Rightarrow> byte list \<Rightarrow> nat \<Rightarrow> nat \<Rightarrow> nat \<Rightarrow> int list \<Rightarrow> (report + lineObj list) option" where
  "read_parts bBigEndian ty pabyRec nParts nPoints k [] = Some (Inr [])"
| "read_parts bBigEndian ty pabyRec nParts nPoints k (s # panParts) =
     (let e = (case panParts of [] \<Rightarrow> int nPoints | e # _ \<Rightarrow> e) in
      if s < 0 \<or> e < 0 \<or> e > int nPoints \<or> s \<ge> e then
        Some (Inl (Report MS_SHPERR
          ''Corrupted .shp file : shape %d, shape->line[%d].start=%d, shape->line[%d].end=%d'' ''msSHPReadShape()''))
      else
        do {
          let n = nat (e - s);
          pts \<leftarrow> those (map (poly_vertex bBigEndian ty pabyRec nParts nPoints) [k..<k + n]);
          rest \<leftarrow> read_parts bBigEndian ty pabyRec nParts nPoints (k + n) panParts;
          Some (map_sum id ((#) pts) rest)
        })"

text \<open>
  The three branches of the reader, on the \<open>length pabyRec\<close> bytes of the record (\<open>nEntitySize\<close>). The
  result has the shape, whether the end of the function is reached, and the reports; the first
  branch also the new length of the array of part starts, which is null while it is 0.
\<close>

definition corrupt_feature :: report where
  "corrupt_feature = Report MS_SHPERR ''Corrupted feature encountered.  hEntity = %d, nEntitySize=%d'' ''msSHPReadShape()''"

definition read_poly ::
  "bool \<Rightarrow> int \<Rightarrow> byte list \<Rightarrow> int \<Rightarrow> (shapeObj \<times> bool \<times> int \<times> report list) option" where
  "read_poly bBigEndian ty pabyRec partMax =
     (if length pabyRec < 40 + 8 + 4 then Some (msInitShape, False, partMax, [corrupt_feature])
      else
        do {
          r \<leftarrow> ReadRect bBigEndian (8 + 4) pabyRec;
          nPoints \<leftarrow> peek_int bBigEndian (40 + 8) pabyRec;
          nParts \<leftarrow> peek_int bBigEndian (36 + 8) pabyRec;
          let shape = msInitShape\<lparr>bounds := r\<rparr>;
          if nPoints < 0 \<or> nParts < 0 \<or> nPoints > 50 * 1000 * 1000 \<or> nParts > 10 * 1000 * 1000 then
            Some (shape, False, partMax,
              [Report MS_SHPERR ''Corrupted feature encountered.  hEntity = %d, nPoints =%d, nParts = %d'' ''msSHPReadShape()''])
          else do {
            let partMax' = max partMax nParts;
            if partMax' = 0 then
              Some (shape, False, partMax', [Report MS_MEMERR ''Out of memory'' ''msSHPReadShape()''])
            else if 44 + 8 + 4 * nParts + 16 * nPoints > int (length pabyRec) then
              Some (shape, False, partMax',
                [Report MS_SHPERR ''Corrupted .shp file : shape %d, nPoints=%d, nParts=%d.'' ''msSHPReadShape()''])
            else do {
              panParts \<leftarrow> those (map (\<lambda>i. peek_int bBigEndian (44 + 8 + 4 * i) pabyRec) [0..<nat nParts]);
              res \<leftarrow> read_parts bBigEndian ty pabyRec (nat nParts) (nat nPoints) 0 panParts;
              Some (case res of
                  Inl err \<Rightarrow> (shape, False, partMax', [err])
                | Inr ls \<Rightarrow>
                    (shape\<lparr>line := ls,
                       shape_type := (if ty = SHP_POLYGON \<or> ty = SHP_POLYGONZ \<or> ty = SHP_POLYGONM
                                      then MS_SHAPE_POLYGON else MS_SHAPE_LINE)\<rparr>, True, partMax', []))
            }
          }
        })"

definition read_multi :: "bool \<Rightarrow> int \<Rightarrow> byte list \<Rightarrow> (shapeObj \<times> bool \<times> report list) option" where
  "read_multi bBigEndian ty pabyRec =
     (if length pabyRec < 44 + 4 then
        Some (msInitShape, False,
          [Report MS_SHPERR ''Corrupted feature encountered.  recSize of feature %d=%d'' ''msSHPReadShape()''])
      else
        do {
          r \<leftarrow> ReadRect bBigEndian (8 + 4) pabyRec;
          nPoints \<leftarrow> peek_int bBigEndian 44 pabyRec;
          let shape = msInitShape\<lparr>bounds := r\<rparr>;
          if nPoints < 0 \<or> nPoints > 50 * 1000 * 1000 then
            Some (shape, False, [Report MS_SHPERR ''Corrupted .shp file : shape %d, nPoints=%d.'' ''msSHPReadShape()''])
          else if 48 + nPoints * 16 + (if ty = SHP_MULTIPOINTZ \<or> ty = SHP_MULTIPOINTM then 16 + nPoints * 8 else 0)
                    > int (length pabyRec) then
            Some (shape, False,
              [Report MS_SHPERR ''Corrupted .shp file : shape %d : nPoints = %d, nEntitySize = %d'' ''msSHPReadShape()''])
          else do {
            let n = nat nPoints;
            pts \<leftarrow> those (map (\<lambda>i. read_vertex bBigEndian pabyRec (48 + 16 * i)
                (if ty = SHP_MULTIPOINTZ then Some (48 + 16 * n + 16 + i * 8) else None)
                (if ty = SHP_MULTIPOINTM then Some (48 + 16 * n + 16 + i * 8) else None)) [0..<n]);
            Some (shape\<lparr>line := [pts], shape_type := MS_SHAPE_POINT\<rparr>, True, [])
          }
        })"

definition read_single :: "bool \<Rightarrow> int \<Rightarrow> byte list \<Rightarrow> (shapeObj \<times> bool \<times> report list) option" where
  "read_single bBigEndian ty pabyRec =
     (if length pabyRec < 20 + 8 then
        Some (msInitShape, False,
          [Report MS_SHPERR ''Corrupted feature encountered.  recSize of feature %d=%d'' ''msSHPReadShape()''])
      else
        do {
          let extra = (if 20 + 8 + 8 \<le> length pabyRec then Some (20 + 8) else None);
          v \<leftarrow> read_vertex bBigEndian pabyRec 12 (if ty = SHP_POINTZ then extra else None)
                 (if ty = SHP_POINTM then extra else None);
          Some (msInitShape\<lparr>line := [[v]],
                  bounds := \<lparr>minx = px v, miny = py v, maxx = px v, maxy = py v\<rparr>,
                  shape_type := MS_SHAPE_POINT\<rparr>, True, [])
        })"

text \<open>The record by the type of the file; other types give an empty shape.\<close>

definition read_record ::
  "bool \<Rightarrow> int \<Rightarrow> int \<Rightarrow> byte list \<Rightarrow> int \<Rightarrow> (shapeObj \<times> int \<times> report list) option" where
  "read_record bBigEndian ty hEntity pabyRec partMax =
     (let fin = (\<lambda>(shape, ok). if ok then shape\<lparr>index := hEntity\<rparr> else shape) in
      if poly_type ty then
        map_option (\<lambda>(shape, ok, partMax', errs). (fin (shape, ok), partMax', errs)) (read_poly bBigEndian ty pabyRec partMax)
      else if multi_type ty then
        map_option (\<lambda>(shape, ok, errs). (fin (shape, ok), partMax, errs)) (read_multi bBigEndian ty pabyRec)
      else if point_type ty then
        map_option (\<lambda>(shape, ok, errs). (fin (shape, ok), partMax, errs)) (read_single bBigEndian ty pabyRec)
      else Some (msInitShape\<lparr>index := hEntity\<rparr>, partMax, []))"

definition msSHPReadShape ::
  "('f, 'z) vsi_scheme \<Rightarrow> bool \<Rightarrow> 'f SHPInfo \<Rightarrow> int \<Rightarrow> (shapeObj \<times> 'f SHPInfo \<times> report list) option" where
  "msSHPReadShape ops bBigEndian psSHP hEntity =
     (if hEntity < 0 \<or> nRecords psSHP \<le> hEntity then Some (msInitShape, psSHP, [])
      else
        (case msSHXReadSize ops bBigEndian psSHP hEntity of
           (siz, h1, e1) \<Rightarrow>
             if siz < 4 \<or> siz > 2147483647 - 8 then Some (msInitShape, h1, e1 @ [corrupt_feature])
             else if siz + 8 = 12 then Some (msInitShape, h1, e1)
             else
               (case msSHPReadAllocateBuffer ops bBigEndian h1 hEntity ''msSHPReadShape()'' of
                  (False, h2, e2) \<Rightarrow> Some (msInitShape, h2, e1 @ e2)
                | (True, h2, e2) \<Rightarrow>
                    (case msSHXReadOffset ops bBigEndian h2 hEntity of
                       (offset, h3, e3) \<Rightarrow>
                         (let es = e1 @ e2 @ e3;
                              seek_err = [Report MS_IOERR ''failed to seek offset'' ''msSHPReadShape()''] in
                          if offset \<le> 0 then Some (msInitShape, h3, es @ seek_err)
                          else
                            (case VSIFSeekL ops (fpSHP h3) (nat offset) of
                               (False, f) \<Rightarrow> Some (msInitShape, h3\<lparr>fpSHP := f\<rparr>, es @ seek_err)
                             | (True, f) \<Rightarrow>
                                 (case vread1 ops f (nat (siz + 8)) of
                                    (None, f') \<Rightarrow> Some (msInitShape, h3\<lparr>fpSHP := f'\<rparr>,
                                       es @ [Report MS_IOERR ''failed to fread record'' ''msSHPReadPoint()''])
                                  | (Some rec, f') \<Rightarrow>
                                      map_option (\<lambda>(shape, partMax, errs).
                                          (shape, h3\<lparr>fpSHP := f', nPartMax := partMax\<rparr>, es @ errs))
                                        (read_record bBigEndian (nShapeType h3) hEntity rec (nPartMax h3)))))))))"

section \<open>The reader stays inside the record\<close>

lemma peek_Some: "k + n \<le> length r \<Longrightarrow> peek k n r = Some (take n (drop k r))"
  by (simp add: peek_def)

lemma peek_fields:
  "k + 4 \<le> length r \<Longrightarrow> \<exists>i. peek_int be k r = Some i"
  "k + 8 \<le> length r \<Longrightarrow> \<exists>d. peek_double be k r = Some d"
  "k + 32 \<le> length r \<Longrightarrow> \<exists>b. ReadRect be k r = Some b"
  by (simp_all add: peek_int_def peek_double_def ReadRect_def peek_Some)

lemma those_Some: "(\<And>x. x \<in> set xs \<Longrightarrow> \<exists>y. f x = Some y) \<Longrightarrow> \<exists>ys. those (map f xs) = Some ys \<and> length ys = length xs"
proof (induction xs)
  case (Cons x xs)
  then obtain y ys where "f x = Some y" "those (map f xs) = Some ys" "length ys = length xs"
    by (metis list.set_intros)
  then show ?case by simp
qed simp

lemma read_vertex_inside:
  assumes "k + 16 \<le> length r" and "\<And>p. z = Some p \<or> m = Some p \<Longrightarrow> p + 8 \<le> length r"
  shows "\<exists>v. read_vertex be r k z m = Some v"
proof -
  have f: "k + 8 \<le> length r" "k + 8 + 8 \<le> length r" using assms(1) by auto
  obtain x y where x: "peek_double be k r = Some x" "peek_double be (k + 8) r = Some y"
    using peek_fields(2) [OF f(1)] peek_fields(2) [OF f(2)] by blast
  have extra: "\<exists>d. (case q of None \<Rightarrow> Some 0 | Some p \<Rightarrow> peek_double be p r) = Some d"
    if "\<And>p. q = Some p \<Longrightarrow> p + 8 \<le> length r" for q
    using that peek_fields(2) by (cases q) auto
  obtain zz where z: "(case z of None \<Rightarrow> Some 0 | Some p \<Rightarrow> peek_double be p r) = Some zz" using extra [of z] assms(2) by blast
  obtain mm where m: "(case m of None \<Rightarrow> Some 0 | Some p \<Rightarrow> peek_double be p r) = Some mm" using extra [of m] assms(2) by blast
  show ?thesis unfolding read_vertex_def x z m by simp
qed

lemma poly_vertex_inside:
  assumes "44 + 8 + 4 * nParts + 16 * nPoints \<le> length r" and "k < nPoints"
  shows "\<exists>v. poly_vertex be ty r nParts nPoints k = Some v"
  unfolding poly_vertex_def Let_def
  by (rule read_vertex_inside) (use assms in \<open>auto split: if_splits\<close>)

text \<open>
  What the reader promises of a shape: either it is the null shape without lines, or it was decoded
  to the end, has the index that was asked for and the type and lines of its file.
\<close>

definition decoded :: "int \<Rightarrow> shapeObj \<Rightarrow> bool" where
  "decoded ty shape \<longleftrightarrow>
     (if poly_type ty then
        shape_type shape = (if ty = SHP_POLYGON \<or> ty = SHP_POLYGONZ \<or> ty = SHP_POLYGONM then MS_SHAPE_POLYGON else MS_SHAPE_LINE)
        \<and> [] \<notin> set (line shape) \<and> length (concat (line shape)) \<le> 50000000
      else if multi_type ty then
        shape_type shape = MS_SHAPE_POINT \<and> length (line shape) = 1 \<and> length (concat (line shape)) \<le> 50000000
      else point_type ty \<and> shape_type shape = MS_SHAPE_POINT \<and> map length (line shape) = [1])"

definition no_geometry :: "shapeObj \<Rightarrow> bool" where
  "no_geometry shape \<longleftrightarrow> shape_type shape = MS_SHAPE_NULL \<and> line shape = []"

lemma no_geometry_init [simp]: "no_geometry msInitShape" "no_geometry (msInitShape\<lparr>bounds := r\<rparr>)"
  "no_geometry (msInitShape\<lparr>index := i\<rparr>)"
  by (simp_all add: no_geometry_def msInitShape_def Let_def)

text \<open>
  The parts are taken in order, each starts where the one before it ends, and the last ends at
  \<open>nPoints\<close>: so the counter \<open>k\<close> cannot pass the start of the next part.
\<close>

lemma read_parts_inside:
  assumes "44 + 8 + 4 * nParts + 16 * nPoints \<le> length r"
  shows "(ps \<noteq> [] \<Longrightarrow> 0 \<le> hd ps \<Longrightarrow> int k \<le> hd ps) \<Longrightarrow> k \<le> nPoints \<Longrightarrow>
    \<exists>res. read_parts be ty r nParts nPoints k ps = Some res
      \<and> (\<forall>ls. res = Inr ls \<longrightarrow> [] \<notin> set ls \<and> k + length (concat ls) \<le> nPoints)"
proof (induction ps arbitrary: k)
  case (Cons s ps)
  define e where "e = (case ps of [] \<Rightarrow> int nPoints | e # _ \<Rightarrow> e)"
  show ?case
  proof (cases "s < 0 \<or> e < 0 \<or> e > int nPoints \<or> s \<ge> e")
    case True
    then show ?thesis by (simp add: e_def [symmetric])
  next
    case False
    define n where "n = nat (e - s)"
    have kn: "int (k + n) \<le> e" and n: "0 < n" using Cons.prems False by (simp_all add: n_def)
    then have kn': "k + n \<le> nPoints" using False by simp
    have "\<exists>ys. those (map (poly_vertex be ty r nParts nPoints) [k..<k + n]) = Some ys \<and> length ys = length [k..<k + n]"
      by (rule those_Some, rule poly_vertex_inside [OF assms]) (use kn' in auto)
    then obtain ys where ys: "those (map (poly_vertex be ty r nParts nPoints) [k..<k + n]) = Some ys" "length ys = n" by auto
    have "\<exists>res. read_parts be ty r nParts nPoints (k + n) ps = Some res
        \<and> (\<forall>ls. res = Inr ls \<longrightarrow> [] \<notin> set ls \<and> k + n + length (concat ls) \<le> nPoints)"
      by (rule Cons.IH) (use kn kn' in \<open>auto simp: e_def split: list.splits\<close>)
    then obtain res where res: "read_parts be ty r nParts nPoints (k + n) ps = Some res"
      "\<forall>ls. res = Inr ls \<longrightarrow> [] \<notin> set ls \<and> k + n + length (concat ls) \<le> nPoints" by blast
    show ?thesis using False ys res n
      by (cases res) (auto simp: e_def [symmetric] n_def [symmetric] Let_def)
  qed
qed simp

definition outcome :: "int \<Rightarrow> shapeObj \<Rightarrow> bool \<Rightarrow> bool" where
  "outcome ty shape ok \<longleftrightarrow> (if ok then decoded ty shape else no_geometry shape)"

lemma read_poly_inside:
  assumes "poly_type ty"
  shows "\<exists>shape ok pmax' errs. read_poly be ty r pmax = Some (shape, ok, pmax', errs) \<and> outcome ty shape ok"
proof (cases "length r < 52")
  case True
  then show ?thesis by (auto simp: read_poly_def outcome_def)
next
  case False
  then have l: "12 + 32 \<le> length r" "48 + 4 \<le> length r" "44 + 4 \<le> length r" by simp_all
  obtain b n p where r: "ReadRect be 12 r = Some b" "peek_int be 48 r = Some n" "peek_int be 44 r = Some p"
    using peek_fields(3) [OF l(1), of be] peek_fields(1) [OF l(2), of be] peek_fields(1) [OF l(3), of be] by blast
  show ?thesis
  proof (cases "n < 0 \<or> p < 0 \<or> n > 50000000 \<or> p > 10000000 \<or> max pmax p = 0 \<or> 44 + 8 + 4 * p + 16 * n > int (length r)")
    case True
    then show ?thesis using False r by (auto simp: read_poly_def Let_def outcome_def)
  next
    case fits: False
    then have len: "44 + 8 + 4 * nat p + 16 * nat n \<le> length r" by linarith
    have "\<exists>ys. those (map (\<lambda>i. peek_int be (44 + 8 + 4 * i) r) [0..<nat p]) = Some ys \<and> length ys = length [0..<nat p]"
      by (rule those_Some, rule peek_fields(1)) (use len in auto)
    then obtain ys where ys: "those (map (\<lambda>i. peek_int be (44 + 8 + 4 * i) r) [0..<nat p]) = Some ys" by blast
    obtain res where res: "read_parts be ty r (nat p) (nat n) 0 ys = Some res"
      "\<And>ls. res = Inr ls \<Longrightarrow> [] \<notin> set ls \<and> length (concat ls) \<le> nat n"
      using read_parts_inside [OF len, of ys 0 be ty] by auto
    show ?thesis
    proof (cases res)
      case (Inl e)
      then show ?thesis using False fits r ys res(1) by (auto simp: read_poly_def Let_def outcome_def)
    next
      case (Inr ls)
      have "length (concat ls) \<le> 50000000" using res(2) [OF Inr] fits by linarith
      then show ?thesis using False fits r ys res(1) res(2) [OF Inr] Inr assms
        by (auto simp: read_poly_def Let_def outcome_def decoded_def)
    qed
  qed
qed

lemma read_multi_inside:
  assumes "multi_type ty"
  shows "\<exists>shape ok errs. read_multi be ty r = Some (shape, ok, errs) \<and> outcome ty shape ok"
proof (cases "length r < 48")
  case True
  then show ?thesis by (auto simp: read_multi_def outcome_def)
next
  case False
  then have l: "12 + 32 \<le> length r" "44 + 4 \<le> length r" by simp_all
  obtain b n where r: "ReadRect be 12 r = Some b" "peek_int be 44 r = Some n"
    using peek_fields(3) [OF l(1), of be] peek_fields(1) [OF l(2), of be] by blast
  define need where "need = 48 + n * 16 + (if ty = 18 \<or> ty = 28 then 16 + n * 8 else 0)"
  show ?thesis
  proof (cases "n < 0 \<or> n > 50000000 \<or> need > int (length r)")
    case True
    then show ?thesis using False r by (auto simp: read_multi_def Let_def need_def outcome_def)
  next
    case fits: False
    define f where "f = (\<lambda>i. read_vertex be r (48 + 16 * i)
        (if ty = 18 then Some (48 + 16 * nat n + 16 + i * 8) else None)
        (if ty = 28 then Some (48 + 16 * nat n + 16 + i * 8) else None))"
    have "\<exists>ys. those (map f [0..<nat n]) = Some ys \<and> length ys = length [0..<nat n]"
      unfolding f_def
      by (rule those_Some, rule read_vertex_inside) (use fits in \<open>auto simp: need_def split: if_splits\<close>)
    then obtain ys where ys: "those (map f [0..<nat n]) = Some ys" "length ys = nat n" by auto
    have "read_multi be ty r = Some (msInitShape\<lparr>bounds := b, line := [ys], shape_type := MS_SHAPE_POINT\<rparr>, True, [])"
      using False fits r ys(1) by (simp add: read_multi_def Let_def need_def f_def split del: if_split)
    moreover have "length ys \<le> 50000000" using ys(2) fits by linarith
    ultimately show ?thesis using assms by (auto simp: outcome_def decoded_def multi_type_def poly_type_def)
  qed
qed

lemma read_single_inside:
  assumes "point_type ty"
  shows "\<exists>shape ok errs. read_single be ty r = Some (shape, ok, errs) \<and> outcome ty shape ok"
proof (cases "length r < 28")
  case True
  then show ?thesis by (auto simp: read_single_def outcome_def)
next
  case False
  define e where "e = (if 20 + 8 + 8 \<le> length r then Some (20 + 8 :: nat) else None)"
  have "\<exists>v. read_vertex be r 12 (if ty = 11 then e else None) (if ty = 21 then e else None) = Some v"
    using False by (intro read_vertex_inside) (auto simp: e_def split: if_splits)
  then obtain v where v: "read_vertex be r 12 (if ty = 11 then e else None) (if ty = 21 then e else None) = Some v" by blast
  have "\<not> length r < 20 + 8" using False by simp
  then have "read_single be ty r = Some (msInitShape\<lparr>line := [[v]], bounds := \<lparr>minx = px v, miny = py v, maxx = px v, maxy = py v\<rparr>,
      shape_type := MS_SHAPE_POINT\<rparr>, True, [])"
    unfolding read_single_def Let_def e_def [symmetric] v by simp
  then show ?thesis using assms by (auto simp: outcome_def decoded_def multi_type_def poly_type_def point_type_def)
qed

text \<open>Whatever the bytes of a record are, decoding it reads none outside it.\<close>

definition shape_result :: "int \<Rightarrow> int \<Rightarrow> shapeObj \<Rightarrow> bool" where
  "shape_result ty i shape \<longleftrightarrow> no_geometry shape \<or> decoded ty shape \<and> index shape = i"

lemma decoded_index [simp]: "decoded ty (shape\<lparr>index := i\<rparr>) = decoded ty shape"
  by (simp add: decoded_def)

lemma read_record_inside:
  "\<exists>shape pmax' errs. read_record be ty i r pmax = Some (shape, pmax', errs) \<and> shape_result ty i shape"
proof -
  consider "poly_type ty" | "\<not> poly_type ty" "multi_type ty" | "\<not> poly_type ty" "\<not> multi_type ty" "point_type ty"
    | "\<not> poly_type ty" "\<not> multi_type ty" "\<not> point_type ty" by blast
  then show ?thesis
  proof cases
    case 1
    then obtain shape ok pmax' errs where "read_poly be ty r pmax = Some (shape, ok, pmax', errs)" "outcome ty shape ok"
      using read_poly_inside by blast
    then show ?thesis using 1 by (cases ok) (simp_all add: read_record_def outcome_def shape_result_def)
  next
    case 2
    then obtain shape ok errs where "read_multi be ty r = Some (shape, ok, errs)" "outcome ty shape ok"
      using read_multi_inside by blast
    then show ?thesis using 2 by (cases ok) (simp_all add: read_record_def outcome_def shape_result_def)
  next
    case 3
    then obtain shape ok errs where "read_single be ty r = Some (shape, ok, errs)" "outcome ty shape ok"
      using read_single_inside by blast
    then show ?thesis using 3 by (cases ok) (simp_all add: read_record_def outcome_def shape_result_def)
  next
    case 4
    then show ?thesis by (simp add: read_record_def shape_result_def)
  qed
qed

section \<open>Reading a record of a file\<close>

text \<open>What the bytes of the \<^verbatim>\<open>.shp\<close> file hold for a record at \<open>off\<close> with a content of \<open>siz\<close> bytes.\<close>

definition record_bytes :: "byte list \<Rightarrow> nat \<Rightarrow> nat \<Rightarrow> byte list option" where
  "record_bytes c off siz = (if off + siz + 8 \<le> length c then Some (take (siz + 8) (drop off c)) else None)"

context posix_vsi
begin

lemma read_shape_entry:
  assumes i: "0 \<le> i" "i < nRecords h"
    and 1: "msSHXReadSize ops be h i = (siz, h1, e1)"
    and 2: "msSHPReadAllocateBuffer ops be h1 i ''msSHPReadShape()'' = (True, h2, e2)"
    and 3: "msSHXReadOffset ops be h2 i = (off, h3, e3)"
    and siz: "4 < siz" "siz \<le> 2147483639" and off: "0 < off"
  shows "\<exists>f. bytes f = bytes (fpSHP h3) \<and> msSHPReadShape ops be h i =
    (case record_bytes (bytes (fpSHP h3)) (nat off) (nat siz) of
       None \<Rightarrow> Some (msInitShape, h3\<lparr>fpSHP := f\<rparr>, e1 @ e2 @ e3 @ [Report MS_IOERR ''failed to fread record'' ''msSHPReadPoint()''])
     | Some r \<Rightarrow> map_option (\<lambda>(shape, pmax, errs). (shape, h3\<lparr>fpSHP := f, nPartMax := pmax\<rparr>, e1 @ e2 @ e3 @ errs))
                 (read_record be (nShapeType h3) i r (nPartMax h3)))"
proof -
  obtain b f1 where s: "VSIFSeekL ops (fpSHP h3) (nat off) = (b, f1)" by fastforce
  have n: "nat (siz + 8) = nat siz + 8" "0 < nat (siz + 8)" using siz by linarith+
  obtain f2 where r: "b" "bytes f2 = bytes (fpSHP h3)"
    "vread1 ops f1 (nat (siz + 8)) = (record_bytes (bytes (fpSHP h3)) (nat off) (nat siz), f2)"
    using vread1_at [OF s n(2)] unfolding n(1) record_bytes_def by (auto simp: add.assoc)
  have pre: "\<not> (i < 0 \<or> nRecords h \<le> i)" "\<not> (siz < 4 \<or> siz > 2147483647 - 8)" "siz + 8 \<noteq> 12" "\<not> off \<le> 0"
    using i siz off by auto
  show ?thesis
    unfolding msSHPReadShape_def if_not_P [OF pre(1)] 1 prod.case if_not_P [OF pre(2)] if_not_P [OF pre(3)]
      2 bool.case 3 Let_def if_not_P [OF pre(4)] s r(3)
    using r(1,2) by (cases "record_bytes (bytes (fpSHP h3)) (nat off) (nat siz)") (auto intro!: exI [of _ f2])
qed

text \<open>The reader keeps the two files and the index, and its result is well-formed.\<close>

lemma shx_inv_parts [simp]: "shx_inv be bytes (h\<lparr>nPartMax := k\<rparr>) = shx_inv be bytes h"
  "same_file bytes h0 (h\<lparr>nPartMax := k\<rparr>) = same_file bytes h0 h"
  by (simp_all add: shx_inv_def shx_known_def same_file_def)

lemma msSHPReadShape_safe:
  assumes inv: "shx_inv be bytes h"
  shows "\<exists>shape h' errs. msSHPReadShape ops be h i = Some (shape, h', errs) \<and> shape_result (nShapeType h) i shape \<and> kept be h h'"
proof -
  have null: "shape_result (nShapeType h) i msInitShape" by (simp add: shape_result_def)
  obtain siz h1 e1 where 1: "msSHXReadSize ops be h i = (siz, h1, e1)" by (cases "msSHXReadSize ops be h i")
  have k1: "kept be h h1" by (rule kept_SHX(2) [OF inv 1])
  obtain b h2 e2 where 2: "msSHPReadAllocateBuffer ops be h1 i ''msSHPReadShape()'' = (b, h2, e2)"
    by (cases "msSHPReadAllocateBuffer ops be h1 i ''msSHPReadShape()''")
  have k2: "kept be h h2" using k1 kept_buffer [OF _ 2] kept_trans by (auto simp: kept_def)
  obtain off h3 e3 where 3: "msSHXReadOffset ops be h2 i = (off, h3, e3)" by (cases "msSHXReadOffset ops be h2 i")
  have k3: "kept be h h3" using k2 kept_SHX(1) [OF _ 3] kept_trans by (auto simp: kept_def)
  show ?thesis
  proof (cases "0 \<le> i \<and> i < nRecords h \<and> 4 < siz \<and> siz \<le> 2147483639 \<and> b \<and> 0 < off")
    case True
    then obtain f where f: "bytes f = bytes (fpSHP h3)" "msSHPReadShape ops be h i =
      (case record_bytes (bytes (fpSHP h3)) (nat off) (nat siz) of
         None \<Rightarrow> Some (msInitShape, h3\<lparr>fpSHP := f\<rparr>, e1 @ e2 @ e3 @ [Report MS_IOERR ''failed to fread record'' ''msSHPReadPoint()''])
       | Some r \<Rightarrow> map_option (\<lambda>(shape, pmax, errs). (shape, h3\<lparr>fpSHP := f, nPartMax := pmax\<rparr>, e1 @ e2 @ e3 @ errs))
                   (read_record be (nShapeType h3) i r (nPartMax h3)))"
      using read_shape_entry [OF _ _ 1 _ 3, of e2] 2 by auto
    have kf: "kept be h (h3\<lparr>fpSHP := f\<rparr>)" using k3 f(1) by (simp add: kept_def same_file_upd)
    show ?thesis
    proof (cases "record_bytes (bytes (fpSHP h3)) (nat off) (nat siz)")
      case None
      then show ?thesis using f(2) null kf by simp
    next
      case (Some r)
      obtain shape pmax errs where "read_record be (nShapeType h3) i r (nPartMax h3) = Some (shape, pmax, errs)"
        "shape_result (nShapeType h3) i shape" using read_record_inside by blast
      then show ?thesis using f(2) Some kf k3 by (auto simp: kept_def same_file_def)
    qed
  next
    case False
    have "\<exists>h' errs. msSHPReadShape ops be h i = Some (msInitShape, h', errs) \<and> (h' = h \<or> h' = h1 \<or> h' = h2 \<or> h' = h3)"
      using False by (cases b) (auto simp: msSHPReadShape_def 1 2 3 Let_def)
    then show ?thesis using null k1 k2 k3 kept_refl [OF inv] by blast
  qed
qed

end

text \<open>Reading several records through one handle.\<close>

fun read_shapes :: "('f, 'z) vsi_scheme \<Rightarrow> bool \<Rightarrow> 'f SHPInfo \<Rightarrow> int list \<Rightarrow> (shapeObj list \<times> 'f SHPInfo) option" where
  "read_shapes ops be h [] = Some ([], h)"
| "read_shapes ops be h (i # is) =
     do {
       (s, h1, _) \<leftarrow> msSHPReadShape ops be h i;
       (ss, h2) \<leftarrow> read_shapes ops be h1 is;
       Some (s # ss, h2)
     }"

context posix_vsi
begin

lemma read_shapes_safe:
  "shx_inv be bytes h \<Longrightarrow> \<exists>ss h'. read_shapes ops be h is = Some (ss, h') \<and> list_all2 (shape_result (nShapeType h)) is ss \<and> kept be h h'"
proof (induction "is" arbitrary: h)
  case Nil
  then show ?case by (simp add: kept_refl)
next
  case (Cons i "is")
  obtain s h1 e where 1: "msSHPReadShape ops be h i = Some (s, h1, e)" "shape_result (nShapeType h) i s" "kept be h h1"
    using msSHPReadShape_safe [OF Cons.prems] by blast
  have ty: "nShapeType h1 = nShapeType h" and inv: "shx_inv be bytes h1" using 1(3) by (auto simp: kept_def same_file_def)
  obtain ss h2 where 2: "read_shapes ops be h1 is = Some (ss, h2)" "list_all2 (shape_result (nShapeType h)) is ss" "kept be h1 h2"
    using Cons.IH [OF inv] ty by auto
  show ?case using 1 2 kept_trans [OF 1(3) 2(3)] by simp
qed

end

text \<open>C16. Reading shapes is memory-safe and total on any pair of files, however corrupt: once the
  handle is open, \<open>msSHPReadShape\<close> decodes any sequence of records without an access outside the
  bytes of a record, and each result is either the null shape without lines, or carries the
  index that was asked for and the type of its file and has at most fifty million vertices: for
  polygons and arcs, parts of which none is empty (there may be no part at all, see
  \<open>empty_polygon_depends\<close>); for a multipoint exactly one line, which may be empty; for a point exactly
  one line of one vertex. The files are left as they were. The file system is any that satisfies
  \<open>posix_vsi\<close>, and freed memory is not tracked.\<close>

theorem read_shape_safe:
  assumes "posix_vsi ops bytes at" and "msSHPOpenVirtualFile ops junk be f1 f2 = (Some h, es)"
  shows "\<exists>ss h'. read_shapes ops be h is = Some (ss, h') \<and> list_all2 (shape_result (nShapeType h)) is ss
    \<and> bytes (fpSHP h') = bytes f1 \<and> bytes (fpSHX h') = bytes f2"
proof -
  note o = posix_vsi.msSHPOpenVirtualFile_inv [OF assms]
  then obtain ss h' where "read_shapes ops be h is = Some (ss, h')" "list_all2 (shape_result (nShapeType h)) is ss"
      "posix_vsi.kept bytes be h h'"
    using posix_vsi.read_shapes_safe [OF assms(1), of be h "is"] by auto
  then show ?thesis using o by (auto simp: posix_vsi.kept_def [OF assms(1)] same_file_def)
qed

theorem read_shape_safe_witness:
  "\<exists>ss h'. read_shapes stdio_vsi False sample_handle [0, 7, -3] = Some (ss, h') \<and> length ss = (3::nat)
    \<and> content (fpSHP h') = shp_sample"
  using read_shape_safe [OF stdio.posix_vsi_axioms sample_open, of "[0, 7, -3]"]
  by (auto dest: list_all2_lengthD)

text \<open>
  A polygon without parts is reported as a lack of memory by a handle that has read no polygon
  with parts before, and accepted by one that has: the array of part starts is still null.
\<close>

definition empty_polygon :: "byte list" where
  "empty_polygon = [0, 0, 0, 1, 0, 0, 0, 22, 5] @ replicate 43 0"

lemma empty_polygon_depends:
  "map_option (\<lambda>(s, _, errs). (shape_type s, errs)) (read_record False 5 0 empty_polygon 0)
     = Some (MS_SHAPE_NULL, [Report MS_MEMERR ''Out of memory'' ''msSHPReadShape()''])"
  "map_option (\<lambda>(s, _, errs). (shape_type s, errs)) (read_record False 5 0 empty_polygon 1) = Some (MS_SHAPE_POLYGON, [])"
  by code_simp+

end
