(* ===== verification/VsiDisk.thy ===== *)
theory VsiDisk
  imports Vsi
begin

text \<open>
  Opening and closing the files of the virtual file system by name. The locale \<open>disk_vsi\<close> extends
  \<open>writable_vsi\<close> by what the shapefile code relies on when it creates a file, closes it and opens
  it again; a map from names to contents is an instance.
\<close>

section \<open>Files by name\<close>

text \<open>
  Opening and closing. An open file has a name; closing it leaves its bytes on the disk. A file
  that exists can be opened for reading or updating; one that is opened for writing is empty.
\<close>

record ('f, 'fs) vsi_disk =
  VSIFOpenL :: "'fs \<Rightarrow> string \<Rightarrow> string \<Rightarrow> 'f option \<times> 'fs"
  VSIFCloseL :: "'fs \<Rightarrow> 'f \<Rightarrow> 'fs"

locale disk_vsi = writable_vsi ops bytes at for ops :: "'f vsi_rw" and bytes :: "'f \<Rightarrow> byte list" and at :: "'f \<Rightarrow> nat" +
  fixes dsk :: "('f, 'fs) vsi_disk" and disk :: "'fs \<Rightarrow> string \<Rightarrow> byte list option" and name_of :: "'f \<Rightarrow> string"
  assumes open_old: "mode = ''rb'' \<or> mode = ''r+b'' \<Longrightarrow> disk fs n = Some c \<Longrightarrow>
      \<exists>f. VSIFOpenL dsk fs n mode = (Some f, fs) \<and> bytes f = c \<and> at f = 0 \<and> name_of f = n"
    and open_new: "VSIFOpenL dsk fs n ''wb'' = (Some f, fs') \<Longrightarrow>
      bytes f = [] \<and> at f = 0 \<and> name_of f = n \<and> disk fs' = (disk fs)(n \<mapsto> [])"
    and close_file: "disk (VSIFCloseL dsk fs f) = (disk fs)(name_of f \<mapsto> bytes f)"
    and keep_name: "name_of (VSIFWriteL ops f bs) = name_of f" "name_of (snd (VSIFSeekL ops f s)) = name_of f"
      "name_of (snd (snd (VSIFReadL ops f s k))) = name_of f"

record named_file = cfile +
  file_name :: string

text \<open>A disk as a map from names to contents, with room and without protection.\<close>

definition map_disk :: "(named_file, string \<rightharpoonup> byte list) vsi_disk" where
  "map_disk =
     \<lparr>VSIFOpenL = (\<lambda>fs n mode.
        if mode = ''wb'' then (Some \<lparr>content = [], pos = 0, file_name = n\<rparr>, fs(n \<mapsto> []))
        else (map_option (\<lambda>c. \<lparr>content = c, pos = 0, file_name = n\<rparr>) (fs n), fs)),
      VSIFCloseL = (\<lambda>fs f. fs(file_name f \<mapsto> content f))\<rparr>"

interpretation map_disk: disk_vsi stdio_rw content pos map_disk id file_name
  by unfold_locales (auto simp: map_disk_def stdio_rw_def stdio_vsi_def Let_def)

end
