(* ===== verification/ShapeWrite.thy ===== *)
theory ShapeWrite
  imports ShapeGeom VsiDisk
begin

text \<open>
  \<^verbatim>\<open>mapshape.c\<close>, the writing side: creating a shapefile, appending points and shapes, and writing the
  headers and the index when it is closed. A record is built in a buffer from \<open>malloc\<close>, whose
  contents are the argument \<open>fresh\<close>; an access outside the buffer or outside the arrays of a shape is
  \<open>None\<close>. The sizes, offsets and counters of a record and the size of the file are 32-bit ints in the
  code: a computation that leaves their range is \<open>None\<close> as well (\<open>c_int\<close>). The number of records is
  not bounded here; each takes at least 28 bytes of the file.
\<close>

section \<open>Writing into a record\<close>

definition poke :: "nat \<Rightarrow> byte list \<Rightarrow> byte list \<Rightarrow> byte list option" where
  "poke k bs pabyRec = (if k + length bs \<le> length pabyRec then Some (put_range k bs pabyRec) else None)"

text \<open>The result of a computation on non-negative ints; a signed overflow is undefined.\<close>

definition c_int :: "nat \<Rightarrow> nat option" where
  "c_int n = (if int n < 2147483648 then Some n else None)"

definition poke_int :: "bool \<Rightarrow> nat \<Rightarrow> int \<Rightarrow> byte list \<Rightarrow> byte list option" where
  "poke_int bBigEndian k i = poke k (put4 bBigEndian bBigEndian (word_of_int i))"

definition poke_double :: "bool \<Rightarrow> nat \<Rightarrow> f64 \<Rightarrow> byte list \<Rightarrow> byte list option" where
  "poke_double bBigEndian k d = poke k (put8 bBigEndian bBigEndian d)"

text \<open>\<open>shape->line[0].point[0]\<close> and the last point of the last line.\<close>

definition first_vertex :: "lineObj list \<Rightarrow> vertexObj option" where
  "first_vertex ls = (case ls of (v # _) # _ \<Rightarrow> Some v | _ \<Rightarrow> None)"

definition last_vertex :: "lineObj list \<Rightarrow> vertexObj option" where
  "last_vertex ls = (if ls = [] \<or> last ls = [] then None else Some (last (last ls)))"

definition extend_rect :: "rectObj \<Rightarrow> vertexObj \<Rightarrow> rectObj" where
  "extend_rect r v = \<lparr>minx = ms_min (minx r) (px v), miny = ms_min (miny r) (py v),
     maxx = ms_max (maxx r) (px v), maxy = ms_max (maxy r) (py v)\<rparr>"

definition shape_extent :: "lineObj list \<Rightarrow> rectObj option" where
  "shape_extent ls =
     (if concat ls = [] then Some rect0
      else map_option (\<lambda>v. foldl extend_rect \<lparr>minx = px v, miny = py v, maxx = px v, maxy = py v\<rparr> (concat ls)) (first_vertex ls))"

definition writeBounds :: "bool \<Rightarrow> nat \<Rightarrow> lineObj list \<Rightarrow> byte list \<Rightarrow> byte list option" where
  "writeBounds bBigEndian k ls pabyRec =
     do { r \<leftarrow> shape_extent ls; poke k (put_rect bBigEndian bBigEndian r) pabyRec }"

text \<open>
  The starts of the parts from number \<open>i\<close> on, the coordinates from point \<open>k\<close> on and one value per
  vertex. \<open>base\<close> is the position of the array in the record.
\<close>

fun poke_starts :: "bool \<Rightarrow> nat \<Rightarrow> nat \<Rightarrow> nat \<Rightarrow> lineObj list \<Rightarrow> byte list \<Rightarrow> byte list option" where
  "poke_starts bBigEndian base i partSize (l # l' # ls) pabyRec =
     do {
       next_start \<leftarrow> c_int (partSize + length l);
       offset \<leftarrow> c_int (4 * i);
       r \<leftarrow> poke_int bBigEndian (base + offset) (int next_start) pabyRec;
       poke_starts bBigEndian base (i + 1) next_start (l' # ls) r
     }"
| "poke_starts bBigEndian base i partSize _ pabyRec = Some pabyRec"

fun poke_points :: "bool \<Rightarrow> nat \<Rightarrow> nat \<Rightarrow> lineObj \<Rightarrow> byte list \<Rightarrow> byte list option" where
  "poke_points bBigEndian base k [] pabyRec = Some pabyRec"
| "poke_points bBigEndian base k (v # vs) pabyRec =
     do {
       offset \<leftarrow> c_int (k * 16);
       r \<leftarrow> poke_double bBigEndian (base + offset) (px v) pabyRec;
       r \<leftarrow> poke_double bBigEndian (base + offset + 8) (py v) r;
       poke_points bBigEndian base (k + 1) vs r
     }"

fun poke_values :: "bool \<Rightarrow> nat \<Rightarrow> f64 list \<Rightarrow> byte list \<Rightarrow> (nat \<times> byte list) option" where
  "poke_values bBigEndian nRecordSize [] pabyRec = Some (nRecordSize, pabyRec)"
| "poke_values bBigEndian nRecordSize (d # ds) pabyRec =
     do {
       r \<leftarrow> poke_double bBigEndian nRecordSize d pabyRec;
       nRecordSize \<leftarrow> c_int (nRecordSize + 8);
       poke_values bBigEndian nRecordSize ds r
     }"

text \<open>
  The block of heights or measures from \<open>nRecordSize\<close> on: the value of the first vertex, that of the
  last, and one for each vertex. The result has the position behind it.
\<close>

definition write_extra ::
  "bool \<Rightarrow> (vertexObj \<Rightarrow> f64) \<Rightarrow> nat \<Rightarrow> lineObj list \<Rightarrow> byte list \<Rightarrow> (nat \<times> byte list) option" where
  "write_extra bBigEndian value_of nRecordSize ls pabyRec =
     do {
       v \<leftarrow> first_vertex ls;
       w \<leftarrow> last_vertex ls;
       poke_values bBigEndian nRecordSize (value_of v # value_of w # map value_of (concat ls)) pabyRec
     }"

text \<open>Bounds, numbers, starts of the parts and coordinates of a polygon or an arc.\<close>

definition write_parts :: "bool \<Rightarrow> lineObj list \<Rightarrow> byte list \<Rightarrow> byte list option" where
  "write_parts bBigEndian ls pabyRec =
     do {
       r \<leftarrow> writeBounds bBigEndian 12 ls pabyRec;
       r \<leftarrow> poke_int bBigEndian (40 + 8) (int (length (concat ls))) r;
       r \<leftarrow> poke_int bBigEndian (36 + 8) (int (length ls)) r;
       r \<leftarrow> poke_int bBigEndian (44 + 8) 0 r;
       r \<leftarrow> poke_starts bBigEndian (44 + 8) 1 0 ls r;
       parts \<leftarrow> c_int (4 * length ls);
       poke_points bBigEndian (44 + parts + 8) 0 (concat ls) r
     }"

definition write_poly :: "bool \<Rightarrow> int \<Rightarrow> lineObj list \<Rightarrow> byte list \<Rightarrow> (nat \<times> byte list) option" where
  "write_poly bBigEndian ty ls pabyRec =
     do {
       let nParts = length ls;
       let nPoints = length (concat ls);
       r \<leftarrow> write_parts bBigEndian ls pabyRec;
       nRecordSize \<leftarrow> c_int (44 + 4 * nParts + 16 * nPoints);
       (nRecordSize, r) \<leftarrow>
         (if ty = SHP_POLYGONM \<or> ty = SHP_ARCM then
            do { nRecordSize \<leftarrow> c_int (44 + 4 * nParts + 8 + nPoints * 16); write_extra bBigEndian pm nRecordSize ls r }
          else Some (nRecordSize, r));
       if ty = SHP_POLYGONZ \<or> ty = SHP_ARCZ \<or> ty = SHP_POLYGONM \<or> ty = SHP_ARCM then
         do { nRecordSize \<leftarrow> c_int (44 + 4 * nParts + 8 + nPoints * 16); write_extra bBigEndian pz nRecordSize ls r }
       else Some (nRecordSize, r)
     }"

definition write_multi :: "bool \<Rightarrow> int \<Rightarrow> lineObj list \<Rightarrow> byte list \<Rightarrow> (nat \<times> byte list) option" where
  "write_multi bBigEndian ty ls pabyRec =
     do {
       let nPoints = length (concat ls);
       r \<leftarrow> writeBounds bBigEndian 12 ls pabyRec;
       r \<leftarrow> poke_int bBigEndian 44 (int nPoints) r;
       l \<leftarrow> (case ls of [] \<Rightarrow> None | l # _ \<Rightarrow> Some l);
       r \<leftarrow> poke_points bBigEndian 48 0 l r;
       nRecordSize \<leftarrow> c_int (40 + 16 * nPoints);
       (nRecordSize, r) \<leftarrow>
         (if ty = SHP_MULTIPOINTM then write_extra bBigEndian pm nRecordSize [l] r else Some (nRecordSize, r));
       if ty = SHP_MULTIPOINTZ then write_extra bBigEndian pz nRecordSize [l] r else Some (nRecordSize, r)
     }"

definition write_single :: "bool \<Rightarrow> int \<Rightarrow> lineObj list \<Rightarrow> byte list \<Rightarrow> (nat \<times> byte list) option" where
  "write_single bBigEndian ty ls pabyRec =
     do {
       v \<leftarrow> first_vertex ls;
       r \<leftarrow> poke_double bBigEndian 12 (px v) pabyRec;
       r \<leftarrow> poke_double bBigEndian 20 (py v) r;
       let nRecordSize = 20;
       (nRecordSize, r) \<leftarrow>
         (if ty = SHP_POINTM then map_option (Pair (nRecordSize + 8)) (poke_double bBigEndian nRecordSize (pm v) r)
          else Some (nRecordSize, r));
       if ty = SHP_POINTZ then map_option (Pair (nRecordSize + 8)) (poke_double bBigEndian nRecordSize (pz v) r)
       else Some (nRecordSize, r)
     }"

text \<open>The type to store, the size of the record and its bytes without the first twelve.\<close>

definition write_geometry :: "bool \<Rightarrow> int \<Rightarrow> shapeObj \<Rightarrow> byte list \<Rightarrow> (int \<times> nat \<times> byte list) option" where
  "write_geometry bBigEndian ty shape pabyRec =
     (if shape_type shape = MS_SHAPE_NULL then Some (0, 12, pabyRec)
      else
        map_option (Pair ty)
          (if poly_type ty then write_poly bBigEndian ty (line shape) pabyRec
           else if multi_type ty then write_multi bBigEndian ty (line shape) pabyRec
           else if point_type ty then write_single bBigEndian ty (line shape) pabyRec
           else Some (0, pabyRec)))"

text \<open>The number of the record, half its size and its type, and the bytes that are written.\<close>

definition finish_record :: "bool \<Rightarrow> int \<Rightarrow> int \<Rightarrow> nat \<Rightarrow> byte list \<Rightarrow> byte list option" where
  "finish_record bBigEndian number ty nRecordSize pabyRec =
     do {
       r \<leftarrow> poke 0 (put4 bBigEndian (\<not> bBigEndian) (word_of_int number)) pabyRec;
       r \<leftarrow> poke 4 (put4 bBigEndian (\<not> bBigEndian) (word_of_int (int nRecordSize div 2))) r;
       r \<leftarrow> poke_int bBigEndian 8 ty r;
       size \<leftarrow> c_int (nRecordSize + 8);
       peek 0 size r
     }"

section \<open>Appending to the file\<close>

text \<open>
  The arrays of the index grow by three tenths and a hundred. The C code computes the new length in
  floating point and truncates it, which gives the same number.
\<close>

definition new_entity :: "(nat \<Rightarrow> int) \<Rightarrow> 'f SHPInfo \<Rightarrow> 'f SHPInfo" where
  "new_entity junk h =
     (let n = nRecords h + 1;
          mx = (if n > nMaxRecords h then nMaxRecords h * 13 div 10 + 100 else nMaxRecords h);
          grow = (\<lambda>xs. xs @ map junk [length xs..<nat mx]) in
      h\<lparr>nRecords := n, nMaxRecords := mx, panRecOffset := grow (panRecOffset h), panRecSize := grow (panRecSize h)\<rparr>)"

text \<open>The handle once the index is in memory and has an entry for the new record.\<close>

definition start_record :: "'f vsi_rw \<Rightarrow> (nat \<Rightarrow> int) \<Rightarrow> bool \<Rightarrow> 'f SHPInfo \<Rightarrow> 'f SHPInfo \<times> report list" where
  "start_record ops junk bBigEndian h =
     (let h1 = h\<lparr>bUpdated := True\<rparr>;
          (h2, errs) = (if panRecAllLoaded h1 then (h1, []) else snd (msSHXLoadAll ops bBigEndian h1));
          h3 = new_entity junk h2 in
      (h3\<lparr>panRecOffset := (panRecOffset h3)[nat (nRecords h3 - 1) := nFileSize h3]\<rparr>, errs))"

definition store_record :: "'f vsi_rw \<Rightarrow> 'f SHPInfo \<Rightarrow> nat \<Rightarrow> byte list \<Rightarrow> bool \<times> 'f SHPInfo" where
  "store_record ops h nRecordSize bs =
     (case VSIFSeekL ops (fpSHP h) (nat (nFileSize h)) of
        (True, f) \<Rightarrow>
          (True, h\<lparr>fpSHP := VSIFWriteL ops f bs,
                   panRecSize := (panRecSize h)[nat (nRecords h - 1) := int nRecordSize],
                   nFileSize := nFileSize h + int nRecordSize + 8\<rparr>)
      | (False, f) \<Rightarrow> (False, h\<lparr>fpSHP := f, nRecords := nRecords h - 1\<rparr>))"

definition extend_bounds :: "'f SHPInfo \<Rightarrow> vertexObj \<Rightarrow> 'f SHPInfo" where
  "extend_bounds h v =
     (let c = [px v, py v, pz v, pm v] in
      h\<lparr>adBoundsMin := map2 ms_min (adBoundsMin h) c, adBoundsMax := map2 ms_max (adBoundsMax h) c\<rparr>)"

definition file_bounds_with :: "'f SHPInfo \<Rightarrow> lineObj list \<Rightarrow> 'f SHPInfo option" where
  "file_bounds_with h ls =
     do {
       h \<leftarrow> (if nRecords h = 1 then
                map_option (\<lambda>v. let c = [px v, py v, pz v, pm v] in h\<lparr>adBoundsMin := c, adBoundsMax := c\<rparr>) (first_vertex ls)
              else Some h);
       Some (foldl extend_bounds h (concat ls))
     }"

text \<open>The size that the buffer of a record is given: the number of vertices is summed up in an int.\<close>

definition alloc_size_of :: "lineObj list \<Rightarrow> nat option" where
  "alloc_size_of ls =
     do {
       nPoints \<leftarrow> c_int (length (concat ls));
       nParts \<leftarrow> c_int (length ls);
       quads \<leftarrow> c_int (nPoints * 4);
       parts \<leftarrow> c_int (nParts * 8);
       Some (quads * 8 + parts + 128)
     }"

definition msSHPWriteShape ::
  "'f vsi_rw \<Rightarrow> (nat \<Rightarrow> int) \<Rightarrow> (nat \<Rightarrow> byte) \<Rightarrow> bool \<Rightarrow> 'f SHPInfo \<Rightarrow> shapeObj \<Rightarrow> (int \<times> 'f SHPInfo \<times> report list) option" where
  "msSHPWriteShape ops junk fresh bBigEndian psSHP shape =
     (if nFileSize psSHP = 0 then Some (-1, psSHP, [])
      else
        (case start_record ops junk bBigEndian psSHP of (h1, errs) \<Rightarrow>
          do {
            size \<leftarrow> alloc_size_of (line shape);
            let buf = map fresh [0..<size];
            (ty, nRecordSize, r) \<leftarrow> write_geometry bBigEndian (nShapeType h1) shape buf;
            bs \<leftarrow> finish_record bBigEndian (nRecords h1) ty nRecordSize r;
            let (ok, h2) = store_record ops h1 nRecordSize bs;
            _ \<leftarrow> c_int (nat (nFileSize h2));
            h3 \<leftarrow> (if ok then file_bounds_with h2 (line shape) else Some h2);
            Some (nRecords h3 - 1, h3, errs)
          }))"

text \<open>\<open>msSHPWritePoint\<close> keeps the bounds of the plane only.\<close>

definition point_bounds :: "'f SHPInfo \<Rightarrow> pointObj \<Rightarrow> 'f SHPInfo" where
  "point_bounds h p =
     (let lo = adBoundsMin h; hi = adBoundsMax h in
      if nRecords h = 1 then
        h\<lparr>adBoundsMin := lo[0 := px p, 1 := py p], adBoundsMax := hi[0 := px p, 1 := py p]\<rparr>
      else
        h\<lparr>adBoundsMin := lo[0 := ms_min (lo ! 0) (px p), 1 := ms_min (lo ! 1) (py p)],
          adBoundsMax := hi[0 := ms_max (hi ! 0) (px p), 1 := ms_max (hi ! 1) (py p)]\<rparr>)"

definition msSHPWritePoint ::
  "'f vsi_rw \<Rightarrow> (nat \<Rightarrow> int) \<Rightarrow> (nat \<Rightarrow> byte) \<Rightarrow> bool \<Rightarrow> 'f SHPInfo \<Rightarrow> pointObj \<Rightarrow> (int \<times> 'f SHPInfo \<times> report list) option" where
  "msSHPWritePoint ops junk fresh bBigEndian psSHP point =
     (if nShapeType psSHP \<noteq> SHP_POINT then Some (-1, psSHP, [])
      else if nFileSize psSHP = 0 then Some (-1, psSHP, [])
      else
        (case start_record ops junk bBigEndian psSHP of (h1, errs) \<Rightarrow>
          do {
            let buf = map fresh [0..<1 * 2 * 8 + 1 * 4 + 128];
            r \<leftarrow> poke_double bBigEndian 12 (px point) buf;
            r \<leftarrow> poke_double bBigEndian 20 (py point) r;
            bs \<leftarrow> finish_record bBigEndian (nRecords h1) (nShapeType h1) 20 r;
            let (ok, h2) = store_record ops h1 20 bs;
            _ \<leftarrow> c_int (nat (nFileSize h2));
            let h3 = (if ok then point_bounds h2 point else h2);
            Some (nRecords h3 - 1, h3, errs)
          }))"

section \<open>Headers, opening and closing\<close>

definition shp_header :: "bool \<Rightarrow> int \<Rightarrow> int \<Rightarrow> f64 list \<Rightarrow> f64 list \<Rightarrow> byte list" where
  "shp_header bBigEndian half ty lo hi =
     (let i = (\<lambda>n. put4 bBigEndian bBigEndian (word_of_int n)); d = put8 bBigEndian bBigEndian in
      [0, 0, 0x27, 0x0a] @ replicate 20 0 @ put4 bBigEndian (\<not> bBigEndian) (word_of_int half) @ i 1000 @ i ty
      @ d (lo ! 0) @ d (lo ! 1) @ d (hi ! 0) @ d (hi ! 1) @ d (lo ! 2) @ d (hi ! 2) @ d (lo ! 3) @ d (hi ! 3))"

definition shx_records :: "bool \<Rightarrow> 'f SHPInfo \<Rightarrow> byte list" where
  "shx_records bBigEndian h =
     concat (map (\<lambda>i. put4 bBigEndian (\<not> bBigEndian) (word_of_int (panRecOffset h ! i div 2))
                    @ put4 bBigEndian (\<not> bBigEndian) (word_of_int (panRecSize h ! i div 2))) [0..<nat (nRecords h)])"

definition writeHeader_shp :: "'f vsi_rw \<Rightarrow> bool \<Rightarrow> 'f SHPInfo \<Rightarrow> 'f SHPInfo" where
  "writeHeader_shp ops bBigEndian h =
     (let head = (\<lambda>half. shp_header bBigEndian half (nShapeType h) (adBoundsMin h) (adBoundsMax h));
          shp = VSIFWriteL ops (snd (VSIFSeekL ops (fpSHP h) 0)) (head (nFileSize h div 2));
          shx = VSIFWriteL ops (snd (VSIFSeekL ops (fpSHX h) 0)) (head ((nRecords h * 2 * 4 + 100) div 2)) in
      h\<lparr>fpSHP := shp, fpSHX := VSIFWriteL ops shx (shx_records bBigEndian h)\<rparr>)"

definition msSHPClose :: "'f vsi_rw \<Rightarrow> ('f, 'fs) vsi_disk \<Rightarrow> bool \<Rightarrow> 'f SHPInfo \<Rightarrow> 'fs \<Rightarrow> 'fs" where
  "msSHPClose ops dsk bBigEndian psSHP fs =
     (let h = (if bUpdated psSHP then writeHeader_shp ops bBigEndian psSHP else psSHP) in
      VSIFCloseL dsk (VSIFCloseL dsk fs (fpSHX h)) (fpSHP h))"

text \<open>The file under the name with a small or a capital extension.\<close>

definition open_ext ::
  "('f, 'fs) vsi_disk \<Rightarrow> 'fs \<Rightarrow> string \<Rightarrow> string \<Rightarrow> string \<Rightarrow> string \<Rightarrow> 'f option \<times> 'fs" where
  "open_ext dsk fs base ext ext' mode =
     (case VSIFOpenL dsk fs (base @ ext) mode of
        (Some f, fs') \<Rightarrow> (Some f, fs')
      | (None, fs') \<Rightarrow> VSIFOpenL dsk fs' (base @ ext') mode)"

definition msSHPOpen ::
  "'f vsi_rw \<Rightarrow> ('f, 'fs) vsi_disk \<Rightarrow> (nat \<Rightarrow> int) \<Rightarrow> bool \<Rightarrow> 'fs \<Rightarrow> string \<Rightarrow> string \<Rightarrow> 'f SHPInfo option \<times> 'fs \<times> report list" where
  "msSHPOpen ops dsk junk bBigEndian fs pszLayer pszAccess =
     (let mode = (if pszAccess = ''rb+'' \<or> pszAccess = ''r+b'' \<or> pszAccess = ''r+'' then ''r+b'' else ''rb'');
          base = base_name pszLayer in
      case open_ext dsk fs base ''.shp'' ''.SHP'' mode of
        (None, fs1) \<Rightarrow> (None, fs1, [])
      | (Some shp, fs1) \<Rightarrow>
          (case open_ext dsk fs1 base ''.shx'' ''.SHX'' mode of
             (None, fs2) \<Rightarrow> (None, VSIFCloseL dsk fs2 shp, [])
           | (Some shx, fs2) \<Rightarrow>
               (case msSHPOpenVirtualFile ops junk bBigEndian shp shx of
                  (None, errs) \<Rightarrow> (None, VSIFCloseL dsk (VSIFCloseL dsk fs2 shp) shx, errs)
                | (Some h, errs) \<Rightarrow> (Some h, fs2, errs))))"

definition msSHPCreate ::
  "'f vsi_rw \<Rightarrow> ('f, 'fs) vsi_disk \<Rightarrow> (nat \<Rightarrow> int) \<Rightarrow> bool \<Rightarrow> 'fs \<Rightarrow> string \<Rightarrow> int \<Rightarrow> 'f SHPInfo option \<times> 'fs \<times> report list" where
  "msSHPCreate ops dsk junk bBigEndian fs pszLayer ty =
     (let base = base_name pszLayer; head = shp_header bBigEndian 50 ty [0, 0, 0, 0] [0, 0, 0, 0] in
      case VSIFOpenL dsk fs (base @ ''.shp'') ''wb'' of
        (None, fs1) \<Rightarrow> (None, fs1, [])
      | (Some shp, fs1) \<Rightarrow>
          (case VSIFOpenL dsk fs1 (base @ ''.shx'') ''wb'' of
             (None, fs2) \<Rightarrow> (None, VSIFCloseL dsk fs2 shp, [])
           | (Some shx, fs2) \<Rightarrow>
               (let fs3 = VSIFCloseL dsk fs2 (VSIFWriteL ops shp head);
                    fs4 = VSIFCloseL dsk fs3 (VSIFWriteL ops shx head) in
                msSHPOpen ops dsk junk bBigEndian fs4 pszLayer ''rb+'')))"

end
