(* ===== verification/ShapeRecord.thy ===== *)
theory ShapeRecord
  imports ShapeWrite
begin

text \<open>
  One record written and read back. The writer fills a buffer by blocks; what a block holds is kept
  by every later block that is separate from it. The reader then finds the blocks, on a host of
  either byte order, and decodes the vertices that were given to the writer.
\<close>

section \<open>Blocks of a record\<close>

definition holds :: "byte list \<Rightarrow> nat \<Rightarrow> byte list \<Rightarrow> bool" where
  "holds r k bs \<longleftrightarrow> peek k (length bs) r = Some bs"

lemma holdsD: "holds r k bs \<Longrightarrow> k + length bs \<le> length r \<and> take (length bs) (drop k r) = bs"
  by (simp add: holds_def peek_def split: if_splits)

lemma holdsI: "k + length bs \<le> length r \<Longrightarrow> take (length bs) (drop k r) = bs \<Longrightarrow> holds r k bs"
  by (simp add: holds_def peek_def)

lemma holds_put_same: "k + length bs \<le> length r \<Longrightarrow> holds (put_range k bs r) k bs"
  by (rule holdsI) (simp_all add: put_range_def)

lemma holds_put_other:
  assumes "holds r k bs" and "j + length cs \<le> length r" and "k + length bs \<le> j \<or> j + length cs \<le> k"
  shows "holds (put_range j cs r) k bs"
proof (rule holdsI)
  show "k + length bs \<le> length (put_range j cs r)" using holdsD [OF assms(1)] assms(2) by simp
  have "take (length bs) (drop k (put_range j cs r)) = take (length bs) (drop k r)"
    using assms(2,3) by (auto simp: put_range_def drop_take min_def)
  then show "take (length bs) (drop k (put_range j cs r)) = bs" using holdsD [OF assms(1)] by simp
qed

lemma holds_part:
  assumes "holds r k bs" and "j + n \<le> length bs"
  shows "holds r (k + j) (take n (drop j bs))"
proof (rule holdsI)
  have b: "k + length bs \<le> length r" "take (length bs) (drop k r) = bs" using holdsD [OF assms(1)] by auto
  show "k + j + length (take n (drop j bs)) \<le> length r" using b(1) assms(2) by simp
  have "length (take n (drop j bs)) = n" using assms(2) by simp
  moreover have "take n (drop j (take (length bs) (drop k r))) = take n (drop (k + j) r)"
    using assms(2) by (simp add: drop_take min_def add.commute)
  ultimately show "take (length (take n (drop j bs))) (drop (k + j) r) = take n (drop j bs)"
    unfolding b(2) by simp
qed

lemma holds_take: "holds r k bs \<Longrightarrow> k + length bs \<le> n \<Longrightarrow> n \<le> length r \<Longrightarrow> holds (take n r) k bs"
  by (rule holdsI) (auto dest!: holdsD simp: drop_take min_def)

lemma put_range_join:
  "k + length a + length b \<le> length r \<Longrightarrow> put_range (k + length a) b (put_range k a r) = put_range k (a @ b) r"
  by (simp add: put_range_def ac_simps)

lemma poke_Some: "k + length bs \<le> length r \<Longrightarrow> poke k bs r = Some (put_range k bs r)"
  by (simp add: poke_def)

text \<open>The fields of the format do not depend on the byte order of the host.\<close>

lemma SwapWord_host: "SwapWord n (host_bytes be n w) = host_bytes (\<not> be) n w"
  by (simp add: SwapWord_rev host_bytes_def)

lemma put4_le: "put4 be be w = le_bytes 4 w" and put4_be: "put4 be (\<not> be) w = rev (le_bytes 4 w)"
  and put8_le: "put8 be be d = le_bytes 8 d"
  by (cases be; simp add: put4_def put8_def Let_def SwapWord_host; simp add: host_bytes_def)+

lemma put_rect_le: "put_rect be be r = le_bytes 8 (minx r) @ le_bytes 8 (miny r) @ le_bytes 8 (maxx r) @ le_bytes 8 (maxy r)"
  by (simp add: put_rect_def put8_le)

definition int_bytes :: "nat \<Rightarrow> byte list" where
  "int_bytes n = le_bytes 4 (word_of_int (int n) :: i32)"

lemma length_int_bytes [simp]: "length (int_bytes n) = 4"
  by (simp add: int_bytes_def)

lemma poke_int_bytes: "k + 4 \<le> length r \<Longrightarrow> poke_int be k (int n) r = Some (put_range k (int_bytes n) r)"
  by (simp add: poke_int_def put4_le poke_Some int_bytes_def)

lemma holds_int:
  assumes "holds r k (int_bytes n)" and "n < 2 ^ 31"
  shows "peek_int be k r = Some (int n)"
proof -
  have "peek k 4 r = Some (put4 be be (word_of_int (int n)))" using assms(1) by (simp add: holds_def put4_le int_bytes_def)
  then show ?thesis using assms(2) by (simp add: peek_int_def sint_small_nat)
qed

lemma holds_double:
  assumes "holds r k (le_bytes 8 d)"
  shows "peek_double be k r = Some d"
proof -
  have "peek k 8 r = Some (put8 be be d)" using assms by (simp add: holds_def put8_le)
  then show ?thesis by (simp add: peek_double_def)
qed

lemma holds_rect:
  assumes "holds r k (put_rect be' be' b)"
  shows "ReadRect be k r = Some b"
proof -
  have "peek k 32 r = Some (put_rect be be b)" using assms by (simp add: holds_def put_rect_le)
  then show ?thesis by (simp add: ReadRect_def)
qed

text \<open>A block of entries of one length.\<close>

lemma concat_entry:
  assumes "\<And>x. length (f x) = w" and "k < length xs"
  shows "take w (drop (w * k) (concat (map f xs))) = f (xs ! k)"
  using assms(2)
proof (induction xs arbitrary: k)
  case (Cons x xs)
  show ?case
  proof (cases k)
    case (Suc j)
    then have "drop (w * k) (concat (map f (x # xs))) = drop (w * j) (concat (map f xs))"
      using assms(1) [of x] by simp
    then show ?thesis using Cons Suc by simp
  qed (simp add: assms(1))
qed simp

lemma length_concat_entries:
  assumes "\<And>x. length (f x) = w"
  shows "length (concat (map f xs)) = w * length xs"
  by (induction xs) (simp_all add: assms)

lemma holds_entry:
  assumes "holds r b (concat (map f xs))" and "\<And>x. length (f x) = w" and "k < length xs"
  shows "holds r (b + w * k) (f (xs ! k))"
proof -
  have "w * k + w \<le> w * length xs" using assms(3) by (metis Suc_leI mult_Suc_right add.commute mult_le_mono2)
  then have "w * k + w \<le> length (concat (map f xs))" by (simp add: length_concat_entries [of f, OF assms(2)])
  from holds_part [OF assms(1) this] show ?thesis by (simp add: concat_entry [of f, OF assms(2,3)])
qed

section \<open>What the loops of the writer store\<close>

definition point_bytes :: "vertexObj \<Rightarrow> byte list" where
  "point_bytes v = le_bytes 8 (px v) @ le_bytes 8 (py v)"

lemma length_point_bytes [simp]: "length (point_bytes v) = 16"
  by (simp add: point_bytes_def)

lemma put_range_nil [simp]: "k \<le> length r \<Longrightarrow> put_range k [] r = r"
  by (simp add: put_range_def)

text \<open>A position inside a buffer below 2 GB is an int.\<close>

lemma c_int_Some: "n < 2 ^ 31 \<Longrightarrow> c_int n = Some n"
  by (simp add: c_int_def)

lemma poke_points_block:
  "base + 16 * k + 16 * length vs \<le> length r \<Longrightarrow> length r < 2 ^ 31 \<Longrightarrow>
   poke_points be base k vs r = Some (put_range (base + 16 * k) (concat (map point_bytes vs)) r)"
proof (induction vs arbitrary: k r)
  case (Cons v vs)
  let ?b = "base + 16 * k"
  let ?r1 = "put_range ?b (le_bytes 8 (px v)) r" and ?r2 = "put_range ?b (point_bytes v) r"
  have l: "?b + 16 + 16 * length vs \<le> length r" using Cons.prems by simp
  have o: "c_int (k * 16) = Some (16 * k)" using l Cons.prems(2) by (simp add: c_int_def)
  have 1: "poke_double be ?b (px v) r = Some ?r1" using l by (simp add: poke_double_def put8_le poke_Some)
  have 2: "poke_double be (?b + 8) (py v) ?r1 = Some ?r2"
    using l put_range_join [of ?b "le_bytes 8 (px v)" "le_bytes 8 (py v)" r]
    by (simp add: poke_double_def put8_le poke_Some point_bytes_def)
  have 3: "poke_points be base (k + 1) vs ?r2 = Some (put_range (?b + 16) (concat (map point_bytes vs)) ?r2)"
    using l Cons.prems(2) Cons.IH [of "k + 1" ?r2] by (simp add: ac_simps)
  show ?case
    using o 1 2 3 l put_range_join [of ?b "point_bytes v" "concat (map point_bytes vs)" r]
    by (simp add: length_concat_entries [of point_bytes 16])
qed simp

lemma poke_values_block:
  "k + 8 * length ds \<le> length r \<Longrightarrow> length r < 2 ^ 31 \<Longrightarrow>
   poke_values be k ds r = Some (k + 8 * length ds, put_range k (concat (map (le_bytes 8) ds)) r)"
proof (induction ds arbitrary: k r)
  case (Cons d ds)
  let ?r1 = "put_range k (le_bytes 8 d) r"
  have l: "k + 8 + 8 * length ds \<le> length r" using Cons.prems by simp
  have o: "c_int (k + 8) = Some (k + 8)" using l Cons.prems(2) by (simp add: c_int_def)
  have 1: "poke_double be k d r = Some ?r1" using l by (simp add: poke_double_def put8_le poke_Some)
  have 2: "poke_values be (k + 8) ds ?r1 = Some (k + 8 + 8 * length ds, put_range (k + 8) (concat (map (le_bytes 8) ds)) ?r1)"
    using l Cons.prems(2) by (intro Cons.IH) simp_all
  show ?case
    using o 1 2 l put_range_join [of k "le_bytes 8 d" "concat (map (le_bytes 8) ds)" r]
    by (simp add: length_concat_entries [of "le_bytes 8 :: f64 \<Rightarrow> byte list" 8])
qed simp

text \<open>The starts of the parts.\<close>

fun starts :: "nat \<Rightarrow> lineObj list \<Rightarrow> nat list" where
  "starts k [] = []"
| "starts k (l # ls) = k # starts (k + length l) ls"

lemma length_starts [simp]: "length (starts k ls) = length ls"
  by (induction ls arbitrary: k) simp_all

lemma poke_starts_block:
  "base + 4 * i + 4 * (length ls - 1) \<le> length r \<Longrightarrow> length r < 2 ^ 31 \<Longrightarrow> p + length (concat ls) < 2 ^ 31 \<Longrightarrow>
   poke_starts be base i p ls r = Some (put_range (base + 4 * i) (concat (map int_bytes (tl (starts p ls)))) r)"
proof (induction be base i p ls r rule: poke_starts.induct)
  case (1 be base i p l l' ls r)
  let ?k = "base + 4 * i" and ?q = "p + length l"
  let ?r1 = "put_range ?k (int_bytes ?q) r"
  have l: "?k + 4 + 4 * length ls \<le> length r" using "1.prems"(1) by simp
  have q: "c_int ?q = Some ?q" and o: "c_int (4 * i) = Some (4 * i)" using l "1.prems"(2,3) by (simp_all add: c_int_def)
  have 1: "poke_int be ?k (int ?q) r = Some ?r1" using l by (intro poke_int_bytes) simp
  have 2: "poke_starts be base (i + 1) ?q (l' # ls) ?r1
      = Some (put_range (base + 4 * (i + 1)) (concat (map int_bytes (tl (starts ?q (l' # ls))))) ?r1)"
    by (rule "1.IH" [OF q o 1]) (use l "1.prems"(2,3) in \<open>simp_all add: ac_simps\<close>)
  have "put_range (?k + 4) (concat (map int_bytes (starts (?q + length l') ls))) ?r1
      = put_range ?k (int_bytes ?q @ concat (map int_bytes (starts (?q + length l') ls))) r"
    using l put_range_join [of ?k "int_bytes ?q" "concat (map int_bytes (starts (?q + length l') ls))" r]
    by (simp add: length_concat_entries [of int_bytes 4])
  then show ?case using q o 1 2 by (simp add: ac_simps)
qed simp_all

section \<open>Polygons and arcs\<close>

definition extra_type :: "int \<Rightarrow> bool" where
  "extra_type ty \<longleftrightarrow> ty = SHP_POLYGONZ \<or> ty = SHP_ARCZ \<or> ty = SHP_POLYGONM \<or> ty = SHP_ARCM"

definition poly_size :: "int \<Rightarrow> lineObj list \<Rightarrow> nat" where
  "poly_size ty ls = 44 + 4 * length ls + 16 * length (concat ls) + (if extra_type ty then 24 + 8 * length (concat ls) else 0)"

definition value_block :: "(vertexObj \<Rightarrow> f64) \<Rightarrow> vertexObj \<Rightarrow> vertexObj \<Rightarrow> lineObj list \<Rightarrow> byte list" where
  "value_block f v w ls = le_bytes 8 (f v) @ le_bytes 8 (f w) @ concat (map (\<lambda>u. le_bytes 8 (f u)) (concat ls))"

lemma length_value_block [simp]: "length (value_block f v w ls) = 16 + 8 * length (concat ls)"
  unfolding value_block_def length_append length_le_bytes length_concat_entries [of "\<lambda>u. le_bytes 8 (f u)" 8, OF length_le_bytes] by simp

lemma write_extra_block:
  assumes "first_vertex ls = Some v" and "last_vertex ls = Some w" and "b + 16 + 8 * length (concat ls) \<le> length r"
    and "length r < 2 ^ 31"
  shows "write_extra be f b ls r = Some (b + 16 + 8 * length (concat ls), put_range b (value_block f v w ls) r)"
proof -
  let ?ds = "f v # f w # map f (concat ls)"
  have "map (le_bytes 8) (map f (concat ls)) = map (\<lambda>u. le_bytes 8 (f u)) (concat ls)" by (simp add: comp_def)
  then have "concat (map (le_bytes 8) ?ds) = value_block f v w ls" by (simp add: value_block_def del: map_map)
  then show ?thesis
    using assms poke_values_block [of b ?ds r be] by (simp add: write_extra_def)
qed

lemma vertices_exist:
  assumes "ls \<noteq> []" and "[] \<notin> set ls"
  shows "\<exists>v. first_vertex ls = Some v" "\<exists>w. last_vertex ls = Some w" "\<exists>e. shape_extent ls = Some e"
proof -
  have l: "last ls \<noteq> []" using assms by (metis last_in_set)
  obtain l ls' where "ls = l # ls'" "l \<noteq> []" using assms by (cases ls) auto
  then show v: "\<exists>v. first_vertex ls = Some v" by (cases l) (simp_all add: first_vertex_def)
  show "\<exists>w. last_vertex ls = Some w" using assms l by (simp add: last_vertex_def)
  show "\<exists>e. shape_extent ls = Some e" using v by (auto simp: shape_extent_def)
qed

definition part_blocks :: "lineObj list \<Rightarrow> rectObj \<Rightarrow> byte list \<Rightarrow> bool" where
  "part_blocks ls e r \<longleftrightarrow>
     holds r 12 (put_rect False False e) \<and> holds r 44 (int_bytes (length ls)) \<and> holds r 48 (int_bytes (length (concat ls)))
     \<and> holds r 52 (concat (map int_bytes (starts 0 ls)))
     \<and> holds r (52 + 4 * length ls) (concat (map point_bytes (concat ls)))"

lemma block_lengths:
  "length (put_rect be be e) = 32" "length (concat (map int_bytes ns)) = 4 * length ns"
  "length (concat (map point_bytes vs)) = 16 * length vs"
  "length (concat (map (\<lambda>u. le_bytes 8 (f u :: f64)) vs)) = 8 * length vs"
  using length_concat_entries [of int_bytes 4 ns] length_concat_entries [of point_bytes 16 vs]
    length_concat_entries [of "\<lambda>u. le_bytes 8 (f u)" 8 vs] by (simp_all add: put_rect_le)

lemma write_parts_blocks:
  assumes ls: "ls \<noteq> []" and e: "shape_extent ls = Some e"
    and room: "52 + 4 * length ls + 16 * length (concat ls) \<le> length r" and lim: "length r < 2 ^ 31"
  shows "\<exists>r'. write_parts be ls r = Some r' \<and> length r' = length r \<and> part_blocks ls e r'"
proof -
  obtain p n where pn: "length ls = p" "length (concat ls) = n" by blast
  have p: "0 < p" using ls pn by auto
  let ?B = "put_rect False False e" and ?S = "concat (map int_bytes (starts 0 ls))" and ?P = "concat (map point_bytes (concat ls))"
  let ?T = "concat (map int_bytes (tl (starts 0 ls)))"
  have len: "length ?B = 32" "length ?S = 4 * p" "length ?P = 16 * n" "length ?T = 4 * (p - 1)"
    by (simp_all only: block_lengths length_starts length_tl pn)
  have S: "?S = int_bytes 0 @ ?T" using ls by (cases ls) simp_all
  define r1 where "r1 = put_range 12 ?B r"
  define r2 where "r2 = put_range 48 (int_bytes n) r1"
  define r3 where "r3 = put_range 44 (int_bytes p) r2"
  define r5 where "r5 = put_range 52 ?S r3"
  define r6 where "r6 = put_range (52 + 4 * p) ?P r5"
  have fits: "12 + length ?B \<le> length r" "48 + 4 \<le> length r" "52 + length ?S \<le> length r" "52 + 4 * p + length ?P \<le> length r"
    using room len by (simp_all add: pn)
  have l: "length r1 = length r" "length r2 = length r" "length r3 = length r" "length r5 = length r" "length r6 = length r"
    using fits by (simp_all add: r1_def r2_def r3_def r5_def r6_def)
  have s1: "writeBounds be 12 ls r = Some r1"
    using e fits(1) by (simp add: writeBounds_def r1_def poke_Some put_rect_le)
  have s2: "poke_int be 48 (int n) r1 = Some r2" "poke_int be 44 (int p) r2 = Some r3"
    unfolding r2_def [symmetric] r3_def using fits(2) l poke_int_bytes [of 48 r1 be n] poke_int_bytes [of 44 r2 be p]
    by (simp_all add: r2_def)
  have s4: "poke_int be 52 0 r3 = Some (put_range 52 (int_bytes 0) r3)"
    using fits(3) len p l poke_int_bytes [of 52 r3 be 0] by simp
  have "poke_starts be 52 1 0 ls (put_range 52 (int_bytes 0) r3) = Some (put_range (52 + 4 * 1) ?T (put_range 52 (int_bytes 0) r3))"
    using fits(3) len l p lim room by (intro poke_starts_block) (simp_all add: pn)
  moreover have "put_range 56 ?T (put_range 52 (int_bytes 0) r3) = r5"
    unfolding r5_def S using put_range_join [of 52 "int_bytes 0" ?T r3] fits(3) len l p by simp
  ultimately have s5: "poke_starts be 52 1 0 ls (put_range 52 (int_bytes 0) r3) = Some r5" by simp
  have c: "c_int (4 * p) = Some (4 * p)" using room lim by (simp add: c_int_def pn)
  have s6: "poke_points be (44 + 4 * p + 8) 0 (concat ls) r5 = Some r6"
    unfolding r6_def using fits(4) len l lim poke_points_block [of "52 + 4 * p" 0 "concat ls" r5 be] by (simp add: pn ac_simps)
  have bb: "(40 + 8 :: nat) = 48" "(36 + 8 :: nat) = 44" "(44 + 8 :: nat) = 52" by simp_all
  have "write_parts be ls r = Some r6" unfolding write_parts_def pn bb using s1 s2 s4 s5 s6 c by simp
  moreover have "part_blocks ls e r6"
    unfolding part_blocks_def pn r6_def r5_def r3_def r2_def r1_def using fits len
    by (auto intro!: holds_put_same holds_put_other)
  ultimately show ?thesis using l by blast
qed

lemma part_blocks_put:
  assumes "part_blocks ls e r" and "52 + 4 * length ls + 16 * length (concat ls) \<le> b \<and> b + length bs \<le> length r \<or> b + length bs \<le> 12"
    and "52 \<le> length r"
  shows "part_blocks ls e (put_range b bs r)"
  using assms by (auto simp: part_blocks_def block_lengths intro!: holds_put_other)

lemma value_block_part: "take (8 * length (concat ls)) (drop 16 (value_block f v w ls)) = concat (map (\<lambda>u. le_bytes 8 (f u)) (concat ls))"
  by (simp add: value_block_def block_lengths)

definition poly_blocks :: "int \<Rightarrow> lineObj list \<Rightarrow> rectObj \<Rightarrow> byte list \<Rightarrow> bool" where
  "poly_blocks ty ls e r \<longleftrightarrow> part_blocks ls e r
     \<and> (extra_type ty \<longrightarrow> holds r (52 + 4 * length ls + 16 * length (concat ls) + 16) (concat (map (\<lambda>u. le_bytes 8 (pz u)) (concat ls))))"

lemma write_poly_blocks:
  assumes ls: "ls \<noteq> []" "[] \<notin> set ls" and e: "shape_extent ls = Some e"
    and room: "76 + 4 * length ls + 24 * length (concat ls) \<le> length r" and lim: "length r < 2 ^ 31"
  shows "\<exists>r'. write_poly be ty ls r = Some (poly_size ty ls, r') \<and> length r' = length r \<and> poly_blocks ty ls e r'"
proof -
  obtain p n where pn: "length ls = p" "length (concat ls) = n" by blast
  define b where "b = 52 + 4 * p + 16 * n"
  have b: "52 + 4 * length ls + 16 * length (concat ls) = b" "44 + 4 * p + 8 + n * 16 = b" by (simp_all add: pn b_def)
  have room': "b + 24 + 8 * n \<le> length r" using room by (simp add: pn b_def)
  obtain v w where vw: "first_vertex ls = Some v" "last_vertex ls = Some w" using vertices_exist [OF ls] by blast
  obtain r6 where r6: "write_parts be ls r = Some r6" "length r6 = length r" "part_blocks ls e r6"
    using write_parts_blocks [OF ls(1) e, of r be] room lim by auto
  have s: "write_extra be f b ls x = Some (b + 16 + 8 * n, put_range b (value_block f v w ls) x)"
    and k: "part_blocks ls e x \<Longrightarrow> part_blocks ls e (put_range b (value_block f v w ls) x)"
    and l: "length (put_range b (value_block f v w ls) x) = length r" if "length x = length r" for f x
    using write_extra_block [OF vw, of b x be f] part_blocks_put [of ls e x b "value_block f v w ls"] b(1) room' lim that
    by (simp_all add: pn)
  have z: "holds (put_range b (value_block pz v w ls) x) (b + 16) (concat (map (\<lambda>u. le_bytes 8 (pz u)) (concat ls)))"
    if "length x = length r" for x
    using holds_part [OF holds_put_same [of b "value_block pz v w ls" x], of 16 "8 * n"] room' that
      value_block_part [of ls pz v w] by (simp add: pn)
  define r7 where "r7 = (if ty = 25 \<or> ty = 23 then put_range b (value_block pm v w ls) r6 else r6)"
  define out where "out = (if extra_type ty then put_range b (value_block pz v w ls) r7 else r7)"
  have l7: "length r7 = length r" and k7: "part_blocks ls e r7" using r6 l k by (simp_all add: r7_def)
  have sz: "poly_size ty ls = (if extra_type ty then b + 16 + 8 * n else 44 + 4 * p + 16 * n)"
    by (simp add: poly_size_def pn b_def)
  have c: "c_int (44 + 4 * p + 16 * n) = Some (44 + 4 * p + 16 * n)" "c_int b = Some b"
    using room' lim by (simp_all add: c_int_def b_def)
  have "write_poly be ty ls r = Some (poly_size ty ls, out)"
    unfolding write_poly_def Let_def pn b(2) sz r6(1) c
    using s [OF r6(2)] s [OF l7] by (auto simp: out_def r7_def extra_type_def)
  moreover have "length out = length r" using l7 l by (simp add: out_def)
  moreover have "poly_blocks ty ls e out"
    unfolding poly_blocks_def b(1) using k7 k [OF l7] z [OF l7] by (simp add: out_def)
  ultimately show ?thesis by blast
qed

text \<open>
  What is left of a vertex: the plane coordinates, and for the types with heights the height. For
  the types with measures the writer stores the height in the place of the measure.
\<close>

definition stored_vertex :: "int \<Rightarrow> vertexObj \<Rightarrow> vertexObj" where
  "stored_vertex ty v = \<lparr>px = px v, py = py v, pz = (if ty = SHP_POLYGONZ \<or> ty = SHP_ARCZ then pz v else 0),
     pm = (if ty = SHP_POLYGONM \<or> ty = SHP_ARCM then pz v else 0)\<rparr>"

lemma holds_point:
  assumes "holds r k (point_bytes v)"
  shows "peek_double be k r = Some (px v)" "peek_double be (k + 8) r = Some (py v)"
proof -
  have "holds r k (le_bytes 8 (px v))" "holds r (k + 8) (le_bytes 8 (py v))"
    using holds_part [OF assms, of 0 8] holds_part [OF assms, of 8 8] by (simp_all add: point_bytes_def)
  then show "peek_double be k r = Some (px v)" "peek_double be (k + 8) r = Some (py v)" by (simp_all add: holds_double)
qed

lemma poly_vertex_stored:
  assumes blocks: "poly_blocks ty ls e r" and k: "k < length (concat ls)"
  shows "poly_vertex be ty r (length ls) (length (concat ls)) k = Some (stored_vertex ty (concat ls ! k))"
proof -
  let ?p = "length ls" and ?n = "length (concat ls)" and ?v = "concat ls ! k"
  have pt: "holds r (52 + 4 * ?p + 16 * k) (point_bytes ?v)"
    using holds_entry [of r "52 + 4 * ?p" point_bytes "concat ls" 16 k] blocks k by (simp add: poly_blocks_def part_blocks_def)
  have xy: "peek_double be (44 + 4 * ?p + 8 + k * 16) r = Some (px ?v)" "peek_double be (44 + 4 * ?p + 8 + k * 16 + 8) r = Some (py ?v)"
    using holds_point [OF pt, of be] by (simp_all add: ac_simps)
  show ?thesis
  proof (cases "extra_type ty")
    case True
    let ?z = "52 + 4 * ?p + 16 * ?n + 16"
    have h: "holds r ?z (concat (map (\<lambda>u. le_bytes 8 (pz u)) (concat ls)))" using blocks True by (simp add: poly_blocks_def)
    have room: "?z + 8 * ?n \<le> length r" using holdsD [OF h] by (simp only: block_lengths)
    have "holds r (?z + 8 * k) (le_bytes 8 (pz ?v))"
      using holds_entry [of r ?z "\<lambda>u. le_bytes 8 (pz u)" "concat ls" 8 k] h k by simp
    then have "peek_double be (44 + 8 + 4 * ?p + 16 * ?n + 16 + k * 8) r = Some (pz ?v)" by (simp add: holds_double ac_simps)
    then show ?thesis using True room xy
      by (auto simp: poly_vertex_def read_vertex_def stored_vertex_def extra_type_def Let_def)
  next
    case False
    then show ?thesis using xy by (simp add: poly_vertex_def read_vertex_def stored_vertex_def extra_type_def Let_def)
  qed
qed

lemma those_map_Some: "(\<And>x. x \<in> set xs \<Longrightarrow> f x = Some (g x)) \<Longrightarrow> those (map f xs) = Some (map g xs)"
  by (induction xs) simp_all

text \<open>The parts \<open>ls\<close> behind parts with \<open>k\<close> vertices.\<close>

lemma read_parts_stored:
  assumes "\<And>j. j < n \<Longrightarrow> poly_vertex be ty r p n j = Some (stored_vertex ty (vs ! j))"
    and "n = length vs"
  shows "vs = pre @ concat ls \<Longrightarrow> k = length pre \<Longrightarrow> [] \<notin> set ls \<Longrightarrow>
    read_parts be ty r p n k (map int (starts k ls)) = Some (Inr (map (map (stored_vertex ty)) ls))"
proof (induction ls arbitrary: k pre)
  case (Cons l ls)
  let ?ps = "map int (starts (k + length l) ls)"
  have n: "k + length l + length (concat ls) = n" and l: "0 < length l" using Cons.prems assms(2) by auto
  have e: "(case ?ps of [] \<Rightarrow> int n | e # _ \<Rightarrow> e) = int (k + length l)" using n by (cases ls) simp_all
  have vs: "those (map (poly_vertex be ty r p n) [k..<k + length l]) = Some (map (\<lambda>j. stored_vertex ty (vs ! j)) [k..<k + length l])"
    by (rule those_map_Some) (use assms(1) n in simp)
  have "map (\<lambda>j. stored_vertex ty (vs ! j)) [k..<k + length l] = map (stored_vertex ty) l"
    by (rule nth_equalityI) (simp_all add: Cons.prems(1,2) nth_append)
  moreover have "read_parts be ty r p n (k + length l) ?ps = Some (Inr (map (map (stored_vertex ty)) ls))"
    by (rule Cons.IH [of "pre @ l"]) (use Cons.prems in simp_all)
  moreover have "\<not> (int k < 0 \<or> int (k + length l) < 0 \<or> int (k + length l) > int n \<or> int k \<ge> int (k + length l))"
    "nat (int (k + length l) - int k) = length l" using n l by auto
  ultimately show ?case using vs unfolding starts.simps list.map read_parts.simps Let_def e by simp
qed simp

definition poly_stored :: "int \<Rightarrow> lineObj list \<Rightarrow> rectObj \<Rightarrow> shapeObj" where
  "poly_stored ty ls e = msInitShape\<lparr>bounds := e, line := map (map (stored_vertex ty)) ls,
     shape_type := (if ty = SHP_POLYGON \<or> ty = SHP_POLYGONZ \<or> ty = SHP_POLYGONM then MS_SHAPE_POLYGON else MS_SHAPE_LINE)\<rparr>"

definition countable_parts :: "lineObj list \<Rightarrow> bool" where
  "countable_parts ls \<longleftrightarrow> ls \<noteq> [] \<and> [] \<notin> set ls \<and> length (concat ls) \<le> 50000000 \<and> length ls \<le> 10000000"

lemma starts_le: "s \<in> set (starts k ls) \<Longrightarrow> s \<le> k + length (concat ls)"
  by (induction ls arbitrary: k) fastforce+

lemma read_poly_stored:
  assumes blocks: "poly_blocks ty ls e r" and ls: "countable_parts ls" and pmax: "0 \<le> pmax"
  shows "read_poly be ty r pmax = Some (poly_stored ty ls e, True, max pmax (int (length ls)), [])"
proof -
  obtain p n where pn: "length ls = p" "length (concat ls) = n" by blast
  have lim: "0 < p" "p \<le> 10000000" "n \<le> 50000000" using ls pn by (auto simp: countable_parts_def)
  have parts: "holds r 12 (put_rect False False e)" "holds r 44 (int_bytes p)" "holds r 48 (int_bytes n)"
    "holds r 52 (concat (map int_bytes (starts 0 ls)))" "holds r (52 + 4 * p) (concat (map point_bytes (concat ls)))"
    using blocks by (simp_all add: poly_blocks_def part_blocks_def pn)
  have room: "52 + 4 * p + 16 * n \<le> length r" using holdsD [OF parts(5)] by (simp only: block_lengths pn)
  have b: "ReadRect be 12 r = Some e" by (rule holds_rect [OF parts(1)])
  have c: "peek_int be 44 r = Some (int p)" "peek_int be 48 r = Some (int n)"
    using holds_int [OF parts(2), of be] holds_int [OF parts(3), of be] lim by simp_all
  have s: "peek_int be (44 + 8 + 4 * i) r = Some (int (starts 0 ls ! i))" if "i < p" for i
  proof -
    have "starts 0 ls ! i \<le> n" using starts_le [of "starts 0 ls ! i" 0 ls] that pn by simp
    then show ?thesis using holds_int [OF holds_entry [OF parts(4), of 4 i], of be] that lim pn by simp
  qed
  have "those (map (\<lambda>i. peek_int be (44 + 8 + 4 * i) r) [0..<p]) = Some (map (\<lambda>i. int (starts 0 ls ! i)) [0..<p])"
    by (rule those_map_Some) (simp only: s atLeastLessThan_iff set_upt)
  moreover have "map (\<lambda>i. int (starts 0 ls ! i)) [0..<p] = map int (starts 0 ls)"
    by (rule nth_equalityI) (simp_all add: pn)
  ultimately have st: "those (map (\<lambda>i. peek_int be (44 + 8 + 4 * i) r) [0..<p]) = Some (map int (starts 0 ls))" by simp
  have "read_parts be ty r p n 0 (map int (starts 0 ls)) = Some (Inr (map (map (stored_vertex ty)) ls))"
    using ls poly_vertex_stored [OF blocks, of _ be] by (intro read_parts_stored [where vs = "concat ls" and pre = "[]"])
      (simp_all add: pn countable_parts_def)
  then show ?thesis using b c st room lim pmax
    by (auto simp: read_poly_def poly_stored_def Let_def pn)
qed

section \<open>All the types that are written faithfully\<close>

text \<open>
  Shapes that the writer and the reader accept: parts that are not empty, within the reader's
  limits; one line for a multipoint, one vertex for a point. Multipoints and points with heights or
  measures are left out: the writer puts these over the coordinates.
\<close>

definition plain_type :: "int \<Rightarrow> bool" where
  "plain_type ty \<longleftrightarrow> poly_type ty \<or> ty = SHP_MULTIPOINT \<or> ty = SHP_POINT"

definition writable_shape :: "int \<Rightarrow> shapeObj \<Rightarrow> bool" where
  "writable_shape ty s \<longleftrightarrow> shape_type s \<noteq> MS_SHAPE_NULL \<and> countable_parts (line s)
     \<and> (\<not> poly_type ty \<longrightarrow> length (line s) = 1) \<and> (ty = SHP_POINT \<longrightarrow> length (concat (line s)) = 1)"

definition record_size :: "int \<Rightarrow> lineObj list \<Rightarrow> nat" where
  "record_size ty ls = (if poly_type ty then poly_size ty ls else if ty = SHP_MULTIPOINT then 40 + 16 * length (concat ls) else 20)"

definition stored_extent :: "lineObj list \<Rightarrow> rectObj" where
  "stored_extent ls = (case shape_extent ls of Some e \<Rightarrow> e | None \<Rightarrow> rect0)"

definition stored_shape :: "int \<Rightarrow> int \<Rightarrow> shapeObj \<Rightarrow> shapeObj" where
  "stored_shape ty i s = \<lparr>line = map (map (stored_vertex ty)) (line s), bounds = stored_extent (line s),
     shape_type = (if ty = SHP_POLYGON \<or> ty = SHP_POLYGONZ \<or> ty = SHP_POLYGONM then MS_SHAPE_POLYGON
                   else if poly_type ty then MS_SHAPE_LINE else MS_SHAPE_POINT), index = i\<rparr>"

definition geometry_blocks :: "int \<Rightarrow> lineObj list \<Rightarrow> byte list \<Rightarrow> bool" where
  "geometry_blocks ty ls r \<longleftrightarrow>
     (if poly_type ty then poly_blocks ty ls (stored_extent ls) r
      else if ty = SHP_MULTIPOINT then
        holds r 12 (put_rect False False (stored_extent ls)) \<and> holds r 44 (int_bytes (length (concat ls)))
        \<and> holds r 48 (concat (map point_bytes (concat ls)))
      else holds r 12 (concat (map point_bytes (concat ls))))"

lemma one_line: "length ls = 1 \<Longrightarrow> ls = [concat ls]"
  by (auto simp: length_Suc_conv)

lemma type_classes [simp]: "\<not> poly_type 8" "\<not> poly_type 1" "multi_type 8" "\<not> multi_type 1" "point_type 1"
  by (simp_all add: poly_type_def multi_type_def point_type_def)

lemma write_multi_blocks:
  assumes "length ls = 1" and "shape_extent ls = Some e" and "48 + 16 * length (concat ls) \<le> length r"
    and lim: "length r < 2 ^ 31"
  shows "\<exists>r'. write_multi be 8 ls r = Some (40 + 16 * length (concat ls), r') \<and> length r' = length r
    \<and> holds r' 12 (put_rect False False e) \<and> holds r' 44 (int_bytes (length (concat ls)))
    \<and> holds r' 48 (concat (map point_bytes (concat ls)))"
proof -
  define l where "l = concat ls"
  have ls: "ls = [l]" using one_line [OF assms(1)] by (simp add: l_def)
  define r1 where "r1 = put_range 12 (put_rect False False e) r"
  define r2 where "r2 = put_range 44 (int_bytes (length l)) r1"
  define r3 where "r3 = put_range 48 (concat (map point_bytes l)) r2"
  have room: "48 + 16 * length l \<le> length r" using assms(3) by (simp add: l_def)
  have len: "length r1 = length r" "length r2 = length r" "length r3 = length r"
    using room by (simp_all add: r1_def r2_def r3_def block_lengths)
  have 1: "writeBounds be 12 ls r = Some r1"
    using assms(2) room by (simp add: writeBounds_def r1_def poke_Some put_rect_le)
  have 2: "poke_int be 44 (int (length l)) r1 = Some r2"
    unfolding r2_def using room len by (intro poke_int_bytes) simp
  have 3: "poke_points be 48 0 l r2 = Some r3"
    unfolding r3_def using room len lim poke_points_block [of 48 0 l r2 be] by simp
  have "write_multi be 8 ls r = Some (40 + 16 * length l, r3)"
    using 1 2 3 room lim by (simp add: write_multi_def ls Let_def c_int_def)
  moreover have "holds r3 12 (put_rect False False e)" "holds r3 44 (int_bytes (length l))" "holds r3 48 (concat (map point_bytes l))"
    unfolding r3_def r2_def r1_def using room by (auto simp: block_lengths intro!: holds_put_same holds_put_other)
  ultimately show ?thesis using len by (auto simp: l_def)
qed

lemma write_single_blocks:
  assumes "ls = [[v]]" and "28 \<le> length r"
  shows "write_single be 1 ls r = Some (20, put_range 12 (point_bytes v) r)"
proof -
  have "put_range 20 (le_bytes 8 (py v)) (put_range 12 (le_bytes 8 (px v)) r) = put_range 12 (point_bytes v) r"
    using put_range_join [of 12 "le_bytes 8 (px v)" "le_bytes 8 (py v)" r] assms(2) by (simp add: point_bytes_def)
  then show ?thesis using assms
    by (simp add: write_single_def first_vertex_def poke_double_def put8_le poke_Some)
qed

definition buffer_size :: "lineObj list \<Rightarrow> nat" where
  "buffer_size ls = length (concat ls) * 4 * 8 + length ls * 8 + 128"

lemma alloc_size_ok: "buffer_size ls < 2 ^ 31 \<Longrightarrow> alloc_size_of ls = Some (buffer_size ls)"
  by (simp add: alloc_size_of_def buffer_size_def c_int_def)

lemma countable_buffer: "countable_parts ls \<Longrightarrow> buffer_size ls < 2 ^ 31"
  by (auto simp: countable_parts_def buffer_size_def)

lemma write_geometry_blocks:
  assumes ty: "plain_type ty" and s: "writable_shape ty s" and r: "length r = buffer_size (line s)"
  shows "\<exists>r'. write_geometry be ty s r = Some (ty, record_size ty (line s), r') \<and> length r' = length r \<and> geometry_blocks ty (line s) r'"
proof -
  let ?ls = "line s"
  have ls: "?ls \<noteq> []" "[] \<notin> set ?ls" using s by (auto simp: writable_shape_def countable_parts_def)
  have lim: "length r < 2 ^ 31" using r s countable_buffer [of ?ls] by (simp add: writable_shape_def)
  obtain e where e: "shape_extent ?ls = Some e" using vertices_exist [OF ls] by blast
  have se: "stored_extent ?ls = e" using e by (simp add: stored_extent_def)
  consider "poly_type ty" | "ty = 8" | "ty = 1" using ty by (auto simp: plain_type_def)
  then show ?thesis
  proof cases
    case 1
    obtain r' where "write_poly be ty ?ls r = Some (poly_size ty ?ls, r')" "length r' = length r" "poly_blocks ty ?ls e r'"
      using write_poly_blocks [OF ls e, of r be ty] r lim by (auto simp: buffer_size_def)
    then show ?thesis using 1 s se by (simp add: write_geometry_def record_size_def geometry_blocks_def writable_shape_def)
  next
    case 2
    have "length ?ls = 1" using s 2 by (simp add: writable_shape_def)
    then show ?thesis using write_multi_blocks [OF _ e, of r be] r 2 s se lim
      by (auto simp: buffer_size_def write_geometry_def record_size_def geometry_blocks_def writable_shape_def)
  next
    case 3
    then obtain v where v: "?ls = [[v]]" using s by (auto simp: writable_shape_def length_Suc_conv)
    have "28 \<le> length r" using r by (simp add: buffer_size_def)
    then show ?thesis using write_single_blocks [OF v, of r be] 3 s v
      by (auto simp: write_geometry_def record_size_def geometry_blocks_def writable_shape_def intro!: holds_put_same)
  qed
qed

text \<open>The twelve bytes before the geometry leave it alone, and so does cutting the buffer to the record.\<close>

lemma geometry_blocks_head:
  assumes "geometry_blocks ty ls r" and "b + length bs \<le> 12" and "12 \<le> length r"
  shows "geometry_blocks ty ls (put_range b bs r)"
  using assms by (auto simp: geometry_blocks_def poly_blocks_def part_blocks_def intro!: holds_put_other split: if_splits)

lemma geometry_blocks_take:
  assumes "geometry_blocks ty ls r" and "record_size ty ls + 8 \<le> length r" and "plain_type ty"
    and "ty = 1 \<Longrightarrow> length (concat ls) = 1"
  shows "geometry_blocks ty ls (take (record_size ty ls + 8) r)"
proof -
  have t: "holds (take n r) k bs" if "holds r k bs" "k + length bs \<le> n" "n \<le> length r" for n k bs
    using that by (rule holds_take)
  show ?thesis
  proof (cases "poly_type ty")
    case True
    then show ?thesis using assms(1,2)
      by (auto simp: geometry_blocks_def poly_blocks_def part_blocks_def record_size_def poly_size_def block_lengths intro!: t)
  next
    case False
    then show ?thesis using assms
      by (auto simp: geometry_blocks_def record_size_def plain_type_def block_lengths intro!: t)
  qed
qed

lemma record_fits: "plain_type ty \<Longrightarrow> record_size ty ls + 8 \<le> buffer_size ls"
  by (auto simp: record_size_def poly_size_def buffer_size_def plain_type_def)

lemma finish_record_blocks:
  assumes r: "geometry_blocks ty ls r" "length r = buffer_size ls" and ty: "plain_type ty"
    and one: "ty = 1 \<Longrightarrow> length (concat ls) = 1" and lim: "length r < 2 ^ 31"
  shows "\<exists>bs. finish_record be i ty (record_size ty ls) r = Some bs \<and> length bs = record_size ty ls + 8 \<and> geometry_blocks ty ls bs"
proof -
  let ?n = "record_size ty ls + 8"
  define r1 where "r1 = put_range 0 (put4 be (\<not> be) (word_of_int i)) r"
  define r2 where "r2 = put_range 4 (put4 be (\<not> be) (word_of_int (int (record_size ty ls) div 2))) r1"
  define r3 where "r3 = put_range 8 (put4 be be (word_of_int ty)) r2"
  have l: "12 \<le> length r" "?n \<le> length r" using r(2) record_fits [OF ty, of ls] by (simp_all add: buffer_size_def)
  have len: "length r1 = length r" "length r2 = length r" "length r3 = length r"
    using l by (simp_all add: r1_def r2_def r3_def)
  have "geometry_blocks ty ls r3"
    unfolding r3_def r2_def r1_def using r(1) l by (intro geometry_blocks_head) simp_all
  then have g: "geometry_blocks ty ls (take ?n r3)" using l len ty one by (intro geometry_blocks_take) simp_all
  have p: "poke 0 (put4 be (\<not> be) (word_of_int i)) r = Some r1"
    "poke 4 (put4 be (\<not> be) (word_of_int (int (record_size ty ls) div 2))) r1 = Some r2"
    "poke_int be 8 ty r2 = Some r3"
    using l len by (simp_all add: poke_int_def poke_Some r1_def r2_def r3_def)
  have "finish_record be i ty (record_size ty ls) r = Some (take ?n r3)"
    unfolding finish_record_def using p l len lim by (simp add: peek_Some c_int_def)
  then show ?thesis using g l len by simp
qed

section \<open>Reading the record back\<close>

lemma extend_same: "extend_rect \<lparr>minx = px v, miny = py v, maxx = px v, maxy = py v\<rparr> v = \<lparr>minx = px v, miny = py v, maxx = px v, maxy = py v\<rparr>"
  by (simp add: extend_rect_def ms_min_def ms_max_def)

lemma read_multi_stored:
  assumes blocks: "geometry_blocks 8 [l] r" and l: "length l \<le> 50000000"
  shows "read_multi be 8 r = Some (msInitShape\<lparr>bounds := stored_extent [l], line := [map (stored_vertex 8) l],
    shape_type := MS_SHAPE_POINT\<rparr>, True, [])"
proof -
  have h: "holds r 12 (put_rect False False (stored_extent [l]))" "holds r 44 (int_bytes (length l))" "holds r 48 (concat (map point_bytes l))"
    using blocks by (simp_all add: geometry_blocks_def)
  have room: "48 + 16 * length l \<le> length r" using holdsD [OF h(3)] by (simp only: block_lengths)
  have b: "ReadRect be 12 r = Some (stored_extent [l])" by (rule holds_rect [OF h(1)])
  have c: "peek_int be 44 r = Some (int (length l))" using holds_int [OF h(2)] l by simp
  have "read_vertex be r (48 + 16 * i) None None = Some (stored_vertex 8 (l ! i))" if "i < length l" for i
    using holds_point [OF holds_entry [OF h(3), of 16 i], of be] that by (simp add: read_vertex_def stored_vertex_def)
  then have "those (map (\<lambda>i. read_vertex be r (48 + 16 * i) None None) [0..<length l]) = Some (map (\<lambda>i. stored_vertex 8 (l ! i)) [0..<length l])"
    by (intro those_map_Some) simp
  moreover have "map (\<lambda>i. stored_vertex 8 (l ! i)) [0..<length l] = map (stored_vertex 8) l"
    by (rule nth_equalityI) simp_all
  ultimately show ?thesis using room b c l by (simp add: read_multi_def Let_def)
qed

lemma read_single_stored:
  assumes "geometry_blocks 1 [[v]] r"
  shows "read_single be 1 r = Some (msInitShape\<lparr>line := [[stored_vertex 1 v]], bounds := stored_extent [[v]],
    shape_type := MS_SHAPE_POINT\<rparr>, True, [])"
proof -
  have h: "holds r 12 (point_bytes v)" using assms by (simp add: geometry_blocks_def)
  have room: "28 \<le> length r" using holdsD [OF h] by simp
  have "read_vertex be r 12 None None = Some (stored_vertex 1 v)"
    using holds_point [OF h, of be] by (simp add: read_vertex_def stored_vertex_def)
  then show ?thesis using room
    by (simp add: read_single_def Let_def stored_extent_def shape_extent_def first_vertex_def extend_same stored_vertex_def)
qed

lemma read_record_stored:
  assumes blocks: "geometry_blocks ty (line s) r" and ty: "plain_type ty" and s: "writable_shape ty s" and pmax: "0 \<le> pmax"
  shows "\<exists>pmax'. read_record be ty i r pmax = Some (stored_shape ty i s, pmax', []) \<and> 0 \<le> pmax'"
proof -
  have c: "countable_parts (line s)" using s by (simp add: writable_shape_def)
  consider "poly_type ty" | "ty = 8" | "ty = 1" using ty by (auto simp: plain_type_def)
  then show ?thesis
  proof cases
    case 1
    then have "read_poly be ty r pmax = Some (poly_stored ty (line s) (stored_extent (line s)), True, max pmax (int (length (line s))), [])"
      using read_poly_stored [OF _ c pmax, of ty "stored_extent (line s)" r be] blocks by (simp add: geometry_blocks_def)
    then show ?thesis using 1 pmax by (simp add: read_record_def poly_stored_def stored_shape_def msInitShape_def Let_def le_max_iff_disj)
  next
    case 2
    then obtain l where l: "line s = [l]" using s by (auto simp: writable_shape_def length_Suc_conv)
    then have "length l \<le> 50000000" using c by (simp add: countable_parts_def)
    then show ?thesis using read_multi_stored [of l r be] blocks 2 l pmax
      by (simp add: read_record_def stored_shape_def msInitShape_def Let_def)
  next
    case 3
    then obtain v where v: "line s = [[v]]" using s by (auto simp: writable_shape_def length_Suc_conv)
    then show ?thesis using read_single_stored [of v r be] blocks 3 pmax
      by (simp add: read_record_def stored_shape_def msInitShape_def Let_def)
  qed
qed

end
