(* ===== verification/ShapeFile.thy ===== *)
theory ShapeFile
  imports ShapeRecord
begin

text \<open>
  A shapefile as a list of shapes. The invariant \<open>shp_ok\<close> relates an open handle to the list that was
  written through it; appending a shape appends to the list, reading a record gives its element,
  and closing and opening the file again keeps the list, on a host of either byte order.
\<close>

section \<open>The invariant\<close>

definition coords :: "vertexObj \<Rightarrow> f64 list" where
  "coords v = [px v, py v, pz v, pm v]"

definition all_vertices :: "shapeObj list \<Rightarrow> vertexObj list" where
  "all_vertices ss = concat (map (concat \<circ> line) ss)"

text \<open>The bounds of a file: the least and the greatest coordinate of all vertices.\<close>

definition file_extent :: "shapeObj list \<Rightarrow> f64 list \<times> f64 list" where
  "file_extent ss =
     (let vs = all_vertices ss; c = coords (hd vs) in
      (foldl (\<lambda>b v. map2 ms_min b (coords v)) c vs, foldl (\<lambda>b v. map2 ms_max b (coords v)) c vs))"

definition holds_shape :: "int \<Rightarrow> byte list \<Rightarrow> int \<Rightarrow> int \<Rightarrow> shapeObj \<Rightarrow> bool" where
  "holds_shape ty c off siz s \<longleftrightarrow> 100 \<le> off \<and> even off \<and> siz = int (record_size ty (line s))
     \<and> (\<exists>r. record_bytes c (nat off) (nat siz) = Some r \<and> geometry_blocks ty (line s) r)"

definition shp_ok :: "('f \<Rightarrow> byte list) \<Rightarrow> ('f \<Rightarrow> nat) \<Rightarrow> 'f SHPInfo \<Rightarrow> shapeObj list \<Rightarrow> bool" where
  "shp_ok bytes at h ss \<longleftrightarrow>
     plain_type (nShapeType h) \<and> (\<forall>s\<in>set ss. writable_shape (nShapeType h) s)
     \<and> nRecords h = int (length ss) \<and> nRecords h \<le> nMaxRecords h
     \<and> length (panRecOffset h) = nat (nMaxRecords h) \<and> length (panRecSize h) = nat (nMaxRecords h)
     \<and> nFileSize h = int (length (bytes (fpSHP h))) \<and> 100 + 28 * int (length ss) \<le> nFileSize h \<and> even (nFileSize h)
     \<and> (panRecAllLoaded h \<or> ss = [] \<and> at (fpSHX h) \<le> length (bytes (fpSHX h)))
     \<and> length (bytes (fpSHX h)) \<le> 100 + 8 * length ss
     \<and> (ss \<noteq> [] \<longrightarrow> bUpdated h \<and> (adBoundsMin h, adBoundsMax h) = file_extent ss) \<and> 0 \<le> nPartMax h
     \<and> (\<forall>i<length ss. holds_shape (nShapeType h) (bytes (fpSHP h)) (panRecOffset h ! i) (panRecSize h ! i) (ss ! i))"

lemma even_record_size: "plain_type ty \<Longrightarrow> even (int (record_size ty ls))"
  by (auto simp: record_size_def poly_size_def plain_type_def)

lemma record_size_pos: "20 \<le> record_size ty ls"
  by (simp add: record_size_def poly_size_def)

text \<open>Bytes behind a record do not matter to it.\<close>

lemma holds_shape_append: "holds_shape ty c off siz s \<Longrightarrow> holds_shape ty (c @ d) off siz s"
  by (auto simp: holds_shape_def record_bytes_def split: if_splits)

lemma holds_shape_new:
  assumes "length bs = record_size ty (line s) + 8" and "geometry_blocks ty (line s) bs" and "100 \<le> length c" and "even (int (length c))"
  shows "holds_shape ty (c @ bs) (int (length c)) (int (record_size ty (line s))) s"
  using assms by (auto simp: holds_shape_def record_bytes_def)

section \<open>Appending a shape\<close>

lemma new_entity_fields:
  assumes "nRecords h = int n" and "nRecords h \<le> nMaxRecords h" and "length (panRecOffset h) = nat (nMaxRecords h)"
    and "length (panRecSize h) = nat (nMaxRecords h)"
  shows "\<exists>mx offs sizes. new_entity junk h = h\<lparr>nRecords := int (n + 1), nMaxRecords := mx, panRecOffset := panRecOffset h @ offs,
      panRecSize := panRecSize h @ sizes\<rparr> \<and> int (n + 1) \<le> mx \<and> length (panRecOffset h @ offs) = nat mx
      \<and> length (panRecSize h @ sizes) = nat mx"
proof -
  define mx where "mx = (if int n + 1 > nMaxRecords h then nMaxRecords h * 13 div 10 + 100 else nMaxRecords h)"
  have mx: "nMaxRecords h \<le> mx" "int n + 1 \<le> mx" using assms(1,2) by (auto simp: mx_def)
  have "new_entity junk h = h\<lparr>nRecords := int (n + 1), nMaxRecords := mx,
      panRecOffset := panRecOffset h @ map junk [nat (nMaxRecords h)..<nat mx],
      panRecSize := panRecSize h @ map junk [nat (nMaxRecords h)..<nat mx]\<rparr>"
    using assms by (simp add: new_entity_def mx_def Let_def add.commute)
  moreover have "nat (nMaxRecords h) \<le> nat mx" using mx(1) by (rule nat_mono)
  ultimately show ?thesis using mx(2) assms(3,4) by (intro exI conjI) (assumption | simp)+
qed

definition started :: "('f \<Rightarrow> byte list) \<Rightarrow> 'f SHPInfo \<Rightarrow> 'f SHPInfo \<Rightarrow> nat \<Rightarrow> bool" where
  "started bytes h h1 n \<longleftrightarrow> nRecords h1 = int (n + 1) \<and> nRecords h1 \<le> nMaxRecords h1
     \<and> length (panRecOffset h1) = nat (nMaxRecords h1) \<and> length (panRecSize h1) = nat (nMaxRecords h1)
     \<and> fpSHP h1 = fpSHP h \<and> bytes (fpSHX h1) = bytes (fpSHX h) \<and> nShapeType h1 = nShapeType h
     \<and> nFileSize h1 = nFileSize h \<and> panRecAllLoaded h1 \<and> bUpdated h1 \<and> nPartMax h1 = nPartMax h
     \<and> adBoundsMin h1 = adBoundsMin h \<and> adBoundsMax h1 = adBoundsMax h
     \<and> panRecOffset h1 ! n = nFileSize h
     \<and> (\<forall>i<n. panRecOffset h1 ! i = panRecOffset h ! i \<and> panRecSize h1 ! i = panRecSize h ! i)"

context writable_vsi
begin

lemma start_record_ok:
  assumes ok: "shp_ok bytes at h ss"
  shows "\<exists>h1. start_record ops junk be h = (h1, []) \<and> started bytes h h1 (length ss)"
proof -
  let ?n = "length ss" and ?h0 = "h\<lparr>bUpdated := True\<rparr>"
  have n: "nRecords h = int ?n" "nRecords h \<le> nMaxRecords h" "length (panRecOffset h) = nat (nMaxRecords h)"
    "length (panRecSize h) = nat (nMaxRecords h)" using ok by (simp_all add: shp_ok_def)
  have "\<exists>h2. (if panRecAllLoaded ?h0 then (?h0, []) else snd (msSHXLoadAll ops be ?h0)) = (h2, [])
      \<and> (\<exists>f. h2 = ?h0\<lparr>fpSHX := f, panRecAllLoaded := True\<rparr> \<and> bytes f = bytes (fpSHX h))"
  proof (cases "panRecAllLoaded h")
    case True
    then have "?h0 = ?h0\<lparr>fpSHX := fpSHX h, panRecAllLoaded := True\<rparr>" by simp
    then show ?thesis using True by (intro exI conjI) (simp, assumption, simp)
  next
    case False
    then have e: "ss = []" "at (fpSHX h) \<le> length (bytes (fpSHX h))" using ok by (auto simp: shp_ok_def)
    obtain f where "VSIFReadL ops (fpSHX h) 8 0 = (0, [], f)" "bytes f = bytes (fpSHX h)"
      using read_all [of "fpSHX h" 8 0] e by auto
    then show ?thesis using False e n by (auto simp: msSHXLoadAll_def put_range_def)
  qed
  then obtain h2 f where 2: "(if panRecAllLoaded ?h0 then (?h0, []) else snd (msSHXLoadAll ops be ?h0)) = (h2, [])"
    "h2 = ?h0\<lparr>fpSHX := f, panRecAllLoaded := True\<rparr>" "bytes f = bytes (fpSHX h)" by blast
  obtain mx offs sizes where 3: "new_entity junk h2 = h2\<lparr>nRecords := int (?n + 1), nMaxRecords := mx,
      panRecOffset := panRecOffset h2 @ offs, panRecSize := panRecSize h2 @ sizes\<rparr>" "int (?n + 1) \<le> mx"
      "length (panRecOffset h2 @ offs) = nat mx" "length (panRecSize h2 @ sizes) = nat mx"
    using new_entity_fields [of h2 ?n junk] n by (auto simp: 2(2))
  have "?n < nat mx" "?n \<le> length (panRecOffset h)" "?n \<le> length (panRecSize h)" using 3(2) n by linarith+
  then show ?thesis
    using 3 n unfolding start_record_def Let_def 2(1) prod.case 3(1)
    by (auto simp: started_def 2(2,3) nth_append)
qed

end

text \<open>The bounds of the file.\<close>

lemma length_foldl_map2: "length b = 4 \<Longrightarrow> length (foldl (\<lambda>b v. map2 f b (coords v)) b vs) = 4"
  by (induction vs arbitrary: b) (simp_all add: coords_def)

lemma foldl_extend_bounds:
  "foldl extend_bounds h vs = h\<lparr>adBoundsMin := foldl (\<lambda>b v. map2 ms_min b (coords v)) (adBoundsMin h) vs,
     adBoundsMax := foldl (\<lambda>b v. map2 ms_max b (coords v)) (adBoundsMax h) vs\<rparr>"
  by (induction vs arbitrary: h) (simp_all add: extend_bounds_def coords_def Let_def)

lemma file_extent_snoc:
  assumes "all_vertices ss \<noteq> []"
  shows "file_extent (ss @ [s]) = (foldl (\<lambda>b v. map2 ms_min b (coords v)) (fst (file_extent ss)) (concat (line s)),
    foldl (\<lambda>b v. map2 ms_max b (coords v)) (snd (file_extent ss)) (concat (line s)))"
  using assms by (simp add: file_extent_def Let_def all_vertices_def)

lemma first_vertex_hd: "first_vertex ls = Some v \<Longrightarrow> hd (concat ls) = v"
  by (auto simp: first_vertex_def split: list.splits)

lemma file_bounds_extent:
  assumes "ls \<noteq> []" and "[] \<notin> set ls" and ls: "line s = ls" and n: "nRecords h = int (length ss + 1)"
    and b: "ss \<noteq> [] \<Longrightarrow> (adBoundsMin h, adBoundsMax h) = file_extent ss" and v: "ss \<noteq> [] \<Longrightarrow> all_vertices ss \<noteq> []"
  shows "file_bounds_with h ls = Some (h\<lparr>adBoundsMin := fst (file_extent (ss @ [s])), adBoundsMax := snd (file_extent (ss @ [s]))\<rparr>)"
proof (cases "ss = []")
  case True
  obtain v where "first_vertex ls = Some v" using vertices_exist [OF assms(1,2)] by blast
  then show ?thesis using True n ls first_vertex_hd [of ls v]
    by (simp add: file_bounds_with_def foldl_extend_bounds file_extent_def all_vertices_def Let_def coords_def)
next
  case False
  then have "adBoundsMin h = fst (file_extent ss)" "adBoundsMax h = snd (file_extent ss)" using b by (simp_all add: prod_eq_iff)
  then show ?thesis using False n ls file_extent_snoc [OF v [OF False], of s]
    by (simp add: file_bounds_with_def foldl_extend_bounds)
qed

lemma overwrite_end: "overwrite c (length c) bs = c @ bs"
  by (simp add: overwrite_def)

lemma writable_shapeD: "writable_shape ty s \<Longrightarrow> line s \<noteq> [] \<and> [] \<notin> set (line s) \<and> concat (line s) \<noteq> []"
  by (cases "line s") (auto simp: writable_shape_def countable_parts_def)

lemma all_vertices_ne: "ss \<noteq> [] \<Longrightarrow> \<forall>s\<in>set ss. writable_shape ty s \<Longrightarrow> all_vertices ss \<noteq> []"
  using writable_shapeD by (cases ss) (auto simp: all_vertices_def)

context writable_vsi
begin

lemma store_record_ok:
  assumes "nFileSize h = int (length (bytes (fpSHP h)))"
  shows "\<exists>f. store_record ops h n bs = (True, h\<lparr>fpSHP := f, panRecSize := (panRecSize h)[nat (nRecords h - 1) := int n],
      nFileSize := nFileSize h + int n + 8\<rparr>) \<and> bytes f = bytes (fpSHP h) @ bs"
proof -
  let ?c = "bytes (fpSHP h)"
  obtain f where f: "VSIFSeekL ops (fpSHP h) (length ?c) = (True, f)" "bytes f = ?c" "at f = length ?c"
    using seek [of "fpSHP h" "length ?c"] by blast
  have "bytes (VSIFWriteL ops f bs) = ?c @ bs" using store [of f bs] f by (simp add: overwrite_end)
  then show ?thesis using f(1) assms by (auto simp: store_record_def)
qed

text \<open>Writing a shape appends it, whatever the buffers held.\<close>

lemma write_shape_ok:
  assumes ok: "shp_ok bytes at h ss" and s: "writable_shape (nShapeType h) s"
    and lim: "nFileSize h + int (record_size (nShapeType h) (line s)) + 8 < 2 ^ 31"
  shows "\<exists>h'. msSHPWriteShape ops junk fresh be h s = Some (int (length ss), h', []) \<and> shp_ok bytes at h' (ss @ [s])
    \<and> nShapeType h' = nShapeType h \<and> nFileSize h' = nFileSize h + int (record_size (nShapeType h) (line s)) + 8"
proof -
  let ?ty = "nShapeType h" and ?n = "length ss" and ?siz = "record_size (nShapeType h) (line s)"
  have ty: "plain_type ?ty" and fs: "nFileSize h = int (length (bytes (fpSHP h)))" "100 + 28 * int ?n \<le> nFileSize h" "even (nFileSize h)"
    using ok unfolding shp_ok_def by blast+
  obtain h1 where 1: "start_record ops junk be h = (h1, [])" "started bytes h h1 ?n" using start_record_ok [OF ok] by blast
  define buf where "buf = map fresh [0..<buffer_size (line s)]"
  have lb: "length buf = buffer_size (line s)" by (simp add: buf_def)
  have bl: "buffer_size (line s) < 2 ^ 31" using s countable_buffer by (simp add: writable_shape_def)
  obtain r where r: "write_geometry be ?ty s buf = Some (?ty, ?siz, r)" "length r = buffer_size (line s)" "geometry_blocks ?ty (line s) r"
    using write_geometry_blocks [OF ty s lb, of be] lb by auto
  obtain bs where bs: "finish_record be (nRecords h1) ?ty ?siz r = Some bs" "length bs = ?siz + 8" "geometry_blocks ?ty (line s) bs"
    using finish_record_blocks [OF r(3,2) ty, of be "nRecords h1"] s r(2) bl by (auto simp: writable_shape_def)
  obtain f where 2: "store_record ops h1 ?siz bs = (True, h1\<lparr>fpSHP := f, panRecSize := (panRecSize h1)[nat (nRecords h1 - 1) := int ?siz],
      nFileSize := nFileSize h1 + int ?siz + 8\<rparr>)" "bytes f = bytes (fpSHP h) @ bs"
    using store_record_ok [of h1 ?siz bs] 1(2) fs by (auto simp: started_def)
  define h2 where "h2 = h1\<lparr>fpSHP := f, panRecSize := (panRecSize h1)[nat (nRecords h1 - 1) := int ?siz],
      nFileSize := nFileSize h1 + int ?siz + 8\<rparr>"
  define h3 where "h3 = h2\<lparr>adBoundsMin := fst (file_extent (ss @ [s])), adBoundsMax := snd (file_extent (ss @ [s]))\<rparr>"
  have 3: "file_bounds_with h2 (line s) = Some h3"
    unfolding h3_def using writable_shapeD [OF s] ok all_vertices_ne [of ss ?ty] 1(2)
    by (intro file_bounds_extent) (simp_all add: h2_def started_def shp_ok_def)
  have g: "nFileSize h \<noteq> 0" "nShapeType h1 = ?ty" using fs(2) 1(2) by (auto simp: started_def)
  have st: "store_record ops h1 ?siz bs = (True, h2)" using 2(1) by (simp add: h2_def)
  have n3: "nRecords h3 - 1 = int ?n" using 1(2) by (simp add: h3_def h2_def started_def)
  have c: "c_int (nat (nFileSize h2)) = Some (nat (nFileSize h2))"
    using lim fs(2) 1(2) by (intro c_int_Some) (simp add: h2_def started_def)
  have w: "msSHPWriteShape ops junk fresh be h s = Some (int ?n, h3, [])"
    unfolding msSHPWriteShape_def if_not_P [OF g(1)] 1(1) prod.case Let_def alloc_size_ok [OF bl] bind.bind_lunit
      buf_def [symmetric] g(2) r(1) by (simp add: bs(1) st 3 n3 c)
  have old: "holds_shape ?ty (bytes f) (panRecOffset h ! i) (panRecSize h ! i) (ss ! i)" if "i < ?n" for i
    using ok that by (simp add: shp_ok_def 2(2) holds_shape_append)
  have "holds_shape ?ty (bytes f) (nFileSize h) (int ?siz) s"
    unfolding 2(2) fs(1) using bs(2,3) fs by (intro holds_shape_new) simp_all
  then have "holds_shape ?ty (bytes f) (panRecOffset h3 ! i) (panRecSize h3 ! i) ((ss @ [s]) ! i)" if "i < Suc ?n" for i
    using old [of i] that 1(2) by (cases "i = ?n") (auto simp: h3_def h2_def started_def nth_append nth_list_update)
  then have "shp_ok bytes at h3 (ss @ [s])"
    using ok 1(2) s bs(2) fs 2(2) even_record_size [OF ty, of "line s"] record_size_pos [of ?ty "line s"]
    by (simp add: shp_ok_def h3_def h2_def started_def)
  then show ?thesis using w 1(2) by (auto simp: h3_def h2_def started_def)
qed

end

section \<open>Reading a shape\<close>

context posix_vsi
begin

lemma read_shape_holds:
  assumes i: "0 \<le> i" "i < nRecords h"
    and 1: "msSHXReadSize ops be h i = (siz, h1, [])"
    and 2: "msSHPReadAllocateBuffer ops be h1 i ''msSHPReadShape()'' = (True, h2, [])"
    and 3: "msSHXReadOffset ops be h2 i = (off, h3, [])"
    and s: "holds_shape (nShapeType h3) (bytes (fpSHP h3)) off siz s" "writable_shape (nShapeType h3) s" "plain_type (nShapeType h3)"
    and lim: "siz \<le> 2147483639" and pmax: "0 \<le> nPartMax h3"
  shows "\<exists>f pmax. msSHPReadShape ops be h i = Some (stored_shape (nShapeType h3) i s, h3\<lparr>fpSHP := f, nPartMax := pmax\<rparr>, [])
    \<and> bytes f = bytes (fpSHP h3) \<and> 0 \<le> pmax"
proof -
  obtain r where r: "record_bytes (bytes (fpSHP h3)) (nat off) (nat siz) = Some r" "geometry_blocks (nShapeType h3) (line s) r"
    using s(1) by (auto simp: holds_shape_def)
  have pos: "4 < siz" "0 < off" using s(1) record_size_pos [of "nShapeType h3" "line s"] by (auto simp: holds_shape_def)
  obtain f where f: "bytes f = bytes (fpSHP h3)" "msSHPReadShape ops be h i =
      map_option (\<lambda>(shape, pmax, errs). (shape, h3\<lparr>fpSHP := f, nPartMax := pmax\<rparr>, errs)) (read_record be (nShapeType h3) i r (nPartMax h3))"
    using read_shape_entry [OF i 1 2 3 pos(1) lim pos(2)] by (auto simp: r(1))
  obtain pm' where "read_record be (nShapeType h3) i r (nPartMax h3) = Some (stored_shape (nShapeType h3) i s, pm', [])" "0 \<le> pm'"
    using read_record_stored [OF r(2) s(3,2) pmax] by blast
  then show ?thesis using f by auto
qed

text \<open>Through the handle that writes: the index is in memory.\<close>

lemma read_written:
  assumes ok: "shp_ok bytes at h ss" and loaded: "panRecAllLoaded h" and i: "i < length ss" and lim: "nFileSize h < 2 ^ 31"
  shows "\<exists>h'. msSHPReadShape ops be h (int i) = Some (stored_shape (nShapeType h) (int i) (ss ! i), h', []) \<and> shp_ok bytes at h' ss
    \<and> panRecAllLoaded h' \<and> nFileSize h' = nFileSize h"
proof -
  let ?siz = "panRecSize h ! i" and ?off = "panRecOffset h ! i"
  have s: "holds_shape (nShapeType h) (bytes (fpSHP h)) ?off ?siz (ss ! i)" "writable_shape (nShapeType h) (ss ! i)"
    "plain_type (nShapeType h)" "0 \<le> nPartMax h" and n: "int i < nRecords h" using ok i by (auto simp: shp_ok_def)
  have sz: "0 < ?siz" "?siz \<le> 2147483639"
    using s(1) ok lim record_size_pos [of "nShapeType h" "line (ss ! i)"]
    by (auto simp: holds_shape_def shp_ok_def record_bytes_def split: if_splits)
  define h2 where "h2 = (if nBufSize h < ?siz + 8 then h\<lparr>nBufSize := ?siz + 8\<rparr> else h)"
  have e: "ensure_page ops be x p = (x, [])" if "panRecAllLoaded x" for x p using that by (simp add: ensure_page_def)
  have h2: "panRecAllLoaded h2" "nRecords h2 = nRecords h" "panRecOffset h2 = panRecOffset h" "nShapeType h2 = nShapeType h"
    "fpSHP h2 = fpSHP h" "nPartMax h2 = nPartMax h" "nFileSize h2 = nFileSize h" using loaded by (simp_all add: h2_def)
  have 1: "msSHXReadSize ops be h (int i) = (?siz, h, [])" using n e [OF loaded] by (simp add: msSHXReadSize_def)
  have 2: "msSHPReadAllocateBuffer ops be h (int i) ''msSHPReadShape()'' = (True, h2, [])"
    using 1 sz by (simp add: msSHPReadAllocateBuffer_def h2_def)
  have 3: "msSHXReadOffset ops be h2 (int i) = (?off, h2, [])" using n e [OF h2(1)] h2 by (simp add: msSHXReadOffset_def)
  obtain f pmax where f: "msSHPReadShape ops be h (int i) = Some (stored_shape (nShapeType h) (int i) (ss ! i), h2\<lparr>fpSHP := f, nPartMax := pmax\<rparr>, [])"
    "bytes f = bytes (fpSHP h)" "0 \<le> pmax"
    using read_shape_holds [OF _ n 1 2 3, of "ss ! i"] s sz h2 by auto
  have "shp_ok bytes at (h2\<lparr>fpSHP := f, nPartMax := pmax\<rparr>) ss" using ok f(2,3) by (auto simp: shp_ok_def h2_def)
  then show ?thesis using f(1) h2 by auto
qed

end

section \<open>The files after closing\<close>

lemma length_shp_header: "length lo = 4 \<Longrightarrow> length hi = 4 \<Longrightarrow> length (shp_header be half ty lo hi) = 100"
  by (simp add: shp_header_def Let_def)

lemma header_ints:
  assumes "0 \<le> half" and "half < 2 ^ 31"
  shows "shp_int be' (shp_header be half ty lo hi @ c) 24 = half"
proof -
  have "take 4 (drop 24 (shp_header be half ty lo hi @ c)) = put4 be' (\<not> be') (word_of_int half)"
    by (simp add: shp_header_def Let_def put4_be)
  then show ?thesis using assms by (simp add: shp_int_def sint_small_int)
qed

lemma header_doubles:
  "map (shp_double be' (shp_header be half ty lo hi)) [36, 44, 68, 84] = [lo ! 0, lo ! 1, lo ! 2, lo ! 3]"
  "map (shp_double be' (shp_header be half ty lo hi)) [52, 60, 76, 92] = [hi ! 0, hi ! 1, hi ! 2, hi ! 3]"
proof -
  have "get8 be' be' (le_bytes 8 d) = d" for d using get8_put8 [of be' be' d] by (simp only: put8_le)
  then show "map (shp_double be' (shp_header be half ty lo hi)) [36, 44, 68, 84] = [lo ! 0, lo ! 1, lo ! 2, lo ! 3]"
    "map (shp_double be' (shp_header be half ty lo hi)) [52, 60, 76, 92] = [hi ! 0, hi ! 1, hi ! 2, hi ! 3]"
    by (simp_all add: shp_double_def shp_header_def Let_def put8_le)
qed

lemma header_magic:
  "shp_header be half ty lo hi ! 0 = 0 \<and> shp_header be half ty lo hi ! 1 = 0 \<and> shp_header be half ty lo hi ! 2 = 0x27
     \<and> shp_header be half ty lo hi ! 3 = 0x0a"
  by (simp add: shp_header_def Let_def)

lemma header_type: "plain_type ty \<Longrightarrow> uint (shp_header be half ty lo hi ! 32) = ty"
proof -
  have "shp_header be half ty lo hi ! 32 = le_bytes 4 (word_of_int ty :: i32) ! 0"
    by (simp add: shp_header_def Let_def put4_le nth_append nth_Cons')
  also have "\<dots> = ucast (word_of_int ty :: i32)" by (simp add: le_bytes_def)
  finally show "plain_type ty \<Longrightarrow> uint (shp_header be half ty lo hi ! 32) = ty"
    by (auto simp: plain_type_def poly_type_def)
qed

lemma holds_be_int:
  assumes "holds c k (rev (le_bytes 4 (word_of_int x :: i32)))" and "- (2 ^ 31) \<le> x" and "x < 2 ^ 31"
  shows "shp_int be c k = x"
proof -
  have "take 4 (drop k c) = put4 be (\<not> be) (word_of_int x)" using holdsD [OF assms(1)] by (simp add: put4_be)
  then show ?thesis using assms(2,3) by (simp add: shp_int_def sint_small_int)
qed

lemma shx_double_half: "0 < x \<Longrightarrow> x < 2147483646 \<Longrightarrow> even x \<Longrightarrow> shx_double (x div 2) = x"
  by (auto simp: shx_double_def)

lemma shx_file_entry:
  assumes hdr: "length hdr = 100" and i: "i < nat (nRecords h)"
    and off: "0 < panRecOffset h ! i" "panRecOffset h ! i < 2147483646" "even (panRecOffset h ! i)"
    and siz: "0 < panRecSize h ! i" "panRecSize h ! i < 2147483646" "even (panRecSize h ! i)"
  shows "shx_entry be' (hdr @ shx_records be h) (nRecords h) i = (panRecOffset h ! i, panRecSize h ! i)"
proof -
  let ?n = "nat (nRecords h)" and ?c = "hdr @ shx_records be h"
  define f where "f = (\<lambda>i. rev (le_bytes 4 (word_of_int (panRecOffset h ! i div 2) :: i32)) @ rev (le_bytes 4 (word_of_int (panRecSize h ! i div 2) :: i32)))"
  have rec: "shx_records be h = concat (map f [0..<?n])" by (simp add: shx_records_def f_def put4_be)
  have lf: "length (f j) = 8" for j by (simp add: f_def)
  have len: "length ?c = 100 + 8 * ?n" using hdr by (simp add: rec length_concat_entries [of f 8, OF lf])
  have "holds ?c 100 (concat (map f [0..<?n]))" using hdr by (intro holdsI) (simp_all add: rec)
  then have hi: "holds ?c (100 + 8 * i) (f i)" using holds_entry [of ?c 100 f "[0..<?n]" 8 i] lf i by simp
  have "holds ?c (100 + 8 * i) (rev (le_bytes 4 (word_of_int (panRecOffset h ! i div 2) :: i32)))"
    "holds ?c (100 + 8 * i + 4) (rev (le_bytes 4 (word_of_int (panRecSize h ! i div 2) :: i32)))"
    using holds_part [OF hi, of 0 4] holds_part [OF hi, of 4 4] by (simp_all add: f_def)
  then have v: "shp_int be' ?c (100 + 8 * i) = panRecOffset h ! i div 2" "shp_int be' ?c (104 + 8 * i) = panRecSize h ! i div 2"
    using holds_be_int [of ?c "100 + 8 * i" "panRecOffset h ! i div 2" be'] off
      holds_be_int [of ?c "100 + 8 * i + 4" "panRecSize h ! i div 2" be'] siz by (auto simp: add.commute)
  have "i div 1024 * 1024 < ?n" using i by (metis div_times_less_eq_dividend le_less_trans)
  then have "100 + i div 1024 * 1024 * 8 + 8 * shx_count (nRecords h) (i div 1024) \<le> length ?c"
    using shx_count_range(2) [of "i div 1024" "nRecords h"] len by simp
  then show ?thesis using v off siz by (simp add: shx_entry_def Let_def shx_double_half)
qed

text \<open>The bytes of the two files when \<open>writeHeader\<close> has run.\<close>

context writable_vsi
begin

lemma writeHeader_bytes:
  assumes lo: "length (adBoundsMin h) = 4" "length (adBoundsMax h) = 4" and n: "0 \<le> nRecords h"
    and shp: "100 \<le> length (bytes (fpSHP h))" and shx: "length (bytes (fpSHX h)) \<le> 100 + 8 * nat (nRecords h)"
  shows "bytes (fpSHP (writeHeader_shp ops be h)) =
      shp_header be (nFileSize h div 2) (nShapeType h) (adBoundsMin h) (adBoundsMax h) @ drop 100 (bytes (fpSHP h))"
    and "bytes (fpSHX (writeHeader_shp ops be h)) =
      shp_header be (nRecords h * 4 + 50) (nShapeType h) (adBoundsMin h) (adBoundsMax h) @ shx_records be h"
proof -
  let ?hd = "\<lambda>half. shp_header be half (nShapeType h) (adBoundsMin h) (adBoundsMax h)"
  have l: "length (?hd x) = 100" for x using length_shp_header lo by blast
  have o: "overwrite c 0 (?hd x) = ?hd x @ drop 100 c" for c x using l by (simp add: overwrite_def)
  show "bytes (fpSHP (writeHeader_shp ops be h)) = ?hd (nFileSize h div 2) @ drop 100 (bytes (fpSHP h))"
    using seek_write(1) [of "fpSHP h" 0] by (simp add: writeHeader_shp_def Let_def o)
  have half: "(nRecords h * 2 * 4 + 100) div 2 = nRecords h * 4 + 50" by simp
  let ?f = "VSIFWriteL ops (snd (VSIFSeekL ops (fpSHX h) 0)) (?hd (nRecords h * 4 + 50))"
  have f: "bytes ?f = ?hd (nRecords h * 4 + 50) @ drop 100 (bytes (fpSHX h))" "at ?f = 100"
    using seek_write [of "fpSHX h" 0] l by (simp_all add: o)
  have "length (shx_records be h) = 8 * nat (nRecords h)"
    unfolding shx_records_def by (subst length_concat_entries [where w = 8]) simp_all
  then have "overwrite (bytes ?f) 100 (shx_records be h) = ?hd (nRecords h * 4 + 50) @ shx_records be h"
    using f l shx by (simp add: overwrite_def)
  then show "bytes (fpSHX (writeHeader_shp ops be h)) = ?hd (nRecords h * 4 + 50) @ shx_records be h"
    using store [of ?f "shx_records be h"] f(2) unfolding writeHeader_shp_def Let_def half by simp
qed

end

lemma holds_shape_header:
  assumes "holds_shape ty c off siz s" and "length hdr = 100"
  shows "holds_shape ty (hdr @ drop 100 c) off siz s"
proof -
  have "record_bytes (hdr @ drop 100 c) (nat off) (nat siz) = record_bytes c (nat off) (nat siz)"
    using assms by (auto simp: holds_shape_def record_bytes_def split: if_splits)
  then show ?thesis using assms(1) unfolding holds_shape_def by metis
qed

section \<open>Opening again\<close>

context posix_vsi
begin

lemma vread1_start:
  assumes "at f = 0" and "bytes f = hdr @ c" and "length hdr = 100"
  shows "\<exists>f'. vread1 ops f 100 = (Some hdr, f') \<and> bytes f' = bytes f"
  using read_all [of f 100 1] assms by (auto simp: vread1_def)

lemma open_written:
  assumes f1: "at f1 = 0" "bytes f1 = shp_header be half ty lo hi @ c1" and f2: "at f2 = 0" "bytes f2 = shp_header be (n * 4 + 50) ty lo hi @ c2"
    and len: "length lo = 4" "length hi = 4" and ty: "plain_type ty" and n: "0 \<le> n" "n \<le> 256000000" and half: "0 \<le> half" "half \<le> 1073741823"
  shows "\<exists>h. msSHPOpenVirtualFile ops junk be' f1 f2 = (Some h, []) \<and> nRecords h = n \<and> nShapeType h = ty \<and> nFileSize h = half * 2
    \<and> adBoundsMin h = lo \<and> adBoundsMax h = hi \<and> nPartMax h = 0 \<and> bytes (fpSHP h) = bytes f1 \<and> bytes (fpSHX h) = bytes f2
    \<and> shx_inv be' bytes h \<and> at (fpSHX h) = 100 \<and> nMaxRecords h = n \<and> length (panRecOffset h) = nat n \<and> length (panRecSize h) = nat n"
proof -
  let ?h1 = "shp_header be half ty lo hi" and ?h2 = "shp_header be (n * 4 + 50) ty lo hi"
  obtain g1 g2 where g: "vread1 ops f1 100 = (Some ?h1, g1)" "bytes g1 = bytes f1" "vread1 ops f2 100 = (Some ?h2, g2)" "bytes g2 = bytes f2"
    using vread1_start [OF f1 length_shp_header [OF len]] vread1_start [OF f2 length_shp_header [OF len]] by blast
  have i: "shp_int be' ?h1 24 = half" "shp_int be' ?h2 24 = n * 4 + 50"
    using header_ints [of half be' be ty lo hi "[]"] header_ints [of "n * 4 + 50" be' be ty lo hi "[]"] half n by simp_all
  let ?h = "init_handle junk be' g1 g2 ?h2 (half * 2) n"
  have "msSHPOpenVirtualFile ops junk be' f1 f2 = (Some ?h, [])"
    unfolding msSHPOpenVirtualFile_def g(1,3) using header_magic [of be "n * 4 + 50" ty lo hi] i n half by (simp add: Let_def)
  moreover have "lo = [lo ! 0, lo ! 1, lo ! 2, lo ! 3]" "hi = [hi ! 0, hi ! 1, hi ! 2, hi ! 3]"
    using len by (auto simp: eval_nat_numeral length_Suc_conv)
  then have "adBoundsMin ?h = lo" "adBoundsMax ?h = hi" "nShapeType ?h = ty"
    using header_doubles [of be' be "n * 4 + 50" ty lo hi] header_type [OF ty] by (simp_all add: init_handle_def)
  ultimately show ?thesis
    using msSHPOpenVirtualFile_inv [of junk be' f1 f2 ?h "[]"] g f2(1) by (auto simp: init_handle_def)
qed

lemma ensure_page_quiet:
  assumes "100 + 8 * nat (nRecords h) \<le> length (bytes (fpSHX h))" and "page * 1024 < nat (nRecords h)"
  shows "snd (ensure_page ops be h page) = []"
proof (cases "panRecAllLoaded h \<or> msGetBit (panRecLoaded h) page")
  case True
  then show ?thesis by (simp add: ensure_page_def)
next
  case False
  let ?n = "shx_count (nRecords h) page"
  obtain b f1 where s: "VSIFSeekL ops (fpSHX h) (100 + page * 1024 * 8) = (b, f1)" by fastforce
  have "100 + page * 1024 * 8 + 8 * ?n \<le> length (bytes (fpSHX h))" using shx_count_range(2) [OF assms(2)] assms(1) by simp
  then show ?thesis using False seek_read_all [OF s, of 8 ?n] s
    by (auto simp: ensure_page_def msSHXLoadPage_def page_count_eq Let_def)
qed

text \<open>A handle on a complete index whose entries and records are right reads the shapes.\<close>

definition reads_list :: "bool \<Rightarrow> 'f SHPInfo \<Rightarrow> shapeObj list \<Rightarrow> bool" where
  "reads_list be h ss \<longleftrightarrow> shx_inv be bytes h \<and> nRecords h = int (length ss) \<and> 0 \<le> nPartMax h
     \<and> 100 + 8 * length ss \<le> length (bytes (fpSHX h)) \<and> plain_type (nShapeType h) \<and> length (bytes (fpSHP h)) < 2 ^ 31
     \<and> (\<forall>i<length ss. writable_shape (nShapeType h) (ss ! i)
          \<and> (case shx_entry be (bytes (fpSHX h)) (nRecords h) i of (off, siz) \<Rightarrow> holds_shape (nShapeType h) (bytes (fpSHP h)) off siz (ss ! i)))"

lemma reads_list_kept:
  "reads_list be h ss \<Longrightarrow> kept be h h' \<Longrightarrow> 0 \<le> nPartMax h' \<Longrightarrow> reads_list be h' ss"
  unfolding reads_list_def kept_def same_file_def by (elim conjE) simp

lemma nPartMax_page: "nPartMax (fst (ensure_page ops be h page)) = nPartMax h"
  by (auto simp: ensure_page_def msSHXLoadPage_def store_page_def Let_def split: prod.split bool.split)

lemma read_listed:
  assumes ok: "reads_list be h ss" and i: "i < length ss"
  shows "\<exists>h'. msSHPReadShape ops be h (int i) = Some (stored_shape (nShapeType h) (int i) (ss ! i), h', []) \<and> reads_list be h' ss \<and> nShapeType h' = nShapeType h"
proof -
  obtain off siz where e: "shx_entry be (bytes (fpSHX h)) (nRecords h) i = (off, siz)" by fastforce
  have s: "holds_shape (nShapeType h) (bytes (fpSHP h)) off siz (ss ! i)" "writable_shape (nShapeType h) (ss ! i)"
    "plain_type (nShapeType h)" and n: "0 \<le> int i" "int i < nRecords h" and inv: "shx_inv be bytes h"
    using ok i e by (auto simp: reads_list_def)
  have sz: "0 < siz" "siz \<le> 2147483639"
    using s(1) ok record_size_pos [of "nShapeType h" "line (ss ! i)"]
    by (auto simp: holds_shape_def reads_list_def record_bytes_def split: if_splits)
  have page: "nat (int i) div 1024 * 1024 < nat (nRecords h)" using n by linarith
  have quiet: "\<exists>h'. msSHXReadSize ops be x (int i) = (siz, h', []) \<and> msSHXReadOffset ops be x (int i) = (off, h', [])
      \<and> kept be h h' \<and> nPartMax h' = nPartMax x" if k: "kept be h x" for x
  proof -
    have x: "shx_inv be bytes x" "nRecords x = nRecords h" "bytes (fpSHX x) = bytes (fpSHX h)" using k by (auto simp: kept_def same_file_def)
    obtain h' es where h': "ensure_page ops be x (nat (int i) div 1024) = (h', es)" by fastforce
    have es: "es = []" using ensure_page_quiet [of x "nat (int i) div 1024" be] h' page ok x by (simp add: reads_list_def)
    have r: "msSHXReadSize ops be x (int i) = (panRecSize h' ! i, h', [])" "msSHXReadOffset ops be x (int i) = (panRecOffset h' ! i, h', [])"
      using h' es n x(2) by (simp_all add: msSHXReadSize_def msSHXReadOffset_def)
    have "panRecSize h' ! i = siz" "panRecOffset h' ! i = off"
      using msSHXRead_spec [OF x(1), of "int i"] n x(2,3) e r by auto
    moreover have "kept be h h'" by (rule kept_trans [OF k kept_SHX(1) [OF x(1) r(2)]])
    moreover have "nPartMax h' = nPartMax x" using nPartMax_page [of be x "nat (int i) div 1024"] h' by simp
    ultimately show ?thesis using r by simp
  qed
  obtain h1 where 1: "msSHXReadSize ops be h (int i) = (siz, h1, [])" "kept be h h1" "nPartMax h1 = nPartMax h"
    using quiet [OF kept_refl [OF inv]] by blast
  obtain h1' where buf: "msSHXReadSize ops be h1 (int i) = (siz, h1', [])" "kept be h h1'" "nPartMax h1' = nPartMax h"
    using quiet [OF 1(2)] 1(3) by auto
  define h2 where "h2 = (if nBufSize h1' < siz + 8 then h1'\<lparr>nBufSize := siz + 8\<rparr> else h1')"
  have 2: "msSHPReadAllocateBuffer ops be h1 (int i) ''msSHPReadShape()'' = (True, h2, [])"
    using buf(1) sz by (simp add: msSHPReadAllocateBuffer_def h2_def)
  have k2: "kept be h h2" "nPartMax h2 = nPartMax h" using buf(2,3) by (simp_all add: h2_def kept_def same_file_upd)
  obtain h3 where 3: "msSHXReadOffset ops be h2 (int i) = (off, h3, [])" "kept be h h3" "nPartMax h3 = nPartMax h"
    using quiet [OF k2(1)] k2(2) by auto
  have h3: "nShapeType h3 = nShapeType h" "bytes (fpSHP h3) = bytes (fpSHP h)" using 3(2) by (auto simp: kept_def same_file_def)
  obtain f pmax where f: "msSHPReadShape ops be h (int i) = Some (stored_shape (nShapeType h) (int i) (ss ! i), h3\<lparr>fpSHP := f, nPartMax := pmax\<rparr>, [])"
    "bytes f = bytes (fpSHP h3)" "0 \<le> pmax"
    using read_shape_holds [OF n 1(1) 2 3(1), of "ss ! i"] s sz h3 3(3) ok by (auto simp: reads_list_def)
  have "kept be h (h3\<lparr>fpSHP := f, nPartMax := pmax\<rparr>)" using 3(2) f(2) by (simp add: kept_def same_file_upd)
  then have "reads_list be (h3\<lparr>fpSHP := f, nPartMax := pmax\<rparr>) ss" using reads_list_kept [OF ok] f(3) by simp
  then show ?thesis using f(1) h3(1) by auto
qed

lemma read_all_listed:
  assumes "reads_list be h ss" and "\<And>i. i \<in> set is \<Longrightarrow> i < length ss"
  shows "\<exists>h'. read_shapes ops be h (map int is) = Some (map (\<lambda>i. stored_shape (nShapeType h) (int i) (ss ! i)) is, h')"
  using assms
proof (induction "is" arbitrary: h)
  case (Cons i "is")
  obtain h1 where 1: "msSHPReadShape ops be h (int i) = Some (stored_shape (nShapeType h) (int i) (ss ! i), h1, [])"
    "reads_list be h1 ss" "nShapeType h1 = nShapeType h" using read_listed [OF Cons.prems(1), of i] Cons.prems(2) by auto
  then show ?case using Cons.IH [OF 1(2)] Cons.prems(2) by auto
qed simp

end

end
