(* ===== verification/ShapeStore.thy ===== *)
theory ShapeStore
  imports ShapeFile
begin

text \<open>
  Shapefiles on a disk: creating one, writing shapes, closing it, opening it again by name and
  reading. The lemmas are proved in the locale \<open>disk_vsi\<close>, for any file system with its laws.
\<close>

section \<open>Names of the open files\<close>

definition named :: "('f \<Rightarrow> string) \<Rightarrow> string \<Rightarrow> 'f SHPInfo \<Rightarrow> bool" where
  "named name_of base h \<longleftrightarrow> name_of (fpSHP h) = base @ ''.shp'' \<and> name_of (fpSHX h) = base @ ''.shx''"

text \<open>Writing several shapes; \<open>fresh n\<close> is what the buffer for record \<open>n\<close> holds at first.\<close>

fun write_shapes ::
  "'f vsi_rw \<Rightarrow> (nat \<Rightarrow> int) \<Rightarrow> (nat \<Rightarrow> nat \<Rightarrow> byte) \<Rightarrow> bool \<Rightarrow> 'f SHPInfo \<Rightarrow> shapeObj list \<Rightarrow> 'f SHPInfo option" where
  "write_shapes ops junk fresh be h [] = Some h"
| "write_shapes ops junk fresh be h (s # ss) =
     do {
       (_, h1, _) \<leftarrow> msSHPWriteShape ops junk (fresh (nat (nRecords h))) be h s;
       write_shapes ops junk fresh be h1 ss
     }"

definition file_need :: "int \<Rightarrow> shapeObj list \<Rightarrow> int" where
  "file_need ty ss = 100 + sum_list (map (\<lambda>s. int (record_size ty (line s)) + 8) ss)"

context disk_vsi
begin

lemma name_LoadAll: "name_of (fpSHX (fst (snd (msSHXLoadAll ops be h)))) = name_of (fpSHX h)"
  "fpSHP (fst (snd (msSHXLoadAll ops be h))) = fpSHP h"
  using keep_name(3) [of "fpSHX h" 8 "nat (nRecords h)"] by (auto simp: msSHXLoadAll_def Let_def split: prod.split)

lemma name_start:
  assumes "start_record ops junk be h = (h1, es)"
  shows "name_of (fpSHP h1) = name_of (fpSHP h)" "name_of (fpSHX h1) = name_of (fpSHX h)"
  using assms name_LoadAll [of be "h\<lparr>bUpdated := True\<rparr>"]
  by (auto simp: start_record_def new_entity_def Let_def split: prod.splits if_splits)

lemma name_store:
  assumes "store_record ops h n bs = (ok, h2)"
  shows "name_of (fpSHP h2) = name_of (fpSHP h)" "fpSHX h2 = fpSHX h"
  using assms keep_name(1,2) [of "fpSHP h"] keep_name(1) [of "snd (VSIFSeekL ops (fpSHP h) (nat (nFileSize h)))" bs]
  by (auto simp: store_record_def split: prod.splits bool.splits) (metis keep_name(1,2) snd_conv)+

lemma name_bounds: "file_bounds_with h ls = Some h' \<Longrightarrow> fpSHP h' = fpSHP h \<and> fpSHX h' = fpSHX h"
  by (auto simp: file_bounds_with_def foldl_extend_bounds bind_eq_Some_conv Let_def split: if_splits)

lemma name_write:
  assumes "msSHPWriteShape ops junk fresh be h s = Some (i, h', es)"
  shows "named name_of base h' = named name_of base h"
proof (cases "nFileSize h = 0")
  case True
  then show ?thesis using assms by (simp add: msSHPWriteShape_def)
next
  case False
  obtain h1 e1 where 1: "start_record ops junk be h = (h1, e1)" by fastforce
  obtain sz where sz: "alloc_size_of (line s) = Some sz"
    using assms False 1 by (cases "alloc_size_of (line s)") (auto simp: msSHPWriteShape_def)
  define buf where "buf = map fresh [0..<sz]"
  note w = assms [unfolded msSHPWriteShape_def if_not_P [OF False] 1 prod.case Let_def sz bind.bind_lunit buf_def [symmetric]]
  obtain ty n r where g: "write_geometry be (nShapeType h1) s buf = Some (ty, n, r)"
    using w by (cases "write_geometry be (nShapeType h1) s buf") auto
  obtain bs where b: "finish_record be (nRecords h1) ty n r = Some bs"
    using w g by (cases "finish_record be (nRecords h1) ty n r") auto
  obtain ok h2 where 2: "store_record ops h1 n bs = (ok, h2)" by fastforce
  have 3: "ok \<and> file_bounds_with h2 (line s) = Some h' \<or> \<not> ok \<and> h' = h2"
    using w g b 2 by (cases ok) (auto simp: bind_eq_Some_conv)
  show ?thesis using name_start [OF 1] name_store [OF 2] 3 name_bounds [of h2 "line s" h'] by (auto simp: named_def)
qed

lemma name_open:
  assumes "msSHPOpenVirtualFile ops junk be f1 f2 = (Some h, es)"
  shows "name_of (fpSHP h) = name_of f1 \<and> name_of (fpSHX h) = name_of f2"
proof -
  have v: "name_of (snd (vread1 ops f n)) = name_of f" for f n
    using keep_name(3) [of f n 1] by (auto simp: vread1_def split: prod.split)
  have "fpSHP h = snd (vread1 ops f1 100) \<and> fpSHX h = snd (vread1 ops f2 100)"
    using assms by (auto simp: msSHPOpenVirtualFile_def init_handle_def Let_def split: prod.splits option.splits if_splits)
  then show ?thesis using v by simp
qed

section \<open>Writing\<close>

lemma file_need_mono: "file_need ty ss \<le> file_need ty (ss @ ss')"
  by (induction ss' rule: rev_induct) (simp_all add: file_need_def)

lemma write_shapes_ok:
  assumes "shp_ok bytes at h ss0" and "\<forall>s\<in>set ss. writable_shape (nShapeType h) s" and "named name_of base h"
    and "nFileSize h = file_need (nShapeType h) ss0" and "file_need (nShapeType h) (ss0 @ ss) < 2 ^ 31"
  shows "\<exists>h'. write_shapes ops junk fresh be h ss = Some h' \<and> shp_ok bytes at h' (ss0 @ ss) \<and> nShapeType h' = nShapeType h
    \<and> named name_of base h' \<and> nFileSize h' = file_need (nShapeType h) (ss0 @ ss)"
  using assms
proof (induction ss arbitrary: h ss0)
  case (Cons s ss)
  have lim: "nFileSize h + int (record_size (nShapeType h) (line s)) + 8 < 2 ^ 31"
    using Cons.prems(4,5) file_need_mono [of "nShapeType h" "ss0 @ [s]" ss] by (simp add: file_need_def)
  obtain h1 where 1: "msSHPWriteShape ops junk (fresh (nat (nRecords h))) be h s = Some (int (length ss0), h1, [])"
    "shp_ok bytes at h1 (ss0 @ [s])" "nShapeType h1 = nShapeType h" "nFileSize h1 = nFileSize h + int (record_size (nShapeType h) (line s)) + 8"
    using write_shape_ok [OF Cons.prems(1) _ lim, of junk "fresh (nat (nRecords h))" be] Cons.prems(2) by auto
  have "nFileSize h1 = file_need (nShapeType h1) (ss0 @ [s])" using 1(3,4) Cons.prems(4) by (simp add: file_need_def)
  moreover have "named name_of base h1" using name_write [OF 1(1)] Cons.prems(3) by simp
  ultimately show ?case using Cons.IH [OF 1(2)] Cons.prems(2,5) 1(1,3) by simp
qed simp

section \<open>Closing and opening\<close>

lemma open_ext_old:
  assumes "mode = ''rb'' \<or> mode = ''r+b''" and "disk fs (base @ ext) = Some c"
  shows "\<exists>f. open_ext dsk fs base ext ext' mode = (Some f, fs) \<and> bytes f = c \<and> at f = 0 \<and> name_of f = base @ ext"
  using open_old [OF assms] by (auto simp: open_ext_def)

lemma msSHPOpen_files:
  assumes "disk fs (base_name layer @ ''.shp'') = Some c1" and "disk fs (base_name layer @ ''.shx'') = Some c2"
  shows "\<exists>f1 f2. bytes f1 = c1 \<and> at f1 = 0 \<and> bytes f2 = c2 \<and> at f2 = 0 \<and> name_of f1 = base_name layer @ ''.shp''
    \<and> name_of f2 = base_name layer @ ''.shx''
    \<and> (\<forall>h es. msSHPOpenVirtualFile ops junk be f1 f2 = (Some h, es) \<longrightarrow> msSHPOpen ops dsk junk be fs layer acc = (Some h, fs, es))"
proof -
  define mode where "mode = (if acc = ''rb+'' \<or> acc = ''r+b'' \<or> acc = ''r+'' then ''r+b'' else ''rb'')"
  have m: "mode = ''rb'' \<or> mode = ''r+b''" by (simp add: mode_def)
  obtain f1 f2 where "open_ext dsk fs (base_name layer) ''.shp'' ''.SHP'' mode = (Some f1, fs)" "bytes f1 = c1" "at f1 = 0"
    "name_of f1 = base_name layer @ ''.shp''"
    "open_ext dsk fs (base_name layer) ''.shx'' ''.SHX'' mode = (Some f2, fs)" "bytes f2 = c2" "at f2 = 0"
    "name_of f2 = base_name layer @ ''.shx''"
    using open_ext_old [OF m assms(1)] open_ext_old [OF m assms(2)] by blast
  then show ?thesis by (intro exI [of _ f1] exI [of _ f2]) (simp add: msSHPOpen_def mode_def [symmetric] Let_def)
qed

lemma close_disk:
  assumes "named name_of base h" and "bUpdated h"
  shows "disk (msSHPClose ops dsk be h fs) (base @ ''.shp'') = Some (bytes (fpSHP (writeHeader_shp ops be h)))"
    and "disk (msSHPClose ops dsk be h fs) (base @ ''.shx'') = Some (bytes (fpSHX (writeHeader_shp ops be h)))"
proof -
  have "named name_of base (writeHeader_shp ops be h)" using assms(1) by (simp add: named_def writeHeader_shp_def Let_def keep_name)
  then show "disk (msSHPClose ops dsk be h fs) (base @ ''.shp'') = Some (bytes (fpSHP (writeHeader_shp ops be h)))"
    "disk (msSHPClose ops dsk be h fs) (base @ ''.shx'') = Some (bytes (fpSHX (writeHeader_shp ops be h)))"
    using assms(2) by (simp_all add: msSHPClose_def Let_def close_file named_def)
qed

end

lemma length_file_extent: "length (fst (file_extent ss)) = 4" "length (snd (file_extent ss)) = 4"
  unfolding file_extent_def Let_def fst_conv snd_conv by (rule length_foldl_map2, simp add: coords_def)+

context disk_vsi
begin

lemma created_ok:
  assumes c: "msSHPCreate ops dsk junk be fs layer ty = (Some h, fs1, es)" and ty: "plain_type ty"
  shows "shp_ok bytes at h [] \<and> nShapeType h = ty \<and> named name_of (base_name layer) h \<and> nFileSize h = 100 \<and> es = []"
proof -
  let ?b = "base_name layer" and ?z = "[0, 0, 0, 0]"
  let ?hd = "shp_header be 50 ty ?z ?z"
  obtain shp fsa where 1: "VSIFOpenL dsk fs (?b @ ''.shp'') ''wb'' = (Some shp, fsa)"
    using c by (auto simp: msSHPCreate_def Let_def split: prod.splits option.splits)
  obtain shx fsb where 2: "VSIFOpenL dsk fsa (?b @ ''.shx'') ''wb'' = (Some shx, fsb)"
    using c 1 by (auto simp: msSHPCreate_def Let_def split: prod.splits option.splits)
  define fs4 where "fs4 = VSIFCloseL dsk (VSIFCloseL dsk fsb (VSIFWriteL ops shp ?hd)) (VSIFWriteL ops shx ?hd)"
  have o: "msSHPOpen ops dsk junk be fs4 layer ''rb+'' = (Some h, fs1, es)"
    using c 1 2 by (simp add: msSHPCreate_def Let_def fs4_def)
  have w: "bytes (VSIFWriteL ops shp ?hd) = ?hd" "bytes (VSIFWriteL ops shx ?hd) = ?hd"
    "name_of (VSIFWriteL ops shp ?hd) = ?b @ ''.shp''" "name_of (VSIFWriteL ops shx ?hd) = ?b @ ''.shx''"
    using open_new [OF 1] open_new [OF 2] store [of shp ?hd] store [of shx ?hd] keep_name(1) by (simp_all add: overwrite_def)
  have "disk fs4 (?b @ ''.shp'') = Some ?hd" "disk fs4 (?b @ ''.shx'') = Some ?hd" by (simp_all add: fs4_def close_file w)
  then obtain f1 f2 where f: "bytes f1 = ?hd" "at f1 = 0" "bytes f2 = ?hd" "at f2 = 0" "name_of f1 = ?b @ ''.shp''" "name_of f2 = ?b @ ''.shx''"
    "\<And>h es. msSHPOpenVirtualFile ops junk be f1 f2 = (Some h, es) \<Longrightarrow> msSHPOpen ops dsk junk be fs4 layer ''rb+'' = (Some h, fs4, es)"
    using msSHPOpen_files [of fs4 layer ?hd ?hd junk be "''rb+''"] by blast
  obtain h0 where h0: "msSHPOpenVirtualFile ops junk be f1 f2 = (Some h0, [])" "nRecords h0 = 0" "nShapeType h0 = ty" "nFileSize h0 = 100"
    "nPartMax h0 = 0" "bytes (fpSHP h0) = ?hd" "bytes (fpSHX h0) = ?hd" "at (fpSHX h0) = 100" "nMaxRecords h0 = 0"
    "panRecOffset h0 = []" "panRecSize h0 = []"
    using open_written [of f1 be 50 ty ?z ?z "[]" f2 0 "[]" junk be] f ty by auto
  have "h = h0" "es = []" using f(7) [OF h0(1)] o by auto
  moreover have "named name_of ?b h0" using name_open [OF h0(1)] f by (simp add: named_def)
  moreover have "length ?hd = 100" by (rule length_shp_header) simp_all
  ultimately show ?thesis using h0 ty by (simp add: shp_ok_def)
qed

lemma reopen_ok:
  assumes ok: "shp_ok bytes at h ss" and ne: "ss \<noteq> []" and nm: "named name_of (base_name layer) h" and lim: "nFileSize h < 2147483646"
  shows "\<exists>h2. msSHPOpen ops dsk junk be' (msSHPClose ops dsk be h fs) layer acc = (Some h2, msSHPClose ops dsk be h fs, [])
    \<and> reads_list be' h2 ss \<and> nShapeType h2 = nShapeType h \<and> (adBoundsMin h2, adBoundsMax h2) = file_extent ss
    \<and> nFileSize h2 = nFileSize h"
proof -
  let ?fs = "msSHPClose ops dsk be h fs" and ?ty = "nShapeType h" and ?lo = "adBoundsMin h" and ?hi = "adBoundsMax h" and ?n = "nRecords h"
  note k = ok [unfolded shp_ok_def]
  have b: "length ?lo = 4" "length ?hi = 4" "(?lo, ?hi) = file_extent ss" "bUpdated h" "plain_type ?ty" "?n = int (length ss)"
    "even (nFileSize h)" "nFileSize h = int (length (bytes (fpSHP h)))" "100 \<le> length (bytes (fpSHP h))" "0 \<le> ?n" "?n \<le> 256000000"
    "length (bytes (fpSHX h)) \<le> 100 + 8 * nat ?n"
    using k ne lim length_file_extent [of ss] by (auto simp: prod_eq_iff)
  let ?c1 = "shp_header be (nFileSize h div 2) ?ty ?lo ?hi @ drop 100 (bytes (fpSHP h))"
  let ?c2 = "shp_header be (?n * 4 + 50) ?ty ?lo ?hi @ shx_records be h"
  have d: "disk ?fs (base_name layer @ ''.shp'') = Some ?c1" "disk ?fs (base_name layer @ ''.shx'') = Some ?c2"
    using close_disk [OF nm b(4), of be fs] writeHeader_bytes [OF b(1,2,10,9,12), of be] by simp_all
  obtain f1 f2 where f: "bytes f1 = ?c1" "at f1 = 0" "bytes f2 = ?c2" "at f2 = 0"
    "\<And>h es. msSHPOpenVirtualFile ops junk be' f1 f2 = (Some h, es) \<Longrightarrow> msSHPOpen ops dsk junk be' ?fs layer acc = (Some h, ?fs, es)"
    using msSHPOpen_files [OF d, of junk be' acc] by blast
  have half: "0 \<le> nFileSize h div 2" "nFileSize h div 2 \<le> 1073741823" using lim b(8) by linarith+
  obtain h2 where h2: "msSHPOpenVirtualFile ops junk be' f1 f2 = (Some h2, [])" "nRecords h2 = ?n" "nShapeType h2 = ?ty"
    "nFileSize h2 = nFileSize h div 2 * 2" "adBoundsMin h2 = ?lo" "adBoundsMax h2 = ?hi" "nPartMax h2 = 0" "bytes (fpSHP h2) = ?c1"
    "bytes (fpSHX h2) = ?c2" "shx_inv be' bytes h2"
    using open_written [OF f(2,1,4,3) b(1,2,5,10,11) half, of junk be'] f(1,3) by auto
  have hl: "length (shp_header be x ?ty ?lo ?hi) = 100" for x using length_shp_header b by blast
  have entry: "shx_entry be' ?c2 ?n i = (panRecOffset h ! i, panRecSize h ! i)"
      "holds_shape ?ty ?c1 (panRecOffset h ! i) (panRecSize h ! i) (ss ! i)" if "i < length ss" for i
  proof -
    have s: "holds_shape ?ty (bytes (fpSHP h)) (panRecOffset h ! i) (panRecSize h ! i) (ss ! i)" using k that by simp
    then show "holds_shape ?ty ?c1 (panRecOffset h ! i) (panRecSize h ! i) (ss ! i)" by (rule holds_shape_header) (rule hl)
    have "nat (panRecOffset h ! i) + nat (panRecSize h ! i) + 8 \<le> length (bytes (fpSHP h))"
      using s by (auto simp: holds_shape_def record_bytes_def split: if_splits)
    then have l: "panRecOffset h ! i + panRecSize h ! i < 2147483646" using lim b(8) by linarith
    show "shx_entry be' ?c2 ?n i = (panRecOffset h ! i, panRecSize h ! i)"
      using s that l b(5,6) record_size_pos [of ?ty "line (ss ! i)"] even_record_size [of ?ty "line (ss ! i)"]
      by (intro shx_file_entry [OF hl]) (auto simp: holds_shape_def)
  qed
  have "length ?c2 = 100 + 8 * length ss"
    using hl length_concat_entries [of "\<lambda>i. put4 be (\<not> be) (word_of_int (panRecOffset h ! i div 2)) @ put4 be (\<not> be) (word_of_int (panRecSize h ! i div 2))" 8 "[0..<nat ?n]"]
    by (simp add: shx_records_def b(6))
  moreover have "length ?c1 < 2 ^ 31" using hl b(8,9) lim by simp
  ultimately have "reads_list be' h2 ss" using h2 entry k by (simp add: reads_list_def b(5,6))
  then show ?thesis using f(5) [OF h2(1)] h2 b(3,7) by simp
qed

end

section \<open>The writer stays inside its buffer\<close>

text \<open>Every type, the ones included whose blocks overlap; the null shape writes nothing here.\<close>

definition has_vertices :: "shapeObj \<Rightarrow> bool" where
  "has_vertices s \<longleftrightarrow> shape_type s = MS_SHAPE_NULL \<or> line s \<noteq> [] \<and> [] \<notin> set (line s)"

lemma write_multi_inside:
  assumes ls: "ls \<noteq> []" "[] \<notin> set ls" and r: "length r = buffer_size ls" and lim: "length r < 2 ^ 31"
  shows "\<exists>n r'. write_multi be ty ls r = Some (n, r') \<and> length r' = length r \<and> n + 8 \<le> length r"
proof -
  obtain l ls' where l: "ls = l # ls'" using ls by (cases ls) auto
  have sub: "length l \<le> length (concat ls)" by (simp add: l)
  have l1: "[l] \<noteq> []" "[] \<notin> set [l]" using ls by (auto simp: l)
  obtain v w where vw: "first_vertex [l] = Some v" "last_vertex [l] = Some w" using vertices_exist [OF l1] by blast
  obtain e where e: "shape_extent ls = Some e" using vertices_exist [OF ls] by blast
  define N where "N = length (concat ls)"
  have r': "length r = 32 * N + 8 * length ls + 128" using r by (simp add: buffer_size_def N_def)
  define r1 where "r1 = put_range 12 (put_rect be be e) r"
  define r2 where "r2 = put_range 44 (int_bytes N) r1"
  define r3 where "r3 = put_range 48 (concat (map point_bytes l)) r2"
  have len: "length r1 = length r" "length r2 = length r" "length r3 = length r"
    using r' sub by (simp_all add: r1_def r2_def r3_def block_lengths N_def)
  have 1: "writeBounds be 12 ls r = Some r1" using e r' by (simp add: writeBounds_def r1_def poke_Some block_lengths)
  have 2: "poke_int be 44 (int N) r1 = Some r2" unfolding r2_def using r' len by (intro poke_int_bytes) simp
  have 3: "poke_points be 48 0 l r2 = Some r3"
    unfolding r3_def using r' sub len lim poke_points_block [of 48 0 l r2 be] by (simp add: N_def)
  have c40: "c_int (40 + 16 * N) = Some (40 + 16 * N)" using r' lim by (simp add: c_int_def)
  have x: "write_extra be f (40 + 16 * N) [l] r3 = Some (40 + 16 * N + 16 + 8 * length l, put_range (40 + 16 * N) (value_block f v w [l]) r3)" for f
    using write_extra_block [OF vw, of "40 + 16 * N" r3 be f] r' sub len lim by (simp add: N_def)
  have lx: "length (put_range (40 + 16 * N) (value_block f v w [l]) r3) = length r" for f
    using r' sub len by (simp add: N_def)
  have c: "(case ls of [] \<Rightarrow> None | l # _ \<Rightarrow> Some l) = Some l" by (simp add: l)
  have "write_multi be ty ls r = (if ty = 28 then write_extra be pm (40 + 16 * N) [l] r3
      else if ty = 18 then write_extra be pz (40 + 16 * N) [l] r3 else Some (40 + 16 * N, r3))"
    unfolding write_multi_def N_def [symmetric] Let_def c c40 using 1 2 3 x by simp
  then show ?thesis using x lx len r' sub by (auto simp: N_def)
qed

lemma write_geometry_inside:
  assumes s: "has_vertices s" and r: "length r = buffer_size (line s)" and lim: "length r < 2 ^ 31"
  shows "\<exists>t n r'. write_geometry be ty s r = Some (t, n, r') \<and> length r' = length r \<and> n + 8 \<le> length r"
proof (cases "shape_type s = MS_SHAPE_NULL")
  case True
  then show ?thesis using r by (simp add: write_geometry_def buffer_size_def)
next
  case False
  then have ls: "line s \<noteq> []" "[] \<notin> set (line s)" using s by (simp_all add: has_vertices_def)
  obtain e v where e: "shape_extent (line s) = Some e" "first_vertex (line s) = Some v" using vertices_exist [OF ls] by blast
  consider "poly_type ty" | "\<not> poly_type ty" "multi_type ty" | "\<not> poly_type ty" "\<not> multi_type ty" by blast
  then show ?thesis
  proof cases
    case 1
    then show ?thesis using False write_poly_blocks [OF ls e(1), of r be ty] r lim
      by (auto simp: write_geometry_def buffer_size_def poly_size_def)
  next
    case 2
    then show ?thesis using False write_multi_inside [OF ls r lim, of be ty] by (auto simp: write_geometry_def)
  next
    case 3
    have "128 \<le> length r" using r by (simp add: buffer_size_def)
    then show ?thesis using False 3 e(2)
      by (auto simp: write_geometry_def write_single_def poke_double_def put8_le poke_Some)
  qed
qed

section \<open>Properties\<close>

text \<open>C15. A shapefile gives back what was written to it. One or more shapes written one after the other to
  a newly created shapefile of a polygon, arc, multipoint or point type can be read through the handle
  that wrote them, and when the file has been closed and is opened by name, in either mode and
  on a host of either byte order, it has as many records, its type, the extent of all vertices,
  and reading the records in order gives the parts with their plane coordinates, the heights
  for the types that have them, and the bounds and the index of each shape. This holds whatever
  fresh memory contains. The multipoint and point types are those without heights or measures. Each
  shape must not be a null shape and must have at least one part and no empty part, at most
  50000000 vertices and 10000000 parts; a multipoint has exactly one part, a point exactly one
  part with exactly one vertex; and the file stays below 2 GB (2147483646 bytes). For the
  types with measures the height of a vertex is found in the place of its measure. The shapes left
  out are not stored faithfully: see \<open>null_shape_corrupt\<close>, \<open>null_shape_first\<close>,
  \<open>point_height_overwrites\<close> and \<open>multipoint_heights_shift\<close>.\<close>

theorem shp_roundtrip:
  assumes "disk_vsi ops bytes at dsk disk name_of"
    and "msSHPCreate ops dsk junk be fs layer ty = (Some h, fs1, es)" and "plain_type ty"
    and "ss \<noteq> []" and "\<forall>s\<in>set ss. writable_shape ty s" and "file_need ty ss < 2147483646"
  shows "\<exists>h1 h2 h3. write_shapes ops junk fresh be h ss = Some h1
    \<and> (\<forall>i<length ss. \<exists>h'. msSHPReadShape ops be h1 (int i) = Some (stored_shape ty (int i) (ss ! i), h', []))
    \<and> msSHPOpen ops dsk junk' be' (msSHPClose ops dsk be h1 fs1) layer acc = (Some h2, msSHPClose ops dsk be h1 fs1, [])
    \<and> nRecords h2 = int (length ss) \<and> nShapeType h2 = ty \<and> (adBoundsMin h2, adBoundsMax h2) = file_extent ss
    \<and> read_shapes ops be' h2 (map int [0..<length ss]) = Some (map (\<lambda>i. stored_shape ty (int i) (ss ! i)) [0..<length ss], h3)"
proof -
  have w: "writable_vsi ops bytes at" and p: "posix_vsi ops bytes at"
    using assms(1) by (auto simp: disk_vsi_def writable_vsi_def)
  note c = disk_vsi.created_ok [OF assms(1-3)]
  obtain h1 where h1: "write_shapes ops junk fresh be h ss = Some h1" "shp_ok bytes at h1 ss" "nShapeType h1 = ty"
    "named name_of (base_name layer) h1" "nFileSize h1 = file_need ty ss"
    using disk_vsi.write_shapes_ok [OF assms(1), of h "[]" ss "base_name layer" junk fresh be] c assms(5,6) by (auto simp: file_need_def)
  have r: "\<exists>h'. msSHPReadShape ops be h1 (int i) = Some (stored_shape ty (int i) (ss ! i), h', [])" if "i < length ss" for i
    using posix_vsi.read_written [OF p h1(2) _ that, of be] h1 assms(4,6) by (auto simp: shp_ok_def)
  obtain h2 where h2: "msSHPOpen ops dsk junk' be' (msSHPClose ops dsk be h1 fs1) layer acc = (Some h2, msSHPClose ops dsk be h1 fs1, [])"
    "posix_vsi.reads_list bytes be' h2 ss" "nShapeType h2 = ty" "(adBoundsMin h2, adBoundsMax h2) = file_extent ss"
    using disk_vsi.reopen_ok [OF assms(1) h1(2) assms(4) h1(4), of junk' be' be fs1 acc] h1 assms(6) by auto
  obtain h3 where "read_shapes ops be' h2 (map int [0..<length ss]) = Some (map (\<lambda>i. stored_shape ty (int i) (ss ! i)) [0..<length ss], h3)"
    using posix_vsi.read_all_listed [OF p h2(2), of "[0..<length ss]"] h2(3) by auto
  moreover have "nRecords h2 = int (length ss)" using h2(2) by (simp add: posix_vsi.reads_list_def [OF p])
  ultimately show ?thesis using h1(1) r h2 by blast
qed

text \<open>C17. Building a record never writes or reads outside its buffer and no int overflows, for every shape
  type and every content of fresh memory: the buffer that \<open>msSHPWriteShape\<close> reserves is enough for the
  geometry, the block of heights or measures and the header. The shape is null, or it has at least
  one part and no empty one, and 32 bytes for each vertex and 8 for each part, with 128 more, stay
  below 2 GB. From 134217728 vertices on, the sizes and offsets of a polygon or an arc leave the range
  of an int (\<open>write_poly_overflow\<close>).\<close>

theorem write_record_inside:
  assumes "has_vertices s" and "buffer_size (line s) < 2 ^ 31"
  shows "\<exists>size t n r bs. alloc_size_of (line s) = Some size \<and> write_geometry be ty s (map fresh [0..<size]) = Some (t, n, r)
    \<and> finish_record be number t n r = Some bs \<and> length bs = n + 8 \<and> n + 8 \<le> size"
proof -
  let ?b = "map fresh [0..<buffer_size (line s)]"
  have b: "length ?b = buffer_size (line s)" "length ?b < 2 ^ 31" using assms(2) by simp_all
  obtain t n r where g: "write_geometry be ty s ?b = Some (t, n, r)" "length r = buffer_size (line s)" "n + 8 \<le> length r"
    using write_geometry_inside [OF assms(1) b, of be ty] b by auto
  have "128 \<le> length r" using g(2) by (simp add: buffer_size_def)
  then have "\<exists>bs. finish_record be number t n r = Some bs \<and> length bs = n + 8"
    using g(2,3) assms(2) by (simp add: finish_record_def poke_int_def poke_Some peek_Some c_int_def)
  then show ?thesis using alloc_size_ok [OF assms(2)] g by auto
qed

lemma write_poly_overflow:
  assumes "2 ^ 27 \<le> length (concat ls)"
  shows "write_poly be ty ls r = None"
proof -
  have "c_int (44 + 4 * length ls + 16 * length (concat ls)) = None" using assms by (simp add: c_int_def)
  then show ?thesis unfolding write_poly_def Let_def by (cases "write_parts be ls r") simp_all
qed

section \<open>A triangle on a disk\<close>

definition vertex :: "f64 \<Rightarrow> f64 \<Rightarrow> f64 \<Rightarrow> f64 \<Rightarrow> vertexObj" where
  "vertex x y z m = \<lparr>px = x, py = y, pz = z, pm = m\<rparr>"

definition triangle :: shapeObj where
  "triangle = msInitShape\<lparr>shape_type := MS_SHAPE_POLYGON, line := [[vertex 0 0 1 2, vertex 1 0 1 2, vertex 0 1 1 2, vertex 0 0 1 2]]\<rparr>"

lemma demo_created: "\<exists>h fs es. msSHPCreate stdio_rw map_disk (\<lambda>_. 9) False Map.empty ''a.shp'' 5 = (Some h, fs, es)"
proof -
  have "\<not> Option.is_none (fst (msSHPCreate stdio_rw map_disk (\<lambda>_. 9) False Map.empty ''a.shp'' 5))" by code_simp
  then show ?thesis by (cases "msSHPCreate stdio_rw map_disk (\<lambda>_. 9) False Map.empty ''a.shp'' 5") (auto simp: Option.is_none_def)
qed

theorem shp_roundtrip_witness:
  "\<exists>h fs h1 h2 h3 es. msSHPCreate stdio_rw map_disk (\<lambda>_. 9) False Map.empty ''a.shp'' 5 = (Some h, fs, es)
    \<and> write_shapes stdio_rw (\<lambda>_. 9) (\<lambda>_ _. 7) False h [triangle, triangle] = Some h1
    \<and> msSHPOpen stdio_rw map_disk (\<lambda>_. 8) True (msSHPClose stdio_rw map_disk False h1 fs) ''a.shp'' ''rb''
        = (Some h2, msSHPClose stdio_rw map_disk False h1 fs, [])
    \<and> read_shapes stdio_rw True h2 [0, 1] = Some ([stored_shape 5 0 triangle, stored_shape 5 1 triangle], h3)"
proof -
  obtain h fs es where c: "msSHPCreate stdio_rw map_disk (\<lambda>_. 9) False Map.empty ''a.shp'' 5 = (Some h, fs, es)" using demo_created by blast
  have s: "plain_type 5" "writable_shape 5 triangle" "file_need 5 [triangle, triangle] < 2147483646"
    by (simp_all add: plain_type_def poly_type_def writable_shape_def countable_parts_def triangle_def msInitShape_def
        file_need_def record_size_def poly_size_def extra_type_def)
  then show ?thesis
    using shp_roundtrip [OF map_disk.disk_vsi_axioms c s(1), of "[triangle, triangle]" "\<lambda>_ _. 7" "\<lambda>_. 8" True "''rb''"] c
    by (fastforce simp: upt_rec)
qed

theorem write_record_inside_witness:
  "\<exists>t n r bs. write_geometry False 15 triangle (map (\<lambda>_. 7) [0..<264]) = Some (t, n, r) \<and> finish_record False 1 t n r = Some bs
    \<and> length bs = n + (8::nat) \<and> n + 8 \<le> 264"
proof -
  have "buffer_size (line triangle) < 2 ^ 31" by (simp add: buffer_size_def triangle_def)
  moreover have "has_vertices triangle" "alloc_size_of (line triangle) = Some 264" by code_simp+
  ultimately show ?thesis using write_record_inside [of triangle False 15 "\<lambda>_. 7" 1] by simp
qed

section \<open>Types that are not written faithfully\<close>

text \<open>A record built in a buffer of ones and decoded again.\<close>

definition through_record :: "int \<Rightarrow> shapeObj \<Rightarrow> (MS_SHAPE_TYPE \<times> lineObj list \<times> report list) option" where
  "through_record ty s =
     do {
       (t, n, r) \<leftarrow> write_geometry False ty s (replicate (buffer_size (line s)) 1);
       bs \<leftarrow> finish_record False 1 t n r;
       (s', _, errs) \<leftarrow> read_record False ty 0 bs 0;
       Some (shape_type s', line s', errs)
     }"

definition pair_of_points :: shapeObj where
  "pair_of_points = msInitShape\<lparr>shape_type := MS_SHAPE_POINT, line := [[vertex 10 20 30 40, vertex 11 21 31 41]]\<rparr>"

text \<open>The measures of an arc are overwritten by its heights.\<close>

lemma arc_measures_lost:
  "map_option (\<lambda>(_, ls, _). map (map pm) ls) (through_record 23 pair_of_points) = Some [[30, 31]]"
  by code_simp

text \<open>The height of a point overwrites its ordinate, and what is read as its height is fresh memory.\<close>

lemma point_height_overwrites:
  "map_option (\<lambda>(_, ls, _). map (map (\<lambda>v. (py v, pz v))) ls) (through_record 11 pair_of_points) = Some [[(30, 0x0101010101010101)]]"
  by code_simp

text \<open>So it is for the last point of a multipoint; the heights of the others move up by one.\<close>

lemma multipoint_heights_shift:
  "map_option (\<lambda>(_, ls, _). map (map (\<lambda>v. (py v, pz v))) ls) (through_record 18 pair_of_points)
     = Some [[(20, 31), (30, 0x0101010101010101)]]"
  by code_simp

text \<open>A null shape is written with a content of twelve bytes; the reader takes only four for a null shape.\<close>

lemma null_shape_corrupt:
  "through_record 5 (msInitShape\<lparr>shape_type := MS_SHAPE_NULL\<rparr>) = Some (MS_SHAPE_NULL, [], [corrupt_feature])"
  by code_simp

text \<open>As the first record of a file it is not written at all: the bounds of the file are taken from its first vertex.\<close>

lemma null_shape_first:
  "nRecords h = 1 \<Longrightarrow> file_bounds_with h (line msInitShape) = None"
  by (simp add: file_bounds_with_def first_vertex_def msInitShape_def)

end
