(* ===== verification/StringEdit.thy ===== *)
theory StringEdit
  imports MapString
begin

text \<open>
  \<open>mapstring.cpp\<close>: trimming, replacing and splitting strings, and taking paths apart. Strings are
  NUL-terminated buffers in the code and lists without the NUL here. Where the code sizes a buffer
  by hand (\<open>msReplaceSubstring\<close>, \<open>msStringSplit\<close>, \<open>msJoinStrings\<close>) the size is kept and a write behind
  its end is a result of its own.
\<close>

section \<open>Trimming\<close>

text \<open>The loop that steps back from the end over the character \<open>ch\<close>.\<close>

fun last_not :: "char \<Rightarrow> string \<Rightarrow> nat \<Rightarrow> nat option" where
  "last_not ch s 0 = None"
| "last_not ch s (Suc i) = (if s ! i \<noteq> ch then Some i else last_not ch s i)"

definition msStringTrimBlanks :: "string \<Rightarrow> string" where
  "msStringTrimBlanks s = (case last_not (CHR '' '') s (length s) of None \<Rightarrow> s | Some i \<Rightarrow> take (i + 1) s)"

definition msStringTrim :: "string \<Rightarrow> string" where
  "msStringTrim s =
     (let t = dropWhile (\<lambda>c. c = CHR '' '') s in
      if t = [] then t
      else case last_not (CHR '' '') t (length t) of None \<Rightarrow> t | Some i \<Rightarrow> take (i + 1) t)"

definition msStringTrimLeft :: "string \<Rightarrow> string" where
  "msStringTrimLeft s = dropWhile isspace s"

text \<open>The overload for \<open>std::string\<close>.\<close>

fun first_not_space :: "string \<Rightarrow> nat \<Rightarrow> nat option" where
  "first_not_space [] i = None"
| "first_not_space (c # s) i = (if isspace c then first_not_space s (i + 1) else Some i)"

definition msStringTrimLeft_std :: "string \<Rightarrow> string" where
  "msStringTrimLeft_std s =
     (case first_not_space s 0 of None \<Rightarrow> [] | Some i \<Rightarrow> if i > 0 then drop (i - 1) s else s)"

definition msStringTrimEOL :: "string \<Rightarrow> string" where
  "msStringTrimEOL s = takeWhile (\<lambda>c. c \<noteq> CHR 0x0A) s"

definition msStringChop :: "string \<Rightarrow> string" where
  "msStringChop s = (if length s > 0 then take (length s - 1) s else s)"

section \<open>Replacing\<close>

text \<open>\<open>strcasestr\<close>, with the first character of the pattern searched for by itself.\<close>

fun strcasestr_from :: "string \<Rightarrow> char \<Rightarrow> string \<Rightarrow> nat option" where
  "strcasestr_from [] c pat = None"
| "strcasestr_from (sc # s) c pat =
     (if tolower_char sc = c \<and> lower (take (length pat) s) = lower pat then Some 0
      else map_option Suc (strcasestr_from s c pat))"

definition strcasestr :: "string \<Rightarrow> string \<Rightarrow> nat option" where
  "strcasestr s pat = (case pat of [] \<Rightarrow> Some 0 | c # cs \<Rightarrow> strcasestr_from s (tolower_char c) cs)"

text \<open>
  The loop of \<open>msReplaceSubstring\<close> and \<open>msCaseReplaceSubstring\<close>, which differ in the search only: the
  string, the bytes allocated for it, the length the code keeps and the place of the next match.
  No value means that the loop does not end, \<open>Some None\<close> that it writes behind the buffer.
\<close>

partial_function (option) replace_loop ::
  "(string \<Rightarrow> string \<Rightarrow> nat option) \<Rightarrow> string \<Rightarrow> string \<Rightarrow> string \<Rightarrow> nat \<Rightarrow> nat \<Rightarrow> nat option \<Rightarrow> string option option" where
  "replace_loop search old new str alloc str_len pos =
     (case pos of
        None \<Rightarrow> Some (Some str)
      | Some p \<Rightarrow>
          (let str_len' = (if length old < length new then str_len - length old + length new else str_len);
               alloc' = (if length old < length new then str_len' + 1 else alloc);
               str' = take p str @ new @ drop (p + length old) str in
           if alloc' < length str' + 1 then Some None
           else replace_loop search old new str' alloc' str_len'
                  (map_option (\<lambda>k. p + length new + k) (search (drop (p + length new) str') old))))"

definition replace_with ::
  "(string \<Rightarrow> string \<Rightarrow> nat option) \<Rightarrow> string \<Rightarrow> string \<Rightarrow> string option \<Rightarrow> string option option" where
  "replace_with search str old newstr =
     (let new = (case newstr of None \<Rightarrow> [] | Some n \<Rightarrow> n) in
      case search str old of
        None \<Rightarrow> Some (Some str)
      | Some p \<Rightarrow> replace_loop search old new str (length str + 1) (length str) (Some p))"

definition msReplaceSubstring :: "string \<Rightarrow> string \<Rightarrow> string option \<Rightarrow> string option option" where
  "msReplaceSubstring = replace_with strstr_at"

definition msCaseReplaceSubstring :: "string \<Rightarrow> string \<Rightarrow> string option \<Rightarrow> string option option" where
  "msCaseReplaceSubstring = replace_with strcasestr"

text \<open>\<open>msReplaceChar\<close>, for a character other than NUL: the loop tests the character behind the one it reads.\<close>

fun replace_behind :: "char \<Rightarrow> char \<Rightarrow> string \<Rightarrow> string" where
  "replace_behind old new [] = []"
| "replace_behind old new (c # cs) =
     (let c' = (if c = old then new else c) in if c' = NUL then [] else c' # replace_behind old new cs)"

definition msReplaceChar :: "string \<Rightarrow> char \<Rightarrow> char \<Rightarrow> string" where
  "msReplaceChar s old new = (case s of [] \<Rightarrow> [] | c # cs \<Rightarrow> c # replace_behind old new cs)"

definition msCountChars :: "string \<Rightarrow> char \<Rightarrow> nat" where
  "msCountChars s ch = foldl (\<lambda>n i. if s ! i = ch then n + 1 else n) 0 [0..<length s]"

section \<open>Paths\<close>

text \<open>\<open>strrchr\<close>.\<close>

fun strrchr :: "char \<Rightarrow> string \<Rightarrow> nat \<Rightarrow> nat option" where
  "strrchr ch s 0 = None"
| "strrchr ch s (Suc i) = (if s ! i = ch then Some i else strrchr ch s i)"

definition msStripPath :: "string \<Rightarrow> string" where
  "msStripPath fn =
     (let pSlash = strrchr (CHR ''/'') fn (length fn); pBackslash = strrchr (CHR 0x5C) fn (length fn) in
      case (pSlash, pBackslash) of
        (Some a, Some b) \<Rightarrow> if a < b then drop (b + 1) fn else drop (a + 1) fn
      | (Some a, None) \<Rightarrow> drop (a + 1) fn
      | (None, Some b) \<Rightarrow> drop (b + 1) fn
      | (None, None) \<Rightarrow> fn)"

fun last_separator :: "string \<Rightarrow> nat \<Rightarrow> nat option" where
  "last_separator s 0 = None"
| "last_separator s (Suc i) = (if s ! i = CHR ''/'' \<or> s ! i = CHR 0x5C then Some i else last_separator s i)"

definition msGetPath :: "string \<Rightarrow> string" where
  "msGetPath fn =
     (let str = (case last_separator fn (length fn) of None \<Rightarrow> fn | Some i \<Rightarrow> take (i + 1) fn) in
      if str = fn then ''./'' else str)"

definition msBuildPath3 :: "string option \<Rightarrow> string option \<Rightarrow> string option \<Rightarrow> report list \<times> string option" where
  "msBuildPath3 abs_path path1 path2 =
     (case msBuildPath path1 path2 of (es, p) \<Rightarrow>
        case msBuildPath abs_path p of (fs, r) \<Rightarrow> (es @ fs, r))"

text \<open>The result, and what is left in the caller's buffer; \<open>readable\<close> is whether the file can be opened.\<close>

definition msTryBuildPath ::
  "(string \<Rightarrow> bool) \<Rightarrow> string option \<Rightarrow> string \<Rightarrow> report list \<times> bool \<times> string option" where
  "msTryBuildPath readable abs_path path =
     (case msBuildPath abs_path (Some path) of
        (es, None) \<Rightarrow> (es, False, None)
      | (es, Some p) \<Rightarrow> if readable p then (es, True, Some p) else (es, False, Some (strlcpy path MS_MAXPATHLEN)))"

definition msTryBuildPath3 ::
  "(string \<Rightarrow> bool) \<Rightarrow> string option \<Rightarrow> string option \<Rightarrow> string \<Rightarrow> report list \<times> bool \<times> string option" where
  "msTryBuildPath3 readable abs_path path1 path2 =
     (case msBuildPath3 abs_path path1 (Some path2) of
        (es, None) \<Rightarrow> (es, False, None)
      | (es, Some p) \<Rightarrow> if readable p then (es, True, Some p) else (es, False, Some (strlcpy path2 MS_MAXPATHLEN)))"

section \<open>Splitting and joining\<close>

text \<open>The first loop of \<open>msStringSplit\<close> counts the tokens.\<close>

fun count_tokens :: "char \<Rightarrow> char \<Rightarrow> string \<Rightarrow> nat \<Rightarrow> nat" where
  "count_tokens ch last_ch [] n = n"
| "count_tokens ch last_ch (c # s) n = count_tokens ch c s (if c = ch \<and> last_ch \<noteq> ch then n + 1 else n)"

text \<open>
  The second loop: the finished tokens and the current one. The token array has \<open>n\<close> entries, a
  token buffer \<open>length + 1\<close> bytes. A separator that follows another one is skipped without
  becoming \<open>last_ch\<close>.
\<close>

fun split_loop :: "nat \<Rightarrow> nat \<Rightarrow> char \<Rightarrow> char \<Rightarrow> string \<Rightarrow> string list \<Rightarrow> string \<Rightarrow> string list option" where
  "split_loop n len ch last_ch [] toks tok =
     (if length tok < len + 1 then Some (toks @ [tok]) else None)"
| "split_loop n len ch last_ch (c # s) toks tok =
     (if c = ch then
        (if last_ch = ch then split_loop n len ch last_ch s toks tok
         else if length tok < len + 1 \<and> length toks + 1 < n then split_loop n len ch c s (toks @ [tok]) []
         else None)
      else if length tok < len + 1 then split_loop n len ch c s toks (tok @ [c])
      else None)"

definition msStringSplit :: "string \<Rightarrow> char \<Rightarrow> (nat \<times> string list) option" where
  "msStringSplit s ch =
     (let n = count_tokens ch NUL s 1 in
      map_option (\<lambda>toks. (n, toks)) (split_loop n (length s) ch NUL s [] []))"

fun join_loop :: "string \<Rightarrow> nat \<Rightarrow> string list \<Rightarrow> string \<Rightarrow> string" where
  "join_loop d len [] acc = acc"
| "join_loop d len [x] acc = strlcat acc x len"
| "join_loop d len (x # y # ys) acc = join_loop d len (y # ys) (strlcat (strlcat acc x len) d len)"

definition msJoinStrings :: "string list option \<Rightarrow> string option \<Rightarrow> string option" where
  "msJoinStrings arr delimiter =
     (case (arr, delimiter) of
        (Some xs, Some d) \<Rightarrow>
          if xs = [] then None
          else Some (join_loop d (foldl (\<lambda>l x. l + length x + length d) 0 xs) xs [])
      | _ \<Rightarrow> None)"

section \<open>Trimming is exact\<close>

lemma last_not_Some:
  "last_not ch s n = Some i \<Longrightarrow> i < n \<and> s ! i \<noteq> ch \<and> (\<forall>j. i < j \<and> j < n \<longrightarrow> s ! j = ch)"
proof (induction n)
  case (Suc n)
  show ?case
  proof (cases "s ! n = ch")
    case True
    then show ?thesis using Suc by (auto simp: less_Suc_eq)
  qed (use Suc.prems in auto)
qed simp

lemma last_not_None: "last_not ch s n = None \<longleftrightarrow> (\<forall>j<n. s ! j = ch)"
  by (induction n) (auto simp: less_Suc_eq)

lemma all_nth_replicate: "\<forall>j<length s. s ! j = c \<Longrightarrow> s = replicate (length s) c"
  by (simp add: list_eq_iff_nth_eq)

lemma last_not_split:
  assumes "last_not ch s (length s) = Some i"
  shows "s = take (i + 1) s @ replicate (length s - (i + 1)) ch \<and> take (i + 1) s \<noteq> [] \<and> last (take (i + 1) s) \<noteq> ch"
proof -
  note l = last_not_Some [OF assms]
  have "drop (i + 1) s = replicate (length s - (i + 1)) ch"
    using all_nth_replicate [of "drop (i + 1) s" ch] l by simp
  moreover have "last (take (i + 1) s) = s ! i" "take (i + 1) s \<noteq> []"
    using l by (auto simp: take_Suc_conv_app_nth)
  ultimately show ?thesis using l by (metis append_take_drop_id)
qed

text \<open>
  \<open>msStringTrim\<close> removes the blanks at both ends and nothing else. \<open>msStringTrimBlanks\<close> does so at
  the right end, unless the string has blanks only: then it is left alone.
\<close>

theorem trim_exact:
  "(\<exists>a b. s = replicate a (CHR '' '') @ msStringTrim s @ replicate b (CHR '' '')) \<and>
   (msStringTrim s = [] \<or> hd (msStringTrim s) \<noteq> CHR '' '' \<and> last (msStringTrim s) \<noteq> CHR '' '') \<and>
   (\<exists>b. s = msStringTrimBlanks s @ replicate b (CHR '' '')) \<and>
   (msStringTrimBlanks s = [] \<or> last (msStringTrimBlanks s) \<noteq> CHR '' '' \<or> msStringTrimBlanks s = s \<and> set s = {CHR '' ''})"
proof -
  let ?b = "CHR '' ''"
  define t where "t = dropWhile (\<lambda>c. c = ?b) s"
  have "\<forall>c\<in>set (takeWhile (\<lambda>c. c = ?b) s). c = ?b" by (auto dest: set_takeWhileD)
  then have "takeWhile (\<lambda>c. c = ?b) s = replicate (length (takeWhile (\<lambda>c. c = ?b) s)) ?b"
    by (metis replicate_eqI)
  then obtain a where s: "s = replicate a ?b @ t" unfolding t_def by (metis takeWhile_dropWhile_id)
  have trim: "(\<exists>b. t = msStringTrim s @ replicate b ?b) \<and>
      (msStringTrim s = [] \<or> hd (msStringTrim s) \<noteq> ?b \<and> last (msStringTrim s) \<noteq> ?b)"
  proof (cases "t = []")
    case True
    then show ?thesis by (simp add: msStringTrim_def t_def [symmetric])
  next
    case False
    then have hd: "hd t \<noteq> ?b" unfolding t_def by (rule hd_dropWhile)
    then have "\<exists>j<length t. t ! j \<noteq> ?b" using False by (intro exI [of _ 0]) (simp add: hd_conv_nth)
    then obtain i where i: "last_not ?b t (length t) = Some i" using last_not_None [of ?b t "length t"] by fastforce
    then have "msStringTrim s = take (i + 1) t" using False by (simp add: msStringTrim_def t_def [symmetric])
    moreover have "hd (take (i + 1) t) = hd t" using False by simp
    ultimately show ?thesis using last_not_split [OF i] hd by metis
  qed
  have blanks: "(\<exists>b. s = msStringTrimBlanks s @ replicate b ?b) \<and>
      (msStringTrimBlanks s = [] \<or> last (msStringTrimBlanks s) \<noteq> ?b \<or> msStringTrimBlanks s = s \<and> set s = {?b})"
  proof (cases "last_not ?b s (length s)")
    case None
    then have r: "s = replicate (length s) ?b" "msStringTrimBlanks s = s"
      using last_not_None [of ?b s "length s"] all_nth_replicate [of s ?b] by (simp_all add: msStringTrimBlanks_def)
    have "s = [] \<or> set s = {?b}" using r(1) set_replicate_conv_if [of "length s" ?b] by (metis length_0_conv)
    then show ?thesis using r(2) by (auto intro: exI [of _ 0])
  next
    case (Some i)
    then show ?thesis using last_not_split [OF Some] by (auto simp: msStringTrimBlanks_def)
  qed
  show ?thesis using trim blanks s by metis
qed

text \<open>The overload of \<open>msStringTrimLeft\<close> for \<open>std::string\<close> leaves one blank.\<close>

lemma trim_left_std_blank: "msStringTrimLeft ''  a'' = ''a'' \<and> msStringTrimLeft_std ''  a'' = '' a''"
  by code_simp

text \<open>\<open>msReplaceChar\<close> never looks at the first character.\<close>

lemma replace_char_first: "msReplaceChar ''/a/b'' (CHR ''/'') (CHR ''+'') = ''/a+b''"
  by code_simp

section \<open>Replacing\<close>

text \<open>What both functions are to compute: the leftmost occurrences, one after the other.\<close>

function replace_all :: "(string \<Rightarrow> string \<Rightarrow> nat option) \<Rightarrow> string \<Rightarrow> string \<Rightarrow> string \<Rightarrow> string" where
  "replace_all search old new s =
     (case search s old of
        None \<Rightarrow> s
      | Some k \<Rightarrow> if old = [] \<or> length s < k + length old then s
                  else take k s @ new @ replace_all search old new (drop (k + length old) s))"
  by pat_completeness auto
termination
  by (relation "measure (\<lambda>(_, _, _, s). length s)") (auto simp: neq_Nil_conv)

declare replace_all.simps [simp del]

definition finds :: "(string \<Rightarrow> string \<Rightarrow> nat option) \<Rightarrow> bool" where
  "finds search \<longleftrightarrow> (\<forall>s pat k. search s pat = Some k \<longrightarrow> k + length pat \<le> length s)"

lemma finds_strstr: "finds strstr_at"
  unfolding finds_def
proof (intro allI impI)
  fix s pat k
  assume "strstr_at s pat = Some k"
  then have k: "k \<le> length s" "take (length pat) (drop k s) = pat" using strstr_at_Some by blast+
  have "length (take (length pat) (drop k s)) = length pat" using k(2) by simp
  then show "k + length pat \<le> length s" using k(1) by simp
qed

lemma finds_strcasestr: "finds strcasestr"
proof -
  have "strcasestr_from s c pat = Some k \<Longrightarrow> k + length pat < length s" for s c pat k
  proof (induction s arbitrary: k)
    case (Cons sc s)
    show ?case
    proof (cases "tolower_char sc = c \<and> lower (take (length pat) s) = lower pat")
      case True
      then have "length (lower (take (length pat) s)) = length (lower pat)" by simp
      then show ?thesis using Cons.prems True by (simp add: lower_def)
    next
      case False
      then show ?thesis using Cons by auto
    qed
  qed simp
  then show ?thesis by (auto simp: finds_def strcasestr_def split: list.splits) (metis Suc_leI)
qed

lemma replace_loop_eq:
  assumes "finds search" and "old \<noteq> []"
  shows "length str + 1 \<le> alloc \<Longrightarrow> (length old < length new \<Longrightarrow> str_len = length str) \<Longrightarrow> str = pre @ rest \<Longrightarrow>
    pos = map_option (\<lambda>k. length pre + k) (search rest old) \<Longrightarrow>
    replace_loop search old new str alloc str_len pos = Some (Some (pre @ replace_all search old new rest))"
proof (induction "length rest" arbitrary: str alloc str_len pos pre rest rule: less_induct)
  case less
  show ?case
  proof (cases "search rest old")
    case None
    then show ?thesis using less.prems by (subst replace_loop.simps) (simp add: replace_all.simps [of _ _ _ rest])
  next
    case (Some k)
    then have k: "k + length old \<le> length rest" using assms(1) unfolding finds_def by blast
    let ?p = "length pre + k"
    let ?pre = "pre @ take k rest @ new" and ?rest = "drop (k + length old) rest"
    let ?str = "take ?p str @ new @ drop (?p + length old) str"
    let ?len = "if length old < length new then str_len - length old + length new else str_len"
    let ?alloc = "if length old < length new then ?len + 1 else alloc"
    have str: "?str = ?pre @ ?rest" using less.prems(3) k by simp
    have pre: "length ?pre = ?p + length new" using k by simp
    have len: "length ?str = length str - length old + length new" "length old \<le> length str"
      using less.prems(3) k by simp_all
    have fits: "length ?str + 1 \<le> ?alloc" "length old < length new \<Longrightarrow> ?len = length ?str"
      using len less.prems(1,2) by auto
    have short: "length ?rest < length rest" using k assms(2) by (cases old) auto
    have next_pos: "map_option (\<lambda>k. ?p + length new + k) (search (drop (?p + length new) ?str) old) =
        map_option (\<lambda>k. length ?pre + k) (search ?rest old)"
      unfolding str pre [symmetric] by simp
    have "replace_loop search old new str alloc str_len pos =
        replace_loop search old new ?str ?alloc ?len (map_option (\<lambda>k. length ?pre + k) (search ?rest old))"
      using fits(1) less.prems(4) Some next_pos by (subst replace_loop.simps) (simp add: Let_def not_less)
    also have "\<dots> = Some (Some (?pre @ replace_all search old new ?rest))"
      by (rule less.hyps [OF short fits str refl])
    finally show ?thesis using Some k assms(2) by (simp add: replace_all.simps [of _ _ _ rest])
  qed
qed

lemma replace_with_eq:
  assumes "finds search" and "old \<noteq> []"
  shows "replace_with search str old newstr =
    Some (Some (replace_all search old (case newstr of None \<Rightarrow> [] | Some n \<Rightarrow> n) str))"
proof (cases "search str old")
  case None
  then show ?thesis by (simp add: replace_with_def replace_all.simps [of _ _ _ str])
next
  case (Some p)
  then show ?thesis
    using replace_loop_eq [OF assms, of str "length str + 1" _ "length str" "[]" str] by (simp add: replace_with_def Let_def)
qed

lemma strstr_at_Nil: "strstr_at s [] = Some 0"
  by (cases s) auto

text \<open>With an empty pattern there is always a next match.\<close>

lemma replace_loop_empty_gen:
  "replace_loop search old new s alloc len pos = Some r \<Longrightarrow> search = strstr_at \<Longrightarrow> old = [] \<Longrightarrow> pos = Some p \<Longrightarrow>
   length s + 1 \<le> alloc \<Longrightarrow> len = length s \<Longrightarrow> p \<le> length s \<Longrightarrow> False"
proof (induction arbitrary: p rule: replace_loop.raw_induct [rotated, consumes 1, case_names step])
  case (step f search old new s alloc len pos r)
  let ?len = "if 0 < length new then len + length new else len"
  let ?alloc = "if 0 < length new then ?len + 1 else alloc"
  let ?s = "take p s @ new @ drop p s"
  have inv: "length ?s + 1 \<le> ?alloc" "?len = length ?s" "p + length new \<le> length ?s" using step.prems by auto
  then have "f strstr_at [] new ?s ?alloc ?len (Some (p + length new)) = Some r"
    using step.hyps(1) step.prems by (simp add: Let_def strstr_at_Nil not_less add.commute split: if_splits)
  from step.IH [OF this refl refl refl inv] show False .
qed

lemmas replace_loop_empty = replace_loop_empty_gen [OF _ refl refl refl]

text \<open>
  C34. With a pattern that is not empty, \<open>msReplaceSubstring\<close> and \<open>msCaseReplaceSubstring\<close> end, never
  write behind the buffer they grow, and replace the leftmost occurrences from left to right. With
  an empty pattern \<open>msReplaceSubstring\<close> does not return.
\<close>

theorem replace_correct:
  "(old \<noteq> [] \<longrightarrow>
      msReplaceSubstring str old newstr = Some (Some (replace_all strstr_at old (case newstr of None \<Rightarrow> [] | Some n \<Rightarrow> n) str)) \<and>
      msCaseReplaceSubstring str old newstr = Some (Some (replace_all strcasestr old (case newstr of None \<Rightarrow> [] | Some n \<Rightarrow> n) str))) \<and>
   msReplaceSubstring str [] newstr = None"
proof -
  have "msReplaceSubstring str [] newstr = None"
    using replace_loop_empty [of _ str "length str + 1" "length str" 0] unfolding msReplaceSubstring_def replace_with_def Let_def strstr_at_Nil option.case
    by (cases "replace_loop strstr_at [] (case newstr of None \<Rightarrow> [] | Some n \<Rightarrow> n) str (length str + 1) (length str) (Some 0)") auto
  then show ?thesis
    using replace_with_eq [OF finds_strstr] replace_with_eq [OF finds_strcasestr]
    by (simp add: msReplaceSubstring_def msCaseReplaceSubstring_def)
qed

theorem replace_correct_witness:
  "msReplaceSubstring ''a%20b%20c'' ''%20'' (Some '' '') = Some (Some (replace_all strstr_at ''%20'' '' '' ''a%20b%20c''))"
  using replace_correct [of "''%20''" "''a%20b%20c''" "Some '' ''"] by simp

section \<open>Paths\<close>

lemma strrchr_Some: "strrchr ch s n = Some i \<Longrightarrow> i < n \<and> s ! i = ch \<and> (\<forall>j. i < j \<and> j < n \<longrightarrow> s ! j \<noteq> ch)"
  by (induction n) (auto simp: less_Suc_eq split: if_splits)

lemma strrchr_None: "strrchr ch s n = None \<longleftrightarrow> (\<forall>j<n. s ! j \<noteq> ch)"
  by (induction n) (auto simp: less_Suc_eq)

text \<open>The last separator is the later of the last slash and the last backslash.\<close>

lemma last_separator_strrchr:
  "last_separator s n =
     (case (strrchr (CHR ''/'') s n, strrchr (CHR 0x5C) s n) of
        (Some a, Some b) \<Rightarrow> Some (max a b) | (Some a, None) \<Rightarrow> Some a | (None, b) \<Rightarrow> b)"
proof (induction n)
  case (Suc n)
  consider "s ! n = CHR ''/''" | "s ! n = CHR 0x5C" | "s ! n \<noteq> CHR ''/''" "s ! n \<noteq> CHR 0x5C" by blast
  then show ?case
  proof cases
    case 1
    then show ?thesis using strrchr_Some [of "CHR 0x5C" s n] by (auto split: option.split)
  next
    case 2
    then show ?thesis using strrchr_Some [of "CHR ''/''" s n] by (auto split: option.split)
  qed (use Suc in simp)
qed simp

lemma msStripPath_eq:
  "msStripPath fn = (case last_separator fn (length fn) of None \<Rightarrow> fn | Some i \<Rightarrow> drop (i + 1) fn)"
  by (auto simp: msStripPath_def last_separator_strrchr Let_def max_def not_less split: option.split)

lemma last_separator_Some:
  "last_separator s n = Some i \<Longrightarrow>
     i < n \<and> s ! i \<in> {CHR ''/'', CHR 0x5C} \<and> (\<forall>j. i < j \<and> j < n \<longrightarrow> s ! j \<notin> {CHR ''/'', CHR 0x5C})"
  by (induction n) (auto simp: less_Suc_eq split: if_splits)

lemma last_separator_None: "last_separator s n = None \<longleftrightarrow> (\<forall>j<n. s ! j \<notin> {CHR ''/'', CHR 0x5C})"
  by (induction n) (auto simp: less_Suc_eq)

text \<open>
  A file name is its path followed by its base name: the base name has no separator, and the
  path ends with one. A name without a separator gets the path \<open>./\<close>; so does a name that ends
  with a separator, although its path is the name itself.
\<close>

theorem path_split:
  "CHR ''/'' \<notin> set (msStripPath fn) \<and> CHR 0x5C \<notin> set (msStripPath fn) \<and>
   (if msStripPath fn = fn \<or> msStripPath fn = [] then msGetPath fn = ''./''
    else msGetPath fn @ msStripPath fn = fn \<and> last (msGetPath fn) \<in> {CHR ''/'', CHR 0x5C})"
proof (cases "last_separator fn (length fn)")
  case None
  then have "\<forall>c\<in>set fn. c \<notin> {CHR ''/'', CHR 0x5C}"
    using last_separator_None [of fn "length fn"] by (auto simp: in_set_conv_nth)
  then show ?thesis using None by (auto simp: msStripPath_eq msGetPath_def)
next
  case (Some i)
  note i = last_separator_Some [OF Some]
  have strip: "msStripPath fn = drop (i + 1) fn" using Some by (simp add: msStripPath_eq)
  have "c \<notin> {CHR ''/'', CHR 0x5C}" if c: "c \<in> set (drop (i + 1) fn)" for c
  proof -
    obtain j where "j < length fn - (i + 1)" "c = fn ! (i + 1 + j)" using c by (auto simp: in_set_conv_nth)
    then show ?thesis using i by (auto dest!: spec [of _ "i + 1 + j"])
  qed
  then have free: "CHR ''/'' \<notin> set (msStripPath fn)" "CHR 0x5C \<notin> set (msStripPath fn)" by (auto simp: strip)
  have shorter: "drop (i + 1) fn \<noteq> fn" using i by (metis add_diff_cancel_right' diff_less length_drop less_add_one less_imp_not_less less_nat_zero_code nat_neq_iff zero_less_iff_neq_zero)
  show ?thesis
  proof (cases "drop (i + 1) fn = []")
    case True
    then have "take (i + 1) fn = fn" by simp
    then show ?thesis using True free Some strip by (simp add: msGetPath_def)
  next
    case False
    then have t: "take (i + 1) fn \<noteq> fn" by (metis drop_eq_Nil length_take min.absorb_iff2 nle_le)
    have "last (take (i + 1) fn) = fn ! i" using i by (simp add: take_Suc_conv_app_nth)
    then show ?thesis using False t free Some strip shorter i by (simp add: msGetPath_def)
  qed
qed

theorem path_split_witness: "msGetPath ''/data/a.shp'' @ msStripPath ''/data/a.shp'' = ''/data/a.shp''"
proof -
  have "\<not> (msStripPath ''/data/a.shp'' = ''/data/a.shp'' \<or> msStripPath ''/data/a.shp'' = [])" by code_simp
  then show ?thesis using path_split [of "''/data/a.shp''"] by simp
qed

section \<open>Splitting and joining\<close>

text \<open>The tokens as they are meant: the text between runs of separators.\<close>

fun split_spec :: "char \<Rightarrow> char \<Rightarrow> string \<Rightarrow> string \<Rightarrow> string list" where
  "split_spec ch last_ch [] tok = [tok]"
| "split_spec ch last_ch (c # s) tok =
     (if c = ch then (if last_ch = ch then split_spec ch c s tok else tok # split_spec ch c s [])
      else split_spec ch c s (tok @ [c]))"

lemma count_tokens_spec: "count_tokens ch l s n + 1 = n + length (split_spec ch l s tok)"
  by (induction ch l s tok arbitrary: n rule: split_spec.induct) auto

lemma split_spec_nonempty: "split_spec ch l s tok \<noteq> []"
  by (induction ch l s tok rule: split_spec.induct) auto

lemma split_loop_spec:
  "length tok + length s \<le> len \<Longrightarrow> length toks + length (split_spec ch l s tok) \<le> n \<Longrightarrow>
   split_loop n len ch l s toks tok = Some (toks @ split_spec ch l s tok)"
proof (induction ch l s tok arbitrary: toks rule: split_spec.induct)
  case (2 ch l c s tok)
  have "1 \<le> length (split_spec ch ch s [])" using split_spec_nonempty [of ch ch s "[]"] by (cases "split_spec ch ch s []") auto
  then show ?case using 2 by auto
qed simp

lemma msStringSplit_eq: "msStringSplit s ch = Some (length (split_spec ch NUL s []), split_spec ch NUL s [])"
proof -
  have n: "count_tokens ch NUL s 1 = length (split_spec ch NUL s [])"
    using count_tokens_spec [of ch NUL s 1 "[]"] by simp
  then show ?thesis using split_loop_spec [of "[]" s "length s" "[]" ch NUL "count_tokens ch NUL s 1"]
    by (simp add: msStringSplit_def Let_def)
qed

fun join_with :: "string \<Rightarrow> string list \<Rightarrow> string" where
  "join_with d [] = []"
| "join_with d [x] = x"
| "join_with d (x # y # ys) = x @ d @ join_with d (y # ys)"

lemma sum_lengths: "foldl (\<lambda>l x. l + length x + length d) n xs = n + length (concat xs) + length xs * length d"
  by (induction xs arbitrary: n) auto

lemma length_join_with: "xs \<noteq> [] \<Longrightarrow> length (join_with d xs) + length d = length (concat xs) + length xs * length d"
  by (induction d xs rule: join_with.induct) auto

lemma join_loop_eq:
  "length acc + length (join_with d xs) < len \<Longrightarrow> xs \<noteq> [] \<Longrightarrow> join_loop d len xs acc = acc @ join_with d xs"
  by (induction d len xs acc rule: join_loop.induct) (simp_all add: strlcat_eq)

lemma msJoinStrings_eq: "xs \<noteq> [] \<Longrightarrow> d \<noteq> [] \<Longrightarrow> msJoinStrings (Some xs) (Some d) = Some (join_with d xs)"
  using join_loop_eq [of "[]" d xs "length (concat xs) + length xs * length d"] length_join_with [of xs d]
  by (simp add: msJoinStrings_def sum_lengths) (metis length_greater_0_conv less_add_same_cancel1)

text \<open>The limit given to \<open>strlcat\<close> counts on a delimiter: without one the last character is lost.\<close>

lemma join_empty_delimiter: "msJoinStrings (Some [''ab'', ''cd'']) (Some []) = Some ''abc''"
  by code_simp

lemma split_spec_token: "ch \<notin> set t \<Longrightarrow> l \<noteq> ch \<or> t \<noteq> [] \<Longrightarrow>
  split_spec ch l (t @ s) tok = (if t = [] then split_spec ch l s tok else split_spec ch (last t) s (tok @ t))"
  by (induction t arbitrary: l tok) auto

lemma split_join:
  "ch \<noteq> NUL \<Longrightarrow> xs \<noteq> [] \<Longrightarrow> \<forall>x\<in>set xs. ch \<notin> set x \<Longrightarrow> \<forall>x\<in>set (butlast (tl xs)). x \<noteq> [] \<Longrightarrow>
   l \<noteq> ch \<or> hd xs \<noteq> [] \<or> tl xs = [] \<Longrightarrow> split_spec ch l (join_with [ch] xs) [] = xs"
proof (induction "[ch]" xs arbitrary: l rule: join_with.induct)
  case (2 x)
  then show ?case using split_spec_token [of ch x l "[]" "[]"] by (cases "x = []") auto
next
  case (3 x y ys)
  have x: "ch \<notin> set x" "l \<noteq> ch \<or> x \<noteq> []" using 3(4,6) by simp_all
  have l': "(if x = [] then l else last x) \<noteq> ch" using x last_in_set [of x] by metis
  have mid: "\<forall>z\<in>set (butlast (y # ys)). z \<noteq> []" using 3(5) by simp
  have m1: "\<forall>z\<in>set (butlast (tl (y # ys))). z \<noteq> []" using mid by (cases ys) auto
  have m2: "ch \<noteq> ch \<or> hd (y # ys) \<noteq> [] \<or> tl (y # ys) = []" using mid by (cases ys) auto
  have m3: "\<forall>z\<in>set (y # ys). ch \<notin> set z" using 3(4) by simp
  note IH = 3(1) [OF 3(2) list.distinct(2) m3 m1 m2]
  show ?case
    using split_spec_token [OF x, of "ch # join_with [ch] (y # ys)" "[]"] IH l'
    by (simp split: if_splits)
qed simp

text \<open>
  \<open>msStringSplit\<close> writes exactly as many tokens as its first loop counted, and no token behind its
  buffer. It undoes \<open>msJoinStrings\<close> with a one-character delimiter, for strings without that
  character of which only the first and the last may be empty.
\<close>

theorem split_join_roundtrip:
  "(\<exists>toks. msStringSplit s ch = Some (length toks, toks) \<and> (\<forall>t\<in>set toks. ch \<notin> set t)) \<and>
   (ch \<noteq> NUL \<and> xs \<noteq> [] \<and> (\<forall>x\<in>set xs. ch \<notin> set x) \<and> (\<forall>x\<in>set (butlast (tl xs)). x \<noteq> []) \<longrightarrow>
    (\<exists>joined. msJoinStrings (Some xs) (Some [ch]) = Some joined \<and> msStringSplit joined ch = Some (length xs, xs)))"
proof -
  have "ch \<notin> set tok \<Longrightarrow> \<forall>t\<in>set (split_spec ch l s tok). ch \<notin> set t" for l tok
    by (induction ch l s tok rule: split_spec.induct) auto
  from this [of "[]" NUL] have 1: "\<forall>t\<in>set (split_spec ch NUL s []). ch \<notin> set t" by simp
  have 2: "\<exists>joined. msJoinStrings (Some xs) (Some [ch]) = Some joined \<and> msStringSplit joined ch = Some (length xs, xs)"
    if "ch \<noteq> NUL" "xs \<noteq> []" "\<forall>x\<in>set xs. ch \<notin> set x" "\<forall>x\<in>set (butlast (tl xs)). x \<noteq> []"
    using split_join [of ch xs NUL] that msJoinStrings_eq [of xs "[ch]"] by (simp add: msStringSplit_eq)
  show ?thesis using 1 2 msStringSplit_eq by blast
qed

theorem split_join_roundtrip_witness:
  "\<exists>joined. msJoinStrings (Some [''a'', ''bc'', []]) (Some [CHR '','']) = Some joined \<and>
     msStringSplit joined (CHR '','') = Some (3, [''a'', ''bc'', []])"
proof -
  have three: "length [''a'', ''bc'', []] = 3" by simp
  have "CHR '','' \<noteq> NUL \<and> [''a'', ''bc'', []] \<noteq> [] \<and> (\<forall>x\<in>set [''a'', ''bc'', []]. CHR '','' \<notin> set x) \<and>
      (\<forall>x\<in>set (butlast (tl [''a'', ''bc'', []])). x \<noteq> [])" by simp
  then show ?thesis using split_join_roundtrip [where ch = "CHR '',''" and xs = "[''a'', ''bc'', []]"]
    unfolding three by blast
qed

end
