(* ===== verification/MapXbase.thy ===== *)
theory MapXbase
  imports Vsi Float64 StringEdit "HOL-Library.Monad_Syntax"
begin

text \<open>
  \<open>mapxbase.c\<close>: reading and writing the attribute table of a shapefile (\<open>.dbf\<close>). A table is a header
  with the field descriptions and records of fixed length. The handle keeps one record in a
  buffer, which is written back when another record is needed. Files are reached through the
  operations of \<open>Vsi\<close>; memory from \<open>malloc\<close> has arbitrary contents, the argument \<open>junk\<close>. A read or a
  write outside the record buffer, and the use of a null pointer, is \<open>None\<close>.
\<close>

section \<open>The handle\<close>

record 'f DBFInfo =
  nRecords :: int
  fp :: 'f
  nRecordLength :: u32
  nHeaderLength :: int
  panFieldOffset :: "int list"
  panFieldSize :: "int list"
  panFieldDecimals :: "int list"
  pachFieldType :: "char list"
  pszHeader :: "byte list"
  nCurrentRecord :: int
  bCurrentRecordModified :: bool
  pszCurrentRecord :: "byte list"
  bNoHeader :: bool
  bUpdated :: bool
  nStringFieldLen :: int
  pszEncoding :: "string option option" \<comment> \<open>\<open>None\<close>: never written, \<open>Some None\<close>: the null pointer\<close>

datatype DBFFieldType = FTString | FTInteger | FTDouble | FTInvalid

definition nFields :: "'f DBFInfo \<Rightarrow> nat" where
  "nFields d = length (panFieldSize d)"

definition byte_of :: "char \<Rightarrow> byte" where
  "byte_of c = word_of_nat (of_char c)"

definition chr_of :: "byte \<Rightarrow> char" where
  "chr_of b = char_of (unat b)"

abbreviation (input) MS_DBFERR :: int where "MS_DBFERR \<equiv> 7"

abbreviation (input) vseek :: "'f vsi_rw \<Rightarrow> 'f \<Rightarrow> nat \<Rightarrow> 'f" where
  "vseek ops f n \<equiv> snd (VSIFSeekL ops f n)"

section \<open>Header and record buffer\<close>

definition file_header :: "int \<Rightarrow> u32 \<Rightarrow> byte list" where
  "file_header hl rl =
     [3, 0, 0, 0, 0, 0, 0, 0, word_of_int (hl mod 256), word_of_int (hl div 256),
      word_of_int (uint rl mod 256), word_of_int (uint rl div 256)] @ replicate 20 0"

definition writeHeader :: "'f vsi_rw \<Rightarrow> 'f DBFInfo \<Rightarrow> 'f DBFInfo" where
  "writeHeader ops d =
     (if \<not> bNoHeader d then d
      else
        (let f1 = VSIFWriteL ops (vseek ops (fp d) 0) (file_header (nHeaderLength d) (nRecordLength d));
             f2 = VSIFWriteL ops f1 (take (32 * nFields d) (pszHeader d));
             f3 = (if nHeaderLength d > 32 * int (nFields d) + 32 then VSIFWriteL ops f2 [0x0D] else f2) in
         d\<lparr>bNoHeader := False, fp := f3\<rparr>))"

definition record_offset :: "'f DBFInfo \<Rightarrow> int \<Rightarrow> nat" where
  "record_offset d r = unat (nRecordLength d * word_of_int r + word_of_int (nHeaderLength d))"

definition flushRecord :: "'f vsi_rw \<Rightarrow> 'f DBFInfo \<Rightarrow> 'f DBFInfo" where
  "flushRecord ops d =
     (if bCurrentRecordModified d \<and> nCurrentRecord d > -1 then
        d\<lparr>bCurrentRecordModified := False,
          fp := VSIFWriteL ops (vseek ops (fp d) (record_offset d (nCurrentRecord d)))
                  (take (unat (nRecordLength d)) (pszCurrentRecord d))\<rparr>
      else d)"

section \<open>Opening\<close>

text \<open>The description of field \<open>i\<close> in the header: its size, decimals and type.\<close>

definition field_info :: "byte list \<Rightarrow> nat \<Rightarrow> int \<times> int \<times> char" where
  "field_info h i =
     (let b = (\<lambda>k. h ! (32 * i + k)); ty = chr_of (b 11) in
      if ty = CHR ''N'' \<or> ty = CHR ''F'' then (uint (b 16), uint (b 17), ty)
      else (uint (b 16) + uint (b 17) * 256, 0, ty))"

text \<open>The offsets are the running sums of the sizes, behind the deletion flag.\<close>

fun field_offsets :: "int \<Rightarrow> int list \<Rightarrow> int list" where
  "field_offsets off [] = []"
| "field_offsets off (s # ss) = off # field_offsets (off + s) ss"

definition msDBFOpenVirtualFile :: "'f vsi_rw \<Rightarrow> (nat \<Rightarrow> byte) \<Rightarrow> 'f \<Rightarrow> 'f DBFInfo option" where
  "msDBFOpenVirtualFile ops junk f =
     (case VSIFReadL ops f 32 1 of (k, h, f1) \<Rightarrow>
        if k \<noteq> 1 then None
        else
          (let b = (\<lambda>i. uint (h ! i));
               n = (if b 7 < 128 then b 4 + b 5 * 256 + b 6 * 256 * 256 + b 7 * 256 * 256 * 256 else 0);
               nHeadLen = b 8 + b 9 * 256; nRecLen = b 10 + b 11 * 256 in
           if nHeadLen \<le> 32 then None
           else
             (let nf = nat ((nHeadLen - 32) div 32) in
              case VSIFReadL ops (vseek ops f1 32) (nat (nHeadLen - 32)) 1 of (k2, hdr, f2) \<Rightarrow>
                if k2 \<noteq> 1 then None
                else
                  (let infos = map (field_info hdr) [0..<nf]; sizes = map fst infos;
                       offs = field_offsets 1 sizes in
                   if nf > 0 \<and> last offs + last sizes > nRecLen then None
                   else
                     Some \<lparr>nRecords = n, fp = f2, nRecordLength = word_of_int nRecLen, nHeaderLength = nHeadLen,
                           panFieldOffset = offs, panFieldSize = sizes,
                           panFieldDecimals = map (fst \<circ> snd) infos, pachFieldType = map (snd \<circ> snd) infos,
                           pszHeader = hdr, nCurrentRecord = -1, bCurrentRecordModified = False,
                           pszCurrentRecord = map junk [0..<nat nRecLen], bNoHeader = False, bUpdated = False,
                           nStringFieldLen = 0, pszEncoding = Some None\<rparr>))))"

text \<open>
  \<open>msReadCPGEncoding\<close>, on the bytes that the reading of at most 99 gave, \<open>None\<close> if the file cannot be
  opened.
\<close>

definition cpg_encoding :: "string \<Rightarrow> string" where
  "cpg_encoding enc =
     (let n = atoi enc in
      if (437 \<le> n \<and> n \<le> 950) \<or> (1250 \<le> n \<and> n \<le> 1258) then ''CP'' @ digits_of (nat n)
      else if lower (take 4 enc) = ''8859'' then
        (let suffix = (case drop 4 enc of [] \<Rightarrow> [] | c # cs \<Rightarrow> if c = CHR ''-'' \<or> c = CHR ''_'' then cs else c # cs) in
         if suffix = [] \<or> \<not> digit_char (hd suffix) then enc
         else ''ISO-8859-'' @ digits_of (nat (atoi suffix)))
      else if lower (take 9 enc) = ''ansi 1251'' then ''CP1251''
      else enc)"

definition msReadCPGEncoding :: "byte list option \<Rightarrow> string option" where
  "msReadCPGEncoding file =
     (case file of
        None \<Rightarrow> None
      | Some bs \<Rightarrow>
          (let s = takeWhile (\<lambda>c. c \<noteq> NUL \<and> c \<noteq> CHR 0x0D \<and> c \<noteq> CHR 0x0A) (map chr_of (take 99 bs)) in
           if bs = [] \<or> s = [] then None else Some (cpg_encoding s)))"

text \<open>The name with its last four characters replaced; names have at least four.\<close>

definition has_ext :: "string \<Rightarrow> string \<Rightarrow> bool" where
  "has_ext name ext \<longleftrightarrow> drop (length name - 4) name = ext"

definition with_ext :: "string \<Rightarrow> string \<Rightarrow> string" where
  "with_ext name ext = take (length name - 4) name @ ext"

definition dbf_name :: "string \<Rightarrow> string" where
  "dbf_name name =
     (if has_ext name ''.shp'' \<or> has_ext name ''.shx'' then with_ext name ''.dbf''
      else if has_ext name ''.SHP'' \<or> has_ext name ''.SHX'' then with_ext name ''.DBF''
      else name)"

definition msDBFOpen ::
  "'f vsi_rw \<Rightarrow> (nat \<Rightarrow> byte) \<Rightarrow> (string \<Rightarrow> string \<Rightarrow> 'f option) \<Rightarrow> (string \<Rightarrow> byte list option) \<Rightarrow> string \<Rightarrow> string \<Rightarrow>
   'f DBFInfo option" where
  "msDBFOpen ops junk VSIFOpenL read_cpg name access =
     (if access \<noteq> ''r'' \<and> access \<noteq> ''r+'' \<and> access \<noteq> ''rb'' \<and> access \<noteq> ''r+b'' then None
      else
        (let n1 = dbf_name name;
             (n2, f) = (case VSIFOpenL n1 access of
                Some f \<Rightarrow> (n1, Some f)
              | None \<Rightarrow> if has_ext n1 ''.dbf'' then (with_ext n1 ''.DBF'', VSIFOpenL (with_ext n1 ''.DBF'') access)
                        else (n1, None)) in
         case f of
           None \<Rightarrow> None
         | Some f \<Rightarrow>
             map_option (\<lambda>d. d\<lparr>pszEncoding := Some (msReadCPGEncoding
                 (read_cpg (with_ext n2 (if has_ext n2 ''.dbf'' then ''.cpg'' else ''.CPG''))))\<rparr>)
               (msDBFOpenVirtualFile ops junk f)))"

section \<open>Closing\<close>

definition count_bytes :: "int \<Rightarrow> byte list" where
  "count_bytes n = [word_of_int (n mod 256), word_of_int (n div 256 mod 256),
     word_of_int (n div (256 * 256) mod 256), word_of_int (n div (256 * 256 * 256) mod 256)]"

text \<open>
  The file as it is left, and whether the frees at the end include a pointer that was never
  written. A header that cannot be read leaves the arbitrary contents of the local array.
\<close>

definition msDBFClose :: "'f vsi_rw \<Rightarrow> (nat \<Rightarrow> byte) \<Rightarrow> 'f DBFInfo \<Rightarrow> 'f \<times> bool" where
  "msDBFClose ops junk d =
     (let d1 = flushRecord ops (writeHeader ops d);
          f = (if bUpdated d1 then
                 (case VSIFReadL ops (vseek ops (fp d1) 0) 32 1 of (k, h, f1) \<Rightarrow>
                    let h0 = take 32 (h @ map junk [length h..<32]);
                        h1 = [h0 ! 0, 95, 7, 26] @ count_bytes (nRecords d1) @ drop 8 h0 in
                    VSIFWriteL ops (vseek ops f1 0) h1)
               else fp d1) in
      (f, pszEncoding d1 = None))"

section \<open>Creating\<close>

text \<open>The file has been created with one zero byte and opened for update.\<close>

definition msDBFCreate :: "'f option \<Rightarrow> 'f DBFInfo option" where
  "msDBFCreate file =
     map_option (\<lambda>f. \<lparr>nRecords = 0, fp = f, nRecordLength = 1, nHeaderLength = 33, panFieldOffset = [],
       panFieldSize = [], panFieldDecimals = [], pachFieldType = [], pszHeader = [], nCurrentRecord = -1,
       bCurrentRecordModified = False, pszCurrentRecord = [], bNoHeader = True, bUpdated = False,
       nStringFieldLen = 0, pszEncoding = None\<rparr>) file"

definition field_header :: "string \<Rightarrow> DBFFieldType \<Rightarrow> int \<Rightarrow> int \<Rightarrow> byte list" where
  "field_header name eType nWidth nDecimals =
     (let nm = map byte_of (take 10 name);
          ty = (if eType = FTString then byte_of (CHR ''C'') else byte_of (CHR ''N''));
          sz = (if eType = FTString then [word_of_int (nWidth mod 256), word_of_int (nWidth div 256)]
                else [word_of_int nWidth, word_of_int nDecimals]) in
      nm @ replicate (11 - length nm) 0 @ [ty] @ replicate 4 0 @ sz @ replicate 14 0)"

text \<open>The index of the new field; \<open>MS_FALSE\<close> (0) if it is refused.\<close>

definition msDBFAddField ::
  "(nat \<Rightarrow> byte) \<Rightarrow> 'f DBFInfo \<Rightarrow> string \<Rightarrow> DBFFieldType \<Rightarrow> int \<Rightarrow> int \<Rightarrow> int \<times> 'f DBFInfo" where
  "msDBFAddField junk d name eType nWidth nDecimals =
     (if nRecords d > 0 \<or> \<not> bNoHeader d \<or> (eType \<noteq> FTDouble \<and> nDecimals \<noteq> 0) then (0, d)
      else
        (let rl = nRecordLength d + word_of_int nWidth in
         (int (nFields d),
          d\<lparr>panFieldOffset := panFieldOffset d @ [uint (nRecordLength d)],
            panFieldSize := panFieldSize d @ [nWidth], panFieldDecimals := panFieldDecimals d @ [nDecimals],
            pachFieldType := pachFieldType d @ [if eType = FTString then CHR ''C'' else CHR ''N''],
            nRecordLength := rl, nHeaderLength := nHeaderLength d + 32, bUpdated := False,
            pszHeader := take (32 * nFields d) (pszHeader d) @ field_header name eType nWidth nDecimals,
            pszCurrentRecord := take (unat rl) (pszCurrentRecord d @ map junk [length (pszCurrentRecord d)..<unat rl])\<rparr>)))"

section \<open>Reading attributes\<close>

definition numeric_type :: "char \<Rightarrow> bool" where
  "numeric_type ty \<longleftrightarrow> ty = CHR ''N'' \<or> ty = CHR ''F'' \<or> ty = CHR ''D''"

definition DBFIsValueNULL :: "string \<Rightarrow> char \<Rightarrow> bool" where
  "DBFIsValueNULL v ty =
     (if ty = CHR ''N'' \<or> ty = CHR ''F'' then v \<noteq> [] \<and> hd v = CHR ''*''
      else if ty = CHR ''D'' then take 8 v = ''00000000''
      else if ty = CHR ''L'' then v \<noteq> [] \<and> hd v = CHR ''?''
      else v = [])"

text \<open>The text of a field: up to a NUL, without trailing blanks, and for numbers without leading ones.\<close>

definition field_text :: "char \<Rightarrow> byte list \<Rightarrow> string" where
  "field_text ty bs =
     (let s = takeWhile (\<lambda>c. c \<noteq> NUL) (map chr_of bs);
          t = (case last_not (CHR '' '') s (length s) of None \<Rightarrow> [] | Some i \<Rightarrow> take (i + 1) s);
          u = (if numeric_type ty then dropWhile (\<lambda>c. c = CHR '' '') t else t) in
      if DBFIsValueNULL u ty \<and> numeric_type ty then ''0'' else u)"

text \<open>
  The bytes of a field in a record, and whether \<open>strncpy\<close> stays inside the record when it copies
  them: the field ends before the record does, or a NUL stops the copy.
\<close>

definition field_bytes :: "'f DBFInfo \<Rightarrow> nat \<Rightarrow> byte list \<Rightarrow> byte list" where
  "field_bytes d i r = take (nat (panFieldSize d ! i)) (drop (nat (panFieldOffset d ! i)) r)"

definition field_readable :: "'f DBFInfo \<Rightarrow> nat \<Rightarrow> byte list \<Rightarrow> bool" where
  "field_readable d i r \<longleftrightarrow>
     0 \<le> panFieldOffset d ! i \<and> 0 \<le> panFieldSize d ! i
     \<and> (panFieldOffset d ! i + panFieldSize d ! i \<le> int (length r) \<or> 0 \<in> set (field_bytes d i r))"

text \<open>
  Making record \<open>r\<close> the current one. The buffer must have room for a record. A read that fails leaves
  it with what arrived and \<open>nCurrentRecord\<close> as it was.
\<close>

definition load_record :: "'f vsi_rw \<Rightarrow> 'f DBFInfo \<Rightarrow> int \<Rightarrow> (bool \<times> 'f DBFInfo) option" where
  "load_record ops d r =
     (if nCurrentRecord d = r then Some (True, d)
      else
        (let d1 = flushRecord ops d in
         if length (pszCurrentRecord d1) < unat (nRecordLength d1) then None
         else
           (case VSIFReadL ops (vseek ops (fp d1) (record_offset d1 r)) (unat (nRecordLength d1)) 1 of
              (k, bs, f) \<Rightarrow>
                let d2 = d1\<lparr>fp := f, pszCurrentRecord := bs @ drop (length bs) (pszCurrentRecord d1)\<rparr> in
                Some (if k \<noteq> 1 then (False, d2) else (True, d2\<lparr>nCurrentRecord := r\<rparr>)))))"

definition msDBFReadAttribute ::
  "'f vsi_rw \<Rightarrow> 'f DBFInfo \<Rightarrow> int \<Rightarrow> int \<Rightarrow> (string option \<times> 'f DBFInfo \<times> report list) option" where
  "msDBFReadAttribute ops d hEntity iField =
     (if iField < 0 \<or> iField \<ge> int (nFields d) then
        Some (None, d, [Report MS_DBFERR ''Invalid field index %d.'' ''msDBFReadAttribute()''])
      else if hEntity < 0 \<or> hEntity \<ge> nRecords d then
        Some (None, d, [Report MS_DBFERR ''Invalid record number %d.'' ''msDBFReadAttribute()''])
      else
        (case load_record ops d hEntity of
           None \<Rightarrow> None
         | Some (False, d1) \<Rightarrow> Some (None, d1, [Report MS_DBFERR ''Cannot read record %d.'' ''msDBFReadAttribute()''])
         | Some (True, d1) \<Rightarrow>
             (let i = nat iField; sz = panFieldSize d1 ! i;
                  d2 = (if sz + 1 > nStringFieldLen d1 then d1\<lparr>nStringFieldLen := sz * 2 + 10\<rparr> else d1) in
              if field_readable d2 i (pszCurrentRecord d2) then
                Some (Some (field_text (pachFieldType d2 ! i) (field_bytes d2 i (pszCurrentRecord d2))), d2, [])
              else None)))"

text \<open>\<open>atoi\<close> is handed the null pointer when the attribute cannot be read.\<close>

definition msDBFReadIntegerAttribute ::
  "'f vsi_rw \<Rightarrow> 'f DBFInfo \<Rightarrow> int \<Rightarrow> int \<Rightarrow> (int \<times> 'f DBFInfo \<times> report list) option" where
  "msDBFReadIntegerAttribute ops d r i =
     (case msDBFReadAttribute ops d r i of
        Some (Some v, d', es) \<Rightarrow> Some (atoi v, d', es)
      | _ \<Rightarrow> None)"

definition msDBFReadStringAttribute ::
  "'f vsi_rw \<Rightarrow> 'f DBFInfo \<Rightarrow> int \<Rightarrow> int \<Rightarrow> (string option \<times> 'f DBFInfo \<times> report list) option" where
  "msDBFReadStringAttribute = msDBFReadAttribute"

definition msDBFGetFieldCount :: "'f DBFInfo \<Rightarrow> int" where
  "msDBFGetFieldCount d = int (nFields d)"

definition msDBFGetRecordCount :: "'f DBFInfo \<Rightarrow> int" where
  "msDBFGetRecordCount d = nRecords d"

text \<open>The eleven bytes of a field name; the loop drops blanks at the very end only.\<close>

fun drop_end_blanks :: "string \<Rightarrow> nat \<Rightarrow> string" where
  "drop_end_blanks buf 0 = buf"
| "drop_end_blanks buf (Suc i) = (if buf ! Suc i = CHR '' '' then drop_end_blanks (buf[Suc i := NUL]) i else buf)"

definition field_name :: "byte list \<Rightarrow> nat \<Rightarrow> string" where
  "field_name h i =
     (let s = takeWhile (\<lambda>c. c \<noteq> NUL) (map chr_of (take 11 (drop (32 * i) h)));
          buf = s @ replicate (11 - length s) NUL in
      takeWhile (\<lambda>c. c \<noteq> NUL) (drop_end_blanks buf 10))"

definition msDBFGetFieldInfo :: "'f DBFInfo \<Rightarrow> int \<Rightarrow> (DBFFieldType \<times> string \<times> int \<times> int)" where
  "msDBFGetFieldInfo d iField =
     (if iField < 0 \<or> iField \<ge> int (nFields d) then (FTInvalid, [], 0, 0)
      else
        (let i = nat iField in
         (if numeric_type (pachFieldType d ! i)
          then (if panFieldDecimals d ! i > 0 then FTDouble else FTInteger) else FTString,
          field_name (pszHeader d) i, panFieldSize d ! i, panFieldDecimals d ! i)))"

section \<open>Writing attributes\<close>

text \<open>\<open>printf("%*.*f", width, decimals, value)\<close>.\<close>

definition fixed_point :: "nat \<Rightarrow> f64 \<Rightarrow> string" where
  "fixed_point dec w =
     (let body =
        (if f64_nan w then ''nan'' else if f64_inf w then ''inf''
         else
           (let m = f64_mant w * 10 ^ dec; e = f64_exp2 w;
                n = (if e \<ge> 0 then m * 2 ^ nat e else round_half_even m (nat (- e)));
                ds = digits_of (nat n); ds' = replicate (dec + 1 - length ds) (CHR ''0'') @ ds;
                k = length ds' - dec in
            if dec = 0 then ds' else take k ds' @ ''.'' @ drop k ds'))
      in (if f64_neg w then CHR ''-'' # body else body))"

definition pad_left :: "nat \<Rightarrow> string \<Rightarrow> string" where
  "pad_left n s = replicate (n - length s) (CHR '' '') @ s"

definition double_of_int :: "int \<Rightarrow> f64" where
  "double_of_int n = f64_round (n < 0) \<bar>n\<bar> 0"

text \<open>What the pointer \<open>pValue\<close> points to.\<close>

datatype dbfValue = DoubleValue f64 | StringValue string

text \<open>
  The characters to store: numbers go through a buffer of forty bytes. \<open>None\<close> when the pointer is
  read as the wrong type.
\<close>

definition value_text :: "char \<Rightarrow> int \<Rightarrow> int \<Rightarrow> dbfValue \<Rightarrow> string option" where
  "value_text ty sz dec v =
     (case v of
        DoubleValue w \<Rightarrow> if numeric_type ty then Some (take 39 (pad_left (nat sz) (fixed_point (nat dec) w))) else None
      | StringValue s \<Rightarrow> if numeric_type ty then None else Some s)"

definition store_field :: "'f DBFInfo \<Rightarrow> nat \<Rightarrow> string \<Rightarrow> 'f DBFInfo" where
  "store_field d i s =
     (let off = nat (panFieldOffset d ! i); bs = map byte_of (take (nat (panFieldSize d ! i)) s); r = pszCurrentRecord d in
      d\<lparr>pszCurrentRecord := take off r @ bs @ drop (off + length bs) r\<rparr>)"

text \<open>The copy of the characters stays inside the record buffer.\<close>

definition field_writable :: "'f DBFInfo \<Rightarrow> nat \<Rightarrow> string \<Rightarrow> bool" where
  "field_writable d i s \<longleftrightarrow>
     0 \<le> panFieldOffset d ! i \<and> 0 \<le> panFieldSize d ! i
     \<and> panFieldOffset d ! i + min (int (length s)) (panFieldSize d ! i) \<le> int (length (pszCurrentRecord d))"

text \<open>\<open>None\<close> for a field that does not exist: its arrays are read without a check.\<close>

definition msDBFWriteAttribute ::
  "'f vsi_rw \<Rightarrow> 'f DBFInfo \<Rightarrow> int \<Rightarrow> int \<Rightarrow> dbfValue \<Rightarrow> (bool \<times> 'f DBFInfo) option" where
  "msDBFWriteAttribute ops d hEntity iField v =
     (if hEntity < 0 \<or> hEntity > nRecords d then Some (False, d)
      else
        (let d1 = writeHeader ops d; e = flushRecord ops d1; isnew = (hEntity = nRecords d1);
             d2 = (if isnew then
                     e\<lparr>nRecords := nRecords e + 1, nCurrentRecord := hEntity,
                       pszCurrentRecord := replicate (unat (nRecordLength e)) (byte_of (CHR '' ''))\<rparr>
                   else d1) in
         if isnew \<and> length (pszCurrentRecord e) < unat (nRecordLength e) then None
         else
           (case load_record ops d2 hEntity of
              None \<Rightarrow> None
            | Some (False, d3) \<Rightarrow> Some (False, d3)
            | Some (True, d3) \<Rightarrow>
                if iField < 0 \<or> iField \<ge> int (nFields d3) then None
                else
                  (let i = nat iField in
                   case value_text (pachFieldType d3 ! i) (panFieldSize d3 ! i) (panFieldDecimals d3 ! i) v of
                     None \<Rightarrow> None
                   | Some s \<Rightarrow>
                       if field_writable d3 i s
                       then Some (True, (store_field d3 i s)\<lparr>bCurrentRecordModified := True, bUpdated := True\<rparr>)
                       else None))))"

definition msDBFWriteDoubleAttribute :: "'f vsi_rw \<Rightarrow> 'f DBFInfo \<Rightarrow> int \<Rightarrow> int \<Rightarrow> f64 \<Rightarrow> (bool \<times> 'f DBFInfo) option" where
  "msDBFWriteDoubleAttribute ops d r i w = msDBFWriteAttribute ops d r i (DoubleValue w)"

definition msDBFWriteIntegerAttribute :: "'f vsi_rw \<Rightarrow> 'f DBFInfo \<Rightarrow> int \<Rightarrow> int \<Rightarrow> int \<Rightarrow> (bool \<times> 'f DBFInfo) option" where
  "msDBFWriteIntegerAttribute ops d r i n = msDBFWriteAttribute ops d r i (DoubleValue (double_of_int n))"

definition msDBFWriteStringAttribute :: "'f vsi_rw \<Rightarrow> 'f DBFInfo \<Rightarrow> int \<Rightarrow> int \<Rightarrow> string \<Rightarrow> (bool \<times> 'f DBFInfo) option" where
  "msDBFWriteStringAttribute ops d r i s = msDBFWriteAttribute ops d r i (StringValue s)"

section \<open>Items\<close>

fun find_item :: "'f DBFInfo \<Rightarrow> string \<Rightarrow> nat list \<Rightarrow> int" where
  "find_item d name [] = -1"
| "find_item d name (i # is) =
     (if strcasecmp name (fst (snd (msDBFGetFieldInfo d (int i)))) = 0 then int i else find_item d name is)"

definition msDBFGetItemIndex :: "'f DBFInfo \<Rightarrow> string option \<Rightarrow> int \<times> report list" where
  "msDBFGetItemIndex d name =
     (case name of
        None \<Rightarrow> (-1, [Report MS_MISCERR ''NULL item name passed.'' ''msGetItemIndex()''])
      | Some n \<Rightarrow>
          (let i = find_item d n [0..<nFields d] in
           (i, if i = -1 then [Report MS_DBFERR ''Item '%s' not found.'' ''msDBFGetItemIndex()''] else [])))"

definition msDBFGetItems :: "'f DBFInfo \<Rightarrow> string list option \<times> report list" where
  "msDBFGetItems d =
     (if nFields d = 0 then (None, [Report MS_DBFERR ''File contains no data.'' ''msGetDBFItems()''])
      else (Some (map (\<lambda>i. fst (snd (msDBFGetFieldInfo d (int i)))) [0..<nFields d]), []))"

text \<open>\<open>msStrdup\<close> turns the null pointer of a failed read into the empty string.\<close>

fun read_values :: "'f vsi_rw \<Rightarrow> 'f DBFInfo \<Rightarrow> int \<Rightarrow> nat list \<Rightarrow> (string list \<times> 'f DBFInfo \<times> report list) option" where
  "read_values ops d r [] = Some ([], d, [])"
| "read_values ops d r (i # is) =
     do {
       (v, d1, es) \<leftarrow> msDBFReadStringAttribute ops d r (int i);
       (vs, d2, fs) \<leftarrow> read_values ops d1 r is;
       Some ((case v of None \<Rightarrow> [] | Some s \<Rightarrow> s) # vs, d2, es @ fs)
     }"

definition msDBFGetValues :: "'f vsi_rw \<Rightarrow> 'f DBFInfo \<Rightarrow> int \<Rightarrow> (string list option \<times> 'f DBFInfo \<times> report list) option" where
  "msDBFGetValues ops d r =
     (if nFields d = 0 then Some (None, d, [Report MS_DBFERR ''File contains no data.'' ''msGetDBFValues()''])
      else map_option (\<lambda>(vs, d', es). (Some vs, d', es)) (read_values ops d r [0..<nFields d]))"

fun item_indexes :: "'f DBFInfo \<Rightarrow> string option list \<Rightarrow> int list option \<times> report list" where
  "item_indexes d [] = (Some [], [])"
| "item_indexes d (n # ns) =
     (case msDBFGetItemIndex d n of (i, es) \<Rightarrow>
        if i = -1 then (None, es)
        else case item_indexes d ns of (js, fs) \<Rightarrow> (map_option ((#) i) js, es @ fs))"

definition msDBFGetItemIndexes :: "'f DBFInfo \<Rightarrow> string option list \<Rightarrow> int list option \<times> report list" where
  "msDBFGetItemIndexes d names = (if names = [] then (None, []) else item_indexes d names)"

fun value_list :: "'f vsi_rw \<Rightarrow> 'f DBFInfo \<Rightarrow> int \<Rightarrow> int list \<Rightarrow> (string list option \<times> 'f DBFInfo \<times> report list) option" where
  "value_list ops d r [] = Some (Some [], d, [])"
| "value_list ops d r (i # is) =
     (case msDBFReadStringAttribute ops d r i of
        None \<Rightarrow> None
      | Some (None, d1, es) \<Rightarrow> Some (None, d1, es)
      | Some (Some v, d1, es) \<Rightarrow>
          map_option (\<lambda>(vs, d2, fs). (map_option ((#) v) vs, d2, es @ fs)) (value_list ops d1 r is))"

definition msDBFGetValueList ::
  "'f vsi_rw \<Rightarrow> 'f DBFInfo \<Rightarrow> int \<Rightarrow> int list \<Rightarrow> (string list option \<times> 'f DBFInfo \<times> report list) option" where
  "msDBFGetValueList ops d r is = (if is = [] then Some (None, d, []) else value_list ops d r is)"

end
