(* ===== verification/DbfTable.thy ===== *)
theory DbfTable
  imports MapXbase
begin

text \<open>
  What the attribute tables of \<open>mapxbase.c\<close> promise. The handle, with its buffered record and its
  file, stands for a list of records (\<open>table_rows\<close>). Under the invariant \<open>dbf_ok\<close> every operation of
  the handle is an operation of that list: reading a field returns its text, writing changes that
  field only or appends a record, and closing and opening again gives the same list.
\<close>

section \<open>The table behind the handle\<close>

text \<open>
  The records as a client sees them: the bytes of the file, with the buffer in place of the current
  record.
\<close>

definition row_at :: "'f DBFInfo \<Rightarrow> byte list \<Rightarrow> nat \<Rightarrow> byte list" where
  "row_at d c r = take (unat (nRecordLength d)) (drop (nat (nHeaderLength d) + unat (nRecordLength d) * r) c)"

definition table_rows :: "byte list \<Rightarrow> 'f DBFInfo \<Rightarrow> byte list list" where
  "table_rows c d =
     map (\<lambda>r. if int r = nCurrentRecord d then pszCurrentRecord d else row_at d c r) [0..<nat (nRecords d)]"

text \<open>Storing the text of a field in a record, and in a table, where the record behind the last is a new one.\<close>

definition put_field :: "'f DBFInfo \<Rightarrow> nat \<Rightarrow> string \<Rightarrow> byte list \<Rightarrow> byte list" where
  "put_field d i s r =
     (let off = nat (panFieldOffset d ! i); bs = map byte_of (take (nat (panFieldSize d ! i)) s) in
      take off r @ bs @ drop (off + length bs) r)"

definition put_row :: "'f DBFInfo \<Rightarrow> nat \<Rightarrow> nat \<Rightarrow> string \<Rightarrow> byte list list \<Rightarrow> byte list list" where
  "put_row d r i s rs =
     (if r < length rs then rs[r := put_field d i s (rs ! r)]
      else rs @ [put_field d i s (replicate (unat (nRecordLength d)) (byte_of (CHR '' '')))])"

text \<open>Fields lie side by side in a record, and the descriptions in the header agree with the arrays.\<close>

definition layout_ok :: "'f DBFInfo \<Rightarrow> bool" where
  "layout_ok d \<longleftrightarrow>
     length (panFieldDecimals d) = nFields d \<and> length (pachFieldType d) = nFields d \<and>
     panFieldOffset d = field_offsets 1 (panFieldSize d) \<and> (\<forall>s\<in>set (panFieldSize d). 0 \<le> s) \<and>
     1 + sum_list (panFieldSize d) \<le> uint (nRecordLength d) \<and> uint (nRecordLength d) < 65536 \<and>
     32 < nHeaderLength d \<and> nHeaderLength d < 65536 \<and> int (nFields d) = (nHeaderLength d - 32) div 32 \<and>
     32 * nFields d \<le> length (pszHeader d) \<and>
     (\<forall>i<nFields d. field_info (pszHeader d) i = (panFieldSize d ! i, panFieldDecimals d ! i, pachFieldType d ! i))"

definition record_count :: "byte list \<Rightarrow> int" where
  "record_count c = uint (c ! 4) + uint (c ! 5) * 256 + uint (c ! 6) * 65536 + uint (c ! 7) * 16777216"

definition header_ok :: "byte list \<Rightarrow> 'f DBFInfo \<Rightarrow> bool" where
  "header_ok c d \<longleftrightarrow>
     nat (nHeaderLength d) \<le> length c \<and>
     uint (c ! 8) + uint (c ! 9) * 256 = nHeaderLength d \<and> uint (c ! 10) + uint (c ! 11) * 256 = uint (nRecordLength d) \<and>
     take (32 * nFields d) (drop 32 c) = take (32 * nFields d) (pszHeader d) \<and>
     (\<not> bUpdated d \<longrightarrow> record_count c = nRecords d)"

text \<open>Every record is in the file, except for a modified one that is still in the buffer.\<close>

definition rows_ok :: "byte list \<Rightarrow> 'f DBFInfo \<Rightarrow> bool" where
  "rows_ok c d \<longleftrightarrow>
     (\<forall>r<nat (nRecords d). bCurrentRecordModified d \<and> int r = nCurrentRecord d \<or>
        nat (nHeaderLength d) + unat (nRecordLength d) * Suc r \<le> length c) \<and>
     (0 \<le> nCurrentRecord d \<longrightarrow> \<not> bCurrentRecordModified d \<longrightarrow> pszCurrentRecord d = row_at d c (nat (nCurrentRecord d)))"

definition dbf_ok :: "byte list \<Rightarrow> 'f DBFInfo \<Rightarrow> bool" where
  "dbf_ok c d \<longleftrightarrow>
     layout_ok d \<and> 0 \<le> nRecords d \<and> nRecords d < 2 ^ 31 \<and>
     nHeaderLength d + uint (nRecordLength d) * nRecords d < 2 ^ 32 \<and>
     (nFields d = 0 \<or> length (pszCurrentRecord d) = unat (nRecordLength d)) \<and>
     -1 \<le> nCurrentRecord d \<and> nCurrentRecord d < nRecords d \<and>
     (bCurrentRecordModified d \<longrightarrow> 0 \<le> nCurrentRecord d \<and> bUpdated d) \<and>
     (if bNoHeader d then nRecords d = 0 \<and> \<not> bUpdated d \<and> nHeaderLength d = 33 + 32 * int (nFields d) else header_ok c d) \<and> rows_ok c d"

lemma layout_ok_update [simp]:
  "layout_ok (d\<lparr>fp := f\<rparr>) = layout_ok d" "layout_ok (d\<lparr>nRecords := n\<rparr>) = layout_ok d"
  "layout_ok (d\<lparr>pszCurrentRecord := b\<rparr>) = layout_ok d" "layout_ok (d\<lparr>nCurrentRecord := n\<rparr>) = layout_ok d"
  "layout_ok (d\<lparr>bCurrentRecordModified := m\<rparr>) = layout_ok d" "layout_ok (d\<lparr>bUpdated := m\<rparr>) = layout_ok d"
  "layout_ok (d\<lparr>bNoHeader := m\<rparr>) = layout_ok d" "layout_ok (d\<lparr>nStringFieldLen := n\<rparr>) = layout_ok d"
  "layout_ok (d\<lparr>pszEncoding := e\<rparr>) = layout_ok d"
  by (simp_all add: layout_ok_def nFields_def)

lemma nFields_update [simp]:
  "nFields (d\<lparr>fp := f\<rparr>) = nFields d" "nFields (d\<lparr>nRecords := n\<rparr>) = nFields d"
  "nFields (d\<lparr>pszCurrentRecord := b\<rparr>) = nFields d" "nFields (d\<lparr>nCurrentRecord := n\<rparr>) = nFields d"
  "nFields (d\<lparr>bCurrentRecordModified := m\<rparr>) = nFields d" "nFields (d\<lparr>bUpdated := m\<rparr>) = nFields d"
  "nFields (d\<lparr>bNoHeader := m\<rparr>) = nFields d" "nFields (d\<lparr>nStringFieldLen := n\<rparr>) = nFields d"
  by (simp_all add: nFields_def)

lemma row_at_update [simp]:
  "row_at (d\<lparr>fp := f\<rparr>) = row_at d" "row_at (d\<lparr>nRecords := n\<rparr>) = row_at d"
  "row_at (d\<lparr>pszCurrentRecord := b\<rparr>) = row_at d" "row_at (d\<lparr>nCurrentRecord := n\<rparr>) = row_at d"
  "row_at (d\<lparr>bCurrentRecordModified := m\<rparr>) = row_at d" "row_at (d\<lparr>bUpdated := m\<rparr>) = row_at d"
  "row_at (d\<lparr>bNoHeader := m\<rparr>) = row_at d" "row_at (d\<lparr>nStringFieldLen := n\<rparr>) = row_at d"
  by (simp_all add: row_at_def fun_eq_iff)

lemma field_span:
  "i < length ss \<Longrightarrow> \<forall>s\<in>set ss. 0 \<le> s \<Longrightarrow>
   off \<le> field_offsets off ss ! i \<and> field_offsets off ss ! i + ss ! i \<le> off + sum_list ss"
proof (induction ss arbitrary: i off)
  case (Cons s ss)
  have "0 \<le> sum_list ss" using Cons.prems(2) by (simp add: sum_list_nonneg)
  show ?case
  proof (cases i)
    case 0
    then show ?thesis using \<open>0 \<le> sum_list ss\<close> by simp
  next
    case (Suc k)
    then show ?thesis using Cons.IH [of k "off + s"] Cons.prems by simp
  qed
qed simp

lemma field_apart:
  "i < j \<Longrightarrow> j < length ss \<Longrightarrow> \<forall>s\<in>set ss. 0 \<le> s \<Longrightarrow> field_offsets off ss ! i + ss ! i \<le> field_offsets off ss ! j"
proof (induction ss arbitrary: i j off)
  case (Cons s ss)
  then obtain j' where j: "j = Suc j'" "j' < length ss" by (cases j) auto
  show ?case
  proof (cases i)
    case 0
    then show ?thesis using field_span [of j' ss "off + s"] j Cons.prems by simp
  next
    case (Suc i')
    then show ?thesis using Cons.IH [of i' j' "off + s"] j Cons.prems by simp
  qed
qed simp

lemma record_offset_exact:
  assumes "dbf_ok c d" and "0 \<le> r" and "r \<le> nRecords d"
  shows "record_offset d r = nat (nHeaderLength d) + unat (nRecordLength d) * nat r"
proof -
  have h: "0 \<le> nHeaderLength d" using assms(1) by (simp add: dbf_ok_def layout_ok_def)
  have le: "uint (nRecordLength d) * r \<le> uint (nRecordLength d) * nRecords d"
    using assms(3) by (simp add: mult_left_mono)
  have sm: "nHeaderLength d + uint (nRecordLength d) * nRecords d < 2 ^ 32" using assms(1) by (simp add: dbf_ok_def)
  have nn: "0 \<le> uint (nRecordLength d) * r" using assms(2) by simp
  define k where "k = uint (nRecordLength d) * r + nHeaderLength d"
  have "nRecordLength d * word_of_int r + word_of_int (nHeaderLength d) = (word_of_int k :: u32)"
    by (simp add: k_def)
  moreover have "uint (word_of_int k :: u32) = k"
    using le sm nn h unfolding uint_word_of_int k_def by (simp add: take_bit_eq_mod)
  ultimately have "unat (nRecordLength d * word_of_int r + word_of_int (nHeaderLength d)) = nat k"
    by (simp only: unat_eq_nat_uint)
  also have "nat k = nat (nHeaderLength d) + unat (nRecordLength d) * nat r"
    using nn h assms(2) by (simp only: k_def nat_add_distrib nat_mult_distrib unat_eq_nat_uint uint_ge_0 add.commute)
  finally show ?thesis by (simp add: record_offset_def)
qed

section \<open>Bytes of the file\<close>

lemma overwrite_row_other:
  assumes "r \<noteq> k" and "length bs = n" and "h + n * Suc r \<le> length c"
  shows "take n (drop (h + n * r) (overwrite c (h + n * k) bs)) = take n (drop (h + n * r) c)"
proof (cases "r < k")
  case True
  then have "n * Suc r \<le> n * k" by (simp only: mult_le_mono2 Suc_leI)
  then show ?thesis using assms by (intro overwrite_before) auto
next
  case False
  with assms(1) have "n * Suc k \<le> n * r" by (simp only: mult_le_mono2 Suc_leI not_less)
  then show ?thesis using assms by (intro overwrite_after) auto
qed

lemma header_ok_overwrite:
  assumes "header_ok c d" and "nat (nHeaderLength d) \<le> n" and "layout_ok d"
  shows "header_ok (overwrite c n bs) d"
proof -
  have hl: "32 + 32 * nFields d \<le> nat (nHeaderLength d)" "32 < nat (nHeaderLength d)"
    using assms(3) by (auto simp: layout_ok_def)
  have len: "nat (nHeaderLength d) \<le> length c" using assms(1) by (simp add: header_ok_def)
  have b: "overwrite c n bs ! i = c ! i" if "i < 32" for i
    using that hl len assms(2) by (simp add: overwrite_def nth_append)
  have "take (32 * nFields d) (drop 32 (overwrite c n bs)) = take (32 * nFields d) (drop 32 c)"
    using hl len assms(2) by (intro overwrite_before) auto
  then show ?thesis using assms(1) len b by (simp add: header_ok_def record_count_def length_overwrite)
qed

lemma dbf_okD:
  assumes "dbf_ok c d"
  shows "layout_ok d" "0 \<le> nRecords d" "-1 \<le> nCurrentRecord d" "nCurrentRecord d < nRecords d" "rows_ok c d"
    "\<not> bNoHeader d \<Longrightarrow> header_ok c d" "bCurrentRecordModified d \<Longrightarrow> 0 \<le> nCurrentRecord d"
    "bNoHeader d \<Longrightarrow> nRecords d = 0" "bNoHeader d \<Longrightarrow> \<not> bUpdated d"
    "nFields d \<noteq> 0 \<Longrightarrow> length (pszCurrentRecord d) = unat (nRecordLength d)"
  using assms by (simp_all add: dbf_ok_def)

lemma length_table_rows [simp]: "length (table_rows c d) = nat (nRecords d)"
  by (simp add: table_rows_def)

lemma table_rows_nth:
  "r < nat (nRecords d) \<Longrightarrow>
   table_rows c d ! r = (if int r = nCurrentRecord d then pszCurrentRecord d else row_at d c r)"
  by (simp add: table_rows_def)

lemma clean_rows:
  assumes "rows_ok c d" and "\<not> bCurrentRecordModified d"
  shows "table_rows c d = map (row_at d c) [0..<nat (nRecords d)]"
proof (rule nth_equalityI)
  fix r assume "r < length (table_rows c d)"
  moreover have "pszCurrentRecord d = row_at d c r" if "nCurrentRecord d = int r"
    using assms that by (simp add: rows_ok_def)
  ultimately show "table_rows c d ! r = map (row_at d c) [0..<nat (nRecords d)] ! r"
    by (auto simp: table_rows_nth)
qed simp

section \<open>The buffered record\<close>

context writable_vsi
begin

lemma flush_ok:
  assumes ok: "dbf_ok (bytes (fp d)) d" and nf: "nFields d \<noteq> 0"
  obtains f where "flushRecord ops d = d\<lparr>bCurrentRecordModified := False, fp := f\<rparr>"
    "dbf_ok (bytes f) (d\<lparr>bCurrentRecordModified := False, fp := f\<rparr>)"
    "table_rows (bytes f) (d\<lparr>bCurrentRecordModified := False, fp := f\<rparr>) = table_rows (bytes (fp d)) d"
proof (cases "bCurrentRecordModified d")
  case False
  then have "flushRecord ops d = d" "d = d\<lparr>bCurrentRecordModified := False, fp := fp d\<rparr>"
    by (simp_all add: flushRecord_def)
  then show ?thesis using ok that [of "fp d"] by metis
next
  case True
  define k c h n where "k = nat (nCurrentRecord d)" and "c = bytes (fp d)" and "h = nat (nHeaderLength d)"
    and "n = unat (nRecordLength d)"
  note kc = this
  have cur: "nCurrentRecord d = int k" "int k < nRecords d" using dbf_okD(4,7) [OF ok] True by (simp_all add: kc(1))
  have nh: "\<not> bNoHeader d" using dbf_okD(8) [OF ok] cur by auto
  have len: "length (pszCurrentRecord d) = n" using dbf_okD(10) [OF ok nf] by (simp add: kc(4))
  have off: "record_offset d (nCurrentRecord d) = h + n * k"
    using record_offset_exact [OF ok, of "int k"] cur by (simp add: kc(3,4))
  define f where "f = VSIFWriteL ops (vseek ops (fp d) (record_offset d (nCurrentRecord d))) (take n (pszCurrentRecord d))"
  have fl: "flushRecord ops d = d\<lparr>bCurrentRecordModified := False, fp := f\<rparr>"
    using True cur by (simp add: flushRecord_def f_def kc(4))
  have bf: "bytes f = overwrite c (h + n * k) (pszCurrentRecord d)"
    by (simp add: f_def seek_write off kc(2) len)
  have rows: "r = k \<or> h + n * Suc r \<le> length c" if "r < nat (nRecords d)" for r
    using dbf_okD(5) [OF ok] cur that by (auto simp: rows_ok_def kc(2-4))
  have row: "row_at d (bytes f) r = (if r = k then pszCurrentRecord d else row_at d c r)" if "r < nat (nRecords d)" for r
    using overwrite_same [of "pszCurrentRecord d" "h + n * k" c] overwrite_row_other [OF _ len, of r k h c] rows [OF that] len
    by (auto simp: row_at_def bf kc(3,4))
  have lc: "h + n * Suc r \<le> length (bytes f)" if "r < nat (nRecords d)" for r
    using rows [OF that] len by (auto simp: bf length_overwrite)
  have "rows_ok (bytes f) (d\<lparr>bCurrentRecordModified := False, fp := f\<rparr>)"
    using lc row [of k] cur by (simp add: rows_ok_def kc(3,4))
  moreover have "header_ok (bytes f) (d\<lparr>bCurrentRecordModified := False, fp := f\<rparr>)"
    using header_ok_overwrite [OF dbf_okD(6) [OF ok nh] _ dbf_okD(1) [OF ok], of "h + n * k" "pszCurrentRecord d"]
    by (simp add: header_ok_def bf kc(2,3))
  ultimately have "dbf_ok (bytes f) (d\<lparr>bCurrentRecordModified := False, fp := f\<rparr>)"
    using ok nh by (simp add: dbf_ok_def)
  moreover have "table_rows (bytes f) (d\<lparr>bCurrentRecordModified := False, fp := f\<rparr>) = table_rows (bytes (fp d)) d"
    by (rule nth_equalityI) (auto simp: table_rows_nth row cur kc(2))
  ultimately show ?thesis using that fl by blast
qed

end

section \<open>Loading and storing\<close>

lemma record_length_pos:
  assumes "layout_ok d"
  shows "0 < unat (nRecordLength d)"
proof -
  have "0 \<le> sum_list (panFieldSize d)" using assms by (intro sum_list_nonneg) (simp add: layout_ok_def)
  then have "0 < uint (nRecordLength d)" using assms by (simp add: layout_ok_def)
  then show ?thesis by (simp only: unat_eq_nat_uint zero_less_nat_eq)
qed

lemma dbf_ok_string_len [simp]:
  "dbf_ok c (d\<lparr>nStringFieldLen := n\<rparr>) = dbf_ok c d" "table_rows c (d\<lparr>nStringFieldLen := n\<rparr>) = table_rows c d"
  by (simp_all add: dbf_ok_def header_ok_def rows_ok_def table_rows_def)

context writable_vsi
begin

lemma load_ok:
  assumes ok: "dbf_ok (bytes (fp d)) d" and nf: "nFields d \<noteq> 0" and r: "0 \<le> r" "r < nRecords d"
  obtains d' f m where "load_record ops d r = Some (True, d')"
    "d' = d\<lparr>fp := f, pszCurrentRecord := table_rows (bytes (fp d)) d ! nat r, nCurrentRecord := r, bCurrentRecordModified := m\<rparr>"
    "dbf_ok (bytes f) d'" "table_rows (bytes f) d' = table_rows (bytes (fp d)) d"
proof (cases "nCurrentRecord d = r")
  case True
  then have eq: "d = d\<lparr>fp := fp d, pszCurrentRecord := table_rows (bytes (fp d)) d ! nat r, nCurrentRecord := r,
      bCurrentRecordModified := bCurrentRecordModified d\<rparr>"
    using r by (simp add: table_rows_nth)
  have "load_record ops d r = Some (True, d)" using True by (simp add: load_record_def)
  from that [OF this eq ok refl] show ?thesis .
next
  case False
  from flush_ok [OF ok nf] obtain f1 where
    fl: "flushRecord ops d = d\<lparr>bCurrentRecordModified := False, fp := f1\<rparr>" (is "_ = ?d1")
    and ok1: "dbf_ok (bytes f1) (d\<lparr>bCurrentRecordModified := False, fp := f1\<rparr>)"
    and rows1: "table_rows (bytes f1) (d\<lparr>bCurrentRecordModified := False, fp := f1\<rparr>) = table_rows (bytes (fp d)) d" .
  define h n where "h = nat (nHeaderLength d)" and "n = unat (nRecordLength d)"
  have off: "record_offset ?d1 r = h + n * nat r"
    using record_offset_exact [OF ok1, of r] r by (simp add: h_def n_def)
  have inn: "h + n * Suc (nat r) \<le> length (bytes f1)"
    using dbf_okD(5) [OF ok1] r by (simp add: rows_ok_def h_def n_def)
  then obtain f2 where rd: "VSIFReadL ops (vseek ops f1 (h + n * nat r)) n 1 = (1, take n (drop (h + n * nat r) (bytes f1)), f2)"
    and bf: "bytes f2 = bytes f1"
    using seek_read1 [of "h + n * nat r" n f1] by (auto simp: add.commute add.left_commute)
  have row: "take n (drop (h + n * nat r) (bytes f1)) = row_at d (bytes f1) (nat r)" by (simp add: row_at_def h_def n_def)
  have lrow: "length (row_at d (bytes f1) (nat r)) = n" using inn by (simp flip: row)
  have lbuf: "length (pszCurrentRecord d) = n" using dbf_okD(10) [OF ok nf] by (simp add: n_def)
  have tr: "table_rows (bytes (fp d)) d ! nat r = row_at d (bytes f1) (nat r)"
    using False r by (simp flip: rows1 add: table_rows_nth)
  define d' where "d' = d\<lparr>fp := f2, pszCurrentRecord := table_rows (bytes (fp d)) d ! nat r, nCurrentRecord := r,
    bCurrentRecordModified := False\<rparr>"
  have ld: "load_record ops d r = Some (True, d')"
    using False lrow lbuf by (simp add: load_record_def fl off rd [unfolded One_nat_def] row tr d'_def flip: n_def)
  have "rows_ok (bytes f2) d'"
    using dbf_okD(5) [OF ok1] r by (simp add: rows_ok_def d'_def bf tr)
  moreover have "header_ok (bytes f2) d' = header_ok (bytes f1) ?d1" by (simp add: header_ok_def d'_def bf)
  ultimately have "dbf_ok (bytes f2) d'"
    using ok1 r lrow by (auto simp: dbf_ok_def d'_def tr n_def)
  moreover have "table_rows (bytes f2) d' = table_rows (bytes (fp d)) d"
    using clean_rows [OF \<open>rows_ok (bytes f2) d'\<close>] clean_rows [OF dbf_okD(5) [OF ok1]]
    by (simp add: d'_def bf rows1)
  ultimately show ?thesis using that [OF ld d'_def] by blast
qed

end

section \<open>The header\<close>

lemma overwrite_0: "overwrite c 0 bs = bs @ drop (length bs) c"
  by (simp add: overwrite_def)

lemma overwrite_append:
  "overwrite (overwrite c 0 xs) (length xs) ys = overwrite c 0 (xs @ ys)"
  by (simp add: overwrite_def add.commute)

lemma two_bytes:
  "0 \<le> n \<Longrightarrow> n < 65536 \<Longrightarrow> uint (word_of_int (n mod 256) :: byte) + uint (word_of_int (n div 256) :: byte) * 256 = n"
  by (simp add: uint_word_of_int take_bit_eq_mod)

lemma header_bytes_ok:
  assumes "layout_ok d" and "nHeaderLength d = 33 + 32 * int (nFields d)" and "nRecords d = 0"
    and c: "c = file_header (nHeaderLength d) (nRecordLength d) @ take (32 * nFields d) (pszHeader d) @ [0x0D] @ rest"
  shows "header_ok c d"
proof -
  have rl: "0 \<le> uint (nRecordLength d)" "uint (nRecordLength d) < 65536" using assms(1) by (simp_all add: layout_ok_def)
  have hl: "0 \<le> nHeaderLength d" "nHeaderLength d < 65536" using assms(1) by (simp_all add: layout_ok_def)
  have len: "length (pszHeader d) \<ge> 32 * nFields d" using assms(1) by (simp add: layout_ok_def)
  have b: "c ! 4 = 0" "c ! 5 = 0" "c ! 6 = 0" "c ! 7 = 0"
    "c ! 8 = word_of_int (nHeaderLength d mod 256)" "c ! 9 = word_of_int (nHeaderLength d div 256)"
    "c ! 10 = word_of_int (uint (nRecordLength d) mod 256)" "c ! 11 = word_of_int (uint (nRecordLength d) div 256)"
    by (simp_all add: c file_header_def)
  have "drop 32 c = take (32 * nFields d) (pszHeader d) @ [0x0D] @ rest" by (simp add: c file_header_def)
  then have "take (32 * nFields d) (drop 32 c) = take (32 * nFields d) (pszHeader d)" using len by simp
  moreover have "nat (nHeaderLength d) \<le> length c" using len assms(2) by (simp add: c file_header_def)
  ultimately show ?thesis using two_bytes [OF hl] two_bytes [OF rl] assms(3) b by (simp add: header_ok_def record_count_def)
qed

context writable_vsi
begin

lemma header_written:
  assumes ok: "dbf_ok (bytes (fp d)) d"
  obtains f where "writeHeader ops d = d\<lparr>bNoHeader := False, fp := f\<rparr>"
    "dbf_ok (bytes f) (d\<lparr>bNoHeader := False, fp := f\<rparr>)"
    "table_rows (bytes f) (d\<lparr>bNoHeader := False, fp := f\<rparr>) = table_rows (bytes (fp d)) d"
proof (cases "bNoHeader d")
  case False
  then have "writeHeader ops d = d" "d = d\<lparr>bNoHeader := False, fp := fp d\<rparr>" by (simp_all add: writeHeader_def)
  then show ?thesis using ok that [of "fp d"] by metis
next
  case True
  define nf where "nf = nFields d"
  have hl: "nHeaderLength d = 33 + 32 * int nf" and n: "nRecords d = 0" and lay: "layout_ok d"
    using ok True by (simp_all add: dbf_ok_def nf_def)
  have len: "length (take (32 * nf) (pszHeader d)) = 32 * nf" using lay by (simp add: layout_ok_def nf_def)
  let ?fh = "file_header (nHeaderLength d) (nRecordLength d)" and ?h = "take (32 * nf) (pszHeader d)"
  define f1 where "f1 = VSIFWriteL ops (vseek ops (fp d) 0) ?fh"
  have f1: "bytes f1 = overwrite (bytes (fp d)) 0 ?fh" "at f1 = length ?fh" by (simp_all add: f1_def seek_write)
  define f where "f = VSIFWriteL ops (VSIFWriteL ops f1 ?h) [0x0D]"
  have wr: "writeHeader ops d = d\<lparr>bNoHeader := False, fp := f\<rparr>"
    using True hl by (simp add: writeHeader_def f_def f1_def Let_def nf_def)
  have "bytes f = overwrite (bytes (fp d)) 0 (?fh @ ?h @ [0x0D])"
    unfolding f_def store [THEN conjunct1] store [THEN conjunct2] f1
    by (simp only: overwrite_append add_0 length_append [symmetric] append_assoc)
  then have "header_ok (bytes f) (d\<lparr>bNoHeader := False, fp := f\<rparr>)"
    using header_bytes_ok [OF lay _ n, of "bytes f"] hl by (simp add: overwrite_0 nf_def header_ok_def)
  then have "dbf_ok (bytes f) (d\<lparr>bNoHeader := False, fp := f\<rparr>)"
    using ok True n by (auto simp: dbf_ok_def rows_ok_def)
  then show ?thesis using that wr n by (simp add: table_rows_def)
qed

end

section \<open>Storing a field\<close>

lemma field_fits:
  assumes "layout_ok d" and "i < nFields d"
  shows "nat (panFieldOffset d ! i) + nat (panFieldSize d ! i) \<le> unat (nRecordLength d)"
proof -
  have "1 \<le> panFieldOffset d ! i \<and> panFieldOffset d ! i + panFieldSize d ! i \<le> 1 + sum_list (panFieldSize d)"
    using field_span [of i "panFieldSize d" 1] assms by (simp add: layout_ok_def nFields_def)
  moreover have "1 + sum_list (panFieldSize d) \<le> int (unat (nRecordLength d))"
    using assms(1) unfolding layout_ok_def uint_nat by simp
  moreover have "0 \<le> panFieldSize d ! i" using assms by (simp add: layout_ok_def nFields_def)
  ultimately show ?thesis by linarith
qed

lemma field_inside:
  assumes "layout_ok d" and "i < nFields d"
  shows "0 \<le> panFieldOffset d ! i \<and> 0 \<le> panFieldSize d ! i
    \<and> panFieldOffset d ! i + panFieldSize d ! i \<le> int (unat (nRecordLength d))"
proof -
  have "0 \<le> panFieldSize d ! i" "1 \<le> panFieldOffset d ! i"
    using field_span [of i "panFieldSize d" 1] assms by (simp_all add: layout_ok_def nFields_def)
  then show ?thesis using field_fits [OF assms] by linarith
qed

lemma field_readable_layout:
  "layout_ok d \<Longrightarrow> i < nFields d \<Longrightarrow> length r = unat (nRecordLength d) \<Longrightarrow> field_readable d i r"
  using field_inside [of d i] by (simp add: field_readable_def)

lemma field_writable_layout:
  "layout_ok d \<Longrightarrow> i < nFields d \<Longrightarrow> length (pszCurrentRecord d) = unat (nRecordLength d) \<Longrightarrow> field_writable d i s"
  using field_inside [of d i] by (auto simp: field_writable_def min_def)

lemma put_field_length:
  assumes "layout_ok d" and "i < nFields d" and "length r = unat (nRecordLength d)"
  shows "length (put_field d i s r) = length r"
  using field_fits [OF assms(1,2)] by (auto simp: put_field_def Let_def assms(3) min_def)

lemma store_field_put: "store_field d i s = d\<lparr>pszCurrentRecord := put_field d i s (pszCurrentRecord d)\<rparr>"
  by (simp add: store_field_def put_field_def Let_def)

lemma store_ok:
  fixes s :: string
  assumes ok: "dbf_ok c (d\<lparr>bCurrentRecordModified := True, bUpdated := True\<rparr>)" and i: "i < nFields d"
    and r: "nCurrentRecord d = int r"
  defines "d' \<equiv> (store_field d i s)\<lparr>bCurrentRecordModified := True, bUpdated := True\<rparr>"
  shows "dbf_ok c d'" "table_rows c d' = (table_rows c d)[r := put_field d i s (pszCurrentRecord d)]"
proof -
  have lay: "layout_ok d" and len: "length (pszCurrentRecord d) = unat (nRecordLength d)"
    using ok i by (auto simp: dbf_ok_def)
  show "dbf_ok c d'"
    using ok put_field_length [OF lay i len] by (simp add: dbf_ok_def d'_def store_field_put rows_ok_def header_ok_def split: if_splits)
  have "r < nat (nRecords d)" using dbf_okD(4) [OF ok] r by simp
  then show "table_rows c d' = (table_rows c d)[r := put_field d i s (pszCurrentRecord d)]"
    using r by (intro nth_equalityI) (auto simp: table_rows_nth d'_def store_field_put nth_list_update)
qed

section \<open>Reading and writing\<close>

lemma new_record_ok:
  assumes ok: "dbf_ok c d" and clean: "\<not> bCurrentRecordModified d" "\<not> bNoHeader d"
    and room: "nRecords d + 1 < 2 ^ 31" "nHeaderLength d + uint (nRecordLength d) * (nRecords d + 1) < 2 ^ 32"
  defines "e \<equiv> d\<lparr>nRecords := nRecords d + 1, nCurrentRecord := nRecords d,
    pszCurrentRecord := replicate (unat (nRecordLength d)) (byte_of (CHR '' ''))\<rparr>"
  shows "dbf_ok c (e\<lparr>bCurrentRecordModified := True, bUpdated := True\<rparr>)"
    "table_rows c e = table_rows c d @ [replicate (unat (nRecordLength d)) (byte_of (CHR '' ''))]"
proof -
  have n: "nat (nRecords d + 1) = Suc (nat (nRecords d))" using dbf_okD(2) [OF ok] by simp
  have "rows_ok c (e\<lparr>bCurrentRecordModified := True, bUpdated := True\<rparr>)"
    using dbf_okD(2,5) [OF ok] clean by (auto simp: rows_ok_def e_def n less_Suc_eq)
  moreover have "header_ok c (e\<lparr>bCurrentRecordModified := True, bUpdated := True\<rparr>)"
    using dbf_okD(6) [OF ok clean(2)] by (simp add: header_ok_def e_def)
  ultimately show "dbf_ok c (e\<lparr>bCurrentRecordModified := True, bUpdated := True\<rparr>)"
    using ok clean room by (simp add: dbf_ok_def e_def)
  have "map (\<lambda>r. if int r = nRecords d then b else row_at d c r) [0..<nat (nRecords d)] = map (row_at d c) [0..<nat (nRecords d)]" for b
    by (rule map_cong) auto
  then show "table_rows c e = table_rows c d @ [replicate (unat (nRecordLength d)) (byte_of (CHR '' ''))]"
    using dbf_okD(2) [OF ok] unfolding clean_rows [OF dbf_okD(5) [OF ok] clean(1)]
    by (simp add: table_rows_def e_def n del: map_eq_conv cong: if_cong)
qed

text \<open>The description of the fields, which no operation on records changes.\<close>

definition same_layout :: "'f DBFInfo \<Rightarrow> 'f DBFInfo \<Rightarrow> bool" where
  "same_layout d e \<longleftrightarrow>
     nRecordLength d = nRecordLength e \<and> nHeaderLength d = nHeaderLength e \<and> panFieldOffset d = panFieldOffset e \<and>
     panFieldSize d = panFieldSize e \<and> panFieldDecimals d = panFieldDecimals e \<and> pachFieldType d = pachFieldType e \<and>
     take (32 * nFields d) (pszHeader d) = take (32 * nFields e) (pszHeader e)"

lemma put_field_layout: "same_layout d e \<Longrightarrow> put_field d = put_field e \<and> put_row d = put_row e \<and> nFields d = nFields e"
  by (simp add: same_layout_def put_field_def put_row_def fun_eq_iff nFields_def)

text \<open>A number or a text that the field \<open>i\<close> stores as \<open>s\<close>, and room for one more record.\<close>

definition accepts :: "'f DBFInfo \<Rightarrow> nat \<Rightarrow> dbfValue \<Rightarrow> string \<Rightarrow> bool" where
  "accepts d i v s \<longleftrightarrow>
     i < nFields d \<and> value_text (pachFieldType d ! i) (panFieldSize d ! i) (panFieldDecimals d ! i) v = Some s"

definition has_room :: "'f DBFInfo \<Rightarrow> bool" where
  "has_room d \<longleftrightarrow> nRecords d + 1 < 2 ^ 31 \<and> nHeaderLength d + uint (nRecordLength d) * (nRecords d + 1) < 2 ^ 32"

text \<open>The state just before the field is stored: record \<open>r\<close> is in the buffer.\<close>

definition positioned :: "byte list \<Rightarrow> byte list list \<Rightarrow> 'f DBFInfo \<Rightarrow> nat \<Rightarrow> 'f DBFInfo \<Rightarrow> bool" where
  "positioned c rs d r e \<longleftrightarrow>
     dbf_ok c (e\<lparr>bCurrentRecordModified := True, bUpdated := True\<rparr>) \<and> nCurrentRecord e = int r \<and> same_layout e d \<and>
     table_rows c e = rs"

lemma positioned_writable:
  assumes "positioned c rs d r e" and "i < nFields d"
  shows "field_writable e i s"
proof -
  have "nFields e = nFields d" using assms(1) put_field_layout [of e d] by (simp add: positioned_def)
  then show ?thesis using assms field_writable_layout [of e i s] by (auto simp: positioned_def dbf_ok_def)
qed

lemma flush_buffer:
  "pszCurrentRecord (flushRecord ops d) = pszCurrentRecord d" "nRecordLength (flushRecord ops d) = nRecordLength d"
  by (simp_all add: flushRecord_def)

context writable_vsi
begin

lemma position_new:
  assumes ok: "dbf_ok (bytes (fp d)) d" and nf: "nFields d \<noteq> 0" "\<not> bNoHeader d" and room: "has_room d"
    and r: "int r = nRecords d"
  defines "e \<equiv> (flushRecord ops d)\<lparr>nRecords := nRecords (flushRecord ops d) + 1, nCurrentRecord := int r,
    pszCurrentRecord := replicate (unat (nRecordLength (flushRecord ops d))) (byte_of (CHR '' ''))\<rparr>"
  shows "positioned (bytes (fp e)) (table_rows (bytes (fp d)) d @ [replicate (unat (nRecordLength d)) (byte_of (CHR '' ''))]) d r e"
proof -
  from flush_ok [OF ok nf(1)] obtain f where
    fl: "flushRecord ops d = d\<lparr>bCurrentRecordModified := False, fp := f\<rparr>"
    and ok': "dbf_ok (bytes f) (d\<lparr>bCurrentRecordModified := False, fp := f\<rparr>)"
    and rows: "table_rows (bytes f) (d\<lparr>bCurrentRecordModified := False, fp := f\<rparr>) = table_rows (bytes (fp d)) d" .
  note new = new_record_ok [OF ok']
  have e: "e = (d\<lparr>bCurrentRecordModified := False, fp := f\<rparr>)\<lparr>nRecords := nRecords d + 1, nCurrentRecord := nRecords d,
    pszCurrentRecord := replicate (unat (nRecordLength d)) (byte_of (CHR '' ''))\<rparr>"
    by (simp add: e_def fl r)
  have "same_layout e d" "nCurrentRecord e = int r" "fp e = f" by (simp_all add: same_layout_def e nFields_def r)
  moreover have "dbf_ok (bytes f) (e\<lparr>bCurrentRecordModified := True, bUpdated := True\<rparr>)"
    using new(1) nf(2) room by (simp add: e has_room_def)
  moreover have "table_rows (bytes f) e = table_rows (bytes (fp d)) d @ [replicate (unat (nRecordLength d)) (byte_of (CHR '' ''))]"
    using new(2) nf(2) room rows by (simp add: e has_room_def)
  ultimately show ?thesis by (simp add: positioned_def)
qed

lemma position_old:
  assumes ok: "dbf_ok (bytes (fp d)) d" and nf: "nFields d \<noteq> 0" "\<not> bNoHeader d" and r: "int r < nRecords d"
  obtains e where "load_record ops d (int r) = Some (True, e)" "positioned (bytes (fp e)) (table_rows (bytes (fp d)) d) d r e"
    "pszCurrentRecord e = table_rows (bytes (fp d)) d ! r"
proof -
  from load_ok [OF ok nf(1) of_nat_0_le_iff r] obtain e f m where ld: "load_record ops d (int r) = Some (True, e)"
    and e: "e = d\<lparr>fp := f, pszCurrentRecord := table_rows (bytes (fp d)) d ! nat (int r), nCurrentRecord := int r,
      bCurrentRecordModified := m\<rparr>"
    and oke: "dbf_ok (bytes f) e" and rows: "table_rows (bytes f) e = table_rows (bytes (fp d)) d" .
  have "dbf_ok (bytes f) (e\<lparr>bCurrentRecordModified := True, bUpdated := True\<rparr>)"
    using oke nf(2) by (auto simp: dbf_ok_def rows_ok_def header_ok_def e)
  then have "positioned (bytes (fp e)) (table_rows (bytes (fp d)) d) d r e"
    using rows by (simp add: positioned_def e same_layout_def nFields_def)
  moreover have "pszCurrentRecord e = table_rows (bytes (fp d)) d ! r" by (simp add: e)
  ultimately show ?thesis using that ld by blast
qed

lemma store_positioned:
  fixes s :: string
  assumes "positioned (bytes (fp e)) rs d r e" and "i < nFields d"
  defines "d' \<equiv> (store_field e i s)\<lparr>bCurrentRecordModified := True, bUpdated := True\<rparr>"
  shows "dbf_ok (bytes (fp d')) d' \<and> table_rows (bytes (fp d')) d' = rs[r := put_field d i s (pszCurrentRecord e)]
    \<and> same_layout d' d"
proof -
  have lay: "same_layout e d" "i < nFields e" and pf: "put_field e = put_field d"
    using assms put_field_layout [of e d] by (simp_all add: positioned_def)
  have fp: "fp d' = fp e" by (simp add: d'_def store_field_put)
  have "same_layout d' d" using lay(1) by (auto simp: d'_def same_layout_def store_field_put nFields_def)
  then show ?thesis
    using store_ok [of "bytes (fp e)" e i r s] assms(1) lay(2) unfolding fp by (simp add: positioned_def d'_def pf)
qed

lemma write_attribute:
  assumes ok: "dbf_ok (bytes (fp d)) d" and acc: "accepts d i v s" and r: "int r \<le> nRecords d"
    and room: "int r = nRecords d \<Longrightarrow> has_room d"
  obtains d' where "msDBFWriteAttribute ops d (int r) (int i) v = Some (True, d')" "dbf_ok (bytes (fp d')) d'"
    "table_rows (bytes (fp d')) d' = put_row d r i s (table_rows (bytes (fp d)) d)" "same_layout d' d"
proof -
  have nf: "nFields d \<noteq> 0" "i < nFields d" using acc by (auto simp: accepts_def)
  from header_written [OF ok] obtain f where wh: "writeHeader ops d = d\<lparr>bNoHeader := False, fp := f\<rparr>"
    and ok1: "dbf_ok (bytes f) (d\<lparr>bNoHeader := False, fp := f\<rparr>)"
    and rows1: "table_rows (bytes f) (d\<lparr>bNoHeader := False, fp := f\<rparr>) = table_rows (bytes (fp d)) d" .
  define d1 where "d1 = d\<lparr>bNoHeader := False, fp := f\<rparr>"
  have len1: "length (pszCurrentRecord (flushRecord ops d1)) = unat (nRecordLength (flushRecord ops d1))" and i1: "i < nFields d1"
    using ok1 nf by (auto simp: dbf_ok_def d1_def flush_buffer)
  have d1: "dbf_ok (bytes (fp d1)) d1" "nFields d1 \<noteq> 0" "\<not> bNoHeader d1" "nRecords d1 = nRecords d"
    "table_rows (bytes (fp d1)) d1 = table_rows (bytes (fp d)) d" "has_room d1 = has_room d"
    "nRecordLength d1 = nRecordLength d" "same_layout d1 d"
    using ok1 nf rows1 by (simp_all add: d1_def has_room_def same_layout_def nFields_def)
  obtain e rs where pos: "positioned (bytes (fp e)) rs d1 r e"
    and wr: "msDBFWriteAttribute ops d (int r) (int i) v
      = Some (True, (store_field e i s)\<lparr>bCurrentRecordModified := True, bUpdated := True\<rparr>)"
    and rs: "rs[r := put_field d i s (pszCurrentRecord e)] = put_row d r i s (table_rows (bytes (fp d)) d)"
  proof (cases "int r = nRecords d")
    case True
    define e where "e = (flushRecord ops d1)\<lparr>nRecords := nRecords (flushRecord ops d1) + 1, nCurrentRecord := int r,
      pszCurrentRecord := replicate (unat (nRecordLength (flushRecord ops d1))) (byte_of (CHR '' ''))\<rparr>"
    have rl: "nRecordLength (flushRecord ops d1) = nRecordLength d" "nRecords d1 = int r" using True d1 by (simp_all add: flushRecord_def)
    have pos: "positioned (bytes (fp e)) (table_rows (bytes (fp d)) d @ [replicate (unat (nRecordLength d)) (byte_of (CHR '' ''))]) d1 r e"
      using position_new [OF d1(1-3), of r] True room d1 by (simp add: e_def)
    have ld: "load_record ops e (int r) = Some (True, e)" by (simp add: load_record_def e_def)
    have lay: "same_layout e d" using pos d1(8) by (simp add: positioned_def same_layout_def)
    have "msDBFWriteAttribute ops d (int r) (int i) v
        = Some (True, (store_field e i s)\<lparr>bCurrentRecordModified := True, bUpdated := True\<rparr>)"
      using True [symmetric] acc nf lay ld rl(2) put_field_layout [OF lay] positioned_writable [OF pos i1] len1
      by (simp add: msDBFWriteAttribute_def wh accepts_def Let_def same_layout_def flip: d1_def e_def)
    moreover have "pszCurrentRecord e = replicate (unat (nRecordLength d)) (byte_of (CHR '' ''))" by (simp add: e_def rl)
    moreover have "length (table_rows (bytes (fp d)) d) = r" using True [symmetric] by simp
    ultimately show ?thesis using that [OF pos] by (simp add: put_row_def list_update_append)
  next
    case False
    then have lt: "int r < nRecords d1" using r d1 by simp
    from position_old [OF d1(1-3) lt] obtain e where ld: "load_record ops d1 (int r) = Some (True, e)"
      and pos: "positioned (bytes (fp e)) (table_rows (bytes (fp d1)) d1) d1 r e"
      and buf: "pszCurrentRecord e = table_rows (bytes (fp d1)) d1 ! r" .
    have lay: "same_layout e d" using pos d1(8) by (simp add: positioned_def same_layout_def)
    have "msDBFWriteAttribute ops d (int r) (int i) v
        = Some (True, (store_field e i s)\<lparr>bCurrentRecordModified := True, bUpdated := True\<rparr>)"
      using lt acc nf lay ld d1(4) put_field_layout [OF lay] positioned_writable [OF pos i1]
      by (simp add: msDBFWriteAttribute_def wh accepts_def Let_def same_layout_def flip: d1_def)
    moreover have "r < length (table_rows (bytes (fp d)) d)" using lt d1(4) by simp
    ultimately show ?thesis using that [OF pos] d1(5) buf by (simp only: put_row_def if_True)
  qed
  have eq: "put_field d1 = put_field d" "i < nFields d1" using put_field_layout [OF d1(8)] nf by auto
  have tr: "same_layout x d1 \<Longrightarrow> same_layout x d" for x using d1(8) by (simp add: same_layout_def)
  show ?thesis using that [OF wr] store_positioned [OF pos eq(2), of s] rs tr by (simp add: eq(1))
qed

end

section \<open>Reading, closing and opening\<close>

context writable_vsi
begin

lemma read_attribute:
  assumes ok: "dbf_ok (bytes (fp d)) d" and i: "i < nFields d" and r: "int r < nRecords d"
  obtains d' where "msDBFReadAttribute ops d (int r) (int i)
      = Some (Some (field_text (pachFieldType d ! i) (field_bytes d i (table_rows (bytes (fp d)) d ! r))), d', [])"
    "dbf_ok (bytes (fp d')) d'" "table_rows (bytes (fp d')) d' = table_rows (bytes (fp d)) d" "same_layout d' d"
proof -
  have nf: "nFields d \<noteq> 0" using i by simp
  from load_ok [OF ok nf of_nat_0_le_iff r] obtain e f m where ld: "load_record ops d (int r) = Some (True, e)"
    and e: "e = d\<lparr>fp := f, pszCurrentRecord := table_rows (bytes (fp d)) d ! nat (int r), nCurrentRecord := int r,
      bCurrentRecordModified := m\<rparr>"
    and oke: "dbf_ok (bytes f) e" and rows: "table_rows (bytes f) e = table_rows (bytes (fp d)) d" .
  define d' where "d' = (if nStringFieldLen e \<le> panFieldSize e ! i then e\<lparr>nStringFieldLen := panFieldSize e ! i * 2 + 10\<rparr> else e)"
  have lay: "layout_ok e" "nFields e = nFields d" and len: "length (pszCurrentRecord e) = unat (nRecordLength e)"
    using oke nf by (auto simp: dbf_ok_def e nFields_def)
  have "field_readable d' i (pszCurrentRecord d')"
    using field_readable_layout [OF lay(1), of i "pszCurrentRecord e"] i lay(2) len by (simp add: d'_def field_readable_def field_bytes_def)
  then have "msDBFReadAttribute ops d (int r) (int i)
      = Some (Some (field_text (pachFieldType d ! i) (field_bytes d i (table_rows (bytes (fp d)) d ! r))), d', [])"
    using i r ld by (simp add: msDBFReadAttribute_def Let_def flip: d'_def) (simp add: d'_def e field_bytes_def)
  moreover have "dbf_ok (bytes (fp d')) d'" "table_rows (bytes (fp d')) d' = table_rows (bytes (fp d)) d" "same_layout d' d"
    using oke rows by (auto simp: d'_def e same_layout_def nFields_def)
  ultimately show ?thesis using that by blast
qed

end

lemma count_bytes_ok:
  assumes "0 \<le> n" and "n < 2 ^ 31" and "take 4 (drop 4 c) = count_bytes n"
  shows "record_count c = n" "uint (c ! 7) < 128"
proof -
  have b: "c ! (4 + k) = count_bytes n ! k" if "k < 4" for k
  proof -
    have "length (take 4 (drop 4 c)) = 4" using assms(3) by (simp add: count_bytes_def)
    then show ?thesis using that by (simp flip: assms(3))
  qed
  have c: "c ! 4 = word_of_int (n mod 256)" "c ! 5 = word_of_int (n div 256 mod 256)"
    "c ! 6 = word_of_int (n div 65536 mod 256)" "c ! 7 = word_of_int (n div 16777216 mod 256)"
    using b [of 0] b [of 1] b [of 2] b [of 3] by (simp_all add: count_bytes_def)
  have u: "uint (word_of_int (k mod 256) :: byte) = k mod 256" for k by (simp add: uint_word_of_int take_bit_eq_mod)
  have d: "n div 16777216 = n div 65536 div 256" "n div 65536 = n div 256 div 256" by (simp_all flip: zdiv_zmult2_eq)
  have "n div 16777216 < 128" "0 \<le> n div 16777216" using assms by (simp_all add: pos_imp_zdiv_nonneg_iff)
  then have "n div 16777216 mod 256 = n div 16777216" by simp
  then show "record_count c = n" "uint (c ! 7) < 128"
    using \<open>n div 16777216 < 128\<close> unfolding record_count_def c u d by (simp_all add: d) presburger
qed

text \<open>A file that holds the table completely.\<close>

definition closed_file :: "byte list \<Rightarrow> 'f DBFInfo \<Rightarrow> bool" where
  "closed_file c d \<longleftrightarrow>
     layout_ok d \<and> 0 \<le> nRecords d \<and> nRecords d < 2 ^ 31 \<and>
     nHeaderLength d + uint (nRecordLength d) * nRecords d < 2 ^ 32 \<and>
     header_ok c (d\<lparr>bUpdated := False\<rparr>) \<and>
     (\<forall>r<nat (nRecords d). nat (nHeaderLength d) + unat (nRecordLength d) * Suc r \<le> length c)"

lemma clean_closed:
  "dbf_ok c d \<Longrightarrow> \<not> bCurrentRecordModified d \<Longrightarrow> \<not> bNoHeader d \<Longrightarrow> \<not> bUpdated d \<Longrightarrow> closed_file c d"
  by (auto simp: closed_file_def dbf_ok_def rows_ok_def header_ok_def)

lemma restamp_closed:
  assumes ok: "dbf_ok c d" and clean: "\<not> bCurrentRecordModified d" "\<not> bNoHeader d"
  defines "c' \<equiv> [c ! 0, 95, 7, 26] @ count_bytes (nRecords d) @ drop 8 (take 32 c) @ drop 32 c"
  shows "closed_file c' d" "row_at d c' = row_at d c"
proof -
  have h: "header_ok c d" and lay: "layout_ok d" and n: "0 \<le> nRecords d" "nRecords d < 2 ^ 31"
    using ok clean by (simp_all add: dbf_ok_def)
  have len: "32 < length c" "nat (nHeaderLength d) \<le> length c" "32 \<le> nat (nHeaderLength d)"
    using h lay by (auto simp: header_ok_def layout_ok_def)
  have d32: "drop 32 c' = drop 32 c" using len by (simp add: c'_def count_bytes_def)
  have lc: "length c' = length c" using len by (simp add: c'_def count_bytes_def)
  have b: "c' ! k = c ! k" if "8 \<le> k" "k < 32" for k
  proof -
    have "drop 8 c' = drop 8 (take 32 c @ drop 32 c)"
      using len by (simp add: c'_def count_bytes_def drop_append del: append_take_drop_id)
    then have "drop 8 c' ! (k - 8) = drop 8 c ! (k - 8)" by simp
    then show ?thesis using that len lc by simp
  qed
  have "record_count c' = nRecords d" by (rule count_bytes_ok(1) [OF n]) (simp add: c'_def count_bytes_def)
  then have "header_ok c' (d\<lparr>bUpdated := False\<rparr>)" using h b len d32 by (simp add: header_ok_def lc)
  then show "closed_file c' d"
    using ok clean by (auto simp: closed_file_def dbf_ok_def rows_ok_def lc)
  have "drop k c' = drop k c" if "32 \<le> k" for k
    using arg_cong [OF d32, of "drop (k - 32)"] that by simp
  then show "row_at d c' = row_at d c" using len by (simp add: row_at_def fun_eq_iff)
qed

context writable_vsi
begin

lemma close_table:
  assumes ok: "dbf_ok (bytes (fp d)) d" and nf: "nFields d \<noteq> 0"
  shows "closed_file (bytes (fst (msDBFClose ops junk d))) d
    \<and> map (row_at d (bytes (fst (msDBFClose ops junk d)))) [0..<nat (nRecords d)] = table_rows (bytes (fp d)) d"
proof -
  from header_written [OF ok] obtain f1 where wh: "writeHeader ops d = d\<lparr>bNoHeader := False, fp := f1\<rparr>"
    and ok1: "dbf_ok (bytes f1) (d\<lparr>bNoHeader := False, fp := f1\<rparr>)"
    and rows1: "table_rows (bytes f1) (d\<lparr>bNoHeader := False, fp := f1\<rparr>) = table_rows (bytes (fp d)) d" .
  from flush_ok [of "d\<lparr>bNoHeader := False, fp := f1\<rparr>"] ok1 nf obtain f2 where
    fl: "flushRecord ops (d\<lparr>bNoHeader := False, fp := f1\<rparr>) = d\<lparr>bNoHeader := False, bCurrentRecordModified := False, fp := f2\<rparr>"
    and ok2: "dbf_ok (bytes f2) (d\<lparr>bNoHeader := False, bCurrentRecordModified := False, fp := f2\<rparr>)"
    and rows2: "table_rows (bytes f2) (d\<lparr>bNoHeader := False, bCurrentRecordModified := False, fp := f2\<rparr>)
      = table_rows (bytes f1) (d\<lparr>bNoHeader := False, fp := f1\<rparr>)"
    by auto
  define e where "e = d\<lparr>bNoHeader := False, bCurrentRecordModified := False, fp := f2\<rparr>"
  have e: "dbf_ok (bytes f2) e" "\<not> bCurrentRecordModified e" "\<not> bNoHeader e" "nRecords e = nRecords d"
    "bUpdated e = bUpdated d" "row_at e = row_at d" "closed_file c e = closed_file c d" for c
    using ok2 by (simp_all add: e_def closed_file_def header_ok_def row_at_def fun_eq_iff)
  have rows: "map (row_at d (bytes f2)) [0..<nat (nRecords d)] = table_rows (bytes (fp d)) d"
    using clean_rows [OF dbf_okD(5) [OF e(1)] e(2)] rows1 rows2 e by (simp add: e_def)
  have len: "32 \<le> length (bytes f2)" using e(1,3) by (auto simp: dbf_ok_def header_ok_def layout_ok_def)
  show ?thesis
  proof (cases "bUpdated d")
    case False
    then have "fst (msDBFClose ops junk d) = f2" by (simp add: msDBFClose_def wh fl Let_def)
    then show ?thesis using rows clean_closed [OF e(1-3)] False e by simp
  next
    case True
    from seek_read1 [of 0 32 f2] len obtain f3 where
      rd: "VSIFReadL ops (vseek ops f2 0) 32 1 = (1, take 32 (bytes f2), f3)" and f3: "bytes f3 = bytes f2" by auto
    let ?h1 = "[bytes f2 ! 0, 95, 7, 26] @ count_bytes (nRecords d) @ drop 8 (take 32 (bytes f2))"
    have "fst (msDBFClose ops junk d) = VSIFWriteL ops (vseek ops f3 0) ?h1"
      using True len by (simp add: msDBFClose_def wh fl Let_def rd [unfolded One_nat_def])
    then have "bytes (fst (msDBFClose ops junk d)) = ?h1 @ drop 32 (bytes f2)"
      using len by (simp add: seek_write overwrite_0 f3 count_bytes_def)
    then show ?thesis using restamp_closed [OF e(1-3)] rows e by simp
  qed
qed

end

lemma field_info_take:
  assumes "take (32 * n) h = take (32 * n) g" and "i < n"
  shows "field_info h i = field_info g i"
proof -
  have "h ! (32 * i + k) = g ! (32 * i + k)" if "k < 32" for k
  proof -
    have "32 * i + k < 32 * n" using assms(2) that by linarith
    then show ?thesis using arg_cong [OF assms(1), of "\<lambda>l. l ! (32 * i + k)"] by simp
  qed
  then show ?thesis by (simp add: field_info_def Let_def)
qed

lemma length_field_offsets [simp]: "length (field_offsets off ss) = length ss"
  by (induction ss arbitrary: off) auto

lemma field_offsets_empty [simp]: "field_offsets off ss = [] \<longleftrightarrow> ss = []"
  by (cases ss) auto

lemma layout_arrays:
  assumes "layout_ok d" and "take (32 * nFields d) h = take (32 * nFields d) (pszHeader d)"
  defines "infos \<equiv> map (field_info h) [0..<nFields d]"
  shows "map fst infos = panFieldSize d" "map (fst \<circ> snd) infos = panFieldDecimals d"
    "map (snd \<circ> snd) infos = pachFieldType d"
proof -
  have "field_info h i = (panFieldSize d ! i, panFieldDecimals d ! i, pachFieldType d ! i)" if "i < nFields d" for i
    using field_info_take [OF assms(2) that] assms(1) that by (simp add: layout_ok_def)
  then show "map fst infos = panFieldSize d" "map (fst \<circ> snd) infos = panFieldDecimals d"
    "map (snd \<circ> snd) infos = pachFieldType d"
    using assms(1) by (auto intro!: nth_equalityI simp: infos_def layout_ok_def nFields_def)
qed

lemma layout_last:
  assumes "layout_ok d" and "nFields d \<noteq> 0"
  shows "last (panFieldOffset d) + last (panFieldSize d) \<le> uint (nRecordLength d)"
  using field_span [of "nFields d - 1" "panFieldSize d" 1] assms
  by (auto simp: layout_ok_def nFields_def last_conv_nth)

context writable_vsi
begin

lemma open_table:
  assumes cl: "closed_file (bytes g) d" and at: "at g = 0" and nf: "nFields d \<noteq> 0"
  obtains d' where "msDBFOpenVirtualFile ops junk g = Some d'" "dbf_ok (bytes (fp d')) d'" "same_layout d' d"
    "table_rows (bytes (fp d')) d' = map (row_at d (bytes g)) [0..<nat (nRecords d)]"
proof -
  define c where "c = bytes g"
  have lay: "layout_ok d" and h: "header_ok c (d\<lparr>bUpdated := False\<rparr>)" and n: "0 \<le> nRecords d" "nRecords d < 2 ^ 31"
    using cl by (simp_all add: closed_file_def c_def)
  define k where "k = nat (nHeaderLength d - 32)"
  have hl: "32 < nHeaderLength d" "32 + k \<le> length c" "32 * nFields d \<le> k" "int (nFields d) = (nHeaderLength d - 32) div 32"
    using lay h by (auto simp: layout_ok_def header_ok_def k_def)
  from read_all [of g 32 1] at hl obtain f1 where
    rd1: "VSIFReadL ops g 32 1 = (1, take 32 c, f1)" and f1: "bytes f1 = c" by (auto simp: c_def)
  from seek_read1 [of 32 k f1] hl f1 obtain f2 where
    rd2: "VSIFReadL ops (vseek ops f1 32) k 1 = (1, take k (drop 32 c), f2)" and f2: "bytes f2 = c" by auto
  define hdr where "hdr = take k (drop 32 c)"
  have hdr: "take (32 * nFields d) hdr = take (32 * nFields d) (pszHeader d)"
    using h hl(3) by (simp add: hdr_def header_ok_def min_absorb1)
  have lens: "uint (c ! 8) + uint (c ! 9) * 256 = nHeaderLength d" "uint (c ! 10) + uint (c ! 11) * 256 = uint (nRecordLength d)"
    and cnt: "record_count c = nRecords d"
    using h by (simp_all add: header_ok_def)
  have u7: "uint (c ! 7) < 128"
  proof (rule ccontr)
    have "nRecords d < 2147483648" using n(2) by simp
    moreover assume "\<not> uint (c ! 7) < 128"
    moreover have "0 \<le> uint (c ! 4)" "0 \<le> uint (c ! 5)" "0 \<le> uint (c ! 6)" by simp_all
    ultimately show False using cnt unfolding record_count_def by linarith
  qed
  have nfn: "nat ((nHeaderLength d - 32) div 32) = nFields d" using hl(4) by (simp flip: hl(4))
  define d' where "d' = \<lparr>nRecords = nRecords d, fp = f2, nRecordLength = nRecordLength d, nHeaderLength = nHeaderLength d,
    panFieldOffset = panFieldOffset d, panFieldSize = panFieldSize d, panFieldDecimals = panFieldDecimals d,
    pachFieldType = pachFieldType d, pszHeader = hdr, nCurrentRecord = -1, bCurrentRecordModified = False,
    pszCurrentRecord = map junk [0..<nat (uint (nRecordLength d))], bNoHeader = False, bUpdated = False,
    nStringFieldLen = 0, pszEncoding = Some None\<rparr>"
  have cntx: "uint (c ! 4) + uint (c ! 5) * 256 + 65536 * uint (c ! 6) + 16777216 * uint (c ! 7) = nRecords d"
    using cnt by (simp add: record_count_def mult.commute)
  have tk: "take 32 c ! i = c ! i" if "i < 32" for i using that by simp
  have offs: "field_offsets 1 (panFieldSize d) = panFieldOffset d" using lay by (simp add: layout_ok_def)
  have "\<not> (nFields d > 0 \<and> last (panFieldOffset d) + last (panFieldSize d) > uint (nRecordLength d))"
    using layout_last [OF lay nf] by simp
  then have op: "msDBFOpenVirtualFile ops junk g = Some d'"
    using u7 hl(1) layout_arrays [OF lay hdr]
    unfolding msDBFOpenVirtualFile_def rd1 Let_def prod.case
    by (simp add: tk cntx lens nfn rd2 [folded hdr_def, unfolded One_nat_def] offs d'_def flip: k_def)
  have lay': "layout_ok d'"
    using lay field_info_take [OF hdr] hl(2,3) by (simp add: layout_ok_def d'_def nFields_def hdr_def)
  have hd: "take (32 * nFields d) (drop 32 c) = take (32 * nFields d) hdr" using hl(3) by (simp add: hdr_def min_absorb1)
  have ok': "dbf_ok c d'"
    using cl lay' h hd n by (simp add: dbf_ok_def closed_file_def d'_def c_def header_ok_def rows_ok_def nFields_def)
  have row: "row_at d' = row_at d" by (simp add: row_at_def fun_eq_iff d'_def)
  have "table_rows c d' = map (row_at d c) [0..<nat (nRecords d)]"
    using clean_rows [OF dbf_okD(5) [OF ok']] by (simp add: row) (simp add: d'_def)
  moreover have "same_layout d' d" using hdr by (simp add: same_layout_def d'_def nFields_def)
  ultimately show ?thesis using that [OF op] ok' by (simp add: d'_def f2 c_def)
qed

end

section \<open>Fields of a new table\<close>

text \<open>A description that the header can hold: two bytes for a text's width, one each for a number's.\<close>

definition field_fit :: "DBFFieldType \<Rightarrow> int \<Rightarrow> int \<Rightarrow> bool" where
  "field_fit eType nWidth nDecimals \<longleftrightarrow>
     0 \<le> nWidth \<and> (if eType = FTString then nWidth < 65536 \<and> nDecimals = 0 else nWidth < 256 \<and> 0 \<le> nDecimals \<and> nDecimals < 256) \<and>
     (eType \<noteq> FTDouble \<longrightarrow> nDecimals = 0)"

definition field_char :: "DBFFieldType \<Rightarrow> char" where
  "field_char eType = (if eType = FTString then CHR ''C'' else CHR ''N'')"

lemma chr_of_byte_of [simp]: "chr_of (byte_of c) = c"
proof -
  have "of_char c < (256 :: nat)" by simp
  then show ?thesis by (simp add: chr_of_def byte_of_def unat_of_nat)
qed

lemma length_field_header [simp]: "length (field_header name eType w dec) = 32"
  by (simp add: field_header_def Let_def)

lemma field_header_nth:
  assumes "11 \<le> k" and "k < 32"
  shows "field_header name eType w dec ! k =
    ([if eType = FTString then byte_of (CHR ''C'') else byte_of (CHR ''N'')] @ replicate 4 0
      @ (if eType = FTString then [word_of_int (w mod 256), word_of_int (w div 256)] else [word_of_int w, word_of_int dec])
      @ replicate 14 0) ! (k - 11)"
proof -
  define nm :: "byte list" where "nm = map byte_of (take 10 name) @ replicate (11 - length (take 10 name)) 0"
  have "length nm = 11" by (simp add: nm_def)
  moreover have "field_header name eType w dec = nm @ ([if eType = FTString then byte_of (CHR ''C'') else byte_of (CHR ''N'')] @ replicate 4 0
      @ (if eType = FTString then [word_of_int (w mod 256), word_of_int (w div 256)] else [word_of_int w, word_of_int dec])
      @ replicate 14 0)" by (simp add: field_header_def nm_def Let_def)
  ultimately show ?thesis using assms by (simp only: nth_append) simp
qed

lemma field_info_header:
  assumes "field_fit eType w dec" and "length h = 32 * n"
  shows "field_info (h @ field_header name eType w dec) n = (w, dec, field_char eType)"
proof -
  have b: "(h @ field_header name eType w dec) ! (32 * n + k) = field_header name eType w dec ! k" for k
    using assms(2) by (simp add: nth_append)
  have u: "uint (word_of_int x :: byte) = x" if "0 \<le> x" "x < 256" for x
    using that by (simp add: uint_word_of_int take_bit_eq_mod)
  have k: "field_header name eType w dec ! 11 = byte_of (field_char eType)"
    "field_header name eType w dec ! 16 = (if eType = FTString then word_of_int (w mod 256) else word_of_int w)"
    "field_header name eType w dec ! 17 = (if eType = FTString then word_of_int (w div 256) else word_of_int dec)"
    by (simp_all add: field_header_nth field_char_def nth_append)
  show ?thesis
    using assms(1) two_bytes [of w] u [of w] u [of dec]
    by (auto simp: field_info_def Let_def b k field_fit_def field_char_def split: if_splits)
qed

lemma field_offsets_append: "field_offsets off (ss @ [s]) = field_offsets off ss @ [off + sum_list ss]"
  by (induction ss arbitrary: off) (auto simp: add.assoc)

lemma create_ok:
  assumes "msDBFCreate (Some f) = Some d"
  shows "dbf_ok c d" "bNoHeader d" "nFields d = 0" "nRecords d = 0"
  using assms
  by (auto simp: msDBFCreate_def dbf_ok_def layout_ok_def header_ok_def rows_ok_def nFields_def)

definition field_room :: "'f DBFInfo \<Rightarrow> int \<Rightarrow> bool" where
  "field_room d nWidth \<longleftrightarrow> uint (nRecordLength d) + nWidth < 65536 \<and> nHeaderLength d + 32 < 65536"

lemma add_field_ok:
  assumes ok: "dbf_ok c d" and new: "bNoHeader d" and fit: "field_fit eType w dec" and room: "field_room d w"
    and full: "1 + sum_list (panFieldSize d) = uint (nRecordLength d)"
  obtains d' where "msDBFAddField junk d name eType w dec = (int (nFields d), d')" "dbf_ok c d'" "bNoHeader d'"
    "panFieldSize d' = panFieldSize d @ [w]" "panFieldDecimals d' = panFieldDecimals d @ [dec]"
    "pachFieldType d' = pachFieldType d @ [field_char eType]" "nRecords d' = 0"
    "1 + sum_list (panFieldSize d') = uint (nRecordLength d')" "fp d' = fp d"
proof -
  have n0: "nRecords d = 0" "\<not> bUpdated d" "nHeaderLength d = 33 + 32 * int (nFields d)" and lay: "layout_ok d"
    and cur: "nCurrentRecord d = -1" "\<not> bCurrentRecordModified d"
    using ok new by (auto simp: dbf_ok_def)
  have ww: "0 \<le> w" "w < 65536" using fit by (auto simp: field_fit_def split: if_splits)
  define rl where "rl = nRecordLength d + word_of_int w"
  have rl: "uint rl = uint (nRecordLength d) + w"
    using room ww by (simp add: rl_def uint_word_ariths uint_word_of_int take_bit_eq_mod field_room_def)
  define h where "h = take (32 * nFields d) (pszHeader d)"
  have lh: "length h = 32 * nFields d" using lay by (simp add: h_def layout_ok_def)
  have g: "\<not> (nRecords d > 0 \<or> \<not> bNoHeader d \<or> (eType \<noteq> FTDouble \<and> dec \<noteq> 0))"
    using n0 new fit by (auto simp: field_fit_def)
  define d' where "d' = snd (msDBFAddField junk d name eType w dec)"
  have ad: "msDBFAddField junk d name eType w dec = (int (nFields d), d')"
    and d': "d' = d\<lparr>panFieldOffset := panFieldOffset d @ [uint (nRecordLength d)],
            panFieldSize := panFieldSize d @ [w], panFieldDecimals := panFieldDecimals d @ [dec],
            pachFieldType := pachFieldType d @ [field_char eType],
            nRecordLength := rl, nHeaderLength := nHeaderLength d + 32, bUpdated := False,
            pszHeader := h @ field_header name eType w dec,
            pszCurrentRecord := take (unat rl) (pszCurrentRecord d @ map junk [length (pszCurrentRecord d)..<unat rl])\<rparr>"
    unfolding d'_def msDBFAddField_def if_not_P [OF g] by (simp_all add: Let_def rl_def h_def field_char_def)
  have info: "field_info (h @ field_header name eType w dec) i = field_info (pszHeader d) i" if "i < nFields d" for i
    using that lh by (intro field_info_take [of "nFields d"]) (simp add: h_def)+
  have "layout_ok d'"
    using lay room full fit ww info field_info_header [OF fit lh] rl lh
    by (auto simp: layout_ok_def d' nFields_def field_offsets_append field_room_def nth_append less_Suc_eq n0)
  then have "dbf_ok c d'"
    using ok new n0 cur room by (simp add: dbf_ok_def d' rows_ok_def nFields_def field_room_def)
  then show ?thesis using that [OF ad] new n0 full rl by (simp add: d')
qed

section \<open>What a field holds after it is written\<close>

lemma field_bytes_layout: "same_layout d e \<Longrightarrow> field_bytes d = field_bytes e"
  by (simp add: field_bytes_def same_layout_def fun_eq_iff)

lemma put_field_same:
  assumes "layout_ok d" and "i < nFields d" and "length r = unat (nRecordLength d)"
  shows "field_bytes d i (put_field d i s r)
    = map byte_of (take (nat (panFieldSize d ! i)) s) @ drop (length s) (field_bytes d i r)"
proof -
  define off sz where "off = nat (panFieldOffset d ! i)" and "sz = nat (panFieldSize d ! i)"
  have "off + sz \<le> length r" using field_fits [OF assms(1,2)] assms(3) by (simp add: off_def sz_def)
  then show ?thesis
    by (cases "length s \<le> sz")
       (simp_all add: field_bytes_def put_field_def Let_def flip: off_def sz_def, simp add: drop_take add.commute)
qed

lemma put_field_other:
  assumes "layout_ok d" and "i < nFields d" and "j < nFields d" and "i \<noteq> j" and "length r = unat (nRecordLength d)"
  shows "field_bytes d j (put_field d i s r) = field_bytes d j r"
proof -
  define off sz where "off = (\<lambda>i. nat (panFieldOffset d ! i))" and "sz = (\<lambda>i. nat (panFieldSize d ! i))"
  have fit: "off i + sz i \<le> length r" "off j + sz j \<le> length r"
    using field_fits [OF assms(1,2)] field_fits [OF assms(1,3)] assms(5) by (simp_all add: off_def sz_def)
  have nn: "0 \<le> panFieldSize d ! k" "1 \<le> panFieldOffset d ! k" if "k < nFields d" for k
    using assms(1) that field_span [of k "panFieldSize d" 1] by (auto simp: layout_ok_def nFields_def)
  define bs where "bs = map byte_of (take (sz i) s)"
  have lb: "length bs \<le> sz i" by (simp add: bs_def)
  have pf: "put_field d i s r = overwrite r (off i) bs"
    using fit by (simp add: put_field_def Let_def overwrite_def bs_def off_def sz_def)
  have apart: "panFieldOffset d ! k + panFieldSize d ! k \<le> panFieldOffset d ! l" if "k < l" "l < nFields d" for k l
    using field_apart [of k l "panFieldSize d" 1] that assms(1) by (simp add: layout_ok_def nFields_def)
  have "off i + sz i \<le> off j \<or> off j + sz j \<le> off i"
    using apart [of i j] apart [of j i] assms(2-4) nn [of i] nn [of j] unfolding off_def sz_def by linarith
  then show ?thesis
    using overwrite_before [of "off j" "sz j" "off i" r bs] overwrite_after [of "off i" bs "off j" "sz j" r] lb fit
    by (auto simp: field_bytes_def pf simp flip: off_def sz_def) (simp_all add: off_def sz_def)
qed

lemma last_not_padded:
  assumes "s \<noteq> []" and "last s \<noteq> c"
  shows "last_not c (s @ replicate k c) (length s + k) = Some (length s - 1)"
proof (induction k)
  case 0
  then show ?case using assms by (cases "length s") (simp_all add: last_conv_nth)
next
  case (Suc k)
  have "(s @ replicate (Suc k) c) ! j = (s @ replicate k c) ! j" if "j < length s + k" for j
    using that by (auto simp: nth_append simp del: replicate.simps)
  then have "last_not c (s @ replicate (Suc k) c) n = last_not c (s @ replicate k c) n" if "n \<le> length s + k" for n
    using that by (induction n) auto
  then show ?case using Suc by (simp add: nth_append del: replicate.simps)
qed

text \<open>A text without a NUL and without trailing blanks is what the padded field reads as.\<close>

definition plain_text :: "string \<Rightarrow> bool" where
  "plain_text s \<longleftrightarrow> NUL \<notin> set s \<and> (s \<noteq> [] \<longrightarrow> last s \<noteq> CHR '' '')"

lemma field_text_padded:
  assumes "plain_text s" and "\<not> numeric_type ty"
  shows "field_text ty (map byte_of s @ replicate k (byte_of (CHR '' ''))) = s"
proof -
  define t where "t = s @ replicate k (CHR '' '')"
  have "NUL \<notin> set t" using assms(1) by (auto simp: t_def plain_text_def)
  then have tw: "takeWhile (\<lambda>c. c \<noteq> NUL) t = t" by (simp add: takeWhile_eq_all_conv) blast
  have mp: "map chr_of (map byte_of s @ replicate k (byte_of (CHR '' ''))) = t" by (simp add: t_def comp_def)
  show ?thesis
  proof (cases "s = []")
    case True
    then have "last_not (CHR '' '') t (length t) = None" by (simp add: last_not_None t_def)
    then show ?thesis using True assms(2) unfolding field_text_def mp tw Let_def by simp
  next
    case False
    then have "last_not (CHR '' '') t (length t) = Some (length s - 1)"
      using last_not_padded [of s "CHR '' ''" k] assms(1) by (simp add: t_def plain_text_def)
    then show ?thesis using False assms(2) unfolding field_text_def mp tw Let_def by (simp add: t_def)
  qed
qed

lemma table_row_length:
  assumes ok: "dbf_ok c d" and nf: "nFields d \<noteq> 0" and r: "r < nat (nRecords d)"
  shows "length (table_rows c d ! r) = unat (nRecordLength d)"
proof (cases "int r = nCurrentRecord d")
  case True
  then show ?thesis using dbf_okD(10) [OF ok nf] r by (simp add: table_rows_nth)
next
  case False
  then have "nat (nHeaderLength d) + unat (nRecordLength d) * Suc r \<le> length c"
    using dbf_okD(5) [OF ok] r by (auto simp: rows_ok_def)
  then show ?thesis using False r by (simp add: table_rows_nth row_at_def)
qed

section \<open>Sequences of writes\<close>

fun write_all :: "'f vsi_rw \<Rightarrow> 'f DBFInfo \<Rightarrow> (nat \<times> nat \<times> dbfValue \<times> string) list \<Rightarrow> 'f DBFInfo option" where
  "write_all ops d [] = Some d"
| "write_all ops d ((r, i, v, s) # ws) =
     (case msDBFWriteAttribute ops d (int r) (int i) v of
        Some (True, d') \<Rightarrow> write_all ops d' ws
      | _ \<Rightarrow> None)"

text \<open>
  Writes that the handle takes, the table having \<open>n\<close> records: none behind the end, each of a value that
  its field stores as the given text, and offsets that stay below \<open>2 ^ 32\<close>.
\<close>

fun valid_writes :: "'f DBFInfo \<Rightarrow> nat \<Rightarrow> (nat \<times> nat \<times> dbfValue \<times> string) list \<Rightarrow> bool" where
  "valid_writes d n [] = True"
| "valid_writes d n ((r, i, v, s) # ws) \<longleftrightarrow>
     r \<le> n \<and> accepts d i v s \<and> int n + 1 < 2 ^ 31 \<and> nHeaderLength d + uint (nRecordLength d) * (int n + 1) < 2 ^ 32 \<and>
     valid_writes d (max n (r + 1)) ws"

fun put_rows :: "'f DBFInfo \<Rightarrow> (nat \<times> nat \<times> dbfValue \<times> string) list \<Rightarrow> byte list list \<Rightarrow> byte list list" where
  "put_rows d [] rs = rs"
| "put_rows d ((r, i, v, s) # ws) rs = put_rows d ws (put_row d r i s rs)"

lemma layout_cong:
  assumes "same_layout d e"
  shows "valid_writes d n ws = valid_writes e n ws" "put_rows d ws rs = put_rows e ws rs"
proof -
  have "accepts d = accepts e" using assms by (auto simp: accepts_def same_layout_def nFields_def fun_eq_iff)
  then show "valid_writes d n ws = valid_writes e n ws"
    using assms by (induction ws arbitrary: n) (auto simp: same_layout_def)
  show "put_rows d ws rs = put_rows e ws rs"
    using put_field_layout [OF assms] by (induction ws arbitrary: rs) auto
qed

lemma length_put_row: "length (put_row d r i s rs) = max (length rs) (if r < length rs then 0 else length rs + 1)"
  by (simp add: put_row_def)

context writable_vsi
begin

lemma write_all_rows:
  assumes "dbf_ok (bytes (fp d)) d" and "valid_writes d (nat (nRecords d)) ws"
  shows "\<exists>d'. write_all ops d ws = Some d' \<and> dbf_ok (bytes (fp d')) d' \<and> same_layout d' d
    \<and> table_rows (bytes (fp d')) d' = put_rows d ws (table_rows (bytes (fp d)) d)"
  using assms
proof (induction ws arbitrary: d)
  case Nil
  then show ?case by (simp add: same_layout_def)
next
  case (Cons w ws)
  obtain r i v s where w: "w = (r, i, v, s)" by (cases w)
  have n: "0 \<le> nRecords d" using dbf_okD(2) [OF Cons.prems(1)] .
  have v: "accepts d i v s" "int r \<le> nRecords d" "has_room d"
    using Cons.prems(2) n by (auto simp: w has_room_def)
  from write_attribute [OF Cons.prems(1) v] obtain d1 where
    d1: "msDBFWriteAttribute ops d (int r) (int i) v = Some (True, d1)" "dbf_ok (bytes (fp d1)) d1"
    "table_rows (bytes (fp d1)) d1 = put_row d r i s (table_rows (bytes (fp d)) d)" "same_layout d1 d" .
  have "nat (nRecords d1) = max (nat (nRecords d)) (r + 1)"
    using arg_cong [OF d1(3), of length] v(2) by (auto simp: length_put_row)
  then have "valid_writes d1 (nat (nRecords d1)) ws" using Cons.prems(2) layout_cong(1) [OF d1(4)] by (simp add: w)
  from Cons.IH [OF d1(2) this] obtain d' where "write_all ops d1 ws = Some d'" "dbf_ok (bytes (fp d')) d'" "same_layout d' d1"
    "table_rows (bytes (fp d')) d' = put_rows d1 ws (table_rows (bytes (fp d1)) d1)" by blast
  then show ?case using d1 layout_cong(2) [OF d1(4)] by (auto simp: w same_layout_def)
qed

end

lemma written_text:
  assumes lay: "layout_ok d" and i: "i < nFields d" "\<not> numeric_type ty" "plain_text s" "int (length s) \<le> panFieldSize d ! i"
    and lo: "length old = unat (nRecordLength d)"
    and old: "old = replicate (length old) (byte_of (CHR '' '')) \<or> int (length s) = panFieldSize d ! i"
  shows "field_text ty (field_bytes d i (put_field d i s old)) = s"
proof -
  define sz where "sz = nat (panFieldSize d ! i)"
  have ls: "length s \<le> sz" using i(4) by (simp add: sz_def le_nat_iff)
  have fo: "length (field_bytes d i old) = sz"
    using field_fits [OF lay i(1)] lo by (simp add: field_bytes_def sz_def)
  have "drop (length s) (field_bytes d i old) = replicate (sz - length s) (byte_of (CHR '' ''))"
  proof (cases "length s = sz")
    case True
    then show ?thesis using fo by simp
  next
    case False
    then have "old = replicate (length old) (byte_of (CHR '' ''))" using old by (auto simp: sz_def)
    then obtain k where "old = replicate k (byte_of (CHR '' ''))" by blast
    then show ?thesis using fo by (simp add: field_bytes_def)
  qed
  then have "field_bytes d i (put_field d i s old) = map byte_of s @ replicate (sz - length s) (byte_of (CHR '' ''))"
    using put_field_same [OF lay i(1) lo, of s] ls by (simp flip: sz_def)
  then show ?thesis using field_text_padded [OF i(3,2)] by simp
qed

section \<open>Attribute tables\<close>

text \<open>An attribute table can be read in any order: asked for a field of a record that exists,
  \<open>msDBFReadAttribute\<close> returns the text that this record of the table holds there, whichever record
  was in the buffer before and whether or not it had been modified; no error is reported, the
  table is unchanged, and the handle still satisfies the invariant \<open>dbf_ok\<close>. The file system is any that
  satisfies \<open>writable_vsi\<close>.\<close>

theorem dbf_read:
  assumes "writable_vsi ops bytes at" and "dbf_ok (bytes (fp d)) d" and "i < nFields d" and "int r < nRecords d"
  shows "\<exists>d'. msDBFReadAttribute ops d (int r) (int i)
        = Some (Some (field_text (pachFieldType d ! i) (field_bytes d i (table_rows (bytes (fp d)) d ! r))), d', [])
    \<and> dbf_ok (bytes (fp d')) d' \<and> table_rows (bytes (fp d')) d' = table_rows (bytes (fp d)) d"
  using writable_vsi.read_attribute [OF assms(1,2,3,4)] by metis

text \<open>C14. What is written to an attribute table is there when it is opened again: any sequence of
  writes, in any order of the records and fields, into existing records or the one behind the
  last, succeeds, and after \<open>msDBFClose\<close> the file opens with the same fields and with exactly the
  records that the writes, applied to the list of records one by one, give: each write changes its
  field of its record only, and a new record starts as blanks. The record buffer and the header that is
  written late do not show. The handle satisfies \<open>dbf_ok\<close> and has at least one field; each write is of
  a number to a numeric field or of a text to another one; and the table stays below 2147483648 records
  and 4294967296 bytes.\<close>

theorem dbf_persist:
  assumes "writable_vsi ops bytes at" and "dbf_ok (bytes (fp d)) d" and "nFields d \<noteq> 0"
    and "valid_writes d (nat (nRecords d)) ws"
  shows "\<exists>d1. write_all ops d ws = Some d1
    \<and> (\<forall>g. bytes g = bytes (fst (msDBFClose ops junk d1)) \<longrightarrow> at g = 0 \<longrightarrow>
        (\<exists>d2. msDBFOpenVirtualFile ops junk g = Some d2 \<and> dbf_ok (bytes (fp d2)) d2 \<and> same_layout d2 d
          \<and> table_rows (bytes (fp d2)) d2 = put_rows d ws (table_rows (bytes (fp d)) d)))"
proof -
  from writable_vsi.write_all_rows [OF assms(1,2,4)] obtain d1 where w: "write_all ops d ws = Some d1"
    and ok: "dbf_ok (bytes (fp d1)) d1" and lay: "same_layout d1 d"
    and rows: "table_rows (bytes (fp d1)) d1 = put_rows d ws (table_rows (bytes (fp d)) d)" by blast
  have nf: "nFields d1 \<noteq> 0" using assms(3) put_field_layout [OF lay] by simp
  note cl = writable_vsi.close_table [OF assms(1) ok nf, of junk]
  have "\<exists>d2. msDBFOpenVirtualFile ops junk g = Some d2 \<and> dbf_ok (bytes (fp d2)) d2 \<and> same_layout d2 d
      \<and> table_rows (bytes (fp d2)) d2 = put_rows d ws (table_rows (bytes (fp d)) d)"
    if g: "bytes g = bytes (fst (msDBFClose ops junk d1))" "at g = 0" for g
  proof -
    have "closed_file (bytes g) d1" using cl g by simp
    from writable_vsi.open_table [OF assms(1) this g(2) nf, of junk] obtain d2 where
      d2: "msDBFOpenVirtualFile ops junk g = Some d2" "dbf_ok (bytes (fp d2)) d2" "same_layout d2 d1"
      "table_rows (bytes (fp d2)) d2 = map (row_at d1 (bytes g)) [0..<nat (nRecords d1)]" .
    moreover have "same_layout d2 d" using d2(3) lay by (simp add: same_layout_def)
    ultimately show ?thesis using cl g rows by auto
  qed
  with w show ?thesis by blast
qed

text \<open>C18. A text that fits its field comes back as it was written: when \<open>msDBFWriteStringAttribute\<close>
  stores a text without NUL and trailing blanks in a text field of a new record, then
  \<open>msDBFReadStringAttribute\<close> of that record returns the text; and in a record that exists, a text of the
  field's full width comes back, while all other fields read as before.\<close>

theorem dbf_text_roundtrip:
  assumes vsi: "writable_vsi ops bytes at" and ok: "dbf_ok (bytes (fp d)) d"
    and i: "i < nFields d" "\<not> numeric_type (pachFieldType d ! i)" "plain_text s" "int (length s) \<le> panFieldSize d ! i"
    and r: "int r = nRecords d \<and> has_room d \<or> int r < nRecords d \<and> int (length s) = panFieldSize d ! i"
  shows "\<exists>d1 d2. msDBFWriteStringAttribute ops d (int r) (int i) s = Some (True, d1)
    \<and> msDBFReadStringAttribute ops d1 (int r) (int i) = Some (Some s, d2, [])
    \<and> (\<forall>j<nFields d. j \<noteq> i \<longrightarrow> int r < nRecords d \<longrightarrow>
        field_bytes d j (table_rows (bytes (fp d2)) d2 ! r) = field_bytes d j (table_rows (bytes (fp d)) d ! r))"
proof -
  have lay: "layout_ok d" and n: "0 \<le> nRecords d" using dbf_okD(1,2) [OF ok] by auto
  have acc: "accepts d i (StringValue s) s" using i by (simp add: accepts_def value_text_def)
  define old where "old = (if int r = nRecords d then replicate (unat (nRecordLength d)) (byte_of (CHR '' ''))
    else table_rows (bytes (fp d)) d ! r)"
  have lo: "length old = unat (nRecordLength d)"
    using table_row_length [OF ok, of r] i(1) r n by (auto simp: old_def)
  from r have "int r \<le> nRecords d" "int r = nRecords d \<Longrightarrow> has_room d" by auto
  from writable_vsi.write_attribute [OF vsi ok acc this] obtain d1 where
    w: "msDBFWriteAttribute ops d (int r) (int i) (StringValue s) = Some (True, d1)" and ok1: "dbf_ok (bytes (fp d1)) d1"
    and rows: "table_rows (bytes (fp d1)) d1 = put_row d r i s (table_rows (bytes (fp d)) d)" and lay1: "same_layout d1 d" by blast
  have new: "table_rows (bytes (fp d1)) d1 ! r = put_field d i s old"
    using r n by (auto simp: rows put_row_def old_def nth_append)
  have "r < length (table_rows (bytes (fp d1)) d1)" using r n by (auto simp: rows length_put_row)
  then have r1: "int r < nRecords d1" by simp
  have i1: "i < nFields d1" "pachFieldType d1 = pachFieldType d" "field_bytes d1 = field_bytes d"
    using put_field_layout [OF lay1] i(1) lay1 field_bytes_layout [OF lay1] by (simp_all add: same_layout_def)
  from writable_vsi.read_attribute [OF vsi ok1 i1(1) r1] obtain d2 where
    rd: "msDBFReadAttribute ops d1 (int r) (int i)
      = Some (Some (field_text (pachFieldType d ! i) (field_bytes d i (put_field d i s old))), d2, [])"
    and rows2: "table_rows (bytes (fp d2)) d2 = table_rows (bytes (fp d1)) d1"
    by (metis new i1(2,3))
  have "old = replicate (length old) (byte_of (CHR '' '')) \<or> int (length s) = panFieldSize d ! i"
    using r by (auto simp: old_def)
  from written_text [OF lay i lo this]
  have "msDBFReadStringAttribute ops d1 (int r) (int i) = Some (Some s, d2, [])"
    using rd by (simp add: msDBFReadStringAttribute_def)
  moreover have "field_bytes d j (table_rows (bytes (fp d2)) d2 ! r) = field_bytes d j (table_rows (bytes (fp d)) d ! r)"
    if "j < nFields d" "j \<noteq> i" "int r < nRecords d" for j
    using put_field_other [OF lay i(1) that(1) _ lo, of s] that by (simp add: rows2 new) (simp add: old_def)
  ultimately show ?thesis using w by (auto simp: msDBFWriteStringAttribute_def)
qed

section \<open>A table with one field\<close>

definition demo_file :: cfile where
  "demo_file = \<lparr>content = [0], pos = 0\<rparr>"

definition demo_table :: "cfile DBFInfo" where
  "demo_table = snd (msDBFAddField (\<lambda>_. 0) (the (msDBFCreate (Some demo_file))) ''NAME'' FTString 3 0)"

lemma demo_table_ok:
  "dbf_ok (content (fp demo_table)) demo_table" "nFields demo_table = 1" "nRecords demo_table = 0"
  "panFieldSize demo_table = [3]" "panFieldDecimals demo_table = [0]" "pachFieldType demo_table = ''C''"
  "nHeaderLength demo_table = 65" "nRecordLength demo_table = 4" "panFieldOffset demo_table = [1]"
proof -
  define d where "d = the (msDBFCreate (Some demo_file))"
  have d: "msDBFCreate (Some demo_file) = Some d" by (simp add: d_def msDBFCreate_def)
  have "field_fit FTString 3 0" "field_room d 3" "1 + sum_list (panFieldSize d) = uint (nRecordLength d)"
    by (simp_all add: field_fit_def field_room_def d_def msDBFCreate_def)
  from add_field_ok [OF create_ok(1) [OF d] create_ok(2) [OF d] this, of "\<lambda>_. 0" "''NAME''" "content demo_file"]
  obtain e where "msDBFAddField (\<lambda>_. 0) d ''NAME'' FTString 3 0 = (int (nFields d), e)" "dbf_ok (content demo_file) e"
    "fp e = fp d" by metis
  moreover have "fp d = demo_file" by (simp add: d_def msDBFCreate_def)
  ultimately show "dbf_ok (content (fp demo_table)) demo_table" by (simp add: demo_table_def flip: d_def)
qed (simp_all add: demo_table_def msDBFCreate_def msDBFAddField_def nFields_def)

lemma demo_record_length: "unat (nRecordLength demo_table) = Suc (Suc (Suc (Suc 0)))"
  by (simp add: demo_table_ok)

lemma demo_accepts: "length s \<le> 3 \<Longrightarrow> accepts demo_table 0 (StringValue s) s"
  by (simp add: accepts_def demo_table_ok value_text_def numeric_type_def)

theorem dbf_persist_witness:
  "\<exists>d1. write_all stdio_rw demo_table [(0, 0, StringValue ''ab'', ''ab''), (1, 0, StringValue ''xyz'', ''xyz'')] = Some d1
    \<and> (\<exists>d2. msDBFOpenVirtualFile stdio_rw (\<lambda>_. 0) ((fst (msDBFClose stdio_rw (\<lambda>_. 0) d1))\<lparr>pos := 0\<rparr>) = Some d2
        \<and> table_rows (content (fp d2)) d2 = map (map byte_of) ['' ab '', '' xyz''])"
proof -
  let ?ws = "[(0, 0, StringValue ''ab'', ''ab''), (1, 0, StringValue ''xyz'', ''xyz'')]"
  have v: "valid_writes demo_table (nat (nRecords demo_table)) ?ws"
    using demo_accepts by (simp add: demo_table_ok)
  have rows: "put_rows demo_table ?ws (table_rows (content (fp demo_table)) demo_table) = map (map byte_of) ['' ab '', '' xyz'']"
    by (simp add: put_row_def put_field_def demo_table_ok(1-7,9) table_rows_def demo_record_length numeral_2_eq_2 numeral_3_eq_3)
  have "nFields demo_table \<noteq> 0" by (simp add: demo_table_ok)
  from dbf_persist [OF stdio_rw.writable_vsi_axioms demo_table_ok(1) this v, of "\<lambda>_. 0"] obtain d1 where
    w: "write_all stdio_rw demo_table ?ws = Some d1" and
    op: "\<forall>g. content g = content (fst (msDBFClose stdio_rw (\<lambda>_. 0) d1)) \<longrightarrow> pos g = 0 \<longrightarrow>
        (\<exists>d2. msDBFOpenVirtualFile stdio_rw (\<lambda>_. 0) g = Some d2 \<and> dbf_ok (content (fp d2)) d2 \<and> same_layout d2 demo_table
          \<and> table_rows (content (fp d2)) d2 = map (map byte_of) ['' ab '', '' xyz''])"
    unfolding rows by blast
  define g where "g = (fst (msDBFClose stdio_rw (\<lambda>_. 0) d1))\<lparr>pos := 0\<rparr>"
  have "content g = content (fst (msDBFClose stdio_rw (\<lambda>_. 0) d1))" "pos g = 0" by (simp_all add: g_def)
  from op [rule_format, OF this] obtain d2 where "msDBFOpenVirtualFile stdio_rw (\<lambda>_. 0) g = Some d2"
    "table_rows (content (fp d2)) d2 = map (map byte_of) ['' ab '', '' xyz'']" by (elim exE conjE)
  with w show ?thesis unfolding g_def by (intro exI conjI)
qed

definition demo_written :: "cfile DBFInfo" where
  "demo_written = snd (the (msDBFWriteStringAttribute stdio_rw demo_table 0 0 ''ab''))"

lemma demo_written_ok:
  "dbf_ok (content (fp demo_written)) demo_written" "nFields demo_written = 1" "nRecords demo_written = 1"
proof -
  have a: "accepts demo_table 0 (StringValue ''ab'') ''ab''" "int 0 \<le> nRecords demo_table" "has_room demo_table"
    using demo_accepts by (simp_all add: demo_table_ok has_room_def)
  from stdio_rw.write_attribute [OF demo_table_ok(1) a] obtain e where
    e: "msDBFWriteAttribute stdio_rw demo_table (int 0) (int 0) (StringValue ''ab'') = Some (True, e)" "dbf_ok (content (fp e)) e"
    "table_rows (content (fp e)) e = put_row demo_table 0 0 ''ab'' (table_rows (content (fp demo_table)) demo_table)"
    "same_layout e demo_table" .
  have de: "demo_written = e" using e(1) by (simp add: demo_written_def msDBFWriteStringAttribute_def)
  show "dbf_ok (content (fp demo_written)) demo_written" "nFields demo_written = 1" "nRecords demo_written = 1"
    using e(2) put_field_layout [OF e(4)] arg_cong [OF e(3), of length]
    by (simp_all add: de demo_table_ok length_put_row)
qed

theorem dbf_read_witness:
  "\<exists>d'. msDBFReadAttribute stdio_rw demo_written 0 0
        = Some (Some (field_text (pachFieldType demo_written ! 0)
            (field_bytes demo_written 0 (table_rows (content (fp demo_written)) demo_written ! 0))), d', [])"
proof -
  have "0 < nFields demo_written" "int 0 < nRecords demo_written" by (simp_all add: demo_written_ok)
  from dbf_read [OF stdio_rw.writable_vsi_axioms demo_written_ok(1) this] show ?thesis by auto
qed

theorem dbf_text_roundtrip_witness:
  "\<exists>d1 d2. msDBFWriteStringAttribute stdio_rw demo_table 0 0 ''ab'' = Some (True, d1)
    \<and> msDBFReadStringAttribute stdio_rw d1 0 0 = Some (Some ''ab'', d2, [])"
proof -
  have "0 < nFields demo_table" "\<not> numeric_type (pachFieldType demo_table ! 0)" "plain_text ''ab''"
    "int (length ''ab'') \<le> panFieldSize demo_table ! 0" "int 0 = nRecords demo_table \<and> has_room demo_table"
    by (simp_all add: demo_table_ok numeric_type_def plain_text_def has_room_def)
  from dbf_text_roundtrip [OF stdio_rw.writable_vsi_axioms demo_table_ok(1) this(1-4) disjI1 [OF this(5)]]
  show ?thesis by auto
qed

text \<open>
  \<open>msDBFCreate\<close> takes the handle from \<open>malloc\<close> and never sets \<open>pszEncoding\<close>, no operation on the new table
  sets it either, and \<open>msDBFClose\<close> frees it.
\<close>

lemma create_close_uninitialised:
  assumes "msDBFCreate (Some f) = Some d"
  shows "snd (msDBFClose ops junk d)" "snd (msDBFClose ops junk (snd (msDBFAddField junk d name eType w dec)))"
  using assms
  by (auto simp: msDBFCreate_def msDBFClose_def msDBFAddField_def flushRecord_def writeHeader_def Let_def)

text \<open>A text shorter than the one it replaces leaves the end of the old one in the field.\<close>

lemma rewrite_keeps_tail:
  "field_text (CHR ''C'') (field_bytes demo_table 0 (put_field demo_table 0 ''a'' (map byte_of '' xyz''))) = ''ayz''"
  by (simp add: field_bytes_def put_field_def demo_table_ok numeral_3_eq_3 numeral_2_eq_2 field_text_def Let_def numeric_type_def DBFIsValueNULL_def)

end
