(* ===== verification/ChildArrays.thy ===== *)
theory ChildArrays
  imports MS_Prelude
begin

text \<open>
  The arrays of pointers in which a map keeps its layers, a layer its classes and a class its
  styles and labels. This theory has the C idioms they share: the loops that open and close
  a gap, growing by a block with a zeroed object in the first free entry, and reference
  counts on a heap of objects. An object that is freed leaves the heap; freeing or changing
  an address that is not in it is recorded in \<open>fault\<close>. The locale \<open>ordered_children\<close> is what
  callers of the insert and remove functions rely on.
\<close>

section \<open>Loops over an array\<close>

text \<open>\<open>for (i = n - 1; i >= k; i--) a[i + 1] = a[i];\<close>\<close>

definition shift_up :: "nat \<Rightarrow> nat \<Rightarrow> 'a list \<Rightarrow> 'a list" where
  "shift_up n k xs = foldl (\<lambda>a i. a[i + 1 := a ! i]) xs (rev [k..<n])"

text \<open>\<open>for (i = k; i < n - 1; i++) a[i] = a[i + 1];\<close>\<close>

definition shift_down :: "nat \<Rightarrow> nat \<Rightarrow> 'a list \<Rightarrow> 'a list" where
  "shift_down n k xs = foldl (\<lambda>a i. a[i := a ! (i + 1)]) xs [k..<n - 1]"

text \<open>The same loops with a function applied to the entries they write.\<close>

definition map_up :: "('a \<Rightarrow> 'a) \<Rightarrow> nat \<Rightarrow> nat \<Rightarrow> 'a list \<Rightarrow> 'a list" where
  "map_up f n k xs = foldl (\<lambda>a i. a[i + 1 := f (a ! i)]) xs (rev [k..<n])"

definition map_down :: "('a \<Rightarrow> 'a) \<Rightarrow> nat \<Rightarrow> nat \<Rightarrow> 'a list \<Rightarrow> 'a list" where
  "map_down f m k xs = foldl (\<lambda>a i. a[i := f (a ! (i + 1))]) xs [k..<m]"

definition map_here :: "(nat \<Rightarrow> 'a \<Rightarrow> 'a) \<Rightarrow> nat \<Rightarrow> 'a list \<Rightarrow> 'a list" where
  "map_here f k xs = foldl (\<lambda>a i. a[i := f i (a ! i)]) xs [0..<k]"

lemma length_update_loop: "length (foldl (\<lambda>a i. a[h i := p a i]) ys is) = length ys"
  by (induction "is" arbitrary: ys) simp_all

lemma length_maps [simp]: "length (map_up f n k xs) = length xs" "length (map_down f n k xs) = length xs"
  "length (map_here g n xs) = length xs"
  by (simp_all add: map_up_def map_down_def map_here_def length_update_loop [where h = Suc and p = "\<lambda>a i. f (a ! i)"]
      length_update_loop [where h = "\<lambda>i. i" and p = "\<lambda>a i. f (a ! Suc i)"]
      length_update_loop [where h = "\<lambda>i. i" and p = "\<lambda>a i. g i (a ! i)"])

lemma map_up_nth:
  "n < length xs \<Longrightarrow> j < length xs \<Longrightarrow>
     map_up f n k xs ! j = (if k < j \<and> j \<le> n then f (xs ! (j - 1)) else xs ! j)"
proof (induction n arbitrary: xs)
  case (Suc n)
  show ?case
  proof (cases "k \<le> n")
    case True
    have "map_up f (Suc n) k xs = map_up f n k (xs[Suc n := f (xs ! n)])" using True by (simp add: map_up_def)
    then have "map_up f (Suc n) k xs ! j = (if k < j \<and> j \<le> n then f (xs[Suc n := f (xs ! n)] ! (j - 1))
        else xs[Suc n := f (xs ! n)] ! j)"
      using Suc.IH [of "xs[Suc n := f (xs ! n)]"] Suc.prems by simp
    then show ?thesis using True Suc.prems by (cases "j = Suc n") auto
  next
    case False
    then show ?thesis by (auto simp: map_up_def)
  qed
qed (auto simp: map_up_def)

lemma map_down_nth:
  "m < length xs \<Longrightarrow> j < length xs \<Longrightarrow>
     map_down f m k xs ! j = (if k \<le> j \<and> j < m then f (xs ! (j + 1)) else xs ! j)"
proof (induction m arbitrary: j)
  case (Suc m)
  show ?case
  proof (cases "k \<le> m")
    case True
    have s: "map_down f (Suc m) k xs = (map_down f m k xs)[m := f (map_down f m k xs ! (m + 1))]"
      using True by (simp add: map_down_def)
    have "map_down f m k xs ! (m + 1) = xs ! (m + 1)" using Suc.IH [of "m + 1"] Suc.prems by simp
    then show ?thesis using Suc.IH [of j] Suc.prems True unfolding s by (cases "j = m") auto
  next
    case False
    then show ?thesis by (auto simp: map_down_def)
  qed
qed (simp add: map_down_def)

lemma map_here_nth:
  "k \<le> length xs \<Longrightarrow> j < length xs \<Longrightarrow> map_here f k xs ! j = (if j < k then f j (xs ! j) else xs ! j)"
proof (induction k arbitrary: j)
  case (Suc k)
  have s: "map_here f (Suc k) xs = (map_here f k xs)[k := f k (map_here f k xs ! k)]" by (simp add: map_here_def)
  have "map_here f k xs ! k = xs ! k" using Suc.IH [of k] Suc.prems by simp
  then show ?case using Suc.IH [of j] Suc.prems unfolding s by (cases "j = k") auto
qed (simp add: map_here_def)

lemma shift_up_map: "shift_up n k = map_up (\<lambda>x. x) n k"
  by (simp add: shift_up_def map_up_def fun_eq_iff)

lemma shift_down_map: "shift_down n k = map_down (\<lambda>x. x) (n - 1) k"
  by (simp add: shift_down_def map_down_def fun_eq_iff)

lemma shift_up_nth:
  "n < length xs \<Longrightarrow> length (shift_up n k xs) = length xs
    \<and> (\<forall>j<length xs. shift_up n k xs ! j = (if k < j \<and> j \<le> n then xs ! (j - 1) else xs ! j))"
  by (simp add: shift_up_map map_up_nth)

lemma shift_down_nth:
  "n \<le> length xs \<Longrightarrow> length (shift_down n k xs) = length xs
    \<and> (\<forall>j<length xs. shift_down n k xs ! j = (if k \<le> j \<and> j < n - 1 then xs ! (j + 1) else xs ! j))"
  by (cases "n - 1 < length xs") (auto simp: shift_down_map map_down_nth)

lemma length_shift [simp]: "n < length xs \<Longrightarrow> length (shift_up n k xs) = length xs"
  "n \<le> length xs \<Longrightarrow> length (shift_down n k xs) = length xs"
  using shift_up_nth shift_down_nth by blast+

lemma nth_insert_at:
  "i \<le> length xs \<Longrightarrow> j \<le> length xs \<Longrightarrow>
     insert_at i x xs ! j = (if j < i then xs ! j else if j = i then x else xs ! (j - 1))"
  by (auto simp: insert_at_def nth_append nth_Cons' min_def)

lemma nth_remove_at:
  "i < length xs \<Longrightarrow> j < length xs - 1 \<Longrightarrow> remove_at i xs ! j = (if j < i then xs ! j else xs ! (j + 1))"
  by (auto simp: remove_at_def nth_append min_def)

lemma remove_at_distinct:
  assumes "distinct xs" and "k < length xs"
  shows "distinct (remove_at k xs)" and "xs ! k \<notin> set (remove_at k xs)"
proof -
  have "distinct (take k xs @ xs ! k # drop (Suc k) xs)" using assms by (simp flip: id_take_nth_drop)
  then show "distinct (remove_at k xs)" "xs ! k \<notin> set (remove_at k xs)" by (auto simp: remove_at_def)
qed

text \<open>Opening a gap and filling it inserts; closing one removes.\<close>

lemma take_shift_up:
  assumes "n < length xs" and "k \<le> n"
  shows "take (Suc n) ((shift_up n k xs)[k := x]) = insert_at k x (take n xs)"
proof (rule nth_equalityI)
  fix j assume "j < length (take (Suc n) ((shift_up n k xs)[k := x]))"
  then have j: "j \<le> n" using assms shift_up_nth [of n xs k] by simp
  then show "take (Suc n) ((shift_up n k xs)[k := x]) ! j = insert_at k x (take n xs) ! j"
    using assms shift_up_nth [of n xs k] by (auto simp: nth_insert_at nth_list_update)
qed (use assms in simp)

lemma take_shift_down:
  assumes "n \<le> length xs" and "k < n"
  shows "take (n - 1) ((shift_down n k xs)[n - 1 := x]) = remove_at k (take n xs)"
proof (rule nth_equalityI)
  fix j assume "j < length (take (n - 1) ((shift_down n k xs)[n - 1 := x]))"
  then have j: "j < n - 1" using assms by simp
  then show "take (n - 1) ((shift_down n k xs)[n - 1 := x]) ! j = remove_at k (take n xs) ! j"
    using assms shift_down_nth [of n xs k] by (auto simp: nth_remove_at nth_list_update)
qed (use assms in simp)

section \<open>Arrays of counted objects\<close>

record 'd obj =
  refcount :: int
  payload :: 'd

record 'd children =
  slots :: "nat option list"      \<comment> \<open>the array; its length is the allocated size\<close>
  used :: nat
  objs :: "nat \<rightharpoonup> 'd obj"
  next_addr :: nat
  fault :: bool

definition heap_free :: "nat option \<Rightarrow> 'd children \<Rightarrow> 'd children" where
  "heap_free q c =
     (case q of
        None \<Rightarrow> c
      | Some p \<Rightarrow> if objs c p = None then c\<lparr>fault := True\<rparr> else c\<lparr>objs := (objs c)(p := None)\<rparr>)"

definition heap_alloc :: "'d obj \<Rightarrow> 'd children \<Rightarrow> nat \<times> 'd children" where
  "heap_alloc v c = (next_addr c, c\<lparr>objs := (objs c)(next_addr c \<mapsto> v), next_addr := next_addr c + 1\<rparr>)"

definition change :: "nat \<Rightarrow> ('d obj \<Rightarrow> 'd obj) \<Rightarrow> 'd children \<Rightarrow> 'd children" where
  "change p f c =
     (case objs c p of None \<Rightarrow> c\<lparr>fault := True\<rparr> | Some v \<Rightarrow> c\<lparr>objs := (objs c)(p \<mapsto> f v)\<rparr>)"

definition refcnt_add :: "int \<Rightarrow> 'd obj \<Rightarrow> 'd obj" where
  "refcnt_add k v = v\<lparr>refcount := refcount v + k\<rparr>"

text \<open>
  The growing step: \<open>n\<close> more entries when the array is full, and a zeroed object in the first
  free entry if it is NULL. Allocation succeeds.
\<close>

definition grow :: "nat \<Rightarrow> 'd \<Rightarrow> 'd children \<Rightarrow> 'd children" where
  "grow n zeroed c =
     (let c1 = (if used c = length (slots c) then c\<lparr>slots := slots c @ replicate n None\<rparr> else c) in
      if slots c1 ! used c1 = None then
        (let (p, c2) = heap_alloc \<lparr>refcount = 0, payload = zeroed\<rparr> c1
         in c2\<lparr>slots := (slots c2)[used c2 := Some p]\<rparr>)
      else c1)"

definition put_last :: "nat \<Rightarrow> 'd children \<Rightarrow> 'd children" where
  "put_last p c = c\<lparr>slots := (slots c)[used c := Some p], used := used c + 1\<rparr>"

definition put_at :: "nat \<Rightarrow> nat \<Rightarrow> 'd children \<Rightarrow> 'd children" where
  "put_at k p c = c\<lparr>slots := (shift_up (used c) k (slots c))[k := Some p], used := used c + 1\<rparr>"

definition take_out :: "nat \<Rightarrow> 'd children \<Rightarrow> 'd children" where
  "take_out k c = c\<lparr>slots := (shift_down (used c) k (slots c))[used c - 1 := None], used := used c - 1\<rparr>"

definition items :: "'d children \<Rightarrow> nat option list" where
  "items c = take (used c) (slots c)"

definition spares :: "'d children \<Rightarrow> nat option list" where
  "spares c = drop (used c) (slots c)"

section \<open>Well-formed arrays\<close>

text \<open>
  The entries in use are distinct live objects; a free entry is NULL or holds a live object
  that is not in use.
\<close>

definition children_ok :: "'d children \<Rightarrow> bool" where
  "children_ok c \<longleftrightarrow>
     used c \<le> length (slots c) \<and> \<not> fault c \<and> None \<notin> set (items c) \<and> distinct (items c)
     \<and> set (items c) \<inter> set (spares c) = {} \<and> distinct (filter (\<lambda>q. q \<noteq> None) (spares c))
     \<and> (\<forall>p. Some p \<in> set (items c) \<union> set (spares c) \<longrightarrow> p \<in> dom (objs c))
     \<and> (\<forall>p\<in>dom (objs c). p < next_addr c)"

lemma length_items [simp]: "used c \<le> length (slots c) \<Longrightarrow> length (items c) = used c"
  by (simp add: items_def)

lemma change_simps [simp]: "slots (change p f c) = slots c" "used (change p f c) = used c"
  "next_addr (change p f c) = next_addr c" "items (change p f c) = items c" "spares (change p f c) = spares c"
  "fault (change p f c) \<longleftrightarrow> fault c \<or> p \<notin> dom (objs c)" "dom (objs (change p f c)) = dom (objs c)"
  by (auto simp: change_def items_def spares_def split: option.split)

lemma items_upd [simp]: "items (c\<lparr>objs := h\<rparr>) = items c" "items (c\<lparr>next_addr := n\<rparr>) = items c" "items (c\<lparr>fault := b\<rparr>) = items c"
  "spares (c\<lparr>objs := h\<rparr>) = spares c" "spares (c\<lparr>next_addr := n\<rparr>) = spares c" "spares (c\<lparr>fault := b\<rparr>) = spares c"
  by (simp_all add: items_def spares_def)

lemma children_ok_free:
  assumes "children_ok c" and "Some p \<notin> set (items c)" and "Some p \<notin> set (spares c)"
  shows "children_ok (c\<lparr>objs := (objs c)(p := None)\<rparr>)"
  using assms unfolding children_ok_def by auto

lemma children_ok_change: "children_ok c \<Longrightarrow> p \<in> dom (objs c) \<Longrightarrow> children_ok (change p f c)"
  by (simp add: children_ok_def)

lemma set_slots: "set (slots c) = set (items c) \<union> set (spares c)"
  unfolding items_def spares_def by (metis append_take_drop_id set_append)

text \<open>After growing there is a spare object in the first free entry.\<close>

definition grown :: "'d children \<Rightarrow> nat \<Rightarrow> 'd children \<Rightarrow> bool" where
  "grown c q c' \<longleftrightarrow> children_ok c' \<and> items c' = items c \<and> used c' = used c
     \<and> used c' < length (slots c') \<and> (\<exists>qs. spares c' = Some q # qs)
     \<and> dom (objs c) \<subseteq> dom (objs c') \<and> dom (objs c') \<subseteq> insert q (dom (objs c))
     \<and> (\<forall>p\<in>dom (objs c). objs c' p = objs c p)
     \<and> (\<forall>p. Some p \<notin> set (slots c) \<longrightarrow> p \<in> dom (objs c) \<longrightarrow> Some p \<notin> set (slots c'))"

lemma grow_ok:
  assumes ok: "children_ok c" and n: "0 < n"
  shows "\<exists>q. grown c q (grow n z c)"
proof -
  define sp where "sp = (if used c = length (slots c) then replicate n None else spares c)"
  define c1 where "c1 = (if used c = length (slots c) then c\<lparr>slots := slots c @ replicate n None\<rparr> else c)"
  have c1: "items c1 = items c" "spares c1 = sp" "used c1 = used c" "slots c1 = items c @ sp"
    "objs c1 = objs c" "next_addr c1 = next_addr c" "fault c1 = fault c"
    unfolding c1_def sp_def items_def spares_def by auto
  have len: "length (items c) = used c" using ok by (simp add: children_ok_def)
  have "sp \<noteq> []" using n ok by (auto simp: sp_def spares_def children_ok_def)
  then obtain s sp' where sp: "sp = s # sp'" by (cases sp) auto
  have sub: "set sp \<subseteq> insert None (set (spares c))" "distinct (filter (\<lambda>q. q \<noteq> None) sp)"
    using ok by (auto simp: sp_def children_ok_def)
  have g: "grow n z c = (if s = None then
      c1\<lparr>objs := (objs c)(next_addr c \<mapsto> \<lparr>refcount = 0, payload = z\<rparr>), next_addr := next_addr c + 1,
         slots := items c @ Some (next_addr c) # sp'\<rparr> else c1)"
  proof -
    have "slots c1 ! used c1 = s" using c1 sp len by (simp add: nth_append)
    moreover have "(slots c1)[used c1 := x] = items c @ x # sp'" for x
      using c1 sp len by (simp add: list_update_append)
    ultimately show ?thesis using c1 by (simp add: grow_def c1_def [symmetric] heap_alloc_def Let_def)
  qed
  show ?thesis
  proof (cases s)
    case None
    let ?c = "grow n z c" and ?q = "next_addr c"
    have fresh: "?q \<notin> dom (objs c)" using ok by (auto simp: children_ok_def)
    then have "Some ?q \<notin> set (items c) \<union> set sp" using ok sub by (auto simp: children_ok_def)
    moreover have "items ?c = items c" "spares ?c = Some ?q # sp'" "used ?c = used c"
      using g None c1(3) len by (simp_all add: items_def spares_def)
    ultimately have "grown c ?q ?c"
      using g None ok sub sp c1 len fresh unfolding grown_def set_slots
      by (auto simp: children_ok_def less_Suc_eq)
    then show ?thesis ..
  next
    case (Some q)
    then have "grow n z c = c1" using g by simp
    moreover have "grown c q c1"
      using ok sub sp Some c1 len unfolding grown_def set_slots by (auto simp: children_ok_def)
    ultimately show ?thesis by auto
  qed
qed

text \<open>Filling the gap: the spare entry is overwritten.\<close>

lemma put_last_items:
  assumes "used c < length (slots c)" and "spares c = s # sp"
  shows "items (put_last p c) = items c @ [Some p] \<and> spares (put_last p c) = sp"
proof -
  have "slots c = items c @ s # sp" using assms(2) unfolding items_def spares_def by (metis append_take_drop_id)
  moreover have "length (items c) = used c" using assms(1) by simp
  ultimately have "slots (put_last p c) = items c @ Some p # sp" by (simp add: put_last_def list_update_append)
  then show ?thesis using \<open>length (items c) = used c\<close> by (simp add: items_def spares_def put_last_def)
qed

lemma put_at_items:
  assumes "used c < length (slots c)" and "spares c = s # sp" and "k \<le> used c"
  shows "items (put_at k p c) = insert_at k (Some p) (items c) \<and> spares (put_at k p c) = sp"
proof -
  let ?xs = "(shift_up (used c) k (slots c))[k := Some p]"
  have "items (put_at k p c) = insert_at k (Some p) (items c)"
    using take_shift_up [OF assms(1,3), of "Some p"] by (simp add: items_def put_at_def)
  moreover have "drop (Suc (used c)) ?xs = drop (Suc (used c)) (slots c)"
    using assms shift_up_nth [OF assms(1), of k] by (intro nth_equalityI) (auto simp: nth_list_update)
  ultimately show ?thesis using assms(2) by (simp add: spares_def put_at_def drop_Suc tl_drop [symmetric])
qed

lemma take_out_items:
  assumes "used c \<le> length (slots c)" and "k < used c"
  shows "items (take_out k c) = remove_at k (items c) \<and> spares (take_out k c) = None # spares c"
proof -
  let ?xs = "(shift_down (used c) k (slots c))[used c - 1 := None]"
  have n: "used c - 1 < length ?xs" using assms by simp
  have "items (take_out k c) = remove_at k (items c)"
    using take_shift_down [OF assms(1,2), of None] by (simp add: items_def take_out_def)
  moreover have "drop (used c) ?xs = drop (used c) (slots c)"
    using assms shift_down_nth [OF assms(1), of k] by (intro nth_equalityI) (auto simp: nth_list_update)
  moreover have "drop (used c - 1) ?xs = ?xs ! (used c - 1) # drop (used c) ?xs"
    using Cons_nth_drop_Suc [OF n] assms(2) by simp
  ultimately show ?thesis using n by (simp add: spares_def take_out_def)
qed

lemma put_spare_ok:
  assumes g: "children_ok c" "used c < length (slots c)" "spares c = s # sp"
    and p: "p \<in> dom (objs c)" "Some p \<notin> set (slots c)" and k: "k \<le> used c"
  shows "children_ok (put_last p c) \<and> items (put_last p c) = items c @ [Some p] \<and> spares (put_last p c) = sp
    \<and> children_ok (put_at k p c) \<and> items (put_at k p c) = insert_at k (Some p) (items c) \<and> spares (put_at k p c) = sp"
proof -
  note l = put_last_items [OF g(2,3), of p] put_at_items [OF g(2,3), of k p]
  have set_ins: "set (insert_at k x xs) = insert x (set xs)" for x and xs :: "nat option list"
    by (metis mset_insert_at set_mset_add_mset_insert set_mset_mset)
  have dist_ins: "distinct (insert_at k x xs)" if "distinct xs" "x \<notin> set xs" for x and xs :: "nat option list"
    using that by (auto simp: insert_at_def dest: in_set_takeD in_set_dropD) (metis append_take_drop_id disjoint_iff distinct_append)
  have "Some p \<notin> set (items c)" "Some p \<notin> set (spares c)" using p(2) by (auto simp: set_slots)
  moreover have "distinct (filter (\<lambda>q. q \<noteq> None) sp)" using g(1,3) by (auto simp: children_ok_def split: if_splits)
  ultimately show ?thesis
    using g p(1) k l set_ins dist_ins
    unfolding children_ok_def by (auto simp: put_last_def put_at_def)
qed

lemma put_ok:
  assumes "grown c q c'" and "p \<in> dom (objs c)" and "Some p \<notin> set (slots c)" and "k \<le> used c"
  shows "children_ok (put_last p c') \<and> items (put_last p c') = items c @ [Some p]
    \<and> children_ok (put_at k p c') \<and> items (put_at k p c') = insert_at k (Some p) (items c)"
proof -
  obtain qs where g: "children_ok c'" "used c' < length (slots c')" "spares c' = Some q # qs" "p \<in> dom (objs c')"
    "Some p \<notin> set (slots c')" "k \<le> used c'" "items c' = items c"
    using assms unfolding grown_def by (metis subsetD)
  show ?thesis using put_spare_ok [OF g(1-6)] g(7) by simp
qed

text \<open>Freeing the spare object first: the entry dangles only until it is overwritten.\<close>

definition forget :: "nat option \<Rightarrow> 'd children \<Rightarrow> 'd children" where
  "forget q c = (case q of None \<Rightarrow> c | Some r \<Rightarrow> c\<lparr>objs := (objs c)(r := None)\<rparr>)"

lemma forget_simps [simp]: "slots (forget q c) = slots c" "used (forget q c) = used c" "items (forget q c) = items c"
  "spares (forget q c) = spares c" "fault (forget q c) = fault c" "next_addr (forget q c) = next_addr c"
  "dom (objs (forget q c)) = dom (objs c) - {r. q = Some r}"
  by (auto simp: forget_def split: option.splits)

lemma forget_objs: "q \<noteq> Some r \<Longrightarrow> objs (forget q c) r = objs c r"
  by (auto simp: forget_def split: option.splits)

lemma free_spare_put:
  assumes g: "children_ok c" "used c < length (slots c)"
    and p: "p \<in> dom (objs c)" "Some p \<notin> set (slots c)" and k: "k \<le> used c"
  shows "heap_free (slots c ! used c) c = forget (slots c ! used c) c
    \<and> children_ok (put_last p (forget (slots c ! used c) c)) \<and> items (put_last p (forget (slots c ! used c) c)) = items c @ [Some p]
    \<and> children_ok (put_at k p (forget (slots c ! used c) c))
    \<and> items (put_at k p (forget (slots c ! used c) c)) = insert_at k (Some p) (items c)"
proof -
  let ?s = "slots c ! used c"
  obtain sp where sp: "spares c = ?s # sp" using g(2) by (simp add: spares_def Cons_nth_drop_Suc [symmetric])
  note r = put_spare_ok [OF g sp p k]
  have live: "?s = Some q \<Longrightarrow> q \<in> dom (objs c)" for q using g(1) sp by (auto simp: children_ok_def)
  have out: "Some q \<notin> set (items c)" "Some q \<notin> set sp" "q \<noteq> p" if "?s = Some q" for q
    using that g sp p(2) unfolding children_ok_def set_slots [of c] by auto
  have fr: "heap_free ?s c = forget ?s c" using live by (auto simp: heap_free_def forget_def split: option.split)
  have ok: "children_ok (forget ?s c')" if "children_ok c'" "\<And>q. ?s = Some q \<Longrightarrow> Some q \<notin> set (items c') \<and> Some q \<notin> set (spares c')" for c' :: "'a children"
    using that children_ok_free [of c'] by (auto simp: forget_def split: option.split)
  have commute: "put_last p (forget ?s c) = forget ?s (put_last p c)" "put_at k p (forget ?s c) = forget ?s (put_at k p c)"
    by (cases c; auto simp: forget_def put_last_def put_at_def split: option.split)+
  have si: "set (insert_at k x xs) = insert x (set xs)" for x and xs :: "nat option list"
    by (metis mset_insert_at set_mset_add_mset_insert set_mset_mset)
  have "children_ok (forget ?s (put_last p c))" by (rule ok) (use r out in auto)
  moreover have "children_ok (forget ?s (put_at k p c))" by (rule ok) (use r out si in auto)
  ultimately show ?thesis using r fr commute by simp
qed

lemma take_out_ok:
  assumes "children_ok c" and "k < used c"
  shows "children_ok (take_out k c) \<and> items (take_out k c) = remove_at k (items c)"
proof -
  have u: "used c \<le> length (slots c)" using assms(1) by (simp add: children_ok_def)
  have sub: "set (remove_at k xs) \<subseteq> set xs" for xs :: "nat option list"
    by (auto simp: remove_at_def dest: in_set_takeD in_set_dropD)
  have "distinct (remove_at k xs)" if "distinct xs" for xs :: "nat option list"
    using that set_take_disj_set_drop_if_distinct [OF that, of k "Suc k"] by (simp add: remove_at_def)
  then show ?thesis
    using assms sub [of "items c"] take_out_items [OF u assms(2)] unfolding children_ok_def
    by (auto simp: take_out_def)
qed

section \<open>The interface of an ordered array of children\<close>

text \<open>
  Inserting returns the index, or -1 with the children unchanged; a negative index means the
  end. Removing returns the child. \<open>fits\<close> says when an object may be inserted: it is live and
  not in the array yet.
\<close>

locale ordered_children =
  fixes ok :: "'c \<Rightarrow> bool"
    and kids :: "'c \<Rightarrow> nat option list"
    and fits :: "'c \<Rightarrow> nat \<Rightarrow> bool"
    and ins :: "'c \<Rightarrow> nat \<Rightarrow> int \<Rightarrow> int \<times> 'c"
    and rem :: "'c \<Rightarrow> int \<Rightarrow> nat option \<times> 'c"
  assumes ins_end: "ok c \<Longrightarrow> fits c p \<Longrightarrow> i < 0 \<Longrightarrow>
      fst (ins c p i) = int (length (kids c)) \<and> kids (snd (ins c p i)) = kids c @ [Some p] \<and> ok (snd (ins c p i))"
    and ins_mid: "ok c \<Longrightarrow> fits c p \<Longrightarrow> 0 \<le> i \<Longrightarrow> i < int (length (kids c)) \<Longrightarrow>
      fst (ins c p i) = i \<and> kids (snd (ins c p i)) = insert_at (nat i) (Some p) (kids c) \<and> ok (snd (ins c p i))"
    and ins_bad: "ok c \<Longrightarrow> fits c p \<Longrightarrow> int (length (kids c)) \<le> i \<Longrightarrow>
      fst (ins c p i) = -1 \<and> kids (snd (ins c p i)) = kids c"
    and rem_ok: "ok c \<Longrightarrow> 0 \<le> i \<Longrightarrow> i < int (length (kids c)) \<Longrightarrow>
      fst (rem c i) = kids c ! nat i \<and> kids (snd (rem c i)) = remove_at (nat i) (kids c) \<and> ok (snd (rem c i))"
    and rem_bad: "ok c \<Longrightarrow> i < 0 \<or> int (length (kids c)) \<le> i \<Longrightarrow> rem c i = (None, c)"
begin

text \<open>Removing what was just inserted gives back the object and the old sequence.\<close>

lemma insert_remove:
  assumes "ok c" and "fits c p" and "i < int (length (kids c))"
  shows "fst (rem (snd (ins c p i)) (fst (ins c p i))) = Some p
    \<and> kids (snd (rem (snd (ins c p i)) (fst (ins c p i)))) = kids c
    \<and> ok (snd (rem (snd (ins c p i)) (fst (ins c p i))))"
proof (cases "i < 0")
  case True
  note e = ins_end [OF assms(1,2) True]
  have "remove_at (length xs) (xs @ [x]) = xs" for x and xs :: "nat option list" by (simp add: remove_at_def)
  then show ?thesis using rem_ok [of "snd (ins c p i)" "fst (ins c p i)"] e by simp
next
  case False
  then have i: "0 \<le> i" by simp
  note e = ins_mid [OF assms(1,2) i assms(3)]
  show ?thesis using rem_ok [of "snd (ins c p i)" "fst (ins c p i)"] e i assms(3) by simp
qed

lemma insert_permutes:
  assumes "ok c" and "fits c p" and "i < int (length (kids c))"
  shows "mset (kids (snd (ins c p i))) = add_mset (Some p) (mset (kids c))"
  using ins_end [OF assms(1,2)] ins_mid [OF assms(1,2) _ assms(3)] by (cases "i < 0") auto

end

end
