(* ===== verification/ClassObject.thy ===== *)
theory ClassObject
  imports ChildArrays
begin

text \<open>
  \<^verbatim>\<open>classobject.c\<close> and the growing functions of \<^verbatim>\<open>mapfile.c\<close> it calls: the styles and the labels
  of a class. The state of each is the array with its count and the heap of its objects. The
  fields of a style are split into those that \<open>msCopyStyle\<close> (\<^verbatim>\<open>mapcopy.c\<close>) copies, kept
  abstract, and the polar offset, which it does not copy.
\<close>

section \<open>Styles\<close>

record 's styleData =
  copied :: 's
  polaroffset :: "64 word \<times> 64 word"

type_synonym 's styles = "'s styleData children"

definition msGrowClassStyles :: "'s styleData \<Rightarrow> 's styles \<Rightarrow> 's styles" where
  "msGrowClassStyles zeroed c = grow 4 zeroed c"

definition msCopyStyle :: "'s styleData obj \<Rightarrow> 's styleData obj \<Rightarrow> 's styleData obj" where
  "msCopyStyle dst src = dst\<lparr>payload := (payload dst)\<lparr>copied := copied (payload src)\<rparr>\<rparr>"

text \<open>\<open>freeStyle\<close>: drops a reference; true when it was the last one and the contents are gone.\<close>

definition freeStyle :: "nat \<Rightarrow> 's styles \<Rightarrow> bool \<times> 's styles" where
  "freeStyle p c =
     (let c' = change p (refcnt_add (-1)) c in
      (case objs c' p of None \<Rightarrow> True | Some v \<Rightarrow> \<not> 0 < refcount v, c'))"

definition copy_at :: "nat option \<Rightarrow> nat option \<Rightarrow> 's styles \<Rightarrow> 's styles" where
  "copy_at d s c =
     (case (d, s) of
        (Some dp, Some sp) \<Rightarrow>
          (case objs c sp of None \<Rightarrow> c\<lparr>fault := True\<rparr> | Some v \<Rightarrow> change dp (\<lambda>w. msCopyStyle w v) c)
      | _ \<Rightarrow> c\<lparr>fault := True\<rparr>)"

text \<open>The exchange through a temporary style, which is never freed. \<open>inited\<close> is what
  \<open>initStyle\<close> sets.\<close>

definition exchange_styles :: "'s styleData \<Rightarrow> 's styles \<Rightarrow> nat \<Rightarrow> nat \<Rightarrow> 's styles" where
  "exchange_styles inited c i j =
     (let (tmp, c0) = heap_alloc \<lparr>refcount = 1, payload = inited\<rparr> c;
          c1 = copy_at (Some tmp) (slots c ! i) c0;
          c2 = copy_at (slots c ! i) (slots c ! j) c1
      in copy_at (slots c ! j) (Some tmp) c2)"

definition msMoveStyleUp :: "'s styleData \<Rightarrow> 's styles \<Rightarrow> int \<Rightarrow> ms_return \<times> 's styles \<times> report list" where
  "msMoveStyleUp inited c i =
     (if i < int (used c) \<and> 0 < i then (MS_SUCCESS, exchange_styles inited c (nat i) (nat i - 1), [])
      else (MS_FAILURE, c, [Report MS_CHILDERR ''Invalid index: %d'' ''msMoveStyleUp()'']))"

definition msMoveStyleDown :: "'s styleData \<Rightarrow> 's styles \<Rightarrow> int \<Rightarrow> ms_return \<times> 's styles \<times> report list" where
  "msMoveStyleDown inited c i =
     (if i < int (used c) - 1 \<and> 0 \<le> i then (MS_SUCCESS, exchange_styles inited c (nat i) (nat i + 1), [])
      else (MS_FAILURE, c, [Report MS_CHILDERR ''Invalid index: %d'' ''msMoveStyleDown()'']))"

definition msInsertStyle ::
    "'s styleData \<Rightarrow> 's styles \<Rightarrow> nat option \<Rightarrow> int \<Rightarrow> int \<times> 's styles \<times> report list" where
  "msInsertStyle zeroed c style nStyleIndex =
     (case style of
        None \<Rightarrow> (-1, c, [Report MS_CHILDERR ''Can't insert a NULL Style'' ''msInsertStyle()''])
      | Some p \<Rightarrow>
          (let g = msGrowClassStyles zeroed c in
           if int (used g) \<le> nStyleIndex then
             (-1, g, [Report MS_CHILDERR ''Cannot insert style beyond index %d'' ''insertStyle()''])
           else if nStyleIndex < 0 then
             (int (used g), change p (refcnt_add 1) (put_last p g), [])
           else (nStyleIndex, change p (refcnt_add 1) (put_at (nat nStyleIndex) p g), [])))"

definition msRemoveStyle :: "'s styles \<Rightarrow> int \<Rightarrow> nat option \<times> 's styles \<times> report list" where
  "msRemoveStyle c nStyleIndex =
     (if nStyleIndex < 0 \<or> int (used c) \<le> nStyleIndex then
        (None, c, [Report MS_CHILDERR ''Cannot remove style, invalid nStyleIndex %d'' ''removeStyle()''])
      else
        (let style = slots c ! nat nStyleIndex; c' = take_out (nat nStyleIndex) c in
         (style, (case style of None \<Rightarrow> c'\<lparr>fault := True\<rparr> | Some p \<Rightarrow> change p (refcnt_add (-1)) c'), [])))"

definition msDeleteStyle :: "'s styles \<Rightarrow> int \<Rightarrow> ms_return \<times> 's styles \<times> report list" where
  "msDeleteStyle c nStyleIndex =
     (if nStyleIndex < int (used c) \<and> 0 \<le> nStyleIndex then
        (case slots c ! nat nStyleIndex of
           None \<Rightarrow> (MS_SUCCESS, c\<lparr>fault := True\<rparr>, [])
         | Some p \<Rightarrow>
             (let (last, c1) = freeStyle p c;
                  c2 = (if last then heap_free (Some p) c1 else c1)
              in (MS_SUCCESS, take_out (nat nStyleIndex) c2, [])))
      else (MS_FAILURE, c, [Report MS_CHILDERR ''Invalid index: %d'' ''msDeleteStyle()'']))"

section \<open>Labels\<close>

definition msGrowClassLabels :: "'l \<Rightarrow> 'l children \<Rightarrow> 'l children" where
  "msGrowClassLabels zeroed c = grow 2 zeroed c"

text \<open>The spare label that growing put in the entry is freed before the entry is overwritten.\<close>

definition msAddLabelToClass :: "'l \<Rightarrow> 'l children \<Rightarrow> nat option \<Rightarrow> ms_return \<times> 'l children \<times> report list" where
  "msAddLabelToClass zeroed c label =
     (case label of
        None \<Rightarrow> (MS_FAILURE, c, [Report MS_CHILDERR ''Can't add a NULL label.'' ''msAddLabelToClass()''])
      | Some p \<Rightarrow>
          (let g = msGrowClassLabels zeroed c;
               g' = heap_free (slots g ! used g) g
           in (MS_SUCCESS, change p (refcnt_add 1) (put_last p g'), [])))"

definition msRemoveLabelFromClass :: "'l children \<Rightarrow> int \<Rightarrow> nat option \<times> 'l children \<times> report list" where
  "msRemoveLabelFromClass c nLabelIndex =
     (if nLabelIndex < 0 \<or> int (used c) \<le> nLabelIndex then
        (None, c, [Report MS_CHILDERR ''Cannot remove label, invalid index %d'' ''msRemoveLabelFromClass()''])
      else
        (let label = slots c ! nat nLabelIndex; c' = take_out (nat nLabelIndex) c in
         (label, (case label of None \<Rightarrow> c'\<lparr>fault := True\<rparr> | Some p \<Rightarrow> change p (refcnt_add (-1)) c'), [])))"

section \<open>Styles as ordered children\<close>

definition fits_in :: "'d children \<Rightarrow> nat \<Rightarrow> bool" where
  "fits_in c p \<longleftrightarrow> p \<in> dom (objs c) \<and> Some p \<notin> set (slots c)"

lemma item_at:
  assumes "children_ok c" and "i < used c"
  shows "\<exists>p. slots c ! i = Some p \<and> p \<in> dom (objs c) \<and> items c ! i = Some p"
proof -
  have u: "used c \<le> length (slots c)" using assms(1) by (simp add: children_ok_def)
  then have "items c ! i \<in> set (items c)" using assms(2) by (intro nth_mem) simp
  moreover have "items c ! i = slots c ! i" using assms(2) by (simp add: items_def)
  ultimately show ?thesis using assms(1) unfolding children_ok_def by (cases "slots c ! i") auto
qed

lemma put_dom [simp]: "objs (put_last p c) = objs c" "objs (put_at k p c) = objs c" "objs (take_out k c) = objs c"
  "next_addr (put_last p c) = next_addr c" "fault (put_last p c) = fault c"
  by (simp_all add: put_last_def put_at_def take_out_def)

text \<open>The parts of insertion and removal that styles and classes share.\<close>

lemma insert_child_ok:
  assumes "children_ok c" and "fits_in c p" and "0 < n" and "k \<le> used c"
  shows "used (grow n z c) = used c
    \<and> children_ok (change p f (put_last p (grow n z c)))
    \<and> items (change p f (put_last p (grow n z c))) = items c @ [Some p]
    \<and> children_ok (change p f (put_at k p (grow n z c)))
    \<and> items (change p f (put_at k p (grow n z c))) = insert_at k (Some p) (items c)"
proof -
  obtain q where g: "grown c q (grow n z c)" using grow_ok [OF assms(1,3)] by blast
  then have "used (grow n z c) = used c" "p \<in> dom (objs (grow n z c))"
    using assms(2) by (auto simp: grown_def fits_in_def)
  then show ?thesis
    using put_ok [OF g, of p k] assms(2,4) children_ok_change [of _ p f] by (simp add: fits_in_def)
qed

lemma remove_child_ok:
  assumes "children_ok c" and "k < used c"
  shows "\<exists>p. slots c ! k = Some p \<and> items c ! k = Some p \<and> children_ok (change p f (take_out k c))
    \<and> items (change p f (take_out k c)) = remove_at k (items c)"
  using item_at [OF assms] take_out_ok [OF assms] children_ok_change [of "take_out k c" _ f] by auto

lemma insert_style_cases:
  assumes ok: "children_ok c" and fit: "fits_in c p"
  shows "i < 0 \<Longrightarrow> \<exists>c'. msInsertStyle z c (Some p) i = (int (used c), c', []) \<and> children_ok c' \<and> items c' = items c @ [Some p]"
    and "0 \<le> i \<Longrightarrow> i < int (used c) \<Longrightarrow>
      \<exists>c'. msInsertStyle z c (Some p) i = (i, c', []) \<and> children_ok c' \<and> items c' = insert_at (nat i) (Some p) (items c)"
    and "int (used c) \<le> i \<Longrightarrow>
      \<exists>c' e. msInsertStyle z c (Some p) i = (-1, c', [e]) \<and> children_ok c' \<and> items c' = items c"
  using insert_child_ok [OF ok fit, of 4 "nat i" z "refcnt_add 1"] grow_ok [OF ok, of 4 z]
  by (auto simp: msInsertStyle_def msGrowClassStyles_def Let_def grown_def)

lemma remove_style_ok:
  assumes "children_ok c" and "0 \<le> i" and "i < int (used c)"
  shows "\<exists>c'. msRemoveStyle c i = (items c ! nat i, c', []) \<and> children_ok c' \<and> items c' = remove_at (nat i) (items c)"
proof -
  have "nat i < used c" using assms(2,3) by linarith
  then show ?thesis
    using remove_child_ok [OF assms(1), of "nat i" "refcnt_add (-1)"] assms(2,3) by (auto simp: msRemoveStyle_def Let_def)
qed

interpretation styles: ordered_children children_ok items fits_in
  "\<lambda>c p i. no_reports (msInsertStyle z c (Some p) i)" "\<lambda>c i. no_reports (msRemoveStyle c i)"
  for z :: "'s styleData"
proof
  fix c :: "'s styles" and p :: nat and i :: int
  assume ok: "children_ok c"
  then have len: "length (items c) = used c" by (simp add: children_ok_def)
  let ?ins = "no_reports (msInsertStyle z c (Some p) i)"
  show "fits_in c p \<Longrightarrow> i < 0 \<Longrightarrow>
      fst ?ins = int (length (items c)) \<and> items (snd ?ins) = items c @ [Some p] \<and> children_ok (snd ?ins)"
    using insert_style_cases(1) [OF ok, of p i z] len by auto
  show "fits_in c p \<Longrightarrow> 0 \<le> i \<Longrightarrow> i < int (length (items c)) \<Longrightarrow>
      fst ?ins = i \<and> items (snd ?ins) = insert_at (nat i) (Some p) (items c) \<and> children_ok (snd ?ins)"
    using insert_style_cases(2) [OF ok, of p i z] len by auto
  show "fits_in c p \<Longrightarrow> int (length (items c)) \<le> i \<Longrightarrow> fst ?ins = -1 \<and> items (snd ?ins) = items c"
    using insert_style_cases(3) [OF ok, of p i z] len by auto
  show "0 \<le> i \<Longrightarrow> i < int (length (items c)) \<Longrightarrow> fst (no_reports (msRemoveStyle c i)) = items c ! nat i
      \<and> items (snd (no_reports (msRemoveStyle c i))) = remove_at (nat i) (items c)
      \<and> children_ok (snd (no_reports (msRemoveStyle c i)))"
    using remove_style_ok [OF ok, of i] len by auto
  show "i < 0 \<or> int (length (items c)) \<le> i \<Longrightarrow> no_reports (msRemoveStyle c i) = (None, c)"
    using len by (simp add: msRemoveStyle_def)
qed

section \<open>Moving, deleting, labels\<close>

lemma children_ok_alloc:
  assumes "children_ok c"
  shows "children_ok (snd (heap_alloc v c)) \<and> items (snd (heap_alloc v c)) = items c
    \<and> slots (snd (heap_alloc v c)) = slots c \<and> used (snd (heap_alloc v c)) = used c"
  using assms unfolding heap_alloc_def children_ok_def items_def spares_def by auto (metis domI less_SucI)

lemma copy_at_ok:
  assumes "children_ok c" and "objs c dp = Some x" and "objs c sp = Some v"
  shows "children_ok (copy_at (Some dp) (Some sp) c) \<and> items (copy_at (Some dp) (Some sp) c) = items c
    \<and> objs (copy_at (Some dp) (Some sp) c) = (objs c)(dp \<mapsto> msCopyStyle x v)"
  using children_ok_change [OF assms(1), of dp "\<lambda>w. msCopyStyle w v"] assms(2,3)
  by (auto simp: copy_at_def change_def dom_def)

text \<open>The exchange of two styles exchanges what is copied and leaves the polar offsets.\<close>

lemma exchange_styles_objs:
  assumes ok: "children_ok c" and i: "i < used c" and j: "j < used c" and ne: "i \<noteq> j"
    and p: "slots c ! i = Some p" "slots c ! j = Some q" "objs c p = Some v" "objs c q = Some w"
  shows "children_ok (exchange_styles inited c i j) \<and> items (exchange_styles inited c i j) = items c
    \<and> objs (exchange_styles inited c i j) = (objs c)(next_addr c \<mapsto> msCopyStyle \<lparr>refcount = 1, payload = inited\<rparr> v,
        p \<mapsto> msCopyStyle v w, q \<mapsto> msCopyStyle w v)"
proof -
  let ?t = "next_addr c" and ?c0 = "snd (heap_alloc \<lparr>refcount = 1, payload = inited\<rparr> c)"
  have c0: "children_ok ?c0" "items ?c0 = items c" "slots ?c0 = slots c"
    "objs ?c0 = (objs c)(?t \<mapsto> \<lparr>refcount = 1, payload = inited\<rparr>)"
    using children_ok_alloc [OF ok] by (auto simp: heap_alloc_def)
  have "items c ! i = Some p" "items c ! j = Some q" using i j p by (simp_all add: items_def)
  moreover have "length (items c) = used c" "distinct (items c)" using ok by (simp_all add: children_ok_def)
  ultimately have pq: "p \<noteq> q" using i j ne by (metis nth_eq_iff_index_eq)
  have t: "?t \<noteq> p" "?t \<noteq> q" using ok p(3,4) by (auto simp: children_ok_def)
  define c1 where "c1 = copy_at (Some ?t) (Some p) ?c0"
  have c1: "children_ok c1" "items c1 = items c" "objs c1 = (objs c)(?t \<mapsto> msCopyStyle \<lparr>refcount = 1, payload = inited\<rparr> v)"
    using copy_at_ok [OF c0(1), of ?t _ p] c0 p t by (auto simp: c1_def)
  define c2 where "c2 = copy_at (Some p) (Some q) c1"
  have c2: "children_ok c2" "items c2 = items c" "objs c2 = (objs c1)(p \<mapsto> msCopyStyle v w)"
    using copy_at_ok [OF c1(1), of p _ q] c1 p t by (auto simp: c2_def)
  define c3 where "c3 = copy_at (Some q) (Some ?t) c2"
  have "children_ok c3" "items c3 = items c" "objs c3 = (objs c2)(q \<mapsto> msCopyStyle w v)"
    using copy_at_ok [OF c2(1), of q _ ?t] c1 c2 p t pq by (auto simp: c3_def msCopyStyle_def)
  moreover have "exchange_styles inited c i j = c3"
    by (simp add: exchange_styles_def p c1_def c2_def c3_def heap_alloc_def Let_def)
  ultimately show ?thesis using c1(3) c2(3) by simp
qed

lemma free_out_ok:
  assumes ok: "children_ok c" and k: "k < used c" and p: "slots c ! k = Some p"
  shows "children_ok (take_out k (heap_free (Some p) c)) \<and> items (take_out k (heap_free (Some p) c)) = remove_at k (items c)
    \<and> dom (objs (take_out k (heap_free (Some p) c))) = dom (objs c) - {p}"
proof -
  have u: "used c \<le> length (slots c)" using ok by (simp add: children_ok_def)
  have it: "p \<in> dom (objs c)" "items c ! k = Some p" using item_at [OF ok k] p by auto
  let ?c = "c\<lparr>objs := (objs c)(p := None)\<rparr>"
  have f: "heap_free (Some p) c = ?c" using it by (auto simp: heap_free_def)
  have t: "items (take_out k ?c) = remove_at k (items c)" "spares (take_out k ?c) = None # spares c"
    using take_out_items [of ?c k] u k by (simp_all add: items_def spares_def)
  have "Some p \<notin> set (remove_at k (items c))"
    using remove_at_distinct(2) [of "items c" k] ok it k u by (simp add: children_ok_def)
  moreover have "Some p \<notin> set (spares c)" using ok it k u by (metis children_ok_def disjoint_iff length_items nth_mem)
  ultimately have "children_ok ((take_out k c)\<lparr>objs := (objs (take_out k c))(p := None)\<rparr>)"
    using take_out_ok [OF ok k] take_out_items [OF u k] by (intro children_ok_free) auto
  then have "children_ok (take_out k ?c)" by (cases c) (simp add: take_out_def)
  then show ?thesis using f t by auto
qed

section \<open>Properties\<close>

text \<open>On a well-formed class, inserting a style puts it at the given index (at the end for a
  negative one), keeps the order of the others and returns the index; an index past the end
  is refused with the styles unchanged; removing the style that was just inserted returns
  it and restores the sequence.\<close>

theorem style_insert_remove:
  assumes "children_ok c" and "fits_in c p"
  shows "(i < 0 \<longrightarrow> (\<exists>c'. msInsertStyle z c (Some p) i = (int (used c), c', []) \<and> children_ok c'
            \<and> items c' = items c @ [Some p]))
    \<and> (0 \<le> i \<and> i < int (used c) \<longrightarrow> (\<exists>c'. msInsertStyle z c (Some p) i = (i, c', []) \<and> children_ok c'
            \<and> items c' = insert_at (nat i) (Some p) (items c)))
    \<and> (int (used c) \<le> i \<longrightarrow> (\<exists>c' e. msInsertStyle z c (Some p) i = (-1, c', [e]) \<and> children_ok c' \<and> items c' = items c))
    \<and> (i < int (used c) \<longrightarrow> (\<exists>k c' c''. no_reports (msInsertStyle z c (Some p) i) = (k, c')
            \<and> no_reports (msRemoveStyle c' k) = (Some p, c'') \<and> items c'' = items c \<and> children_ok c''))"
proof -
  have "length (items c) = used c" using assms(1) by (simp add: children_ok_def)
  then have "i < int (used c) \<longrightarrow> (\<exists>k c' c''. no_reports (msInsertStyle z c (Some p) i) = (k, c')
            \<and> no_reports (msRemoveStyle c' k) = (Some p, c'') \<and> items c'' = items c \<and> children_ok c'')"
    using styles.insert_remove [OF assms, of i z] by (metis prod.collapse)
  then show ?thesis using insert_style_cases [OF assms, of i z] by blast
qed

definition sample_styles :: "nat styles" where
  "sample_styles = \<lparr>slots = [Some 0, None], used = 1,
     objs = [0 \<mapsto> \<lparr>refcount = 1, payload = \<lparr>copied = 5, polaroffset = (1, 1)\<rparr>\<rparr>,
             1 \<mapsto> \<lparr>refcount = 1, payload = \<lparr>copied = 6, polaroffset = (2, 2)\<rparr>\<rparr>], next_addr = 2, fault = False\<rparr>"

lemma sample_styles_ok: "children_ok sample_styles \<and> fits_in sample_styles 1"
  by (auto simp: sample_styles_def children_ok_def fits_in_def items_def spares_def split: if_splits)

theorem style_insert_remove_witness:
  "\<exists>c'. msInsertStyle \<lparr>copied = 0, polaroffset = (0, 0)\<rparr> sample_styles (Some 1) 0 = (0, c', [])
     \<and> items c' = [Some 1, Some 0]"
proof -
  have "used sample_styles = 1" "items sample_styles = [Some 0]" by (simp_all add: sample_styles_def items_def)
  then show ?thesis
    using style_insert_remove [of sample_styles 1 0 "\<lparr>copied = 0, polaroffset = (0, 0)\<rparr>"] sample_styles_ok
    by (auto simp: insert_at_def)
qed

text \<open>Moving a style up exchanges it with its neighbour in everything that \<open>msCopyStyle\<close> copies;
  but each place keeps its own polar offset, so that the moved style draws with the offset
  of the other one.\<close>

theorem style_move_up:
  assumes "children_ok c" and "0 < i" and "i < int (used c)"
    and "slots c ! nat i = Some p" and "slots c ! (nat i - 1) = Some q"
    and "objs c p = Some v" and "objs c q = Some w"
  shows "\<exists>c'. msMoveStyleUp inited c i = (MS_SUCCESS, c', []) \<and> children_ok c' \<and> items c' = items c
    \<and> (\<exists>v' w'. objs c' p = Some v' \<and> objs c' q = Some w'
        \<and> copied (payload v') = copied (payload w) \<and> copied (payload w') = copied (payload v)
        \<and> polaroffset (payload v') = polaroffset (payload v) \<and> polaroffset (payload w') = polaroffset (payload w))"
proof -
  have ij: "nat i < used c" "nat i - 1 < used c" "nat i \<noteq> nat i - 1" using assms(2,3) by linarith+
  note e = exchange_styles_objs [OF assms(1) ij assms(4-7), of inited]
  have "p \<noteq> q"
  proof -
    have "items c ! nat i = Some p" "items c ! (nat i - 1) = Some q" using ij assms(4,5) by (simp_all add: items_def)
    moreover have "length (items c) = used c" "distinct (items c)" using assms(1) by (simp_all add: children_ok_def)
    ultimately show ?thesis using ij by (metis nth_eq_iff_index_eq)
  qed
  then show ?thesis using e assms(2,3) by (simp add: msMoveStyleUp_def msCopyStyle_def)
qed

theorem style_move_up_witness:
  "\<exists>c'. msMoveStyleUp \<lparr>copied = 0, polaroffset = (0, 0)\<rparr> (sample_styles\<lparr>slots := [Some 0, Some 1], used := 2\<rparr>) 1
     = (MS_SUCCESS, c', [])"
proof -
  have "children_ok (sample_styles\<lparr>slots := [Some 0, Some 1], used := 2\<rparr>)"
    by (auto simp: sample_styles_def children_ok_def items_def spares_def split: if_splits)
  then show ?thesis
    using style_move_up [of "sample_styles\<lparr>slots := [Some 0, Some 1], used := 2\<rparr>" 1 1 0
        "\<lparr>refcount = 1, payload = \<lparr>copied = 6, polaroffset = (2, 2)\<rparr>\<rparr>"
        "\<lparr>refcount = 1, payload = \<lparr>copied = 5, polaroffset = (1, 1)\<rparr>\<rparr>" "\<lparr>copied = 0, polaroffset = (0, 0)\<rparr>"]
    by (auto simp: sample_styles_def)
qed

text \<open>Deleting a style removes it from the sequence, frees the object exactly when the class
  held its last reference, and otherwise leaves the object alive with one reference less; no
  other object is freed.\<close>

theorem style_delete:
  assumes "children_ok c" and "0 \<le> i" and "i < int (used c)" and "slots c ! nat i = Some p" and "objs c p = Some v"
  shows "\<exists>c'. msDeleteStyle c i = (MS_SUCCESS, c', []) \<and> children_ok c' \<and> items c' = remove_at (nat i) (items c)
    \<and> objs c' p = (if 1 < refcount v then Some (v\<lparr>refcount := refcount v - 1\<rparr>) else None)
    \<and> (\<forall>r. r \<noteq> p \<longrightarrow> objs c' r = objs c r)"
proof -
  let ?c1 = "change p (refcnt_add (-1)) c"
  have i: "nat i < used c" using assms(2,3) by linarith
  have ok1: "children_ok ?c1" using children_ok_change [OF assms(1)] assms(5) by auto
  have o1: "objs ?c1 = (objs c)(p \<mapsto> v\<lparr>refcount := refcount v - 1\<rparr>)"
    using assms(5) by (simp add: change_def refcnt_add_def)
  show ?thesis
  proof (cases "1 < refcount v")
    case True
    then have "msDeleteStyle c i = (MS_SUCCESS, take_out (nat i) ?c1, [])"
      using assms(2-4) o1 by (simp add: msDeleteStyle_def freeStyle_def Let_def)
    then show ?thesis using take_out_ok [OF ok1, of "nat i"] i True o1 by simp
  next
    case False
    then have "msDeleteStyle c i = (MS_SUCCESS, take_out (nat i) (heap_free (Some p) ?c1), [])"
      using assms(2-4) o1 by (simp add: msDeleteStyle_def freeStyle_def Let_def)
    moreover have "objs (heap_free (Some p) ?c1) = (objs c)(p := None)" using o1 by (simp add: heap_free_def)
    ultimately show ?thesis using free_out_ok [OF ok1, of "nat i" p] i assms(4) False by simp
  qed
qed

theorem style_delete_witness:
  "\<exists>c'. msDeleteStyle sample_styles 0 = (MS_SUCCESS, c', []) \<and> items c' = []"
proof -
  have "used sample_styles = 1" "items sample_styles = [Some 0]" by (simp_all add: sample_styles_def items_def)
  then show ?thesis
    using style_delete [of sample_styles 0 0 "\<lparr>refcount = 1, payload = \<lparr>copied = 5, polaroffset = (1, 1)\<rparr>\<rparr>"] sample_styles_ok
    by (auto simp: sample_styles_def remove_at_def)
qed

text \<open>Adding a label puts it last, keeps the class well formed and frees the spare label
  that growing allocated, so that no object stays allocated without a reference.\<close>

theorem label_add:
  assumes "children_ok c" and "fits_in c p"
  shows "\<exists>c'. msAddLabelToClass z c (Some p) = (MS_SUCCESS, c', []) \<and> children_ok c'
    \<and> items c' = items c @ [Some p] \<and> dom (objs c') \<subseteq> dom (objs c)
    \<and> (\<forall>q. Some q \<in> set (items c) \<longrightarrow> objs c' q = objs c q)"
proof -
  let ?g = "grow 2 z c"
  obtain q where g: "grown c q ?g" using grow_ok [OF assms(1), of 2] by auto
  obtain qs where sp: "spares ?g = Some q # qs" and u: "used ?g < length (slots ?g)" and ok: "children_ok ?g"
    and it: "items ?g = items c" and o: "\<And>r. r \<in> dom (objs c) \<Longrightarrow> objs ?g r = objs c r"
    "dom (objs ?g) \<subseteq> insert q (dom (objs c))" "dom (objs c) \<subseteq> dom (objs ?g)"
    using g unfolding grown_def by auto
  have s: "slots ?g ! used ?g = Some q" using sp u by (metis hd_drop_conv_nth list.sel(1) spares_def)
  have q: "q \<in> dom (objs ?g)" "Some q \<notin> set (items c)" "Some q \<notin> set qs"
    using ok sp it unfolding children_ok_def by auto
  have p: "p \<in> dom (objs c)" "p \<noteq> q" "Some p \<notin> set (slots c)"
    using assms(2) g sp unfolding grown_def fits_in_def set_slots [of ?g] by auto
  let ?l = "put_last p ?g"
  have l: "children_ok ?l" "items ?l = items c @ [Some p]" using put_ok [OF g p(1,3), of 0] by auto
  have "spares ?l = qs" using put_last_items [OF u sp] by simp
  then have free: "children_ok (?l\<lparr>objs := (objs ?l)(q := None)\<rparr>)"
    using children_ok_free [OF l(1), of q] l(2) q p(2) by auto
  have "put_last p (heap_free (slots ?g ! used ?g) ?g) = ?l\<lparr>objs := (objs ?l)(q := None)\<rparr>"
    using s q(1) by (cases ?g) (auto simp: put_last_def heap_free_def)
  then have "msAddLabelToClass z c (Some p)
      = (MS_SUCCESS, change p (refcnt_add 1) (?l\<lparr>objs := (objs ?l)(q := None)\<rparr>), [])"
    by (simp add: msAddLabelToClass_def msGrowClassLabels_def Let_def)
  moreover have "p \<in> dom (objs (?l\<lparr>objs := (objs ?l)(q := None)\<rparr>))" using p o by auto
  moreover have "objs (change p (refcnt_add 1) (?l\<lparr>objs := (objs ?l)(q := None)\<rparr>)) r = objs c r"
    if "Some r \<in> set (items c)" for r
  proof -
    have "r \<noteq> p" "r \<noteq> q" "r \<in> dom (objs c)"
      using that q p assms(1) unfolding children_ok_def set_slots [of c] by auto
    then show ?thesis using o(1) by (auto simp: change_def split: option.split)
  qed
  ultimately show ?thesis using children_ok_change [OF free, of p] l(2) o(2) by auto
qed

theorem label_add_witness:
  "\<exists>c'. msAddLabelToClass 0 \<lparr>slots = [], used = 0, objs = [0 \<mapsto> \<lparr>refcount = 1, payload = (5::nat)\<rparr>],
      next_addr = 1, fault = False\<rparr> (Some 0) = (MS_SUCCESS, c', []) \<and> items c' = [Some 0]"
  using label_add [of "\<lparr>slots = [], used = 0, objs = [0 \<mapsto> \<lparr>refcount = 1, payload = (5::nat)\<rparr>],
      next_addr = 1, fault = False\<rparr>" 0 0]
  by (auto simp: children_ok_def fits_in_def items_def spares_def split: if_splits)

end
