(* ===== verification/LayerObject.thy ===== *)
theory LayerObject
  imports ClassObject MapRect
begin

text \<open>
  \<^verbatim>\<open>layerobject.c\<close> and \<open>msGrowLayerClasses\<close> of \<^verbatim>\<open>mapfile.c\<close>: the classes of a layer, as an ordered
  array of counted objects with a pointer to their layer, and the extent of a layer.
\<close>

section \<open>Classes of a layer\<close>

record 'c classData =
  cdata :: 'c
  clayer :: "nat option"    \<comment> \<open>the layer that owns the class\<close>

type_synonym 'c classes = "'c classData children"

definition msGrowLayerClasses :: "'c classData \<Rightarrow> 'c classes \<Rightarrow> 'c classes" where
  "msGrowLayerClasses zeroed c = grow 8 zeroed c"

definition adopt :: "nat option \<Rightarrow> int \<Rightarrow> 'c classData obj \<Rightarrow> 'c classData obj" where
  "adopt l k v = (refcnt_add k v)\<lparr>payload := (payload v)\<lparr>clayer := l\<rparr>\<rparr>"

definition msInsertClass ::
    "'c classData \<Rightarrow> nat \<Rightarrow> 'c classes \<Rightarrow> nat option \<Rightarrow> int \<Rightarrow> int \<times> 'c classes \<times> report list" where
  "msInsertClass zeroed layer c classobj nIndex =
     (case classobj of
        None \<Rightarrow> (-1, c, [Report MS_CHILDERR ''Cannot insert NULL class'' ''msInsertClass()''])
      | Some p \<Rightarrow>
          (let g = msGrowLayerClasses zeroed c in
           if int (used g) \<le> nIndex then
             (-1, g, [Report MS_CHILDERR ''Cannot insert class beyond index %d'' ''msInsertClass()''])
           else if nIndex < 0 then
             (int (used g), change p (adopt (Some layer) 1) (put_last p g), [])
           else (nIndex, change p (adopt (Some layer) 1) (put_at (nat nIndex) p g), [])))"

definition msRemoveClass :: "'c classes \<Rightarrow> int \<Rightarrow> nat option \<times> 'c classes \<times> report list" where
  "msRemoveClass c nIndex =
     (if nIndex < 0 \<or> int (used c) \<le> nIndex then
        (None, c, [Report MS_CHILDERR ''Cannot remove class, invalid index %d'' ''removeClass()''])
      else
        (let classobj = slots c ! nat nIndex;
             c' = (case classobj of None \<Rightarrow> c\<lparr>fault := True\<rparr> | Some p \<Rightarrow> change p (adopt None (-1)) c)
         in (classobj, take_out (nat nIndex) c', [])))"

definition swap_slots :: "'c classes \<Rightarrow> nat \<Rightarrow> nat \<Rightarrow> 'c classes" where
  "swap_slots c i j = c\<lparr>slots := (slots c)[i := slots c ! j, j := slots c ! i]\<rparr>"

definition msMoveClassUp :: "'c classes \<Rightarrow> int \<Rightarrow> ms_return \<times> 'c classes \<times> report list" where
  "msMoveClassUp c i =
     (if i < int (used c) \<and> 0 < i then (MS_SUCCESS, swap_slots c (nat i) (nat i - 1), [])
      else (MS_FAILURE, c, [Report MS_CHILDERR ''Invalid index: %d'' ''msMoveClassUp()'']))"

definition msMoveClassDown :: "'c classes \<Rightarrow> int \<Rightarrow> ms_return \<times> 'c classes \<times> report list" where
  "msMoveClassDown c i =
     (if i < int (used c) - 1 \<and> 0 \<le> i then (MS_SUCCESS, swap_slots c (nat i) (nat i + 1), [])
      else (MS_FAILURE, c, [Report MS_CHILDERR ''Invalid index: %d'' ''msMoveClassDown()'']))"

section \<open>The extent of a layer\<close>

definition f64_eq :: "f64 \<Rightarrow> f64 \<Rightarrow> bool" where
  "f64_eq a b \<longleftrightarrow> f64_le a b \<and> f64_le b a"

definition MS_VALID_EXTENT :: "rectObj \<Rightarrow> bool" where
  "MS_VALID_EXTENT r \<longleftrightarrow> f64_lt (minx r) (maxx r) \<and> f64_lt (miny r) (maxy r)"

text \<open>The extent is stored before it is checked; -1 in all four places means none.\<close>

definition msLayerSetExtent :: "f64 \<Rightarrow> f64 \<Rightarrow> f64 \<Rightarrow> f64 \<Rightarrow> ms_return \<times> rectObj \<times> report list" where
  "msLayerSetExtent x0 y0 x1 y1 =
     (let extent = \<lparr>minx = x0, miny = y0, maxx = x1, maxy = y1\<rparr>; m1 = 0xBFF0000000000000 in
      if f64_eq x0 m1 \<and> f64_eq y0 m1 \<and> f64_eq x1 m1 \<and> f64_eq y1 m1 then (MS_SUCCESS, extent, [])
      else if \<not> MS_VALID_EXTENT extent then
        (MS_FAILURE, extent, [Report MS_MISCERR
           ''Given layer extent is invalid. minx=%lf, miny=%lf, maxx=%lf, maxy=%lf.'' ''msLayerSetExtent()''])
      else (MS_SUCCESS, extent, []))"

section \<open>Lemmas\<close>

lemma insert_class_cases:
  assumes ok: "children_ok c" and fit: "fits_in c p"
  shows "i < 0 \<Longrightarrow> \<exists>c'. msInsertClass z l c (Some p) i = (int (used c), c', []) \<and> children_ok c' \<and> items c' = items c @ [Some p]"
    and "0 \<le> i \<Longrightarrow> i < int (used c) \<Longrightarrow>
      \<exists>c'. msInsertClass z l c (Some p) i = (i, c', []) \<and> children_ok c' \<and> items c' = insert_at (nat i) (Some p) (items c)"
    and "int (used c) \<le> i \<Longrightarrow>
      \<exists>c' e. msInsertClass z l c (Some p) i = (-1, c', [e]) \<and> children_ok c' \<and> items c' = items c"
  using insert_child_ok [OF ok fit, of 8 "nat i" z "adopt (Some l) 1"] grow_ok [OF ok, of 8 z]
  by (auto simp: msInsertClass_def msGrowLayerClasses_def Let_def grown_def)

lemma remove_class_ok:
  assumes ok: "children_ok c" and i: "0 \<le> i" "i < int (used c)"
  shows "\<exists>p c'. msRemoveClass c i = (Some p, c', []) \<and> items c ! nat i = Some p \<and> children_ok c'
    \<and> items c' = remove_at (nat i) (items c) \<and> objs c' = objs (change p (adopt None (-1)) c)"
proof -
  have n: "nat i < used c" using i by linarith
  obtain p where p: "slots c ! nat i = Some p" "p \<in> dom (objs c)" "items c ! nat i = Some p"
    using item_at [OF ok n] by blast
  have "children_ok (change p (adopt None (-1)) c)" using children_ok_change [OF ok p(2)] .
  then show ?thesis
    using take_out_ok [of "change p (adopt None (-1)) c" "nat i"] n p i by (simp add: msRemoveClass_def Let_def)
qed

interpretation classes: ordered_children children_ok items fits_in
  "\<lambda>c p i. no_reports (msInsertClass z l c (Some p) i)" "\<lambda>c i. no_reports (msRemoveClass c i)"
  for z :: "'c classData" and l :: nat
proof
  fix c :: "'c classes" and p :: nat and i :: int
  assume ok: "children_ok c"
  then have len: "length (items c) = used c" by (simp add: children_ok_def)
  let ?ins = "no_reports (msInsertClass z l c (Some p) i)"
  show "fits_in c p \<Longrightarrow> i < 0 \<Longrightarrow>
      fst ?ins = int (length (items c)) \<and> items (snd ?ins) = items c @ [Some p] \<and> children_ok (snd ?ins)"
    using insert_class_cases(1) [OF ok, of p i z l] len by auto
  show "fits_in c p \<Longrightarrow> 0 \<le> i \<Longrightarrow> i < int (length (items c)) \<Longrightarrow>
      fst ?ins = i \<and> items (snd ?ins) = insert_at (nat i) (Some p) (items c) \<and> children_ok (snd ?ins)"
    using insert_class_cases(2) [OF ok, of p i z l] len by auto
  show "fits_in c p \<Longrightarrow> int (length (items c)) \<le> i \<Longrightarrow> fst ?ins = -1 \<and> items (snd ?ins) = items c"
    using insert_class_cases(3) [OF ok, of p i z l] len by auto
  show "0 \<le> i \<Longrightarrow> i < int (length (items c)) \<Longrightarrow> fst (no_reports (msRemoveClass c i)) = items c ! nat i
      \<and> items (snd (no_reports (msRemoveClass c i))) = remove_at (nat i) (items c)
      \<and> children_ok (snd (no_reports (msRemoveClass c i)))"
    using remove_class_ok [OF ok, of i] len by auto
  show "i < 0 \<or> int (length (items c)) \<le> i \<Longrightarrow> no_reports (msRemoveClass c i) = (None, c)"
    using len by (simp add: msRemoveClass_def)
qed

lemma swap_slots_ok:
  assumes ok: "children_ok c" and ij: "i < used c" "j < used c"
  shows "children_ok (swap_slots c i j) \<and> items (swap_slots c i j) = (items c)[i := items c ! j, j := items c ! i]"
proof -
  have u: "used c \<le> length (slots c)" using ok by (simp add: children_ok_def)
  have it: "items (swap_slots c i j) = (items c)[i := items c ! j, j := items c ! i]"
    using u ij by (simp add: swap_slots_def items_def take_update_swap)
  have sp: "spares (swap_slots c i j) = spares c"
    using ij by (simp add: swap_slots_def spares_def drop_update_cancel)
  have m: "mset ((items c)[i := items c ! j, j := items c ! i]) = mset (items c)"
    using u ij by (simp add: mset_swap)
  then have "set ((items c)[i := items c ! j, j := items c ! i]) = set (items c)"
    "distinct ((items c)[i := items c ! j, j := items c ! i]) = distinct (items c)"
    using mset_eq_setD mset_eq_imp_distinct_iff by blast+
  then show ?thesis using ok it sp unfolding children_ok_def by (simp add: swap_slots_def)
qed

section \<open>Properties\<close>

text \<open>The classes of a layer keep their order under insertion and removal: inserting at an
  index (at the end for a negative one) shifts the later classes up, makes the layer the
  owner and adds a reference; removing the class just inserted returns it, restores the
  sequence and leaves it without an owner.\<close>

theorem class_insert_remove:
  assumes "children_ok c" and "fits_in c p" and "objs c p = Some v" and "i < int (used c)"
  shows "\<exists>k c' c''. msInsertClass z l c (Some p) i = (k, c', [])
    \<and> items c' = insert_at (nat k) (Some p) (items c) \<and> children_ok c'
    \<and> objs c' p = Some \<lparr>refcount = refcount v + 1, payload = (payload v)\<lparr>clayer := Some l\<rparr>\<rparr>
    \<and> msRemoveClass c' k = (Some p, c'', []) \<and> items c'' = items c \<and> children_ok c''
    \<and> objs c'' p = Some \<lparr>refcount = refcount v, payload = (payload v)\<lparr>clayer := None\<rparr>\<rparr>"
proof -
  have len: "length (items c) = used c" using assms(1) by (simp add: children_ok_def)
  obtain k c' where ins: "msInsertClass z l c (Some p) i = (k, c', [])" "children_ok c'"
    "items c' = insert_at (nat k) (Some p) (items c)" "0 \<le> k" "k \<le> int (used c)"
  proof (cases "i < 0")
    case True
    then show ?thesis using insert_class_cases(1) [OF assms(1,2), of i z l] len that by (auto simp: insert_at_def)
  next
    case False
    then show ?thesis using insert_class_cases(2) [OF assms(1,2), of i z l] assms(4) that by auto
  qed
  obtain q where g: "grown c q (grow 8 z c)" using grow_ok [OF assms(1)] by force
  have "objs (grow 8 z c) p = Some v" using g assms(3) by (metis domI grown_def)
  then have o: "objs c' p = Some (adopt (Some l) 1 v)"
    using ins(1) by (auto simp: msInsertClass_def msGrowLayerClasses_def Let_def change_def split: if_splits)
  have u': "used c' = Suc (used c)"
    using ins(2,3) len by (metis children_ok_def length_insert_at length_items)
  then have k: "0 \<le> k" "k < int (used c')" "items c' ! nat k = Some p" "remove_at (nat k) (items c') = items c"
    using ins(3-5) len by auto
  obtain c'' where rem: "msRemoveClass c' k = (Some p, c'', [])" "children_ok c''" "items c'' = items c"
    "objs c'' = objs (change p (adopt None (-1)) c')"
    using remove_class_ok [OF ins(2) k(1,2)] k(3,4) by auto
  have "objs c'' p = Some (adopt None (-1) (adopt (Some l) 1 v))" using rem(4) o by (simp add: change_def)
  then show ?thesis
    using ins rem o by (auto simp: adopt_def refcnt_add_def)
qed

theorem class_insert_remove_witness:
  "\<exists>k c' c''. msInsertClass \<lparr>cdata = 0, clayer = None\<rparr> 9 \<lparr>slots = [], used = 0,
      objs = [0 \<mapsto> \<lparr>refcount = 1, payload = \<lparr>cdata = (5::nat), clayer = None\<rparr>\<rparr>], next_addr = 1, fault = False\<rparr>
      (Some 0) (-1) = (k, c', []) \<and> msRemoveClass c' k = (Some 0, c'', [])"
  using class_insert_remove [of "\<lparr>slots = [], used = 0,
      objs = [0 \<mapsto> \<lparr>refcount = 1, payload = \<lparr>cdata = (5::nat), clayer = None\<rparr>\<rparr>], next_addr = 1, fault = False\<rparr>" 0
      "\<lparr>refcount = 1, payload = \<lparr>cdata = 5, clayer = None\<rparr>\<rparr>" "-1" "\<lparr>cdata = 0, clayer = None\<rparr>" 9]
  by (auto simp: children_ok_def fits_in_def items_def spares_def split: if_splits)

text \<open>Moving a class up or down exchanges it with its neighbour and nothing else, and moving
  it back restores the layer; at the ends of the array and for other indices nothing changes
  and an error is reported.\<close>

theorem class_move:
  assumes "children_ok c"
  shows "(if 0 < i \<and> i < int (used c)
          then \<exists>c'. msMoveClassUp c i = (MS_SUCCESS, c', []) \<and> children_ok c'
            \<and> items c' = (items c)[nat i := items c ! (nat i - 1), nat i - 1 := items c ! nat i]
            \<and> msMoveClassDown c' (i - 1) = (MS_SUCCESS, c, [])
          else \<exists>e. msMoveClassUp c i = (MS_FAILURE, c, [e]))
    \<and> (\<not> (0 \<le> i \<and> i < int (used c) - 1) \<longrightarrow> (\<exists>e. msMoveClassDown c i = (MS_FAILURE, c, [e])))"
proof -
  have "\<exists>c'. msMoveClassUp c i = (MS_SUCCESS, c', []) \<and> children_ok c'
      \<and> items c' = (items c)[nat i := items c ! (nat i - 1), nat i - 1 := items c ! nat i]
      \<and> msMoveClassDown c' (i - 1) = (MS_SUCCESS, c, [])" if i: "0 < i" "i < int (used c)"
  proof -
    have n: "nat i < used c" "nat i - 1 < used c" "0 < nat i" "nat (i - 1) = nat i - 1" using i by linarith+
    have u: "used c \<le> length (slots c)" using assms by (simp add: children_ok_def)
    have "swap_slots (swap_slots c (nat i) (nat i - 1)) (nat i - 1) (nat i) = c"
      using n u by (cases c) (auto simp: swap_slots_def nth_list_update intro!: nth_equalityI)
    then show ?thesis
      using swap_slots_ok [OF assms n(1,2)] i n
      by (auto simp: msMoveClassUp_def msMoveClassDown_def) (simp_all add: swap_slots_def)
  qed
  then show ?thesis by (auto simp: msMoveClassUp_def msMoveClassDown_def)
qed

theorem class_move_witness:
  "\<exists>c'. msMoveClassUp \<lparr>slots = [Some 0, Some 1], used = 2,
      objs = [0 \<mapsto> \<lparr>refcount = 1, payload = \<lparr>cdata = (5::nat), clayer = None\<rparr>\<rparr>,
              1 \<mapsto> \<lparr>refcount = 1, payload = \<lparr>cdata = 6, clayer = None\<rparr>\<rparr>], next_addr = 2, fault = False\<rparr> 1
     = (MS_SUCCESS, c', []) \<and> items c' = [Some 1, Some 0]"
  using class_move [of "\<lparr>slots = [Some 0, Some 1], used = 2,
      objs = [0 \<mapsto> \<lparr>refcount = 1, payload = \<lparr>cdata = (5::nat), clayer = None\<rparr>\<rparr>,
              1 \<mapsto> \<lparr>refcount = 1, payload = \<lparr>cdata = 6, clayer = None\<rparr>\<rparr>], next_addr = 2, fault = False\<rparr>" 1]
  by (auto simp: children_ok_def items_def spares_def split: if_splits)

end
