(* ===== verification/MapLayers.thy ===== *)
theory MapLayers
  imports LayerObject
begin

text \<open>
  \<^verbatim>\<open>mapobject.c\<close> (\<open>msInsertLayer\<close>, \<open>msRemoveLayer\<close> and the drawing order) and \<open>msGrowMapLayers\<close> of
  \<^verbatim>\<open>mapfile.c\<close>: the layers of a map with the array of their drawing order. A layer knows its
  index in the map, so the loops that shift pointers also change the objects they point to.
\<close>

section \<open>State\<close>

record 'd layerData =
  ldata :: 'd
  lindex :: int
  lmap :: "nat option"               \<comment> \<open>the map that owns the layer\<close>
  reprojectors :: "bool \<times> bool"      \<comment> \<open>the two cached reprojectors are present\<close>

record 'd mapObj =
  mlayers :: "'d layerData children"
  layerorder :: "int list"

definition numlayers :: "'d mapObj \<Rightarrow> nat" where
  "numlayers m = used (mlayers m)"

section \<open>Operations\<close>

definition msGrowMapLayers :: "'d layerData \<Rightarrow> 'd mapObj \<Rightarrow> 'd mapObj" where
  "msGrowMapLayers zeroed m =
     m\<lparr>mlayers := grow 64 zeroed (mlayers m),
       layerorder := (if used (mlayers m) = length (slots (mlayers m)) then layerorder m @ replicate 64 0
                      else layerorder m)\<rparr>"

definition set_layer :: "nat \<Rightarrow> ('d layerData \<Rightarrow> 'd layerData) \<Rightarrow> 'd layerData children \<Rightarrow> 'd layerData children" where
  "set_layer i f c =
     (case slots c ! i of
        None \<Rightarrow> c\<lparr>fault := True\<rparr>
      | Some p \<Rightarrow> change p (\<lambda>v. v\<lparr>payload := f (payload v)\<rparr>) c)"

definition set_index :: "nat \<Rightarrow> 'd layerData children \<Rightarrow> 'd layerData children" where
  "set_index i c = set_layer i (\<lambda>d. d\<lparr>lindex := int i\<rparr>) c"

text \<open>\<open>for (i = n; i > k; i--) { layers[i] = layers[i - 1]; layers[i]->index = i; }\<close>\<close>

definition shift_layers_up :: "nat \<Rightarrow> nat \<Rightarrow> 'd layerData children \<Rightarrow> 'd layerData children" where
  "shift_layers_up n k c =
     foldl (\<lambda>c i. set_index (i + 1) (c\<lparr>slots := (slots c)[i + 1 := slots c ! i]\<rparr>)) c (rev [k..<n])"

text \<open>\<open>for (i = k; i < n - 1; i++) { layers[i] = layers[i + 1]; layers[i]->index = i; }\<close>\<close>

definition shift_layers_down :: "nat \<Rightarrow> nat \<Rightarrow> 'd layerData children \<Rightarrow> 'd layerData children" where
  "shift_layers_down n k c =
     foldl (\<lambda>c i. set_index i (c\<lparr>slots := (slots c)[i := slots c ! (i + 1)]\<rparr>)) c [k..<n - 1]"

definition bump :: "int \<Rightarrow> int \<Rightarrow> int" where
  "bump k x = (if k \<le> x then x + 1 else x)"

text \<open>The drawing order after an insertion at \<open>k\<close>: the later entries move up, every index from \<open>k\<close>
  on becomes one larger, and the new layer is drawn at place \<open>k\<close>.\<close>

definition order_insert :: "nat \<Rightarrow> nat \<Rightarrow> int list \<Rightarrow> int list" where
  "order_insert n k ord =
     (let o1 = map_up (bump (int k)) n k ord;
          o2 = map_here (\<lambda>_. bump (int k)) k o1
      in o2[k := int k])"

definition msInsertLayer ::
    "'d layerData \<Rightarrow> nat \<Rightarrow> 'd mapObj \<Rightarrow> nat option \<Rightarrow> int \<Rightarrow> int \<times> 'd mapObj \<times> report list" where
  "msInsertLayer zeroed self m layer nIndex =
     (case layer of
        None \<Rightarrow> (-1, m, [Report MS_CHILDERR ''Can't insert a NULL Layer'' ''msInsertLayer()''])
      | Some p \<Rightarrow>
          (let m1 = (if numlayers m = length (slots (mlayers m)) then msGrowMapLayers zeroed m else m);
               n = numlayers m1;
               c = heap_free (slots (mlayers m1) ! n) (mlayers m1);
               own = (\<lambda>k d. d\<lparr>lindex := int k, lmap := Some self\<rparr>)
           in
           if int n \<le> nIndex then
             (-1, m1\<lparr>mlayers := c\<rparr>, [Report MS_CHILDERR ''Cannot insert layer beyond index %d'' ''msInsertLayer()''])
           else if nIndex < 0 then
             (int n,
              m1\<lparr>layerorder := (layerorder m1)[n := int n],
                 mlayers := (change p (refcnt_add 1)
                   (set_layer n (own n) (c\<lparr>slots := (slots c)[n := Some p]\<rparr>)))\<lparr>used := n + 1\<rparr>\<rparr>, [])
           else
             (let k = nat nIndex;
                  c1 = shift_layers_up n k c;
                  c2 = set_layer k (own k) (c1\<lparr>slots := (slots c1)[k := Some p]\<rparr>)
              in (nIndex,
                  m1\<lparr>layerorder := order_insert n k (layerorder m1),
                     mlayers := (change p (refcnt_add 1) c2)\<lparr>used := n + 1\<rparr>\<rparr>, []))))"

definition lower_by :: "int \<Rightarrow> int \<Rightarrow> int" where
  "lower_by k x = (if k < x then x - 1 else x)"

text \<open>
  The first loop over the drawing order in \<open>msRemoveLayer\<close>: it lowers an entry before it tests
  whether the entry is the removed layer.
\<close>

fun find_removed :: "nat \<Rightarrow> int \<Rightarrow> nat \<Rightarrow> int list \<Rightarrow> nat \<times> int list" where
  "find_removed 0 k i ord = (0, ord)"
| "find_removed (Suc r) k i ord =
     (let ord' = ord[i := lower_by k (ord ! i)] in
      if ord' ! i = k then (i, ord') else find_removed r k (i + 1) ord')"

definition order_remove :: "nat \<Rightarrow> int \<Rightarrow> int list \<Rightarrow> int list" where
  "order_remove n k ord =
     (let (order_index, o1) = find_removed n k 0 ord
      in map_down (lower_by k) (n - 1) order_index o1)"

definition msRemoveLayer :: "'d mapObj \<Rightarrow> int \<Rightarrow> nat option \<times> 'd mapObj \<times> report list" where
  "msRemoveLayer m nIndex =
     (let n = numlayers m in
      if nIndex < 0 \<or> int n \<le> nIndex then
        (None, m, [Report MS_CHILDERR ''Cannot remove Layer, invalid index %d'' ''msRemoveLayer()''])
      else
        (let k = nat nIndex;
             layer = slots (mlayers m) ! k;
             c1 = shift_layers_down n k (mlayers m);
             c2 = c1\<lparr>slots := (slots c1)[n - 1 := None], used := n - 1\<rparr>;
             c3 = (case layer of
                     None \<Rightarrow> c2\<lparr>fault := True\<rparr>
                   | Some p \<Rightarrow> change p (\<lambda>v. refcnt_add (-1)
                       (v\<lparr>payload := (payload v)\<lparr>reprojectors := (False, False), lmap := None\<rparr>\<rparr>)) c2)
         in (layer, m\<lparr>mlayers := c3, layerorder := order_remove n nIndex (layerorder m)\<rparr>, [])))"

text \<open>The place of a layer in the drawing order.\<close>

fun find_order :: "int list \<Rightarrow> int \<Rightarrow> nat option" where
  "find_order [] x = None"
| "find_order (y # ys) x = (if y = x then Some 0 else map_option Suc (find_order ys x))"

definition msMoveLayerUp :: "'d mapObj \<Rightarrow> int \<Rightarrow> ms_return \<times> 'd mapObj \<times> report list" where
  "msMoveLayerUp m x =
     (let bad = (MS_FAILURE, m, [Report MS_CHILDERR ''Invalid index: %d'' ''msMoveLayerUp()'']) in
      if x < int (numlayers m) \<and> 0 \<le> x then
        (case find_order (take (numlayers m) (layerorder m)) x of
           None \<Rightarrow> bad
         | Some i \<Rightarrow>
             (if i = 0 then (MS_FAILURE, m, [])
              else (MS_SUCCESS, m\<lparr>layerorder := (layerorder m)[i := layerorder m ! (i - 1), i - 1 := x]\<rparr>, [])))
      else bad)"

definition msMoveLayerDown :: "'d mapObj \<Rightarrow> int \<Rightarrow> ms_return \<times> 'd mapObj \<times> report list" where
  "msMoveLayerDown m x =
     (let bad = (MS_FAILURE, m, [Report MS_CHILDERR ''Invalid index: %d'' ''msMoveLayerDown()'']) in
      if x < int (numlayers m) \<and> 0 \<le> x then
        (case find_order (take (numlayers m) (layerorder m)) x of
           None \<Rightarrow> bad
         | Some i \<Rightarrow>
             (if i = numlayers m - 1 then (MS_FAILURE, m, [])
              else (MS_SUCCESS, m\<lparr>layerorder := (layerorder m)[i := layerorder m ! (i + 1), i + 1 := x]\<rparr>, [])))
      else bad)"

text \<open>The caller's array has as many entries as the map has layers.\<close>

definition msSetLayersdrawingOrder :: "'d mapObj \<Rightarrow> int list \<Rightarrow> bool \<times> 'd mapObj" where
  "msSetLayersdrawingOrder m panIndexes =
     (let n = numlayers m in
      if list_all (\<lambda>i. list_ex (\<lambda>j. panIndexes ! j = int i) [0..<n]) [0..<n] then
        (True, m\<lparr>layerorder := map_here (\<lambda>i _. panIndexes ! i) n (layerorder m)\<rparr>)
      else (False, m))"

section \<open>The drawing order\<close>

definition order_ok :: "nat \<Rightarrow> int list \<Rightarrow> bool" where
  "order_ok n xs \<longleftrightarrow> length xs = n \<and> distinct xs \<and> set xs = {0..<int n}"

lemma set_insert_at: "set (insert_at k x xs) = insert x (set xs)"
  by (metis mset_insert_at set_mset_add_mset_insert set_mset_mset)

lemma distinct_insert_at: "distinct xs \<Longrightarrow> x \<notin> set xs \<Longrightarrow> distinct (insert_at k x xs)"
  by (metis distinct.simps(2) mset.simps(2) mset_eq_imp_distinct_iff mset_insert_at)

lemma order_insert_take:
  assumes "n < length ord" and "k \<le> n"
  shows "take (Suc n) (order_insert n k ord) = insert_at k (int k) (map (bump (int k)) (take n ord))
    \<and> length (order_insert n k ord) = length ord"
proof -
  have "take (Suc n) (order_insert n k ord) = insert_at k (int k) (map (bump (int k)) (take n ord))"
  proof (rule nth_equalityI)
    fix j assume "j < length (take (Suc n) (order_insert n k ord))"
    then have j: "j \<le> n" using assms by simp
    then show "take (Suc n) (order_insert n k ord) ! j = insert_at k (int k) (map (bump (int k)) (take n ord)) ! j"
      using assms by (auto simp: order_insert_def Let_def nth_list_update nth_insert_at map_here_nth map_up_nth)
  qed (use assms in \<open>simp add: order_insert_def Let_def\<close>)
  then show ?thesis by (simp add: order_insert_def Let_def)
qed

lemma bump_image: "k \<le> n \<Longrightarrow> insert (int k) (bump (int k) ` {0..<int n}) = {0..<int (Suc n)}"
proof (intro set_eqI iffI)
  fix x assume "k \<le> n" "x \<in> {0..<int (Suc n)}"
  then have "x = int k \<or> (x < int k \<and> x = bump (int k) x \<and> x \<in> {0..<int n})
      \<or> (x = bump (int k) (x - 1) \<and> x - 1 \<in> {0..<int n})"
    by (auto simp: bump_def)
  then show "x \<in> insert (int k) (bump (int k) ` {0..<int n})" by blast
qed (auto simp: bump_def)

lemma order_ok_insert:
  assumes "order_ok n xs" and "k \<le> n"
  shows "order_ok (Suc n) (insert_at k (int k) (map (bump (int k)) xs))"
proof -
  have "inj_on (bump (int k)) (set xs)" by (auto simp: inj_on_def bump_def split: if_splits)
  moreover have "int k \<notin> set (map (bump (int k)) xs)" by (auto simp: bump_def split: if_splits)
  ultimately have "distinct (insert_at k (int k) (map (bump (int k)) xs))"
    using assms(1) by (intro distinct_insert_at) (auto simp: order_ok_def distinct_map)
  then show ?thesis using assms bump_image [of k n] by (simp add: order_ok_def set_insert_at)
qed

text \<open>What the search loop of \<open>msRemoveLayer\<close> stops at: the first entry that is the removed layer
  or the one after it.\<close>

definition hit :: "int \<Rightarrow> int \<Rightarrow> bool" where
  "hit k x \<longleftrightarrow> x = k \<or> x = k + 1"

lemma lower_by_eq: "lower_by k x = k \<longleftrightarrow> hit k x"
  by (auto simp: lower_by_def hit_def)

lemma find_removed_spec:
  assumes "i \<le> f" and "f < i + r" and "i + r \<le> length ord" and "hit k (ord ! f)"
    and "\<And>j. i \<le> j \<Longrightarrow> j < f \<Longrightarrow> \<not> hit k (ord ! j)"
  shows "\<exists>o'. find_removed r k i ord = (f, o') \<and> length o' = length ord
    \<and> (\<forall>j<length ord. o' ! j = (if i \<le> j \<and> j \<le> f then lower_by k (ord ! j) else ord ! j))"
  using assms
proof (induction r arbitrary: i ord)
  case (Suc r)
  let ?o = "ord[i := lower_by k (ord ! i)]"
  have len: "i < length ord" using Suc.prems(3) by simp
  show ?case
  proof (cases "hit k (ord ! i)")
    case True
    then have "f = i" using Suc.prems(1,5) by (metis le_neq_implies_less order_refl)
    then show ?thesis using True len by (auto simp: Let_def lower_by_eq nth_list_update)
  next
    case False
    then have f: "i + 1 \<le> f" using Suc.prems(1,4) by (cases "i = f") auto
    obtain o' where o: "find_removed r k (i + 1) ?o = (f, o')" "length o' = length ?o"
      "\<forall>j<length ?o. o' ! j = (if i + 1 \<le> j \<and> j \<le> f then lower_by k (?o ! j) else ?o ! j)"
    proof -
      have "hit k (?o ! f)" using f Suc.prems(4) by simp
      moreover have "\<not> hit k (?o ! j)" if "i + 1 \<le> j" "j < f" for j using Suc.prems(5) [of j] that by simp
      moreover have "f < (i + 1) + r" "(i + 1) + r \<le> length ?o" using Suc.prems(2,3) by simp_all
      ultimately show ?thesis using Suc.IH [OF f, of ?o] that by blast
    qed
    have "o' ! j = (if i \<le> j \<and> j \<le> f then lower_by k (ord ! j) else ord ! j)" if "j < length ord" for j
      using o(3) that f len by (cases "j = i") auto
    then show ?thesis using o(1,2) False len by (simp add: Let_def lower_by_eq)
  qed
qed simp

lemma order_remove_take:
  assumes "n \<le> length ord" and "f < n" and "hit k (ord ! f)" and "\<And>j. j < f \<Longrightarrow> \<not> hit k (ord ! j)"
  shows "take (n - 1) (order_remove n k ord) = map (lower_by k) (remove_at f (take n ord))
    \<and> length (order_remove n k ord) = length ord"
proof -
  obtain o' where o: "find_removed n k 0 ord = (f, o')" "length o' = length ord"
    "\<forall>j<length ord. o' ! j = (if 0 \<le> j \<and> j \<le> f then lower_by k (ord ! j) else ord ! j)"
    using find_removed_spec [of 0 f n ord k] assms by auto
  have r: "order_remove n k ord = map_down (lower_by k) (n - 1) f o'" by (simp add: order_remove_def o(1))
  have "take (n - 1) (order_remove n k ord) = map (lower_by k) (remove_at f (take n ord))"
  proof (rule nth_equalityI)
    fix j assume "j < length (take (n - 1) (order_remove n k ord))"
    then have j: "j < n - 1" by simp
    have "map_down (lower_by k) (n - 1) f o' ! j = (if f \<le> j then lower_by k (o' ! (j + 1)) else o' ! j)"
      using j assms(1) o(2) by (subst map_down_nth) auto
    also have "\<dots> = (if f \<le> j then lower_by k (ord ! (j + 1)) else lower_by k (ord ! j))"
      using o(3) j assms(1) by auto
    finally show "take (n - 1) (order_remove n k ord) ! j = map (lower_by k) (remove_at f (take n ord)) ! j"
      using j assms(1,2) by (simp add: r nth_remove_at)
  qed (use assms o(2) in \<open>simp add: r\<close>)
  then show ?thesis using r o(2) by simp
qed

lemma lower_image:
  assumes "hit k x" and "0 \<le> k" and "k < n" and "x < n"
  shows "lower_by k ` ({0..<n} - {x}) = {0..<n - 1}"
proof
  show "lower_by k ` ({0..<n} - {x}) \<subseteq> {0..<n - 1}"
    using assms by (auto simp: lower_by_def hit_def)
  show "{0..<n - 1} \<subseteq> lower_by k ` ({0..<n} - {x})"
  proof
    fix y assume y: "y \<in> {0..<n - 1}"
    define z where "z = (if y < k \<or> (y = k \<and> x \<noteq> k) then y else y + 1)"
    have "lower_by k z = y" "z \<in> {0..<n} - {x}"
      using assms(1) y unfolding z_def lower_by_def hit_def by (simp_all split: if_splits) linarith+
    then show "y \<in> lower_by k ` ({0..<n} - {x})" by blast
  qed
qed

lemma order_ok_remove:
  assumes "order_ok n xs" and "f < n" and "hit (int k) (xs ! f)" and "k < n"
  shows "order_ok (n - 1) (map (lower_by (int k)) (remove_at f xs))"
proof -
  have xs: "length xs = n" "distinct xs" "set xs = {0..<int n}" using assms(1) by (auto simp: order_ok_def)
  have set_r: "set (remove_at f xs) = {0..<int n} - {xs ! f}"
  proof -
    have "set xs = insert (xs ! f) (set (remove_at f xs))"
      using mset_remove_at [of f xs] assms(2) xs(1) by (metis set_mset_add_mset_insert set_mset_mset)
    then show ?thesis using remove_at_distinct(2) [OF xs(2), of f] assms(2) xs by auto
  qed
  have "inj_on (lower_by (int k)) ({0..<int n} - {xs ! f})"
    using assms(3) by (auto simp: inj_on_def lower_by_def hit_def split: if_splits)
  then have "distinct (map (lower_by (int k)) (remove_at f xs))"
    using remove_at_distinct(1) [OF xs(2), of f] assms(2) xs(1) set_r by (simp add: distinct_map)
  moreover have "lower_by (int k) ` ({0..<int n} - {xs ! f}) = {0..<int (n - 1)}"
  proof -
    have "xs ! f \<in> set xs" using assms(2) xs(1) by simp
    then have "xs ! f < int n" using xs(3) by simp
    then show ?thesis using lower_image [OF assms(3), of "int n"] assms(4) by (simp add: of_nat_diff)
  qed
  ultimately show ?thesis using set_r xs(1) assms(2) by (simp add: order_ok_def)
qed

section \<open>Layers that know their index\<close>

definition reindexed :: "nat \<Rightarrow> 'd layerData obj \<Rightarrow> 'd layerData obj" where
  "reindexed i v = v\<lparr>payload := (payload v)\<lparr>lindex := int i\<rparr>\<rparr>"

text \<open>The fields of the array that a loop of index updates leaves alone.\<close>

definition same_frame :: "'d children \<Rightarrow> 'd children \<Rightarrow> bool" where
  "same_frame c c' \<longleftrightarrow> used c' = used c \<and> next_addr c' = next_addr c \<and> fault c' = fault c
     \<and> dom (objs c') = dom (objs c)"

lemma set_index_objs:
  assumes "slots c ! i = Some p" and "p \<in> dom (objs c)"
  shows "slots (set_index i c) = slots c \<and> same_frame c (set_index i c)
    \<and> objs (set_index i c) = (objs c)(p := map_option (reindexed i) (objs c p))"
  using assms by (auto simp: set_index_def set_layer_def same_frame_def change_def reindexed_def split: if_splits)

lemma shift_layers_up_spec:
  assumes "n < length (slots c)" and "\<And>i. i < n \<Longrightarrow> \<exists>p. slots c ! i = Some p \<and> p \<in> dom (objs c)"
    and "distinct (take n (slots c))"
  shows "slots (shift_layers_up n k c) = shift_up n k (slots c) \<and> same_frame c (shift_layers_up n k c)
    \<and> (\<forall>j q. k \<le> j \<and> j < n \<and> slots c ! j = Some q \<longrightarrow>
          objs (shift_layers_up n k c) q = map_option (reindexed (j + 1)) (objs c q))
    \<and> (\<forall>q. (\<forall>j. k \<le> j \<and> j < n \<longrightarrow> slots c ! j \<noteq> Some q) \<longrightarrow> objs (shift_layers_up n k c) q = objs c q)"
  using assms
proof (induction n arbitrary: c)
  case (Suc n)
  show ?case
  proof (cases "k \<le> n")
    case True
    obtain p where p: "slots c ! n = Some p" "p \<in> dom (objs c)" using Suc.prems(2) [of n] by auto
    let ?c = "c\<lparr>slots := (slots c)[n + 1 := slots c ! n]\<rparr>"
    define c1 where "c1 = set_index (n + 1) ?c"
    have c1: "slots c1 = (slots c)[n + 1 := slots c ! n]" "same_frame c c1"
      "objs c1 = (objs c)(p := map_option (reindexed (n + 1)) (objs c p))"
      using set_index_objs [of ?c "n + 1" p] p Suc.prems(1) by (auto simp: c1_def same_frame_def)
    have s: "shift_layers_up (Suc n) k c = shift_layers_up n k c1"
      using True by (simp add: shift_layers_up_def c1_def)
    have notp: "slots c ! j \<noteq> Some p" if "j < n" for j
    proof -
      have "take (Suc n) (slots c) ! j \<noteq> take (Suc n) (slots c) ! n"
        using Suc.prems(1,3) that by (subst nth_eq_iff_index_eq) auto
      then show ?thesis using that p by simp
    qed
    have same: "slots c1 ! j = slots c ! j" if "j < n" for j using that by (simp add: c1(1))
    have live: "\<And>i. i < n \<Longrightarrow> \<exists>q. slots c1 ! i = Some q \<and> q \<in> dom (objs c1)"
      using Suc.prems(2) same c1(2) by (metis less_Suc_eq same_frame_def)
    have "take n (slots c1) = take n (slots c)" by (simp add: c1(1))
    then have dist: "distinct (take n (slots c1))" using Suc.prems(3) by (simp add: take_Suc_conv_app_nth Suc.prems(1) Suc_lessD)
    have len: "n < length (slots c1)" using Suc.prems(1) by (simp add: c1(1))
    note IH = Suc.IH [OF len live dist]
    have sl: "shift_up n k (slots c1) = shift_up (Suc n) k (slots c)"
      using True by (simp add: shift_up_def c1(1))
    show ?thesis
      unfolding s
    proof (intro conjI allI impI)
      show "slots (shift_layers_up n k c1) = shift_up (Suc n) k (slots c)" using IH sl by simp
      show "same_frame c (shift_layers_up n k c1)" using IH c1(2) by (simp add: same_frame_def)
      fix q
      show "objs (shift_layers_up n k c1) q = map_option (reindexed (j + 1)) (objs c q)"
        if "k \<le> j \<and> j < Suc n \<and> slots c ! j = Some q" for j
      proof (cases "j = n")
        case True
        then have "q = p" using that p by simp
        then have "\<forall>j. k \<le> j \<and> j < n \<longrightarrow> slots c1 ! j \<noteq> Some q" using notp same by simp
        then show ?thesis using IH c1(3) True \<open>q = p\<close> by simp
      next
        case False
        then have j: "k \<le> j" "j < n" "slots c1 ! j = Some q" using that same by auto
        then have "q \<noteq> p" using notp that by auto
        then show ?thesis using IH j c1(3) by simp
      qed
      show "objs (shift_layers_up n k c1) q = objs c q"
        if "\<forall>j. k \<le> j \<and> j < Suc n \<longrightarrow> slots c ! j \<noteq> Some q"
      proof -
        have "q \<noteq> p" using that p True by auto
        moreover have "\<forall>j. k \<le> j \<and> j < n \<longrightarrow> slots c1 ! j \<noteq> Some q" using that same by simp
        ultimately show ?thesis using IH c1(3) by simp
      qed
    qed
  qed (auto simp: shift_layers_up_def shift_up_def same_frame_def)
qed (simp add: shift_layers_up_def shift_up_def same_frame_def)

lemma shift_layers_down_spec:
  assumes "m < length (slots c)" and "\<And>i. i \<le> m \<Longrightarrow> \<exists>p. slots c ! i = Some p \<and> p \<in> dom (objs c)"
    and "distinct (take (Suc m) (slots c))"
  shows "slots (shift_layers_down (Suc m) k c) = map_down (\<lambda>x. x) m k (slots c)
    \<and> same_frame c (shift_layers_down (Suc m) k c)
    \<and> (\<forall>j q. k \<le> j \<and> j < m \<and> slots c ! (j + 1) = Some q \<longrightarrow>
          objs (shift_layers_down (Suc m) k c) q = map_option (reindexed j) (objs c q))
    \<and> (\<forall>q. (\<forall>j. k \<le> j \<and> j < m \<longrightarrow> slots c ! (j + 1) \<noteq> Some q) \<longrightarrow> objs (shift_layers_down (Suc m) k c) q = objs c q)"
  using assms
proof (induction m)
  case (Suc m)
  let ?L = "shift_layers_down (Suc m) k c"
  have IH: "slots ?L = map_down (\<lambda>x. x) m k (slots c)" "same_frame c ?L"
    "\<And>j q. k \<le> j \<Longrightarrow> j < m \<Longrightarrow> slots c ! (j + 1) = Some q \<Longrightarrow> objs ?L q = map_option (reindexed j) (objs c q)"
    "\<And>q. (\<forall>j. k \<le> j \<and> j < m \<longrightarrow> slots c ! (j + 1) \<noteq> Some q) \<Longrightarrow> objs ?L q = objs c q"
  proof -
    have "distinct (take (Suc m) (slots c))" using Suc.prems(1,3) by (simp add: take_Suc_conv_app_nth [of "Suc m"])
    note I = Suc.IH [OF _ _ this]
    show "slots ?L = map_down (\<lambda>x. x) m k (slots c)" "same_frame c ?L"
      "\<And>j q. k \<le> j \<Longrightarrow> j < m \<Longrightarrow> slots c ! (j + 1) = Some q \<Longrightarrow> objs ?L q = map_option (reindexed j) (objs c q)"
      "\<And>q. (\<forall>j. k \<le> j \<and> j < m \<longrightarrow> slots c ! (j + 1) \<noteq> Some q) \<Longrightarrow> objs ?L q = objs c q"
      using I Suc.prems(1,2) by auto
  qed
  show ?case
  proof (cases "k \<le> m")
    case True
    obtain p where p: "slots c ! (m + 1) = Some p" "p \<in> dom (objs c)" using Suc.prems(2) [of "m + 1"] by auto
    have at: "slots ?L ! (m + 1) = Some p" using IH(1) p Suc.prems(1) by (simp add: map_down_nth)
    let ?c = "?L\<lparr>slots := (slots ?L)[m := slots ?L ! (m + 1)]\<rparr>"
    have s: "shift_layers_down (Suc (Suc m)) k c = set_index m ?c"
      using True by (simp add: shift_layers_down_def)
    have pL: "p \<in> dom (objs ?L)" using IH(2) p(2) by (simp add: same_frame_def)
    have c2: "slots (set_index m ?c) = (slots ?L)[m := Some p]" "same_frame c (set_index m ?c)"
      "objs (set_index m ?c) = (objs ?L)(p := map_option (reindexed m) (objs ?L p))"
      using set_index_objs [of ?c m p] at pL IH(1,2) Suc.prems(1) by (auto simp: same_frame_def)
    have notp: "slots c ! j \<noteq> Some p" if "j \<le> m" for j
    proof -
      have "take (Suc (Suc m)) (slots c) ! j \<noteq> take (Suc (Suc m)) (slots c) ! Suc m"
        using Suc.prems(1,3) that by (subst nth_eq_iff_index_eq) auto
      then show ?thesis using that p by simp
    qed
    have Lp: "objs ?L p = objs c p" using IH(4) [of p] notp by auto
    have sl: "(slots ?L)[m := Some p] = map_down (\<lambda>x. x) (Suc m) k (slots c)"
      using True at IH(1) by (simp add: map_down_def)
    show ?thesis
      unfolding s
    proof (intro conjI allI impI)
      show "slots (set_index m ?c) = map_down (\<lambda>x. x) (Suc m) k (slots c)" using c2(1) sl by simp
      show "same_frame c (set_index m ?c)" by (rule c2(2))
      fix q
      show "objs (set_index m ?c) q = map_option (reindexed j) (objs c q)"
        if "k \<le> j \<and> j < Suc m \<and> slots c ! (j + 1) = Some q" for j
      proof (cases "j = m")
        case True
        then have "q = p" using that p by simp
        then show ?thesis using c2(3) Lp True by simp
      next
        case False
        then have "k \<le> j" "j < m" "q \<noteq> p" using that notp [of "j + 1"] by auto
        then show ?thesis using IH(3) [of j q] that c2(3) by simp
      qed
      show "objs (set_index m ?c) q = objs c q" if a: "\<forall>j. k \<le> j \<and> j < Suc m \<longrightarrow> slots c ! (j + 1) \<noteq> Some q"
      proof -
        have "q \<noteq> p" using a p True by auto
        then show ?thesis using IH(4) [of q] a c2(3) by simp
      qed
    qed
  qed (use IH in \<open>auto simp: shift_layers_down_def map_down_def same_frame_def\<close>)
qed (simp add: shift_layers_down_def map_down_def same_frame_def)

section \<open>The invariant of a map's layers\<close>

definition placed :: "nat \<Rightarrow> 'd layerData children \<Rightarrow> nat \<Rightarrow> bool" where
  "placed self c i \<longleftrightarrow>
     (\<exists>p v. slots c ! i = Some p \<and> objs c p = Some v \<and> lindex (payload v) = int i \<and> lmap (payload v) = Some self)"

definition layers_ok :: "nat \<Rightarrow> 'd mapObj \<Rightarrow> bool" where
  "layers_ok self m \<longleftrightarrow>
     children_ok (mlayers m) \<and> (\<forall>i<numlayers m. placed self (mlayers m) i)
     \<and> length (layerorder m) = length (slots (mlayers m))
     \<and> order_ok (numlayers m) (take (numlayers m) (layerorder m))"

text \<open>The layers in the order in which they are drawn.\<close>

definition draw :: "'d mapObj \<Rightarrow> nat option list" where
  "draw m = map (\<lambda>x. items (mlayers m) ! nat x) (take (numlayers m) (layerorder m))"

lemma children_ok_cong:
  assumes "slots c' = slots c" and "used c' = used c" and "next_addr c' = next_addr c" and "fault c' = fault c"
    and "dom (objs c') = dom (objs c)"
  shows "children_ok c' = children_ok c \<and> items c' = items c"
  using assms unfolding children_ok_def items_def spares_def by (simp del: domIff)

lemma items_distinct:
  assumes "children_ok c" and "i < used c" and "j < used c" and "slots c ! i = slots c ! j"
  shows "i = j"
proof -
  have "length (items c) = used c" "distinct (items c)" using assms(1) by (simp_all add: children_ok_def)
  moreover have "items c ! i = items c ! j" using assms by (simp add: items_def)
  ultimately show ?thesis using assms(2,3) by (simp add: nth_eq_iff_index_eq)
qed

lemma insert_layers:
  assumes ok: "children_ok c0" and n: "used c0 < length (slots c0)" and pl: "\<And>i. i < used c0 \<Longrightarrow> placed self c0 i"
    and p: "p \<in> dom (objs c0)" "Some p \<notin> set (slots c0)" and k: "k \<le> used c0"
    and own: "own = (\<lambda>d. d\<lparr>lindex := int k, lmap := Some self\<rparr>)"
    and c: "c = forget (slots c0 ! used c0) c0"
    and c1: "c1 = shift_layers_up (used c0) k c"
    and c3: "c3 = (change p (refcnt_add 1) (set_layer k own (c1\<lparr>slots := (slots c1)[k := Some p]\<rparr>)))\<lparr>used := used c0 + 1\<rparr>"
  shows "children_ok c3 \<and> items c3 = insert_at k (Some p) (items c0) \<and> (\<forall>i<used c0 + 1. placed self c3 i)"
proof -
  let ?n = "used c0"
  have notspare: "slots c0 ! ?n \<noteq> slots c0 ! i" if "i < ?n" for i
  proof -
    have "slots c0 ! ?n \<in> set (spares c0)" using n by (simp add: spares_def Cons_nth_drop_Suc [symmetric])
    moreover have "slots c0 ! i \<in> set (items c0)" using that n by (auto simp: items_def in_set_conv_nth)
    ultimately show ?thesis using ok by (auto simp: children_ok_def)
  qed
  have objs_c: "objs c q = objs c0 q" if "slots c0 ! ?n \<noteq> Some q" for q using that by (simp add: c forget_objs)
  have live: "\<exists>q. slots c ! i = Some q \<and> q \<in> dom (objs c)" if "i < ?n" for i
    using item_at [OF ok that] notspare [OF that] by (auto simp: c)
  have "distinct (take ?n (slots c))" using ok by (simp add: c children_ok_def items_def)
  note sh = shift_layers_up_spec [of ?n c, OF _ live this, of k, folded c1]
  have sl1: "slots c1 = shift_up ?n k (slots c0)" "same_frame c c1" using sh n by (simp_all add: c)
  have pc: "p \<in> dom (objs c)" using p n by (auto simp: c in_set_conv_nth)
  have pn: "slots c0 ! j \<noteq> Some p" if "j < length (slots c0)" for j using p(2) that by (metis nth_mem)
  have o1p: "objs c1 p = objs c0 p"
  proof -
    have "\<forall>j. k \<le> j \<and> j < ?n \<longrightarrow> slots c ! j \<noteq> Some p" using pn n by (simp add: c)
    then show ?thesis using sh n objs_c pn by (simp add: c)
  qed
  obtain v where v: "objs c0 p = Some v" using p(1) by auto
  have kl: "k < length (slots c1)" using k n sl1(1) by simp
  define w where "w = refcnt_add 1 (v\<lparr>payload := own (payload v)\<rparr>)"
  have o3: "objs c3 = (objs c1)(p \<mapsto> w)" "slots c3 = (shift_up ?n k (slots c0))[k := Some p]" "used c3 = ?n + 1"
    "next_addr c3 = next_addr c" "fault c3 = fault c"
    using kl v o1p sl1 unfolding c3 w_def by (auto simp: set_layer_def change_def same_frame_def)
  have "dom (objs c3) = dom (objs c)" using o3(1) sl1(2) pc by (auto simp: same_frame_def)
  then have ok3: "children_ok c3 \<and> items c3 = insert_at k (Some p) (items c0)"
    using children_ok_cong [of c3 "put_at k p c"] o3 free_spare_put [OF ok n p k] by (simp add: c put_at_def)
  have "placed self c3 i" if i: "i < ?n + 1" for i
  proof -
    consider "i = k" | "i < k" | "k < i" by linarith
    then show ?thesis
    proof cases
      case 1
      then show ?thesis using o3 kl sl1(1) by (simp add: placed_def w_def own refcnt_add_def)
    next
      case 2
      then have i': "i < ?n" using k by simp
      obtain q u where q: "slots c0 ! i = Some q" "objs c0 q = Some u" "lindex (payload u) = int i" "lmap (payload u) = Some self"
        using pl [OF i'] by (auto simp: placed_def)
      have "slots c3 ! i = Some q" using 2 q n i' shift_up_nth [OF n, of k] by (simp add: o3)
      moreover have "q \<noteq> p" using q(1) pn i' n by auto
      moreover have "objs c1 q = objs c q"
      proof -
        have "\<forall>j. k \<le> j \<and> j < ?n \<longrightarrow> slots c ! j \<noteq> Some q"
          using items_distinct [OF ok i'] q(1) 2 by (auto simp: c)
        then show ?thesis using sh n by (simp add: c)
      qed
      moreover have "objs c q = objs c0 q" using objs_c notspare [OF i'] q(1) by auto
      ultimately show ?thesis using q o3(1) by (simp add: placed_def)
    next
      case 3
      then have i': "i - 1 < ?n" "k \<le> i - 1" using i by auto
      obtain q u where q: "slots c0 ! (i - 1) = Some q" "objs c0 q = Some u" "lmap (payload u) = Some self"
        using pl [OF i'(1)] by (auto simp: placed_def)
      have "slots c3 ! i = Some q" using 3 q n i shift_up_nth [OF n, of k] by (simp add: o3)
      moreover have "q \<noteq> p" using q(1) pn i' n by auto
      moreover have "objs c1 q = map_option (reindexed i) (objs c q)"
        using sh n i' q(1) 3 by (auto simp: c)
      moreover have "objs c q = objs c0 q" using objs_c notspare [OF i'(1)] q(1) by auto
      ultimately show ?thesis using q o3(1) 3 by (simp add: placed_def reindexed_def)
    qed
  qed
  then show ?thesis using ok3 by blast
qed

lemma remove_layers:
  assumes ok: "children_ok c" and pl: "\<And>i. i < used c \<Longrightarrow> placed self c i" and k: "k < used c" and p: "slots c ! k = Some p"
    and c1: "c1 = shift_layers_down (used c) k c"
    and c3: "c3 = change p f (c1\<lparr>slots := (slots c1)[used c - 1 := None], used := used c - 1\<rparr>)"
  shows "children_ok c3 \<and> items c3 = remove_at k (items c) \<and> (\<forall>i<used c - 1. placed self c3 i)
    \<and> objs c3 p = map_option f (objs c p)"
proof -
  obtain m where m: "used c = Suc m" using k by (cases "used c") auto
  have u: "m < length (slots c)" using ok m by (simp add: children_ok_def)
  have live: "\<exists>q. slots c ! i = Some q \<and> q \<in> dom (objs c)" if "i \<le> m" for i
    using item_at [OF ok, of i] that m by auto
  have "distinct (take (Suc m) (slots c))" using ok m by (simp add: children_ok_def items_def)
  note sh = shift_layers_down_spec [OF u live this, of k, folded m, folded c1]
  have sl1: "slots c1 = shift_down (used c) k (slots c)" "same_frame c c1"
    using sh m by (simp_all add: shift_down_map)
  have o1p: "objs c1 p = objs c p"
  proof -
    have "\<forall>j. k \<le> j \<and> j < m \<longrightarrow> slots c ! (j + 1) \<noteq> Some p"
    proof (intro allI impI notI)
      fix j assume j: "k \<le> j \<and> j < m" "slots c ! (j + 1) = Some p"
      then have "slots c ! (j + 1) = slots c ! k" using p by simp
      then show False using items_distinct [OF ok, of "j + 1" k] k j m by simp
    qed
    then show ?thesis using sh by blast
  qed
  have pc: "p \<in> dom (objs c)" using item_at [OF ok k] p by auto
  then obtain v1 where pd: "objs c1 p = Some v1" using sl1(2) unfolding same_frame_def by blast
  have o3: "slots c3 = slots (take_out k c)" "used c3 = m" "next_addr c3 = next_addr c" "fault c3 = fault c"
    "dom (objs c3) = dom (objs c)" "objs c3 = (objs c1)(p := map_option f (objs c1 p))"
    using pd sl1 m pc unfolding c3 by (auto simp: take_out_def same_frame_def change_def)
  have "children_ok c3 \<and> items c3 = remove_at k (items c)"
    using children_ok_cong [of c3 "take_out k c"] o3 take_out_ok [OF ok k] m by (simp add: take_out_def)
  moreover have "placed self c3 i" if i: "i < m" for i
  proof (cases "i < k")
    case True
    obtain q v where q: "slots c ! i = Some q" "objs c q = Some v" "lindex (payload v) = int i" "lmap (payload v) = Some self"
      using pl [of i] i m by (auto simp: placed_def)
    have "slots c3 ! i = Some q" using q True i u shift_down_nth [of "used c" "slots c" k] m by (simp add: o3 take_out_def)
    moreover have "q \<noteq> p" using items_distinct [OF ok, of i k] q(1) p True k by auto
    moreover have "\<forall>j. k \<le> j \<and> j < m \<longrightarrow> slots c ! (j + 1) \<noteq> Some q"
    proof (intro allI impI notI)
      fix j assume j: "k \<le> j \<and> j < m" "slots c ! (j + 1) = Some q"
      then show False using items_distinct [OF ok, of "j + 1" i] q(1) i m True by simp
    qed
    ultimately show ?thesis using q o3(6) sh by (auto simp: placed_def)
  next
    case False
    obtain q v where q: "slots c ! (i + 1) = Some q" "objs c q = Some v" "lmap (payload v) = Some self"
      using pl [of "i + 1"] i m by (auto simp: placed_def)
    have "slots c3 ! i = Some q" using q False i u shift_down_nth [of "used c" "slots c" k] m by (simp add: o3 take_out_def)
    moreover have "q \<noteq> p" using items_distinct [OF ok, of "i + 1" k] q(1) p False i m k by auto
    moreover have "objs c1 q = map_option (reindexed i) (objs c q)" using sh q(1) False i by auto
    ultimately show ?thesis using q o3(6) by (simp add: placed_def reindexed_def)
  qed
  ultimately show ?thesis using o3(6) o1p m by simp
qed

lemma draw_insert:
  assumes "order_ok n xs" and "length its = n" and "k \<le> n"
  shows "map (\<lambda>x. insert_at k q its ! nat x) (insert_at k (int k) (map (bump (int k)) xs))
    = insert_at k q (map (\<lambda>x. its ! nat x) xs)"
proof -
  have "insert_at k q its ! nat (bump (int k) x) = its ! nat x" if "x \<in> set xs" for x
    using that assms by (auto simp: order_ok_def nth_insert_at bump_def nat_add_distrib)
  then have e: "map (\<lambda>x. insert_at k q its ! nat (bump (int k) x)) xs = map (\<lambda>x. its ! nat x) xs"
    by (rule map_cong [OF refl])
  have "map g (insert_at k x ys) = insert_at k (g x) (map g ys)" for g :: "int \<Rightarrow> 'a" and x ys
    by (simp add: insert_at_def take_map drop_map)
  then have "map (\<lambda>x. insert_at k q its ! nat x) (insert_at k (int k) (map (bump (int k)) xs))
      = insert_at k (insert_at k q its ! nat (int k)) (map (\<lambda>x. insert_at k q its ! nat (bump (int k) x)) xs)"
    by (simp only: map_map comp_def)
  then show ?thesis using e assms(2,3) by simp
qed

lemma draw_remove:
  assumes "order_ok n xs" and "length its = n" and "f < n" and "xs ! f = int k" and "k < n"
  shows "map (\<lambda>x. remove_at k its ! nat x) (map (lower_by (int k)) (remove_at f xs))
    = remove_at f (map (\<lambda>x. its ! nat x) xs)"
proof -
  have xs: "length xs = n" "distinct xs" "set xs = {0..<int n}" using assms(1) by (auto simp: order_ok_def)
  have notk: "int k \<notin> set (remove_at f xs)" using remove_at_distinct(2) [OF xs(2), of f] assms(3,4) xs(1) by simp
  have sub: "set (remove_at f xs) \<subseteq> set xs" by (auto simp: remove_at_def dest: in_set_takeD in_set_dropD)
  have "remove_at k its ! nat (lower_by (int k) x) = its ! nat x" if "x \<in> set (remove_at f xs)" for x
  proof -
    have x: "0 \<le> x" "x < int n" "x \<noteq> int k" using that notk sub xs(3) by auto
    show ?thesis
    proof (cases "int k < x")
      case True
      then have "nat (lower_by (int k) x) = nat x - 1" "nat x - 1 < n - 1" "\<not> nat x - 1 < k" "nat x - 1 + 1 = nat x"
        using x by (auto simp: lower_by_def)
      then show ?thesis using nth_remove_at [of k its "nat x - 1"] assms(2,5) by simp
    next
      case False
      then have "nat (lower_by (int k) x) = nat x" "nat x < n - 1" "nat x < k" using x assms(5) by (auto simp: lower_by_def)
      then show ?thesis using nth_remove_at [of k its "nat x"] assms(2,5) by simp
    qed
  qed
  then have "map (\<lambda>x. remove_at k its ! nat (lower_by (int k) x)) (remove_at f xs) = map (\<lambda>x. its ! nat x) (remove_at f xs)"
    by simp
  then show ?thesis by (simp add: comp_def) (simp add: remove_at_def take_map drop_map)
qed

text \<open>Growing changes nothing that is in use.\<close>

lemma length_slots_grow:
  "length (slots (grow n z c)) = (if used c = length (slots c) then length (slots c) + n else length (slots c))"
  by (simp add: grow_def heap_alloc_def Let_def)

lemma msGrowMapLayers_ok:
  assumes "layers_ok self m" and "numlayers m = length (slots (mlayers m))"
  shows "layers_ok self (msGrowMapLayers z m) \<and> numlayers (msGrowMapLayers z m) = numlayers m
    \<and> numlayers m < length (slots (mlayers (msGrowMapLayers z m)))
    \<and> items (mlayers (msGrowMapLayers z m)) = items (mlayers m) \<and> draw (msGrowMapLayers z m) = draw m
    \<and> (fits_in (mlayers m) p \<longrightarrow> fits_in (mlayers (msGrowMapLayers z m)) p)"
proof -
  let ?c = "mlayers m" and ?g = "grow 64 z (mlayers m)"
  have ok: "children_ok ?c" using assms(1) by (simp add: layers_ok_def)
  obtain q where g: "grown ?c q ?g" using grow_ok [OF ok, of 64] by auto
  have it: "items ?g = items ?c" "used ?g = used ?c" "children_ok ?g" "used ?c < length (slots ?g)"
    "\<And>r. r \<in> dom (objs ?c) \<Longrightarrow> objs ?g r = objs ?c r"
    using g by (auto simp: grown_def)
  have pl: "placed self ?g i" if i: "i < used ?c" for i
  proof -
    obtain r v where r: "slots ?c ! i = Some r" "objs ?c r = Some v" "lindex (payload v) = int i" "lmap (payload v) = Some self"
      using assms(1) i by (auto simp: layers_ok_def placed_def numlayers_def)
    have "slots ?g ! i = slots ?c ! i" using arg_cong [OF it(1), of "\<lambda>xs. xs ! i"] it(2) i by (simp add: items_def)
    then show ?thesis using r it(5) [of r] by (auto simp: placed_def)
  qed
  have o: "take (numlayers m) (layerorder m @ replicate 64 0) = take (numlayers m) (layerorder m)"
    using assms by (simp add: layers_ok_def numlayers_def)
  have fit: "fits_in ?c p \<longrightarrow> fits_in ?g p"
    using g unfolding grown_def fits_in_def by blast
  show ?thesis
    using assms it(1-4) pl o fit length_slots_grow [of 64 z ?c]
    by (auto simp: layers_ok_def msGrowMapLayers_def numlayers_def draw_def)
qed

lemma msInsertLayer_ok:
  assumes ok: "layers_ok self m" and fit: "fits_in (mlayers m) p" and i: "i < int (numlayers m)"
  shows "\<exists>k m'. msInsertLayer z self m (Some p) i = (int k, m', []) \<and> k = (if i < 0 then numlayers m else nat i)
    \<and> layers_ok self m' \<and> items (mlayers m') = insert_at k (Some p) (items (mlayers m))
    \<and> draw m' = insert_at k (Some p) (draw m)"
proof -
  define m1 where "m1 = (if numlayers m = length (slots (mlayers m)) then msGrowMapLayers z m else m)"
  have "layers_ok self m1 \<and> numlayers m1 = numlayers m \<and> numlayers m < length (slots (mlayers m1))
      \<and> items (mlayers m1) = items (mlayers m) \<and> draw m1 = draw m \<and> fits_in (mlayers m1) p"
  proof (cases "numlayers m = length (slots (mlayers m))")
    case True
    then show ?thesis using msGrowMapLayers_ok [OF ok True, of z p] fit by (simp add: m1_def)
  next
    case False
    moreover have "numlayers m \<le> length (slots (mlayers m))"
      using ok by (simp add: layers_ok_def children_ok_def numlayers_def)
    ultimately show ?thesis using ok fit by (simp add: m1_def)
  qed
  then have m1: "layers_ok self m1" "numlayers m1 = numlayers m" "numlayers m < length (slots (mlayers m1))"
    "items (mlayers m1) = items (mlayers m)" "draw m1 = draw m" "fits_in (mlayers m1) p" by auto
  let ?n = "numlayers m" and ?c0 = "mlayers m1" and ?ord = "layerorder m1"
  define k where "k = (if i < 0 then ?n else nat i)"
  have k: "k \<le> ?n" using i by (auto simp: k_def)
  have un: "used ?c0 = ?n" using m1(2) by (simp add: numlayers_def)
  have c0: "children_ok ?c0" "\<And>j. j < used ?c0 \<Longrightarrow> placed self ?c0 j" "p \<in> dom (objs ?c0)" "Some p \<notin> set (slots ?c0)"
    "length ?ord = length (slots ?c0)" "order_ok ?n (take ?n ?ord)"
    using m1 un by (auto simp: layers_ok_def fits_in_def numlayers_def)
  define c where "c = forget (slots ?c0 ! ?n) ?c0"
  have hf: "heap_free (slots ?c0 ! ?n) ?c0 = c"
    using free_spare_put [OF c0(1) _ c0(3,4), of 0] m1(3) un by (simp add: c_def)
  define c1 where "c1 = shift_layers_up ?n k c"
  define own where "own = (\<lambda>d::'a layerData. d\<lparr>lindex := int k, lmap := Some self\<rparr>)"
  define c3 where "c3 = (change p (refcnt_add 1) (set_layer k own (c1\<lparr>slots := (slots c1)[k := Some p]\<rparr>)))\<lparr>used := ?n + 1\<rparr>"
  have c3: "children_ok c3" "items c3 = insert_at k (Some p) (items (mlayers m))" "\<forall>j<?n + 1. placed self c3 j"
    using insert_layers [OF c0(1) _ c0(2-4), of k own c c1 c3] m1(3,4) k un
    by (auto simp: own_def c_def c1_def c3_def)
  have u3: "used c3 = ?n + 1" by (simp add: c3_def)
  define ord' where "ord' = (if i < 0 then ?ord[?n := int ?n] else order_insert ?n k ?ord)"
  have lo: "?n < length ?ord" using c0(5) m1(3) by simp
  have ord': "take (Suc ?n) ord' = insert_at k (int k) (map (bump (int k)) (take ?n ?ord))" "length ord' = length ?ord"
  proof -
    have "map (bump (int ?n)) (take ?n ?ord) = take ?n ?ord"
      using c0(6) by (intro map_idI) (auto simp: order_ok_def bump_def)
    then have "take (Suc ?n) (?ord[?n := int ?n]) = insert_at ?n (int ?n) (map (bump (int ?n)) (take ?n ?ord))"
      using lo by (simp add: take_Suc_conv_app_nth insert_at_def)
    then show "take (Suc ?n) ord' = insert_at k (int k) (map (bump (int k)) (take ?n ?ord))" "length ord' = length ?ord"
      using order_insert_take [OF lo k] by (auto simp: ord'_def k_def)
  qed
  have res: "msInsertLayer z self m (Some p) i = (int k, m1\<lparr>layerorder := ord', mlayers := c3\<rparr>, [])"
  proof (cases "i < 0")
    case True
    then have "k = ?n" "c1 = c" by (simp_all add: k_def c1_def shift_layers_up_def)
    then show ?thesis using True hf m1(2)
      by (simp add: msInsertLayer_def Let_def m1_def [symmetric] ord'_def c3_def own_def)
  next
    case False
    then show ?thesis using hf m1(2) i
      by (simp add: msInsertLayer_def Let_def m1_def [symmetric] ord'_def c3_def own_def c1_def k_def)
  qed
  have lenc3: "length (slots c3) = length (slots ?c0)"
  proof -
    have "slots c3 = (slots c1)[k := Some p]"
      unfolding c3_def by (auto simp: set_layer_def split: option.split)
    moreover have "length (slots c1) = length (slots c)"
    proof -
      have "length (slots (foldl (\<lambda>c i. set_index (i + 1) (c\<lparr>slots := (slots c)[i + 1 := slots c ! i]\<rparr>)) d is)) = length (slots d)"
        for d :: "'a layerData children" and "is"
        by (induction "is" arbitrary: d) (auto simp: set_index_def set_layer_def split: option.split)
      then show ?thesis by (simp add: c1_def shift_layers_up_def)
    qed
    ultimately show ?thesis by (simp add: c_def)
  qed
  let ?m = "m1\<lparr>layerorder := ord', mlayers := c3\<rparr>"
  have "layers_ok self ?m"
    using c3 u3 ord' lenc3 c0(5) order_ok_insert [OF c0(6) k] by (simp add: layers_ok_def numlayers_def)
  moreover have "draw ?m = insert_at k (Some p) (draw m)"
    using draw_insert [OF c0(6) _ k, of "items (mlayers m)" "Some p"] c3(2) u3 ord'(1) m1(4,5) ok un
    by (simp add: draw_def numlayers_def layers_ok_def children_ok_def)
  ultimately show ?thesis using res c3(2) by (auto simp: k_def)
qed

text \<open>Where the search loop of \<open>msRemoveLayer\<close> stops.\<close>

definition first_hit :: "int \<Rightarrow> int list \<Rightarrow> nat" where
  "first_hit k xs = length (takeWhile (\<lambda>x. \<not> hit k x) xs)"

lemma first_hit:
  assumes "order_ok n xs" and "k < n"
  shows "first_hit (int k) xs < n \<and> hit (int k) (xs ! first_hit (int k) xs)
    \<and> (\<forall>j<first_hit (int k) xs. \<not> hit (int k) (xs ! j))"
proof -
  have "int k \<in> set xs" using assms by (simp add: order_ok_def)
  then have "\<exists>x\<in>set xs. hit (int k) x" by (auto simp: hit_def)
  then have l: "first_hit (int k) xs < length xs"
    unfolding first_hit_def by (metis (no_types, lifting) length_takeWhile_le nat_less_le takeWhile_eq_all_conv takeWhile_eq_take take_all_iff)
  moreover have "hit (int k) (xs ! first_hit (int k) xs)"
    using nth_length_takeWhile [of "\<lambda>x. \<not> hit (int k) x" xs] l by (simp add: first_hit_def)
  moreover have "\<not> hit (int k) (xs ! j)" if "j < first_hit (int k) xs" for j
    using that takeWhile_nth [of j "\<lambda>x. \<not> hit (int k) x" xs] nth_mem [of j "takeWhile (\<lambda>x. \<not> hit (int k) x) xs"]
    by (auto simp: first_hit_def dest: set_takeWhileD)
  ultimately show ?thesis using assms(1) by (simp add: order_ok_def)
qed

lemma msRemoveLayer_ok:
  assumes ok: "layers_ok self m" and k: "k < numlayers m"
  shows "\<exists>p m'. msRemoveLayer m (int k) = (Some p, m', []) \<and> items (mlayers m) ! k = Some p
    \<and> layers_ok self m' \<and> items (mlayers m') = remove_at k (items (mlayers m))
    \<and> take (numlayers m') (layerorder m') = map (lower_by (int k))
        (remove_at (first_hit (int k) (take (numlayers m) (layerorder m))) (take (numlayers m) (layerorder m)))
    \<and> objs (mlayers m') p = map_option (\<lambda>v. refcnt_add (-1) (v\<lparr>payload := (payload v)\<lparr>reprojectors := (False, False), lmap := None\<rparr>\<rparr>))
        (objs (mlayers m) p)"
proof -
  let ?c = "mlayers m" and ?n = "numlayers m" and ?ord = "layerorder m"
  let ?f = "\<lambda>v. refcnt_add (-1) (v\<lparr>payload := (payload v)\<lparr>reprojectors := (False, False), lmap := None\<rparr>\<rparr>)"
  have c: "children_ok ?c" "\<And>j. j < used ?c \<Longrightarrow> placed self ?c j" "length ?ord = length (slots ?c)"
    "order_ok ?n (take ?n ?ord)" "used ?c = ?n"
    using ok by (auto simp: layers_ok_def numlayers_def)
  have k': "k < used ?c" using k c(5) by simp
  obtain p where p: "slots ?c ! k = Some p" "items ?c ! k = Some p" using item_at [OF c(1) k'] by auto
  define c1 where "c1 = shift_layers_down ?n k ?c"
  define c3 where "c3 = change p ?f (c1\<lparr>slots := (slots c1)[?n - 1 := None], used := ?n - 1\<rparr>)"
  have c3: "children_ok c3" "items c3 = remove_at k (items ?c)" "\<And>j. j < ?n - 1 \<Longrightarrow> placed self c3 j"
    "objs c3 p = map_option ?f (objs ?c p)"
    using remove_layers [OF c(1,2) k' p(1), of c1 c3 ?f] c(5) by (auto simp: c1_def c3_def)
  have u3: "used c3 = ?n - 1" by (simp add: c3_def)
  have lenc3: "length (slots c3) = length (slots ?c)"
  proof -
    have "length (slots (foldl (\<lambda>c i. set_index i (c\<lparr>slots := (slots c)[i := slots c ! (i + 1)]\<rparr>)) d is)) = length (slots d)"
      for d :: "'a layerData children" and "is"
      by (induction "is" arbitrary: d) (auto simp: set_index_def set_layer_def split: option.split)
    then show ?thesis by (simp add: c3_def c1_def shift_layers_down_def)
  qed
  let ?f0 = "first_hit (int k) (take ?n ?ord)"
  note h = first_hit [OF c(4) k]
  have nl: "?n \<le> length ?ord" using c(3,5) c(1) by (simp add: children_ok_def)
  have o: "take (?n - 1) (order_remove ?n (int k) ?ord) = map (lower_by (int k)) (remove_at ?f0 (take ?n ?ord))"
    "length (order_remove ?n (int k) ?ord) = length ?ord"
    using order_remove_take [OF nl, of ?f0 "int k"] h by auto
  let ?m = "m\<lparr>mlayers := c3, layerorder := order_remove ?n (int k) ?ord\<rparr>"
  have "msRemoveLayer m (int k) = (Some p, ?m, [])"
    using k p by (simp add: msRemoveLayer_def Let_def c3_def c1_def)
  moreover have "order_ok (?n - 1) (map (lower_by (int k)) (remove_at ?f0 (take ?n ?ord)))"
    by (rule order_ok_remove [OF c(4)]) (use h k in auto)
  then have "layers_ok self ?m"
    using c3 u3 lenc3 o c(3) by (simp add: layers_ok_def numlayers_def)
  ultimately show ?thesis using c3 p o u3 by (simp add: numlayers_def)
qed

section \<open>Layers as ordered children\<close>

interpretation layers: ordered_children "layers_ok self" "\<lambda>m. items (mlayers m)" "\<lambda>m. fits_in (mlayers m)"
  "\<lambda>m p i. no_reports (msInsertLayer z self m (Some p) i)" "\<lambda>m i. no_reports (msRemoveLayer m i)"
  for z :: "'d layerData" and self :: nat
proof
  fix m :: "'d mapObj" and p :: nat and i :: int
  assume ok: "layers_ok self m"
  then have len: "length (items (mlayers m)) = numlayers m" by (simp add: layers_ok_def children_ok_def numlayers_def)
  let ?ins = "no_reports (msInsertLayer z self m (Some p) i)"
  show "fits_in (mlayers m) p \<Longrightarrow> i < 0 \<Longrightarrow> fst ?ins = int (length (items (mlayers m)))
      \<and> items (mlayers (snd ?ins)) = items (mlayers m) @ [Some p] \<and> layers_ok self (snd ?ins)"
    using msInsertLayer_ok [OF ok, of p i z] len by (auto simp: insert_at_def)
  show "fits_in (mlayers m) p \<Longrightarrow> 0 \<le> i \<Longrightarrow> i < int (length (items (mlayers m))) \<Longrightarrow>
      fst ?ins = i \<and> items (mlayers (snd ?ins)) = insert_at (nat i) (Some p) (items (mlayers m)) \<and> layers_ok self (snd ?ins)"
    using msInsertLayer_ok [OF ok, of p i z] len by auto
  show "fits_in (mlayers m) p \<Longrightarrow> int (length (items (mlayers m))) \<le> i \<Longrightarrow>
      fst ?ins = -1 \<and> items (mlayers (snd ?ins)) = items (mlayers m)"
  proof -
    assume "int (length (items (mlayers m))) \<le> i"
    moreover have "items (heap_free q c) = items c" for q and c :: "'d layerData children"
      by (auto simp: heap_free_def split: option.split)
    moreover have "numlayers (msGrowMapLayers z m) = numlayers m" "items (mlayers (msGrowMapLayers z m)) = items (mlayers m)"
      if "numlayers m = length (slots (mlayers m))"
      using msGrowMapLayers_ok [OF ok that, of z] by auto
    ultimately show ?thesis using len by (auto simp: msInsertLayer_def Let_def)
  qed
  show "0 \<le> i \<Longrightarrow> i < int (length (items (mlayers m))) \<Longrightarrow> fst (no_reports (msRemoveLayer m i)) = items (mlayers m) ! nat i
      \<and> items (mlayers (snd (no_reports (msRemoveLayer m i)))) = remove_at (nat i) (items (mlayers m))
      \<and> layers_ok self (snd (no_reports (msRemoveLayer m i)))"
    using msRemoveLayer_ok [OF ok, of "nat i"] len by (auto simp: nat_less_iff)
  show "i < 0 \<or> int (length (items (mlayers m))) \<le> i \<Longrightarrow> no_reports (msRemoveLayer m i) = (None, m)"
    using len by (simp add: msRemoveLayer_def)
qed

lemma find_order_Some:
  "x \<in> set xs \<Longrightarrow> \<exists>i. find_order xs x = Some i \<and> i < length xs \<and> xs ! i = x"
  by (induction xs) auto

lemma order_ok_swap:
  assumes "order_ok n xs" and "i < n" and "j < n"
  shows "order_ok n (xs[i := xs ! j, j := xs ! i])"
proof -
  have "mset (xs[i := xs ! j, j := xs ! i]) = mset xs" using assms by (simp add: mset_swap order_ok_def)
  then show ?thesis
    using assms(1) mset_eq_setD mset_eq_imp_distinct_iff unfolding order_ok_def by (metis length_list_update)
qed

lemma layers_ok_order:
  assumes "layers_ok self m" and "length ord = length (layerorder m)" and "order_ok (numlayers m) (take (numlayers m) ord)"
  shows "layers_ok self (m\<lparr>layerorder := ord\<rparr>)"
  using assms by (simp add: layers_ok_def numlayers_def)

text \<open>The place of a layer in the drawing order and the exchange with a neighbour.\<close>

lemma move_swap:
  assumes ok: "layers_ok self m" and i: "i < numlayers m" and j: "j < numlayers m"
  shows "layers_ok self (m\<lparr>layerorder := (layerorder m)[i := layerorder m ! j, j := layerorder m ! i]\<rparr>)
    \<and> draw (m\<lparr>layerorder := (layerorder m)[i := layerorder m ! j, j := layerorder m ! i]\<rparr>)
      = (draw m)[i := draw m ! j, j := draw m ! i]"
proof -
  let ?n = "numlayers m" and ?o = "layerorder m"
  have len: "?n \<le> length ?o" using ok by (simp add: layers_ok_def children_ok_def numlayers_def)
  have t: "take ?n (?o[i := ?o ! j, j := ?o ! i]) = (take ?n ?o)[i := take ?n ?o ! j, j := take ?n ?o ! i]"
    using i j by (simp add: take_update_swap)
  have "order_ok ?n (take ?n ?o)" using ok by (simp add: layers_ok_def)
  then have "order_ok ?n (take ?n (?o[i := ?o ! j, j := ?o ! i]))" using order_ok_swap [OF _ i j] t by simp
  then have "layers_ok self (m\<lparr>layerorder := ?o[i := ?o ! j, j := ?o ! i]\<rparr>)"
    using layers_ok_order [OF ok] by simp
  moreover have "draw (m\<lparr>layerorder := ?o[i := ?o ! j, j := ?o ! i]\<rparr>) = (draw m)[i := draw m ! j, j := draw m ! i]"
    using t i j len by (simp add: draw_def numlayers_def map_update)
  ultimately show ?thesis by blast
qed

section \<open>Properties\<close>

text \<open>C7. Inserting a layer into a well-formed map puts it at the given index (at the end for a
  negative one), renumbers the later layers, draws it at the place of that index and keeps
  the order in which the others are drawn; the drawing order stays a permutation, nothing is
  freed twice, and removing the layer again returns it and restores the sequence of layers.\<close>

theorem layer_insert:
  assumes "layers_ok self m" and "fits_in (mlayers m) p" and "i < int (numlayers m)"
  shows "\<exists>k m' m''. msInsertLayer z self m (Some p) i = (int k, m', []) \<and> k = (if i < 0 then numlayers m else nat i)
    \<and> layers_ok self m' \<and> items (mlayers m') = insert_at k (Some p) (items (mlayers m))
    \<and> draw m' = insert_at k (Some p) (draw m)
    \<and> no_reports (msRemoveLayer m' (int k)) = (Some p, m'') \<and> items (mlayers m'') = items (mlayers m)"
proof -
  have len: "length (items (mlayers m)) = numlayers m"
    using assms(1) by (simp add: layers_ok_def children_ok_def numlayers_def)
  obtain k m' where ins: "msInsertLayer z self m (Some p) i = (int k, m', [])" "k = (if i < 0 then numlayers m else nat i)"
    "layers_ok self m'" "items (mlayers m') = insert_at k (Some p) (items (mlayers m))" "draw m' = insert_at k (Some p) (draw m)"
    using msInsertLayer_ok [OF assms, of z] by blast
  have "fst (no_reports (msRemoveLayer m' (int k))) = Some p
      \<and> items (mlayers (snd (no_reports (msRemoveLayer m' (int k))))) = items (mlayers m)"
    using layers.insert_remove [OF assms(1,2), of i z] assms(3) len ins(1) by simp
  then show ?thesis using ins by (metis prod.collapse)
qed

definition sample_map :: "nat mapObj" where
  "sample_map = \<lparr>mlayers = \<lparr>slots = [Some 0, Some 1, Some 2], used = 3,
       objs = (\<lambda>a. if a < 3 then Some \<lparr>refcount = 1, payload = \<lparr>ldata = a, lindex = int a, lmap = Some 9, reprojectors = (False, False)\<rparr>\<rparr>
               else if a = 3 then Some \<lparr>refcount = 1, payload = \<lparr>ldata = 3, lindex = 0, lmap = None, reprojectors = (False, False)\<rparr>\<rparr>
               else None),
       next_addr = 4, fault = False\<rparr>, layerorder = [1, 2, 0]\<rparr>"

lemma sample_map_ok: "layers_ok 9 sample_map \<and> fits_in (mlayers sample_map) 3 \<and> numlayers sample_map = 3"
proof -
  have "{0..<int 3} = {0, 1, 2}" by auto
  moreover have "placed 9 (mlayers sample_map) i" if "i < 3" for i
  proof -
    have "i = 0 \<or> i = 1 \<or> i = 2" using that by linarith
    then have "slots (mlayers sample_map) ! i = Some i" by (auto simp: sample_map_def)
    then show ?thesis using that by (auto simp: placed_def sample_map_def)
  qed
  ultimately show ?thesis
    by (auto simp: sample_map_def layers_ok_def children_ok_def fits_in_def items_def spares_def numlayers_def order_ok_def
        split: if_splits)
qed

theorem layer_insert_witness:
  "\<exists>m'. msInsertLayer \<lparr>ldata = 0, lindex = 0, lmap = None, reprojectors = (False, False)\<rparr> 9 sample_map (Some 3) 1 = (1, m', [])
     \<and> items (mlayers m') = [Some 0, Some 3, Some 1, Some 2]"
proof -
  have "items (mlayers sample_map) = [Some 0, Some 1, Some 2]" by (simp add: sample_map_def items_def)
  then show ?thesis
    using layer_insert [of 9 sample_map 3 1 "\<lparr>ldata = 0, lindex = 0, lmap = None, reprojectors = (False, False)\<rparr>"] sample_map_ok
    by (auto simp: insert_at_def)
qed

text \<open>C30. Removing a layer returns it without an owner and with one reference less, closes the gap,
  renumbers the later layers and keeps the drawing order a permutation. The others keep the
  order in which they were drawn whenever the next layer (by index) is not drawn before the
  removed one.\<close>

theorem layer_remove:
  assumes "layers_ok self m" and "k < numlayers m"
  shows "\<exists>p m'. msRemoveLayer m (int k) = (Some p, m', []) \<and> items (mlayers m) ! k = Some p
    \<and> layers_ok self m' \<and> items (mlayers m') = remove_at k (items (mlayers m))
    \<and> (\<forall>v. objs (mlayers m) p = Some v \<longrightarrow> (\<exists>v'. objs (mlayers m') p = Some v' \<and> refcount v' = refcount v - 1
          \<and> lmap (payload v') = None \<and> reprojectors (payload v') = (False, False)))
    \<and> (let xs = take (numlayers m) (layerorder m); f = first_hit (int k) xs in
       xs ! f = int k \<longrightarrow> draw m' = remove_at f (draw m))"
proof -
  let ?xs = "take (numlayers m) (layerorder m)"
  have ord: "order_ok (numlayers m) ?xs" and len: "length (items (mlayers m)) = numlayers m"
    using assms(1) by (simp_all add: layers_ok_def children_ok_def numlayers_def)
  obtain p m' where r: "msRemoveLayer m (int k) = (Some p, m', [])" "items (mlayers m) ! k = Some p" "layers_ok self m'"
    "items (mlayers m') = remove_at k (items (mlayers m))"
    "take (numlayers m') (layerorder m') = map (lower_by (int k)) (remove_at (first_hit (int k) ?xs) ?xs)"
    "objs (mlayers m') p = map_option (\<lambda>v. refcnt_add (-1) (v\<lparr>payload := (payload v)\<lparr>reprojectors := (False, False), lmap := None\<rparr>\<rparr>))
        (objs (mlayers m) p)"
    using msRemoveLayer_ok [OF assms] by blast
  have "draw m' = remove_at (first_hit (int k) ?xs) (draw m)" if "?xs ! first_hit (int k) ?xs = int k"
    using draw_remove [OF ord len _ that assms(2)] first_hit [OF ord assms(2)] r(4,5) by (simp add: draw_def)
  then show ?thesis using r by (auto simp: Let_def refcnt_add_def)
qed

theorem layer_remove_witness:
  "\<exists>p m'. msRemoveLayer sample_map 1 = (Some p, m', []) \<and> layers_ok 9 m'"
  using layer_remove [of 9 sample_map 1] sample_map_ok by auto

text \<open>With the drawing order 1, 2, 0, removing layer 0 should leave the old layers 1 and 2 drawn in
  that order. The loop takes layer 1 for the removed one, and the old layer 2 is drawn
  first.\<close>

lemma layer_remove_reorders:
  "draw sample_map = [Some 1, Some 2, Some 0] \<and> draw (fst (snd (msRemoveLayer sample_map 0))) = [Some 2, Some 1]"
proof -
  have "\<exists>p m'. msRemoveLayer sample_map (int 0) = (Some p, m', [])
      \<and> items (mlayers m') = remove_at 0 (items (mlayers sample_map))
      \<and> take (numlayers m') (layerorder m') = map (lower_by (int 0))
        (remove_at (first_hit (int 0) (take (numlayers sample_map) (layerorder sample_map)))
          (take (numlayers sample_map) (layerorder sample_map)))"
    using msRemoveLayer_ok [of 9 sample_map 0] sample_map_ok by fastforce
  then show ?thesis
    by (auto simp: draw_def sample_map_def numlayers_def items_def remove_at_def first_hit_def hit_def lower_by_def)
qed

text \<open>An insertion past the end is refused, but only after the spare layer of the first free
  entry has been freed, and the entry keeps the pointer: repeating the refused insertion on a
  map with a spare layer frees the same object twice.\<close>

theorem layer_insert_double_free:
  assumes "layers_ok self m" and "fits_in (mlayers m) p" and "slots (mlayers m) ! numlayers m = Some q"
    and "numlayers m < length (slots (mlayers m))" and "int (numlayers m) \<le> i"
  shows "\<exists>m1 m2. no_reports (msInsertLayer z self m (Some p) i) = (-1, m1) \<and> \<not> fault (mlayers m1)
    \<and> no_reports (msInsertLayer z self m1 (Some p) i) = (-1, m2) \<and> fault (mlayers m2)"
proof -
  let ?c = "mlayers m"
  have ok: "children_ok ?c" using assms(1) by (simp add: layers_ok_def)
  have "slots ?c ! used ?c \<in> set (spares ?c)"
    using assms(4) by (simp add: spares_def numlayers_def Cons_nth_drop_Suc [symmetric])
  then obtain v where q: "objs ?c q = Some v" using ok assms(3) unfolding children_ok_def numlayers_def by auto
  let ?m1 = "m\<lparr>mlayers := ?c\<lparr>objs := (objs ?c)(q := None)\<rparr>\<rparr>"
  have 1: "no_reports (msInsertLayer z self m (Some p) i) = (-1, ?m1)"
    using assms(3-5) q by (simp add: msInsertLayer_def Let_def heap_free_def)
  have "no_reports (msInsertLayer z self ?m1 (Some p) i)
      = (-1, ?m1\<lparr>mlayers := (mlayers ?m1)\<lparr>fault := True\<rparr>\<rparr>)"
    using assms(3-5) by (simp add: msInsertLayer_def Let_def heap_free_def numlayers_def)
  moreover have "\<not> fault (mlayers ?m1)" using ok by (simp add: children_ok_def)
  ultimately show ?thesis using 1 by simp
qed

definition blank_layer :: "nat layerData" where
  "blank_layer = \<lparr>ldata = 0, lindex = 0, lmap = None, reprojectors = (False, False)\<rparr>"

theorem layer_insert_double_free_witness:
  "\<exists>m1 m2. no_reports (msInsertLayer blank_layer 9 (msGrowMapLayers blank_layer sample_map) (Some 3) 3) = (-1, m1) \<and> \<not> fault (mlayers m1)
    \<and> no_reports (msInsertLayer blank_layer 9 m1 (Some 3) 3) = (-1, m2) \<and> fault (mlayers m2)"
proof -
  let ?m = "msGrowMapLayers blank_layer sample_map"
  have g: "layers_ok 9 ?m" "numlayers ?m = 3" "3 < length (slots (mlayers ?m))" "fits_in (mlayers ?m) 3"
    using msGrowMapLayers_ok [of 9 sample_map blank_layer 3] sample_map_ok by (auto simp: sample_map_def numlayers_def)
  have "slots (mlayers ?m) ! 3 = Some 4"
    by (simp add: msGrowMapLayers_def grow_def sample_map_def heap_alloc_def Let_def nth_append)
  then show ?thesis using layer_insert_double_free [OF g(1,4), of 4 3 blank_layer] g by simp
qed

text \<open>Moving a layer up or down in the drawing order exchanges it with its neighbour in that
  order and changes nothing else; the first layer cannot move up, the last cannot move down,
  and an index that is no layer is refused with an error.\<close>

theorem layer_move:
  assumes "layers_ok self m" and "0 \<le> x" and "x < int (numlayers m)"
  shows "\<exists>i<numlayers m. layerorder m ! i = x
    \<and> (i = 0 \<longrightarrow> msMoveLayerUp m x = (MS_FAILURE, m, []))
    \<and> (0 < i \<longrightarrow> (\<exists>m'. msMoveLayerUp m x = (MS_SUCCESS, m', []) \<and> layers_ok self m'
          \<and> draw m' = (draw m)[i := draw m ! (i - 1), i - 1 := draw m ! i]))
    \<and> (i = numlayers m - 1 \<longrightarrow> msMoveLayerDown m x = (MS_FAILURE, m, []))
    \<and> (i < numlayers m - 1 \<longrightarrow> (\<exists>m'. msMoveLayerDown m x = (MS_SUCCESS, m', []) \<and> layers_ok self m'
          \<and> draw m' = (draw m)[i := draw m ! (i + 1), i + 1 := draw m ! i]))"
proof -
  let ?n = "numlayers m" and ?o = "layerorder m"
  have "x \<in> set (take ?n ?o)" using assms by (simp add: layers_ok_def order_ok_def)
  then obtain i where i: "find_order (take ?n ?o) x = Some i" "i < ?n" "?o ! i = x"
    using find_order_Some [of x "take ?n ?o"] by auto
  have up: "\<exists>m'. msMoveLayerUp m x = (MS_SUCCESS, m', []) \<and> layers_ok self m'
      \<and> draw m' = (draw m)[i := draw m ! (i - 1), i - 1 := draw m ! i]" if "0 < i"
    using that i assms move_swap [OF assms(1) i(2), of "i - 1"] by (simp add: msMoveLayerUp_def)
  have down: "\<exists>m'. msMoveLayerDown m x = (MS_SUCCESS, m', []) \<and> layers_ok self m'
      \<and> draw m' = (draw m)[i := draw m ! (i + 1), i + 1 := draw m ! i]" if "i < ?n - 1"
    using that i assms move_swap [OF assms(1) i(2), of "i + 1"] by (simp add: msMoveLayerDown_def)
  show ?thesis
    using i assms up down by (intro exI [of _ i]) (auto simp: msMoveLayerUp_def msMoveLayerDown_def)
qed

theorem layer_move_witness:
  "\<exists>m'. msMoveLayerUp sample_map 2 = (MS_SUCCESS, m', []) \<and> draw m' = [Some 2, Some 1, Some 0]"
proof -
  have n: "numlayers sample_map = 3" and o: "layerorder sample_map = [1, 2, 0]"
    and d: "draw sample_map = [Some 1, Some 2, Some 0]"
    by (simp_all add: sample_map_def numlayers_def draw_def items_def)
  obtain i where i: "i < 3" "layerorder sample_map ! i = 2"
    "0 < i \<longrightarrow> (\<exists>m'. msMoveLayerUp sample_map 2 = (MS_SUCCESS, m', []) \<and> layers_ok 9 m'
          \<and> draw m' = (draw sample_map)[i := draw sample_map ! (i - 1), i - 1 := draw sample_map ! i])"
    using layer_move [of 9 sample_map 2] sample_map_ok by auto
  then have "i = 1" using o by (auto simp: less_Suc_eq numeral_3_eq_3)
  then show ?thesis using i(3) d by auto
qed

text \<open>A drawing order is accepted exactly when it names every layer once; the map then draws in
  that order, and otherwise keeps its own.\<close>

theorem layer_set_order:
  assumes "layers_ok self m" and "length ord = numlayers m"
  shows "fst (msSetLayersdrawingOrder m ord) = order_ok (numlayers m) ord
    \<and> layers_ok self (snd (msSetLayersdrawingOrder m ord))
    \<and> draw (snd (msSetLayersdrawingOrder m ord))
      = (if order_ok (numlayers m) ord then map (\<lambda>x. items (mlayers m) ! nat x) ord else draw m)"
proof -
  let ?n = "numlayers m" and ?o = "map_here (\<lambda>i _. ord ! i) (numlayers m) (layerorder m)"
  have len: "?n \<le> length (layerorder m)" using assms(1) by (simp add: layers_ok_def children_ok_def numlayers_def)
  have "list_all (\<lambda>i. list_ex (\<lambda>j. ord ! j = int i) [0..<?n]) [0..<?n] \<longleftrightarrow> {0..<int ?n} \<subseteq> set ord"
  proof -
    have "list_ex (\<lambda>j. ord ! j = int i) [0..<?n] \<longleftrightarrow> int i \<in> set ord" for i
      using assms(2) by (auto simp: list_ex_iff in_set_conv_nth)
    moreover have "(\<forall>i<?n. int i \<in> set ord) \<longleftrightarrow> {0..<int ?n} \<subseteq> set ord"
      by (auto simp: subset_iff) (metis nonneg_int_cases of_nat_less_iff)
    ultimately show ?thesis by (auto simp: list_all_iff)
  qed
  also have "\<dots> \<longleftrightarrow> order_ok ?n ord"
  proof
    assume sub: "{0..<int ?n} \<subseteq> set ord"
    have "card {0..<int ?n} = length ord" using assms(2) by simp
    then have "set ord = {0..<int ?n}" "distinct ord"
      using sub card_length [of ord] card_mono [OF _ sub] card_subset_eq [OF _ sub] by (auto simp: card_distinct)
    then show "order_ok ?n ord" using assms(2) by (simp add: order_ok_def)
  qed (simp add: order_ok_def)
  finally have acc: "list_all (\<lambda>i. list_ex (\<lambda>j. ord ! j = int i) [0..<?n]) [0..<?n] = order_ok ?n ord" .
  have t: "take ?n ?o = ord" using len assms(2) by (intro nth_equalityI) (simp_all add: map_here_nth)
  show ?thesis
    using acc t layers_ok_order [OF assms(1), of ?o] assms(1)
    by (auto simp: msSetLayersdrawingOrder_def Let_def draw_def numlayers_def)
qed

theorem layer_set_order_witness:
  "fst (msSetLayersdrawingOrder sample_map [2, 0, 1]) \<and> \<not> fst (msSetLayersdrawingOrder sample_map [2, 2, 1])"
proof -
  have "{0..<int 3} = {0, 1, 2}" by auto
  then show ?thesis
    using layer_set_order [of 9 sample_map "[2, 0, 1]"] layer_set_order [of 9 sample_map "[2, 2, 1]"] sample_map_ok
    by (auto simp: order_ok_def)
qed

end
