(* ===== verification/MapPool.thy ===== *)
theory MapPool
  imports MS_Prelude
begin

text \<open>
  The connection pool (\<open>mappool.c\<close>): a process-wide table of open database connections which
  the layer drivers register, request and release.

  \<open>connectionCount\<close> is the length of \<open>connections\<close>; the capacity \<open>connectionMax\<close> is kept. The
  field \<open>closed_handles\<close> records the calls of the \<open>close\<close> callbacks in their order. A thread
  identifier and a connection handle are addresses, thread 0 standing for the null pointer that
  \<open>msConnPoolRelease\<close> stores. The value of the processing key \<open>CLOSE_CONNECTION\<close>, which
  \<open>msLayerGetProcessingKey\<close> reads through \<open>CSLFetchNameValue\<close> of GDAL, is a field of the layer.
  The thread that runs an operation, the time it reads and the success of \<open>realloc\<close> are
  arguments. Every operation does all its work on the table between acquiring and releasing
  \<open>TLOCK_POOL\<close>, so an execution of several threads is a sequence of whole operations: the
  relation \<open>pool_step\<close> below, which also keeps, for every thread, the handles it was given and has
  not released.
\<close>

section \<open>State\<close>

abbreviation (input) MS_LIFE_FOREVER :: int where "MS_LIFE_FOREVER \<equiv> -1"
abbreviation (input) MS_LIFE_ZEROREF :: int where "MS_LIFE_ZEROREF \<equiv> -2"
abbreviation (input) MS_LIFE_SINGLE :: int where "MS_LIFE_SINGLE \<equiv> -3"

abbreviation (input) MS_OGR :: int where "MS_OGR \<equiv> 4"

record connectionObj =
  conn_type :: int
  conn_string :: string
  lifespan :: int
  ref_count :: int
  thread_id :: nat
  conn_debug :: int
  last_used :: int
  conn_handle :: nat
  has_close :: bool

record connPool =
  connections :: "connectionObj list"
  connectionMax :: nat
  closed_handles :: "nat list"

text \<open>What the pool reads of a layer.\<close>

record poolLayer =
  pl_connection :: "string option"
  pl_connectiontype :: int
  pl_tileindex :: "string option"
  pl_debug :: int
  pl_close_connection :: "string option"

definition pool_empty :: connPool where
  "pool_empty = \<lparr>connections = [], connectionMax = 0, closed_handles = []\<rparr>"

section \<open>Operations\<close>

definition close_lifespan :: "string option \<Rightarrow> int \<times> report list" where
  "close_lifespan key =
     (let close_connection = (case key of None \<Rightarrow> ''NORMAL'' | Some v \<Rightarrow> v) in
      if strcasecmp close_connection ''NORMAL'' = 0 then (MS_LIFE_ZEROREF, [])
      else if strcasecmp close_connection ''DEFER'' = 0 then (MS_LIFE_FOREVER, [])
      else if strcasecmp close_connection ''ALWAYS'' = 0 then (MS_LIFE_SINGLE, [])
      else (MS_LIFE_ZEROREF,
            [Report MS_MISCERR ''Unrecognised CLOSE_CONNECTION value'' ''msConnPoolRegister()'']))"

definition new_connection :: "nat \<Rightarrow> int \<Rightarrow> poolLayer \<Rightarrow> string \<Rightarrow> nat \<Rightarrow> bool \<Rightarrow> connectionObj" where
  "new_connection tid now layer str handle close =
     \<lparr>conn_type = pl_connectiontype layer, conn_string = str,
      lifespan = fst (close_lifespan (pl_close_connection layer)), ref_count = 1,
      thread_id = tid, conn_debug = pl_debug layer, last_used = now, conn_handle = handle,
      has_close = close\<rparr>"

definition msConnPoolRegister ::
  "bool \<Rightarrow> nat \<Rightarrow> int \<Rightarrow> poolLayer \<Rightarrow> nat \<Rightarrow> bool \<Rightarrow> connPool \<Rightarrow> connPool \<times> report list" where
  "msConnPoolRegister realloc_ok tid now layer handle close p =
     (case pl_connection layer of
        None \<Rightarrow>
          (p, if pl_tileindex layer \<noteq> None \<and> pl_connectiontype layer = MS_OGR then []
              else [Report MS_MISCERR ''Missing CONNECTION on layer'' ''msConnPoolRegister()''])
      | Some str \<Rightarrow>
          if connectionMax p \<le> length (connections p) \<and> \<not> realloc_ok
          then (p, [Report MS_MEMERR [] ''msConnPoolRegister()''])
          else
            (p\<lparr>connectionMax := (if connectionMax p \<le> length (connections p)
                                 then connectionMax p + 10 else connectionMax p),
               connections := connections p @ [new_connection tid now layer str handle close]\<rparr>,
             snd (close_lifespan (pl_close_connection layer))))"

text \<open>
  \<open>msConnPoolClose\<close>: the last entry is moved into the place of the closed one; when the table
  becomes empty it is freed.
\<close>

definition msConnPoolClose :: "nat \<Rightarrow> connPool \<Rightarrow> connPool \<times> report list" where
  "msConnPoolClose i p =
     (let conn = connections p ! i;
          es = (if 0 < ref_count conn
                then [Report MS_MISCERR ''Closing connection even though ref_count'' ''msConnPoolClose()'']
                else []);
          closed = (if has_close conn then closed_handles p @ [conn_handle conn]
                    else closed_handles p);
          cnt = length (connections p) - 1 in
      if cnt = 0
      then (\<lparr>connections = [], connectionMax = 0, closed_handles = closed\<rparr>, es)
      else (\<lparr>connections = take cnt ((connections p)[i := connections p ! cnt]),
             connectionMax = connectionMax p, closed_handles = closed\<rparr>, es))"

text \<open>The test of the loop of \<open>msConnPoolRequest\<close>, and its first hit.\<close>

definition request_match :: "nat \<Rightarrow> poolLayer \<Rightarrow> string \<Rightarrow> connectionObj \<Rightarrow> bool" where
  "request_match tid layer str conn \<longleftrightarrow>
     pl_connectiontype layer = conn_type conn \<and> strcasecmp str (conn_string conn) = 0 \<and>
     (ref_count conn = 0 \<or> thread_id conn = tid) \<and> lifespan conn \<noteq> MS_LIFE_SINGLE"

fun find_conn :: "(connectionObj \<Rightarrow> bool) \<Rightarrow> connectionObj list \<Rightarrow> nat option" where
  "find_conn P [] = None"
| "find_conn P (c # cs) = (if P c then Some 0 else map_option Suc (find_conn P cs))"

definition take_conn :: "nat \<Rightarrow> int \<Rightarrow> poolLayer \<Rightarrow> connectionObj \<Rightarrow> connectionObj" where
  "take_conn tid now layer conn =
     conn\<lparr>ref_count := ref_count conn + 1, thread_id := tid, last_used := now,
          conn_debug := (if pl_debug layer \<noteq> 0 then pl_debug layer else conn_debug conn)\<rparr>"

definition msConnPoolRequest ::
  "nat \<Rightarrow> int \<Rightarrow> poolLayer \<Rightarrow> connPool \<Rightarrow> nat option \<times> connPool" where
  "msConnPoolRequest tid now layer p =
     (case pl_connection layer of
        None \<Rightarrow> (None, p)
      | Some str \<Rightarrow>
          if (case pl_close_connection layer of
                None \<Rightarrow> False | Some v \<Rightarrow> strcasecmp v ''ALWAYS'' = 0)
          then (None, p)
          else
            case find_conn (request_match tid layer str) (connections p) of
              None \<Rightarrow> (None, p)
            | Some i \<Rightarrow>
                let conn = take_conn tid now layer (connections p ! i) in
                (Some (conn_handle conn), p\<lparr>connections := (connections p)[i := conn]\<rparr>))"

definition release_match :: "poolLayer \<Rightarrow> string \<Rightarrow> nat \<Rightarrow> connectionObj \<Rightarrow> bool" where
  "release_match layer str handle conn \<longleftrightarrow>
     pl_connectiontype layer = conn_type conn \<and> strcasecmp str (conn_string conn) = 0 \<and>
     conn_handle conn = handle"

definition drop_conn :: "int \<Rightarrow> connectionObj \<Rightarrow> connectionObj" where
  "drop_conn now conn =
     conn\<lparr>ref_count := ref_count conn - 1, last_used := now,
          thread_id := (if ref_count conn - 1 = 0 then 0 else thread_id conn)\<rparr>"

definition msConnPoolRelease ::
  "int \<Rightarrow> poolLayer \<Rightarrow> nat \<Rightarrow> connPool \<Rightarrow> connPool \<times> report list" where
  "msConnPoolRelease now layer handle p =
     (case pl_connection layer of
        None \<Rightarrow> (p, [])
      | Some str \<Rightarrow>
          case find_conn (release_match layer str handle) (connections p) of
            None \<Rightarrow> (p, [Report MS_MISCERR ''Unable to find handle for layer'' ''msConnPoolRelease()''])
          | Some i \<Rightarrow>
              let conn = drop_conn now (connections p ! i);
                  p' = p\<lparr>connections := (connections p)[i := conn]\<rparr> in
              if ref_count conn = 0 \<and> (lifespan conn = MS_LIFE_ZEROREF \<or> lifespan conn = MS_LIFE_SINGLE)
              then msConnPoolClose i p' else (p', []))"

text \<open>The loop of \<open>msConnPoolCloseUnreferenced\<close>, for the indices below the argument, downwards.\<close>

fun close_unreferenced :: "nat \<Rightarrow> connPool \<Rightarrow> connPool \<times> report list" where
  "close_unreferenced 0 p = (p, [])"
| "close_unreferenced (Suc i) p =
     (let (p1, es) = (if ref_count (connections p ! i) = 0 then msConnPoolClose i p else (p, []));
          (p2, fs) = close_unreferenced i p1 in
      (p2, es @ fs))"

definition msConnPoolCloseUnreferenced :: "connPool \<Rightarrow> connPool \<times> report list" where
  "msConnPoolCloseUnreferenced p = close_unreferenced (length (connections p)) p"

lemma msConnPoolClose_shrinks:
  "length (connections (fst (msConnPoolClose i p))) = length (connections p) - 1"
  by (simp add: msConnPoolClose_def Let_def)

function msConnPoolFinalCleanup :: "connPool \<Rightarrow> connPool \<times> report list" where
  "msConnPoolFinalCleanup p =
     (if connections p = [] then (p, [])
      else let (p1, es) = msConnPoolClose 0 p; (p2, fs) = msConnPoolFinalCleanup p1 in
           (p2, es @ fs))"
  by pat_completeness auto
termination
proof (relation "measure (\<lambda>p. length (connections p))", goal_cases)
  case (2 p r p1 es)
  have "length (connections p1) = length (connections p) - 1"
    using msConnPoolClose_shrinks [of 0 p] 2(2, 3) by (metis fst_conv)
  then show ?case using 2(1) by simp
qed simp

declare msConnPoolFinalCleanup.simps [simp del]


section \<open>Executions\<close>

text \<open>
  \<open>H\<close> holds a pair \<open>(tid, h)\<close> for every time the handle \<open>h\<close> was given to thread \<open>tid\<close>, by
  registering it or by a request, and not yet released. A thread registers a connection it has
  just opened, whose handle is therefore not the handle of an open connection of the table, and
  releases only what it holds.
\<close>

type_synonym holds = "(nat \<times> nat) multiset"

definition handles :: "connPool \<Rightarrow> nat list" where
  "handles p = map conn_handle (connections p)"

inductive pool_step :: "connPool \<times> holds \<Rightarrow> connPool \<times> holds \<Rightarrow> bool" where
  register: "h \<notin> set (handles p) \<Longrightarrow> msConnPoolRegister ok tid now layer h close p = (p', es) \<Longrightarrow>
    H' = (if h \<in> set (handles p') then add_mset (tid, h) H else H) \<Longrightarrow>
    pool_step (p, H) (p', H')"
| request: "msConnPoolRequest tid now layer p = (r, p') \<Longrightarrow>
    H' = (case r of None \<Rightarrow> H | Some h \<Rightarrow> add_mset (tid, h) H) \<Longrightarrow>
    pool_step (p, H) (p', H')"
| release: "(tid, h) \<in># H \<Longrightarrow> pl_connection layer = Some str \<Longrightarrow>
    find_conn (release_match layer str h) (connections p) \<noteq> None \<Longrightarrow>
    msConnPoolRelease now layer h p = (p', es) \<Longrightarrow>
    pool_step (p, H) (p', H - {#(tid, h)#})"
| release_fails: "find_conn (release_match layer str h) (connections p) = None \<Longrightarrow>
    pl_connection layer = Some str \<Longrightarrow> msConnPoolRelease now layer h p = (p', es) \<Longrightarrow>
    pool_step (p, H) (p', H)"
| close_idle: "msConnPoolCloseUnreferenced p = (p', es) \<Longrightarrow> pool_step (p, H) (p', H)"

inductive pool_reach :: "connPool \<times> holds \<Rightarrow> bool" where
  start: "pool_reach (pool_empty, {#})"
| step: "pool_reach s \<Longrightarrow> pool_step s s' \<Longrightarrow> pool_reach s'"

text \<open>
  The invariant: the handles of the table are distinct, the capacity is enough, every held
  handle is in the table, and an entry counts its holders, which are all in its thread; an idle
  entry belongs to no thread and is one that \<open>CLOSE_CONNECTION=DEFER\<close> keeps; an entry of
  \<open>CLOSE_CONNECTION=ALWAYS\<close> has exactly one holder.
\<close>

definition holders :: "holds \<Rightarrow> nat \<Rightarrow> holds" where
  "holders H h = filter_mset (\<lambda>x. snd x = h) H"

definition conn_ok :: "holds \<Rightarrow> connectionObj \<Rightarrow> bool" where
  "conn_ok H c \<longleftrightarrow>
     ref_count c = int (size (holders H (conn_handle c))) \<and>
     (\<forall>x\<in>#H. snd x = conn_handle c \<longrightarrow> fst x = thread_id c) \<and>
     lifespan c \<in> {MS_LIFE_FOREVER, MS_LIFE_ZEROREF, MS_LIFE_SINGLE} \<and>
     (ref_count c = 0 \<longrightarrow> lifespan c = MS_LIFE_FOREVER \<and> thread_id c = 0) \<and>
     (lifespan c = MS_LIFE_SINGLE \<longrightarrow> ref_count c = 1)"

definition pool_ok :: "connPool \<Rightarrow> holds \<Rightarrow> bool" where
  "pool_ok p H \<longleftrightarrow>
     distinct (handles p) \<and> length (connections p) \<le> connectionMax p \<and>
     snd ` set_mset H \<subseteq> set (handles p) \<and> (\<forall>c\<in>set (connections p). conn_ok H c)"

text \<open>The handles closed between two states are held by nobody.\<close>

definition closes_unheld :: "connPool \<Rightarrow> connPool \<Rightarrow> holds \<Rightarrow> bool" where
  "closes_unheld p p' H \<longleftrightarrow>
     (\<exists>ks. closed_handles p' = closed_handles p @ ks \<and> (\<forall>k\<in>set ks. k \<notin> snd ` set_mset H))"

lemma closes_unheld_refl: "closed_handles p' = closed_handles p \<Longrightarrow> closes_unheld p p' H"
  by (simp add: closes_unheld_def)

lemma closes_unheld_trans:
  assumes "closes_unheld p q H" "closes_unheld q r H"
  shows "closes_unheld p r H"
proof -
  obtain ks ls where "closed_handles q = closed_handles p @ ks" "closed_handles r = closed_handles q @ ls"
    "\<forall>k\<in>set ks. k \<notin> snd ` set_mset H" "\<forall>k\<in>set ls. k \<notin> snd ` set_mset H"
    using assms unfolding closes_unheld_def by blast
  then show ?thesis unfolding closes_unheld_def by (intro exI [of _ "ks @ ls"]) (simp add: ball_Un)
qed

section \<open>Lemmas on the table\<close>

lemma find_conn_Some:
  "find_conn P cs = Some i \<Longrightarrow> i < length cs \<and> P (cs ! i) \<and> (\<forall>j<i. \<not> P (cs ! j))"
proof (induction cs arbitrary: i)
  case (Cons c cs)
  then show ?case by (auto simp: less_Suc_eq_0_disj split: if_splits)
qed simp

lemma find_conn_None: "find_conn P cs = None \<longleftrightarrow> (\<forall>c\<in>set cs. \<not> P c)"
  by (induction cs) auto

lemma mset_update_split: "i < length xs \<Longrightarrow> add_mset (xs ! i) (mset (xs[i := y])) = add_mset y (mset xs)"
  by (simp add: mset_update)

lemma take_last_mset: "ys \<noteq> [] \<Longrightarrow> add_mset (last ys) (mset (take (length ys - 1) ys)) = mset ys"
  by (cases ys rule: rev_cases) simp_all

lemma msConnPoolClose_mset:
  assumes i: "i < length (connections p)"
  shows "add_mset (connections p ! i) (mset (connections (fst (msConnPoolClose i p)))) =
           mset (connections p)"
proof -
  let ?cs = "connections p" and ?n = "length (connections p) - 1"
  let ?ys = "?cs[i := ?cs ! ?n]"
  have ne: "?cs \<noteq> []" using i by auto
  have last: "last ?ys = ?cs ! ?n" using ne i by (simp add: last_conv_nth nth_list_update)
  have "add_mset (?cs ! ?n) (mset (take ?n ?ys)) = mset ?ys"
    using take_last_mset [of ?ys] ne last by simp
  then have "add_mset (?cs ! i) (add_mset (?cs ! ?n) (mset (take ?n ?ys))) = add_mset (?cs ! ?n) (mset ?cs)"
    using mset_update_split [OF i, of "?cs ! ?n"] by (simp only:)
  then have "add_mset (?cs ! i) (mset (take ?n ?ys)) = mset ?cs"
    unfolding add_mset_commute [of "?cs ! i"] by (simp only: add_mset_add_mset_same_iff)
  moreover have "connections (fst (msConnPoolClose i p)) = take ?n ?ys"
    by (simp add: msConnPoolClose_def Let_def)
  ultimately show ?thesis by simp
qed

lemma msConnPoolClose_max:
  "length (connections p) \<le> connectionMax p \<Longrightarrow>
   length (connections (fst (msConnPoolClose i p))) \<le> connectionMax (fst (msConnPoolClose i p))"
  by (auto simp: msConnPoolClose_def Let_def)

lemma msConnPoolClose_trace:
  "closed_handles (fst (msConnPoolClose i p)) =
     closed_handles p @ (if has_close (connections p ! i) then [conn_handle (connections p ! i)] else [])"
  by (simp add: msConnPoolClose_def Let_def)

lemma msConnPoolClose_quiet:
  "ref_count (connections p ! i) \<le> 0 \<Longrightarrow> snd (msConnPoolClose i p) = []"
  by (simp add: msConnPoolClose_def Let_def)

text \<open>Closing an idle entry keeps the invariant.\<close>

lemma holders_empty: "size (holders H h) = 0 \<longleftrightarrow> h \<notin> snd ` set_mset H"
  by (auto simp: holders_def image_iff filter_mset_eq_conv)

lemma idle_not_held:
  "pool_ok p H \<Longrightarrow> c \<in> set (connections p) \<Longrightarrow> ref_count c = 0 \<Longrightarrow> conn_handle c \<notin> snd ` set_mset H"
  using holders_empty [of H "conn_handle c"] by (auto simp: pool_ok_def conn_ok_def)

lemma close_ok_gen:
  assumes i: "i < length (connections p)" and c: "connections p ! i = c"
    and d: "distinct (handles p)" and l: "length (connections p) \<le> connectionMax p"
    and held: "snd ` set_mset H \<subseteq> set (handles p)" and nh: "conn_handle c \<notin> snd ` set_mset H"
    and ok: "\<forall>k\<in>set (connections p). k \<noteq> c \<longrightarrow> conn_ok H k"
  shows "pool_ok (fst (msConnPoolClose i p)) H"
proof -
  let ?q = "fst (msConnPoolClose i p)"
  have m: "mset (connections p) = mset (c # connections ?q)"
    using msConnPoolClose_mset [OF i] c by simp
  then have mh: "mset (handles p) = mset (conn_handle c # handles ?q)"
    unfolding handles_def mset_map by simp
  have "distinct (conn_handle c # handles ?q)"
    using d unfolding mset_eq_imp_distinct_iff [OF mh] .
  moreover have "set (handles p) = set (conn_handle c # handles ?q)"
    using mh by (rule mset_eq_setD)
  ultimately have sh: "set (handles p) = insert (conn_handle c) (set (handles ?q))"
    and nin: "conn_handle c \<notin> set (handles ?q)" and dq: "distinct (handles ?q)" by auto
  have sc: "set (connections p) = insert c (set (connections ?q))"
    using mset_eq_setD [OF m] by simp
  have "conn_ok H k" if k: "k \<in> set (connections ?q)" for k
  proof -
    have "k \<noteq> c" using nin k by (auto simp: handles_def)
    then show ?thesis using ok k sc by simp
  qed
  moreover have "snd ` set_mset H \<subseteq> set (handles ?q)" using held unfolding sh subset_insert [OF nh] .
  ultimately show ?thesis
    unfolding pool_ok_def using dq msConnPoolClose_max [OF l] by blast
qed

lemma close_ok [ms_inv]:
  assumes "pool_ok p H" and "i < length (connections p)" and "ref_count (connections p ! i) = 0"
  shows "pool_ok (fst (msConnPoolClose i p)) H"
  using close_ok_gen [OF assms(2) refl, where H = H] idle_not_held [OF assms(1) nth_mem [OF assms(2)] assms(3)]
    assms(1) unfolding pool_ok_def [of p H] by blast


section \<open>The operations keep the invariant\<close>

lemma holders_add: "holders (add_mset (t, h) H) k = (if h = k then add_mset (t, h) (holders H k) else holders H k)"
  by (simp add: holders_def)

lemma conn_ok_other:
  "conn_ok H c \<Longrightarrow> conn_handle c \<noteq> h \<Longrightarrow> conn_ok (add_mset (t, h) H) c"
  "conn_ok H c \<Longrightarrow> conn_handle c \<noteq> h \<Longrightarrow> (t, h) \<in># H \<Longrightarrow> conn_ok (H - {#(t, h)#}) c"
proof -
  show "conn_ok H c \<Longrightarrow> conn_handle c \<noteq> h \<Longrightarrow> conn_ok (add_mset (t, h) H) c"
    by (auto simp: conn_ok_def holders_add)
next
  assume ok: "conn_ok H c" and ne: "conn_handle c \<noteq> h" and "(t, h) \<in># H"
  then obtain H' where "H = add_mset (t, h) H'" by (meson multi_member_split)
  then show "conn_ok (H - {#(t, h)#}) c" using ok ne by (auto simp: conn_ok_def holders_add)
qed

lemma lifespan_cases: "fst (close_lifespan key) \<in> {MS_LIFE_FOREVER, MS_LIFE_ZEROREF, MS_LIFE_SINGLE}"
  by (simp add: close_lifespan_def Let_def)

lemma register_ok [ms_inv]:
  assumes ok: "pool_ok p H" and h: "h \<notin> set (handles p)"
    and r: "msConnPoolRegister rok tid now layer h close p = (p', es)"
  shows "pool_ok p' (if h \<in> set (handles p') then add_mset (tid, h) H else H)"
proof (cases "p' = p")
  case True
  then show ?thesis using ok h by simp
next
  case False
  then obtain str where c: "connections p' = connections p @ [new_connection tid now layer str h close]"
    and m: "length (connections p') \<le> connectionMax p'"
    using r ok by (auto simp: msConnPoolRegister_def pool_ok_def split: option.splits if_splits)
  have hp: "handles p' = handles p @ [h]" by (simp add: handles_def c new_connection_def)
  have nh: "h \<notin> snd ` set_mset H" using ok h by (auto simp: pool_ok_def)
  then have none: "holders H h = {#}" using holders_empty [of H h] by simp
  have "conn_ok (add_mset (tid, h) H) (new_connection tid now layer str h close)"
    using nh lifespan_cases [of "pl_close_connection layer"]
    by (auto simp: conn_ok_def new_connection_def holders_add none image_iff)
  moreover have "conn_ok (add_mset (tid, h) H) k" if "k \<in> set (connections p)" for k
    using that ok h by (intro conn_ok_other) (auto simp: pool_ok_def handles_def)
  ultimately have "\<forall>k\<in>set (connections p'). conn_ok (add_mset (tid, h) H) k" by (simp add: c)
  then show ?thesis using ok h m by (auto simp: pool_ok_def hp)
qed

lemma updated_entry:
  assumes d: "distinct (map conn_handle cs)" and i: "i < length cs" and k: "k \<in> set (cs[i := c])"
  shows "k = c \<or> (k \<in> set cs \<and> conn_handle k \<noteq> conn_handle (cs ! i))"
proof -
  obtain j where j: "j < length cs" "k = cs[i := c] ! j" using k by (auto simp: in_set_conv_nth)
  show ?thesis
  proof (cases "j = i")
    case False
    then have "map conn_handle cs ! j \<noteq> map conn_handle cs ! i"
      using nth_eq_iff_index_eq [OF d] j(1) i by auto
    then show ?thesis using False j i by simp
  qed (use j i in simp)
qed

text \<open>Replacing one entry by one with the same handle.\<close>

lemma update_ok:
  assumes ok: "pool_ok p H" and i: "i < length (connections p)" and h: "conn_handle c = handles p ! i"
    and H': "snd ` set_mset H' \<subseteq> set (handles p)" and c: "conn_ok H' c"
    and other: "\<And>k. k \<in> set (connections p) \<Longrightarrow> conn_handle k \<noteq> conn_handle c \<Longrightarrow> conn_ok H' k"
  shows "pool_ok (p\<lparr>connections := (connections p)[i := c]\<rparr>) H'"
proof -
  have e: "handles (p\<lparr>connections := (connections p)[i := c]\<rparr>) = handles p"
    using i h by (simp add: handles_def map_update list_update_same_conv)
  have "distinct (map conn_handle (connections p))" using ok by (simp add: pool_ok_def handles_def)
  from updated_entry [OF this i] have "\<forall>k\<in>set ((connections p)[i := c]). conn_ok H' k"
    using other c h i by (fastforce simp: handles_def)
  then show ?thesis using ok H' by (simp add: pool_ok_def e)
qed

lemma request_ok [ms_inv]:
  assumes ok: "pool_ok p H" and r: "msConnPoolRequest tid now layer p = (r, p')"
  shows "pool_ok p' (case r of None \<Rightarrow> H | Some h \<Rightarrow> add_mset (tid, h) H)"
proof (cases r)
  case None
  then have "p' = p" using r by (auto simp: msConnPoolRequest_def Let_def split: option.splits if_splits)
  then show ?thesis using ok None by simp
next
  case (Some h)
  then obtain str i where f: "find_conn (request_match tid layer str) (connections p) = Some i"
    and h: "h = conn_handle (take_conn tid now layer (connections p ! i))"
    and p': "p' = p\<lparr>connections := (connections p)[i := take_conn tid now layer (connections p ! i)]\<rparr>"
    using r by (auto simp: msConnPoolRequest_def Let_def split: option.splits if_splits)
  let ?c = "connections p ! i"
  have i: "i < length (connections p)" and m: "request_match tid layer str ?c"
    using find_conn_Some [OF f] by auto
  have okc: "conn_ok H ?c" using ok i by (simp add: pool_ok_def)
  have h': "h = conn_handle ?c" by (simp add: h take_conn_def)
  have th: "fst x = tid" if "x \<in># H" "snd x = h" for x
  proof -
    have "ref_count ?c \<noteq> 0" using idle_not_held [OF ok nth_mem [OF i]] that h' by (metis image_eqI)
    then show ?thesis using m okc that h' by (auto simp: request_match_def conn_ok_def)
  qed
  have "conn_ok (add_mset (tid, h) H) (take_conn tid now layer ?c)"
    using okc th m by (auto simp: conn_ok_def take_conn_def h' holders_add request_match_def)
  moreover have "conn_ok (add_mset (tid, h) H) k"
    if "k \<in> set (connections p)" "conn_handle k \<noteq> conn_handle (take_conn tid now layer ?c)" for k
    using that ok h by (intro conn_ok_other(1)) (auto simp: pool_ok_def)
  moreover have "snd ` set_mset (add_mset (tid, h) H) \<subseteq> set (handles p)"
    using ok i h' by (auto simp: pool_ok_def handles_def)
  ultimately have "pool_ok p' (add_mset (tid, h) H)" unfolding p'
    by (intro update_ok [OF ok i]) (use i h in \<open>auto simp: handles_def take_conn_def\<close>)
  then show ?thesis by (simp add: Some)
qed


lemma release_ok [ms_inv]:
  assumes ok: "pool_ok p H" and held: "(tid, h) \<in># H" and str: "pl_connection layer = Some str"
    and f: "find_conn (release_match layer str h) (connections p) = Some i"
    and r: "msConnPoolRelease now layer h p = (p', es)"
  shows "pool_ok p' (H - {#(tid, h)#})"
proof -
  let ?c = "connections p ! i" and ?H = "H - {#(tid, h)#}"
  let ?d = "drop_conn now ?c" and ?q = "p\<lparr>connections := (connections p)[i := drop_conn now (connections p ! i)]\<rparr>"
  have i: "i < length (connections p)" and hc: "conn_handle ?c = h"
    using find_conn_Some [OF f] by (auto simp: release_match_def)
  have okc: "conn_ok H ?c" using ok i by (simp add: pool_ok_def)
  obtain H0 where H0: "H = add_mset (tid, h) H0" using held by (meson multi_member_split)
  have cnt: "ref_count ?d = int (size (holders ?H h))" and tid: "thread_id ?c = tid"
    using okc hc by (auto simp: conn_ok_def drop_conn_def H0 holders_add)
  have others: "\<forall>x\<in>#?H. snd x = h \<longrightarrow> fst x = thread_id ?c" using okc hc by (auto simp: conn_ok_def H0)
  have same: "conn_handle ?d = handles p ! i" "conn_handle ?d = h" "lifespan ?d = lifespan ?c"
    using i hc by (simp_all add: drop_conn_def handles_def)
  have sub: "snd ` set_mset ?H \<subseteq> set (handles p)" using ok by (auto simp: pool_ok_def H0)
  have rest: "conn_ok ?H k" if "k \<in> set (connections p)" "conn_handle k \<noteq> h" for k
    using conn_ok_other(2) [OF _ that(2) held] that(1) ok by (simp add: pool_ok_def)
  show ?thesis
  proof (cases "ref_count ?d = 0 \<and> (lifespan ?d = MS_LIFE_ZEROREF \<or> lifespan ?d = MS_LIFE_SINGLE)")
    case True
    then have p': "p' = fst (msConnPoolClose i ?q)" using r by (simp add: msConnPoolRelease_def str f)
    have hq: "handles ?q = handles p" using i hc by (simp add: handles_def map_update drop_conn_def list_update_same_conv)
    have "distinct (map conn_handle (connections p))" using ok by (simp add: pool_ok_def handles_def)
    from updated_entry [OF this i] have "\<forall>k\<in>set (connections ?q). k \<noteq> ?d \<longrightarrow> conn_ok ?H k"
      using rest hc by fastforce
    moreover have "h \<notin> snd ` set_mset ?H" using True cnt holders_empty [of ?H h] by simp
    ultimately show ?thesis unfolding p'
      using close_ok_gen [of i ?q ?d ?H] i ok sub same by (simp add: hq pool_ok_def)
  next
    case False
    then have p': "p' = ?q" using r by (auto simp: msConnPoolRelease_def str f Let_def)
    have pos: "ref_count ?c \<noteq> 0" using idle_not_held [OF ok nth_mem [OF i]] held hc by force
    have "\<forall>x\<in>#?H. snd x = h \<longrightarrow> fst x = thread_id ?d"
      using others cnt holders_empty [of ?H h] by (auto simp: drop_conn_def image_iff)
    then have "conn_ok ?H ?d"
      using okc False cnt pos unfolding conn_ok_def same(2,3) by (auto simp: drop_conn_def)
    then show ?thesis unfolding p' by (rule update_ok [OF ok i same(1) sub]) (use rest same in simp)
  qed
qed

lemma close_unreferenced_ok:
  "pool_ok p H \<Longrightarrow> i \<le> length (connections p) \<Longrightarrow> close_unreferenced i p = (p', es) \<Longrightarrow>
   pool_ok p' H \<and> es = [] \<and> closes_unheld p p' H"
proof (induction i arbitrary: p p' es)
  case (Suc i)
  let ?c = "connections p ! i"
  let ?r = "if ref_count ?c = 0 then msConnPoolClose i p else (p, [])"
  obtain p1 e1 where s: "?r = (p1, e1)" by force
  obtain e2 where rec: "close_unreferenced i p1 = (p', e2)" and es: "es = e1 @ e2"
    using Suc.prems(3) s by (cases "close_unreferenced i p1") auto
  have i: "i < length (connections p)" using Suc.prems by simp
  have "pool_ok p1 H \<and> i \<le> length (connections p1) \<and> e1 = [] \<and>
      closes_unheld p p1 H"
  proof (cases "ref_count ?c = 0")
    case True
    then have p1: "p1 = fst (msConnPoolClose i p)" "e1 = snd (msConnPoolClose i p)" using s by simp_all
    show ?thesis
      using close_ok [OF Suc.prems(1) i True] msConnPoolClose_shrinks [of i p] msConnPoolClose_quiet [of p i]
        idle_not_held [OF Suc.prems(1) nth_mem [OF i] True] msConnPoolClose_trace [of i p] True i
      unfolding p1 by (simp add: closes_unheld_def)
  qed (use s Suc.prems i closes_unheld_refl [of p p H] in auto)
  then show ?case using Suc.IH [OF _ _ rec] es closes_unheld_trans [of p p1 H p'] by simp
qed (simp add: closes_unheld_refl)


lemma release_closes:
  assumes ok: "pool_ok p H" and held: "(tid, h) \<in># H" and str: "pl_connection layer = Some str"
    and f: "find_conn (release_match layer str h) (connections p) = Some i"
    and r: "msConnPoolRelease now layer h p = (p', es)"
  shows "closes_unheld p p' (H - {#(tid, h)#}) \<and> es = []"
proof -
  let ?c = "connections p ! i" and ?H = "H - {#(tid, h)#}"
  let ?q = "p\<lparr>connections := (connections p)[i := drop_conn now (connections p ! i)]\<rparr>"
  have i: "i < length (connections p)" and hc: "conn_handle ?c = h"
    using find_conn_Some [OF f] by (auto simp: release_match_def)
  have okc: "conn_ok H ?c" using ok i by (simp add: pool_ok_def)
  obtain H0 where H0: "H = add_mset (tid, h) H0" using held by (meson multi_member_split)
  have cnt: "ref_count ?c - 1 = int (size (holders ?H h))"
    using okc hc by (simp add: conn_ok_def H0 holders_add)
  show ?thesis
  proof (cases "ref_count (drop_conn now ?c) = 0 \<and>
      (lifespan (drop_conn now ?c) = MS_LIFE_ZEROREF \<or> lifespan (drop_conn now ?c) = MS_LIFE_SINGLE)")
    case True
    then have p': "p' = fst (msConnPoolClose i ?q)" "es = snd (msConnPoolClose i ?q)"
      using r by (simp_all add: msConnPoolRelease_def str f)
    have "h \<notin> snd ` set_mset ?H" using True cnt holders_empty [of ?H h] by (simp add: drop_conn_def)
    moreover have "conn_handle (drop_conn now ?c) = h" by (simp add: drop_conn_def hc)
    ultimately show ?thesis
      using msConnPoolClose_trace [of i ?q] msConnPoolClose_quiet [of ?q i] True i
      unfolding p' by (simp add: closes_unheld_def)
  next
    case False
    then have "p' = ?q" "es = []" using r by (auto simp: msConnPoolRelease_def str f Let_def)
    then show ?thesis by (simp add: closes_unheld_refl)
  qed
qed

text \<open>Every step keeps the invariant and closes only what nobody holds.\<close>

lemma pool_step_ok:
  "pool_step s s' \<Longrightarrow> pool_ok (fst s) (snd s) \<Longrightarrow>
   pool_ok (fst s') (snd s') \<and> closes_unheld (fst s) (fst s') (snd s')"
proof (induction rule: pool_step.induct)
  case (register h p ok tid now layer close p' es H' H)
  have "closed_handles p' = closed_handles p"
    using register(2) by (auto simp: msConnPoolRegister_def split: option.splits if_splits)
  then show ?case using register_ok [OF _ register(1,2)] register(3,4) by (simp add: closes_unheld_refl)
next
  case (request tid now layer p r p' H' H)
  have "closed_handles p' = closed_handles p"
    using request(1) by (auto simp: msConnPoolRequest_def Let_def split: option.splits if_splits)
  then show ?case using request_ok [OF _ request(1)] request(2,3) by (simp add: closes_unheld_refl)
next
  case (release tid h H layer str p now p' es)
  then obtain i where f: "find_conn (release_match layer str h) (connections p) = Some i" by blast
  then show ?case
    using release_ok [OF _ release(1,2) f release(4)] release_closes [OF _ release(1,2) f release(4)]
      release(5) by simp
next
  case (release_fails layer str h p now p' es H)
  then have "p' = p" by (auto simp: msConnPoolRelease_def)
  then show ?case using release_fails(4) by (simp add: closes_unheld_refl)
next
  case (close_idle p p' es H)
  then show ?case
    using close_unreferenced_ok [of p H "length (connections p)" p' es]
    by (simp add: msConnPoolCloseUnreferenced_def)
qed

lemma pool_reach_ok [ms_inv]: "pool_reach s \<Longrightarrow> pool_ok (fst s) (snd s)"
  by (induction rule: pool_reach.induct)
     (simp_all add: pool_step_ok, simp add: pool_ok_def pool_empty_def handles_def)


section \<open>Closing many entries\<close>

abbreviation idle :: "connectionObj \<Rightarrow> bool" where "idle c \<equiv> ref_count c = 0"

definition close_calls :: "connectionObj multiset \<Rightarrow> nat multiset" where
  "close_calls M = image_mset conn_handle (filter_mset has_close M)"

lemma close_calls_empty [simp]: "close_calls {#} = {#}"
  by (simp add: close_calls_def)

lemma close_calls_add:
  "close_calls (add_mset c M) = (if has_close c then add_mset (conn_handle c) (close_calls M) else close_calls M)"
  by (simp add: close_calls_def)

lemma msConnPoolClose_calls:
  "mset (closed_handles (fst (msConnPoolClose i p))) =
     mset (closed_handles p) + close_calls {#connections p ! i#}"
  by (simp add: msConnPoolClose_trace close_calls_def)

lemma msConnPoolClose_nth:
  "i \<le> j \<Longrightarrow> j < length (connections p) - 1 \<Longrightarrow>
   connections (fst (msConnPoolClose i p)) ! j =
     (if j = i then connections p ! (length (connections p) - 1) else connections p ! j)"
  by (simp add: msConnPoolClose_def Let_def)

lemma close_unreferenced_exact:
  "i \<le> length (connections p) \<Longrightarrow> \<forall>j\<ge>i. j < length (connections p) \<longrightarrow> \<not> idle (connections p ! j) \<Longrightarrow>
   mset (connections (fst (close_unreferenced i p))) = filter_mset (\<lambda>c. \<not> idle c) (mset (connections p)) \<and>
   mset (closed_handles (fst (close_unreferenced i p))) =
     mset (closed_handles p) + close_calls (filter_mset idle (mset (connections p))) \<and>
   snd (close_unreferenced i p) = []"
proof (induction i arbitrary: p)
  case 0
  then have "\<forall>c\<in>set (connections p). \<not> idle c" by (auto simp: in_set_conv_nth)
  then have "filter_mset (\<lambda>c. \<not> idle c) (mset (connections p)) = mset (connections p)"
    "filter_mset idle (mset (connections p)) = {#}" by (auto simp: filter_mset_eq_conv)
  then show ?case by (auto simp: close_calls_def)
next
  case (Suc i)
  let ?c = "connections p ! i" and ?n = "length (connections p) - 1"
  have i: "i < length (connections p)" using Suc.prems by simp
  show ?case
  proof (cases "idle ?c")
    case False
    have "\<forall>j\<ge>i. j < length (connections p) \<longrightarrow> \<not> idle (connections p ! j)"
      using Suc.prems(2) False by (metis le_antisym not_less_eq_eq)
    then show ?thesis using Suc.IH [of p] i False by (simp add: split_beta)
  next
    case True
    let ?q = "fst (msConnPoolClose i p)"
    have m: "mset (connections p) = add_mset ?c (mset (connections ?q))"
      using msConnPoolClose_mset [OF i] by simp
    have len: "length (connections ?q) = ?n" by (rule msConnPoolClose_shrinks)
    have "\<not> idle (connections ?q ! j)" if "i \<le> j" "j < length (connections ?q)" for j
      using that Suc.prems(2) i unfolding len by (auto simp: msConnPoolClose_nth)
    then have IH: "mset (connections (fst (close_unreferenced i ?q))) = filter_mset (\<lambda>c. \<not> idle c) (mset (connections ?q))"
      "mset (closed_handles (fst (close_unreferenced i ?q))) =
        mset (closed_handles ?q) + close_calls (filter_mset idle (mset (connections ?q)))"
      "snd (close_unreferenced i ?q) = []"
      using Suc.IH [of ?q] i len by auto
    have r: "close_unreferenced (Suc i) p = (fst (close_unreferenced i ?q), [])"
      using True IH(3) msConnPoolClose_quiet [of p i] by (simp add: split_beta)
    show ?thesis unfolding r fst_conv IH(1,2) msConnPoolClose_calls m
      using True by (simp add: close_calls_add close_calls_def)
  qed
qed

lemma final_cleanup_exact:
  "connections (fst (msConnPoolFinalCleanup p)) = [] \<and>
   mset (closed_handles (fst (msConnPoolFinalCleanup p))) =
     mset (closed_handles p) + close_calls (mset (connections p)) \<and>
   connectionMax (fst (msConnPoolFinalCleanup p)) = (if connections p = [] then connectionMax p else 0)"
proof (induction p rule: msConnPoolFinalCleanup.induct)
  case (1 p)
  show ?case
  proof (cases "connections p = []")
    case False
    let ?q = "fst (msConnPoolClose 0 p)"
    have r: "fst (msConnPoolFinalCleanup p) = fst (msConnPoolFinalCleanup ?q)"
      using False by (simp add: msConnPoolFinalCleanup.simps [of p] split_beta)
    have m: "mset (connections p) = add_mset (connections p ! 0) (mset (connections ?q))"
      using msConnPoolClose_mset [of 0 p] False by simp
    have "connections ?q = [] \<Longrightarrow> connectionMax ?q = 0"
      by (auto simp: msConnPoolClose_def Let_def)
    moreover have "mset (closed_handles ?q) = mset (closed_handles p) + close_calls {#connections p ! 0#}"
      by (rule msConnPoolClose_calls)
    ultimately show ?thesis using 1 [OF False refl prod.collapse] unfolding r m
      using False by (simp add: close_calls_add)
  qed (simp add: msConnPoolFinalCleanup.simps [of p] close_calls_def)
qed


section \<open>Properties\<close>

text \<open>
  C3. In every state that threads reach by registering, requesting and releasing connections
  and by closing the idle ones: a held handle is the handle of exactly one open entry of the
  table, that entry belongs to the holding thread and counts the times the handle is held, so no
  two threads hold one connection; no handle is listed twice and the table is within its
  capacity; an entry that nobody holds is one registered with \<open>CLOSE_CONNECTION=DEFER\<close>; an
  entry registered with \<open>CLOSE_CONNECTION=ALWAYS\<close> is held exactly once.
\<close>

theorem pool_threads_isolated:
  assumes "pool_reach (p, H)"
  shows "(\<forall>(tid, h)\<in>set_mset H.
            \<exists>!c. c \<in> set (connections p) \<and> conn_handle c = h) \<and>
         (\<forall>(tid, h)\<in>set_mset H. \<forall>c\<in>set (connections p). conn_handle c = h \<longrightarrow>
            thread_id c = tid \<and> ref_count c = int (size (filter_mset (\<lambda>x. snd x = h) H))) \<and>
         distinct (map conn_handle (connections p)) \<and>
         length (connections p) \<le> connectionMax p \<and>
         (\<forall>c\<in>set (connections p).
            (conn_handle c \<notin> snd ` set_mset H \<longrightarrow> ref_count c = 0 \<and> lifespan c = MS_LIFE_FOREVER) \<and>
            (lifespan c = MS_LIFE_SINGLE \<longrightarrow> ref_count c = 1))"
proof -
  have ok: "pool_ok p H" using pool_reach_ok [OF assms] by simp
  have d: "distinct (map conn_handle (connections p))" using ok by (simp add: pool_ok_def handles_def)
  have one: "\<exists>!c. c \<in> set (connections p) \<and> conn_handle c = h" if "(tid, h) \<in># H" for tid h
  proof -
    have "h \<in> set (handles p)" using ok that by (force simp: pool_ok_def)
    then show ?thesis using d unfolding distinct_map handles_def by (auto dest: inj_onD)
  qed
  have idle: "ref_count c = 0 \<and> lifespan c = MS_LIFE_FOREVER"
    if "c \<in> set (connections p)" "conn_handle c \<notin> snd ` set_mset H" for c
  proof -
    have "conn_ok H c" using ok that by (simp add: pool_ok_def)
    then show ?thesis using holders_empty [of H "conn_handle c"] that(2) by (simp add: conn_ok_def)
  qed
  have own: "thread_id c = tid \<and> ref_count c = int (size (filter_mset (\<lambda>x. snd x = h) H))"
    if "(tid, h) \<in># H" "c \<in> set (connections p)" "conn_handle c = h" for tid h c
    using ok that by (fastforce simp: pool_ok_def conn_ok_def holders_def)
  have single: "lifespan c = MS_LIFE_SINGLE \<longrightarrow> ref_count c = 1" if "c \<in> set (connections p)" for c
    using ok that unfolding pool_ok_def conn_ok_def by blast
  have ones: "\<forall>(tid, h)\<in>set_mset H. \<exists>!c. c \<in> set (connections p) \<and> conn_handle c = h"
  proof
    fix x assume "x \<in># H"
    then show "case x of (tid, h) \<Rightarrow> \<exists>!c. c \<in> set (connections p) \<and> conn_handle c = h"
      using one by (cases x) (simp only: prod.case)
  qed
  show ?thesis using own idle single d ok by (intro conjI ones) (auto simp: pool_ok_def)
qed

definition demo_layer :: poolLayer where
  "demo_layer = \<lparr>pl_connection = Some ''dbname=gis'', pl_connectiontype = 6, pl_tileindex = None,
                 pl_debug = 0, pl_close_connection = Some ''normal''\<rparr>"

definition demo_pool :: connPool where
  "demo_pool = fst (msConnPoolRegister True 7 100 demo_layer 4096 True pool_empty)"

lemma demo_pool_eq:
  "demo_pool = \<lparr>connections = [new_connection 7 100 demo_layer ''dbname=gis'' 4096 True],
                connectionMax = 10, closed_handles = []\<rparr>"
  by (simp add: demo_pool_def msConnPoolRegister_def demo_layer_def pool_empty_def)

lemma demo_reach: "pool_reach (demo_pool, {#(7, 4096)#})"
proof (rule pool_reach.step [OF pool_reach.start])
  show "pool_step (pool_empty, {#}) (demo_pool, {#(7, 4096)#})"
    by (rule pool_step.register [of 4096 pool_empty True 7 100 demo_layer True demo_pool
          "snd (msConnPoolRegister True 7 100 demo_layer 4096 True pool_empty)"])
       (simp_all add: demo_pool_def handles_def pool_empty_def msConnPoolRegister_def demo_layer_def
          new_connection_def)
qed

theorem pool_threads_isolated_witness:
  "distinct (map conn_handle (connections demo_pool)) \<and>
   length (connections demo_pool) \<le> connectionMax demo_pool"
  using pool_threads_isolated [OF demo_reach] by blast

text \<open>
  C9. From every reachable state, whatever operation a thread performs next, a handle that is
  passed to its \<open>close\<close> callback during that operation is held by no thread after it: no
  connection is closed under a thread that still uses it. The operations are request, register,
  release and the closing of unreferenced connections; the final cleanup, which closes every connection,
  is not one of them.
\<close>

theorem pool_close_safe:
  assumes "pool_reach (p, H)" and "pool_step (p, H) (p', H')"
  shows "\<exists>ks. closed_handles p' = closed_handles p @ ks \<and> (\<forall>k\<in>set ks. k \<notin> snd ` set_mset H')"
  using pool_step_ok [OF assms(2)] pool_reach_ok [OF assms(1)] by (simp add: closes_unheld_def)

definition demo_released :: connPool where
  "demo_released = \<lparr>connections = [], connectionMax = 0, closed_handles = [4096]\<rparr>"

lemma demo_lifespan: "fst (close_lifespan (Some ''normal'')) = MS_LIFE_ZEROREF"
  by code_simp

lemma demo_release_step: "pool_step (demo_pool, {#(7, 4096)#}) (demo_released, {#})"
proof -
  have "pool_step (demo_pool, {#(7, 4096)#}) (demo_released, {#(7, 4096)#} - {#(7, 4096)#})"
    by (rule pool_step.release [of _ _ _ demo_layer "''dbname=gis''" _ 105 _ "[]"])
       (simp_all add: demo_pool_eq demo_released_def demo_layer_def release_match_def new_connection_def
         msConnPoolRelease_def drop_conn_def demo_lifespan msConnPoolClose_def)
  then show ?thesis by simp
qed

theorem pool_close_safe_witness:
  "\<exists>ks. closed_handles demo_released = closed_handles demo_pool @ ks \<and>
        (\<forall>k\<in>set ks. k \<notin> snd ` set_mset ({#} :: holds))"
  by (rule pool_close_safe [OF demo_reach demo_release_step])

lemma lower_always: "lower ''ALWAYS'' = ''always''"
  by code_simp

text \<open>
  C31. \<open>msConnPoolRequest\<close> returns a connection exactly when the layer has a connection string,
  does not ask for \<open>CLOSE_CONNECTION=ALWAYS\<close> and some entry of its type and connection string
  (up to case) that is not a single-use one is idle or belongs to the requesting thread; it then
  takes the first such entry, counts one more holder, makes the thread its owner and changes no
  other entry. Otherwise the table is unchanged.
\<close>

theorem pool_request:
  "(let usable = (\<lambda>c. pl_connectiontype layer = conn_type c \<and>
          strcasecmp (the (pl_connection layer)) (conn_string c) = 0 \<and>
          (ref_count c = 0 \<or> thread_id c = tid) \<and> lifespan c \<noteq> MS_LIFE_SINGLE);
        asks = (pl_connection layer \<noteq> None \<and>
          \<not> (\<exists>v. pl_close_connection layer = Some v \<and> lower v = ''always'')) in
    if asks \<and> (\<exists>c\<in>set (connections p). usable c)
    then \<exists>i<length (connections p). usable (connections p ! i) \<and> (\<forall>j<i. \<not> usable (connections p ! j)) \<and>
           msConnPoolRequest tid now layer p =
             (Some (conn_handle (connections p ! i)),
              p\<lparr>connections := (connections p)[i := (connections p ! i)
                \<lparr>ref_count := ref_count (connections p ! i) + 1, thread_id := tid, last_used := now,
                 conn_debug := (if pl_debug layer \<noteq> 0 then pl_debug layer else conn_debug (connections p ! i))\<rparr>]\<rparr>)
    else msConnPoolRequest tid now layer p = (None, p))"
proof -
  have always: "strcasecmp v ''ALWAYS'' = 0 \<longleftrightarrow> lower v = ''always''" for v
    unfolding strcasecmp_eq_0 by (simp only: lower_always)
  show ?thesis
  proof (cases "pl_connection layer")
    case (Some str)
    let ?f = "find_conn (request_match tid layer str) (connections p)"
    show ?thesis
    proof (cases ?f)
      case None
      then have "\<not> (\<exists>c\<in>set (connections p). request_match tid layer str c)" by (simp add: find_conn_None)
      then show ?thesis
        using Some None by (auto simp: msConnPoolRequest_def request_match_def Let_def split: option.splits)
    next
      case f: (Some i)
      have i: "i < length (connections p)" "request_match tid layer str (connections p ! i)"
        "\<forall>j<i. \<not> request_match tid layer str (connections p ! j)" using find_conn_Some [OF f] by auto
      show ?thesis
      proof (cases "\<exists>v. pl_close_connection layer = Some v \<and> lower v = ''always''")
        case False
        then have r: "msConnPoolRequest tid now layer p = (Some (conn_handle (connections p ! i)),
            p\<lparr>connections := (connections p)[i := take_conn tid now layer (connections p ! i)]\<rparr>)"
          using Some f by (auto simp: msConnPoolRequest_def take_conn_def Let_def always split: option.splits)
        show ?thesis unfolding Let_def r
          using i Some False nth_mem [OF i(1)] unfolding request_match_def
          by (auto intro!: exI [of _ i] simp: take_conn_def)
      qed (use Some in \<open>auto simp: msConnPoolRequest_def always\<close>)
    qed
  qed (simp add: msConnPoolRequest_def)
qed

theorem pool_request_witness:
  "\<exists>q. msConnPoolRequest 7 200 demo_layer demo_pool = (Some 4096, q) \<and> ref_count (connections q ! 0) = 2"
proof -
  have "lower ''normal'' \<noteq> ''always''" by code_simp
  then show ?thesis
    using pool_request [of demo_layer 7 demo_pool 200]
    by (auto simp: demo_pool_eq demo_layer_def new_connection_def demo_lifespan)
qed

text \<open>
  \<open>msConnPoolCloseUnreferenced\<close> keeps exactly the entries that are in use and closes each
  idle one once, without an error report; \<open>msConnPoolFinalCleanup\<close> ends with the empty table,
  having closed every remaining entry once. (The order of the entries may change: the last one
  is moved into the place of a closed one.)
\<close>

theorem pool_cleanup:
  "\<exists>q. msConnPoolCloseUnreferenced p = (q, []) \<and>
     mset (connections q) = filter_mset (\<lambda>c. ref_count c \<noteq> 0) (mset (connections p)) \<and>
     mset (closed_handles q) = mset (closed_handles p) +
       image_mset conn_handle (filter_mset (\<lambda>c. ref_count c = 0 \<and> has_close c) (mset (connections p))) \<and>
     connections (fst (msConnPoolFinalCleanup p)) = [] \<and>
     mset (closed_handles (fst (msConnPoolFinalCleanup p))) = mset (closed_handles p) +
       image_mset conn_handle (filter_mset has_close (mset (connections p)))"
proof -
  let ?q = "fst (msConnPoolCloseUnreferenced p)"
  have "msConnPoolCloseUnreferenced p = (?q, [])"
    using close_unreferenced_exact [of "length (connections p)" p]
    by (simp add: msConnPoolCloseUnreferenced_def prod_eq_iff)
  moreover have "filter_mset has_close (filter_mset idle M) = filter_mset (\<lambda>c. idle c \<and> has_close c) M" for M
    by (simp add: filter_filter_mset conj_commute)
  ultimately show ?thesis
    using close_unreferenced_exact [of "length (connections p)" p] final_cleanup_exact [of p]
    by (intro exI [of _ ?q]) (simp add: msConnPoolCloseUnreferenced_def close_calls_def)
qed

end
