(* ===== verification/CgiUtil.thy ===== *)
theory CgiUtil
  imports MapString
begin

text \<open>
  Decoding of CGI requests (\<open>cgiutil.c\<close>): reading the body of a POST, cutting a query string, a
  form or a cookie into parameters, URL decoding, and the shell escaping of the same file.

  Functions that work in place on a NUL-terminated buffer return the new string. Where the code
  moves characters within the buffer it still reads (\<open>unescape_url\<close>), the buffer is modelled with
  its terminator and its indices. The parameter arrays of a request keep their allocated size and
  a flag that a write beyond it would set. The environment, the standard input, the largest
  block \<open>malloc\<close> can give and the GDAL option \<open>MS_NO_POST\<close> are fields of \<open>cgiEnv\<close>.
\<close>

text \<open>What a NUL-terminated buffer holds as a string.\<close>

definition cstr :: "char list \<Rightarrow> string" where
  "cstr buf = takeWhile (\<lambda>c. c \<noteq> NUL) buf"

section \<open>Words\<close>

text \<open>
  The scan of \<open>getword\<close>, \<open>makeword\<close> and \<open>makeword_skip\<close>: the characters before \<open>stop\<close>, and the
  rest of the line after it, which the second loop moves to the front of the buffer.
\<close>

fun scan_word :: "string \<Rightarrow> char \<Rightarrow> string \<times> string" where
  "scan_word [] stop = ([], [])"
| "scan_word (c # cs) stop =
     (if c = stop then ([], cs) else let (w, r) = scan_word cs stop in (c # w, r))"

text \<open>Each returns the word and what it leaves in \<open>line\<close>.\<close>

definition getword :: "string \<Rightarrow> char \<Rightarrow> string \<times> string" where
  "getword line stop = scan_word line stop"

definition makeword :: "string \<Rightarrow> char \<Rightarrow> string \<times> string" where
  "makeword line stop = scan_word line stop"

definition makeword_skip :: "string \<Rightarrow> char \<Rightarrow> char \<Rightarrow> string \<times> string" where
  "makeword_skip line stop skip = scan_word (dropWhile (\<lambda>c. c = skip) line) stop"

text \<open>
  \<open>fmakeword\<close> on the rest of a stream: \<open>word\<close> is what was read, \<open>wsize\<close> the allocated size less
  one. It returns the word, the count \<open>*cl\<close>, the rest of the stream, and whether the statement
  \<open>word[ll + 1] = '\0'\<close>, executed when \<open>ll\<close> is \<open>wsize\<close>, wrote past the allocation. At the end of
  the stream \<open>fgetc\<close> returns \<open>EOF\<close>, stored as the character 255.
\<close>

fun fmakeword_loop :: "char list \<Rightarrow> char \<Rightarrow> int \<Rightarrow> char list \<Rightarrow> nat \<Rightarrow> bool \<Rightarrow> string \<times> int \<times> char list \<times> bool" where
  "fmakeword_loop [] stop cl word wsize oob =
     (let c = CHR 0xFF; oob' = (oob \<or> length word = wsize) in
      (if c \<noteq> stop then word @ [c] else word, cl - 1, [], oob'))"
| "fmakeword_loop (c # f) stop cl word wsize oob =
     (let oob' = (oob \<or> length word = wsize);
          wsize' = (if length word = wsize then wsize + 102400 else wsize);
          cl' = cl - 1 in
      if c = stop \<or> cl' = 0 then (if c \<noteq> stop then word @ [c] else word, cl', f, oob')
      else fmakeword_loop f stop cl' (word @ [c]) wsize' oob')"

definition fmakeword :: "char list \<Rightarrow> char \<Rightarrow> int \<Rightarrow> string \<times> int \<times> char list \<times> bool" where
  "fmakeword f stop cl = fmakeword_loop f stop cl [] 102400 False"

section \<open>URL decoding\<close>

definition hex_to_integer :: "char \<Rightarrow> int" where
  "hex_to_integer c =
     (let n = of_char c :: int in
      if 48 \<le> n \<and> n \<le> 57 then n - 48
      else if 65 \<le> n \<and> n \<le> 70 then n - 65 + 10
      else if 97 \<le> n \<and> n \<le> 102 then n - 97 + 10
      else -1)"

text \<open>The loop of \<open>unescape_url\<close>: it reads at \<open>y\<close> and writes at \<open>x\<close> of the same buffer.\<close>

function unescape_at :: "char list \<Rightarrow> nat \<Rightarrow> nat \<Rightarrow> char list \<times> nat" where
  "unescape_at url x y =
     (if length url \<le> y \<or> url ! y = NUL then (url, x)
      else if url ! y = CHR ''%'' then
        let hi = hex_to_integer (url ! (y + 1)) in
        if hi < 0 then unescape_at (url[x := CHR ''%'']) (x + 1) (y + 1)
        else
          let lo = hex_to_integer (url ! (y + 2)) in
          if lo < 0 then unescape_at (url[x := CHR ''%'']) (x + 1) (y + 1)
          else unescape_at (url[x := char_of (nat (hi * 16 + lo))]) (x + 1) (y + 3)
      else unescape_at (url[x := url ! y]) (x + 1) (y + 1))"
  by pat_completeness auto
termination
  by (relation "measure (\<lambda>(url, x, y). length url - y)") auto

declare unescape_at.simps [simp del]

definition unescape_url :: "string \<Rightarrow> string" where
  "unescape_url url = (let (buf, x) = unescape_at (url @ [NUL]) 0 0 in cstr (buf[x := NUL]))"

definition plustospace :: "string \<Rightarrow> string" where
  "plustospace s = map (\<lambda>c. if c = CHR ''+'' then CHR '' '' else c) s"

section \<open>Searching and shell escaping\<close>

fun rind_from :: "string \<Rightarrow> char \<Rightarrow> nat \<Rightarrow> int" where
  "rind_from s c 0 = -1"
| "rind_from s c (Suc x) = (if s ! x = c then int x else rind_from s c x)"

definition rind :: "string \<Rightarrow> char \<Rightarrow> int" where
  "rind s c = rind_from s c (length s)"

fun ind_from :: "string \<Rightarrow> char \<Rightarrow> int \<Rightarrow> int" where
  "ind_from [] c x = -1"
| "ind_from (d # s) c x = (if d = c then x else ind_from s c (x + 1))"

definition ind :: "string \<Rightarrow> char \<Rightarrow> int" where
  "ind s c = ind_from s c 0"

fun send_fd :: "char list \<Rightarrow> char list \<Rightarrow> char list" where
  "send_fd [] fd = fd"
| "send_fd (c # f) fd = send_fd f (fd @ [c])"

definition shell_meta :: string where
  "shell_meta =
     [CHR 0x26, CHR 0x3B, CHR 0x60, CHR 0x27, CHR 0x22, CHR 0x7C, CHR 0x2A, CHR 0x3F, CHR 0x7E,
      CHR 0x3C, CHR 0x3E, CHR 0x5E, CHR 0x28, CHR 0x29, CHR 0x5B, CHR 0x5D, CHR 0x7B, CHR 0x7D,
      CHR 0x24, CHR 0x5C, CHR 0x0A]"

text \<open>
  The loop of \<open>escape_shell_cmd\<close> at index \<open>x\<close>; the inner loop moves the tail of the buffer up by
  one, and the buffer is taken to have room for it.
\<close>

function escape_at :: "nat \<Rightarrow> string \<Rightarrow> string" where
  "escape_at x cmd =
     (if length cmd \<le> x then cmd
      else if ind shell_meta (cmd ! x) \<noteq> -1 then escape_at (x + 2) (insert_at x (CHR 0x5C) cmd)
      else escape_at (x + 1) cmd)"
  by pat_completeness auto
termination
  by (relation "measure (\<lambda>(x, cmd). length cmd - x)") auto

declare escape_at.simps [simp del]

definition escape_shell_cmd :: "string \<Rightarrow> string" where
  "escape_shell_cmd cmd = escape_at 0 cmd"

section \<open>The request object\<close>

datatype request_type = MS_GET_REQUEST | MS_POST_REQUEST
datatype param_source = MS_PARAM_SOURCE_QUERYSTRING | MS_PARAM_SOURCE_POST | MS_PARAM_SOURCE_COOKIE

abbreviation (input) MS_DEFAULT_CGI_PARAMS :: nat where "MS_DEFAULT_CGI_PARAMS \<equiv> 100"

record cgiRequestObj =
  ParamNames :: "string list"
  ParamValues :: "string list"
  ParamSources :: "param_source list"
  params_alloc :: nat \<comment> \<open>allocated elements of the three arrays\<close>
  params_overrun :: bool
  NumParams :: int
  request_type :: request_type
  contenttype :: "string option"
  postrequest :: "string option"
  httpcookiedata :: "string option"
  path_info :: "string option"
  api_path_length :: int
  api_path :: "string list option"

definition msAllocCgiObj :: "bool \<Rightarrow> cgiRequestObj option" where
  "msAllocCgiObj malloc_ok =
     (if \<not> malloc_ok then None
      else Some \<lparr>ParamNames = [], ParamValues = [], ParamSources = [],
                 params_alloc = MS_DEFAULT_CGI_PARAMS, params_overrun = False, NumParams = 0,
                 request_type = MS_GET_REQUEST, contenttype = None, postrequest = None,
                 httpcookiedata = None, path_info = None, api_path_length = 0, api_path = None\<rparr>)"

section \<open>Reading a POST body\<close>

record cgiEnv =
  getenv2 :: "(string \<Rightarrow> string option) option"
  getenv :: "string \<Rightarrow> string option"
  stdin :: "char list"
  malloc_max :: nat
  no_post :: bool

abbreviation (input) SIZE_MAX :: nat where "SIZE_MAX \<equiv> 2 ^ 64 - 1"
abbreviation (input) DATA_ALLOC_SIZE :: nat where "DATA_ALLOC_SIZE \<equiv> 10000"

text \<open>The chunk loop: the buffer holds \<open>data\<close> and has room for \<open>data_max\<close> characters.\<close>

function read_chunks :: "char list \<Rightarrow> char list \<Rightarrow> nat \<Rightarrow> report list \<times> char list option" where
  "read_chunks inp data data_max =
     (let chunk = take (data_max - length data) inp in
      if chunk = [] then ([], Some data)
      else
        let data' = data @ chunk; inp' = drop (data_max - length data) inp in
        if length data' = data_max then
          if SIZE_MAX - (DATA_ALLOC_SIZE + 1) < data_max
          then ([Report MS_WEBERR ''Possible size_t overflow, cannot reallocate input buffer, POST body too large?'' ''readPostBody()''], None)
          else read_chunks inp' data' (data_max + DATA_ALLOC_SIZE)
        else read_chunks inp' data' data_max)"
  by pat_completeness auto
termination
  by (relation "measure (\<lambda>(inp, data, data_max). length inp)") auto

declare read_chunks.simps [simp del]

definition readPostBody :: "cgiEnv \<Rightarrow> report list \<times> char list option" where
  "readPostBody env =
     (case getenv env ''CONTENT_LENGTH'' of
        Some v \<Rightarrow>
          let n = atoi v; data_max = nat (n mod 2 ^ 64) in
          if SIZE_MAX \<le> data_max
          then ([Report MS_WEBERR ''Suspicious Content-Length.'' ''readPostBody()''], None)
          else if malloc_max env < data_max + 1
          then ([Report MS_WEBERR ''malloc() failed, Content-Length unreasonably large?'' ''readPostBody()''], None)
          else if int (length (take data_max (stdin env))) < n
          then ([Report MS_WEBERR ''POST body is short.'' ''readPostBody()''], None)
          else ([], Some (take data_max (stdin env)))
      | None \<Rightarrow> read_chunks (stdin env) [] DATA_ALLOC_SIZE)"

section \<open>Parameters\<close>

text \<open>Storing parameter \<open>m\<close>, after the arrays were grown when \<open>m\<close> reached \<open>maxParams\<close>.\<close>

definition grow_params :: "nat \<Rightarrow> cgiRequestObj \<Rightarrow> nat \<times> cgiRequestObj" where
  "grow_params maxParams req =
     (if maxParams \<le> length (ParamNames req)
      then (maxParams * 2, req\<lparr>params_alloc := maxParams * 2\<rparr>) else (maxParams, req))"

definition store_param :: "string \<Rightarrow> string \<Rightarrow> param_source \<Rightarrow> cgiRequestObj \<Rightarrow> cgiRequestObj" where
  "store_param name val src req =
     req\<lparr>params_overrun := (params_overrun req \<or> params_alloc req \<le> length (ParamNames req)),
         ParamNames := ParamNames req @ [name], ParamValues := ParamValues req @ [val],
         ParamSources := ParamSources req @ [src]\<rparr>"

text \<open>
  The body of the four loops of \<open>loadParams\<close>; they differ in the separator (\<open>;\<close> for cookies), the
  source they record and, for cookies, in skipping blanks before the name.
\<close>

definition split_param :: "param_source \<Rightarrow> string \<Rightarrow> string \<times> string" where
  "split_param src word =
     (let val = unescape_url (plustospace word) in
      if src = MS_PARAM_SOURCE_COOKIE then makeword_skip val (CHR ''='') (CHR '' '')
      else makeword val (CHR ''=''))"

lemma scan_word_shorter: "line \<noteq> [] \<Longrightarrow> length (snd (scan_word line stop)) < length line"
proof (induction line)
  case (Cons c cs)
  then show ?case by (cases "cs = []") (auto simp: split_beta)
qed simp

function read_params ::
  "char \<Rightarrow> param_source \<Rightarrow> string \<Rightarrow> nat \<Rightarrow> cgiRequestObj \<Rightarrow> nat \<times> cgiRequestObj" where
  "read_params stop src line maxParams req =
     (if line = [] then (maxParams, req)
      else
        let (maxParams', req') = grow_params maxParams req;
            (word, rest) = makeword line stop;
            (name, val) = split_param src word in
        read_params stop src rest maxParams' (store_param name val src req'))"
  by pat_completeness auto
termination
proof (relation "measure (\<lambda>(stop, src, line, maxParams, req). length line)", goal_cases)
  case (2 stop src line maxParams req x m' r' y word rest z name val)
  then have "rest = snd (scan_word line stop)" by (metis makeword_def snd_conv)
  then show ?case using 2(1) scan_word_shorter [of line stop] by simp
qed simp

declare read_params.simps [simp del]

lemma read_params_Nil [simp]: "read_params stop src [] maxParams req = (maxParams, req)"
  by (simp add: read_params.simps)

text \<open>
  Blanks at the end of a form are cut by storing NUL at \<open>data_len - 1\<close> while a blank stands
  there. \<open>data_len\<close> is the length of the text, except when the caller hands over a body with a length
  that differs from it, as one with a NUL inside does: the code then reads behind the copy of the
  text, while here nothing is cut. The parameters are read from the text in both cases.
\<close>

function trim_post :: "nat \<Rightarrow> string \<Rightarrow> string" where
  "trim_post data_len s =
     (if 0 < data_len \<and> data_len \<le> length s \<and> isspace (s ! (data_len - 1))
      then trim_post (data_len - 1) (take (data_len - 1) s) else s)"
  by pat_completeness auto
termination
  by (relation "measure fst") auto

declare trim_post.simps [simp del]

definition form_type :: string where
  "form_type = ''application/x-www-form-urlencoded''"

definition usage_text :: "string list" where
  "usage_text =
     [''This script can only be used to decode form results and '',
      ''should be initiated as a CGI process via a httpd server.'',
      ''For other options please try using the --help switch.'']"

text \<open>The common tail: the cookies.\<close>

definition load_cookies ::
  "(string \<Rightarrow> string option) \<Rightarrow> nat \<times> cgiRequestObj \<Rightarrow> int \<times> cgiRequestObj" where
  "load_cookies env2 mr =
     (let (maxParams, req) = mr;
          req' = (case env2 ''HTTP_COOKIE'' of
                    None \<Rightarrow> req
                  | Some s \<Rightarrow> snd (read_params (CHR '';'') MS_PARAM_SOURCE_COOKIE s maxParams
                                     (req\<lparr>httpcookiedata := Some s\<rparr>))) in
      (int (length (ParamNames req')), req'))"

definition load_query ::
  "(string \<Rightarrow> string option) \<Rightarrow> nat \<times> cgiRequestObj \<Rightarrow> nat \<times> cgiRequestObj" where
  "load_query env2 mr =
     (case env2 ''QUERY_STRING'' of
        None \<Rightarrow> mr
      | Some s \<Rightarrow> read_params (CHR ''&'') MS_PARAM_SOURCE_QUERYSTRING s (fst mr) (snd mr))"

definition set_content_type :: "(string \<Rightarrow> string option) \<Rightarrow> cgiRequestObj \<Rightarrow> cgiRequestObj" where
  "set_content_type env2 req =
     (if contenttype req = None
      then req\<lparr>contenttype := Some (case env2 ''CONTENT_TYPE'' of
                                     Some s \<Rightarrow> s | None \<Rightarrow> ''application/octet-stream'')\<rparr>
      else req)"

text \<open>The count \<open>m\<close> starts at 0: the entries of an earlier call are overwritten.\<close>

definition no_params :: "cgiRequestObj \<Rightarrow> cgiRequestObj" where
  "no_params req = req\<lparr>ParamNames := [], ParamValues := [], ParamSources := []\<rparr>"

type_synonym load_result = "int \<times> cgiRequestObj \<times> report list \<times> string list"

text \<open>
  The branch of a POST. \<open>raw\<close> is the body and its length when the caller already has them; a body
  read from the standard input is as long as its C string.
\<close>

definition post_body :: "cgiEnv \<Rightarrow> (string \<times> nat) option \<Rightarrow> report list \<times> (string \<times> nat) option" where
  "post_body env raw =
     (case raw of
        Some dn \<Rightarrow> ([], Some dn)
      | None \<Rightarrow> (case readPostBody env of
                   (es, None) \<Rightarrow> (es, None)
                 | (es, Some buf) \<Rightarrow> (es, Some (cstr buf, length (cstr buf)))))"

definition post_params :: "string \<Rightarrow> nat \<Rightarrow> cgiRequestObj \<Rightarrow> nat \<times> cgiRequestObj" where
  "post_params post_data data_len req =
     (if take (length form_type) (the (contenttype req)) = form_type
      then read_params (CHR ''&'') MS_PARAM_SOURCE_POST (trim_post data_len post_data)
             MS_DEFAULT_CGI_PARAMS (no_params req)
      else (MS_DEFAULT_CGI_PARAMS, no_params (req\<lparr>postrequest := Some post_data\<rparr>)))"

definition load_post ::
  "cgiEnv \<Rightarrow> (string \<Rightarrow> string option) \<Rightarrow> (string \<times> nat) option \<Rightarrow> cgiRequestObj \<Rightarrow> load_result" where
  "load_post env env2 raw req =
     (let req1 = set_content_type env2 (req\<lparr>request_type := MS_POST_REQUEST\<rparr>);
          (es, body) = post_body env raw in
      case body of
        None \<Rightarrow> (-1, req1, es, [])
      | Some (post_data, data_len) \<Rightarrow>
          let (m, req2) = load_cookies env2 (load_query env2 (post_params post_data data_len req1)) in
          (m, req2, es, []))"

text \<open>The branch of a GET.\<close>

definition load_get :: "(string \<Rightarrow> string option) \<Rightarrow> cgiRequestObj \<Rightarrow> load_result" where
  "load_get env2 req =
     (let req1 = req\<lparr>request_type := MS_GET_REQUEST\<rparr> in
      case env2 ''QUERY_STRING'' of
        None \<Rightarrow> (-1, req1, [Report MS_WEBERR ''No query information to decode. QUERY_STRING not set.'' ''loadParams()''], [])
      | Some s \<Rightarrow>
          if s = []
          then (-1, req1, [Report MS_WEBERR ''No query information to decode. QUERY_STRING is set, but empty.'' ''loadParams()''], [])
          else let (m, req2) = load_cookies env2 (load_query env2 (MS_DEFAULT_CGI_PARAMS, no_params req1)) in
               (m, req2, [], []))"

text \<open>
  \<open>loadParams\<close>: the returned count or -1, the request, the reports and the text printed.
\<close>

definition loadParams :: "cgiEnv \<Rightarrow> (string \<times> nat) option \<Rightarrow> cgiRequestObj \<Rightarrow> load_result" where
  "loadParams env raw req =
     (let env2 = (case getenv2 env of None \<Rightarrow> getenv env | Some f \<Rightarrow> f) in
      case env2 ''REQUEST_METHOD'' of
        None \<Rightarrow> (-1, req, [], usage_text)
      | Some meth \<Rightarrow>
          if meth = ''POST'' \<and> \<not> no_post env then load_post env env2 raw req
          else if meth = ''GET'' then load_get env2 req
          else
            (-1, req, [Report MS_WEBERR ''This script should be referenced with a METHOD of GET or METHOD of POST.'' ''loadParams()''], []))"

section \<open>Lemmas on words\<close>

lemma scan_word_take: "stop \<notin> set w \<Longrightarrow> scan_word (w @ stop # r) stop = (w, r)"
  by (induction w) auto

lemma scan_word_none: "stop \<notin> set w \<Longrightarrow> scan_word w stop = (w, [])"
  by (induction w) auto

lemma scan_word_spec:
  "scan_word line stop = (w, r) \<Longrightarrow> stop \<notin> set w \<and> (line = w @ stop # r \<or> (line = w \<and> r = []))"
proof (induction line arbitrary: w)
  case (Cons c cs)
  then show ?case by (cases "scan_word cs stop") (auto split: if_splits)
qed simp

section \<open>URL decoding in place\<close>

text \<open>The string that decoding should give, before the truncation at a decoded NUL.\<close>

fun url_decode :: "string \<Rightarrow> string" where
  "url_decode [] = []"
| "url_decode (c # cs) =
     (if c = CHR ''%'' \<and> 2 \<le> length cs \<and> 0 \<le> hex_to_integer (cs ! 0) \<and> 0 \<le> hex_to_integer (cs ! 1)
      then char_of (nat (hex_to_integer (cs ! 0) * 16 + hex_to_integer (cs ! 1))) # url_decode (drop 2 cs)
      else c # url_decode cs)"

lemma url_decode_length: "length (url_decode s) \<le> length s"
  by (induction s rule: url_decode.induct) auto

lemma hex_NUL: "hex_to_integer NUL = -1"
  by (simp add: hex_to_integer_def)

lemma drop_Cons_nth: "drop y url = c # t \<Longrightarrow> y < length url \<and> url ! y = c \<and> drop (Suc y) url = t"
  by (metis Cons_nth_drop_Suc drop_all list.distinct(1) list.inject not_le_imp_less)

text \<open>One turn of the loop writes behind the reading position and leaves the rest unread.\<close>

lemma unescape_turn:
  assumes IH: "\<And>url x. x \<le> y' \<Longrightarrow> drop y' url = s @ [NUL] \<Longrightarrow>
      \<exists>url'. unescape_at url x y' = (url', x + length t) \<and> length url' = length url \<and>
        take (x + length t) url' = take x url @ t"
    and x: "x < y'" and d: "drop y' url = s @ [NUL]"
  shows "\<exists>url'. unescape_at (url[x := v]) (x + 1) y' = (url', x + length (v # t)) \<and>
           length url' = length url \<and> take (x + length (v # t)) url' = take x url @ v # t"
proof -
  have "y' < length url" using d by (metis append_is_Nil_conv drop_all list.distinct(1) not_le_imp_less)
  then have len: "x < length url" using x by simp
  have "drop y' (url[x := v]) = s @ [NUL]" using d x by simp
  from IH [OF _ this, of "x + 1"] obtain url' where
    u: "unescape_at (url[x := v]) (x + 1) y' = (url', x + 1 + length t)" "length url' = length url"
    "take (x + 1 + length t) url' = take (x + 1) (url[x := v]) @ t" using x by auto
  have "take (x + 1) (url[x := v]) = take x url @ [v]" using len by (simp add: take_Suc_conv_app_nth)
  then show ?thesis using u by simp
qed

lemma unescape_at_spec:
  assumes "x \<le> y" and "drop y url = s @ [NUL]" and "NUL \<notin> set s"
  shows "\<exists>url'. unescape_at url x y = (url', x + length (url_decode s)) \<and> length url' = length url \<and>
           take (x + length (url_decode s)) url' = take x url @ url_decode s"
  using assms
proof (induction s arbitrary: url x y rule: url_decode.induct)
  case 1
  then have "url ! y = NUL" using drop_Cons_nth by fastforce
  then show ?case by (simp add: unescape_at.simps [of url x y])
next
  case (2 c cs)
  have y: "y < length url" "url ! y = c" and tl: "drop (Suc y) url = cs @ [NUL]"
    using drop_Cons_nth [of y url c "cs @ [NUL]"] 2(4) by auto
  have c: "c \<noteq> NUL" "NUL \<notin> set cs" using 2(5) by auto
  have one: "cs \<noteq> [] \<Longrightarrow> url ! (y + 1) = cs ! 0" "cs = [] \<Longrightarrow> url ! (y + 1) = NUL"
    using tl drop_Cons_nth [of "Suc y" url] by (cases cs; auto)+
  have two: "2 \<le> length cs \<Longrightarrow> url ! (y + 2) = cs ! 1" "length cs = 1 \<Longrightarrow> url ! (y + 2) = NUL"
  proof -
    have "drop (y + 1 + k) url = drop k (cs @ [NUL])" for k using tl by (metis add.commute drop_drop plus_1_eq_Suc)
    from this [of 1] have "drop (y + 2) url = drop 1 (cs @ [NUL])" by simp
    moreover have "length cs \<ge> 1 \<Longrightarrow> drop 1 (cs @ [NUL]) = (cs @ [NUL]) ! 1 # drop 2 (cs @ [NUL])"
      by (metis Cons_nth_drop_Suc One_nat_def Suc_1 length_append_singleton less_Suc_eq_le)
    ultimately show "2 \<le> length cs \<Longrightarrow> url ! (y + 2) = cs ! 1" "length cs = 1 \<Longrightarrow> url ! (y + 2) = NUL"
      using drop_Cons_nth [of "y + 2" url] by (auto simp: nth_append)
  qed
  show ?case
  proof (cases "c = CHR ''%'' \<and> 2 \<le> length cs \<and> 0 \<le> hex_to_integer (cs ! 0) \<and> 0 \<le> hex_to_integer (cs ! 1)")
    case True
    let ?v = "char_of (nat (hex_to_integer (cs ! 0) * 16 + hex_to_integer (cs ! 1)))"
    have ne: "cs \<noteq> []" using True by auto
    have "drop (y + 3) url = drop 2 cs @ [NUL]"
      using arg_cong [OF tl, of "drop 2"] True by (simp add: numeral_3_eq_3)
    moreover have nn: "NUL \<notin> set (drop 2 cs)" using c(2) by (meson in_set_dropD)
    moreover have "unescape_at url x y = unescape_at (url[x := ?v]) (x + 1) (y + 3)"
      using True y one(1) [OF ne] two(1) c by (subst unescape_at.simps) (auto simp: Let_def)
    ultimately show ?thesis
      using unescape_turn [where y' = "y + 3" and x = x and url = url and v = ?v and s = "drop 2 cs"
          and t = "url_decode (drop 2 cs)", OF 2(1) [OF True _ _ nn]] 2(3) True by simp
  next
    case False
    have "unescape_at url x y = unescape_at (url[x := c]) (x + 1) (y + 1)"
    proof (cases "c = CHR ''%''")
      case pct: True
      then have "hex_to_integer (url ! (y + 1)) < 0 \<or> hex_to_integer (url ! (y + 2)) < 0"
        using False one two hex_NUL
        by (cases "cs = []"; cases "length cs = 1") (auto simp: not_le Suc_le_eq neq_Nil_conv)
      then show ?thesis using pct y by (subst unescape_at.simps) (auto simp: Let_def)
    next
      case False
      then show ?thesis using y c by (subst unescape_at.simps) simp
    qed
    then show ?thesis 
      using unescape_turn [where y' = "y + 1" and x = x and url = url and v = c and s = cs
          and t = "url_decode cs", OF 2(2) [OF False _ _ c(2)]] 2(3) tl False by auto
  qed
qed

lemma cstr_take: "x < length buf \<Longrightarrow> cstr (buf[x := NUL]) = cstr (take x buf)"
  by (simp add: cstr_def upd_conv_take_nth_drop takeWhile_tail)

lemma unescape_url_eq:
  assumes "NUL \<notin> set s"
  shows "unescape_url s = cstr (url_decode s)"
proof -
  obtain buf where b: "unescape_at (s @ [NUL]) 0 0 = (buf, length (url_decode s))"
    "length buf = length s + 1" "take (length (url_decode s)) buf = url_decode s"
    using unescape_at_spec [of 0 0 "s @ [NUL]" s] assms by auto
  then show ?thesis
    using cstr_take [of "length (url_decode s)" buf] url_decode_length [of s]
    by (simp add: unescape_url_def)
qed


section \<open>Decoding what the encoder wrote\<close>

lemma hex_to_integer_upper: "n < 16 \<Longrightarrow> hex_to_integer (upper_hex n) = int n"
proof -
  have "list_all (\<lambda>m. hex_to_integer (upper_hex m) = int m) [0..<16]" by code_simp
  then show "n < 16 \<Longrightarrow> hex_to_integer (upper_hex n) = int n" by (auto simp: list_all_iff)
qed

lemma upper_hex_chars: "n < 16 \<Longrightarrow> upper_hex n \<notin> {NUL, CHR ''&'', CHR ''+'', CHR '';'', CHR ''='', CHR '' ''}"
proof -
  have "list_all (\<lambda>m. upper_hex m \<notin> {NUL, CHR ''&'', CHR ''+'', CHR '';'', CHR ''='', CHR '' ''}) [0..<16]" by code_simp
  then show "n < 16 \<Longrightarrow> upper_hex n \<notin> {NUL, CHR ''&'', CHR ''+'', CHR '';'', CHR ''='', CHR '' ''}"
    unfolding list_all_iff by simp
qed

lemma encoded_reserved:
  "c \<in> {NUL, CHR ''&'', CHR ''+'', CHR '';'', CHR ''='', CHR '' '', CHR ''%''} \<Longrightarrow> msEncodeChar c"
  by (auto simp: msEncodeChar_def)

lemma encode_Cons:
  "msEncodeUrl (c # s) =
     (if msEncodeChar c
      then CHR ''%'' # upper_hex (of_char c div 16) # upper_hex (of_char c mod 16) # msEncodeUrl s
      else c # msEncodeUrl s)"
  by (simp add: msEncodeUrl_def Let_def)

lemma encode_Nil [simp]: "msEncodeUrl [] = []"
  by (simp add: msEncodeUrl_def)

lemma char_nibbles: "of_char (c::char) div 16 < (16::nat)" "of_char c mod 16 < (16::nat)"
proof -
  have "of_char c < (256::nat)" by (rule nat_of_char_less_256)
  then show "of_char (c::char) div 16 < (16::nat)" "of_char c mod 16 < (16::nat)" by linarith+
qed

lemma encode_chars: "set (msEncodeUrl s) \<inter> {NUL, CHR ''&'', CHR ''+'', CHR '';'', CHR ''='', CHR '' ''} = {}"
proof (induction s)
  case (Cons c s)
  show ?case
  proof (cases "msEncodeChar c")
    case True
    then show ?thesis
      using Cons upper_hex_chars [OF char_nibbles(1) [of c]] upper_hex_chars [OF char_nibbles(2) [of c]]
      by (auto simp: encode_Cons)
  next
    case False
    then show ?thesis using Cons encoded_reserved [of c] by (auto simp: encode_Cons)
  qed
qed simp

lemma decode_encode: "url_decode (msEncodeUrl s @ t) = s @ url_decode t"
proof (induction s)
  case (Cons c s)
  show ?case
  proof (cases "msEncodeChar c")
    case True
    have "int (of_char c div 16) * 16 + int (of_char c mod 16) = int (of_char c)"
      unfolding zdiv_int zmod_int by simp
    then show ?thesis
      using True Cons by (simp add: encode_Cons hex_to_integer_upper char_nibbles)
  next
    case False
    then have "c \<noteq> CHR ''%''" using encoded_reserved [of c] by auto
    then show ?thesis using False Cons by (simp add: encode_Cons)
  qed
qed simp

lemma plustospace_id: "CHR ''+'' \<notin> set s \<Longrightarrow> plustospace s = s"
  by (induction s) (auto simp: plustospace_def)

lemma cstr_id: "NUL \<notin> set s \<Longrightarrow> cstr s = s"
  by (induction s) (auto simp: cstr_def)

lemma unescape_encode: "NUL \<notin> set s \<Longrightarrow> unescape_url (msEncodeUrl s) = s"
  using decode_encode [of s "[]"] encode_chars [of s] by (simp add: unescape_url_eq cstr_id)

text \<open>A name and a value as one parameter of a query string.\<close>

definition param_text :: "string \<times> string \<Rightarrow> string" where
  "param_text nv = msEncodeUrl (fst nv) @ CHR ''='' # msEncodeUrl (snd nv)"

definition param_ok :: "string \<times> string \<Rightarrow> bool" where
  "param_ok nv \<longleftrightarrow> NUL \<notin> set (fst nv) \<and> NUL \<notin> set (snd nv) \<and> CHR ''='' \<notin> set (fst nv)"

lemma param_text_chars: "CHR ''&'' \<notin> set (param_text nv)" "CHR ''+'' \<notin> set (param_text nv)"
  "NUL \<notin> set (param_text nv)" "param_text nv \<noteq> []"
  using encode_chars [of "fst nv"] encode_chars [of "snd nv"] by (auto simp: param_text_def)

lemma split_param_text:
  assumes "param_ok nv" and "src \<noteq> MS_PARAM_SOURCE_COOKIE"
  shows "split_param src (param_text nv) = nv"
proof -
  have "url_decode (param_text nv) = fst nv @ CHR ''='' # snd nv"
    using decode_encode [of "snd nv" "[]"] by (simp add: param_text_def decode_encode)
  then have "unescape_url (plustospace (param_text nv)) = fst nv @ CHR ''='' # snd nv"
    using assms(1) param_text_chars [of nv]
    by (simp add: plustospace_id unescape_url_eq cstr_id param_ok_def)
  then show ?thesis using assms by (simp add: split_param_def makeword_def scan_word_take param_ok_def)
qed


section \<open>The parameter arrays\<close>

definition params_ok :: "nat \<Rightarrow> cgiRequestObj \<Rightarrow> bool" where
  "params_ok maxParams req \<longleftrightarrow>
     0 < maxParams \<and> maxParams \<le> params_alloc req \<and> length (ParamNames req) \<le> maxParams \<and>
     length (ParamValues req) = length (ParamNames req) \<and>
     length (ParamSources req) = length (ParamNames req) \<and> \<not> params_overrun req"

text \<open>One turn of a parameter loop.\<close>

lemma param_turn:
  assumes "params_ok maxParams req" and "grow_params maxParams req = (maxParams', req')"
  shows "params_ok maxParams' (store_param name val src req')"
    and "ParamNames (store_param name val src req') = ParamNames req @ [name]"
    and "ParamValues (store_param name val src req') = ParamValues req @ [val]"
    and "ParamSources (store_param name val src req') = ParamSources req @ [src]"
    and "NumParams (store_param name val src req') = NumParams req"
    and "httpcookiedata (store_param name val src req') = httpcookiedata req"
  using assms
  by (auto simp: params_ok_def grow_params_def store_param_def Suc_le_eq split: if_splits)

lemma read_params_ok [ms_inv]:
  "params_ok maxParams req \<Longrightarrow> read_params stop src line maxParams req = (maxParams', req') \<Longrightarrow>
   params_ok maxParams' req'"
proof (induction stop src line maxParams req rule: read_params.induct)
  case (1 stop src line maxParams req)
  show ?case
  proof (cases "line = []")
    case False
    obtain m1 r1 where g: "grow_params maxParams req = (m1, r1)" by force
    obtain word rest where w: "makeword line stop = (word, rest)" by force
    obtain name val where v: "split_param src word = (name, val)" by force
    have "read_params stop src rest m1 (store_param name val src r1) = (maxParams', req')"
      using 1(3) False g w v by (simp add: read_params.simps [of stop src line])
    then show ?thesis
      using 1(1) [OF False g [symmetric] refl w [symmetric] refl v [symmetric] refl] param_turn(1) [OF 1(2) g] by simp
  qed (use 1 in simp)
qed

fun encode_query :: "(string \<times> string) list \<Rightarrow> string" where
  "encode_query [] = []"
| "encode_query [nv] = param_text nv"
| "encode_query (nv # nvs) = param_text nv @ CHR ''&'' # encode_query nvs"

lemma encode_query_word:
  "nvs \<noteq> [] \<Longrightarrow> makeword (encode_query nvs) (CHR ''&'') = (param_text (hd nvs), encode_query (tl nvs))"
  using param_text_chars(1) [of "hd nvs"]
  by (cases nvs rule: encode_query.cases) (simp_all add: makeword_def scan_word_take scan_word_none)

lemma encode_query_Nil: "encode_query nvs = [] \<longleftrightarrow> nvs = []"
  by (cases nvs rule: encode_query.cases) (simp_all add: param_text_chars)

lemma read_params_query:
  assumes "params_ok maxParams req" and "list_all param_ok nvs" and src: "src \<noteq> MS_PARAM_SOURCE_COOKIE"
  shows "\<exists>maxParams' req'. read_params (CHR ''&'') src (encode_query nvs) maxParams req = (maxParams', req') \<and>
    ParamNames req' = ParamNames req @ map fst nvs \<and> ParamValues req' = ParamValues req @ map snd nvs \<and>
    ParamSources req' = ParamSources req @ replicate (length nvs) src"
  using assms(1,2)
proof (induction nvs arbitrary: maxParams req)
  case (Cons nv nvs)
  obtain m1 r1 where g: "grow_params maxParams req = (m1, r1)" by force
  note turn = param_turn [OF Cons.prems(1) g]
  have "split_param src (param_text nv) = (fst nv, snd nv)" using split_param_text [OF _ src] Cons.prems(2) by simp
  then have "read_params (CHR ''&'') src (encode_query (nv # nvs)) maxParams req =
      read_params (CHR ''&'') src (encode_query nvs) m1 (store_param (fst nv) (snd nv) src r1)"
    using encode_query_word [of "nv # nvs"] encode_query_Nil [of "nv # nvs"] g
    by (simp add: read_params.simps [of _ _ "encode_query (nv # nvs)"] split_beta)
  then show ?case
    using Cons.IH [OF turn(1) [of "fst nv" "snd nv" src]] Cons.prems(2) turn(2,3,4) by auto
qed simp

lemma no_params_ok:
  "MS_DEFAULT_CGI_PARAMS \<le> params_alloc req \<Longrightarrow> \<not> params_overrun req \<Longrightarrow>
   params_ok MS_DEFAULT_CGI_PARAMS (no_params req)"
  by (simp add: params_ok_def no_params_def)

lemma load_query_ok:
  "params_ok (fst mr) (snd mr) \<Longrightarrow> params_ok (fst (load_query env2 mr)) (snd (load_query env2 mr))"
  by (cases "env2 ''QUERY_STRING''") (auto simp: load_query_def intro: read_params_ok [OF _ prod.collapse [symmetric]])

lemma load_cookies_ok:
  assumes "params_ok (fst mr) (snd mr)" and "load_cookies env2 mr = (m, req')"
  shows "\<exists>maxParams. params_ok maxParams req' \<and> m = int (length (ParamNames req'))"
proof (cases "env2 ''HTTP_COOKIE''")
  case None
  then show ?thesis using assms by (auto simp: load_cookies_def split_beta)
next
  case (Some s)
  let ?r = "read_params (CHR '';'') MS_PARAM_SOURCE_COOKIE s (fst mr) ((snd mr)\<lparr>httpcookiedata := Some s\<rparr>)"
  have "params_ok (fst mr) ((snd mr)\<lparr>httpcookiedata := Some s\<rparr>)" using assms(1) by (simp add: params_ok_def)
  then have "params_ok (fst ?r) (snd ?r)" by (rule read_params_ok [OF _ prod.collapse [symmetric]])
  then show ?thesis using assms(2) Some by (auto simp: load_cookies_def split_beta Let_def)
qed

text \<open>A call that does not fail leaves arrays that fit their allocation.\<close>

definition load_ok :: "load_result \<Rightarrow> bool" where
  "load_ok r \<longleftrightarrow> (case r of (m, req', es, out) \<Rightarrow>
     (m = -1 \<and> \<not> params_overrun req') \<or>
     (\<exists>maxParams. params_ok maxParams req' \<and> m = int (length (ParamNames req'))))"

lemma load_ok_cookies:
  "params_ok (fst mr) (snd mr) \<Longrightarrow>
   load_ok (let (m, req2) = load_cookies env2 (load_query env2 mr) in (m, req2, es, out))"
  using load_cookies_ok [OF load_query_ok prod.collapse [symmetric], of mr env2 env2]
  by (auto simp: load_ok_def split_beta)

lemma load_get_ok:
  assumes "MS_DEFAULT_CGI_PARAMS \<le> params_alloc req" "\<not> params_overrun req"
  shows "load_ok (load_get env2 req)"
proof -
  have "params_ok MS_DEFAULT_CGI_PARAMS (no_params (req\<lparr>request_type := MS_GET_REQUEST\<rparr>))"
    using assms by (intro no_params_ok) simp_all
  then show ?thesis
    using load_ok_cookies [of "(MS_DEFAULT_CGI_PARAMS, no_params (req\<lparr>request_type := MS_GET_REQUEST\<rparr>))" env2 "[]" "[]"] assms
    by (auto simp: load_get_def Let_def load_ok_def split: option.split)
qed

lemma post_params_ok:
  assumes "MS_DEFAULT_CGI_PARAMS \<le> params_alloc req" "\<not> params_overrun req"
  shows "params_ok (fst (post_params d n req)) (snd (post_params d n req))"
proof -
  have "params_ok MS_DEFAULT_CGI_PARAMS (no_params req)"
    "params_ok MS_DEFAULT_CGI_PARAMS (no_params (req\<lparr>postrequest := Some d\<rparr>))"
    using assms by (intro no_params_ok; simp)+
  then show ?thesis
    using read_params_ok [OF _ prod.collapse [symmetric]] by (simp add: post_params_def)
qed

lemma load_post_ok:
  assumes "MS_DEFAULT_CGI_PARAMS \<le> params_alloc req" "\<not> params_overrun req"
  shows "load_ok (load_post env env2 raw req)"
proof -
  let ?req1 = "set_content_type env2 (req\<lparr>request_type := MS_POST_REQUEST\<rparr>)"
  have ct: "MS_DEFAULT_CGI_PARAMS \<le> params_alloc ?req1" "\<not> params_overrun ?req1"
    using assms by (simp_all add: set_content_type_def)
  obtain es body where b: "post_body env raw = (es, body)" by force
  show ?thesis
  proof (cases body)
    case None
    then show ?thesis using b ct by (simp add: load_post_def load_ok_def)
  next
    case (Some dn)
    obtain d n where dn: "dn = (d, n)" by force
    show ?thesis
      using load_ok_cookies [of "post_params d n ?req1" env2 es "[]", OF post_params_ok [OF ct]] b Some dn
      by (simp add: load_post_def Let_def)
  qed
qed

lemma loadParams_ok:
  assumes "MS_DEFAULT_CGI_PARAMS \<le> params_alloc req" "\<not> params_overrun req"
  shows "load_ok (loadParams env raw req)"
  using load_post_ok [OF assms] load_get_ok [OF assms] assms(2)
  by (auto simp: loadParams_def Let_def load_ok_def split: option.split)


section \<open>Reading to the end and escaping\<close>

lemma read_chunks_Nil [simp]: "read_chunks [] data data_max = ([], Some data)"
  by (simp add: read_chunks.simps)

lemma read_chunks_all:
  "length data < data_max \<Longrightarrow> length data + length inp \<le> SIZE_MAX - (DATA_ALLOC_SIZE + 1) \<Longrightarrow>
   read_chunks inp data data_max = ([], Some (data @ inp))"
proof (induction inp data data_max rule: read_chunks.induct)
  case (1 inp data data_max)
  let ?chunk = "take (data_max - length data) inp"
  show ?case
  proof (cases "?chunk = []")
    case True
    then show ?thesis using 1(3) by simp
  next
    case False
    show ?thesis
    proof (cases "length (data @ ?chunk) = data_max")
      case True
      then have le: "data_max \<le> length data + length inp" using 1(3) by auto
      then have "\<not> SIZE_MAX - (DATA_ALLOC_SIZE + 1) < data_max" using 1(4) by linarith
      moreover have "read_chunks (drop (data_max - length data) inp) (data @ ?chunk) (data_max + DATA_ALLOC_SIZE) =
          ([], Some ((data @ ?chunk) @ drop (data_max - length data) inp))"
        using 1(1) [OF refl False refl refl True] 1(4) True calculation le by auto
      ultimately show ?thesis using False True by (simp add: read_chunks.simps [of inp])
    next
      case short: False
      then have "read_chunks (drop (data_max - length data) inp) (data @ ?chunk) data_max =
          ([], Some ((data @ ?chunk) @ drop (data_max - length data) inp))"
        using 1(2) [OF refl False refl refl short] 1(3,4) by auto
      then show ?thesis using False short by (simp add: read_chunks.simps [of inp])
    qed
  qed
qed

lemma ind_from_iff: "0 \<le> x \<Longrightarrow> ind_from s c x \<noteq> -1 \<longleftrightarrow> c \<in> set s"
  by (induction s arbitrary: x) auto

lemma ind_iff: "ind s c \<noteq> -1 \<longleftrightarrow> c \<in> set s"
  by (simp only: ind_def ind_from_iff)

fun shell_escape :: "string \<Rightarrow> string" where
  "shell_escape [] = []"
| "shell_escape (c # cs) =
     (if c \<in> set shell_meta then CHR 0x5C # c # shell_escape cs else c # shell_escape cs)"

lemma escape_at_eq: "escape_at (length pre) (pre @ s) = pre @ shell_escape s"
proof (induction s arbitrary: pre)
  case Nil
  then show ?case by (simp add: escape_at.simps)
next
  case (Cons c cs)
  show ?case
  proof (cases "c \<in> set shell_meta")
    case True
    have "insert_at (length pre) (CHR 0x5C) (pre @ c # cs) = (pre @ [CHR 0x5C, c]) @ cs"
      by (simp add: insert_at_def)
    then have "escape_at (length pre) (pre @ c # cs) =
        escape_at (length (pre @ [CHR 0x5C, c])) ((pre @ [CHR 0x5C, c]) @ cs)"
      using True by (subst escape_at.simps) (simp add: ind_iff)
    then show ?thesis unfolding Cons.IH using True by simp
  next
    case False
    then have "escape_at (length pre) (pre @ c # cs) = escape_at (length (pre @ [c])) ((pre @ [c]) @ cs)"
      using ind_iff [of shell_meta c] by (subst escape_at.simps) simp
    then show ?thesis unfolding Cons.IH using False by simp
  qed
qed

lemma escape_shell_cmd_eq: "escape_shell_cmd s = shell_escape s"
  using escape_at_eq [of "[]" s] by (simp add: escape_shell_cmd_def)

text \<open>How a shell reads the result: a backslash quotes the character after it.\<close>

fun shell_read :: "string \<Rightarrow> string" where
  "shell_read [] = []"
| "shell_read (c # cs) =
     (if c = CHR 0x5C then (case cs of [] \<Rightarrow> [c] | d # ds \<Rightarrow> d # shell_read ds) else c # shell_read cs)"

fun shell_safe :: "string \<Rightarrow> bool" where
  "shell_safe [] = True"
| "shell_safe (c # cs) =
     (if c = CHR 0x5C then (case cs of [] \<Rightarrow> False | d # ds \<Rightarrow> shell_safe ds)
      else c \<notin> set shell_meta \<and> shell_safe cs)"

lemma backslash_meta: "CHR 0x5C \<in> set shell_meta"
  by (simp add: shell_meta_def)

section \<open>Properties\<close>

text \<open>
  C11. A list of one or more names and values that is encoded with \<open>msEncodeUrl\<close> and sent as the query string
  of a GET request without cookies is read back by \<open>loadParams\<close> exactly: it returns the number
  of parameters, their names and values in order, each with the source query string. (Names must
  not contain \<open>=\<close>, since the code decodes a parameter before it looks for the separator, and
  nothing may contain NUL.)
\<close>

theorem query_roundtrip:
  assumes "MS_DEFAULT_CGI_PARAMS \<le> params_alloc req" and "\<not> params_overrun req" and "nvs \<noteq> []"
    and "\<forall>(n, v)\<in>set nvs. NUL \<notin> set n \<and> NUL \<notin> set v \<and> CHR ''='' \<notin> set n"
    and "getenv2 env = Some f" and "f ''REQUEST_METHOD'' = Some ''GET''"
    and "f ''QUERY_STRING'' = Some (encode_query nvs)" and "f ''HTTP_COOKIE'' = None"
  shows "\<exists>req'. loadParams env raw req = (int (length nvs), req', [], []) \<and>
           ParamNames req' = map fst nvs \<and> ParamValues req' = map snd nvs \<and>
           ParamSources req' = replicate (length nvs) MS_PARAM_SOURCE_QUERYSTRING"
proof -
  let ?r0 = "no_params (req\<lparr>request_type := MS_GET_REQUEST\<rparr>)"
  have "params_ok MS_DEFAULT_CGI_PARAMS ?r0" using assms(1,2) by (intro no_params_ok) simp_all
  moreover have "list_all param_ok nvs" using assms(4) by (auto simp: list_all_iff param_ok_def)
  ultimately obtain mp req' where
    "read_params (CHR ''&'') MS_PARAM_SOURCE_QUERYSTRING (encode_query nvs) MS_DEFAULT_CGI_PARAMS ?r0 = (mp, req')"
    "ParamNames req' = map fst nvs" "ParamValues req' = map snd nvs"
    "ParamSources req' = replicate (length nvs) MS_PARAM_SOURCE_QUERYSTRING"
    using read_params_query [of MS_DEFAULT_CGI_PARAMS ?r0 nvs MS_PARAM_SOURCE_QUERYSTRING]
    by (auto simp: no_params_def)
  then show ?thesis
    using assms(3,5-8) by (simp add: loadParams_def load_get_def load_query_def load_cookies_def encode_query_Nil)
qed

definition demo_request :: cgiRequestObj where
  "demo_request = the (msAllocCgiObj True)"

definition demo_env :: cgiEnv where
  "demo_env = \<lparr>getenv2 = Some ([''REQUEST_METHOD'' \<mapsto> ''GET'',
                 ''QUERY_STRING'' \<mapsto> encode_query [(''map'', ''a b''), (''q'', ''x=1&y'')]]),
               getenv = Map.empty, stdin = [], malloc_max = 0, no_post = False\<rparr>"

theorem query_roundtrip_witness:
  "\<exists>req'. loadParams demo_env None demo_request = (2, req', [], []) \<and>
     ParamNames req' = [''map'', ''q''] \<and> ParamValues req' = [''a b'', ''x=1&y''] \<and>
     ParamSources req' = [MS_PARAM_SOURCE_QUERYSTRING, MS_PARAM_SOURCE_QUERYSTRING]"
  using query_roundtrip [of demo_request "[(''map'', ''a b''), (''q'', ''x=1&y'')]" demo_env
      "the (getenv2 demo_env)" None]
  by (simp add: demo_request_def msAllocCgiObj_def demo_env_def)

text \<open>
  C32. Whatever the environment and the input, \<open>loadParams\<close> on a request whose arrays have their
  initial size never writes a parameter past the allocated arrays: it returns -1, or the number of
  parameters stored, with as many names as values and sources, all within the allocation.
\<close>

theorem params_in_bounds:
  assumes "MS_DEFAULT_CGI_PARAMS \<le> params_alloc req" and "\<not> params_overrun req"
  shows "case loadParams env raw req of (m, req', es, out) \<Rightarrow>
     \<not> params_overrun req' \<and>
     (m = -1 \<or> (m = int (length (ParamNames req')) \<and> length (ParamValues req') = length (ParamNames req') \<and>
        length (ParamSources req') = length (ParamNames req') \<and> length (ParamNames req') \<le> params_alloc req'))"
  using loadParams_ok [OF assms, of env raw] by (auto simp: load_ok_def params_ok_def)

theorem params_in_bounds_witness:
  "case loadParams demo_env None demo_request of (m, req', es, out) \<Rightarrow>
     \<not> params_overrun req' \<and>
     (m = -1 \<or> (m = int (length (ParamNames req')) \<and> length (ParamValues req') = length (ParamNames req') \<and>
        length (ParamSources req') = length (ParamNames req') \<and> length (ParamNames req') \<le> params_alloc req'))"
  by (rule params_in_bounds) (simp_all add: demo_request_def msAllocCgiObj_def)

text \<open>
  \<open>unescape_url\<close>, which decodes within the buffer it reads, gives the decoding of the original
  string (cut at the first decoded NUL): each well-formed \<open>%xy\<close> becomes its character and a
  malformed one is kept. It never lengthens the string, and it inverts \<open>msEncodeUrl\<close>.
\<close>

theorem unescape_in_place:
  assumes "NUL \<notin> set s"
  shows "unescape_url s = takeWhile (\<lambda>c. c \<noteq> NUL) (url_decode s) \<and>
         length (unescape_url s) \<le> length s \<and> unescape_url (msEncodeUrl s) = s"
proof -
  have "length (cstr (url_decode s)) \<le> length s"
    unfolding cstr_def using length_takeWhile_le url_decode_length by (rule le_trans)
  then show ?thesis using unescape_url_eq [OF assms] unescape_encode [OF assms] by (simp add: cstr_def)
qed

theorem unescape_in_place_witness:
  "unescape_url ''a%zz%41'' = takeWhile (\<lambda>c. c \<noteq> NUL) (url_decode ''a%zz%41'') \<and>
   length (unescape_url ''a%zz%41'') \<le> length ''a%zz%41'' \<and>
   unescape_url (msEncodeUrl ''a%zz%41'') = ''a%zz%41''"
  by (rule unescape_in_place) simp

text \<open>
  C33. \<open>readPostBody\<close> without \<open>CONTENT_LENGTH\<close> returns the whole standard input, however many
  chunks it takes; with it, exactly the announced number of characters, and an error with no data
  when the number is negative, too large to allocate, or larger than the input. (An \<open>int\<close> holds
  the number, and no block of half the address space can be allocated.)
\<close>

theorem post_body_exact:
  assumes "length (stdin env) \<le> 2 ^ 63" and "malloc_max env \<le> 2 ^ 63"
    and "\<forall>v. getenv env ''CONTENT_LENGTH'' = Some v \<longrightarrow> - (2 ^ 31) \<le> atoi v \<and> atoi v < 2 ^ 31"
  shows "case getenv env ''CONTENT_LENGTH'' of
      None \<Rightarrow> readPostBody env = ([], Some (stdin env))
    | Some v \<Rightarrow>
        if atoi v < 0 \<or> int (malloc_max env) \<le> atoi v \<or> int (length (stdin env)) < atoi v
        then \<exists>msg. readPostBody env = ([Report MS_WEBERR msg ''readPostBody()''], None)
        else readPostBody env = ([], Some (take (nat (atoi v)) (stdin env)))"
proof (cases "getenv env ''CONTENT_LENGTH''")
  case None
  then show ?thesis using read_chunks_all [of "[]" DATA_ALLOC_SIZE "stdin env"] assms(1)
    by (simp add: readPostBody_def)
next
  case (Some v)
  then have r: "- (2 ^ 31) \<le> atoi v" "atoi v < 2 ^ 31" using assms(3) by auto
  show ?thesis
  proof (cases "atoi v < 0")
    case True
    then have "(atoi v + 2 ^ 64) mod 2 ^ 64 = atoi v + 2 ^ 64" using r by (intro mod_pos_pos_trivial) auto
    then have "atoi v mod 2 ^ 64 = atoi v + 2 ^ 64" by simp
    moreover have "(2::int) ^ 63 \<le> atoi v + 2 ^ 64" using r by simp
    ultimately have "malloc_max env < nat (atoi v mod 2 ^ 64) + 1" using assms(2) by (simp add: le_nat_iff)
    then show ?thesis using Some True by (simp add: readPostBody_def Let_def)
  next
    case False
    then obtain k where k: "atoi v = int k" by (metis nonneg_int_cases not_less)
    then have "k < 2 ^ 31" using r(2) by simp
    then show ?thesis using Some k by (auto simp: readPostBody_def Let_def nat_mod_as_int [symmetric])
  qed
qed

definition demo_post :: cgiEnv where
  "demo_post = \<lparr>getenv2 = None, getenv = [''CONTENT_LENGTH'' \<mapsto> '' 3''], stdin = ''abcd'',
                malloc_max = 1000, no_post = False\<rparr>"

theorem post_body_exact_witness: "readPostBody demo_post = ([], Some ''abc'')"
proof -
  have "atoi '' 3'' = 3" by code_simp
  then show ?thesis using post_body_exact [of demo_post] by (simp add: demo_post_def)
qed

text \<open>
  \<open>escape_shell_cmd\<close> puts a backslash before every shell metacharacter and changes nothing
  else: in the result no metacharacter stands unquoted, a shell reads the original string out of
  it, and it is longer by the number of metacharacters, which the buffer must have room for.
\<close>

theorem shell_escape_correct:
  "shell_safe (escape_shell_cmd s) \<and> shell_read (escape_shell_cmd s) = s \<and>
   length (escape_shell_cmd s) = length s + length (filter (\<lambda>c. c \<in> set shell_meta) s)"
proof (induction s)
  case (Cons c s)
  then show ?case using backslash_meta unfolding escape_shell_cmd_eq by (auto split: list.split)
qed (simp add: escape_shell_cmd_eq)

end
