(* ===== verification/ThreadList.thy ===== *)
theory ThreadList
  imports MS_Prelude
begin

text \<open>
  The list of per-thread objects that \<open>maperror.c\<close> and \<open>mapdebug.c\<close> keep, each with the same code:
  \<open>error_list\<close> and \<open>debuginfo_list\<close> are linked lists with one link per thread, under a mutex. The
  object of a thread is created on first use and moved to the front whenever it is used. A link is
  a pair of the thread identifier and the object; the list is a HOL list.
\<close>

section \<open>The list operations\<close>

type_synonym 'a links = "(nat \<times> 'a) list"

text \<open>
  The search loop: it stops at the link whose thread or whose successor's thread is the one
  looked for, or at the last link. The result is the place of that link, \<open>None\<close> for \<open>NULL\<close>.
\<close>

fun find_link :: "nat \<Rightarrow> 'a links \<Rightarrow> nat option" where
  "find_link t [] = None"
| "find_link t [l] = Some 0"
| "find_link t (l # l' # ls) =
     (if fst l = t \<or> fst l' = t then Some 0 else map_option Suc (find_link t (l' # ls)))"

text \<open>\<open>msGetErrorObj\<close>, \<open>msGetDebugInfoObj\<close>: afterwards the object of the thread is at the front.\<close>

definition get_link :: "'a \<Rightarrow> nat \<Rightarrow> 'a links \<Rightarrow> 'a links" where
  "get_link fresh t ls =
     (if ls \<noteq> [] \<and> fst (hd ls) = t then ls
      else case find_link t ls of
             None \<Rightarrow> (t, fresh) # ls
           | Some i \<Rightarrow> if length ls \<le> i + 1 then (t, fresh) # ls
                       else ls ! (i + 1) # remove_at (i + 1) ls)"

text \<open>
  The removal at the end of \<open>msResetErrorList\<close> and \<open>msDebugCleanup\<close>. On an empty list the code
  reads through a null pointer (\<open>None\<close>); a link that is freed without being taken out of the list
  is \<open>None\<close> as well.
\<close>

definition drop_link :: "nat \<Rightarrow> 'a links \<Rightarrow> 'a links option" where
  "drop_link t ls =
     (case find_link t ls of
        None \<Rightarrow> None
      | Some i \<Rightarrow>
          if fst (ls ! i) = t then (if i = 0 then Some (tl ls) else None)
          else if i + 1 < length ls \<and> fst (ls ! (i + 1)) = t then Some (remove_at (i + 1) ls)
          else Some ls)"

text \<open>Storing through the pointer that \<open>get_link\<close> returned.\<close>

definition put_front :: "'a \<Rightarrow> 'a links \<Rightarrow> 'a links" where
  "put_front v ls = (case ls of [] \<Rightarrow> [] | l # ls' \<Rightarrow> (fst l, v) # ls')"

section \<open>The contract\<close>

text \<open>
  A store of one object per thread: \<open>look\<close> gives the object of a thread, \<open>get\<close> creates it if
  needed, \<open>put\<close> replaces the object of the thread that was just fetched, \<open>drop\<close> removes it.
\<close>

locale thread_store =
  fixes ok :: "'s \<Rightarrow> bool" and look :: "'s \<Rightarrow> nat \<Rightarrow> 'a option"
    and get :: "'a \<Rightarrow> nat \<Rightarrow> 's \<Rightarrow> 's" and put :: "'a \<Rightarrow> 's \<Rightarrow> 's" and drop :: "nat \<Rightarrow> 's \<Rightarrow> 's option"
  assumes get_ok: "ok s \<Longrightarrow> ok (get fresh t s)"
    and put_ok: "ok s \<Longrightarrow> ok (put v (get fresh t s))"
    and drop_ok: "ok s \<Longrightarrow> look s t \<noteq> None \<Longrightarrow> \<exists>s'. drop t s = Some s' \<and> ok s'"
    and look_get: "ok s \<Longrightarrow> look (get fresh t s) u =
      (if u = t then Some (case look s t of None \<Rightarrow> fresh | Some v \<Rightarrow> v) else look s u)"
    and look_put: "ok s \<Longrightarrow> look (put v (get fresh t s)) u = (if u = t then Some v else look s u)"
    and look_drop: "ok s \<Longrightarrow> drop t s = Some s' \<Longrightarrow> look s' u = (if u = t then None else look s u)"
begin

text \<open>An update of the object of one thread, as the components do it.\<close>

definition update :: "'a \<Rightarrow> nat \<Rightarrow> ('a \<Rightarrow> 'a) \<Rightarrow> 's \<Rightarrow> 's" where
  "update fresh t f s = put (f (the (look (get fresh t s) t))) (get fresh t s)"

lemma update_keeps_ok: "ok s \<Longrightarrow> ok (update fresh t f s)"
  by (simp add: update_def put_ok)

lemma look_update:
  "ok s \<Longrightarrow> look (update fresh t f s) u =
     (if u = t then Some (f (case look s t of None \<Rightarrow> fresh | Some v \<Rightarrow> v)) else look s u)"
  by (simp add: update_def look_put look_get)

text \<open>Steps of different threads commute as far as anybody can see.\<close>

lemma update_commute:
  "ok s \<Longrightarrow> t \<noteq> u \<Longrightarrow>
   look (update fresh t f (update fresh u g s)) = look (update fresh u g (update fresh t f s))"
  by (rule ext) (simp add: look_update update_keeps_ok)

end

section \<open>The linked lists keep it\<close>

definition links_ok :: "'a links \<Rightarrow> bool" where
  "links_ok ls \<longleftrightarrow> distinct (map fst ls)"

lemma find_link_not_None: "find_link t ls = None \<longleftrightarrow> ls = []"
  by (induction t ls rule: find_link.induct) auto

lemma find_link_head: "ls \<noteq> [] \<Longrightarrow> fst (hd ls) = t \<Longrightarrow> find_link t ls = Some 0"
  by (cases "(t, ls)" rule: find_link.cases) auto

text \<open>When the thread is not at the front, the loop stops before its link or at the end.\<close>

lemma find_link_place:
  "find_link t ls = Some i \<Longrightarrow> fst (hd ls) \<noteq> t \<Longrightarrow>
     i < length ls \<and> fst (ls ! i) \<noteq> t \<and>
     (if i + 1 < length ls then fst (ls ! (i + 1)) = t else t \<notin> fst ` set ls)"
proof (induction t ls arbitrary: i rule: find_link.induct)
  case (3 t l l' ls)
  show ?case
  proof (cases "fst l' = t")
    case False
    then have no: "\<not> (fst l = t \<or> fst l' = t)" using 3(3) by simp
    then obtain k where k: "find_link t (l' # ls) = Some k" "i = Suc k" using 3(2) by auto
    then show ?thesis using 3(1) [OF no k(1)] no by (simp split: if_splits)
  qed (use 3(2,3) in auto)
qed auto

lemma remove_at_Cons [simp]: "remove_at 0 (x # xs) = xs" "remove_at (Suc i) (x # xs) = x # remove_at i xs"
  by (simp_all add: remove_at_def)

lemma map_of_remove_at:
  "distinct (map fst ls) \<Longrightarrow> i < length ls \<Longrightarrow> map_of (remove_at i ls) = (map_of ls)(fst (ls ! i) := None)"
proof (induction ls arbitrary: i)
  case (Cons l ls)
  show ?case
  proof (cases i)
    case 0
    have "map_of ls (fst l) = None" using Cons.prems by (simp add: map_of_eq_None_iff)
    then show ?thesis using 0 by (auto simp: fun_eq_iff)
  next
    case (Suc k)
    then have "fst l \<noteq> fst (ls ! k)" using Cons.prems by auto
    then show ?thesis using Suc Cons by (auto simp: fun_eq_iff)
  qed
qed simp

lemma set_remove_at: "set (remove_at i ls) \<subseteq> set ls"
  unfolding remove_at_def by (auto dest: in_set_takeD in_set_dropD)

lemma remove_at_keys: "map fst (remove_at i ls) = remove_at i (map fst ls)"
  by (simp add: remove_at_def take_map drop_map)

lemma distinct_remove_at:
  "distinct ks \<Longrightarrow> i < length ks \<Longrightarrow> distinct (remove_at i ks) \<and> ks ! i \<notin> set (remove_at i ks)"
  by (metis insert_remove_at mset_insert_at mset_eq_imp_distinct_iff mset.simps(2) distinct.simps(2))

text \<open>\<open>get_link\<close> either creates the link or permutes the list.\<close>

lemma get_link_cases:
  assumes "links_ok ls"
  shows "(t \<notin> fst ` set ls \<and> get_link fresh t ls = (t, fresh) # ls) \<or>
         (\<exists>v ls'. get_link fresh t ls = (t, v) # ls' \<and> t \<notin> fst ` set ls' \<and> links_ok ls' \<and>
                  map_of ls = (map_of ls')(t \<mapsto> v))"
proof (cases "ls \<noteq> [] \<and> fst (hd ls) = t")
  case True
  then obtain v ls' where "ls = (t, v) # ls'" by (cases ls) auto
  then show ?thesis using assms by (auto simp: get_link_def links_ok_def)
next
  case False
  show ?thesis
  proof (cases "find_link t ls")
    case None
    then show ?thesis by (simp add: get_link_def find_link_not_None)
  next
    case (Some i)
    have p: "if i + 1 < length ls then fst (ls ! (i + 1)) = t else t \<notin> fst ` set ls"
      using find_link_place [OF Some] False Some find_link_not_None [of t ls] by auto
    show ?thesis
    proof (cases "i + 1 < length ls")
      case True
      let ?ls' = "remove_at (i + 1) ls"
      have d: "distinct (remove_at (i + 1) (map fst ls))" "t \<notin> set (remove_at (i + 1) (map fst ls))"
        using distinct_remove_at [of "map fst ls" "i + 1"] assms True p by (simp_all add: links_ok_def)
      have v: "ls ! (i + 1) = (t, snd (ls ! (i + 1)))" using p True by (simp add: prod_eq_iff)
      have "map_of ls t = Some (snd (ls ! (i + 1)))"
        using assms True v by (metis links_ok_def map_of_eq_Some_iff nth_mem)
      then have "map_of ls = (map_of ?ls')(t \<mapsto> snd (ls ! (i + 1)))"
        using map_of_remove_at [of ls "i + 1"] assms True p by (auto simp: links_ok_def)
      moreover have "get_link fresh t ls = (t, snd (ls ! (i + 1))) # ?ls'"
        using False Some True v by (auto simp: get_link_def)
      ultimately show ?thesis
        using d by (intro disjI2 exI conjI) (simp_all add: links_ok_def remove_at_keys flip: list.set_map)
    qed (use p Some False in \<open>auto simp: get_link_def\<close>)
  qed
qed

lemma drop_link_eq:
  assumes "links_ok ls" and "drop_link t ls = Some ls'"
  shows "links_ok ls' \<and> map_of ls' = (map_of ls)(t := None)"
proof -
  obtain i where f: "find_link t ls = Some i" using assms(2) by (auto simp: drop_link_def split: option.splits)
  then have ne: "ls \<noteq> []" using find_link_not_None [of t ls] by auto
  show ?thesis
  proof (cases "fst (hd ls) = t")
    case True
    then have "ls' = remove_at 0 ls" "fst (ls ! 0) = t" using assms(2) ne find_link_head [OF ne True]
      by (auto simp: drop_link_def hd_conv_nth remove_at_def drop_Suc)
    then show ?thesis
      using map_of_remove_at [of ls 0] distinct_remove_at [of "map fst ls" 0] assms(1) ne
      by (auto simp: links_ok_def remove_at_keys)
  next
    case False
    note p = find_link_place [OF f False]
    show ?thesis
    proof (cases "i + 1 < length ls")
      case True
      then have "ls' = remove_at (i + 1) ls" using assms(2) f p by (auto simp: drop_link_def)
      then show ?thesis
        using map_of_remove_at [of ls "i + 1"] distinct_remove_at [of "map fst ls" "i + 1"] assms(1) True p
        by (auto simp: links_ok_def remove_at_keys)
    next
      case last: False
      then have "ls' = ls" "t \<notin> fst ` set ls" using assms(2) f p by (auto simp: drop_link_def)
      then show ?thesis using assms(1) by (auto simp: map_of_eq_None_iff)
    qed
  qed
qed

lemma drop_link_Some:
  assumes "links_ok ls" and "ls \<noteq> []"
  shows "\<exists>ls'. drop_link t ls = Some ls'"
proof (cases "fst (hd ls) = t")
  case True
  then show ?thesis using assms(2) find_link_head [OF assms(2) True] by (simp add: drop_link_def hd_conv_nth)
next
  case False
  obtain i where f: "find_link t ls = Some i" using assms(2) find_link_not_None [of t ls] by auto
  then show ?thesis using find_link_place [OF f False] by (auto simp: drop_link_def)
qed

interpretation links: thread_store links_ok map_of get_link put_front drop_link
proof
  fix ls :: "'a links" and fresh :: 'a and t u v
  assume ok: "links_ok ls"
  note c = get_link_cases [OF ok, of t fresh]
  show "links_ok (get_link fresh t ls)" "links_ok (put_front v (get_link fresh t ls))"
    using c ok by (auto simp: links_ok_def put_front_def)
  show "map_of (get_link fresh t ls) u =
      (if u = t then Some (case map_of ls t of None \<Rightarrow> fresh | Some v \<Rightarrow> v) else map_of ls u)"
    using c by (auto simp: map_of_eq_None_iff [symmetric] simp del: map_of_eq_None_iff)
  show "map_of (put_front v (get_link fresh t ls)) u = (if u = t then Some v else map_of ls u)"
    using c by (auto simp: put_front_def)
  show "\<exists>ls'. drop_link t ls = Some ls' \<and> links_ok ls'" if "map_of ls t \<noteq> None"
    using drop_link_Some [OF ok, of t] drop_link_eq [OF ok] that by (cases "ls = []") auto
  show "map_of ls' u = (if u = t then None else map_of ls u)" if "drop_link t ls = Some ls'" for ls'
    using drop_link_eq [OF ok that] by simp
qed

text \<open>The object that \<open>get_link\<close> brought to the front is the one of the thread.\<close>

lemma get_link_front:
  assumes "links_ok ls"
  shows "\<exists>r. get_link fresh t ls = (t, case map_of ls t of None \<Rightarrow> fresh | Some v \<Rightarrow> v) # r"
proof -
  obtain v r where r: "get_link fresh t ls = (t, v) # r" using get_link_cases [OF assms, of t fresh] by blast
  then have "map_of (get_link fresh t ls) t = Some v" by simp
  then show ?thesis using links.look_get [OF assms, of fresh t t] r by simp
qed

end
