(* ===== verification/Redact.thy ===== *)
theory Redact
  imports MS_Prelude
begin

text \<open>
  Hiding passwords in messages (\<open>msRedactString\<close> and \<open>msRedactCredentials\<close> of \<open>maperror.c\<close>).
  The functions change a NUL-terminated string in place; the model returns the new string.
\<close>

section \<open>The scan\<close>

text \<open>\<open>ptr_first_redacted_char\<close> is set once.\<close>

definition mark :: "nat option \<Rightarrow> nat \<Rightarrow> nat option" where
  "mark first ptr = (case first of None \<Rightarrow> Some ptr | Some f \<Rightarrow> Some f)"

text \<open>
  The loop over the characters from \<open>ptr\<close> on, with the separator \<open>sep\<close> (NUL if the secret is not
  quoted) and the option delimiter \<open>delim\<close>: the first character replaced and where the loop ends.
  The star it stores at the first character is never read again.
\<close>

fun redact_scan :: "char \<Rightarrow> char \<Rightarrow> string \<Rightarrow> nat \<Rightarrow> nat option \<Rightarrow> nat option \<times> nat" where
  "redact_scan delim sep [] ptr first = (first, ptr)"
| "redact_scan delim sep (c # cs) ptr first =
     (if c = CHR 0x0D \<or> c = CHR 0x0A then (first, ptr)
      else if sep = NUL then
        (if c = delim then (first, ptr) else redact_scan delim sep cs (ptr + 1) (mark first ptr))
      else if c = sep then (first, ptr)
      else if c = CHR 0x5C \<and> cs \<noteq> [] \<and> hd cs = sep
      then redact_scan delim sep (tl cs) (ptr + 2) (mark first (ptr + 1))
      else redact_scan delim sep cs (ptr + 1) (mark first ptr))"

text \<open>Where the secret starts and the separator that ends it.\<close>

definition redact_start :: "char \<Rightarrow> string \<Rightarrow> string \<Rightarrow> nat \<Rightarrow> nat \<times> char" where
  "redact_start delim str keyword ptr =
     (let c = (if ptr < length str then str ! ptr else NUL) in
      if c = CHR 0x27 \<or> c = CHR 0x22 then (ptr + 1, c)
      else if delim = CHR '';'' \<and> c = CHR ''{'' \<and> keyword = ''pwd='' then (ptr + 1, CHR ''}'')
      else (ptr, NUL))"

definition msRedactString :: "string \<Rightarrow> string \<Rightarrow> string" where
  "msRedactString str keyword =
     (case strstr_at str keyword of
        None \<Rightarrow> str
      | Some password \<Rightarrow>
          let delim = (if 0 < password then str ! (password - 1) else NUL);
              (ptr, sep) = redact_start delim str keyword (password + length keyword);
              (first, stop) = redact_scan delim sep (drop ptr str) ptr None in
          case first of None \<Rightarrow> str | Some f \<Rightarrow> take f str @ [CHR ''*''] @ drop stop str)"

definition msRedactCredentials :: "string \<Rightarrow> string" where
  "msRedactCredentials str = msRedactString (msRedactString str ''password='') ''pwd=''"

section \<open>Lemmas\<close>

lemma mark_Some [simp]: "mark (Some f) p = Some f"
  by (simp add: mark_def)

text \<open>The star never makes a string longer: it replaces at least one character.\<close>

lemma redact_scan_range:
  "redact_scan delim sep s ptr first = (r, stop) \<Longrightarrow>
     ptr \<le> stop \<and> stop \<le> ptr + length s \<and>
     (case r of None \<Rightarrow> first = None | Some f \<Rightarrow> first = Some f \<or> (first = None \<and> ptr \<le> f \<and> f < stop))"
proof (induction delim sep s ptr first rule: redact_scan.induct)
  case (2 delim sep c cs ptr first)
  consider (stop) "c = CHR 0x0D \<or> c = CHR 0x0A \<or> (sep = NUL \<and> c = delim) \<or> (sep \<noteq> NUL \<and> c = sep)"
    | (skip) "\<not> (c = CHR 0x0D \<or> c = CHR 0x0A)" "sep \<noteq> NUL" "c \<noteq> sep" "c = CHR 0x5C" "cs \<noteq> []" "hd cs = sep"
    | (go) "\<not> (c = CHR 0x0D \<or> c = CHR 0x0A)" "sep = NUL \<longrightarrow> c \<noteq> delim"
        "sep \<noteq> NUL \<longrightarrow> c \<noteq> sep \<and> \<not> (c = CHR 0x5C \<and> cs \<noteq> [] \<and> hd cs = sep)" by blast
  then show ?case
  proof cases
    case stop
    then show ?thesis using 2(4) by (auto split: if_splits option.splits)
  next
    case skip
    then have "redact_scan delim sep (tl cs) (ptr + 2) (mark first (ptr + 1)) = (r, stop)" using 2(4) by simp
    moreover obtain d ds where "cs = d # ds" using skip by (cases cs) auto
    ultimately show ?thesis using 2(2) [OF skip(1,2,3)] skip by (cases first) (auto simp: mark_def split: option.splits)
  next
    case go
    then have "redact_scan delim sep cs (ptr + 1) (mark first ptr) = (r, stop)" using 2(4) by (auto split: if_splits)
    moreover have "redact_scan delim sep cs (ptr + 1) (mark first ptr) = (r, stop) \<Longrightarrow>
        ptr + 1 \<le> stop \<and> stop \<le> ptr + 1 + length cs \<and>
        (case r of None \<Rightarrow> mark first ptr = None
         | Some f \<Rightarrow> mark first ptr = Some f \<or> (mark first ptr = None \<and> ptr + 1 \<le> f \<and> f < stop))"
    proof (cases "sep = NUL")
      case True
      then show "redact_scan delim sep cs (ptr + 1) (mark first ptr) = (r, stop) \<Longrightarrow> ?thesis" using 2(1) go by simp
    next
      case False
      then show "redact_scan delim sep cs (ptr + 1) (mark first ptr) = (r, stop) \<Longrightarrow> ?thesis" using 2(3) go by simp
    qed
    ultimately show ?thesis by (cases first) (auto simp: mark_def split: option.splits)
  qed
qed (auto split: option.split)


lemma redact_length: "length (msRedactString str keyword) \<le> length str"
proof (cases "strstr_at str keyword")
  case (Some pos)
  define delim where "delim = (if 0 < pos then str ! (pos - 1) else NUL)"
  obtain ptr sep where st: "redact_start delim str keyword (pos + length keyword) = (ptr, sep)" by force
  obtain first stop where sc: "redact_scan delim sep (drop ptr str) ptr None = (first, stop)" by force
  have "ptr \<le> stop \<and> stop \<le> ptr + length (drop ptr str) \<and> (\<forall>f. first = Some f \<longrightarrow> ptr \<le> f \<and> f < stop)"
    using redact_scan_range [OF sc] by (auto split: option.splits)
  then show ?thesis
    using Some st sc by (auto simp: msRedactString_def Let_def delim_def [symmetric] split: option.splits)
qed (simp add: msRedactString_def)

text \<open>The scan over a secret that holds nothing which ends it.\<close>

lemma redact_scan_secret:
  assumes "\<forall>c\<in>set secret. c \<noteq> CHR 0x0D \<and> c \<noteq> CHR 0x0A \<and>
      (if sep = NUL then c \<noteq> delim else c \<noteq> sep \<and> c \<noteq> CHR 0x5C)"
    and "b = [] \<or> hd b \<in> {CHR 0x0D, CHR 0x0A} \<or> hd b = (if sep = NUL then delim else sep)"
  shows "redact_scan delim sep (secret @ b) ptr first =
           ((if secret = [] then first else mark first ptr), ptr + length secret)"
  using assms(1)
proof (induction secret arbitrary: ptr first)
  case Nil
  show ?case using assms(2) by (cases b) auto
next
  case (Cons c cs)
  then have "redact_scan delim sep ((c # cs) @ b) ptr first = redact_scan delim sep (cs @ b) (ptr + 1) (mark first ptr)"
    by (auto split: if_splits)
  then show ?case using Cons by (cases first) (auto simp: mark_def)
qed

text \<open>
  C37. At the first place where the keyword occurs, the whole secret after it is replaced by one
  star and the rest of the message is kept. This holds for a secret that is not empty and has no line end
  in it, in two forms. Quoted: the keyword is followed by a single or double quote, the secret contains
  neither this quote nor a backslash, and it ends at the same quote. Unquoted: the secret does not
  start with a quote or an opening brace, does not contain the character that stands before the keyword
  (NUL at the start of the message), and ends at that character. A line end and the end of the
  message end it in both forms. Secrets in braces, and quoted ones with a backslash in them, are left
  out.
\<close>

theorem redact_hides_secret:
  assumes first: "strstr_at (a @ keyword @ q @ secret @ b) keyword = Some (length a)"
    and secret: "secret \<noteq> []" "CHR 0x0D \<notin> set secret" "CHR 0x0A \<notin> set secret"
    and form: "(if q = [] then hd secret \<notin> {CHR 0x27, CHR 0x22, CHR ''{''} \<and> delim \<notin> set secret \<and> stop = delim
        else q \<in> {[CHR 0x27], [CHR 0x22]} \<and> stop = hd q \<and> stop \<notin> set secret \<and> CHR 0x5C \<notin> set secret)"
    and "delim = (if a = [] then NUL else last a)"
    and b: "b = [] \<or> hd b \<in> {CHR 0x0D, CHR 0x0A, stop}"
  shows "msRedactString (a @ keyword @ q @ secret @ b) keyword = a @ keyword @ q @ ''*'' @ b"
proof -
  let ?str = "a @ keyword @ q @ secret @ b" and ?p = "length a + length keyword"
  define sep where "sep = (if q = [] then NUL else hd q)"
  have delim: "(if 0 < length a then ?str ! (length a - 1) else NUL) = delim"
    using assms(6) by (auto simp: nth_append last_conv_nth)
  have start: "redact_start delim ?str keyword ?p = (?p + length q, sep)"
    using form secret(1) by (auto simp: redact_start_def nth_append hd_conv_nth sep_def split: if_splits)
  have c1: "\<forall>c\<in>set secret. c \<noteq> CHR 0x0D \<and> c \<noteq> CHR 0x0A \<and>
      (if sep = NUL then c \<noteq> delim else c \<noteq> sep \<and> c \<noteq> CHR 0x5C)"
    using secret(2,3) form by (auto simp: sep_def split: if_splits)
  have c2: "b = [] \<or> hd b \<in> {CHR 0x0D, CHR 0x0A} \<or> hd b = (if sep = NUL then delim else sep)"
    using form b by (auto simp: sep_def split: if_splits)
  have "redact_scan delim sep (secret @ b) (?p + length q) None = (Some (?p + length q), ?p + length q + length secret)"
    using redact_scan_secret [OF c1 c2, of "?p + length q" None] secret(1) by (simp add: mark_def)
  moreover have "drop (?p + length q) ?str = secret @ b" by simp
  ultimately show ?thesis
    unfolding msRedactString_def first option.case delim Let_def start prod.case by simp
qed

theorem redact_hides_secret_witness:
  "msRedactString ''host=a password=xyz dbname=b'' ''password='' = ''host=a password=* dbname=b''"
proof -
  have "strstr_at (''host=a '' @ ''password='' @ [] @ ''xyz'' @ '' dbname=b'') ''password='' = Some (length ''host=a '')"
    by code_simp
  from redact_hides_secret [OF this, where stop = "CHR '' ''" and delim = "CHR '' ''"] show ?thesis by simp
qed

text \<open>Only the first place is treated: a second password in the same message stays readable.\<close>

lemma redact_second_password:
  "msRedactCredentials ''[password=abc] [password=xyz]'' = ''[password=*[password=xyz]''"
  by code_simp

end
