(* ===== verification/MapDebug.thy ===== *)
theory MapDebug
  imports ThreadList MapString Redact
begin

text \<open>
  The debug output of a thread (\<open>mapdebug.c\<close>, built with threads): each thread has a debug level
  and a log target, which is the standard error or output or a file opened for appending.

  The state holds the list of the per-thread objects and what the C library knows of the log
  files: the open ones by number, with their paths, and the text written, each line with its
  stream. Whether a path can be opened, the configuration of GDAL and the time stamp of a line are
  arguments. The code for the Windows debug console is not compiled here and is the error branch.
\<close>

section \<open>State\<close>

datatype debugMode = MS_DEBUGMODE_OFF | MS_DEBUGMODE_FILE | MS_DEBUGMODE_STDERR | MS_DEBUGMODE_STDOUT

datatype stream = Stderr | Stdout | LogFile nat

record debugInfoObj =
  global_debug_level :: int
  debug_mode :: debugMode
  errorfile :: "string option"
  fp :: "stream option"

record debugState =
  debuginfo_list :: "debugInfoObj links"
  open_files :: "nat \<rightharpoonup> string"
  next_file :: nat
  written :: "(stream \<times> string) list"

abbreviation (input) MS_DEBUGLEVEL_ERRORSONLY :: int where "MS_DEBUGLEVEL_ERRORSONLY \<equiv> 0"

definition new_debug :: debugInfoObj where
  "new_debug = \<lparr>global_debug_level = MS_DEBUGLEVEL_ERRORSONLY, debug_mode = MS_DEBUGMODE_OFF,
                errorfile = None, fp = None\<rparr>"

definition debug_start :: debugState where
  "debug_start = \<lparr>debuginfo_list = [], open_files = Map.empty, next_file = 0, written = []\<rparr>"

section \<open>Operations\<close>

text \<open>The object the pointer refers to is the first of the list.\<close>

definition msGetDebugInfoObj :: "nat \<Rightarrow> debugState \<Rightarrow> debugInfoObj \<times> debugState" where
  "msGetDebugInfoObj t w =
     (let ls = get_link new_debug t (debuginfo_list w) in (snd (hd ls), w\<lparr>debuginfo_list := ls\<rparr>))"

definition set_debug :: "debugInfoObj \<Rightarrow> debugState \<Rightarrow> debugState" where
  "set_debug d w = w\<lparr>debuginfo_list := put_front d (debuginfo_list w)\<rparr>"

definition close_stream :: "debugMode \<Rightarrow> stream option \<Rightarrow> debugState \<Rightarrow> debugState" where
  "close_stream mode f w =
     (case f of Some (LogFile n) \<Rightarrow> if mode = MS_DEBUGMODE_FILE then w\<lparr>open_files := (open_files w)(n := None)\<rparr> else w
      | _ \<Rightarrow> w)"

definition msCloseErrorFile :: "nat \<Rightarrow> debugState \<Rightarrow> debugState" where
  "msCloseErrorFile t w =
     (case msGetDebugInfoObj t w of (d, w1) \<Rightarrow>
        if debug_mode d \<noteq> MS_DEBUGMODE_OFF
        then set_debug (d\<lparr>fp := None, errorfile := None, debug_mode := MS_DEBUGMODE_OFF\<rparr>)
               (close_stream (debug_mode d) (fp d) w1)
        else w1)"

definition special_target :: "string \<Rightarrow> bool" where
  "special_target f \<longleftrightarrow> f = ''stderr'' \<or> f = ''stdout'' \<or> f = ''windowsdebug''"

text \<open>Taking up a new target, after the old one was closed.\<close>

definition open_target ::
  "(string \<Rightarrow> bool) \<Rightarrow> nat \<Rightarrow> string \<Rightarrow> debugState \<Rightarrow> ms_return \<times> debugState \<times> report list" where
  "open_target can_open t file w =
     (case msGetDebugInfoObj t w of (d, w1) \<Rightarrow>
        if file = [] then (MS_SUCCESS, w1, [])
        else if file = ''stderr'' then
          (MS_SUCCESS, set_debug (d\<lparr>fp := Some Stderr, errorfile := Some file, debug_mode := MS_DEBUGMODE_STDERR\<rparr>) w1, [])
        else if file = ''stdout'' then
          (MS_SUCCESS, set_debug (d\<lparr>fp := Some Stdout, errorfile := Some file, debug_mode := MS_DEBUGMODE_STDOUT\<rparr>) w1, [])
        else if file = ''windowsdebug'' then
          (MS_FAILURE, w1, [Report MS_MISCERR '''MS_ERRORFILE windowsdebug' is available only on Windows platforms.'' ''msSetErrorFile()''])
        else if \<not> can_open file then
          (MS_FAILURE, set_debug (d\<lparr>fp := None\<rparr>) w1, [Report MS_MISCERR ''Failed to open MS_ERRORFILE %s'' ''msSetErrorFile()''])
        else
          (MS_SUCCESS,
           set_debug (d\<lparr>fp := Some (LogFile (next_file w1)), errorfile := Some file, debug_mode := MS_DEBUGMODE_FILE\<rparr>)
             (w1\<lparr>open_files := (open_files w1)(next_file w1 \<mapsto> file), next_file := next_file w1 + 1\<rparr>), []))"

text \<open>
  Errors are results here. The line that \<open>msSetError\<close> writes to the log of the thread for each of them
  is a call of \<open>msDebug\<close> of its own and not part of the operation.
\<close>

definition msSetErrorFile ::
  "(string \<Rightarrow> bool) \<Rightarrow> nat \<Rightarrow> string \<Rightarrow> string option \<Rightarrow> debugState \<Rightarrow> ms_return \<times> debugState \<times> report list" where
  "msSetErrorFile can_open t file rel w =
     (case msGetDebugInfoObj t w of (d, w1) \<Rightarrow>
        case (if special_target file then ([], Some file) else msBuildPath rel (Some file)) of
          (es, None) \<Rightarrow> (MS_FAILURE, w1, es)
        | (es, Some path) \<Rightarrow>
            if errorfile d = Some path then (MS_SUCCESS, w1, es)
            else case open_target can_open t path (msCloseErrorFile t w1) of (r, w2, fs) \<Rightarrow> (r, w2, es @ fs))"

definition msGetErrorFile :: "nat \<Rightarrow> debugState \<Rightarrow> string option \<times> debugState" where
  "msGetErrorFile t w = (case msGetDebugInfoObj t w of (d, w1) \<Rightarrow> (errorfile d, w1))"

definition msSetGlobalDebugLevel :: "nat \<Rightarrow> int \<Rightarrow> debugState \<Rightarrow> debugState" where
  "msSetGlobalDebugLevel t level w =
     (case msGetDebugInfoObj t w of (d, w1) \<Rightarrow> set_debug (d\<lparr>global_debug_level := level\<rparr>) w1)"

definition msGetGlobalDebugLevel :: "nat \<Rightarrow> debugState \<Rightarrow> int \<times> debugState" where
  "msGetGlobalDebugLevel t w = (case msGetDebugInfoObj t w of (d, w1) \<Rightarrow> (global_debug_level d, w1))"

definition msDebugInitFromEnv ::
  "(string \<Rightarrow> bool) \<Rightarrow> (string \<Rightarrow> string option) \<Rightarrow> nat \<Rightarrow> debugState \<Rightarrow> ms_return \<times> debugState \<times> report list" where
  "msDebugInitFromEnv can_open config t w =
     (case (case config ''MS_ERRORFILE'' of
              None \<Rightarrow> (MS_SUCCESS, w, [])
            | Some val \<Rightarrow> msSetErrorFile can_open t val None w) of
        (r, w1, es) \<Rightarrow>
          if r \<noteq> MS_SUCCESS then (MS_FAILURE, w1, es)
          else (MS_SUCCESS,
                case config ''MS_DEBUGLEVEL'' of None \<Rightarrow> w1 | Some val \<Rightarrow> msSetGlobalDebugLevel t (atoi val) w1, es))"

text \<open>\<open>None\<close> would be a read through a null pointer, or a link freed twice.\<close>

definition msDebugCleanup :: "nat \<Rightarrow> debugState \<Rightarrow> debugState option" where
  "msDebugCleanup t w =
     (let w1 = msCloseErrorFile t w in
      map_option (\<lambda>ls. w1\<lparr>debuginfo_list := ls\<rparr>) (drop_link t (debuginfo_list w1)))"

text \<open>\<open>msDebug\<close> with the formatted text; a line longer than the buffer is cut.\<close>

abbreviation (input) MESSAGELENGTH :: nat where "MESSAGELENGTH \<equiv> 2048"

definition msDebug :: "string \<Rightarrow> nat \<Rightarrow> string \<Rightarrow> debugState \<Rightarrow> debugState" where
  "msDebug stamp t text w =
     (case msGetDebugInfoObj t w of (d, w1) \<Rightarrow>
        if debug_mode d = MS_DEBUGMODE_OFF then w1
        else case fp d of
               None \<Rightarrow> w1
             | Some f \<Rightarrow> w1\<lparr>written := written w1 @ [(f, stamp), (f, msRedactCredentials (take (MESSAGELENGTH - 1) text))]\<rparr>)"

section \<open>Invariant\<close>

text \<open>
  The log target of a thread is consistent with its mode, its file is open under the path it
  remembers, no two threads share an open file, and every open file belongs to some thread.
\<close>

definition info_ok :: "(nat \<rightharpoonup> string) \<Rightarrow> debugInfoObj \<Rightarrow> bool" where
  "info_ok files d \<longleftrightarrow>
     (case debug_mode d of
        MS_DEBUGMODE_OFF \<Rightarrow> fp d = None \<and> errorfile d = None
      | MS_DEBUGMODE_STDERR \<Rightarrow> fp d = Some Stderr \<and> errorfile d = Some ''stderr''
      | MS_DEBUGMODE_STDOUT \<Rightarrow> fp d = Some Stdout \<and> errorfile d = Some ''stdout''
      | MS_DEBUGMODE_FILE \<Rightarrow> (\<exists>n f. fp d = Some (LogFile n) \<and> files n = Some f \<and> f \<noteq> [] \<and> errorfile d = Some f))"

definition infos :: "debugState \<Rightarrow> nat \<Rightarrow> debugInfoObj option" where
  "infos w = map_of (debuginfo_list w)"

definition targets_ok :: "(nat \<rightharpoonup> debugInfoObj) \<Rightarrow> (nat \<rightharpoonup> string) \<Rightarrow> nat \<Rightarrow> bool" where
  "targets_ok I files n0 \<longleftrightarrow>
     (\<forall>t d. I t = Some d \<longrightarrow> info_ok files d) \<and>
     (\<forall>t u d e n. I t = Some d \<and> I u = Some e \<and> fp d = Some (LogFile n) \<and> fp e = Some (LogFile n) \<longrightarrow> t = u) \<and>
     (\<forall>n. files n \<noteq> None \<longrightarrow> n < n0 \<and> (\<exists>t d. I t = Some d \<and> fp d = Some (LogFile n)))"

definition debug_ok :: "debugState \<Rightarrow> bool" where
  "debug_ok w \<longleftrightarrow> links_ok (debuginfo_list w) \<and> targets_ok (infos w) (open_files w) (next_file w)"

text \<open>The object of a thread, the fresh one if it has none yet.\<close>

definition info_of :: "nat \<Rightarrow> debugState \<Rightarrow> debugInfoObj" where
  "info_of t w = (case infos w t of None \<Rightarrow> new_debug | Some d \<Rightarrow> d)"

lemma new_debug_ok [simp]: "info_ok files new_debug" "fp new_debug = None" "errorfile new_debug = None"
  "debug_mode new_debug = MS_DEBUGMODE_OFF"
  by (simp_all add: info_ok_def new_debug_def)

lemma debug_start_ok: "debug_ok debug_start"
  by (simp add: debug_ok_def debug_start_def links_ok_def targets_ok_def infos_def)

lemma info_of_ok: "debug_ok w \<Longrightarrow> info_ok (open_files w) (info_of t w)"
  by (auto simp: debug_ok_def targets_ok_def info_of_def split: option.split)

section \<open>The targets of the threads\<close>

text \<open>Closing the target of one thread.\<close>

definition closed :: "debugInfoObj \<Rightarrow> debugInfoObj" where
  "closed d = d\<lparr>fp := None, errorfile := None, debug_mode := MS_DEBUGMODE_OFF\<rparr>"

definition without_log :: "debugInfoObj \<Rightarrow> (nat \<rightharpoonup> string) \<Rightarrow> nat \<rightharpoonup> string" where
  "without_log d files = (\<lambda>n. if fp d = Some (LogFile n) then None else files n)"

lemma info_ok_without: "info_ok files e \<Longrightarrow> (\<And>n. fp e = Some (LogFile n) \<Longrightarrow> fp d \<noteq> Some (LogFile n)) \<Longrightarrow> info_ok (without_log d files) e"
  by (auto simp: info_ok_def without_log_def split: debugMode.splits)

lemma targets_close:
  assumes "targets_ok I files n0" and "d = (case I t of None \<Rightarrow> new_debug | Some d \<Rightarrow> d)"
    and "e = None \<or> (\<exists>e'. e = Some e' \<and> debug_mode e' = MS_DEBUGMODE_OFF \<and> fp e' = None \<and> errorfile e' = None)"
  shows "targets_ok (I(t := e)) (without_log d files) n0"
proof -
  have own: "fp f = Some (LogFile n) \<Longrightarrow> fp d \<noteq> Some (LogFile n)" if "I u = Some f" "u \<noteq> t" for u f n
    using assms(1,2) that unfolding targets_ok_def by (fastforce split: option.splits)
  have new: "info_ok g e' \<and> fp e' = None" if "e = Some e'" for e' g
    using assms(3) that by (auto simp: info_ok_def)
  have 1: "info_ok (without_log d files) f" if "(I(t := e)) u = Some f" for u f
  proof (cases "u = t")
    case False
    then have "I u = Some f" using that by simp
    then show ?thesis using info_ok_without [of files f d] own [OF _ False] assms(1) unfolding targets_ok_def by blast
  qed (use that new in auto)
  have 2: "u = v" if "(I(t := e)) u = Some f" "(I(t := e)) v = Some g" "fp f = Some (LogFile n)" "fp g = Some (LogFile n)" for u v f g n
    using that new assms(1) unfolding targets_ok_def by (metis fun_upd_apply option.distinct(1))
  have 3: "n < n0 \<and> (\<exists>u f. (I(t := e)) u = Some f \<and> fp f = Some (LogFile n))" if "without_log d files n \<noteq> None" for n
  proof -
    have n: "files n \<noteq> None" "fp d \<noteq> Some (LogFile n)" using that by (auto simp: without_log_def split: if_splits)
    then obtain u f where "n < n0" "I u = Some f" "fp f = Some (LogFile n)" using assms(1) unfolding targets_ok_def by blast
    moreover from this have "u \<noteq> t" using assms(2) n(2) by auto
    ultimately show ?thesis by auto
  qed
  show ?thesis unfolding targets_ok_def using 1 2 3 by blast
qed

text \<open>A thread without a target takes up one of the two standard streams or a fresh file.\<close>

lemma targets_open_std:
  assumes "targets_ok I files n0" and "\<And>d n. I t = Some d \<Longrightarrow> fp d \<noteq> Some (LogFile n)"
    and "info_ok files e" and "\<And>n. fp e \<noteq> Some (LogFile n)"
  shows "targets_ok (I(t \<mapsto> e)) files n0"
  using assms unfolding targets_ok_def by (auto split: if_splits) (metis+)

lemma targets_open_file:
  assumes "targets_ok I files n0" and "\<And>d n. I t = Some d \<Longrightarrow> fp d \<noteq> Some (LogFile n)"
    and "fp e = Some (LogFile n0)" "debug_mode e = MS_DEBUGMODE_FILE" "errorfile e = Some f" "f \<noteq> []"
  shows "targets_ok (I(t \<mapsto> e)) (files(n0 \<mapsto> f)) (n0 + 1)"
proof -
  have free: "files n0 = None" using assms(1) unfolding targets_ok_def by blast
  have keep: "info_ok (files(n0 \<mapsto> f)) d" if "I u = Some d" for u d
    using assms(1) that free unfolding targets_ok_def info_ok_def by (fastforce split: debugMode.splits)
  have below: "n < n0" if "I u = Some d" "fp d = Some (LogFile n)" for u d n
  proof -
    have "info_ok files d" using assms(1) that(1) unfolding targets_ok_def by blast
    then have "files n \<noteq> None" using that(2) by (auto simp: info_ok_def split: debugMode.splits)
    then show ?thesis using assms(1) unfolding targets_ok_def by blast
  qed
  have 1: "info_ok (files(n0 \<mapsto> f)) d" if "(I(t \<mapsto> e)) u = Some d" for u d
    using that keep assms(3-6) by (cases "u = t") (auto simp: info_ok_def)
  have 2: "u = v" if "(I(t \<mapsto> e)) u = Some d" "(I(t \<mapsto> e)) v = Some g" "fp d = Some (LogFile n)" "fp g = Some (LogFile n)" for u v d g n
  proof -
    consider "u = t" "v = t" | "u = t" "v \<noteq> t" | "u \<noteq> t" "v = t" | "u \<noteq> t" "v \<noteq> t" by blast
    then show ?thesis
    proof cases
      case 4
      then show ?thesis using that assms(1) unfolding targets_ok_def by (metis fun_upd_other)
    qed (use that assms(3) below in fastforce)+
  qed
  have 3: "n < n0 + 1 \<and> (\<exists>u d. (I(t \<mapsto> e)) u = Some d \<and> fp d = Some (LogFile n))" if n: "(files(n0 \<mapsto> f)) n \<noteq> None" for n
  proof (cases "n = n0")
    case False
    then have "files n \<noteq> None" using n by simp
    then obtain u d where ud: "n < n0" "I u = Some d" "fp d = Some (LogFile n)"
      using assms(1) unfolding targets_ok_def by blast
    then have "u \<noteq> t" using assms(2) by blast
    then have "(I(t \<mapsto> e)) u = Some d" using ud(2) by simp
    then show ?thesis using ud(1,3) by (intro conjI exI) auto
  qed (use assms(3) in auto)
  show ?thesis unfolding targets_ok_def using 1 2 3 by blast
qed

section \<open>What the operations do to the object of the thread\<close>

lemma msGetDebugInfoObj_eq:
  assumes "debug_ok w" and "msGetDebugInfoObj t w = (d, w1)"
  shows "d = info_of t w" "infos w1 = (infos w)(t \<mapsto> info_of t w)" "debug_ok w1"
    "open_files w1 = open_files w" "next_file w1 = next_file w" "written w1 = written w"
    "\<exists>ls. debuginfo_list w1 = (t, d) # ls"
proof -
  have ok: "links_ok (debuginfo_list w)" using assms(1) by (simp add: debug_ok_def)
  have w1: "w1 = w\<lparr>debuginfo_list := get_link new_debug t (debuginfo_list w)\<rparr>"
    "d = snd (hd (get_link new_debug t (debuginfo_list w)))"
    using assms(2) by (simp_all add: msGetDebugInfoObj_def Let_def)
  show I: "infos w1 = (infos w)(t \<mapsto> info_of t w)"
    using links.look_get [OF ok, of new_debug t] by (auto simp: w1 infos_def info_of_def fun_eq_iff)
  show hd: "\<exists>ls. debuginfo_list w1 = (t, d) # ls"
    using get_link_cases [OF ok, of t new_debug] by (auto simp: w1)
  then show d: "d = info_of t w" using fun_cong [OF I, of t] by (auto simp: infos_def)
  show r: "open_files w1 = open_files w" "next_file w1 = next_file w" "written w1 = written w" by (simp_all add: w1)
  have "targets_ok ((infos w)(t \<mapsto> info_of t w)) (open_files w) (next_file w)"
    using assms(1) targets_open_std [of "infos w" "open_files w" "next_file w" t new_debug]
    unfolding debug_ok_def info_of_def by (cases "infos w t") (auto simp: map_upd_triv)
  then show "debug_ok w1" using links.get_ok [OF ok] by (simp add: debug_ok_def I r) (simp add: w1)
qed

lemma info_of_get: "debug_ok w \<Longrightarrow> msGetDebugInfoObj t w = (d, w1) \<Longrightarrow> info_of u w1 = info_of u w"
  using msGetDebugInfoObj_eq(2) [of w t d w1] by (simp add: info_of_def)

text \<open>Storing a new object for the thread whose object was just fetched.\<close>

lemma set_debug_eq:
  assumes "debug_ok w" and "msGetDebugInfoObj t w = (d, w1)" and "debuginfo_list w2 = debuginfo_list w1"
  shows "infos (set_debug e w2) = (infos w)(t \<mapsto> e)" "links_ok (debuginfo_list (set_debug e w2))"
    "open_files (set_debug e w2) = open_files w2" "next_file (set_debug e w2) = next_file w2"
    "written (set_debug e w2) = written w2"
proof -
  have ok: "links_ok (debuginfo_list w)" using assms(1) by (simp add: debug_ok_def)
  have "debuginfo_list w1 = get_link new_debug t (debuginfo_list w)"
    using assms(2) by (auto simp: msGetDebugInfoObj_def Let_def)
  then have ls: "debuginfo_list (set_debug e w2) = put_front e (get_link new_debug t (debuginfo_list w))"
    by (simp add: set_debug_def assms(3))
  show "infos (set_debug e w2) = (infos w)(t \<mapsto> e)"
    using links.look_put [OF ok, of e new_debug t] by (auto simp: infos_def ls fun_eq_iff)
  show "links_ok (debuginfo_list (set_debug e w2))" unfolding ls by (rule links.put_ok [OF ok])
qed (simp_all add: set_debug_def)


lemma msCloseErrorFile_eq:
  assumes "debug_ok w"
  shows "debug_ok (msCloseErrorFile t w)" "infos (msCloseErrorFile t w) = (infos w)(t \<mapsto> closed (info_of t w))"
    "open_files (msCloseErrorFile t w) = without_log (info_of t w) (open_files w)"
    "next_file (msCloseErrorFile t w) = next_file w" "written (msCloseErrorFile t w) = written w"
proof -
  obtain w1 where g: "msGetDebugInfoObj t w = (info_of t w, w1)"
    using msGetDebugInfoObj_eq(1) [OF assms] by (metis surj_pair)
  note g' = msGetDebugInfoObj_eq [OF assms g]
  let ?d = "info_of t w" and ?w = "msCloseErrorFile t w"
  let ?w2 = "close_stream (debug_mode ?d) (fp ?d) w1"
  have d: "info_ok (open_files w) ?d" by (rule info_of_ok [OF assms])
  have w2: "debuginfo_list ?w2 = debuginfo_list w1" "open_files ?w2 = without_log ?d (open_files w)"
      "next_file ?w2 = next_file w" "written ?w2 = written w"
    using d g'(4-6) by (auto simp: close_stream_def without_log_def info_ok_def fun_eq_iff split: option.splits stream.splits debugMode.splits)
  note s' = set_debug_eq [OF assms g w2(1)]
  have "infos ?w = (infos w)(t \<mapsto> closed ?d) \<and> open_files ?w = without_log ?d (open_files w) \<and>
      next_file ?w = next_file w \<and> written ?w = written w \<and> links_ok (debuginfo_list ?w)"
  proof (cases "debug_mode ?d = MS_DEBUGMODE_OFF")
    case True
    then have "closed ?d = ?d" "without_log ?d (open_files w) = open_files w"
      using d by (simp_all add: closed_def without_log_def info_ok_def)
    then show ?thesis using True g g' by (simp add: msCloseErrorFile_def debug_ok_def)
  next
    case False
    then have "?w = set_debug (closed ?d) ?w2" by (simp add: msCloseErrorFile_def g closed_def)
    then show ?thesis using s' w2 by simp
  qed
  note e = this
  from e show "infos ?w = (infos w)(t \<mapsto> closed ?d)" "open_files ?w = without_log ?d (open_files w)"
      "next_file ?w = next_file w" "written ?w = written w" by blast+
  have "targets_ok ((infos w)(t \<mapsto> closed ?d)) (without_log ?d (open_files w)) (next_file w)"
    by (rule targets_close) (use assms in \<open>auto simp: debug_ok_def info_of_def closed_def\<close>)
  then show "debug_ok ?w" using e by (simp add: debug_ok_def)
qed

text \<open>The target a name stands for, and what the thread has after taking it up.\<close>

definition target_of :: "nat \<Rightarrow> string \<Rightarrow> debugInfoObj \<Rightarrow> debugInfoObj" where
  "target_of n file d =
     (if file = [] then d
      else if file = ''stderr'' then d\<lparr>fp := Some Stderr, errorfile := Some file, debug_mode := MS_DEBUGMODE_STDERR\<rparr>
      else if file = ''stdout'' then d\<lparr>fp := Some Stdout, errorfile := Some file, debug_mode := MS_DEBUGMODE_STDOUT\<rparr>
      else d\<lparr>fp := Some (LogFile n), errorfile := Some file, debug_mode := MS_DEBUGMODE_FILE\<rparr>)"

definition is_file :: "string \<Rightarrow> bool" where
  "is_file file \<longleftrightarrow> file \<noteq> [] \<and> \<not> special_target file"

lemma open_target_eq:
  assumes "debug_ok w" and off: "debug_mode (info_of t w) = MS_DEBUGMODE_OFF"
    and "open_target can_open t file w = (r, w', es)"
  shows "debug_ok w'" "written w' = written w"
    "infos w' = (infos w)(t \<mapsto> if r = MS_SUCCESS then target_of (next_file w) file (info_of t w) else info_of t w)"
    "open_files w' = (if r = MS_SUCCESS \<and> is_file file then (open_files w)(next_file w \<mapsto> file) else open_files w)"
    "r = MS_SUCCESS \<longleftrightarrow> file \<noteq> ''windowsdebug'' \<and> (is_file file \<longrightarrow> can_open file)"
proof -
  obtain w1 where g: "msGetDebugInfoObj t w = (info_of t w, w1)"
    using msGetDebugInfoObj_eq(1) [OF assms(1)] by (metis surj_pair)
  note g' = msGetDebugInfoObj_eq [OF assms(1) g]
  let ?d = "info_of t w"
  have none: "fp ?d = None" "errorfile ?d = None"
    using info_of_ok [OF assms(1), of t] off by (simp_all add: info_ok_def)
  then have same: "?d\<lparr>fp := None\<rparr> = ?d" by simp
  note defs = open_target_def g target_of_def is_file_def special_target_def
  note std = set_debug_eq [OF assms(1) g refl]
  let ?wf = "w1\<lparr>open_files := (open_files w1)(next_file w1 \<mapsto> file), next_file := next_file w1 + 1\<rparr>"
  have "debuginfo_list ?wf = debuginfo_list w1" by simp
  note fil = set_debug_eq [OF assms(1) g this]
  have T: "targets_ok (infos w) (open_files w) (next_file w)" using assms(1) by (simp add: debug_ok_def)
  have nofile: "fp d \<noteq> Some (LogFile n)" if "infos w t = Some d" for d n
    using none that by (simp add: info_of_def)
  note T1 = targets_open_std [OF T nofile] and T2 = targets_open_file [OF T nofile]
  consider (keep) "file = [] \<or> file = ''windowsdebug''" | (err) "file = ''stderr''" | (out) "file = ''stdout''"
    | (no) "is_file file" "\<not> can_open file" | (yes) "is_file file" "can_open file"
    by (auto simp: is_file_def special_target_def)
  then have "debug_ok w' \<and> written w' = written w \<and>
    infos w' = (infos w)(t \<mapsto> if r = MS_SUCCESS then target_of (next_file w) file ?d else ?d) \<and>
    open_files w' = (if r = MS_SUCCESS \<and> is_file file then (open_files w)(next_file w \<mapsto> file) else open_files w) \<and>
    (r = MS_SUCCESS \<longleftrightarrow> file \<noteq> ''windowsdebug'' \<and> (is_file file \<longrightarrow> can_open file))"
  proof cases
    case keep
    then show ?thesis using assms(3) g' by (auto simp: defs)
  next
    case err
    then show ?thesis using assms(3) std g' T1 by (auto simp: defs debug_ok_def info_ok_def)
  next
    case out
    then show ?thesis using assms(3) std g' T1 by (auto simp: defs debug_ok_def info_ok_def)
  next
    case no
    have "info_ok (open_files w) ?d" by (rule info_of_ok [OF assms(1)])
    then show ?thesis using no assms(3) std [of ?d] g' T1 [where e = ?d] none by (auto simp: defs same debug_ok_def)
  next
    case yes
    then show ?thesis using assms(3) fil g' T2 by (auto simp: defs debug_ok_def)
  qed
  then show "debug_ok w'" "written w' = written w"
    "infos w' = (infos w)(t \<mapsto> if r = MS_SUCCESS then target_of (next_file w) file ?d else ?d)"
    "open_files w' = (if r = MS_SUCCESS \<and> is_file file then (open_files w)(next_file w \<mapsto> file) else open_files w)"
    "r = MS_SUCCESS \<longleftrightarrow> file \<noteq> ''windowsdebug'' \<and> (is_file file \<longrightarrow> can_open file)" by blast+
qed

lemma closed_simps [simp]: "fp (closed d) = None" "errorfile (closed d) = None"
  "debug_mode (closed d) = MS_DEBUGMODE_OFF" "global_debug_level (closed d) = global_debug_level d"
  by (simp_all add: closed_def)

text \<open>The path the target name stands for.\<close>

definition target_path :: "string \<Rightarrow> string option \<Rightarrow> string option" where
  "target_path file rel = (if special_target file then Some file else snd (msBuildPath rel (Some file)))"

lemma msSetErrorFile_eq:
  assumes "debug_ok w" and "msSetErrorFile can_open t file rel w = (r, w', es)"
  shows "debug_ok w'" "written w' = written w" "\<And>u. u \<noteq> t \<Longrightarrow> infos w' u = infos w u"
    "\<And>n. fp (info_of t w) \<noteq> Some (LogFile n) \<Longrightarrow> open_files w n \<noteq> None \<Longrightarrow> open_files w' n = open_files w n"
    "r = MS_SUCCESS \<Longrightarrow> errorfile (info_of t w') = (case target_path file rel of Some [] \<Rightarrow> None | p \<Rightarrow> p)"
proof -
  obtain w1 where g: "msGetDebugInfoObj t w = (info_of t w, w1)"
    using msGetDebugInfoObj_eq(1) [OF assms(1)] by (metis surj_pair)
  note g' = msGetDebugInfoObj_eq [OF assms(1) g] and obj = info_of_get [OF assms(1) g]
  define res where "res = (if special_target file then ([], Some file) else msBuildPath rel (Some file))"
  have path: "snd res = target_path file rel" by (simp add: res_def target_path_def)
  let ?d = "info_of t w" and ?c = "msCloseErrorFile t w1"
  note c = msCloseErrorFile_eq [OF g'(3), of t, unfolded obj]
  have off: "info_of t ?c = closed ?d" by (simp add: info_of_def [of t ?c] c(2))
  consider (fail) "snd res = None" "w' = w1" "r = MS_FAILURE"
    | (same) p where "snd res = Some p" "errorfile ?d = Some p" "w' = w1" "r = MS_SUCCESS"
    | (take_up) p fs where "snd res = Some p" "open_target can_open t p ?c = (r, w', fs)"
    using assms(2) by (auto simp: msSetErrorFile_def g res_def [symmetric] split: prod.splits option.splits if_splits)
  then have "debug_ok w' \<and> written w' = written w \<and> (\<forall>u. u \<noteq> t \<longrightarrow> infos w' u = infos w u) \<and>
      (\<forall>n. fp ?d \<noteq> Some (LogFile n) \<longrightarrow> open_files w n \<noteq> None \<longrightarrow> open_files w' n = open_files w n) \<and>
      (r = MS_SUCCESS \<longrightarrow> errorfile (info_of t w') = (case target_path file rel of Some [] \<Rightarrow> None | p \<Rightarrow> p))"
  proof cases
    case fail
    then show ?thesis using g' by simp
  next
    case (same p)
    have "info_ok (open_files w) ?d" by (rule info_of_ok [OF assms(1)])
    then have "p \<noteq> []" using same(2) by (auto simp: info_ok_def split: debugMode.splits)
    then show ?thesis using same g' path obj by (auto split: list.splits)
  next
    case (take_up p fs)
    have m: "debug_mode (info_of t ?c) = MS_DEBUGMODE_OFF" by (simp add: off)
    note o = open_target_eq [OF c(1) m take_up(2)]
    have "next_file w \<notin> dom (open_files w)" using assms(1) unfolding debug_ok_def targets_ok_def by blast
    then have keep: "open_files w' n = open_files w n" if "fp ?d \<noteq> Some (LogFile n)" "open_files w n \<noteq> None" for n
      using that o(4) c(3,4) g'(4,5) by (auto simp: without_log_def)
    have "errorfile (info_of t w') = (case target_path file rel of Some [] \<Rightarrow> None | p \<Rightarrow> p)" if "r = MS_SUCCESS"
      using that take_up(1) path o(3) by (auto simp: info_of_def [of t w'] off target_of_def split: list.splits)
    then show ?thesis using o c g'(2,6) keep by auto
  qed
  then show "debug_ok w'" "written w' = written w" "\<And>u. u \<noteq> t \<Longrightarrow> infos w' u = infos w u"
    "\<And>n. fp (info_of t w) \<noteq> Some (LogFile n) \<Longrightarrow> open_files w n \<noteq> None \<Longrightarrow> open_files w' n = open_files w n"
    "r = MS_SUCCESS \<Longrightarrow> errorfile (info_of t w') = (case target_path file rel of Some [] \<Rightarrow> None | p \<Rightarrow> p)"
    by blast+
qed

lemma targets_same:
  assumes T: "targets_ok (I(t \<mapsto> d)) files n0" and i: "info_ok files e = info_ok files d" and f: "fp e = fp d"
  shows "targets_ok (I(t \<mapsto> e)) files n0"
proof -
  have fwd: "\<exists>g'. (I(t \<mapsto> d)) u = Some g' \<and> fp g' = fp g \<and> (info_ok files g' \<longrightarrow> info_ok files g)"
    if "(I(t \<mapsto> e)) u = Some g" for u g
    using that i f by (cases "u = t") auto
  have bwd: "\<exists>g'. (I(t \<mapsto> e)) u = Some g' \<and> fp g' = fp g" if "(I(t \<mapsto> d)) u = Some g" for u g
    using that f by (cases "u = t") auto
  have "info_ok files g" if "(I(t \<mapsto> e)) u = Some g" for u g
    using fwd [OF that] T unfolding targets_ok_def by blast
  moreover have "u = v" if "(I(t \<mapsto> e)) u = Some g" "(I(t \<mapsto> e)) v = Some h" "fp g = Some (LogFile n)" "fp h = Some (LogFile n)" for u v g h n
    using fwd [OF that(1)] fwd [OF that(2)] that(3,4) T unfolding targets_ok_def by metis
  moreover have "n < n0 \<and> (\<exists>u g. (I(t \<mapsto> e)) u = Some g \<and> fp g = Some (LogFile n))" if n: "files n \<noteq> None" for n
  proof -
    obtain u g where "n < n0" and g: "(I(t \<mapsto> d)) u = Some g" "fp g = Some (LogFile n)"
      using T n unfolding targets_ok_def by blast
    then show ?thesis using bwd [OF g(1)] by metis
  qed
  ultimately show ?thesis unfolding targets_ok_def by blast
qed

lemma msSetGlobalDebugLevel_eq:
  assumes "debug_ok w"
  shows "debug_ok (msSetGlobalDebugLevel t l w)"
    "infos (msSetGlobalDebugLevel t l w) = (infos w)(t \<mapsto> (info_of t w)\<lparr>global_debug_level := l\<rparr>)"
    "open_files (msSetGlobalDebugLevel t l w) = open_files w" "written (msSetGlobalDebugLevel t l w) = written w"
proof -
  obtain w1 where g: "msGetDebugInfoObj t w = (info_of t w, w1)"
    using msGetDebugInfoObj_eq(1) [OF assms] by (metis surj_pair)
  note g' = msGetDebugInfoObj_eq [OF assms g] and s' = set_debug_eq [OF assms g refl]
  let ?w = "msSetGlobalDebugLevel t l w" and ?d = "(info_of t w)\<lparr>global_debug_level := l\<rparr>"
  have w: "?w = set_debug ?d w1" by (simp add: msSetGlobalDebugLevel_def g)
  show I: "infos ?w = (infos w)(t \<mapsto> ?d)" "open_files ?w = open_files w" "written ?w = written w"
    using s' g' by (simp_all add: w)
  have i: "info_ok f ?d = info_ok f (info_of t w)" for f by (simp add: info_ok_def split: debugMode.split)
  have "targets_ok ((infos w)(t \<mapsto> info_of t w)) (open_files w) (next_file w)"
    using g'(2-5) by (simp add: debug_ok_def)
  then have "targets_ok ((infos w)(t \<mapsto> ?d)) (open_files w) (next_file w)"
    by (rule targets_same) (simp_all add: i)
  then show "debug_ok ?w" using s' g' by (simp add: debug_ok_def w)
qed

lemma msDebugCleanup_eq:
  assumes "debug_ok w"
  shows "\<exists>w'. msDebugCleanup t w = Some w' \<and> debug_ok w' \<and> infos w' = (infos w)(t := None) \<and>
           open_files w' = without_log (info_of t w) (open_files w) \<and> written w' = written w"
proof -
  let ?c = "msCloseErrorFile t w"
  note c = msCloseErrorFile_eq [OF assms, of t]
  have ok: "links_ok (debuginfo_list ?c)" using c(1) by (simp add: debug_ok_def)
  have "map_of (debuginfo_list ?c) t \<noteq> None" using fun_cong [OF c(2), of t] by (simp add: infos_def)
  then obtain ls where ls: "drop_link t (debuginfo_list ?c) = Some ls" "links_ok ls" using links.drop_ok [OF ok] by blast
  have m: "map_of ls = (infos w)(t := None)"
    using links.look_drop [OF ok ls(1)] fun_cong [OF c(2)] by (auto simp: infos_def fun_eq_iff)
  have "targets_ok ((infos w)(t := None)) (without_log (info_of t w) (open_files w)) (next_file w)"
    by (rule targets_close) (use assms in \<open>auto simp: debug_ok_def info_of_def\<close>)
  then show ?thesis
    using ls m c(3-5) by (simp add: msDebugCleanup_def Let_def debug_ok_def infos_def)
qed

lemma msDebugInitFromEnv_eq:
  assumes "debug_ok w" and "msDebugInitFromEnv can_open config t w = (r, w', es)"
  shows "debug_ok w'" "written w' = written w" "\<And>u. u \<noteq> t \<Longrightarrow> infos w' u = infos w u"
    "\<And>n. fp (info_of t w) \<noteq> Some (LogFile n) \<Longrightarrow> open_files w n \<noteq> None \<Longrightarrow> open_files w' n = open_files w n"
proof -
  define first where "first = (case config ''MS_ERRORFILE'' of None \<Rightarrow> (MS_SUCCESS, w, [])
      | Some val \<Rightarrow> msSetErrorFile can_open t val None w)"
  obtain r1 w1 es1 where f: "first = (r1, w1, es1)" by (cases first)
  have one: "debug_ok w1 \<and> written w1 = written w \<and> (\<forall>u. u \<noteq> t \<longrightarrow> infos w1 u = infos w u) \<and>
      (\<forall>n. fp (info_of t w) \<noteq> Some (LogFile n) \<longrightarrow> open_files w n \<noteq> None \<longrightarrow> open_files w1 n = open_files w n)"
  proof (cases "config ''MS_ERRORFILE''")
    case None
    then show ?thesis using f assms(1) by (simp add: first_def)
  next
    case (Some val)
    then have "msSetErrorFile can_open t val None w = (r1, w1, es1)" using f by (simp add: first_def)
    from msSetErrorFile_eq [OF assms(1) this] show ?thesis by blast
  qed
  then have "w' = w1 \<or> (\<exists>val. w' = msSetGlobalDebugLevel t (atoi val) w1)"
    using assms(2) f unfolding msDebugInitFromEnv_def first_def [symmetric] by (auto split: if_splits option.splits)
  then show "debug_ok w'" "written w' = written w" "\<And>u. u \<noteq> t \<Longrightarrow> infos w' u = infos w u"
    "\<And>n. fp (info_of t w) \<noteq> Some (LogFile n) \<Longrightarrow> open_files w n \<noteq> None \<Longrightarrow> open_files w' n = open_files w n"
    using one msSetGlobalDebugLevel_eq [of w1 t] by auto
qed

lemma msDebug_eq:
  assumes "debug_ok w"
  shows "debug_ok (msDebug stamp t line w)" "infos (msDebug stamp t line w) = (infos w)(t \<mapsto> info_of t w)"
    "open_files (msDebug stamp t line w) = open_files w"
    "written (msDebug stamp t line w) = written w @ (case fp (info_of t w) of None \<Rightarrow> []
       | Some f \<Rightarrow> [(f, stamp), (f, msRedactCredentials (take (MESSAGELENGTH - 1) line))])"
proof -
  obtain w1 where g: "msGetDebugInfoObj t w = (info_of t w, w1)"
    using msGetDebugInfoObj_eq(1) [OF assms] by (metis surj_pair)
  note g' = msGetDebugInfoObj_eq [OF assms g]
  have off: "fp (info_of t w) = None" if "debug_mode (info_of t w) = MS_DEBUGMODE_OFF"
    using info_of_ok [OF assms, of t] that by (simp add: info_ok_def)
  note defs = msDebug_def g prod.case debug_ok_def infos_def
  show "debug_ok (msDebug stamp t line w)" using g'(3) by (auto simp: defs split: option.split)
  show "infos (msDebug stamp t line w) = (infos w)(t \<mapsto> info_of t w)"
    using g'(2) by (auto simp: defs split: option.split)
  show "open_files (msDebug stamp t line w) = open_files w" using g'(4) by (auto simp: defs split: option.split)
  show "written (msDebug stamp t line w) = written w @ (case fp (info_of t w) of None \<Rightarrow> []
       | Some f \<Rightarrow> [(f, stamp), (f, msRedactCredentials (take (MESSAGELENGTH - 1) line))])"
    using g'(6) off by (auto simp: defs split: option.split)
qed

section \<open>Threads that take turns\<close>

text \<open>One call of the interface by thread \<open>t\<close>.\<close>

inductive debug_step :: "nat \<Rightarrow> debugState \<Rightarrow> debugState \<Rightarrow> bool" where
  set_file: "msSetErrorFile can_open t file rel w = (r, w', es) \<Longrightarrow> debug_step t w w'"
| close_file: "debug_step t w (msCloseErrorFile t w)"
| get_file: "msGetErrorFile t w = (f, w') \<Longrightarrow> debug_step t w w'"
| set_level: "debug_step t w (msSetGlobalDebugLevel t l w)"
| get_level: "msGetGlobalDebugLevel t w = (l, w') \<Longrightarrow> debug_step t w w'"
| init: "msDebugInitFromEnv can_open config t w = (r, w', es) \<Longrightarrow> debug_step t w w'"
| clean: "msDebugCleanup t w = Some w' \<Longrightarrow> debug_step t w w'"
| log: "debug_step t w (msDebug stamp t line w)"

inductive debug_reach :: "debugState \<Rightarrow> bool" where
  start: "debug_reach debug_start"
| step: "debug_reach w \<Longrightarrow> debug_step t w w' \<Longrightarrow> debug_reach w'"

text \<open>What a step keeps of the other threads, and where it writes.\<close>

lemma debug_step_frame:
  assumes "debug_step t w w'" and "debug_ok w"
  shows "debug_ok w' \<and> (\<forall>u. u \<noteq> t \<longrightarrow> infos w' u = infos w u) \<and>
    (\<forall>n. fp (info_of t w) \<noteq> Some (LogFile n) \<longrightarrow> open_files w n \<noteq> None \<longrightarrow> open_files w' n = open_files w n) \<and>
    (\<exists>out. written w' = written w @ out \<and> (\<forall>f\<in>fst ` set out. fp (info_of t w) = Some f))"
  using assms
proof cases
  case (set_file can_open name rel r es)
  then show ?thesis using msSetErrorFile_eq [OF assms(2) set_file] by auto
next
  case close_file
  then show ?thesis using msCloseErrorFile_eq [OF assms(2), of t] by (auto simp: without_log_def)
next
  case (get_file f)
  then obtain d where "msGetDebugInfoObj t w = (d, w')" by (auto simp: msGetErrorFile_def split: prod.splits)
  then show ?thesis using msGetDebugInfoObj_eq [OF assms(2)] by auto
next
  case (set_level l)
  then show ?thesis using msSetGlobalDebugLevel_eq [OF assms(2), of t l] by auto
next
  case (get_level l)
  then obtain d where "msGetDebugInfoObj t w = (d, w')" by (auto simp: msGetGlobalDebugLevel_def split: prod.splits)
  then show ?thesis using msGetDebugInfoObj_eq [OF assms(2)] by auto
next
  case (init can_open config r es)
  then show ?thesis using msDebugInitFromEnv_eq [OF assms(2) init] by auto
next
  case clean
  then show ?thesis using msDebugCleanup_eq [OF assms(2), of t] by (auto simp: without_log_def)
next
  case (log stamp line)
  then show ?thesis using msDebug_eq [OF assms(2), where t = t and stamp = stamp and line = line]
    by (auto split: option.splits)
qed

lemma debug_reach_ok: "debug_reach w \<Longrightarrow> debug_ok w"
  by (induction rule: debug_reach.induct) (use debug_start_ok debug_step_frame in blast)+

section \<open>Properties\<close>

text \<open>
  C36. Whatever the threads do, in whatever order, a call by one thread never disturbs another: the
  log target and the level of every other thread stay as they were, its log file stays open, and
  all that the call writes goes to the target of the calling thread.
\<close>

theorem debug_isolated:
  assumes "debug_reach w" and "debug_step t w w'" and "u \<noteq> t"
  shows "infos w' u = infos w u \<and>
    (\<forall>n. fp (info_of u w) = Some (LogFile n) \<longrightarrow> open_files w' n = errorfile (info_of u w) \<and> open_files w' n \<noteq> None) \<and>
    (\<exists>out. written w' = written w @ out \<and> (\<forall>f\<in>fst ` set out. fp (info_of t w) = Some f))"
proof -
  have ok: "debug_ok w" by (rule debug_reach_ok [OF assms(1)])
  note f = debug_step_frame [OF assms(2) ok]
  have "open_files w' n = errorfile (info_of u w) \<and> open_files w' n \<noteq> None" if n: "fp (info_of u w) = Some (LogFile n)" for n
  proof -
    have fl: "open_files w n = errorfile (info_of u w)" "open_files w n \<noteq> None"
      using info_of_ok [OF ok, of u] n by (auto simp: info_ok_def split: debugMode.splits)
    have "infos w u = Some (info_of u w)" using n by (auto simp: info_of_def split: option.splits)
    then have "fp (info_of t w) \<noteq> Some (LogFile n)"
      using ok n assms(3) unfolding debug_ok_def targets_ok_def info_of_def [of t w]
      by (metis new_debug_ok(2) option.case_eq_if option.collapse option.distinct(1))
    then show ?thesis using f fl by simp
  qed
  then show ?thesis using f assms(3) by blast
qed

theorem debug_isolated_witness:
  "infos (msSetGlobalDebugLevel 1 5 debug_start) 0 = None"
proof -
  have "debug_step 1 debug_start (msSetGlobalDebugLevel 1 5 debug_start)" by (rule set_level)
  from debug_isolated [OF debug_reach.start this, of 0] show ?thesis by (simp add: infos_def debug_start_def)
qed

text \<open>
  The clean-up of a thread never goes through a null pointer and never frees a link that stays
  in the list. It removes the object of that thread and no other, and closes its log file and no
  other; so once every thread has cleaned up, no log file is open.
\<close>

theorem debug_cleanup_exact:
  assumes "debug_reach w"
  shows "\<exists>w'. msDebugCleanup t w = Some w' \<and> infos w' = (infos w)(t := None) \<and>
    (\<forall>n. open_files w' n = (if fp (info_of t w) = Some (LogFile n) then None else open_files w n)) \<and>
    ((\<forall>u. u \<noteq> t \<longrightarrow> infos w u = None) \<longrightarrow> open_files w' = Map.empty)"
proof -
  obtain w' where w': "msDebugCleanup t w = Some w'" "debug_ok w'" "infos w' = (infos w)(t := None)"
      "open_files w' = without_log (info_of t w) (open_files w)"
    using msDebugCleanup_eq [OF debug_reach_ok [OF assms]] by blast
  have "open_files w' = Map.empty" if "\<forall>u. u \<noteq> t \<longrightarrow> infos w u = None"
  proof -
    have "infos w' u = None" for u using that w'(3) by simp
    then show ?thesis using w'(2) unfolding debug_ok_def targets_ok_def by (metis ext option.distinct(1))
  qed
  then show ?thesis using w' by (intro exI [of _ w']) (simp add: without_log_def)
qed

theorem debug_cleanup_exact_witness:
  "\<exists>w'. msDebugCleanup 7 debug_start = Some w' \<and> open_files w' = Map.empty"
  using debug_cleanup_exact [OF debug_reach.start, of 7] by (auto simp: debug_start_def infos_def)

text \<open>
  After \<open>msSetErrorFile\<close> succeeded, the thread has the target whose path was built from the name
  (none if that path is empty), and a line logged by \<open>msDebug\<close> is appended to that
  very target, cut to the buffer and without passwords.
\<close>

theorem debug_log_reaches_target:
  assumes "debug_reach w" and "msSetErrorFile can_open t name rel w = (MS_SUCCESS, w1, es)"
    and "target_path name rel = Some path" and "path \<noteq> []"
  shows "fst (msGetErrorFile t w1) = Some path \<and>
    (\<exists>f. written (msDebug stamp t line w1) =
           written w @ [(f, stamp), (f, msRedactCredentials (take (MESSAGELENGTH - 1) line))] \<and>
         (case f of Stderr \<Rightarrow> path = ''stderr'' | Stdout \<Rightarrow> path = ''stdout'' | LogFile n \<Rightarrow> open_files w1 n = Some path))"
proof -
  note s = msSetErrorFile_eq [OF debug_reach_ok [OF assms(1)] assms(2)]
  have e: "errorfile (info_of t w1) = Some path"
    using s(5) assms(3,4) by (auto split: list.splits)
  then obtain f where f: "fp (info_of t w1) = Some f"
      "case f of Stderr \<Rightarrow> path = ''stderr'' | Stdout \<Rightarrow> path = ''stdout'' | LogFile n \<Rightarrow> open_files w1 n = Some path"
    using info_of_ok [OF s(1), of t] by (auto simp: info_ok_def split: debugMode.splits)
  have "written (msDebug stamp t line w1) =
      written w @ [(f, stamp), (f, msRedactCredentials (take (MESSAGELENGTH - 1) line))]"
    using msDebug_eq(4) [OF s(1), of stamp t line] f(1) s(2) by simp
  moreover have "fst (msGetErrorFile t w1) = Some path"
    using e msGetDebugInfoObj_eq(1) [OF s(1)] by (auto simp: msGetErrorFile_def split: prod.split)
  ultimately show ?thesis using f(2) by blast
qed

theorem debug_log_reaches_target_witness:
  "\<exists>w1 es. msSetErrorFile (\<lambda>_. True) 3 ''ms.log'' (Some ''/tmp'') debug_start = (MS_SUCCESS, w1, es) \<and>
     fst (msGetErrorFile 3 w1) = Some ''/tmp/ms.log''"
proof -
  have p: "target_path ''ms.log'' (Some ''/tmp'') = Some ''/tmp/ms.log''" by code_simp
  obtain r w1 es where s: "msSetErrorFile (\<lambda>_. True) 3 ''ms.log'' (Some ''/tmp'') debug_start = (r, w1, es)"
    by (metis surj_pair)
  have "fst (msSetErrorFile (\<lambda>_. True) 3 ''ms.log'' (Some ''/tmp'') debug_start) = MS_SUCCESS" by code_simp
  then have "msSetErrorFile (\<lambda>_. True) 3 ''ms.log'' (Some ''/tmp'') debug_start = (MS_SUCCESS, w1, es)"
    using s by simp
  from debug_log_reaches_target [OF debug_reach.start this p] this show ?thesis by simp
qed

end
