(* ===== verification/HtmlEntities.thy ===== *)
theory HtmlEntities
  imports MapString
begin

text \<open>
  \<open>msEncodeHTMLEntities\<close> and \<open>msDecodeHTMLEntities\<close> of \<open>mapstring.cpp\<close>. The encoder writes into a
  buffer that it doubles when an entity might not fit; the model keeps the size of the buffer and
  returns \<open>None\<close> for a write behind its end. The decoder works in place with two scratch buffers
  filled by \<open>strlcpy\<close>.
\<close>

section \<open>Encoding\<close>

definition html_entity :: "char \<Rightarrow> string option" where
  "html_entity c =
     (if c = CHR ''&'' then Some ''&amp;''
      else if c = CHR ''<'' then Some ''&lt;''
      else if c = CHR ''>'' then Some ''&gt;''
      else if c = CHR 0x22 then Some ''&quot;''
      else if c = CHR 0x27 then Some ''&#39;''
      else None)"

text \<open>
  One character: the size of the buffer (\<open>buflen + 1\<close> bytes) and the text so far, of length \<open>i\<close>.
  \<open>strcpy\<close> writes the entity and a NUL, an ordinary character is written alone.
\<close>

definition encode_char :: "char \<Rightarrow> nat \<times> string \<Rightarrow> (nat \<times> string) option" where
  "encode_char c st =
     (case st of (buflen, out) \<Rightarrow>
        let i = length out; buflen' = (if i + 6 > buflen then buflen * 2 else buflen) in
        case html_entity c of
          Some e \<Rightarrow> if i + length e + 1 \<le> buflen' + 1 then Some (buflen', out @ e) else None
        | None \<Rightarrow> if i + 1 \<le> buflen' + 1 then Some (buflen', out @ [c]) else None)"

fun encode_chars :: "string \<Rightarrow> nat \<times> string \<Rightarrow> (nat \<times> string) option" where
  "encode_chars [] st = Some st"
| "encode_chars (c # cs) st = (case encode_char c st of None \<Rightarrow> None | Some st' \<Rightarrow> encode_chars cs st')"

definition msEncodeHTMLEntities :: "string \<Rightarrow> string option" where
  "msEncodeHTMLEntities s =
     (case encode_chars s (length s + 100, []) of
        None \<Rightarrow> None
      | Some (buflen, out) \<Rightarrow> if length out + 1 \<le> buflen + 1 then Some out else None)"

section \<open>Decoding\<close>

definition entity_char :: "string \<Rightarrow> char option" where
  "entity_char e =
     (if strcasecmp e ''&amp;'' = 0 then Some (CHR ''&'')
      else if strcasecmp e ''&lt;'' = 0 then Some (CHR ''<'')
      else if strcasecmp e ''&gt;'' = 0 then Some (CHR ''>'')
      else if strcasecmp e ''&quot;'' = 0 then Some (CHR 0x22)
      else if strcasecmp e ''&apos;'' = 0 then Some (CHR 0x27)
      else None)"

definition before_char :: "char \<Rightarrow> string \<Rightarrow> string" where
  "before_char ch s = takeWhile (\<lambda>c. c \<noteq> ch) s"

definition from_char :: "char \<Rightarrow> string \<Rightarrow> string" where
  "from_char ch s = dropWhile (\<lambda>c. c \<noteq> ch) s"

text \<open>
  The loop on the text from \<open>pszBuffer\<close> on, where \<open>n\<close> is \<open>bufferSize\<close>, the length of the whole
  string: the text it leaves there.
\<close>

function decode_from :: "nat \<Rightarrow> string \<Rightarrow> string" where
  "decode_from n s =
     (if from_char (CHR ''&'') s = [] then s
      else let pre = before_char (CHR ''&'') s; amp = from_char (CHR ''&'') s; replace = strlcpy amp n in
        if from_char (CHR '';'') replace = [] then s
        else let after = strlcpy (tl (from_char (CHR '';'') replace)) n;
                 entity = before_char (CHR '';'') replace @ '';'' in
          case entity_char entity of
            Some c \<Rightarrow> pre @ c # decode_from n after
          | None \<Rightarrow> pre @ hd amp # decode_from n (tl amp))"
  by pat_completeness auto
termination
proof (relation "measure (length \<circ> snd)", goal_cases)
  case (2 n s pre amp replace after entity)
  have "amp \<noteq> []" using 2(1,3) by simp
  moreover have "length amp \<le> length s" unfolding 2(3) from_char_def by (rule length_dropWhile_le)
  ultimately show ?case by (cases amp) auto
next
  case (3 n s pre amp replace after entity c)
  have "length (from_char (CHR '';'') replace) \<le> length replace" unfolding from_char_def by (rule length_dropWhile_le)
  also have "length replace \<le> length amp" unfolding 3(4) strlcpy_def' by simp
  also have "length amp \<le> length s" unfolding 3(3) from_char_def by (rule length_dropWhile_le)
  finally have "length (from_char (CHR '';'') replace) \<le> length s" .
  moreover have "length after \<le> length (tl (from_char (CHR '';'') replace))" unfolding 3(6) strlcpy_def' by simp
  ultimately show ?case using 3(5) by (cases "from_char (CHR '';'') replace") auto
qed simp

declare decode_from.simps [simp del]

definition msDecodeHTMLEntities :: "string \<Rightarrow> string" where
  "msDecodeHTMLEntities s = decode_from (length s) s"

section \<open>The encoder\<close>

definition html_text :: "char \<Rightarrow> string" where
  "html_text c = (case html_entity c of None \<Rightarrow> [c] | Some e \<Rightarrow> e)"

lemma html_text_length: "length (html_text c) \<le> 6" "html_text c \<noteq> []"
  by (simp_all add: html_text_def html_entity_def)

lemma encode_char_eq:
  assumes "6 \<le> buflen" and "length out \<le> buflen"
  shows "\<exists>b. encode_char c (buflen, out) = Some (b, out @ html_text c) \<and> 6 \<le> b \<and> length (out @ html_text c) \<le> b"
  using assms html_text_length(1) [of c]
  by (auto simp: encode_char_def html_text_def Let_def split: option.split)

lemma encode_chars_eq:
  "6 \<le> buflen \<Longrightarrow> length out \<le> buflen \<Longrightarrow>
   \<exists>b. encode_chars s (buflen, out) = Some (b, out @ concat (map html_text s)) \<and> length (out @ concat (map html_text s)) \<le> b"
proof (induction s arbitrary: buflen out)
  case (Cons c s)
  obtain b where b: "encode_char c (buflen, out) = Some (b, out @ html_text c)" "6 \<le> b" "length (out @ html_text c) \<le> b"
    using encode_char_eq [OF Cons.prems] by blast
  show ?case using Cons.IH [OF b(2,3)] b(1) by simp
qed simp

lemma encode_eq: "msEncodeHTMLEntities s = Some (concat (map html_text s))"
  using encode_chars_eq [of "length s + 100" "[]" s] by (auto simp: msEncodeHTMLEntities_def)

text \<open>
  The encoder never writes behind its buffer, however many characters it has to replace, and
  its output holds no character that is special in HTML text or in a quoted attribute: each
  ampersand in it starts one of the five entities.
\<close>

theorem html_encode_safe:
  "\<exists>out. msEncodeHTMLEntities s = Some out \<and>
     set out \<inter> {CHR ''<'', CHR ''>'', CHR 0x22, CHR 0x27} = {} \<and>
     out = concat (map html_text s) \<and> length out \<le> 6 * length s"
proof -
  have "set (html_text c) \<inter> {CHR ''<'', CHR ''>'', CHR 0x22, CHR 0x27} = {}" for c
    by (simp add: html_text_def html_entity_def)
  then have "set (concat (map html_text s)) \<inter> {CHR ''<'', CHR ''>'', CHR 0x22, CHR 0x27} = {}"
    by fastforce
  moreover have "length (concat (map html_text s)) \<le> 6 * length s"
  proof (induction s)
    case (Cons c s)
    then show ?case using html_text_length(1) [of c] by simp
  qed simp
  ultimately show ?thesis by (simp add: encode_eq)
qed

section \<open>The decoder\<close>

lemma from_char_Cons: "c \<noteq> ch \<Longrightarrow> from_char ch (c # s) = from_char ch s \<and> before_char ch (c # s) = c # before_char ch s"
  by (simp add: from_char_def before_char_def)

lemma decode_from_Cons: "c \<noteq> CHR ''&'' \<Longrightarrow> decode_from n (c # s) = c # decode_from n s"
  unfolding decode_from.simps [of n "c # s"] decode_from.simps [of n s]
  by (cases "from_char (CHR ''&'') s = []"; cases "from_char (CHR '';'') (strlcpy (from_char (CHR ''&'') s) n) = []")
     (simp_all add: from_char_Cons Let_def split: option.split)

lemma decode_from_Nil [simp]: "decode_from n [] = []"
  by (subst decode_from.simps) (simp add: from_char_def)

lemma decode_from_entity:
  assumes "entity_char (CHR ''&'' # e @ '';'') = Some c" and "CHR '';'' \<notin> set e"
    and "length (CHR ''&'' # e @ CHR '';'' # s) < n"
  shows "decode_from n (CHR ''&'' # e @ CHR '';'' # s) = c # decode_from n s"
proof -
  let ?t = "CHR ''&'' # e @ CHR '';'' # s"
  have full: "strlcpy ?t n = ?t" "strlcpy s n = s" using assms(3) by (simp_all add: strlcpy_def')
  have "from_char (CHR '';'') ?t = CHR '';'' # s" "before_char (CHR '';'') ?t = CHR ''&'' # e"
    using assms(2) by (auto simp: from_char_def before_char_def dropWhile_append takeWhile_append)
  moreover have "from_char (CHR ''&'') ?t = ?t" "before_char (CHR ''&'') ?t = []"
    by (simp_all add: from_char_def before_char_def)
  ultimately show ?thesis
    using assms(1) by (subst decode_from.simps) (simp add: full Let_def)
qed

lemma decode_html_text:
  assumes "c \<noteq> CHR 0x27" and "length (html_text c @ s) < n"
  shows "decode_from n (html_text c @ s) = c # decode_from n s"
proof (cases "html_entity c")
  case None
  then have "c \<noteq> CHR ''&''" by (auto simp: html_entity_def)
  then show ?thesis using None by (simp add: html_text_def decode_from_Cons)
next
  case (Some e)
  then have "\<exists>e'. e = CHR ''&'' # e' @ '';'' \<and> CHR '';'' \<notin> set e' \<and> entity_char e = Some c"
  proof -
    consider "c = CHR ''&''" "e = CHR ''&'' # ''amp'' @ '';''" | "c = CHR ''<''" "e = CHR ''&'' # ''lt'' @ '';''"
      | "c = CHR ''>''" "e = CHR ''&'' # ''gt'' @ '';''" | "c = CHR 0x22" "e = CHR ''&'' # ''quot'' @ '';''"
      using Some assms(1) by (auto simp: html_entity_def split: if_splits)
    moreover have "entity_char ''&amp;'' = Some (CHR ''&'')" "entity_char ''&lt;'' = Some (CHR ''<'')"
      "entity_char ''&gt;'' = Some (CHR ''>'')" "entity_char ''&quot;'' = Some (CHR 0x22)"
      by code_simp+
    ultimately show ?thesis by cases auto
  qed
  then obtain e' where e: "e = CHR ''&'' # e' @ '';''" "CHR '';'' \<notin> set e'" "entity_char e = Some c" by blast
  then show ?thesis
    using decode_from_entity [of e' c s n] assms(2) Some by (simp add: html_text_def)
qed

lemma decode_html:
  "CHR 0x27 \<notin> set s \<Longrightarrow> length (concat (map html_text s)) < n \<Longrightarrow> decode_from n (concat (map html_text s)) = s"
proof (induction s)
  case (Cons c s)
  have "decode_from n (html_text c @ concat (map html_text s)) = c # decode_from n (concat (map html_text s))"
    by (rule decode_html_text) (use Cons.prems in auto)
  then show ?case using Cons by simp
qed simp

text \<open>
  Decoding what the encoder wrote gives back the text, if it has no apostrophe and does not
  start with a character that was replaced.
\<close>

theorem html_roundtrip:
  assumes "msEncodeHTMLEntities (c # s) = Some out" and "CHR 0x27 \<notin> set (c # s)" and "html_entity c = None"
  shows "msDecodeHTMLEntities out = c # s"
proof -
  let ?r = "concat (map html_text s)"
  have out: "out = c # ?r" using assms(1,3) by (simp add: encode_eq html_text_def)
  have "c \<noteq> CHR ''&''" using assms(3) by (auto simp: html_entity_def)
  then have "msDecodeHTMLEntities out = c # decode_from (length out) ?r"
    by (simp add: msDecodeHTMLEntities_def out decode_from_Cons)
  also have "decode_from (length out) ?r = s" by (rule decode_html) (use assms(2) in \<open>auto simp: out\<close>)
  finally show ?thesis .
qed

theorem html_roundtrip_witness:
  "msDecodeHTMLEntities ''a&lt;b&amp;c'' = ''a<b&c''"
proof -
  have "msEncodeHTMLEntities (CHR ''a'' # ''<b&c'') = Some ''a&lt;b&amp;c''" "html_entity (CHR ''a'') = None"
    by code_simp+
  from html_roundtrip [OF this(1) _ this(2)] show ?thesis by simp
qed

text \<open>
  The two conditions are needed. The scratch buffers have room for the whole string, but \<open>strlcpy\<close>
  is told one byte less: when the entity is at the very start the last character of the string is
  lost, and a string that is one entity is not decoded. The encoder writes an apostrophe as a
  numeric entity that the decoder does not know.
\<close>

lemma html_decode_loses_last: "msDecodeHTMLEntities ''&amp;x'' = ''&''"
  by code_simp

lemma html_decode_single: "msDecodeHTMLEntities ''&amp;'' = ''&amp;''"
  by code_simp

lemma html_apostrophe: "msEncodeHTMLEntities ''it's'' = Some ''it&#39;s'' \<and> msDecodeHTMLEntities ''it&#39;s'' = ''it&#39;s''"
  by code_simp

end
