(* ===== verification/MapError.thy ===== *)
theory MapError
  imports MapDebug HtmlEntities
begin

text \<open>
  The error stack of a thread (\<open>maperror.c\<close>, built with threads). The C list is an object per thread
  whose head is fixed: a new error moves the old head into a new object behind it. The model keeps
  the head, the objects behind it, newest first, and the counter that only the head uses. Every
  error is also logged through \<open>msDebug\<close>, so the state includes that of \<open>mapdebug.c\<close>.

  Messages arrive formatted. Whether \<open>malloc\<close> succeeds when an object is added, the time stamp of
  the log and GDAL's configuration are arguments. An operation that would read through a null
  pointer or outside the table of code names returns \<open>None\<close>.
\<close>

section \<open>State\<close>

record errorObj =
  code :: int
  routine :: string
  message :: string
  http_status :: "string option" \<comment> \<open>\<open>None\<close>: never written\<close>
  isreported :: bool
  errorcount :: int

record errorStack =
  ehead :: errorObj
  enext :: "errorObj list"
  totalerrorcount :: int

record errorState =
  error_list :: "errorStack links"
  edebug :: debugState
  gIsWMS :: "nat \<Rightarrow> bool"

abbreviation (input) MS_NOERR :: int where "MS_NOERR \<equiv> 0"
abbreviation (input) MS_NUMERRORCODES :: int where "MS_NUMERRORCODES \<equiv> 46"
abbreviation (input) ROUTINELENGTH :: nat where "ROUTINELENGTH \<equiv> 64"
abbreviation (input) HTTPSTATUSLENGTH :: nat where "HTTPSTATUSLENGTH \<equiv> 128"

definition no_error :: errorObj where
  "no_error = \<lparr>code = MS_NOERR, routine = [], message = [], http_status = Some [], isreported = False, errorcount = 0\<rparr>"

definition new_stack :: errorStack where
  "new_stack = \<lparr>ehead = no_error, enext = [], totalerrorcount = 0\<rparr>"

definition error_start :: errorState where
  "error_start = \<lparr>error_list = [], edebug = debug_start, gIsWMS = (\<lambda>_. False)\<rparr>"

definition ms_errorCodes :: "string list" where
  "ms_errorCodes =
    ['''', ''Unable to access file.'', ''Memory allocation error.'', ''Incorrect data type.'',
     ''Symbol definition error.'', ''Regular expression error.'', ''TrueType Font error.'',
     ''DBASE file error.'', ''GD library error.'', ''Unknown identifier.'', ''Premature End-of-File.'',
     ''Projection library error.'', ''General error message.'', ''CGI error.'', ''Web application error.'',
     ''Image handling error.'', ''Hash table error.'', ''Join error.'', ''Search returned no results.'',
     ''Shapefile error.'', ''Expression parser error.'', ''SDE error.'', ''OGR error.'', ''Query error.'',
     ''WMS server error.'', ''WMS connection error.'', ''OracleSpatial error.'', ''WFS server error.'',
     ''WFS connection error.'', ''WMS Map Context error.'', ''HTTP request error.'', ''Child array error.'',
     ''WCS server error.'', ''GEOS library error.'', ''Invalid rectangle.'', ''Date/time error.'',
     ''GML encoding error.'', ''SOS server error.'', ''NULL parent pointer error.'', ''AGG library error.'',
     ''OWS error.'', ''OpenGL renderer error.'', ''Renderer error.'', ''V8 engine error.'',
     ''OCG API error.'', ''Flatgeobuf error.'']"

text \<open>\<open>ms_errorCodes[code]\<close>, without a check of the index.\<close>

definition code_name :: "int \<Rightarrow> string option" where
  "code_name c = (if 0 \<le> c \<and> c < MS_NUMERRORCODES then Some (ms_errorCodes ! nat c) else None)"

definition msGetErrorCodeString :: "int \<Rightarrow> string" where
  "msGetErrorCodeString c =
     (if c < 0 \<or> c > MS_NUMERRORCODES - 1 then ''Invalid error code.'' else ms_errorCodes ! nat c)"

section \<open>Setting errors\<close>

definition msGetErrorObj :: "nat \<Rightarrow> errorState \<Rightarrow> errorStack \<times> errorState" where
  "msGetErrorObj t s =
     (let ls = get_link new_stack t (error_list s) in (snd (hd ls), s\<lparr>error_list := ls\<rparr>))"

definition set_stack :: "errorStack \<Rightarrow> errorState \<Rightarrow> errorState" where
  "set_stack l s = s\<lparr>error_list := put_front l (error_list s)\<rparr>"

definition msInsertErrorObj :: "bool \<Rightarrow> errorStack \<Rightarrow> errorStack" where
  "msInsertErrorObj malloc_ok l =
     (let h = ehead l in
      if code h \<noteq> MS_NOERR \<and> totalerrorcount l < 100 then
        (let l1 = (if malloc_ok then
               l\<lparr>enext := \<lparr>code = code h, routine = strlcpy (routine h) ROUTINELENGTH,
                            message = strlcpy (message h) MESSAGELENGTH, http_status = None,
                            isreported = isreported h, errorcount = errorcount h\<rparr> # enext l,
                 ehead := h\<lparr>code := MS_NOERR, isreported := False, routine := [], message := [], errorcount := 0\<rparr>\<rparr>
             else l)
         in l1\<lparr>totalerrorcount := totalerrorcount l + 1\<rparr>)
      else l)"

text \<open>The test whether an error repeats the last one; \<open>strcasecmp\<close> must not see a null routine.\<close>

definition differs :: "int \<Rightarrow> string \<Rightarrow> string option \<Rightarrow> errorObj \<Rightarrow> bool option" where
  "differs errcode msg rtn h =
     (if code h \<noteq> errcode \<or> strcasecmp msg (message h) \<noteq> 0 then Some True
      else case rtn of None \<Rightarrow> None | Some r \<Rightarrow> Some (strcasecmp r (routine h) \<noteq> 0))"

definition store_error :: "int \<Rightarrow> string option \<Rightarrow> string \<Rightarrow> string option \<Rightarrow> errorStack \<Rightarrow> errorStack" where
  "store_error errcode http msg rtn l =
     l\<lparr>ehead := (ehead l)\<lparr>
         routine := (case rtn of None \<Rightarrow> [] | Some r \<Rightarrow> strlcpy r ROUTINELENGTH),
         http_status := Some (case http of None \<Rightarrow> [] | Some h \<Rightarrow> strlcpy h HTTPSTATUSLENGTH),
         message := strlcpy msg MESSAGELENGTH, code := errcode, errorcount := 0\<rparr>\<rparr>"

definition msSetErrorInternal ::
  "bool \<Rightarrow> string \<Rightarrow> nat \<Rightarrow> int \<Rightarrow> string option \<Rightarrow> string \<Rightarrow> string option \<Rightarrow> errorState \<Rightarrow> errorState option" where
  "msSetErrorInternal malloc_ok stamp t errcode http msg rtn s =
     (case msGetErrorObj t s of (l, s1) \<Rightarrow>
        case differs errcode msg rtn (ehead l) of
          None \<Rightarrow> None
        | Some d \<Rightarrow>
            (let l1 = (if d then store_error errcode http msg rtn (msInsertErrorObj malloc_ok l)
                       else l\<lparr>ehead := (ehead l)\<lparr>errorcount := errorcount (ehead l) + 1\<rparr>\<rparr>);
                 h = (ehead l1)\<lparr>message := msRedactCredentials (message (ehead l1))\<rparr> in
             case code_name (code h) of
               None \<Rightarrow> None
             | Some name \<Rightarrow>
                 Some ((set_stack (l1\<lparr>ehead := h\<rparr>) s1)
                   \<lparr>edebug := msDebug stamp t (routine h @ '': '' @ name @ '' '' @ message h @ [CHR 0x0A]) (edebug s1)\<rparr>)))"

definition msSetError ::
  "bool \<Rightarrow> string \<Rightarrow> nat \<Rightarrow> int \<Rightarrow> string option \<Rightarrow> string option \<Rightarrow> errorState \<Rightarrow> errorState option" where
  "msSetError malloc_ok stamp t errcode txt_opt rtn s =
     msSetErrorInternal malloc_ok stamp t errcode None
       (case txt_opt of None \<Rightarrow> [] | Some m \<Rightarrow> take (MESSAGELENGTH - 1) m) rtn s"

definition msSetErrorSetIsWMS :: "nat \<Rightarrow> bool \<Rightarrow> errorState \<Rightarrow> errorState" where
  "msSetErrorSetIsWMS t is_wms s = s\<lparr>gIsWMS := (gIsWMS s)(t := is_wms)\<rparr>"

definition msSetErrorWithStatus ::
  "(string \<Rightarrow> bool) \<Rightarrow> (string \<Rightarrow> string option) \<Rightarrow> bool \<Rightarrow> string \<Rightarrow> nat \<Rightarrow> int \<Rightarrow> string option \<Rightarrow> string option \<Rightarrow>
   string option \<Rightarrow> errorState \<Rightarrow> errorState option" where
  "msSetErrorWithStatus test_boolean config malloc_ok stamp t errcode http txt_opt rtn s =
     (let keep = gIsWMS s t \<and>
            test_boolean (case config ''MS_WMS_ERROR_STATUS_CODE'' of None \<Rightarrow> ''OFF'' | Some v \<Rightarrow> v) in
      msSetErrorInternal malloc_ok stamp t errcode (if keep then http else None)
        (case txt_opt of None \<Rightarrow> [] | Some m \<Rightarrow> take (MESSAGELENGTH - 1) m) rtn s)"

text \<open>
  \<open>msResetErrorList\<close> frees the objects behind the head, clears the head and takes the thread's link
  out of the list.
\<close>

definition msResetErrorList :: "nat \<Rightarrow> errorState \<Rightarrow> errorState option" where
  "msResetErrorList t s =
     (case msGetErrorObj t s of (l, s1) \<Rightarrow>
        let s2 = set_stack (l\<lparr>enext := [],
                   ehead := (ehead l)\<lparr>code := MS_NOERR, isreported := False, routine := [], message := [], errorcount := 0\<rparr>,
                   totalerrorcount := 0\<rparr>) s1 in
        map_option (\<lambda>ls. s2\<lparr>error_list := ls\<rparr>) (drop_link t (error_list s2)))"

section \<open>Reporting errors\<close>

definition msIntToString :: "int \<Rightarrow> string" where
  "msIntToString i = (if i < 0 then CHR ''-'' # digits_of (nat (- i)) else digits_of (nat i))"

definition msAddErrorDisplayString :: "string option \<Rightarrow> errorObj \<Rightarrow> string option" where
  "msAddErrorDisplayString source e =
     (case code_name (code e) of
        None \<Rightarrow> None
      | Some name \<Rightarrow>
          Some ((case source of None \<Rightarrow> [] | Some s \<Rightarrow> s) @ routine e @ '': '' @ name @ '' '' @ message e @
            (if errorcount e > 0 then '' (message repeated '' @ msIntToString (errorcount e) @ '' times)'' else [])))"

text \<open>The walk over the list stops at the first object without an error.\<close>

fun error_strings :: "string \<Rightarrow> string option \<Rightarrow> errorObj list \<Rightarrow> string option option" where
  "error_strings delim acc [] = Some acc"
| "error_strings delim acc (e # es) =
     (if code e = MS_NOERR then Some acc
      else case msAddErrorDisplayString acc e of
             None \<Rightarrow> None
           | Some t \<Rightarrow>
               error_strings delim
                 (Some (if es \<noteq> [] \<and> code (hd es) \<noteq> MS_NOERR then t @ delim else t)) es)"

definition msGetErrorString :: "nat \<Rightarrow> string option \<Rightarrow> errorState \<Rightarrow> (string option \<times> errorState) option" where
  "msGetErrorString t delimiter s =
     (case msGetErrorObj t s of (l, s1) \<Rightarrow>
        case delimiter of
          None \<Rightarrow> Some (None, s1)
        | Some d \<Rightarrow> map_option (\<lambda>r. (r, s1)) (error_strings d None (ehead l # enext l)))"

text \<open>\<open>msWriteError\<close> and \<open>msWriteErrorXML\<close>: the text for the stream, and the list with the reported errors marked.\<close>

fun write_errors :: "(errorObj \<Rightarrow> string \<Rightarrow> string option) \<Rightarrow> errorObj list \<Rightarrow> (string \<times> errorObj list) option" where
  "write_errors show_error [] = Some ([], [])"
| "write_errors show_error (e # es) =
     (if code e = MS_NOERR then Some ([], e # es)
      else case code_name (code e) of
             None \<Rightarrow> None
           | Some name \<Rightarrow>
               (case show_error e name of
                  None \<Rightarrow> None
                | Some t \<Rightarrow> map_option (\<lambda>(ts, es'). (t @ ts, e\<lparr>isreported := True\<rparr> # es')) (write_errors show_error es)))"

definition html_line :: "errorObj \<Rightarrow> string \<Rightarrow> string option" where
  "html_line e name = Some (routine e @ '': '' @ name @ '' '' @ message e @ '' <br>'' @ [CHR 0x0A])"

definition xml_line :: "errorObj \<Rightarrow> string \<Rightarrow> string option" where
  "xml_line e name =
     (case msEncodeHTMLEntities (message e) of
        None \<Rightarrow> None
      | Some m \<Rightarrow> Some (routine e @ '': '' @ name @ '' '' @ m @ [CHR 0x0A]))"

definition write_stack :: "(errorObj \<Rightarrow> string \<Rightarrow> string option) \<Rightarrow> nat \<Rightarrow> errorState \<Rightarrow> (string \<times> errorState) option" where
  "write_stack show_error t s =
     (case msGetErrorObj t s of (l, s1) \<Rightarrow>
        case write_errors show_error (ehead l # enext l) of
          None \<Rightarrow> None
        | Some (out, es) \<Rightarrow> Some (out, set_stack (l\<lparr>ehead := hd es, enext := tl es\<rparr>) s1))"

definition msWriteError :: "nat \<Rightarrow> errorState \<Rightarrow> (string \<times> errorState) option" where
  "msWriteError = write_stack html_line"

definition msWriteErrorXML :: "nat \<Rightarrow> errorState \<Rightarrow> (string \<times> errorState) option" where
  "msWriteErrorXML = write_stack xml_line"

section \<open>Invariant\<close>

text \<open>
  Strings fit their arrays, codes are those of the table, there are never more than one hundred
  objects behind the head, and none behind a head without an error.
\<close>

definition obj_ok :: "errorObj \<Rightarrow> bool" where
  "obj_ok e \<longleftrightarrow> 0 \<le> code e \<and> code e < MS_NUMERRORCODES \<and> 0 \<le> errorcount e \<and>
     length (routine e) < ROUTINELENGTH \<and> length (message e) < MESSAGELENGTH \<and>
     (case http_status e of None \<Rightarrow> True | Some h \<Rightarrow> length h < HTTPSTATUSLENGTH)"

definition stack_ok :: "errorStack \<Rightarrow> bool" where
  "stack_ok l \<longleftrightarrow> obj_ok (ehead l) \<and> (\<forall>e\<in>set (enext l). obj_ok e \<and> code e \<noteq> MS_NOERR) \<and>
     (code (ehead l) = MS_NOERR \<longrightarrow> enext l = []) \<and>
     int (length (enext l)) \<le> totalerrorcount l \<and> totalerrorcount l \<le> 100"

definition stacks :: "errorState \<Rightarrow> nat \<Rightarrow> errorStack option" where
  "stacks s = map_of (error_list s)"

definition stack_of :: "nat \<Rightarrow> errorState \<Rightarrow> errorStack" where
  "stack_of t s = (case stacks s t of None \<Rightarrow> new_stack | Some l \<Rightarrow> l)"

definition error_ok :: "errorState \<Rightarrow> bool" where
  "error_ok s \<longleftrightarrow> links_ok (error_list s) \<and> (\<forall>t l. stacks s t = Some l \<longrightarrow> stack_ok l) \<and> debug_ok (edebug s)"

text \<open>The errors of a thread, newest first.\<close>

definition errors :: "errorStack \<Rightarrow> errorObj list" where
  "errors l = (if code (ehead l) = MS_NOERR then [] else ehead l # enext l)"

lemma new_stack_ok [simp]: "stack_ok new_stack" "errors new_stack = []"
  by (simp_all add: stack_ok_def new_stack_def obj_ok_def no_error_def errors_def)

lemma stack_of_ok: "error_ok s \<Longrightarrow> stack_ok (stack_of t s)"
  by (auto simp: error_ok_def stack_of_def split: option.split)

lemma error_start_ok: "error_ok error_start"
  by (simp add: error_ok_def error_start_def links_ok_def stacks_def debug_start_ok)


lemma code_name_Some: "obj_ok e \<Longrightarrow> code_name (code e) = Some (ms_errorCodes ! nat (code e))"
  by (simp add: obj_ok_def code_name_def)

section \<open>The stack of one thread\<close>

lemma msGetErrorObj_eq:
  assumes "error_ok s"
  obtains s1 where "msGetErrorObj t s = (stack_of t s, s1)" "error_ok s1" "stacks s1 = (stacks s)(t \<mapsto> stack_of t s)"
    "edebug s1 = edebug s" "gIsWMS s1 = gIsWMS s" "error_list s1 = get_link new_stack t (error_list s)"
proof -
  have ok: "links_ok (error_list s)" using assms by (simp add: error_ok_def)
  let ?s1 = "s\<lparr>error_list := get_link new_stack t (error_list s)\<rparr>"
  have I: "stacks ?s1 = (stacks s)(t \<mapsto> stack_of t s)"
    using links.look_get [OF ok, of new_stack t] by (auto simp: stacks_def stack_of_def fun_eq_iff)
  have "snd (hd (get_link new_stack t (error_list s))) = stack_of t s"
    using get_link_front [OF ok, of new_stack t] by (auto simp: stack_of_def stacks_def)
  moreover have "error_ok ?s1"
    using assms links.get_ok [OF ok] stack_of_ok [OF assms, of t] I by (auto simp: error_ok_def split: if_splits)
  ultimately show thesis using I by (intro that [of ?s1]) (simp_all add: msGetErrorObj_def Let_def)
qed

lemma set_stack_eq:
  assumes "error_ok s" and "error_list s1 = get_link new_stack t (error_list s)"
  shows "stacks (set_stack l s1) = (stacks s)(t \<mapsto> l)" "links_ok (error_list (set_stack l s1))"
proof -
  have ok: "links_ok (error_list s)" using assms(1) by (simp add: error_ok_def)
  show "stacks (set_stack l s1) = (stacks s)(t \<mapsto> l)"
    using links.look_put [OF ok, of l new_stack t] assms(2) by (auto simp: stacks_def set_stack_def fun_eq_iff)
  show "links_ok (error_list (set_stack l s1))"
    using links.put_ok [OF ok] assms(2) by (simp add: set_stack_def)
qed

text \<open>What a new error does to the stack.\<close>

definition new_error :: "int \<Rightarrow> string option \<Rightarrow> string \<Rightarrow> string option \<Rightarrow> errorObj \<Rightarrow> bool" where
  "new_error errcode http msg rtn e \<longleftrightarrow>
     code e = errcode \<and> routine e = (case rtn of None \<Rightarrow> [] | Some r \<Rightarrow> take (ROUTINELENGTH - 1) r) \<and>
     message e = msRedactCredentials (take (MESSAGELENGTH - 1) msg) \<and> errorcount e = 0 \<and>
     http_status e = Some (case http of None \<Rightarrow> [] | Some h \<Rightarrow> take (HTTPSTATUSLENGTH - 1) h)"

text \<open>The older errors as they are kept: the status line is not moved along.\<close>

definition moved :: "errorObj list \<Rightarrow> errorObj list" where
  "moved es = (case es of [] \<Rightarrow> [] | e # es' \<Rightarrow> e\<lparr>http_status := None\<rparr> # es')"

definition redacted :: "errorStack \<Rightarrow> errorStack" where
  "redacted l = l\<lparr>ehead := (ehead l)\<lparr>message := msRedactCredentials (message (ehead l))\<rparr>\<rparr>"

lemma redact_credentials_length: "length (msRedactCredentials s) \<le> length s"
  unfolding msRedactCredentials_def by (rule order_trans [OF redact_length redact_length])

lemma insert_store:
  assumes "stack_ok l" and "0 < errcode" "errcode < MS_NUMERRORCODES"
    and l': "l' = redacted (store_error errcode http msg rtn (msInsertErrorObj malloc_ok l))"
  shows "stack_ok l'" "new_error errcode http msg rtn (ehead l')"
    "errors l' = ehead l' # (if totalerrorcount l < 100 \<and> malloc_ok then moved (errors l) else tl (errors l))"
proof -
  have h: "obj_ok (ehead l)" using assms(1) by (simp add: stack_ok_def)
  then have cut: "strlcpy (routine (ehead l)) ROUTINELENGTH = routine (ehead l)"
      "strlcpy (message (ehead l)) MESSAGELENGTH = message (ehead l)"
    by (simp_all add: obj_ok_def strlcpy_def')
  note defs = l' redacted_def store_error_def msInsertErrorObj_def Let_def
  have len: "length (msRedactCredentials (take n m)) \<le> n" for n m
    using redact_credentials_length [of "take n m"] by simp
  show new: "new_error errcode http msg rtn (ehead l')"
    by (simp add: defs new_error_def strlcpy_def' split: option.split)
  have "obj_ok (ehead l')"
    using assms(2,3) new len [of "MESSAGELENGTH - 1" msg]
    by (auto simp: obj_ok_def new_error_def split: option.splits)
  moreover have "obj_ok \<lparr>code = code (ehead l), routine = routine (ehead l), message = message (ehead l),
      http_status = None, isreported = isreported (ehead l), errorcount = errorcount (ehead l)\<rparr>"
    using h by (simp add: obj_ok_def)
  ultimately show "stack_ok l'"
    using assms(1,2) cut unfolding stack_ok_def by (auto simp: defs)
  show "errors l' = ehead l' # (if totalerrorcount l < 100 \<and> malloc_ok then moved (errors l) else tl (errors l))"
    using assms(1,2) cut by (auto simp: defs errors_def moved_def stack_ok_def)
qed

text \<open>An error that repeats the newest one is counted.\<close>

lemma repeat_error:
  assumes "stack_ok l" and "code (ehead l) \<noteq> MS_NOERR"
    and l': "l' = redacted (l\<lparr>ehead := (ehead l)\<lparr>errorcount := errorcount (ehead l) + 1\<rparr>\<rparr>)"
  shows "stack_ok l'" "errors l' = ehead l' # tl (errors l)" "errorcount (ehead l') = errorcount (ehead l) + 1"
    "code (ehead l') = code (ehead l)"
proof -
  have "obj_ok (ehead l')"
    using assms(1) redact_credentials_length [of "message (ehead l)"] by (simp add: l' redacted_def stack_ok_def obj_ok_def)
  then show "stack_ok l'" using assms(1,2) by (simp add: stack_ok_def l' redacted_def)
  show "errors l' = ehead l' # tl (errors l)" "errorcount (ehead l') = errorcount (ehead l) + 1"
    "code (ehead l') = code (ehead l)"
    using assms(2) by (simp_all add: l' redacted_def errors_def)
qed

text \<open>The two ways in which \<open>msSetErrorInternal\<close> changes the stack of the thread.\<close>

definition after_error :: "bool \<Rightarrow> int \<Rightarrow> string option \<Rightarrow> string \<Rightarrow> string \<Rightarrow> errorStack \<Rightarrow> errorStack" where
  "after_error malloc_ok errcode http msg rtn l =
     redacted (if code (ehead l) \<noteq> errcode \<or> lower msg \<noteq> lower (message (ehead l)) \<or> lower rtn \<noteq> lower (routine (ehead l))
               then store_error errcode http msg (Some rtn) (msInsertErrorObj malloc_ok l)
               else l\<lparr>ehead := (ehead l)\<lparr>errorcount := errorcount (ehead l) + 1\<rparr>\<rparr>)"

lemma after_error_ok:
  assumes "stack_ok l" "0 < errcode" "errcode < MS_NUMERRORCODES"
  shows "stack_ok (after_error malloc_ok errcode http msg rtn l)"
    "code (ehead (after_error malloc_ok errcode http msg rtn l)) = errcode"
  using insert_store [OF assms refl, of http msg "Some rtn" malloc_ok] repeat_error [OF assms(1) _ refl] assms(2)
  by (auto simp: after_error_def new_error_def)

lemma msSetErrorInternal_eq:
  assumes "error_ok s" and "0 < errcode" "errcode < MS_NUMERRORCODES"
  shows "\<exists>s'. msSetErrorInternal malloc_ok stamp t errcode http msg (Some rtn) s = Some s' \<and> error_ok s' \<and>
    stacks s' = (stacks s)(t \<mapsto> after_error malloc_ok errcode http msg rtn (stack_of t s)) \<and>
    gIsWMS s' = gIsWMS s \<and>
    (let h = ehead (stack_of t s') in
     edebug s' = msDebug stamp t (routine h @ '': '' @ ms_errorCodes ! nat errcode @ '' '' @ message h @ [CHR 0x0A]) (edebug s))"
proof -
  obtain s1 where g: "msGetErrorObj t s = (stack_of t s, s1)" "error_ok s1" "edebug s1 = edebug s" "gIsWMS s1 = gIsWMS s"
      "error_list s1 = get_link new_stack t (error_list s)"
    using msGetErrorObj_eq [OF assms(1), of t] by metis
  let ?l = "stack_of t s"
  define l' where "l' = after_error malloc_ok errcode http msg rtn ?l"
  define s' where "s' = (set_stack l' s1)\<lparr>edebug := msDebug stamp t
      (routine (ehead l') @ '': '' @ ms_errorCodes ! nat errcode @ '' '' @ message (ehead l') @ [CHR 0x0A]) (edebug s1)\<rparr>"
  note ok = after_error_ok [OF stack_of_ok [OF assms(1)] assms(2,3), of malloc_ok http msg rtn t, folded l'_def]
  define dd where "dd \<longleftrightarrow> code (ehead ?l) \<noteq> errcode \<or> lower msg \<noteq> lower (message (ehead ?l)) \<or> lower rtn \<noteq> lower (routine (ehead ?l))"
  define l1 where "l1 = (if dd then store_error errcode http msg (Some rtn) (msInsertErrorObj malloc_ok ?l)
      else ?l\<lparr>ehead := (ehead ?l)\<lparr>errorcount := errorcount (ehead ?l) + 1\<rparr>\<rparr>)"
  have l1: "l' = redacted l1" by (simp only: l'_def after_error_def l1_def dd_def)
  have d: "differs errcode msg (Some rtn) (ehead ?l) = Some dd"
    by (auto simp: differs_def strcasecmp_eq_0 dd_def)
  have "code_name (code (ehead l1)) = Some (ms_errorCodes ! nat errcode)"
    using ok(2) assms(2,3) by (simp add: l1 redacted_def code_name_def)
  then have "msSetErrorInternal malloc_ok stamp t errcode http msg (Some rtn) s = Some s'"
    unfolding msSetErrorInternal_def g(1) prod.case d option.case l1_def [symmetric] Let_def
    by (simp add: s'_def l1 redacted_def)
  moreover have st: "stacks s' = (stacks s)(t \<mapsto> l')"
    using set_stack_eq(1) [OF assms(1) g(5), of l'] by (simp add: s'_def stacks_def)
  moreover have "stack_of t s' = l'" using st by (simp add: stack_of_def)
  moreover have "error_ok s'"
    unfolding error_ok_def st using ok(1) assms(1) set_stack_eq(2) [OF assms(1) g(5), of l'] msDebug_eq(1)
    by (auto simp: s'_def error_ok_def g(3))
  moreover have "gIsWMS s' = gIsWMS s" by (simp add: s'_def set_stack_def g(4))
  ultimately show ?thesis unfolding l'_def [symmetric] by (intro exI [of _ s']) (simp add: s'_def g(3) Let_def)
qed

lemma msResetErrorList_eq:
  assumes "error_ok s"
  shows "\<exists>s'. msResetErrorList t s = Some s' \<and> error_ok s' \<and> stacks s' = (stacks s)(t := None) \<and> edebug s' = edebug s"
proof -
  obtain s1 where g: "msGetErrorObj t s = (stack_of t s, s1)" "error_ok s1" "edebug s1 = edebug s"
      "error_list s1 = get_link new_stack t (error_list s)"
    using msGetErrorObj_eq [OF assms, of t] by metis
  let ?h = "(ehead (stack_of t s))\<lparr>code := MS_NOERR, isreported := False, routine := [], message := [], errorcount := 0\<rparr>"
  define s2 where "s2 = set_stack ((stack_of t s)\<lparr>enext := [], ehead := ?h, totalerrorcount := 0\<rparr>) s1"
  note p = set_stack_eq [OF assms g(4)]
  have ok: "links_ok (error_list s2)" using p(2) by (simp add: s2_def)
  have st: "stacks s2 u = (if u = t then stacks s2 t else stacks s u)" "stacks s2 t \<noteq> None" for u
    using p(1) by (simp_all add: s2_def)
  obtain ls where ls: "drop_link t (error_list s2) = Some ls" "links_ok ls"
    using links.drop_ok [OF ok, of t] st(2) by (auto simp: stacks_def)
  have m: "map_of ls = (stacks s)(t := None)"
  proof
    fix u
    show "map_of ls u = ((stacks s)(t := None)) u"
      using links.look_drop [OF ok ls(1), of u] st(1) [of u] by (simp add: stacks_def)
  qed
  have "msResetErrorList t s = Some (s2\<lparr>error_list := ls\<rparr>)"
    by (simp add: msResetErrorList_def g(1) s2_def [symmetric] Let_def ls(1))
  moreover have "edebug s2 = edebug s" by (simp add: s2_def set_stack_def g(3))
  ultimately show ?thesis using assms ls(2) m by (auto simp: error_ok_def stacks_def split: if_splits)
qed

text \<open>The line that reports one error, and the whole report.\<close>

definition display :: "errorObj \<Rightarrow> string" where
  "display e = routine e @ '': '' @ ms_errorCodes ! nat (code e) @ '' '' @ message e @
     (if errorcount e > 0 then '' (message repeated '' @ msIntToString (errorcount e) @ '' times)'' else [])"

fun join :: "string \<Rightarrow> string list \<Rightarrow> string" where
  "join d [] = []"
| "join d [x] = x"
| "join d (x # y # ys) = x @ d @ join d (y # ys)"

lemma error_strings_eq:
  "\<forall>e\<in>set es. obj_ok e \<and> code e \<noteq> MS_NOERR \<Longrightarrow>
   error_strings d acc es =
     Some (if es = [] then acc else Some ((case acc of None \<Rightarrow> [] | Some a \<Rightarrow> a) @ join d (map display es)))"
proof (induction es arbitrary: acc)
  case (Cons e es)
  have "msAddErrorDisplayString acc e = Some ((case acc of None \<Rightarrow> [] | Some a \<Rightarrow> a) @ display e)"
    using Cons.prems code_name_Some [of e] by (simp add: msAddErrorDisplayString_def display_def)
  then show ?case using Cons by (cases es) auto
qed simp

lemma errors_objs: "stack_ok l \<Longrightarrow> \<forall>e\<in>set (errors l). obj_ok e \<and> code e \<noteq> MS_NOERR"
  by (auto simp: stack_ok_def errors_def)

lemma error_strings_stack:
  assumes "stack_ok l"
  shows "error_strings d None (ehead l # enext l) =
           Some (if errors l = [] then None else Some (join d (map display (errors l))))"
proof (cases "code (ehead l) = MS_NOERR")
  case False
  then have e: "errors l = ehead l # enext l" by (simp add: errors_def)
  have "error_strings d None (errors l) = Some (if errors l = [] then None else Some (join d (map display (errors l))))"
    using error_strings_eq [OF errors_objs [OF assms], of d None] by simp
  then show ?thesis by (simp only: e)
qed (simp add: errors_def)

lemma msGetErrorString_eq:
  assumes "error_ok s"
  shows "\<exists>s'. msGetErrorString t (Some d) s =
      Some (if errors (stack_of t s) = [] then None else Some (join d (map display (errors (stack_of t s)))), s') \<and>
    error_ok s' \<and> stacks s' = (stacks s)(t \<mapsto> stack_of t s) \<and> edebug s' = edebug s"
proof -
  obtain s1 where "msGetErrorObj t s = (stack_of t s, s1)" "error_ok s1" "edebug s1 = edebug s"
      "stacks s1 = (stacks s)(t \<mapsto> stack_of t s)"
    using msGetErrorObj_eq [OF assms, of t] by metis
  then show ?thesis
    using error_strings_stack [OF stack_of_ok [OF assms, of t], of d] by (simp add: msGetErrorString_def)
qed

text \<open>Writing the errors marks each of them as reported and changes nothing else.\<close>

definition mark_reported :: "errorObj \<Rightarrow> errorObj" where
  "mark_reported e = e\<lparr>isreported := True\<rparr>"

lemma write_errors_eq:
  assumes "\<forall>e\<in>set es. obj_ok e \<and> code e \<noteq> MS_NOERR" and "\<And>e n. show_error e n = Some (f e n)"
  shows "write_errors show_error es =
    Some (concat (map (\<lambda>e. f e (ms_errorCodes ! nat (code e))) es), map mark_reported es)"
  using assms(1) by (induction es) (auto simp: assms(2) code_name_Some mark_reported_def)

lemma write_stack_eq:
  assumes "error_ok s" and "\<And>e n. show_error e n = Some (f e n)"
  shows "\<exists>s'. write_stack show_error t s =
      Some (concat (map (\<lambda>e. f e (ms_errorCodes ! nat (code e))) (errors (stack_of t s))), s') \<and>
    error_ok s' \<and> (\<forall>u. u \<noteq> t \<longrightarrow> stacks s' u = stacks s u) \<and> edebug s' = edebug s \<and>
    errors (stack_of t s') = map mark_reported (errors (stack_of t s))"
proof -
  obtain s1 where g: "msGetErrorObj t s = (stack_of t s, s1)" "error_ok s1" "edebug s1 = edebug s"
      "error_list s1 = get_link new_stack t (error_list s)"
    using msGetErrorObj_eq [OF assms(1), of t] by metis
  let ?l = "stack_of t s"
  have ok: "stack_ok ?l" by (rule stack_of_ok [OF assms(1)])
  define l' where "l' = (if code (ehead ?l) = MS_NOERR then ?l
      else ?l\<lparr>ehead := mark_reported (ehead ?l), enext := map mark_reported (enext ?l)\<rparr>)"
  have "write_errors show_error (errors ?l) =
      Some (concat (map (\<lambda>e. f e (ms_errorCodes ! nat (code e))) (errors ?l)), map mark_reported (errors ?l))"
    by (rule write_errors_eq [OF errors_objs [OF ok] assms(2)])
  then have w: "write_stack show_error t s =
      Some (concat (map (\<lambda>e. f e (ms_errorCodes ! nat (code e))) (errors ?l)), set_stack l' s1)"
    by (auto simp: write_stack_def g(1) errors_def l'_def simp del: write_errors.simps(2) split: if_splits)
       (simp_all add: stack_of_def)
  have m: "obj_ok (mark_reported e) = obj_ok e" "code (mark_reported e) = code e" for e
    by (simp_all add: mark_reported_def obj_ok_def)
  have "stack_ok l'" using ok by (auto simp: l'_def stack_ok_def m)
  moreover have "errors l' = map mark_reported (errors ?l)" by (simp add: l'_def errors_def m)
  ultimately show ?thesis
    using assms(1) w g(3) set_stack_eq [OF assms(1) g(4), of l']
    by (auto simp: error_ok_def stack_of_def set_stack_def stacks_def split: if_splits)
qed

section \<open>Threads that take turns\<close>

text \<open>
  One call by thread \<open>t\<close>. The callers in the sources pass an error code of the table other than
  \<open>MS_NOERR\<close> and name their routine.
\<close>

inductive error_step :: "nat \<Rightarrow> errorState \<Rightarrow> errorState \<Rightarrow> bool" where
  set_error: "0 < errcode \<Longrightarrow> errcode < MS_NUMERRORCODES \<Longrightarrow>
    msSetError malloc_ok stamp t errcode msg (Some rtn) s = Some s' \<Longrightarrow> error_step t s s'"
| set_status: "0 < errcode \<Longrightarrow> errcode < MS_NUMERRORCODES \<Longrightarrow>
    msSetErrorWithStatus test config malloc_ok stamp t errcode http msg (Some rtn) s = Some s' \<Longrightarrow> error_step t s s'"
| set_wms: "error_step t s (msSetErrorSetIsWMS t b s)"
| reset: "msResetErrorList t s = Some s' \<Longrightarrow> error_step t s s'"
| get_string: "msGetErrorString t (Some d) s = Some (r, s') \<Longrightarrow> error_step t s s'"
| write_html: "msWriteError t s = Some (out, s') \<Longrightarrow> error_step t s s'"
| write_xml: "msWriteErrorXML t s = Some (out, s') \<Longrightarrow> error_step t s s'"
| debug: "debug_step t (edebug s) w \<Longrightarrow> error_step t s (s\<lparr>edebug := w\<rparr>)"

inductive error_reach :: "errorState \<Rightarrow> bool" where
  start: "error_reach error_start"
| step: "error_reach s \<Longrightarrow> error_step t s s' \<Longrightarrow> error_reach s'"

lemma html_line_eq: "html_line e n = Some (routine e @ '': '' @ n @ '' '' @ message e @ '' <br>'' @ [CHR 0x0A])"
  by (simp add: html_line_def)

lemma xml_line_eq: "xml_line e n = Some (routine e @ '': '' @ n @ '' '' @ concat (map html_text (message e)) @ [CHR 0x0A])"
  by (simp add: xml_line_def encode_eq)

lemma error_step_frame:
  assumes "error_step t s s'" and "error_ok s"
  shows "error_ok s' \<and> (\<forall>u. u \<noteq> t \<longrightarrow> stacks s' u = stacks s u)"
proof -
  have internal: "error_ok s' \<and> (\<forall>u. u \<noteq> t \<longrightarrow> stacks s' u = stacks s u)"
    if "0 < c" "c < MS_NUMERRORCODES" "msSetErrorInternal malloc_ok stamp t c http msg (Some rtn) s = Some s'"
    for c malloc_ok stamp http msg rtn
    using msSetErrorInternal_eq [OF assms(2) that(1,2), of malloc_ok stamp t http msg rtn] that(3) by auto
  show ?thesis
    using assms
  proof cases
    case (set_error errcode malloc_ok stamp msg rtn)
    then show ?thesis using internal [OF set_error(1,2)] unfolding msSetError_def by blast
  next
    case (set_status errcode test config malloc_ok stamp http msg rtn)
    then show ?thesis using internal [OF set_status(1,2)] unfolding msSetErrorWithStatus_def Let_def by blast
  next
    case (set_wms b)
    then show ?thesis using assms(2) by (simp add: msSetErrorSetIsWMS_def error_ok_def stacks_def)
  next
    case reset
    then show ?thesis using msResetErrorList_eq [OF assms(2), of t] by auto
  next
    case (get_string d r)
    then show ?thesis using msGetErrorString_eq [OF assms(2), of t d] by auto
  next
    case (write_html out)
    then show ?thesis using write_stack_eq [where show_error = html_line and t = t, OF assms(2) html_line_eq] by (auto simp: msWriteError_def)
  next
    case (write_xml out)
    then show ?thesis using write_stack_eq [where show_error = xml_line and t = t, OF assms(2) xml_line_eq] by (auto simp: msWriteErrorXML_def)
  next
    case (debug w)
    then show ?thesis using debug_step_frame [OF debug(2)] assms(2) by (auto simp: error_ok_def stacks_def)
  qed
qed

lemma error_reach_ok: "error_reach s \<Longrightarrow> error_ok s"
  by (induction rule: error_reach.induct) (use error_start_ok error_step_frame in blast)+

section \<open>Properties\<close>



text \<open>
  The text of the error report is that of the errors of the calling thread, newest first, with
  the delimiter between any two of them; there is none if the thread has no error. Asking for it
  changes no error, and resetting the list removes the errors of the calling thread and no others;
  it never follows a null pointer.
\<close>

theorem error_report:
  assumes "error_reach s"
  shows "\<exists>s1 s2. msGetErrorString t (Some d) s =
        Some (if errors (stack_of t s) = [] then None else Some (join d (map display (errors (stack_of t s)))), s1) \<and>
      (\<forall>u. errors (stack_of u s1) = errors (stack_of u s)) \<and>
      msResetErrorList t s = Some s2 \<and> errors (stack_of t s2) = [] \<and>
      (\<forall>u. u \<noteq> t \<longrightarrow> stack_of u s2 = stack_of u s)"
proof -
  have ok: "error_ok s" by (rule error_reach_ok [OF assms])
  obtain s1 where s1: "msGetErrorString t (Some d) s =
        Some (if errors (stack_of t s) = [] then None else Some (join d (map display (errors (stack_of t s)))), s1)"
      "stacks s1 = (stacks s)(t \<mapsto> stack_of t s)"
    using msGetErrorString_eq [OF ok, of t d] by blast
  obtain s2 where s2: "msResetErrorList t s = Some s2" "stacks s2 = (stacks s)(t := None)"
    using msResetErrorList_eq [OF ok, of t] by blast
  have "stack_of u s1 = stack_of u s" for u using s1(2) by (simp add: stack_of_def)
  moreover have "errors (stack_of t s2) = []" "u \<noteq> t \<Longrightarrow> stack_of u s2 = stack_of u s" for u
    using s2(2) by (simp_all add: stack_of_def)
  ultimately show ?thesis using s1(1) s2(1) by metis
qed

theorem error_report_witness: "\<exists>s2. msResetErrorList 4 error_start = Some s2 \<and> errors (stack_of 4 s2) = []"
  using error_report [OF error_reach.start, of 4] by blast

text \<open>
  The comparison with the newest error uses its stored, redacted message: an error that carries a
  password is never found to repeat itself.
\<close>

lemma error_secret_not_counted:
  "map_option (\<lambda>s. length (errors (stack_of 1 s)))
     (Option.bind (msSetError True [] 1 12 (Some ''password=abc'') (Some ''f'') error_start)
        (msSetError True [] 1 12 (Some ''password=abc'') (Some ''f''))) = Some 2"
  by code_simp

end
