(* ===== verification/StringSplit.thy ===== *)
theory StringSplit
  imports StringEdit
begin

text \<open>
  The two splitters of \<open>mapstring.cpp\<close> that know quoted strings: \<open>msStringSplitComplex\<close>, with its
  flags and its growing token buffer, and \<open>msStringTokenize\<close>, which counts the tokens first and then
  writes them. The sizes of the buffers are kept: \<open>None\<close> is a write behind the end of one.
\<close>

section \<open>msStringSplitComplex\<close>

text \<open>The bits of \<open>nFlags\<close>.\<close>

record splitFlags =
  honour_strings :: bool
  allow_empty_tokens :: bool
  preserve_quotes :: bool
  preserve_escapes :: bool
  strip_lead_spaces :: bool
  strip_end_spaces :: bool

definition split_flags :: "nat \<Rightarrow> splitFlags" where
  "split_flags f =
     \<lparr>honour_strings = bit f 0, allow_empty_tokens = bit f 1, preserve_quotes = bit f 2,
      preserve_escapes = bit f 3, strip_lead_spaces = bit f 4, strip_end_spaces = bit f 5\<rparr>"

text \<open>\<open>pszToken[nTokenLen] = c; nTokenLen++;\<close> in a buffer of \<open>size\<close> bytes.\<close>

definition put_char :: "nat \<Rightarrow> char \<Rightarrow> string \<Rightarrow> string option" where
  "put_char siz c tok = (if length tok < siz then Some (tok @ [c]) else None)"

abbreviation (input) quote :: char where "quote \<equiv> CHR 0x22"
abbreviation (input) backslash :: char where "backslash \<equiv> CHR 0x5C"

text \<open>
  One character that is not an ending delimiter: the string behind it, whether the scan is within
  quotes and still at the start of the token, the token and the size of its buffer.
\<close>

record scanState =
  rest_str :: string
  bInString :: bool
  bStartString :: bool
  pszToken :: string
  nTokenMax :: nat

definition scan_quote :: "splitFlags \<Rightarrow> char \<Rightarrow> scanState \<Rightarrow> scanState option" where
  "scan_quote fl c st =
     (case (if preserve_quotes fl then put_char (nTokenMax st) c (pszToken st) else Some (pszToken st)) of
        None \<Rightarrow> None
      | Some tok \<Rightarrow> Some (st\<lparr>bInString := \<not> bInString st, pszToken := tok\<rparr>))"

definition scan_copy :: "splitFlags \<Rightarrow> char \<Rightarrow> scanState \<Rightarrow> scanState option" where
  "scan_copy fl c st =
     (if \<not> bInString st \<and> strip_lead_spaces fl \<and> bStartString st \<and> isspace c then Some st
      else (let siz = nTokenMax st; siz' = (if siz \<le> length (pszToken st) + 3 then siz * 2 + 10 else siz) in
            case put_char siz' c (pszToken st) of
              None \<Rightarrow> None
            | Some tok \<Rightarrow> Some (st\<lparr>bStartString := False, pszToken := tok, nTokenMax := siz'\<rparr>)))"

definition scan_char :: "splitFlags \<Rightarrow> char \<Rightarrow> scanState \<Rightarrow> scanState option" where
  "scan_char fl c st =
     (let s = rest_str st in
      if honour_strings fl \<and> c = quote then scan_quote fl c st
      else if bInString st \<and> c = backslash \<and> s \<noteq> [] \<and> (hd s = quote \<or> hd s = backslash) then
        (case (if preserve_escapes fl then put_char (nTokenMax st) c (pszToken st) else Some (pszToken st)) of
           None \<Rightarrow> None
         | Some tok \<Rightarrow> scan_copy fl (hd s) (st\<lparr>rest_str := tl s, pszToken := tok\<rparr>))
      else scan_copy fl c st)"

lemma scan_copy_rest: "scan_copy fl c st = Some st' \<Longrightarrow> rest_str st' = rest_str st"
  by (auto simp: scan_copy_def Let_def split: if_splits option.splits)

lemma scan_char_rest: "scan_char fl c st = Some st' \<Longrightarrow> length (rest_str st') \<le> length (rest_str st)"
  by (auto simp: scan_char_def scan_quote_def Let_def dest!: scan_copy_rest split: if_splits option.splits)

text \<open>The inner loop, up to the position behind the next delimiter.\<close>

function scan_token :: "splitFlags \<Rightarrow> string \<Rightarrow> scanState \<Rightarrow> scanState option" where
  "scan_token fl delims st =
     (case rest_str st of
        [] \<Rightarrow> Some st
      | c # s \<Rightarrow>
          if \<not> bInString st \<and> c \<in> set delims then Some (st\<lparr>rest_str := s\<rparr>)
          else case scan_char fl c (st\<lparr>rest_str := s\<rparr>) of None \<Rightarrow> None | Some st' \<Rightarrow> scan_token fl delims st')"
  by pat_completeness auto
termination
  by (relation "measure (\<lambda>(_, _, st). length (rest_str st))") (auto dest: scan_char_rest)

declare scan_token.simps [simp del]

lemma scan_token_rest:
  "scan_token fl delims st = Some st' \<Longrightarrow> length (rest_str st') \<le> length (rest_str st) - 1"
proof (induction fl delims st rule: scan_token.induct)
  case (1 fl delims st)
  show ?case
  proof (cases "rest_str st")
    case Nil
    then show ?thesis using 1(2) by (simp add: scan_token.simps)
  next
    case (Cons c s)
    show ?thesis
    proof (cases "\<not> bInString st \<and> c \<in> set delims")
      case True
      then show ?thesis using 1(2) Cons by (auto simp: scan_token.simps [of _ _ st])
    next
      case False
      then obtain st1 where st1: "scan_char fl c (st\<lparr>rest_str := s\<rparr>) = Some st1" "scan_token fl delims st1 = Some st'"
        using 1(2) Cons by (auto simp: scan_token.simps [of _ _ st] split: option.splits)
      then show ?thesis using 1(1) [OF Cons False st1] scan_char_rest [OF st1(1)] Cons by simp
    qed
  qed
qed

text \<open>Adding a token to the list, whose array grows and ends with a null pointer.\<close>

definition add_token :: "string \<Rightarrow> string list \<times> nat \<Rightarrow> (string list \<times> nat) option" where
  "add_token t st =
     (case st of (ret, siz) \<Rightarrow>
        let siz' = (if siz \<le> length ret + 1 then siz * 2 + 10 else siz) in
        if length ret + 1 < siz' then Some (ret @ [t], siz') else None)"

text \<open>The spaces at the end of a token.\<close>

fun strip_end :: "string \<Rightarrow> nat \<Rightarrow> string" where
  "strip_end tok 0 = []"
| "strip_end tok (Suc i) = (if isspace (tok ! i) then strip_end tok i else take (Suc i) tok)"

text \<open>One round of the outer loop: the next token, with its NUL, and the list it is added to.\<close>

definition next_token ::
  "splitFlags \<Rightarrow> string \<Rightarrow> string \<Rightarrow> nat \<Rightarrow> string list \<times> nat \<Rightarrow> (string \<times> nat \<times> string list \<times> nat) option" where
  "next_token fl delims s siz ret =
     (case scan_token fl delims \<lparr>rest_str = s, bInString = False, bStartString = True, pszToken = [], nTokenMax = siz\<rparr> of
        None \<Rightarrow> None
      | Some st \<Rightarrow>
          (let tok = (if \<not> bInString st \<and> strip_end_spaces fl then strip_end (pszToken st) (length (pszToken st))
                      else pszToken st) in
           if length tok < nTokenMax st then
             (if tok \<noteq> [] \<or> allow_empty_tokens fl
              then map_option (\<lambda>ret'. (rest_str st, nTokenMax st, ret')) (add_token tok ret)
              else Some (rest_str st, nTokenMax st, ret))
           else None))"

lemma next_token_rest: "next_token fl delims s siz ret = Some (s', siz', ret') \<Longrightarrow> length s' \<le> length s - 1"
  by (auto simp: next_token_def Let_def dest!: scan_token_rest split: option.splits if_splits)

function split_tokens :: "splitFlags \<Rightarrow> string \<Rightarrow> string \<Rightarrow> nat \<Rightarrow> string list \<times> nat \<Rightarrow> (string list \<times> nat) option" where
  "split_tokens fl delims s siz ret =
     (if s = [] then Some ret
      else case next_token fl delims s siz ret of
             None \<Rightarrow> None
           | Some (s', siz', ret') \<Rightarrow> split_tokens fl delims s' siz' ret')"
  by pat_completeness auto
termination
  by (relation "measure (\<lambda>(_, _, s, _, _). length s)") (auto dest: next_token_rest simp: neq_Nil_conv)

declare split_tokens.simps [simp del]

definition msStringSplitComplex :: "string option \<Rightarrow> string \<Rightarrow> splitFlags \<Rightarrow> string list option" where
  "msStringSplitComplex str delims fl =
     (case str of
        None \<Rightarrow> Some []
      | Some s \<Rightarrow>
          (case split_tokens fl delims s 10 ([], 0) of
             None \<Rightarrow> None
           | Some ret \<Rightarrow>
               if allow_empty_tokens fl \<and> fst ret \<noteq> [] \<and> last s \<in> set delims
               then map_option fst (add_token [] ret) else Some (fst ret)))"

section \<open>The buffers of msStringSplitComplex\<close>

text \<open>At the start of every round of the inner loop three bytes are free.\<close>

definition room :: "nat \<Rightarrow> scanState \<Rightarrow> bool" where
  "room k st \<longleftrightarrow> 10 \<le> nTokenMax st \<and> length (pszToken st) + k \<le> nTokenMax st"

lemma scan_copy_room:
  assumes "room 2 st" and "bInString st \<or> room 3 st"
  shows "\<exists>st'. scan_copy fl c st = Some st' \<and> room 3 st' \<and> bInString st' = bInString st"
  using assms by (auto simp: scan_copy_def put_char_def room_def Let_def)

lemma scan_char_room:
  assumes "room 3 st" and safe: "\<not> (honour_strings fl \<and> preserve_quotes fl)"
  shows "\<exists>st'. scan_char fl c st = Some st' \<and> room 3 st'"
proof -
  let ?s = "rest_str st"
  consider (q) "honour_strings fl \<and> c = quote"
    | (esc) "\<not> (honour_strings fl \<and> c = quote)" "bInString st \<and> c = backslash \<and> ?s \<noteq> [] \<and> (hd ?s = quote \<or> hd ?s = backslash)"
    | (other) "\<not> (honour_strings fl \<and> c = quote)" "\<not> (bInString st \<and> c = backslash \<and> ?s \<noteq> [] \<and> (hd ?s = quote \<or> hd ?s = backslash))"
    by blast
  then show ?thesis
  proof cases
    case q
    then show ?thesis using safe assms(1) by (auto simp: scan_char_def scan_quote_def room_def)
  next
    case esc
    define tok where "tok = (if preserve_escapes fl then pszToken st @ [c] else pszToken st)"
    let ?st = "st\<lparr>rest_str := tl ?s, pszToken := tok\<rparr>"
    have "(if preserve_escapes fl then put_char (nTokenMax st) c (pszToken st) else Some (pszToken st)) = Some tok"
      using assms(1) by (simp add: put_char_def room_def tok_def)
    then have "scan_char fl c st = scan_copy fl (hd ?s) ?st" using esc by (auto simp: scan_char_def Let_def)
    moreover have "room 2 ?st" "bInString ?st" using assms(1) esc by (auto simp: room_def tok_def)
    ultimately show ?thesis using scan_copy_room [of ?st fl "hd ?s"] by metis
  next
    case other
    then have "scan_char fl c st = scan_copy fl c st" unfolding scan_char_def Let_def by auto
    then show ?thesis using scan_copy_room [of st fl c] assms(1) by (auto simp: room_def)
  qed
qed

lemma scan_token_room:
  assumes "\<not> (honour_strings fl \<and> preserve_quotes fl)"
  shows "room 3 st \<Longrightarrow> \<exists>st'. scan_token fl delims st = Some st' \<and> room 3 st'"
proof (induction "length (rest_str st)" arbitrary: st rule: less_induct)
  case less
  show ?case
  proof (cases "rest_str st")
    case Nil
    then show ?thesis using less.prems by (simp add: scan_token.simps [of _ _ st])
  next
    case (Cons c s)
    let ?st = "st\<lparr>rest_str := s\<rparr>"
    have r: "room 3 ?st" using less.prems by (simp add: room_def)
    show ?thesis
    proof (cases "\<not> bInString st \<and> c \<in> set delims")
      case True
      then show ?thesis using r Cons by (simp add: scan_token.simps [of _ _ st])
    next
      case False
      obtain st1 where st1: "scan_char fl c ?st = Some st1" "room 3 st1" using scan_char_room [OF r assms] by blast
      then have "scan_token fl delims st = scan_token fl delims st1" using False Cons by (auto simp: scan_token.simps [of _ _ st])
      moreover have "length (rest_str st1) < length (rest_str st)" using scan_char_rest [OF st1(1)] Cons by simp
      ultimately show ?thesis using less.hyps st1(2) by metis
    qed
  qed
qed

lemma strip_end_length: "n \<le> length tok \<Longrightarrow> length (strip_end tok n) \<le> n"
  by (induction n) auto

definition list_room :: "string list \<times> nat \<Rightarrow> bool" where
  "list_room st \<longleftrightarrow> fst st = [] \<or> length (fst st) + 1 \<le> snd st"

lemma add_token_room: "list_room st \<Longrightarrow> \<exists>m. add_token t st = Some (fst st @ [t], m) \<and> list_room (fst st @ [t], m)"
  by (cases st) (auto simp: add_token_def list_room_def Let_def)

lemma next_token_room:
  assumes "\<not> (honour_strings fl \<and> preserve_quotes fl)" and "10 \<le> siz" and "list_room ret"
  shows "\<exists>s' siz' ret'. next_token fl delims s siz ret = Some (s', siz', ret') \<and> 10 \<le> siz' \<and> list_room ret'"
proof -
  obtain st where st: "scan_token fl delims \<lparr>rest_str = s, bInString = False, bStartString = True, pszToken = [], nTokenMax = siz\<rparr> = Some st" "room 3 st"
    using scan_token_room [OF assms(1)] assms(2) by (force simp: room_def)
  define tok where "tok = (if \<not> bInString st \<and> strip_end_spaces fl then strip_end (pszToken st) (length (pszToken st)) else pszToken st)"
  have "length (strip_end (pszToken st) (length (pszToken st))) \<le> length (pszToken st)" by (rule strip_end_length) simp
  then have "length tok < nTokenMax st" using st(2) by (simp add: tok_def room_def)
  then have "next_token fl delims s siz ret =
      (if tok \<noteq> [] \<or> allow_empty_tokens fl then map_option (\<lambda>ret'. (rest_str st, nTokenMax st, ret')) (add_token tok ret)
       else Some (rest_str st, nTokenMax st, ret))"
    unfolding next_token_def st(1) option.case tok_def [symmetric] Let_def by simp
  moreover have "10 \<le> nTokenMax st" using st(2) by (simp add: room_def)
  ultimately show ?thesis using assms(3) add_token_room [OF assms(3), of tok] by (cases ret) (auto split: if_splits)
qed

lemma split_tokens_room:
  assumes "\<not> (honour_strings fl \<and> preserve_quotes fl)"
  shows "10 \<le> siz \<Longrightarrow> list_room ret \<Longrightarrow> \<exists>ret'. split_tokens fl delims s siz ret = Some ret' \<and> list_room ret'"
proof (induction "length s" arbitrary: s siz ret rule: less_induct)
  case less
  show ?case
  proof (cases "s = []")
    case False
    obtain s' siz' ret' where n: "next_token fl delims s siz ret = Some (s', siz', ret')" "10 \<le> siz'" "list_room ret'"
      using next_token_room [OF assms less.prems] by blast
    then have "length s' < length s" using next_token_rest [OF n(1)] False by (cases s) auto
    then show ?thesis using less.hyps [OF _ n(2,3)] n(1) False by (simp add: split_tokens.simps [of _ _ s])
  qed (use less.prems in \<open>simp add: split_tokens.simps\<close>)
qed

text \<open>
  C28. \<open>msStringSplitComplex\<close> never writes behind its token buffer or its list, unless it is to honour
  quoted strings and preserve their quotes. With these two flags eleven quotes in a row are enough
  to write behind the buffer: the quotes are stored without the test that grows it.
\<close>

theorem split_complex_buffers:
  "(\<not> (honour_strings fl \<and> preserve_quotes fl) \<longrightarrow> (\<exists>toks. msStringSplitComplex str delims fl = Some toks)) \<and>
   msStringSplitComplex (Some (replicate 11 quote)) '','' (split_flags 5) = None"
proof -
  have "\<exists>toks. msStringSplitComplex (Some s) delims fl = Some toks" if safe: "\<not> (honour_strings fl \<and> preserve_quotes fl)" for s
  proof -
    obtain ret where r: "split_tokens fl delims s 10 ([], 0) = Some ret" "list_room ret"
      using split_tokens_room [OF safe, of 10 "([], 0)" delims s] by (auto simp: list_room_def)
    then show ?thesis using add_token_room [OF r(2), of "[]"] by (auto simp: msStringSplitComplex_def)
  qed
  moreover have "msStringSplitComplex (Some (replicate 11 quote)) '','' (split_flags 5) = None" by code_simp
  ultimately show ?thesis by (cases str) (auto simp: msStringSplitComplex_def)
qed

theorem split_complex_buffers_witness:
  "\<exists>toks. msStringSplitComplex (Some ''a,b'') '','' (split_flags 3) = Some toks"
proof -
  have "\<not> (honour_strings (split_flags 3) \<and> preserve_quotes (split_flags 3))" by code_simp
  then show ?thesis using split_complex_buffers [of "split_flags 3" "Some ''a,b''" "'',''"] by blast
qed

section \<open>Plain splitting with empty tokens\<close>

definition plain :: "splitFlags \<Rightarrow> bool" where
  "plain fl \<longleftrightarrow> \<not> honour_strings fl \<and> \<not> strip_lead_spaces fl \<and> \<not> strip_end_spaces fl \<and> allow_empty_tokens fl"

lemma scan_token_plain:
  assumes "plain fl"
  shows "room 3 st \<Longrightarrow> \<not> bInString st \<Longrightarrow> \<exists>st'. scan_token fl delims st = Some st' \<and> 10 \<le> nTokenMax st' \<and>
     \<not> bInString st' \<and> pszToken st' = pszToken st @ takeWhile (\<lambda>c. c \<notin> set delims) (rest_str st) \<and>
     rest_str st' = drop 1 (dropWhile (\<lambda>c. c \<notin> set delims) (rest_str st)) \<and> length (pszToken st') < nTokenMax st'"
proof (induction "rest_str st" arbitrary: st)
  case Nil
  then show ?case by (simp add: scan_token.simps [of _ _ st] room_def)
next
  case (Cons c s)
  let ?st = "st\<lparr>rest_str := s\<rparr>"
  show ?case
  proof (cases "c \<in> set delims")
    case True
    then show ?thesis using Cons(2)[symmetric] Cons(3,4) by (simp add: scan_token.simps [of _ _ st] room_def)
  next
    case False
    have "scan_char fl c ?st = scan_copy fl c ?st"
      using assms Cons.prems(2) by (auto simp: scan_char_def plain_def Let_def)
    moreover define siz where "siz = (if nTokenMax st \<le> length (pszToken st) + 3 then nTokenMax st * 2 + 10 else nTokenMax st)"
    define st1 where "st1 = ?st\<lparr>bStartString := False, pszToken := pszToken st @ [c], nTokenMax := siz\<rparr>"
    have "length (pszToken st) + 4 \<le> siz" "10 \<le> siz" using Cons.prems(1) by (auto simp: siz_def room_def)
    then have st1: "scan_copy fl c ?st = Some st1" "room 3 st1" "bInString st1 = bInString st"
        "pszToken st1 = pszToken st @ [c]" "rest_str st1 = s"
      using assms unfolding scan_copy_def siz_def [symmetric]
      by (simp_all add: put_char_def room_def plain_def Let_def st1_def siz_def [symmetric])
    ultimately have "scan_token fl delims st = scan_token fl delims st1"
      using False Cons(2) [symmetric] Cons.prems(2) by (simp add: scan_token.simps [of _ _ st])
    then show ?thesis using Cons(1) [of st1] st1 Cons.prems(2) False Cons(2) [symmetric] by simp
  qed
qed

text \<open>The text between delimiters, as the rounds of the outer loop see it.\<close>

function fields :: "string \<Rightarrow> string \<Rightarrow> string list" where
  "fields delims s =
     (if s = [] then []
      else takeWhile (\<lambda>c. c \<notin> set delims) s # fields delims (drop 1 (dropWhile (\<lambda>c. c \<notin> set delims) s)))"
  by pat_completeness auto
termination
proof (relation "measure (length \<circ> snd)", goal_cases)
  case (2 delims s)
  have "length (drop 1 (dropWhile (\<lambda>c. c \<notin> set delims) s)) \<le> length s - 1"
    using length_dropWhile_le [of "\<lambda>c. c \<notin> set delims" s] by simp
  then show ?case using 2 by (cases s) auto
qed simp

declare fields.simps [simp del]

lemma split_tokens_plain:
  assumes "plain fl"
  shows "10 \<le> siz \<Longrightarrow> list_room ret \<Longrightarrow>
    \<exists>m. split_tokens fl delims s siz ret = Some (fst ret @ fields delims s, m) \<and> list_room (fst ret @ fields delims s, m)"
proof (induction "length s" arbitrary: s siz ret rule: less_induct)
  case less
  show ?case
  proof (cases "s = []")
    case True
    then show ?thesis using less.prems by (intro exI [of _ "snd ret"]) (simp add: split_tokens.simps fields.simps)
  next
    case False
    let ?st = "\<lparr>rest_str = s, bInString = False, bStartString = True, pszToken = [], nTokenMax = siz\<rparr>"
    let ?t = "takeWhile (\<lambda>c. c \<notin> set delims) s" and ?r = "drop 1 (dropWhile (\<lambda>c. c \<notin> set delims) s)"
    have "room 3 ?st" "\<not> bInString ?st" using less.prems(1) by (simp_all add: room_def)
    from scan_token_plain [OF assms this, of delims] obtain st' where st': "scan_token fl delims ?st = Some st'"
        "10 \<le> nTokenMax st'" "\<not> bInString st'" "pszToken st' = ?t" "rest_str st' = ?r" "length (pszToken st') < nTokenMax st'"
      by auto
    obtain m where m: "add_token ?t ret = Some (fst ret @ [?t], m)" "list_room (fst ret @ [?t], m)"
      using add_token_room [OF less.prems(2)] by blast
    have n: "next_token fl delims s siz ret = Some (?r, nTokenMax st', fst ret @ [?t], m)"
      using st' m(1) assms by (simp add: next_token_def plain_def Let_def)
    have "length ?r < length s" using next_token_rest [OF n] False by (cases s) auto
    from less.hyps [OF this st'(2) m(2)] show ?thesis
      using n False by (simp add: split_tokens.simps [of _ _ s] fields.simps [of _ s])
  qed
qed

lemma join_fields:
  "s \<noteq> [] \<Longrightarrow> join_with [d] (fields [d] s @ (if last s = d then [[]] else [])) = s"
proof (induction "[d]" s rule: fields.induct)
  case (1 s)
  let ?t = "takeWhile (\<lambda>c. c \<noteq> d) s" and ?r = "dropWhile (\<lambda>c. c \<noteq> d) s"
  have f: "fields [d] s = ?t # fields [d] (drop 1 ?r)" using 1(2) by (simp add: fields.simps [of _ s])
  show ?case
  proof (cases ?r)
    case Nil
    then have "\<forall>c\<in>set s. c \<noteq> d" by (simp add: dropWhile_eq_Nil_conv)
    then have "last s \<noteq> d" "?t = s" using 1(2) last_in_set [of s] by (auto simp: takeWhile_eq_all_conv)
    then show ?thesis using f Nil by (simp add: fields.simps [of _ "[]"])
  next
    case (Cons e r)
    have e: "e = d" using Cons hd_dropWhile [of "\<lambda>c. c \<noteq> d" s] by simp
    have s: "s = ?t @ d # r" using Cons e takeWhile_dropWhile_id [of "\<lambda>c. c \<noteq> d" s] by metis
    show ?thesis
    proof (cases "r = []")
      case True
      then have "last s = d" using s by (metis last_snoc)
      then show ?thesis using f Cons True s by (simp add: fields.simps [of _ "[]"])
    next
      case False
      have l: "last s = last r" using s False by (metis last_ConsR last_appendR list.distinct(1))
      have ne: "fields [d] r \<noteq> []" using False by (simp add: fields.simps [of _ r])
      have "join_with [d] (fields [d] r @ (if last r = d then [[]] else [])) = r"
        using 1(1) 1(2) False Cons by simp
      then have "join_with [d] (?t # fields [d] r @ (if last r = d then [[]] else [])) = ?t @ d # r"
        using ne by (cases "fields [d] r @ (if last r = d then [[]] else [])") auto
      then show ?thesis using f Cons l s by simp
    qed
  qed
qed

text \<open>
  Without quotes and stripping, and with empty tokens allowed, splitting at one character loses
  nothing: joining the tokens with that character gives back the string, the empty tokens between
  two delimiters and at either end included, and no token contains it.
\<close>

theorem split_complex_lossless:
  assumes "plain fl" and "s \<noteq> []"
  shows "\<exists>toks. msStringSplitComplex (Some s) [d] fl = Some toks \<and> join_with [d] toks = s \<and> (\<forall>t\<in>set toks. d \<notin> set t)"
proof -
  let ?toks = "fields [d] s @ (if last s = d then [[]] else [])"
  obtain m where m: "split_tokens fl [d] s 10 ([], 0) = Some (fields [d] s, m)" "list_room (fields [d] s, m)"
    using split_tokens_plain [OF assms(1), of 10 "([], 0)" "[d]" s] by (auto simp: list_room_def)
  have ne: "fields [d] s \<noteq> []" using assms(2) by (simp add: fields.simps [of _ s])
  have "msStringSplitComplex (Some s) [d] fl = Some ?toks"
    using m ne assms(1) add_token_room [OF m(2), of "[]"] by (auto simp: msStringSplitComplex_def plain_def)
  moreover have "\<forall>t\<in>set (fields [d] u). d \<notin> set t" for u
  proof (induction "[d]" u rule: fields.induct)
    case (1 u)
    then show ?case by (auto simp: fields.simps [of _ u] dest: set_takeWhileD split: if_splits)
  qed
  ultimately show ?thesis using join_fields [OF assms(2), of d] by auto
qed

theorem split_complex_lossless_witness:
  "\<exists>toks. msStringSplitComplex (Some ''a,,b,'') '','' (split_flags 2) = Some toks \<and> join_with '','' toks = ''a,,b,''"
proof -
  have "plain (split_flags 2)" by code_simp
  from split_complex_lossless [OF this, of "''a,,b,''" "CHR '',''"] show ?thesis by auto
qed

section \<open>msStringTokenize\<close>

text \<open>
  Both loops look at the character at \<open>iChar\<close> in the same way. \<open>Stuck\<close> is the step of an empty
  delimiter, after which the loop is where it was.
\<close>

datatype tok_event = Doubled | Toggle | Delimiter | Ordinary | Stuck

definition tok_event :: "string \<Rightarrow> bool \<Rightarrow> char \<Rightarrow> string \<Rightarrow> tok_event" where
  "tok_event d inQ c s =
     (if inQ \<and> c = quote \<and> s \<noteq> [] \<and> hd s = quote then Doubled
      else if c = quote then Toggle
      else if \<not> inQ \<and> take (length d) (c # s) = d then (if d = [] then Stuck else Delimiter)
      else Ordinary)"

text \<open>How many characters an event consumes behind the first.\<close>

definition tok_skip :: "string \<Rightarrow> tok_event \<Rightarrow> nat" where
  "tok_skip d e = (case e of Doubled \<Rightarrow> 1 | Delimiter \<Rightarrow> length d - 1 | _ \<Rightarrow> 0)"

function tokenize_count :: "string \<Rightarrow> bool \<Rightarrow> string \<Rightarrow> nat \<Rightarrow> nat option" where
  "tokenize_count d inQ [] n = Some n"
| "tokenize_count d inQ (c # s) n =
     (let e = tok_event d inQ c s; s' = drop (tok_skip d e) s in
      case e of
        Stuck \<Rightarrow> None
      | Toggle \<Rightarrow> tokenize_count d (\<not> inQ) s' n
      | Delimiter \<Rightarrow> tokenize_count d inQ s' (n + 1)
      | _ \<Rightarrow> tokenize_count d inQ s' n)"
  by pat_completeness auto
termination
  by (relation "measure (\<lambda>(_, _, s, _). length s)") auto

text \<open>
  The second loop: the tokens stored so far, of \<open>n\<close>, and the one being written, in \<open>siz\<close> bytes.
\<close>

definition put_quotes :: "nat \<Rightarrow> bool \<Rightarrow> bool \<Rightarrow> string \<Rightarrow> string option" where
  "put_quotes siz keep inner tok =
     (case (if keep then put_char siz quote tok else Some tok) of
        None \<Rightarrow> None
      | Some t \<Rightarrow> if inner then put_char siz quote t else Some t)"

function tokenize_fill :: "bool \<Rightarrow> string \<Rightarrow> nat \<Rightarrow> nat \<Rightarrow> bool \<Rightarrow> string \<Rightarrow> string list \<Rightarrow> string \<Rightarrow> string list option" where
  "tokenize_fill keep d n siz inQ [] toks tok =
     (if length tok < siz \<and> length toks < n then Some (toks @ [tok]) else None)"
| "tokenize_fill keep d n siz inQ (c # s) toks tok =
     (let e = tok_event d inQ c s; s' = drop (tok_skip d e) s in
      case e of
        Stuck \<Rightarrow> None
      | Doubled \<Rightarrow> (case put_quotes siz keep True tok of None \<Rightarrow> None | Some t \<Rightarrow> tokenize_fill keep d n siz inQ s' toks t)
      | Toggle \<Rightarrow> (case put_quotes siz keep False tok of None \<Rightarrow> None | Some t \<Rightarrow> tokenize_fill keep d n siz (\<not> inQ) s' toks t)
      | Delimiter \<Rightarrow>
          if length tok < siz \<and> length toks < n then tokenize_fill keep d n siz inQ s' (toks @ [tok]) [] else None
      | Ordinary \<Rightarrow> (case put_char siz c tok of None \<Rightarrow> None | Some t \<Rightarrow> tokenize_fill keep d n siz inQ s' toks t))"
  by pat_completeness auto
termination
  by (relation "measure (\<lambda>(_, _, _, _, _, s, _, _). length s)") auto

declare tokenize_count.simps [simp del] tokenize_fill.simps [simp del]

definition msStringTokenize :: "string \<Rightarrow> string \<Rightarrow> bool \<Rightarrow> string list option" where
  "msStringTokenize line d keep =
     (case tokenize_count d False line 1 of
        None \<Rightarrow> None
      | Some n \<Rightarrow> tokenize_fill keep d n (length line + 1) False line [] [])"

text \<open>What the loops do, without the sizes.\<close>

function tokens :: "bool \<Rightarrow> string \<Rightarrow> bool \<Rightarrow> string \<Rightarrow> string \<Rightarrow> string list" where
  "tokens keep d inQ [] tok = [tok]"
| "tokens keep d inQ (c # s) tok =
     (let e = tok_event d inQ c s; s' = drop (tok_skip d e) s in
      case e of
        Doubled \<Rightarrow> tokens keep d inQ s' (tok @ (if keep then [quote, quote] else [quote]))
      | Toggle \<Rightarrow> tokens keep d (\<not> inQ) s' (tok @ (if keep then [quote] else []))
      | Delimiter \<Rightarrow> tok # tokens keep d inQ s' []
      | _ \<Rightarrow> tokens keep d inQ s' (tok @ [c]))"
  by pat_completeness auto
termination
  by (relation "measure (\<lambda>(_, _, _, s, _). length s)") auto

declare tokens.simps [simp del]

lemma tok_event_Stuck: "d \<noteq> [] \<Longrightarrow> tok_event d inQ c s \<noteq> Stuck"
  by (simp add: tok_event_def)

lemma tokenize_count_eq:
  "d \<noteq> [] \<Longrightarrow> tokenize_count d inQ s n = Some (n + length (tokens keep d inQ s tok) - 1) \<and> 1 \<le> length (tokens keep d inQ s tok)"
proof (induction keep d inQ s tok arbitrary: n rule: tokens.induct)
  case (1 keep d inQ tok)
  then show ?case by (simp add: tokenize_count.simps tokens.simps)
next
  case (2 keep d inQ c s tok)
  let ?e = "tok_event d inQ c s"
  show ?case
  proof (cases ?e)
    case Stuck
    then show ?thesis using tok_event_Stuck [OF 2(6)] by simp
  next
    case Doubled
    show ?thesis using 2(1) [OF refl refl Doubled 2(6), of n] Doubled by (simp add: tokenize_count.simps tokens.simps(2) Let_def)
  next
    case Toggle
    show ?thesis using 2(2) [OF refl refl Toggle 2(6), of n] Toggle by (simp add: tokenize_count.simps tokens.simps(2) Let_def)
  next
    case Delimiter
    show ?thesis using 2(3) [OF refl refl Delimiter 2(6), of "n + 1"] Delimiter by (simp add: tokenize_count.simps tokens.simps(2) Let_def)
  next
    case Ordinary
    show ?thesis using 2(4) [OF refl refl Ordinary 2(6), of n] Ordinary by (simp add: tokenize_count.simps tokens.simps(2) Let_def)
  qed
qed

lemma tokenize_fill_eq:
  "d \<noteq> [] \<Longrightarrow> length tok + length s < siz \<Longrightarrow> length toks + length (tokens keep d inQ s tok) \<le> n \<Longrightarrow>
   tokenize_fill keep d n siz inQ s toks tok = Some (toks @ tokens keep d inQ s tok)"
proof (induction keep d inQ s tok arbitrary: toks rule: tokens.induct)
  case (1 keep d inQ tok)
  then show ?case by (simp add: tokenize_fill.simps tokens.simps)
next
  case (2 keep d inQ c s tok)
  let ?e = "tok_event d inQ c s"
  note steps = tokenize_fill.simps(2) tokens.simps(2) Let_def put_quotes_def put_char_def
  show ?case
  proof (cases ?e)
    case Stuck
    then show ?thesis using tok_event_Stuck [OF 2(6)] by simp
  next
    case Doubled
    then have "s \<noteq> []" by (auto simp: tok_event_def split: if_splits)
    then obtain a s2 where s: "s = a # s2" by (cases s) auto
    have "tokens keep d inQ (c # s) tok = tokens keep d inQ (drop 1 s) (tok @ (if keep then [quote, quote] else [quote]))"
      using Doubled by (simp add: tokens.simps(2) tok_skip_def)
    then show ?thesis using 2(1) [OF refl refl Doubled 2(6), of toks] 2(7,8) Doubled
      by (cases keep) (simp_all add: tokenize_fill.simps(2) put_quotes_def put_char_def tok_skip_def s)
  next
    case Toggle
    show ?thesis using 2(2) [OF refl refl Toggle 2(6), of toks] 2(7,8) Toggle by (auto simp: steps tok_skip_def)
  next
    case Delimiter
    have "1 \<le> length (tokens keep d inQ (drop (tok_skip d ?e) s) [])" using tokenize_count_eq [OF 2(6)] by blast
    then show ?thesis using 2(3) [OF refl refl Delimiter 2(6), of "toks @ [tok]"] 2(7,8) Delimiter by (auto simp: steps)
  next
    case Ordinary
    show ?thesis using 2(4) [OF refl refl Ordinary 2(6), of toks] 2(7,8) Ordinary by (auto simp: steps tok_skip_def)
  qed
qed

lemma msStringTokenize_eq: "d \<noteq> [] \<Longrightarrow> msStringTokenize line d keep = Some (tokens keep d False line [])"
proof -
  assume d: "d \<noteq> []"
  let ?t = "tokens keep d False line []"
  have c: "tokenize_count d False line 1 = Some (length ?t)"
    using tokenize_count_eq [OF d, of False line 1 keep "[]"] by simp
  show ?thesis using tokenize_fill_eq [OF d, of "[]" line "length line + 1" "[]" keep False "length ?t"]
    unfolding msStringTokenize_def c option.case by simp
qed

text \<open>A token in quotes, with the quotes in it doubled.\<close>

definition enquote :: "string \<Rightarrow> string" where
  "enquote t = quote # concat (map (\<lambda>c. if c = quote then [quote, quote] else [c]) t) @ [quote]"

lemma tokens_quoted:
  assumes "r = [] \<or> hd r \<noteq> quote"
  shows "tokens False d True (concat (map (\<lambda>c. if c = quote then [quote, quote] else [c]) t) @ quote # r) tok =
           tokens False d False r (tok @ t)"
proof (induction t arbitrary: tok)
  case Nil
  have "tok_event d True quote r = Toggle" using assms by (auto simp: tok_event_def)
  then show ?case by (simp add: tokens.simps(2) tok_skip_def)
next
  case (Cons c t)
  let ?r = "concat (map (\<lambda>c. if c = quote then [quote, quote] else [c]) t) @ quote # r"
  show ?case
  proof (cases "c = quote")
    case True
    have "tok_event d True quote (quote # ?r) = Doubled" by (simp add: tok_event_def)
    then have "tokens False d True (quote # quote # ?r) tok = tokens False d True ?r (tok @ [quote])"
      by (simp add: tokens.simps(2) tok_skip_def)
    then show ?thesis using True Cons.IH by simp
  next
    case False
    then have "tok_event d True c ?r = Ordinary" by (simp add: tok_event_def)
    then have "tokens False d True (c # ?r) tok = tokens False d True ?r (tok @ [c])"
      by (simp add: tokens.simps(2) tok_skip_def)
    then show ?thesis using False Cons.IH by simp
  qed
qed

lemma tokens_delim:
  assumes "d \<noteq> []" and "hd d \<noteq> quote"
  shows "tokens keep d False (d @ r) tok = tok # tokens keep d False r []"
proof -
  obtain c d' where d: "d = c # d'" using assms(1) by (cases d) auto
  have "tok_event d False c (d' @ r) = Delimiter" using assms d by (auto simp: tok_event_def)
  then show ?thesis unfolding d by (simp add: tokens.simps(2) tok_skip_def)
qed

lemma tokens_enquote:
  assumes "d \<noteq> []" and "hd d \<noteq> quote"
  shows "ts \<noteq> [] \<Longrightarrow> tokens False d False (join_with d (map enquote ts)) [] = ts"
proof (induction ts)
  case (Cons t ts)
  define r where "r = (if ts = [] then [] else d @ join_with d (map enquote ts))"
  have j: "join_with d (map enquote (t # ts)) = enquote t @ r" by (cases ts) (simp_all add: r_def)
  have "r = [] \<or> hd r \<noteq> quote" using assms by (cases d) (auto simp: r_def)
  then have "tokens False d False (enquote t @ r) [] = tokens False d False r t"
    using tokens_quoted [of r d t "[]"] by (simp add: enquote_def tokens.simps(2) tok_event_def tok_skip_def)
  moreover have "tokens False d False r t = t # ts"
    using Cons tokens_delim [OF assms] by (auto simp: r_def tokens.simps(1))
  ultimately show ?case using j by simp
qed simp

text \<open>
  With a delimiter that is not empty \<open>msStringTokenize\<close> ends and stays inside its buffers: the
  second loop stores as many tokens as the first has counted. Lines written with every token in
  quotes, the quotes inside a token doubled, are read back exactly, whatever the tokens contain.
\<close>

theorem tokenize_roundtrip:
  assumes "d \<noteq> []"
  shows "(\<exists>toks. msStringTokenize line d keep = Some toks \<and> tokenize_count d False line 1 = Some (length toks)) \<and>
    (hd d \<noteq> quote \<and> ts \<noteq> [] \<longrightarrow> msStringTokenize (join_with d (map enquote ts)) d False = Some ts)"
proof -
  have "tokenize_count d False line 1 = Some (length (tokens keep d False line []))"
    using tokenize_count_eq [OF assms, of False line 1 keep "[]"] by simp
  then show ?thesis using msStringTokenize_eq [OF assms] tokens_enquote [OF assms] by simp
qed

theorem tokenize_roundtrip_witness:
  "msStringTokenize (join_with '','' (map enquote [''a,b'', [], [quote]])) '','' False = Some [''a,b'', [], [quote]]"
proof -
  have "'','' \<noteq> []" by simp
  from tokenize_roundtrip [OF this, where ts = "[''a,b'', [], [quote]]"] show ?thesis by simp
qed

end
