(* ===== verification/StringFormat.thy ===== *)
theory StringFormat
  imports MapString
begin

text \<open>
  More of \<open>mapstring.cpp\<close>: escaping for JSON, the growing string buffer, and the check of a number
  format that comes from a mapfile before it is given to \<open>snprintf\<close>.
\<close>

section \<open>JSON strings\<close>

abbreviation (input) bslash :: char where "bslash \<equiv> CHR 0x5C"

definition json_char :: "char \<Rightarrow> char \<Rightarrow> string" where
  "json_char chQuote c =
     (let n = of_char c :: nat in
      if n = 8 then [bslash, CHR ''b'']
      else if n = 12 then [bslash, CHR ''f'']
      else if n = 10 then [bslash, CHR ''n'']
      else if n = 13 then [bslash, CHR ''r'']
      else if n = 9 then [bslash, CHR ''t'']
      else if n < 32 then [bslash, CHR ''u'', CHR ''0'', CHR ''0'', upper_hex (n div 16), upper_hex (n mod 16)]
      else if c = chQuote then [bslash, chQuote]
      else if c = bslash then [bslash, bslash]
      else [c])"

text \<open>The loop writes into \<open>siz\<close> bytes; \<open>None\<close> would be a write behind them.\<close>

fun json_loop :: "nat \<Rightarrow> char \<Rightarrow> string \<Rightarrow> string \<Rightarrow> string option" where
  "json_loop siz q [] out = (if length out < siz then Some out else None)"
| "json_loop siz q (c # s) out =
     (let t = out @ json_char q c in if length t \<le> siz then json_loop siz q s t else None)"

definition msEscapeJSonLikeString :: "string \<Rightarrow> char \<Rightarrow> string option" where
  "msEscapeJSonLikeString s q = json_loop (length s * 6 + 1) q s []"

definition msEscapeJSonString :: "string \<Rightarrow> string option" where
  "msEscapeJSonString s = msEscapeJSonLikeString s (CHR 0x22)"

section \<open>String buffers\<close>

record msStringBuffer =
  alloc_size :: nat
  sb_length :: nat
  sb_str :: "char list" \<comment> \<open>the bytes of the allocation that have been written\<close>

definition msStringBufferAlloc :: msStringBuffer where
  "msStringBufferAlloc = \<lparr>alloc_size = 0, sb_length = 0, sb_str = []\<rparr>"

text \<open>
  \<open>memcpy(sb->str + sb->length, pszAppendedString, nAppendLen + 1)\<close>, the NUL included; \<open>None\<close> when
  it does not fit.
\<close>

definition put_bytes :: "char list \<Rightarrow> msStringBuffer \<Rightarrow> msStringBuffer option" where
  "put_bytes bs sb =
     (if sb_length sb + length bs \<le> alloc_size sb
      then Some (sb\<lparr>sb_str := take (sb_length sb) (sb_str sb) @ bs\<rparr>) else None)"

definition msStringBufferAppend :: "bool \<Rightarrow> string \<Rightarrow> msStringBuffer \<Rightarrow> (ms_return \<times> msStringBuffer \<times> report list) option" where
  "msStringBufferAppend realloc_ok s sb =
     (let grow = sb_length sb + length s \<ge> alloc_size sb;
          new1 = alloc_size sb + alloc_size sb div 3; new2 = sb_length sb + length s + 1;
          sb1 = (if grow then sb\<lparr>alloc_size := max new1 new2\<rparr> else sb) in
      if grow \<and> \<not> realloc_ok then
        Some (MS_FAILURE, sb, [Report MS_MEMERR ''Not enough memory'' ''msStringBufferAppend()''])
      else map_option (\<lambda>sb2. (MS_SUCCESS, sb2\<lparr>sb_length := sb_length sb2 + length s\<rparr>, [])) (put_bytes (s @ [NUL]) sb1))"

definition msStringBufferGetString :: "msStringBuffer \<Rightarrow> string" where
  "msStringBufferGetString sb = takeWhile (\<lambda>c. c \<noteq> NUL) (sb_str sb)"

definition msStringBufferReleaseStringAndFree :: "msStringBuffer \<Rightarrow> string" where
  "msStringBufferReleaseStringAndFree sb = msStringBufferGetString sb"

section \<open>Number formats\<close>

definition is_digit :: "char \<Rightarrow> bool" where
  "is_digit c \<longleftrightarrow> (let n = of_char c :: nat in 48 \<le> n \<and> n \<le> 57)"

text \<open>The part of a conversion behind the percent sign, up to its letter, and the width in it.\<close>

definition skip_flags :: "string \<Rightarrow> string" where
  "skip_flags s = dropWhile (\<lambda>c. c \<in> set ''+- 0'' \<or> c = CHR 0x27) s"

definition skip_width :: "string \<Rightarrow> int \<times> string" where
  "skip_width s =
     (case s of
        c # cs \<Rightarrow> if is_digit c \<and> c \<noteq> CHR ''0'' then (atoi s, dropWhile is_digit cs) else (0, s)
      | [] \<Rightarrow> (0, s))"

definition skip_precision :: "string \<Rightarrow> string" where
  "skip_precision s = (case s of c # cs \<Rightarrow> if c = CHR ''.'' then dropWhile is_digit cs else s | [] \<Rightarrow> s)"

abbreviation (input) DBL_MAX_10_EXP :: int where "DBL_MAX_10_EXP \<equiv> 308"

text \<open>The loop over the format: the room needed for the number, or the message of the error.\<close>

function check_format :: "bool \<Rightarrow> int \<Rightarrow> string \<Rightarrow> string + int" where
  "check_format found extra [] = Inr extra"
| "check_format found extra (c # s) =
     (if c = CHR ''%'' \<and> s \<noteq> [] \<and> hd s = CHR ''%'' then check_format found extra (tl s)
      else if c = CHR ''%'' then
        (if found then Inl ''More than one conversion specifier''
         else case skip_width (skip_flags s) of (w, r) \<Rightarrow>
           if w > 1024 then Inl ''Too large width''
           else (let e = (if w < DBL_MAX_10_EXP then DBL_MAX_10_EXP else w) + 32; p = skip_precision r in
                 case p of
                   [] \<Rightarrow> Inl ''Invalid conversion specifier''
                 | k # ks \<Rightarrow> if k \<in> set ''eEfFgG'' then check_format True e ks else Inl ''Invalid conversion specifier''))
      else check_format found extra s)"
  by pat_completeness auto
termination
proof (relation "measure (\<lambda>(_, _, s). length s)", goal_cases)
  case (3 found extra c s w r e p k ks)
  have "length r \<le> length (skip_flags s)"
    using 3(4) length_dropWhile_le [of is_digit "tl (skip_flags s)"]
    by (auto simp: skip_width_def split: list.splits if_splits)
  moreover have "length p \<le> length r" using 3(7) length_dropWhile_le [of is_digit "tl r"]
    by (auto simp: skip_precision_def split: list.splits)
  moreover have "length (skip_flags s) \<le> length s" unfolding skip_flags_def by (rule length_dropWhile_le)
  ultimately show ?case using 3(8) by simp
qed auto

declare check_format.simps [simp del]

text \<open>\<open>msToString\<close> up to the call of \<open>snprintf\<close>: the size of the buffer it is given.\<close>

definition msToString_size :: "string \<Rightarrow> report list \<times> int option" where
  "msToString_size fmt =
     (case check_format False 0 fmt of
        Inl msg \<Rightarrow> ([Report MS_MISCERR msg ''msToString()''], None)
      | Inr extra \<Rightarrow> ([], Some (int (length fmt) + extra + extra div 3 + 1)))"

section \<open>JSON round trip\<close>

text \<open>Reading a JSON string between two quotes \<open>q\<close>, by the grammar of JSON.\<close>

definition hex_val :: "char \<Rightarrow> nat" where
  "hex_val c = (let n = of_char c :: nat in if n < 58 then n - 48 else n - 55)"

fun json_read :: "char \<Rightarrow> string \<Rightarrow> string option" where
  "json_read q [] = Some []"
| "json_read q (c # s) =
     (if c = bslash then
        (case s of
           [] \<Rightarrow> None
         | e # s1 \<Rightarrow>
             if e = CHR ''u'' then
               (case s1 of
                  a # b # h # l # s2 \<Rightarrow>
                    map_option ((#) (char_of (4096 * hex_val a + 256 * hex_val b + 16 * hex_val h + hex_val l))) (json_read q s2)
                | _ \<Rightarrow> None)
             else map_option ((#) (if e = CHR ''b'' then CHR 0x08 else if e = CHR ''f'' then CHR 0x0C
                    else if e = CHR ''n'' then CHR 0x0A else if e = CHR ''r'' then CHR 0x0D
                    else if e = CHR ''t'' then CHR 0x09 else e)) (json_read q s1))
      else if c = q \<or> (of_char c :: nat) < 32 then None
      else map_option ((#) c) (json_read q s))"

lemma hex_val_upper_hex: "n < 16 \<Longrightarrow> hex_val (upper_hex n) = n"
proof -
  have "\<forall>n\<in>set [0..<16]. hex_val (upper_hex n) = n" by code_simp
  then show "n < 16 \<Longrightarrow> hex_val (upper_hex n) = n" by simp
qed

lemma char_of_controls: "char_of (8::nat) = CHR 0x08" "char_of (12::nat) = CHR 0x0C" "char_of (10::nat) = CHR 0x0A"
  "char_of (13::nat) = CHR 0x0D" "char_of (9::nat) = CHR 0x09"
  by code_simp+

lemma json_read_char:
  assumes "q = CHR 0x22 \<or> q = CHR 0x27"
  shows "json_read q (json_char q c @ s) = map_option ((#) c) (json_read q s)"
proof -
  define n where "n = (of_char c :: nat)"
  have nb: "n < 256" by (simp add: n_def)
  have c: "c = char_of n" by (simp add: n_def)
  consider "n = 8" | "n = 12" | "n = 10" | "n = 13" | "n = 9"
    | (ctl) "n \<noteq> 8" "n \<noteq> 12" "n \<noteq> 10" "n \<noteq> 13" "n \<noteq> 9" "n < 32"
    | (high) "32 \<le> n" by linarith
  then show ?thesis
  proof cases
    case ctl
    have v: "hex_val (CHR ''0'') = 0" by code_simp
    have h: "hex_val (upper_hex (n div 16)) = n div 16" "hex_val (upper_hex (n mod 16)) = n mod 16"
      using ctl(6) by (simp_all add: hex_val_upper_hex)
    have "json_char q c = [bslash, CHR ''u'', CHR ''0'', CHR ''0'', upper_hex (n div 16), upper_hex (n mod 16)]"
      using ctl by (simp add: json_char_def n_def [symmetric])
    then show ?thesis by (simp add: v h c)
  next
    case high
    then have jc: "json_char q c = (if c = q then [bslash, q] else if c = bslash then [bslash, bslash] else [c])"
      by (simp add: json_char_def n_def [symmetric] Let_def)
    consider "c = q" | "c \<noteq> q" "c = bslash" | "c \<noteq> q" "c \<noteq> bslash" by blast
    then show ?thesis
    proof cases
      case 1
      then show ?thesis using jc assms by auto
    next
      case 2
      then show ?thesis using jc by simp
    next
      case 3
      then show ?thesis using jc high by (simp add: n_def)
    qed
  qed (simp_all add: json_char_def n_def [symmetric] c char_of_controls)
qed

lemma json_char_length: "length (json_char q c) \<le> 6"
  by (simp add: json_char_def Let_def)

lemma json_loop_eq:
  "length out + 6 * length s < siz \<Longrightarrow> json_loop siz q s out = Some (out @ concat (map (json_char q) s))"
proof (induction s arbitrary: out)
  case (Cons c s)
  then show ?case using json_char_length [of q c] by (simp add: Let_def)
qed simp

text \<open>
  Escaping never writes behind the six bytes per character that were allocated, and a reader
  that follows the grammar of JSON gets back the string that was escaped, control characters,
  quotes and backslashes included.
\<close>

theorem json_roundtrip:
  assumes "q = CHR 0x22 \<or> q = CHR 0x27"
  shows "\<exists>out. msEscapeJSonLikeString s q = Some out \<and> json_read q out = Some s"
proof -
  have "json_read q (concat (map (json_char q) s)) = Some s"
    by (induction s) (simp_all add: json_read_char [OF assms] del: json_read.simps(2))
  then show ?thesis using json_loop_eq [of "[]" s "length s * 6 + 1" q] by (simp add: msEscapeJSonLikeString_def)
qed

theorem json_roundtrip_witness:
  "\<exists>out. msEscapeJSonLikeString ''a/b'' (CHR 0x22) = Some out \<and> json_read (CHR 0x22) out = Some ''a/b''"
  by (rule json_roundtrip) simp

section \<open>String buffers\<close>

definition sb_ok :: "msStringBuffer \<Rightarrow> string \<Rightarrow> bool" where
  "sb_ok sb s \<longleftrightarrow> NUL \<notin> set s \<and> sb_length sb = length s \<and>
     (s = [] \<and> alloc_size sb = 0 \<and> sb_str sb = [] \<or> length s < alloc_size sb \<and> sb_str sb = s @ [NUL])"

lemma append_ok:
  assumes "sb_ok sb s" and "NUL \<notin> set t"
  shows "\<exists>sb'. msStringBufferAppend True t sb = Some (MS_SUCCESS, sb', []) \<and> sb_ok sb' (s @ t)"
  using assms by (auto simp: msStringBufferAppend_def put_bytes_def sb_ok_def Let_def)

text \<open>
  A string buffer holds what was appended to it, in order, and no append writes behind its
  allocation. When memory cannot be had, the append fails and the buffer keeps what it had.
\<close>

theorem string_buffer_correct:
  assumes "\<forall>t\<in>set ts. NUL \<notin> set t"
  shows "\<exists>sb. foldl (\<lambda>r t. Option.bind r (\<lambda>sb. map_option (\<lambda>x. fst (snd x)) (msStringBufferAppend True t sb)))
             (Some msStringBufferAlloc) ts = Some sb \<and>
           msStringBufferGetString sb = concat ts \<and>
           (\<forall>t sb'. NUL \<notin> set t \<longrightarrow> (\<exists>r sb' es. msStringBufferAppend False t sb = Some (r, sb', es) \<and>
              (if r = MS_SUCCESS then msStringBufferGetString sb' = concat ts @ t else sb' = sb \<and> r = MS_FAILURE)))"
proof -
  have fold: "\<exists>sb'. foldl (\<lambda>r t. Option.bind r (\<lambda>sb. map_option (\<lambda>x. fst (snd x)) (msStringBufferAppend True t sb)))
      (Some sb) ts = Some sb' \<and> sb_ok sb' (s @ concat ts)" if "sb_ok sb s" "\<forall>t\<in>set ts. NUL \<notin> set t" for sb s ts
    using that
  proof (induction ts arbitrary: sb s)
    case (Cons t ts)
    then obtain sb1 where "msStringBufferAppend True t sb = Some (MS_SUCCESS, sb1, [])" "sb_ok sb1 (s @ t)"
      using append_ok [of sb s t] by auto
    then show ?case using Cons.IH [of sb1 "s @ t"] Cons.prems(2) by simp
  qed simp
  have start: "sb_ok msStringBufferAlloc []" by (simp add: sb_ok_def msStringBufferAlloc_def)
  obtain sb where sb: "foldl (\<lambda>r t. Option.bind r (\<lambda>sb. map_option (\<lambda>x. fst (snd x)) (msStringBufferAppend True t sb)))
      (Some msStringBufferAlloc) ts = Some sb" "sb_ok sb (concat ts)"
    using fold [OF start assms] by auto
  have get: "msStringBufferGetString b = s" if "sb_ok b s" for b s
    using that by (auto simp: msStringBufferGetString_def sb_ok_def takeWhile_append)
  have "\<exists>r sb' es. msStringBufferAppend False t sb = Some (r, sb', es) \<and>
      (if r = MS_SUCCESS then msStringBufferGetString sb' = concat ts @ t else sb' = sb \<and> r = MS_FAILURE)" if t: "NUL \<notin> set t" for t
  proof (cases "alloc_size sb \<le> sb_length sb + length t")
    case False
    then have "msStringBufferAppend False t sb = msStringBufferAppend True t sb"
      by (simp add: msStringBufferAppend_def)
    then show ?thesis using append_ok [OF sb(2) t] get by auto
  qed (simp add: msStringBufferAppend_def)
  then show ?thesis using sb get [OF sb(2)] by blast
qed

theorem string_buffer_correct_witness:
  "\<exists>sb. foldl (\<lambda>r t. Option.bind r (\<lambda>sb. map_option (\<lambda>x. fst (snd x)) (msStringBufferAppend True t sb)))
     (Some msStringBufferAlloc) [''ab'', ''c''] = Some sb \<and> msStringBufferGetString sb = ''abc''"
  using string_buffer_correct [of "[''ab'', ''c'']"] by auto

section \<open>Accepted formats are safe\<close>

text \<open>
  The arguments that \<open>printf\<close> fetches for a format, in order, by the C standard. A conversion has flags,
  a width, a precision, a length modifier and a letter; a \<open>*\<close> as the width or as the precision fetches
  an argument of its own before the one of the conversion, the length modifier and the letter decide
  the type of that one, and \<open>None\<close> stands for the letter of a conversion that the end cuts off.
\<close>

datatype printf_arg = StarArg | ConvArg string "char option"

datatype printf_type = PInt | PInteger string | PDouble | PLongDouble | PPointer | PUndefined

fun printf_arg_type :: "printf_arg \<Rightarrow> printf_type" where
  "printf_arg_type StarArg = PInt"
| "printf_arg_type (ConvArg m None) = PUndefined"
| "printf_arg_type (ConvArg m (Some k)) =
     (if k \<in> set ''eEfFgGaA'' then (if m = [] \<or> m = ''l'' then PDouble else if m = ''L'' then PLongDouble else PUndefined)
      else if k \<in> set ''diouxXc'' then PInteger m
      else if k \<in> set ''spn'' then PPointer else PUndefined)"

function printf_args :: "string \<Rightarrow> printf_arg list" where
  "printf_args [] = []"
| "printf_args (c # s) =
     (if c \<noteq> CHR ''%'' then printf_args s
      else if s \<noteq> [] \<and> hd s = CHR ''%'' then printf_args (tl s)
      else let f = dropWhile (\<lambda>c. c \<in> set ''+- #0'' \<or> c = CHR 0x27) s;
               ws = f \<noteq> [] \<and> hd f = CHR ''*'';
               w = (if ws then tl f else dropWhile is_digit f);
               dot = w \<noteq> [] \<and> hd w = CHR ''.'';
               ps = dot \<and> tl w \<noteq> [] \<and> hd (tl w) = CHR ''*'';
               p = (if ps then tl (tl w) else if dot then dropWhile is_digit (tl w) else w);
               m = dropWhile (\<lambda>c. c \<in> set ''hlqjztL'') p;
               l = takeWhile (\<lambda>c. c \<in> set ''hlqjztL'') p in
           (if ws then [StarArg] else []) @ (if ps then [StarArg] else []) @
           (case m of [] \<Rightarrow> [ConvArg l None] | k # ks \<Rightarrow> ConvArg l (Some k) # printf_args ks))"
  by pat_completeness auto
termination
proof (relation "measure length", goal_cases)
  case (4 c s f ws w dot ps p m l k ks)
  have "length f \<le> length s" unfolding 4(3) by (rule length_dropWhile_le)
  moreover have "length w \<le> length f" using length_dropWhile_le [of is_digit f] unfolding 4(5) by simp
  moreover have "length p \<le> length w"
    using length_dropWhile_le [of is_digit "tl w"] unfolding 4(8) by (cases w) auto
  moreover have "length m \<le> length p" unfolding 4(9) by (rule length_dropWhile_le)
  ultimately show ?case using 4(11) by simp
qed auto

declare printf_args.simps [simp del]

lemma accepted_conversion:
  assumes "skip_width (skip_flags s) = (w, r)" and "skip_precision r = k # ks" and "k \<in> set ''eEfFgG''"
    and "\<not> (s \<noteq> [] \<and> hd s = CHR ''%'')"
  shows "printf_args (CHR ''%'' # s) = ConvArg [] (Some k) # printf_args ks"
proof -
  have letters: "\<not> is_digit k" "k \<notin> set ''+- #0''" "k \<noteq> CHR 0x27" "k \<noteq> CHR ''*''" "k \<noteq> CHR ''.''" "k \<notin> set ''hlqjztL''"
    using assms(3) by (auto simp: is_digit_def)
  let ?f = "skip_flags s"
  have blocked: "x \<in> set ''eEfFgG''" if f: "?f = x # r'" and x: "\<not> is_digit x" "x \<noteq> CHR ''.''" for x r'
  proof -
    have "skip_width (x # r') = (w, r)" using assms(1) f by simp
    then have "r = x # r'" using x(1) by (simp add: skip_width_def)
    then have "x = k" using assms(2) x(2) by (simp add: skip_precision_def)
    then show ?thesis using assms(3) by simp
  qed
  have flags: "dropWhile (\<lambda>c. c \<in> set ''+- #0'' \<or> c = CHR 0x27) s = ?f"
  proof -
    have "?f = [] \<or> hd ?f \<noteq> CHR ''#''"
    proof (rule ccontr)
      assume "\<not> (?f = [] \<or> hd ?f \<noteq> CHR ''#'')"
      then obtain r' where "?f = CHR ''#'' # r'" by (cases ?f) auto
      then show False using blocked [of "CHR ''#''" r'] by (simp add: is_digit_def)
    qed
    then show ?thesis unfolding skip_flags_def by (induction s) (auto split: if_splits)
  qed
  have star: "\<not> (?f \<noteq> [] \<and> hd ?f = CHR ''*'')"
  proof
    assume "?f \<noteq> [] \<and> hd ?f = CHR ''*''"
    then obtain r' where "?f = CHR ''*'' # r'" by (cases ?f) auto
    then show False using blocked [of "CHR ''*''" r'] by (simp add: is_digit_def)
  qed
  have width: "dropWhile is_digit ?f = r"
  proof (cases ?f)
    case (Cons c cs)
    have "c \<noteq> CHR ''0''"
      using Cons hd_dropWhile [of "\<lambda>c. c \<in> set ''+- 0'' \<or> c = CHR 0x27" s] by (auto simp: skip_flags_def)
    then show ?thesis using assms(1) Cons by (auto simp: skip_width_def split: if_splits)
  qed (use assms(1) in \<open>simp add: skip_width_def\<close>)
  have prec: "\<not> ((r \<noteq> [] \<and> hd r = CHR ''.'') \<and> tl r \<noteq> [] \<and> hd (tl r) = CHR ''*'') \<and>
      (if r \<noteq> [] \<and> hd r = CHR ''.'' then dropWhile is_digit (tl r) else r) = k # ks"
  proof (cases r)
    case (Cons c cs)
    show ?thesis
    proof (cases "c = CHR ''.''")
      case True
      then have "dropWhile is_digit cs = k # ks" using assms(2) Cons by (simp add: skip_precision_def)
      moreover have "\<not> (cs \<noteq> [] \<and> hd cs = CHR ''*'')"
        using calculation letters(4) by (cases cs) (auto simp: is_digit_def split: if_splits)
      ultimately show ?thesis using Cons True by auto
    qed (use assms(2) Cons in \<open>simp add: skip_precision_def\<close>)
  qed (use assms(2) in \<open>simp add: skip_precision_def\<close>)
  have "dropWhile (\<lambda>c. c \<in> set ''hlqjztL'') (k # ks) = k # ks"
    and "takeWhile (\<lambda>c. c \<in> set ''hlqjztL'') (k # ks) = []" using letters(6) by simp_all
  then show ?thesis
    using assms(4) prec unfolding printf_args.simps(2) Let_def flags if_not_P [OF star] width
    by (simp only: if_not_P [OF star] if_False simp_thms list.case append_Nil split: if_split)
qed

lemma check_format_args:
  "check_format found extra s = Inr e \<Longrightarrow>
     (\<forall>k\<in>set (printf_args s). \<exists>c. k = ConvArg [] (Some c) \<and> c \<in> set ''eEfFgG'') \<and> length (printf_args s) + (if found then 1 else 0) \<le> 1"
proof (induction found extra s rule: check_format.induct)
  case (1 found extra)
  then show ?case by (simp add: printf_args.simps)
next
  case (2 found extra c s)
  note eq = 2(4) [unfolded check_format.simps(2)]
  consider (pct) "c = CHR ''%'' \<and> s \<noteq> [] \<and> hd s = CHR ''%''"
    | (conv) "\<not> (c = CHR ''%'' \<and> s \<noteq> [] \<and> hd s = CHR ''%'')" "c = CHR ''%''" | (other) "c \<noteq> CHR ''%''" by blast
  then show ?case
  proof cases
    case pct
    then show ?thesis using 2(1) [OF pct] eq by (simp add: printf_args.simps(2))
  next
    case other
    then have "printf_args (c # s) = printf_args s" "check_format found extra s = Inr e" using eq by (simp_all add: printf_args.simps(2))
    then show ?thesis using 2(3) other by simp
  next
    case conv
    have nf: "\<not> found" using eq conv by (auto split: if_splits)
    obtain w r where wr: "skip_width (skip_flags s) = (w, r)" by force
    obtain k ks where k: "skip_precision r = k # ks" "k \<in> set ''eEfFgG''" "\<not> w > 1024"
        "check_format True ((if w < DBL_MAX_10_EXP then DBL_MAX_10_EXP else w) + 32) ks = Inr e"
      using eq conv nf wr by (auto simp: Let_def split: if_splits list.splits)
    have IH: "(\<forall>k\<in>set (printf_args ks). \<exists>c. k = ConvArg [] (Some c) \<and> c \<in> set ''eEfFgG'') \<and> length (printf_args ks) + (if True then 1 else 0) \<le> 1"
      using 2(2) [OF conv(1,2) nf wr [symmetric] k(3) refl refl k(1,2)] k(4) by simp
    have "printf_args (c # s) = ConvArg [] (Some k) # printf_args ks"
      using accepted_conversion [OF wr k(1,2)] conv by simp
    then show ?thesis using IH nf k(2) by auto
  qed
qed

text \<open>
  C27. A number format that \<open>msToString\<close> accepts makes \<open>printf\<close> fetch at most one argument, the one of
  a conversion among e, E, f, F, g and G that has no length modifier, and so a double: no width or
  precision is a \<open>*\<close> that fetches an int, no conversion takes a long double, a pointer or an integer,
  and none is cut off. A format from a mapfile cannot make \<open>printf\<close> read another argument or write
  memory.
\<close>

theorem format_safe:
  assumes "msToString_size fmt = (es, Some n)"
  shows "(printf_args fmt = [] \<or> (\<exists>c\<in>set ''eEfFgG''. printf_args fmt = [ConvArg [] (Some c)])) \<and>
     map printf_arg_type (printf_args fmt) \<in> {[], [PDouble]}"
proof -
  obtain e where "check_format False 0 fmt = Inr e"
    using assms by (auto simp: msToString_size_def split: sum.splits)
  from check_format_args [OF this] show ?thesis
    by (cases "printf_args fmt") auto
qed

theorem format_safe_witness:
  "printf_args ''%+08.2f%%'' = [ConvArg [] (Some (CHR ''f''))] \<and> map printf_arg_type (printf_args ''%+08.2f%%'') = [PDouble] \<and>
   map printf_arg_type (printf_args ''%*.*Lf'') = [PInt, PInt, PLongDouble]"
proof -
  have "msToString_size ''%+08.2f%%'' = ([], Some 463)" by code_simp
  then have "map printf_arg_type (printf_args ''%+08.2f%%'') \<in> {[], [PDouble]}" using format_safe by blast
  moreover have "printf_args ''%+08.2f%%'' = [ConvArg [] (Some (CHR ''f''))]" by code_simp
  moreover have "map printf_arg_type (printf_args ''%*.*Lf'') = [PInt, PInt, PLongDouble]" by code_simp
  ultimately show ?thesis by simp
qed

end
