(* ===== verification/MapIO.thy ===== *)
theory MapIO
  imports MapHash ThreadList
begin

text \<open>
  \<open>mapio.c\<close>: the standard streams of a thread and their redirection. Every thread has a group of three
  contexts; a context names a callback and its data, a C stream or a memory buffer. Buffers live on
  an explicit heap. The state also holds what the C streams have been given. Allocation can fail: the
  environment says which sizes succeed, and what fresh memory contains. \<open>None\<close> as the result of an
  operation is what C leaves undefined: a freed buffer, a null pointer, a negative length, a signed
  overflow. Callbacks that other programs install (FastCGI, Apache) are not modelled.
\<close>

section \<open>Contexts\<close>

datatype io_func = StdioRead | StdioWrite | BufferRead | BufferWrite

datatype io_stream = Stdin | Stdout | Stderr

datatype io_data = Stream io_stream | Buffer nat

record msIOContext =
  label :: string
  write_channel :: bool
  readWriteFunc :: io_func
  cbData :: io_data

record msIOContextGroup =
  stdin_context :: msIOContext
  stdout_context :: msIOContext
  stderr_context :: msIOContext

text \<open>\<open>data\<close> is \<open>NULL\<close> or an allocation of \<open>data_len\<close> bytes, of which \<open>data_offset\<close> are used.\<close>

record msIOBuffer =
  buf_data :: "string option"
  data_len :: nat
  data_offset :: nat

record ioEnv =
  alloc :: "nat \<Rightarrow> bool"
  junk :: "nat \<Rightarrow> char"

record ioState =
  is_msIO_initialized :: bool
  is_msIO_header_enabled :: bool
  default_contexts :: msIOContextGroup
  io_context_list :: "msIOContextGroup links"
  buffers :: "nat \<rightharpoonup> msIOBuffer"
  next_buffer :: nat
  std_in :: string \<comment> \<open>what is left to read\<close>
  std_out :: string
  std_err :: string
  files :: "nat \<Rightarrow> string" \<comment> \<open>other files, by what has been written to them\<close>

abbreviation (input) INT_MAX :: nat where "INT_MAX \<equiv> 2147483647"

section \<open>The group of a thread\<close>

definition stdio_context :: "bool \<Rightarrow> io_stream \<Rightarrow> msIOContext" where
  "stdio_context wr st = \<lparr>label = ''stdio'', write_channel = wr, readWriteFunc = (if wr then StdioWrite else StdioRead),
     cbData = Stream st\<rparr>"

definition stdio_contexts :: msIOContextGroup where
  "stdio_contexts = \<lparr>stdin_context = stdio_context False Stdin, stdout_context = stdio_context True Stdout,
     stderr_context = stdio_context True Stderr\<rparr>"

definition msIO_Initialize :: "ioState \<Rightarrow> ioState" where
  "msIO_Initialize s =
     (if is_msIO_initialized s then s else s\<lparr>default_contexts := stdio_contexts, is_msIO_initialized := True\<rparr>)"

definition msIO_Cleanup :: "ioState \<Rightarrow> ioState" where
  "msIO_Cleanup s =
     (if is_msIO_initialized s then s\<lparr>is_msIO_initialized := False, io_context_list := []\<rparr> else s)"

text \<open>The search loop, giving the place of the thread's group.\<close>

fun seek_group :: "nat \<Rightarrow> 'a links \<Rightarrow> nat option" where
  "seek_group t [] = None"
| "seek_group t (l # ls) = (if fst l = t then Some 0 else map_option Suc (seek_group t ls))"

definition msIO_GetContextGroup :: "nat \<Rightarrow> ioState \<Rightarrow> ioState" where
  "msIO_GetContextGroup t s =
     (if io_context_list s \<noteq> [] \<and> fst (hd (io_context_list s)) = t then s
      else
        (let s1 = msIO_Initialize s; ls = io_context_list s1 in
         case seek_group t ls of
           Some i \<Rightarrow> if i = 0 then s1 else s1\<lparr>io_context_list := ls ! i # remove_at i ls\<rparr>
         | None \<Rightarrow> s1\<lparr>io_context_list := (t, default_contexts s1) # ls\<rparr>))"

text \<open>Reading and writing through the pointer to the group of thread \<open>t\<close>.\<close>

definition group_of :: "nat \<Rightarrow> ioState \<Rightarrow> msIOContextGroup" where
  "group_of t s = (case map_of (io_context_list s) t of Some g \<Rightarrow> g | None \<Rightarrow> default_contexts s)"

definition set_group :: "nat \<Rightarrow> msIOContextGroup \<Rightarrow> ioState \<Rightarrow> ioState" where
  "set_group t g s = s\<lparr>io_context_list := map (\<lambda>l. if fst l = t then (t, g) else l) (io_context_list s)\<rparr>"

definition msIO_isStdContext :: "nat \<Rightarrow> ioState \<Rightarrow> bool \<times> ioState" where
  "msIO_isStdContext t s =
     (let s1 = msIO_GetContextGroup t s; g = group_of t s1 in
      (cbData (stderr_context g) = Stream Stderr \<and> cbData (stdin_context g) = Stream Stdin
        \<and> cbData (stdout_context g) = Stream Stdout, s1))"

text \<open>The argument of type \<open>FILE *\<close>: a standard stream, \<open>NULL\<close>, a text in disguise, or another file.\<close>

datatype io_file = FStdin | FStdout | FStderr | FNull | FText string | FFile nat

definition msIO_getHandler :: "nat \<Rightarrow> io_file \<Rightarrow> ioState \<Rightarrow> io_stream option \<times> ioState" where
  "msIO_getHandler t fp s =
     (if fp = FStdin \<or> fp = FNull \<or> fp = FText ''stdin'' then Some Stdin
      else if fp = FStdout \<or> fp = FText ''stdout'' then Some Stdout
      else if fp = FStderr \<or> fp = FText ''stderr'' then Some Stderr
      else None, msIO_GetContextGroup t (msIO_Initialize s))"

definition context_of :: "io_stream \<Rightarrow> msIOContextGroup \<Rightarrow> msIOContext" where
  "context_of st g = (case st of Stdin \<Rightarrow> stdin_context g | Stdout \<Rightarrow> stdout_context g | Stderr \<Rightarrow> stderr_context g)"

definition msIO_installHandlers ::
  "nat \<Rightarrow> msIOContext option \<Rightarrow> msIOContext option \<Rightarrow> msIOContext option \<Rightarrow> ioState \<Rightarrow> ioState" where
  "msIO_installHandlers t i out e s =
     (let s1 = msIO_GetContextGroup t (msIO_Initialize s); d = default_contexts s1;
          pick = (\<lambda>c dflt. case c of None \<Rightarrow> dflt | Some x \<Rightarrow> x) in
      set_group t \<lparr>stdin_context = pick i (stdin_context d), stdout_context = pick out (stdout_context d),
        stderr_context = pick e (stderr_context d)\<rparr> s1)"

section \<open>Memory buffers\<close>

text \<open>Copying into the allocation, with the NUL behind.\<close>

definition store_bytes :: "string \<Rightarrow> msIOBuffer \<Rightarrow> msIOBuffer option" where
  "store_bytes bs buf =
     (case buf_data buf of
        None \<Rightarrow> None
      | Some d \<Rightarrow>
          (let off = data_offset buf in
           if off + length bs < data_len buf
           then Some (buf\<lparr>buf_data := Some (take off d @ bs @ NUL # drop (off + length bs + 1) d),
                  data_offset := off + length bs\<rparr>)
           else None))"

definition msIO_bufferWrite :: "ioEnv \<Rightarrow> string \<Rightarrow> msIOBuffer \<Rightarrow> (nat \<times> msIOBuffer \<times> report list) option" where
  "msIO_bufferWrite env bs buf =
     (let n = length bs; grown = data_len buf * 2 + n + 100; old = (case buf_data buf of None \<Rightarrow> [] | Some d \<Rightarrow> d) in
      if data_offset buf + n > INT_MAX then None
      else if data_offset buf + n \<ge> data_len buf then
        (if grown > INT_MAX then None
         else if \<not> alloc env grown then
           Some (0, buf\<lparr>buf_data := None, data_len := 0\<rparr>,
             [Report MS_MEMERR ''Failed to allocate %d bytes for capture buffer.'' ''msIO_bufferWrite()''])
         else map_option (\<lambda>b. (n, b, []))
           (store_bytes bs (buf\<lparr>buf_data := Some (old @ map (junk env) [length old..<grown]), data_len := grown\<rparr>)))
      else map_option (\<lambda>b. (n, b, [])) (store_bytes bs buf))"

definition msIO_bufferRead :: "nat \<Rightarrow> nat" where
  "msIO_bufferRead byteCount = 0"

section \<open>Reading and writing through a context\<close>

definition msIO_stdioWrite :: "io_stream \<Rightarrow> string \<Rightarrow> ioState \<Rightarrow> nat \<times> ioState" where
  "msIO_stdioWrite st bs s =
     (case st of
        Stdin \<Rightarrow> (0, s)
      | Stdout \<Rightarrow> (length bs, s\<lparr>std_out := std_out s @ bs\<rparr>)
      | Stderr \<Rightarrow> (length bs, s\<lparr>std_err := std_err s @ bs\<rparr>))"

definition msIO_stdioRead :: "io_stream \<Rightarrow> nat \<Rightarrow> ioState \<Rightarrow> string \<times> ioState" where
  "msIO_stdioRead st n s =
     (case st of Stdin \<Rightarrow> (take n (std_in s), s\<lparr>std_in := drop n (std_in s)\<rparr>) | _ \<Rightarrow> ([], s))"

definition msIO_contextWrite :: "ioEnv \<Rightarrow> msIOContext \<Rightarrow> string \<Rightarrow> ioState \<Rightarrow> (nat \<times> ioState \<times> report list) option" where
  "msIO_contextWrite env ctx bs s =
     (if \<not> write_channel ctx then Some (0, s, [])
      else case (readWriteFunc ctx, cbData ctx) of
             (StdioWrite, Stream st) \<Rightarrow> (case msIO_stdioWrite st bs s of (n, s') \<Rightarrow> Some (n, s', []))
           | (BufferWrite, Buffer k) \<Rightarrow>
               (case buffers s k of
                  None \<Rightarrow> None
                | Some buf \<Rightarrow>
                    map_option (\<lambda>(n, buf', es). (n, s\<lparr>buffers := (buffers s)(k \<mapsto> buf')\<rparr>, es)) (msIO_bufferWrite env bs buf))
           | (BufferRead, _) \<Rightarrow> Some (msIO_bufferRead (length bs), s, [])
           | _ \<Rightarrow> None)"

definition msIO_contextRead :: "msIOContext \<Rightarrow> nat \<Rightarrow> ioState \<Rightarrow> (string \<times> ioState) option" where
  "msIO_contextRead ctx n s =
     (if write_channel ctx then Some ([], s)
      else case (readWriteFunc ctx, cbData ctx) of
             (StdioRead, Stream st) \<Rightarrow> Some (msIO_stdioRead st n s)
           | (BufferRead, _) \<Rightarrow> Some ([], s)
           | _ \<Rightarrow> None)"

definition write_to ::
  "ioEnv \<Rightarrow> nat \<Rightarrow> string \<Rightarrow> io_file \<Rightarrow> ioState \<Rightarrow> (nat \<times> ioState \<times> report list) option" where
  "write_to env t bs fp s =
     (case msIO_getHandler t fp s of
        (Some st, s1) \<Rightarrow> msIO_contextWrite env (context_of st (group_of t s1)) bs s1
      | (None, s1) \<Rightarrow>
          (case fp of FFile k \<Rightarrow> Some (length bs, s1\<lparr>files := (files s1)(k := files s1 k @ bs)\<rparr>, []) | _ \<Rightarrow> None))"

text \<open>\<open>fwrite\<close> of \<open>nmemb\<close> items of \<open>sz\<close> bytes; the byte count is passed on as an \<open>int\<close>.\<close>

definition msIO_fwrite ::
  "ioEnv \<Rightarrow> nat \<Rightarrow> string \<Rightarrow> nat \<Rightarrow> nat \<Rightarrow> io_file \<Rightarrow> ioState \<Rightarrow> (nat \<times> ioState \<times> report list) option" where
  "msIO_fwrite env t bs sz nmemb fp s =
     (if sz = 0 \<or> nmemb = 0 then Some (0, s, [])
      else if sz * nmemb > INT_MAX then None
      else map_option (\<lambda>(n, s', es). (n div sz, s', es)) (write_to env t (take (sz * nmemb) bs) fp s))"

text \<open>Reading from a file that is not a standard stream is left to \<open>fread\<close> and not modelled.\<close>

definition msIO_fread :: "nat \<Rightarrow> nat \<Rightarrow> nat \<Rightarrow> io_file \<Rightarrow> ioState \<Rightarrow> (nat \<times> string \<times> ioState) option" where
  "msIO_fread t sz nmemb fp s =
     (if sz = 0 \<or> nmemb = 0 then Some (0, [], s)
      else if sz * nmemb > INT_MAX then None
      else
        case msIO_getHandler t fp s of
          (Some st, s1) \<Rightarrow>
            map_option (\<lambda>(bs, s'). (length bs div sz, bs, s')) (msIO_contextRead (context_of st (group_of t s1)) (sz * nmemb) s1)
        | (None, _) \<Rightarrow> None)"

section \<open>Formatted output\<close>

text \<open>
  What \<open>vsnprintf\<close> would write is the argument \<open>out\<close>, \<open>None\<close> if the conversion fails with -1. The loop
  multiplies the size of the buffer by four until the text fits: \<open>None\<close> is a signed overflow of the
  size, \<open>Some None\<close> an allocation that fails.
\<close>

function vsprintf_loop :: "ioEnv \<Rightarrow> string option \<Rightarrow> nat \<Rightarrow> nat option option" where
  "vsprintf_loop env out k =
     (let workBufSize = 16000 * 4 ^ k in
      if (case out of None \<Rightarrow> True | Some s \<Rightarrow> length s \<ge> workBufSize - 1) then
        (if workBufSize * 4 > INT_MAX then None
         else if alloc env (workBufSize * 4) then vsprintf_loop env out (k + 1) else Some None)
      else Some (Some workBufSize))"
  by pat_completeness auto
termination
proof (relation "measure (\<lambda>(_, _, k). INT_MAX - k)", goal_cases)
  case (2 env out k w)
  have "k < (4::nat) ^ k" by (rule less_exp [THEN less_le_trans]) (simp add: power_mono)
  then show ?case using 2 by auto
qed auto

declare vsprintf_loop.simps [simp del]

definition ms_vsprintf :: "ioEnv \<Rightarrow> string option \<Rightarrow> (string option \<times> report list) option" where
  "ms_vsprintf env out =
     (let failed = (None, [Report MS_MEMERR [] ''_ms_vsprintf()'']) in
      if \<not> alloc env 16000 then Some failed
      else case vsprintf_loop env out 0 of
             None \<Rightarrow> None
           | Some None \<Rightarrow> Some failed
           | Some (Some sz) \<Rightarrow> Some (map_option (take (sz - 1)) out, []))"

text \<open>The result is the number of bytes written, \<open>None\<close> within for -1.\<close>

definition msIO_vfprintf ::
  "ioEnv \<Rightarrow> nat \<Rightarrow> io_file \<Rightarrow> string option \<Rightarrow> ioState \<Rightarrow> (nat option \<times> ioState \<times> report list) option" where
  "msIO_vfprintf env t fp out s =
     (case (if (case out of None \<Rightarrow> True | Some x \<Rightarrow> length x \<ge> 8000 - 1) then ms_vsprintf env out
            else Some (map_option (take (8000 - 1)) out, [])) of
        None \<Rightarrow> None
      | Some (None, es) \<Rightarrow> Some (None, s, es)
      | Some (Some txt', es) \<Rightarrow>
          map_option (\<lambda>(n, s', fs). (Some n, s', es @ fs)) (write_to env t txt' fp s))"

definition msIO_fprintf ::
  "ioEnv \<Rightarrow> nat \<Rightarrow> io_file \<Rightarrow> string option \<Rightarrow> ioState \<Rightarrow> (nat option \<times> ioState \<times> report list) option" where
  "msIO_fprintf = msIO_vfprintf"

definition msIO_printf :: "ioEnv \<Rightarrow> nat \<Rightarrow> string option \<Rightarrow> ioState \<Rightarrow> (nat option \<times> ioState \<times> report list) option" where
  "msIO_printf env t out s = msIO_vfprintf env t FStdout out s"

definition msIO_setHeaderEnabled :: "bool \<Rightarrow> ioState \<Rightarrow> ioState" where
  "msIO_setHeaderEnabled b s = s\<lparr>is_msIO_header_enabled := b\<rparr>"

text \<open>Several prints one after the other, their results ignored.\<close>

fun print_all :: "ioEnv \<Rightarrow> nat \<Rightarrow> string option list \<Rightarrow> ioState \<Rightarrow> (ioState \<times> report list) option" where
  "print_all env t [] s = Some (s, [])"
| "print_all env t (out # outs) s =
     (case msIO_vfprintf env t FStdout out s of
        None \<Rightarrow> None
      | Some (_, s1, es) \<Rightarrow> map_option (\<lambda>(s2, fs). (s2, es @ fs)) (print_all env t outs s1))"

abbreviation (input) CRLF :: string where "CRLF \<equiv> [CHR 0x0D, CHR 0x0A]"

definition msIO_setHeader :: "ioEnv \<Rightarrow> nat \<Rightarrow> string \<Rightarrow> string option \<Rightarrow> ioState \<Rightarrow> (ioState \<times> report list) option" where
  "msIO_setHeader env t header value s =
     (if is_msIO_header_enabled s then print_all env t [Some (header @ '': ''), value, Some CRLF] s else Some (s, []))"

definition msIO_sendHeaders :: "ioEnv \<Rightarrow> nat \<Rightarrow> ioState \<Rightarrow> (ioState \<times> report list) option" where
  "msIO_sendHeaders env t s =
     (if is_msIO_header_enabled s then print_all env t [Some CRLF] s else Some (s, []))"

section \<open>Redirection\<close>

definition free_buffer :: "msIOContext \<Rightarrow> ioState \<Rightarrow> ioState option" where
  "free_buffer ctx s =
     (case cbData ctx of
        Stream _ \<Rightarrow> None
      | Buffer k \<Rightarrow> if buffers s k = None then None else Some (s\<lparr>buffers := (buffers s)(k := None)\<rparr>))"

definition free_if_buffer :: "msIOContext \<Rightarrow> ioState \<Rightarrow> ioState option" where
  "free_if_buffer ctx s = (if label ctx = ''buffer'' then free_buffer ctx s else Some s)"

definition msIO_resetHandlers :: "nat \<Rightarrow> ioState \<Rightarrow> ioState option" where
  "msIO_resetHandlers t s =
     (let s1 = msIO_GetContextGroup t s; g = group_of t s1 in
      case free_if_buffer (stdin_context g) s1 of
        None \<Rightarrow> None
      | Some s2 \<Rightarrow>
          (case free_if_buffer (stdout_context g) s2 of
             None \<Rightarrow> None
           | Some s3 \<Rightarrow> map_option (msIO_installHandlers t None None None) (free_if_buffer (stderr_context g) s3)))"

definition buffer_context :: "bool \<Rightarrow> nat \<Rightarrow> msIOContext" where
  "buffer_context wr k = \<lparr>label = ''buffer'', write_channel = wr, readWriteFunc = (if wr then BufferWrite else BufferRead),
     cbData = Buffer k\<rparr>"

text \<open>\<open>calloc(1, sizeof(msIOBuffer))\<close>.\<close>

definition new_buffer :: "ioState \<Rightarrow> ioState" where
  "new_buffer s = s\<lparr>buffers := (buffers s)(next_buffer s \<mapsto> \<lparr>buf_data = None, data_len = 0, data_offset = 0\<rparr>),
     next_buffer := next_buffer s + 1\<rparr>"

definition msIO_installStdoutToBuffer :: "nat \<Rightarrow> ioState \<Rightarrow> ioState" where
  "msIO_installStdoutToBuffer t s =
     (let s1 = msIO_GetContextGroup t s; g = group_of t s1 in
      msIO_installHandlers t (Some (stdin_context g)) (Some (buffer_context True (next_buffer s1))) (Some (stderr_context g))
        (new_buffer s1))"

definition msIO_installStdinFromBuffer :: "nat \<Rightarrow> ioState \<Rightarrow> ioState" where
  "msIO_installStdinFromBuffer t s =
     (let s1 = msIO_GetContextGroup t s; g = group_of t s1 in
      msIO_installHandlers t (Some (buffer_context False (next_buffer s1))) (Some (stdout_context g)) (Some (stderr_context g))
        (new_buffer s1))"

definition msIO_pushStdoutToBufferAndGetOldContext :: "nat \<Rightarrow> ioState \<Rightarrow> msIOContext \<times> ioState" where
  "msIO_pushStdoutToBufferAndGetOldContext t s =
     (let s1 = msIO_GetContextGroup t s in (stdout_context (group_of t s1), msIO_installStdoutToBuffer t s1))"

text \<open>The assertion that standard output is a buffer aborts the program when it fails (\<open>None\<close>).\<close>

definition msIO_restoreOldStdoutContext :: "nat \<Rightarrow> msIOContext \<Rightarrow> ioState \<Rightarrow> ioState option" where
  "msIO_restoreOldStdoutContext t old s =
     (let s1 = msIO_GetContextGroup t s; g = group_of t s1 in
      if label (stdout_context g) \<noteq> ''buffer'' then None
      else map_option (msIO_installHandlers t (Some (stdin_context g)) (Some old) (Some (stderr_context g)))
        (free_buffer (stdout_context g) s1))"

section \<open>Taking headers off a buffer\<close>

text \<open>The standard output of thread \<open>t\<close>, if it is a buffer.\<close>

definition stdout_buffer :: "nat \<Rightarrow> ioState \<Rightarrow> nat option \<times> ioState" where
  "stdout_buffer t s =
     (let s1 = snd (msIO_getHandler t (FText ''stdout'') s); ctx = stdout_context (group_of t s1) in
      (case cbData ctx of Buffer k \<Rightarrow> if write_channel ctx \<and> label ctx = ''buffer'' then Some k else None | Stream _ \<Rightarrow> None, s1))"

text \<open>\<open>memmove\<close> of what is behind \<open>start\<close> to the front; a negative length (\<open>None\<close>) becomes a huge one.\<close>

definition drop_front :: "nat \<Rightarrow> msIOBuffer \<Rightarrow> msIOBuffer option" where
  "drop_front start buf =
     (case buf_data buf of
        None \<Rightarrow> None
      | Some d \<Rightarrow>
          if start \<le> data_offset buf then
            (let n = data_offset buf - start in
             Some (buf\<lparr>buf_data := Some (take n (drop start d) @ NUL # drop (n + 1) d), data_offset := n\<rparr>))
          else None)"

definition set_buffer :: "nat \<Rightarrow> msIOBuffer \<Rightarrow> ioState \<Rightarrow> ioState" where
  "set_buffer k buf s = s\<lparr>buffers := (buffers s)(k \<mapsto> buf)\<rparr>"

text \<open>The loop that stops one before the carriage return.\<close>

function scan_line :: "string \<Rightarrow> nat \<Rightarrow> nat \<Rightarrow> nat" where
  "scan_line d off e = (if e + 1 < off \<and> d ! (e + 1) \<noteq> CHR 0x0D then scan_line d off (e + 1) else e)"
  by pat_completeness auto
termination
  by (relation "measure (\<lambda>(_, off, e). off - e)") auto

declare scan_line.simps [simp del]

text \<open>\<open>strncasecmp(p, key, strlen(key)) == 0\<close>.\<close>

definition starts_with :: "string \<Rightarrow> string \<Rightarrow> bool" where
  "starts_with key p \<longleftrightarrow> lower (take (length key) p) = lower key"

text \<open>What the searches below give: nothing to strip, a message, or the result and the start of the data.\<close>

datatype 'a strip = Keep | Corrupt | Found 'a nat

definition scan_content_type :: "string \<Rightarrow> nat \<Rightarrow> string strip" where
  "scan_content_type d off =
     (if off < 14 \<or> \<not> starts_with ''Content-Type: '' d then Keep
      else
        (let e = scan_line d off 13 in
         if e + 1 = off then Corrupt
         else
           (let start0 = e + 3; start = (if start0 < off \<and> d ! start0 = CHR 0x0D then start0 + 2 else start0) in
            if start = off then Corrupt
            else Found (takeWhile (\<lambda>c. c \<noteq> NUL) (take (e - 13) (drop 14 d))) start)))"

text \<open>The contents of the allocation; the null pointer is never read while nothing is used.\<close>

definition buffer_bytes :: "msIOBuffer \<Rightarrow> string option" where
  "buffer_bytes buf = (if data_offset buf = 0 \<and> buf_data buf = None then Some [] else buf_data buf)"

text \<open>The common part of the three functions: find the buffer, search it, move the rest to the front.\<close>

definition strip_buffer ::
  "string \<Rightarrow> string \<Rightarrow> (string \<Rightarrow> nat \<Rightarrow> 'a strip) \<Rightarrow> nat \<Rightarrow> ioState \<Rightarrow> ('a option \<times> ioState \<times> report list) option" where
  "strip_buffer routine corrupt scan t s =
     (case stdout_buffer t s of
        (None, s1) \<Rightarrow> Some (None, s1, [Report MS_MISCERR ''Can't identify msIO buffer.'' routine])
      | (Some k, s1) \<Rightarrow>
          (case buffers s1 k of
             None \<Rightarrow> None
           | Some buf \<Rightarrow>
               (case buffer_bytes buf of
                  None \<Rightarrow> None
                | Some d \<Rightarrow>
                    (case scan d (data_offset buf) of
                       Keep \<Rightarrow> Some (None, s1, [])
                     | Corrupt \<Rightarrow> Some (None, s1, [Report MS_MISCERR corrupt routine])
                     | Found x start \<Rightarrow> map_option (\<lambda>b. (Some x, set_buffer k b s1, [])) (drop_front start buf)))))"

definition msIO_stripStdoutBufferContentType :: "nat \<Rightarrow> ioState \<Rightarrow> (string option \<times> ioState \<times> report list) option" where
  "msIO_stripStdoutBufferContentType =
     strip_buffer ''msIO_stripStdoutBufferContentType'' ''Corrupt Content-Type header.'' scan_content_type"

lemma scan_line_ge: "e \<le> scan_line d off e"
  by (induction d off e rule: scan_line.induct) (subst scan_line.simps, auto)

text \<open>The loop over all \<open>Content-\<close> headers.\<close>

function scan_content :: "string \<Rightarrow> nat \<Rightarrow> nat \<Rightarrow> nat option" where
  "scan_content d off start =
     (if start < off \<and> starts_with ''Content-'' (drop start d) then
        (let e = scan_line d off (start + 7) in if e + 1 = off then None else scan_content d off (e + 3))
      else Some start)"
  by pat_completeness auto
termination
proof (relation "measure (\<lambda>(_, off, start). off - start)", goal_cases)
  case (2 d off start e)
  then have "start < off" "start + 7 \<le> e" using scan_line_ge [of "start + 7" d off] by simp_all
  then show ?case by simp
qed simp

declare scan_content.simps [simp del]

definition scan_content_headers :: "string \<Rightarrow> nat \<Rightarrow> unit strip" where
  "scan_content_headers d off =
     (if off < 8 \<or> \<not> starts_with ''Content-'' d then Keep
      else case scan_content d off 0 of
             None \<Rightarrow> Corrupt
           | Some start0 \<Rightarrow>
               (let start = (if start0 < off \<and> d ! start0 = CHR 0x0D then start0 + 2 else start0) in
                if start = off then Corrupt else Found () start))"

definition msIO_stripStdoutBufferContentHeaders :: "nat \<Rightarrow> ioState \<Rightarrow> (unit option \<times> ioState \<times> report list) option" where
  "msIO_stripStdoutBufferContentHeaders =
     strip_buffer ''msIO_stripStdoutBufferContentHeaders'' ''Corrupt Content-* header.'' scan_content_headers"

text \<open>One header line: where it ends, and the place of the last colon, \<open>None\<close> if the line is corrupt.\<close>

function scan_header :: "string \<Rightarrow> nat \<Rightarrow> nat \<Rightarrow> nat option \<Rightarrow> nat \<times> nat option" where
  "scan_header d off pos col =
     (if pos < off then
        (if d ! pos = CHR 0x0D then (pos, if pos + 1 = off \<or> d ! (pos + 1) \<noteq> CHR 0x0A then None else col)
         else if d ! pos = CHR '':'' then
           (if pos + 1 = off \<or> d ! (pos + 1) \<noteq> CHR '' '' then (pos, None) else scan_header d off (pos + 1) (Some pos))
         else scan_header d off (pos + 1) col)
      else (pos, col))"
  by pat_completeness auto
termination
  by (relation "measure (\<lambda>(_, off, pos, _). off - pos)") auto

declare scan_header.simps [simp del]

lemma scan_header_ge: "pos \<le> fst (scan_header d off pos col)"
proof (induction d off pos col rule: scan_header.induct)
  case (1 d off pos col)
  then show ?case by (subst scan_header.simps) (auto simp: Suc_le_eq dest: Suc_leD)
qed

lemma scan_header_start: "off \<le> start \<Longrightarrow> scan_header d off start col = (start, col)"
  by (subst scan_header.simps) simp

lemma scan_header_progress:
  assumes "scan_header d off start None = (pos, Some col)"
  shows "start < off \<and> start \<le> pos"
proof -
  have "start < off" using scan_header_start [of off start d None] assms by (cases "start < off") auto
  then show ?thesis using scan_header_ge [of start d off None] assms by simp
qed

definition c_string :: "string \<Rightarrow> string" where
  "c_string s = takeWhile (\<lambda>c. c \<noteq> NUL) s"

function mime_headers :: "string \<Rightarrow> nat \<Rightarrow> nat \<Rightarrow> hashTableObj option \<Rightarrow> hashTableObj option strip" where
  "mime_headers d off start tbl =
     (case scan_header d off start None of
        (pos, None) \<Rightarrow> Corrupt
      | (pos, Some col) \<Rightarrow>
          if pos = off then Corrupt
          else
            (let key = c_string (take (col - start) (drop start d));
                 value = c_string (take (pos - (col + 2)) (drop (col + 2) d));
                 tbl1 = fst (snd (msInsertHashTable tbl (Some key) (Some value)));
                 nxt = pos + 2 in
             if nxt = off then Corrupt
             else if d ! nxt = CHR 0x0D then
               (if nxt + 1 = off \<or> d ! (nxt + 1) \<noteq> CHR 0x0A then Corrupt else Found tbl1 (nxt + 2))
             else mime_headers d off nxt tbl1))"
  by pat_completeness auto
termination
  by (relation "measure (\<lambda>(_, off, start, _). off - start)") (auto dest!: scan_header_progress [OF sym])

declare mime_headers.simps [simp del]

definition msIO_getAndStripStdoutBufferMimeHeaders ::
  "nat \<Rightarrow> ioState \<Rightarrow> (hashTableObj option option \<times> ioState \<times> report list) option" where
  "msIO_getAndStripStdoutBufferMimeHeaders =
     strip_buffer ''msIO_getAndStripStdoutBufferMimeHeaders'' ''Corrupt mime headers.''
       (\<lambda>d off. mime_headers d off 0 (Some msCreateHashTable))"

end
