(* ===== verification/IoCapture.thy ===== *)
theory IoCapture
  imports MapIO
begin

text \<open>
  What the redirection of \<open>mapio.c\<close> promises. To each thread its standard output is a stack of texts: a
  push starts a new one, whatever the thread writes goes to the top, a restore drops the top and goes
  on where the thread was before. Threads do not see each other's stacks. The linked list of groups,
  the saved contexts and the heap of buffers implement that; the headers written to a buffer can be
  taken off it again as a table.
\<close>

section \<open>The group of a thread\<close>

definition io_ok :: "ioState \<Rightarrow> bool" where
  "io_ok s \<longleftrightarrow> links_ok (io_context_list s) \<and>
     (if is_msIO_initialized s then default_contexts s = stdio_contexts else io_context_list s = [])"

text \<open>The group a thread has, or will be given on first use.\<close>

definition thread_group :: "nat \<Rightarrow> ioState \<Rightarrow> msIOContextGroup" where
  "thread_group t s = (case map_of (io_context_list s) t of None \<Rightarrow> stdio_contexts | Some g \<Rightarrow> g)"

text \<open>Everything but the bookkeeping of groups.\<close>

definition same_io :: "ioState \<Rightarrow> ioState \<Rightarrow> bool" where
  "same_io s s' \<longleftrightarrow> buffers s = buffers s' \<and> next_buffer s = next_buffer s' \<and> std_in s = std_in s' \<and>
     std_out s = std_out s' \<and> std_err s = std_err s' \<and> files s = files s' \<and>
     is_msIO_header_enabled s = is_msIO_header_enabled s'"

lemma seek_group_None: "seek_group t ls = None \<longleftrightarrow> map_of ls t = None"
  by (induction ls) auto

lemma seek_group_Some:
  "seek_group t ls = Some i \<Longrightarrow> i < length ls \<and> fst (ls ! i) = t"
  by (induction ls arbitrary: i) (auto split: if_splits)

lemma initialize_ok:
  assumes "io_ok s"
  shows "io_ok (msIO_Initialize s)" "same_io (msIO_Initialize s) s" "is_msIO_initialized (msIO_Initialize s)"
    "default_contexts (msIO_Initialize s) = stdio_contexts" "io_context_list (msIO_Initialize s) = io_context_list s"
  using assms by (auto simp: io_ok_def msIO_Initialize_def same_io_def links_ok_def)

lemma get_group:
  fixes t :: nat
  assumes ok: "io_ok s"
  defines "s' \<equiv> msIO_GetContextGroup t s"
  shows "io_ok s'" "same_io s' s" "map_of (io_context_list s') = (map_of (io_context_list s))(t \<mapsto> thread_group t s)"
    "is_msIO_initialized s'" "default_contexts s' = stdio_contexts"
proof -
  define ls where "ls = io_context_list s"
  have d: "distinct (map fst ls)" using ok by (simp add: io_ok_def links_ok_def ls_def)
  have "io_ok s' \<and> same_io s' s \<and> map_of (io_context_list s') = (map_of ls)(t \<mapsto> thread_group t s)
    \<and> is_msIO_initialized s' \<and> default_contexts s' = stdio_contexts"
  proof (cases "ls \<noteq> [] \<and> fst (hd ls) = t")
    case True
    then have "s' = s" "map_of ls t = Some (snd (hd ls))" "ls \<noteq> []"
      by (auto simp: s'_def msIO_GetContextGroup_def ls_def neq_Nil_conv)
    then show ?thesis using ok by (auto simp: same_io_def thread_group_def io_ok_def ls_def fun_eq_iff split: if_splits)
  next
    case False
    note i = initialize_ok [OF ok]
    show ?thesis
    proof (cases "seek_group t ls")
      case None
      then have "s' = (msIO_Initialize s)\<lparr>io_context_list := (t, stdio_contexts) # ls\<rparr>"
        using i unfolding s'_def msIO_GetContextGroup_def if_not_P [OF False [unfolded ls_def]] by (simp add: ls_def Let_def)
      moreover have "thread_group t s = stdio_contexts" "t \<notin> fst ` set ls"
        using None by (simp_all add: thread_group_def ls_def seek_group_None flip: map_of_eq_None_iff)
      ultimately show ?thesis using i d by (auto simp: io_ok_def links_ok_def same_io_def ls_def)
    next
      case (Some k)
      note k = seek_group_Some [OF Some]
      have "k \<noteq> 0" using False k by (cases ls; cases k) auto
      then have s': "s' = (msIO_Initialize s)\<lparr>io_context_list := ls ! k # remove_at k ls\<rparr>"
        using Some i unfolding s'_def msIO_GetContextGroup_def if_not_P [OF False [unfolded ls_def]] by (simp add: ls_def Let_def)
      have lk: "ls ! k = (t, snd (ls ! k))" using k by (simp add: prod_eq_iff)
      have tg: "map_of ls t = Some (snd (ls ! k))" using k d lk by (metis map_of_eq_Some_iff nth_mem)
      have "distinct (map fst (ls ! k # remove_at k ls))"
        using distinct_remove_at [of "map fst ls" k] d k by (simp add: remove_at_keys flip: list.set_map)
      moreover have "map_of (ls ! k # remove_at k ls) = (map_of ls)(t \<mapsto> snd (ls ! k))"
        using map_of_remove_at [OF d, of k] k lk by (auto simp: fun_eq_iff)
      ultimately show ?thesis using i tg by (simp add: s' io_ok_def links_ok_def same_io_def thread_group_def ls_def)
    qed
  qed
  then show "io_ok s'" "same_io s' s" "map_of (io_context_list s') = (map_of (io_context_list s))(t \<mapsto> thread_group t s)"
    "is_msIO_initialized s'" "default_contexts s' = stdio_contexts"
    by (auto simp: ls_def)
qed

lemma get_group_view:
  assumes "io_ok s"
  shows "thread_group u (msIO_GetContextGroup t s) = thread_group u s"
    "group_of t (msIO_GetContextGroup t s) = thread_group t s"
  using get_group(3) [OF assms, of t] by (auto simp: thread_group_def group_of_def)

lemma initialize_view: "io_ok s \<Longrightarrow> thread_group u (msIO_Initialize s) = thread_group u s"
  by (simp add: thread_group_def initialize_ok)

lemma map_of_set_group:
  "map_of (map (\<lambda>l. if fst l = t then (t, g) else l) ls) u = (if u = t then map_option (\<lambda>_. g) (map_of ls t) else map_of ls u)"
  by (induction ls) auto

lemma set_group_keys: "map fst (map (\<lambda>l. if fst l = t then (t, g) else l) ls) = map fst ls"
  by (induction ls) auto

lemma handler_ok:
  fixes t :: nat and fp :: io_file
  assumes "io_ok s"
  defines "s' \<equiv> snd (msIO_getHandler t fp s)"
  shows "io_ok s'" "same_io s' s" "thread_group u s' = thread_group u s" "group_of t s' = thread_group t s"
  using get_group(1,2) [OF initialize_ok(1) [OF assms(1)], of t] get_group_view [OF initialize_ok(1) [OF assms(1)]]
    initialize_ok(2) [OF assms(1)] initialize_view [OF assms(1)]
  by (auto simp: s'_def msIO_getHandler_def same_io_def)

lemma install_ok:
  fixes t :: nat and i out e :: "msIOContext option"
  assumes "io_ok s"
  defines "s' \<equiv> msIO_installHandlers t i out e s"
  shows "io_ok s'" "same_io s' s"
    "thread_group u s' = (if u = t then \<lparr>stdin_context = (case i of None \<Rightarrow> stdin_context stdio_contexts | Some x \<Rightarrow> x),
       stdout_context = (case out of None \<Rightarrow> stdout_context stdio_contexts | Some x \<Rightarrow> x),
       stderr_context = (case e of None \<Rightarrow> stderr_context stdio_contexts | Some x \<Rightarrow> x)\<rparr> else thread_group u s)"
proof -
  define s1 where "s1 = msIO_GetContextGroup t (msIO_Initialize s)"
  note i = initialize_ok [OF assms(1)]
  note g = get_group [OF i(1), of t, folded s1_def]
  have s1: "same_io s1 s" using g(2) i(2) by (simp add: same_io_def)
  define x where x: "x = \<lparr>stdin_context = (case i of None \<Rightarrow> stdin_context stdio_contexts | Some x \<Rightarrow> x),
       stdout_context = (case out of None \<Rightarrow> stdout_context stdio_contexts | Some x \<Rightarrow> x),
       stderr_context = (case e of None \<Rightarrow> stderr_context stdio_contexts | Some x \<Rightarrow> x)\<rparr>"
  have s': "s' = set_group t x s1"
    unfolding s'_def msIO_installHandlers_def Let_def s1_def [symmetric] g(5) x ..
  show "io_ok s'" using g(1,4,5) by (simp add: s' io_ok_def set_group_def links_ok_def set_group_keys del: map_map)
  show "same_io s' s" using s1 by (simp add: s' same_io_def set_group_def)
  show "thread_group u s' = (if u = t then \<lparr>stdin_context = (case i of None \<Rightarrow> stdin_context stdio_contexts | Some x \<Rightarrow> x),
       stdout_context = (case out of None \<Rightarrow> stdout_context stdio_contexts | Some x \<Rightarrow> x),
       stderr_context = (case e of None \<Rightarrow> stderr_context stdio_contexts | Some x \<Rightarrow> x)\<rparr> else thread_group u s)"
    unfolding x [symmetric] s' thread_group_def set_group_def using g(3) i(5) by (simp add: map_of_set_group)
qed

section \<open>Buffers\<close>

text \<open>The text a buffer holds; a NUL always follows it.\<close>

definition buf_holds :: "msIOBuffer \<Rightarrow> string \<Rightarrow> bool" where
  "buf_holds buf b \<longleftrightarrow> data_offset buf = length b \<and>
     (case buf_data buf of
        None \<Rightarrow> data_len buf = 0 \<and> b = []
      | Some d \<Rightarrow> length d = data_len buf \<and> length b < data_len buf \<and> take (length b) d = b \<and> d ! length b = NUL)"

text \<open>Below this length no size overflows.\<close>

abbreviation (input) IO_LIMIT :: nat where "IO_LIMIT \<equiv> 715827849"

lemma store_bytes_ok:
  assumes "buf_data buf = Some d" and "length d = data_len buf" and "data_offset buf = length b"
    and "take (length b) d = b" and "length b + length bs < data_len buf"
  obtains buf' where "store_bytes bs buf = Some buf'" "buf_holds buf' (b @ bs)"
proof -
  let ?b = "buf\<lparr>buf_data := Some (b @ bs @ NUL # drop (length b + length bs + 1) d), data_offset := length b + length bs\<rparr>"
  have "store_bytes bs buf = Some ?b" using assms by (simp add: store_bytes_def Let_def)
  moreover have "buf_holds ?b (b @ bs)" using assms by (simp add: buf_holds_def nth_append)
  ultimately show ?thesis by (rule that)
qed

lemma buffer_write:
  assumes h: "buf_holds buf b" and len: "length b + length bs \<le> IO_LIMIT" and al: "\<forall>n. alloc env n"
  obtains buf' where "msIO_bufferWrite env bs buf = Some (length bs, buf', [])" "buf_holds buf' (b @ bs)"
proof (cases "data_len buf \<le> length b + length bs")
  case True
  define grown where "grown = data_len buf * 2 + length bs + 100"
  define old where "old = (case buf_data buf of None \<Rightarrow> [] | Some d \<Rightarrow> d)"
  have lo: "length old = data_len buf" "take (length b) old = b" "data_offset buf = length b"
    using h by (auto simp: buf_holds_def old_def split: option.splits)
  have g: "grown \<le> INT_MAX" using True len by (simp add: grown_def)
  have gl: "length b + length bs < grown" "length (old @ map (junk env) [length old..<grown]) = grown"
    using lo True h by (auto simp: grown_def buf_holds_def split: option.splits)
  have tk: "take (length b) (old @ map (junk env) [length old..<grown]) = b"
    using lo h by (auto simp: buf_holds_def split: option.splits)
  let ?buf = "buf\<lparr>buf_data := Some (old @ map (junk env) [length old..<grown]), data_len := grown\<rparr>"
  obtain buf' where "store_bytes bs ?buf = Some buf'" "buf_holds buf' (b @ bs)"
    by (rule store_bytes_ok [of ?buf "old @ map (junk env) [length old..<grown]" b bs]) (use lo gl tk in simp_all)
  moreover have "msIO_bufferWrite env bs buf = map_option (\<lambda>b. (length bs, b, [])) (store_bytes bs ?buf)"
    using True len g al lo(3) by (simp add: msIO_bufferWrite_def Let_def grown_def old_def)
  ultimately show ?thesis using that by simp
next
  case False
  then obtain d where d: "buf_data buf = Some d" using h by (cases "buf_data buf") (auto simp: buf_holds_def)
  obtain buf' where "store_bytes bs buf = Some buf'" "buf_holds buf' (b @ bs)"
    by (rule store_bytes_ok [of buf d b bs]) (use d h False in \<open>simp_all add: buf_holds_def\<close>)
  moreover have "msIO_bufferWrite env bs buf = map_option (\<lambda>b. (length bs, b, [])) (store_bytes bs buf)"
    using False len h by (simp add: msIO_bufferWrite_def Let_def buf_holds_def)
  ultimately show ?thesis using that by simp
qed

section \<open>Capturing output\<close>

text \<open>
  What a thread can do here, and the run of a sequence of such steps. \<open>olds t\<close> are the contexts that
  thread \<open>t\<close> has been given by its pushes and not yet restored.
\<close>

datatype io_op = Print string | Fwrite string | Push | Pop

type_synonym io_conf = "ioState \<times> (nat \<Rightarrow> msIOContext list)"

definition io_step :: "ioEnv \<Rightarrow> nat \<Rightarrow> io_op \<Rightarrow> io_conf \<Rightarrow> io_conf option" where
  "io_step env t act c =
     (case c of (s, olds) \<Rightarrow>
        case act of
          Print x \<Rightarrow> map_option (\<lambda>r. (fst (snd r), olds)) (msIO_printf env t (Some x) s)
        | Fwrite x \<Rightarrow> map_option (\<lambda>r. (fst (snd r), olds)) (msIO_fwrite env t x (length x) 1 FStdout s)
        | Push \<Rightarrow> (case msIO_pushStdoutToBufferAndGetOldContext t s of (old, s') \<Rightarrow> Some (s', olds(t := old # olds t)))
        | Pop \<Rightarrow> (case olds t of
                     [] \<Rightarrow> None
                   | old # rest \<Rightarrow> map_option (\<lambda>s'. (s', olds(t := rest))) (msIO_restoreOldStdoutContext t old s)))"

fun io_run :: "ioEnv \<Rightarrow> (nat \<times> io_op) list \<Rightarrow> io_conf \<Rightarrow> io_conf option" where
  "io_run env [] c = Some c"
| "io_run env ((t, act) # ops) c = (case io_step env t act c of None \<Rightarrow> None | Some c' \<Rightarrow> io_run env ops c')"

text \<open>The specification: a stack of texts per thread over one shared output.\<close>

type_synonym io_spec = "string \<times> (nat \<Rightarrow> string list)"

definition spec_write :: "nat \<Rightarrow> string \<Rightarrow> io_spec \<Rightarrow> io_spec" where
  "spec_write t x a =
     (case snd a t of [] \<Rightarrow> (fst a @ x, snd a) | b # bs \<Rightarrow> (fst a, (snd a)(t := (b @ x) # bs)))"

definition spec_step :: "nat \<Rightarrow> io_op \<Rightarrow> io_spec \<Rightarrow> io_spec" where
  "spec_step t act a =
     (case act of
        Print x \<Rightarrow> spec_write t x a
      | Fwrite x \<Rightarrow> spec_write t x a
      | Push \<Rightarrow> (fst a, (snd a)(t := [] # snd a t))
      | Pop \<Rightarrow> (fst a, (snd a)(t := tl (snd a t))))"

fun spec_run :: "(nat \<times> io_op) list \<Rightarrow> io_spec \<Rightarrow> io_spec" where
  "spec_run [] a = a"
| "spec_run ((t, act) # ops) a = spec_run ops (spec_step t act a)"

text \<open>Runs that pop only what they pushed and keep each text short enough for an \<open>int\<close>.\<close>

fun op_ok :: "nat \<Rightarrow> io_op \<Rightarrow> io_spec \<Rightarrow> bool" where
  "op_ok t (Print x) a \<longleftrightarrow> length x \<le> IO_LIMIT \<and> (\<forall>b\<in>set (take 1 (snd a t)). length b + length x \<le> IO_LIMIT)"
| "op_ok t (Fwrite x) a \<longleftrightarrow> length x \<le> IO_LIMIT \<and> (\<forall>b\<in>set (take 1 (snd a t)). length b + length x \<le> IO_LIMIT)"
| "op_ok t Push a \<longleftrightarrow> True"
| "op_ok t Pop a \<longleftrightarrow> snd a t \<noteq> []"

fun ops_ok :: "(nat \<times> io_op) list \<Rightarrow> io_spec \<Rightarrow> bool" where
  "ops_ok [] a \<longleftrightarrow> True"
| "ops_ok ((t, act) # ops) a \<longleftrightarrow> op_ok t act a \<and> ops_ok ops (spec_step t act a)"

text \<open>
  The relation between the two: \<open>ks t\<close> are the buffers of thread \<open>t\<close>, the one it writes to first. The
  current context and the saved ones name them in turn, and the C stream at the end.
\<close>

definition holds :: "ioState \<Rightarrow> nat \<Rightarrow> string \<Rightarrow> bool" where
  "holds s k b \<longleftrightarrow> (\<exists>buf. buffers s k = Some buf \<and> buf_holds buf b)"

definition io_rel :: "(nat \<Rightarrow> nat list) \<Rightarrow> io_conf \<Rightarrow> io_spec \<Rightarrow> bool" where
  "io_rel ks c a \<longleftrightarrow>
     io_ok (fst c) \<and> std_out (fst c) = fst a \<and>
     (\<forall>t. stdout_context (thread_group t (fst c)) # snd c t = map (buffer_context True) (ks t) @ [stdio_context True Stdout]) \<and>
     (\<forall>t. list_all2 (holds (fst c)) (ks t) (snd a t)) \<and>
     (\<forall>t. distinct (ks t)) \<and> (\<forall>t u. t \<noteq> u \<longrightarrow> set (ks t) \<inter> set (ks u) = {}) \<and>
     (\<forall>t. \<forall>k\<in>set (ks t). k < next_buffer (fst c))"

lemma vsprintf_fits:
  assumes al: "\<forall>n. alloc env n" and len: "length x \<le> IO_LIMIT" and k: "k \<le> 8"
  shows "\<exists>sz. vsprintf_loop env (Some x) k = Some (Some sz) \<and> length x < sz - 1"
  using k
proof (induction "8 - k" arbitrary: k)
  case 0
  then have "k = 8" by simp
  then show ?case using len by (subst vsprintf_loop.simps) (auto simp: Let_def)
next
  case (Suc n)
  then have k: "n = 8 - (k + 1)" "k + 1 \<le> 8" by auto
  have "(16000::nat) * 4 ^ k * 4 \<le> 16000 * 4 ^ 8"
    using power_increasing [of "k + 1" 8 "4::nat"] k by simp
  then have "16000 * 4 ^ k * 4 \<le> INT_MAX" by simp
  then show ?case using Suc(1) [OF k] al by (subst vsprintf_loop.simps) (auto simp: Let_def)
qed

lemma printf_writes:
  assumes al: "\<forall>n. alloc env n" and len: "length x \<le> IO_LIMIT"
  shows "msIO_vfprintf env t fp (Some x) s = map_option (\<lambda>(n, s', fs). (Some n, s', fs)) (write_to env t x fp s)"
proof (cases "length x \<ge> 8000 - 1")
  case True
  obtain sz where "vsprintf_loop env (Some x) 0 = Some (Some sz)" "length x < sz - 1"
    using vsprintf_fits [OF al len, of 0] by auto
  then have "ms_vsprintf env (Some x) = Some (Some x, [])" using al by (simp add: ms_vsprintf_def)
  then show ?thesis using True by (simp add: msIO_vfprintf_def)
qed (simp add: msIO_vfprintf_def)

lemma holds_cong:
  assumes "\<And>k. k \<in> set ks \<Longrightarrow> buffers s k = buffers s' k"
  shows "list_all2 (holds s) ks bs \<longleftrightarrow> list_all2 (holds s') ks bs"
  using assms by (auto simp: list_all2_conv_all_nth holds_def)

lemma holds_other:
  "buffers s' = (buffers s)(k := v) \<Longrightarrow> k \<notin> set ks \<Longrightarrow> list_all2 (holds s') ks bs = list_all2 (holds s) ks bs"
  by (rule holds_cong) auto

lemma io_relD:
  assumes "io_rel ks (s, olds) a"
  shows "io_ok s" "std_out s = fst a"
    "stdout_context (thread_group t s) # olds t = map (buffer_context True) (ks t) @ [stdio_context True Stdout]"
    "list_all2 (holds s) (ks t) (snd a t)" "distinct (ks t)" "t \<noteq> u \<Longrightarrow> set (ks t) \<inter> set (ks u) = {}"
    "k \<in> set (ks t) \<Longrightarrow> k < next_buffer s"
  using assms by (simp_all add: io_rel_def)

lemma io_relI:
  assumes "io_ok s" "std_out s = fst a"
    "\<And>t. stdout_context (thread_group t s) # olds t = map (buffer_context True) (ks t) @ [stdio_context True Stdout]"
    "\<And>t. list_all2 (holds s) (ks t) (snd a t)" "\<And>t. distinct (ks t)" "\<And>t u. t \<noteq> u \<Longrightarrow> set (ks t) \<inter> set (ks u) = {}"
    "\<And>t k. k \<in> set (ks t) \<Longrightarrow> k < next_buffer s"
  shows "io_rel ks (s, olds) a"
  using assms by (simp add: io_rel_def)

text \<open>The relation reads of the state only what the bookkeeping of groups leaves alone.\<close>

lemma io_rel_same:
  assumes rel: "io_rel ks (s, olds) a" and ok: "io_ok s'" and same: "same_io s' s"
    and view: "\<And>u. thread_group u s' = thread_group u s"
  shows "io_rel ks (s', olds) a"
proof (rule io_relI)
  fix t
  show "list_all2 (holds s') (ks t) (snd a t)"
    using io_relD(4) [OF rel, of t] same holds_cong [of "ks t" s' s] by (simp add: same_io_def)
qed (use io_relD [OF rel] ok same view in \<open>auto simp: same_io_def\<close>)

text \<open>Replacing the text on top of the stack of one thread.\<close>

lemma set_top:
  assumes rel: "io_rel ks (s, olds) a" and k: "ks t = k # kt" and a: "snd a t = b # bs" and h: "buf_holds buf' b'"
  shows "io_rel ks (s\<lparr>buffers := (buffers s)(k \<mapsto> buf')\<rparr>, olds) (fst a, (snd a)(t := b' # bs))"
proof (rule io_relI)
  let ?s' = "s\<lparr>buffers := (buffers s)(k \<mapsto> buf')\<rparr>"
  fix u
  show "list_all2 (holds ?s') (ks u) (snd (fst a, (snd a)(t := b' # bs)) u)"
  proof (cases "u = t")
    case True
    have "k \<notin> set kt" using io_relD(5) [OF rel, of t] k by simp
    then have "list_all2 (holds ?s') kt bs" using io_relD(4) [OF rel, of t] k a holds_other [of ?s' s k _ kt] by simp
    then show ?thesis using True k h by (simp add: holds_def)
  next
    case False
    then have "k \<notin> set (ks u)" using io_relD(6) [OF rel, of u t] k by auto
    then show ?thesis using False io_relD(4) [OF rel, of u] holds_other [of ?s' s k _ "ks u"] by simp
  qed
qed (use io_relD [OF rel] in \<open>auto simp: io_ok_def thread_group_def\<close>)

lemma write_sim:
  assumes al: "\<forall>n. alloc env n" and rel: "io_rel ks (s, olds) a"
    and len: "\<forall>b\<in>set (take 1 (snd a t)). length b + length x \<le> IO_LIMIT"
  shows "\<exists>s'. write_to env t x FStdout s = Some (length x, s', []) \<and> io_rel ks (s', olds) (spec_write t x a)
    \<and> is_msIO_header_enabled s' = is_msIO_header_enabled s"
proof -
  define s1 where "s1 = snd (msIO_getHandler t FStdout s)"
  note h = handler_ok [OF io_relD(1) [OF rel], where t = t and fp = FStdout, folded s1_def]
  have rel1: "io_rel ks (s1, olds) a" by (rule io_rel_same [OF rel h(1,2,3)])
  have w: "write_to env t x FStdout s = msIO_contextWrite env (stdout_context (thread_group t s)) x s1"
    using h(4) by (simp add: write_to_def msIO_getHandler_def context_of_def s1_def)
  note top = io_relD(3,4) [OF rel, of t]
  show ?thesis
  proof (cases "ks t")
    case Nil
    have c: "stdout_context (thread_group t s) = stdio_context True Stdout" "snd a t = []" using top Nil by auto
    define s' where "s' = s1\<lparr>std_out := std_out s1 @ x\<rparr>"
    have "write_to env t x FStdout s = Some (length x, s', [])"
      by (simp add: w c stdio_context_def msIO_contextWrite_def msIO_stdioWrite_def s'_def)
    moreover have "io_rel ks (s', olds) (fst a @ x, snd a)"
    proof (rule io_relI)
      fix u
      show "list_all2 (holds s') (ks u) (snd (fst a @ x, snd a) u)"
        using io_relD(4) [OF rel1, of u] holds_cong [of "ks u" s' s1] by (simp add: s'_def)
    qed (use io_relD [OF rel1] in \<open>auto simp: s'_def io_ok_def thread_group_def\<close>)
    ultimately show ?thesis using h(2) by (simp add: spec_write_def c s'_def same_io_def)
  next
    case (Cons k kt)
    obtain b bs where a: "snd a t = b # bs" using top(2) Cons by (cases "snd a t") auto
    obtain buf where buf: "buffers s1 k = Some buf" "buf_holds buf b"
      using io_relD(4) [OF rel1, of t] Cons a by (auto simp: holds_def)
    have c: "stdout_context (thread_group t s) = buffer_context True k" using top(1) Cons by simp
    obtain buf' where bw: "msIO_bufferWrite env x buf = Some (length x, buf', [])" "buf_holds buf' (b @ x)"
      using buffer_write [OF buf(2) _ al] len a by auto
    define s' where "s' = s1\<lparr>buffers := (buffers s1)(k \<mapsto> buf')\<rparr>"
    have "write_to env t x FStdout s = Some (length x, s', [])"
      by (simp add: w c buffer_context_def msIO_contextWrite_def buf bw s'_def)
    moreover have "io_rel ks (s', olds) (fst a, (snd a)(t := (b @ x) # bs))"
      unfolding s'_def by (rule set_top [OF rel1 Cons a bw(2)])
    ultimately show ?thesis using h(2) by (simp add: spec_write_def a s'_def same_io_def)
  qed
qed


lemma push_sim:
  assumes rel: "io_rel ks (s, olds) a" and p: "msIO_pushStdoutToBufferAndGetOldContext t s = (old, s')"
  shows "\<exists>ks'. io_rel ks' (s', olds(t := old # olds t)) (fst a, (snd a)(t := [] # snd a t))
    \<and> is_msIO_header_enabled s' = is_msIO_header_enabled s"
proof -
  define s1 where "s1 = msIO_GetContextGroup t (msIO_GetContextGroup t s)"
  define n where "n = next_buffer s1"
  note ok = io_relD(1) [OF rel]
  note ok1 = get_group(1) [OF ok, where t = t]
  have s1: "io_ok s1" "same_io s1 s" "\<And>u. thread_group u s1 = thread_group u s" "group_of t s1 = thread_group t s"
    using get_group(1,2) [OF ok1, where t = t] get_group(2) [OF ok, where t = t] get_group_view [OF ok1] get_group_view [OF ok]
    by (simp_all add: s1_def same_io_def)
  have rel1: "io_rel ks (s1, olds) a" by (rule io_rel_same [OF rel s1(1-3)])
  have ok2: "io_ok (new_buffer s1)" and view2: "thread_group u (new_buffer s1) = thread_group u s" for u
    using s1 by (simp_all add: new_buffer_def io_ok_def thread_group_def)
  define g where "g = thread_group t s"
  have s': "s' = msIO_installHandlers t (Some (stdin_context g)) (Some (buffer_context True n)) (Some (stderr_context g)) (new_buffer s1)"
    and old: "old = stdout_context g"
    using p get_group_view(2) [OF ok] s1(4)
    by (simp_all add: msIO_pushStdoutToBufferAndGetOldContext_def msIO_installStdoutToBuffer_def Let_def s1_def g_def n_def)
  note i = install_ok [OF ok2, where t = t and i = "Some (stdin_context g)" and out = "Some (buffer_context True n)"
    and e = "Some (stderr_context g)", folded s']
  have b: "buffers s' = (buffers s1)(n \<mapsto> \<lparr>buf_data = None, data_len = 0, data_offset = 0\<rparr>)" "next_buffer s' = n + 1"
    "std_out s' = std_out s1"
    using i(2) by (simp_all add: same_io_def new_buffer_def n_def)
  have fresh: "n \<notin> set (ks u)" for u using io_relD(7) [OF rel1, of n u] by (auto simp: n_def)
  have hold: "list_all2 (holds s') (ks u) (snd a u)" for u
    using io_relD(4) [OF rel1, of u] holds_other [OF b(1) fresh] by simp
  have "io_rel (ks(t := n # ks t)) (s', olds(t := old # olds t)) (fst a, (snd a)(t := [] # snd a t))"
  proof (rule io_relI)
    fix u
    show "list_all2 (holds s') ((ks(t := n # ks t)) u) (snd (fst a, (snd a)(t := [] # snd a t)) u)"
      using hold [of u] hold [of t] by (auto simp: holds_def b buf_holds_def)
    show "stdout_context (thread_group u s') # (olds(t := old # olds t)) u
        = map (buffer_context True) ((ks(t := n # ks t)) u) @ [stdio_context True Stdout]"
      using io_relD(3) [OF rel, of u] by (cases "u = t") (simp_all add: i(3) view2 old g_def)
  next
    fix u k assume "k \<in> set ((ks(t := n # ks t)) u)"
    then show "k < next_buffer s'" using io_relD(7) [OF rel1, of k] by (auto simp: b n_def split: if_splits intro: less_SucI)
  qed (use i(1) io_relD(2,5,6) [OF rel1] b fresh in \<open>auto split: if_splits\<close>)
  moreover have "is_msIO_header_enabled s' = is_msIO_header_enabled s"
    using i(2) s1(2) by (simp add: same_io_def new_buffer_def)
  ultimately show ?thesis by blast
qed

lemma pop_sim:
  assumes rel: "io_rel ks (s, olds) a" and ne: "snd a t \<noteq> []"
  shows "\<exists>old rest s' ks'. olds t = old # rest \<and> msIO_restoreOldStdoutContext t old s = Some s'
    \<and> io_rel ks' (s', olds(t := rest)) (fst a, (snd a)(t := tl (snd a t)))"
proof -
  define s1 where "s1 = msIO_GetContextGroup t s"
  note ok = io_relD(1) [OF rel]
  have s1: "io_ok s1" "same_io s1 s" "\<And>u. thread_group u s1 = thread_group u s" "group_of t s1 = thread_group t s"
    using get_group(1,2) [OF ok, where t = t] get_group_view [OF ok] by (simp_all add: s1_def)
  have rel1: "io_rel ks (s1, olds) a" by (rule io_rel_same [OF rel s1(1-3)])
  define g where "g = thread_group t s"
  obtain b bs where a: "snd a t = b # bs" using ne by (cases "snd a t") auto
  then obtain k kt where k: "ks t = k # kt" using io_relD(4) [OF rel, of t] by (cases "ks t") auto
  have top: "stdout_context g = buffer_context True k" "olds t = map (buffer_context True) kt @ [stdio_context True Stdout]"
    using io_relD(3) [OF rel, of t] k by (simp_all add: g_def)
  then obtain old rest where o: "olds t = old # rest" by (cases kt) auto
  define s2 where "s2 = s1\<lparr>buffers := (buffers s1)(k := None)\<rparr>"
  have ok2: "io_ok s2" and view2: "thread_group u s2 = thread_group u s" for u
    using s1 by (simp_all add: s2_def io_ok_def thread_group_def)
  define s' where "s' = msIO_installHandlers t (Some (stdin_context g)) (Some old) (Some (stderr_context g)) s2"
  have "buffers s1 k \<noteq> None" using io_relD(4) [OF rel1, of t] k a by (auto simp: holds_def)
  then have res: "msIO_restoreOldStdoutContext t old s = Some s'"
    using s1(4) top(1) by (simp add: msIO_restoreOldStdoutContext_def Let_def free_buffer_def buffer_context_def s'_def s2_def
        flip: s1_def g_def)
  note i = install_ok [OF ok2, where t = t and i = "Some (stdin_context g)" and out = "Some old"
    and e = "Some (stderr_context g)", folded s'_def]
  have b: "buffers s' = (buffers s1)(k := None)" "next_buffer s' = next_buffer s1" "std_out s' = std_out s1"
    using i(2) by (simp_all add: same_io_def s2_def)
  have kt: "k \<notin> set kt" and ku: "u \<noteq> t \<Longrightarrow> k \<notin> set (ks u)" for u
    using io_relD(5,6) [OF rel1, of t] k by auto
  have "io_rel (ks(t := kt)) (s', olds(t := rest)) (fst a, (snd a)(t := bs))"
  proof (rule io_relI)
    fix u
    show "list_all2 (holds s') ((ks(t := kt)) u) (snd (fst a, (snd a)(t := bs)) u)"
    proof (cases "u = t")
      case True
      then show ?thesis using io_relD(4) [OF rel1, of t] k a holds_other [OF b(1) kt] by simp
    next
      case False
      then show ?thesis using io_relD(4) [OF rel1, of u] holds_other [OF b(1) ku [OF False]] by simp
    qed
    show "stdout_context (thread_group u s') # (olds(t := rest)) u
        = map (buffer_context True) ((ks(t := kt)) u) @ [stdio_context True Stdout]"
      using io_relD(3) [OF rel, of u] top(2) o by (simp add: i(3) view2)
    have sub: "set ((ks(t := kt)) u) \<subseteq> set (ks u)" for u using k by auto
    show "set ((ks(t := kt)) u) \<inter> set ((ks(t := kt)) v) = {}" if "u \<noteq> v" for v
      using io_relD(6) [OF rel1 that] sub [of u] sub [of v] by blast
    show "j < next_buffer s'" if "j \<in> set ((ks(t := kt)) u)" for j
      using io_relD(7) [OF rel1, of j u] sub [of u] that b by auto
    show "distinct ((ks(t := kt)) u)" using io_relD(5) [OF rel1, of u] k by auto
  qed (use i(1) io_relD(2) [OF rel1] b in simp_all)
  then show ?thesis using o res a by auto
qed

lemma step_sim:
  assumes al: "\<forall>n. alloc env n" and rel: "io_rel ks c a" and ok: "op_ok t act a"
  shows "\<exists>c' ks'. io_step env t act c = Some c' \<and> io_rel ks' c' (spec_step t act a)"
proof -
  obtain s olds where c: "c = (s, olds)" by (cases c)
  show ?thesis
  proof (cases act)
    case (Print x)
    with ok obtain s' where "write_to env t x FStdout s = Some (length x, s', [])" "io_rel ks (s', olds) (spec_write t x a)"
      using write_sim [OF al rel [unfolded c], of t x] by auto
    then show ?thesis
      using printf_writes [OF al, of x] Print ok by (auto simp: io_step_def c msIO_printf_def spec_step_def)
  next
    case (Fwrite x)
    with ok obtain s' where w: "write_to env t x FStdout s = Some (length x, s', [])" "io_rel ks (s', olds) (spec_write t x a)"
      using write_sim [OF al rel [unfolded c], of t x] by auto
    show ?thesis
    proof (cases "x = []")
      case True
      then have "spec_write t x a = a" by (simp add: spec_write_def fun_upd_idem split: list.split)
      then show ?thesis using True Fwrite rel by (auto simp: io_step_def c msIO_fwrite_def spec_step_def)
    next
      case False
      then show ?thesis using Fwrite ok w by (auto simp: io_step_def c msIO_fwrite_def spec_step_def)
    qed
  next
    case Push
    obtain old s' where p: "msIO_pushStdoutToBufferAndGetOldContext t s = (old, s')" by fastforce
    then show ?thesis using push_sim [OF rel [unfolded c] p] Push by (auto simp: io_step_def c spec_step_def)
  next
    case Pop
    then show ?thesis using pop_sim [OF rel [unfolded c], of t] ok by (auto simp: io_step_def c spec_step_def)
  qed
qed

lemma run_sim:
  "\<forall>n. alloc env n \<Longrightarrow> io_rel ks c a \<Longrightarrow> ops_ok ops a \<Longrightarrow>
   \<exists>c' ks'. io_run env ops c = Some c' \<and> io_rel ks' c' (spec_run ops a)"
proof (induction ops arbitrary: ks c a)
  case (Cons p ops)
  obtain t act where p: "p = (t, act)" by (cases p)
  with Cons.prems obtain c1 ks1 where "io_step env t act c = Some c1" "io_rel ks1 c1 (spec_step t act a)"
    using step_sim [of env ks c a t act] by auto
  then show ?case using Cons.IH [of ks1 c1 "spec_step t act a"] Cons.prems by (auto simp: p)
qed auto

text \<open>The state of the library before its first use; the default contexts are not set yet.\<close>

definition io_start :: "msIOContextGroup \<Rightarrow> string \<Rightarrow> ioState" where
  "io_start unset input =
     \<lparr>is_msIO_initialized = False, is_msIO_header_enabled = True, default_contexts = unset, io_context_list = [],
      buffers = Map.empty, next_buffer = 0, std_in = input, std_out = [], std_err = [], files = (\<lambda>_. [])\<rparr>"

lemma io_rel_start: "io_rel (\<lambda>_. []) (io_start unset input, \<lambda>_. []) ([], \<lambda>_. [])"
  by (simp add: io_rel_def io_start_def io_ok_def links_ok_def thread_group_def stdio_contexts_def)

text \<open>C19. Output goes where the thread that writes it has sent it, whatever other threads do in
  between. Suppose that every allocation succeeds, that no text that is written, and no text that a capture
  buffer holds, is longer than 715827849 bytes, and that each restore follows a push of the same thread
  that is still open. Then, from the start of the program, every interleaving of \<open>msIO_printf\<close>,
  \<open>msIO_fwrite\<close>, \<open>msIO_pushStdoutToBufferAndGetOldContext\<close> and \<open>msIO_restoreOldStdoutContext\<close> of any
  number of threads runs without reaching freed memory or overflowing a buffer, and leaves exactly
  what the specification says: each thread has a stack of captured texts, a write extends the text on
  top of the writer's own stack or the real standard output if that is empty, and a restore brings
  back what was there before the push. (When the allocation for a longer buffer fails, the code
  writes behind the old one: \<open>write_after_failed_realloc\<close>.)\<close>

theorem io_capture:
  assumes "\<forall>n. alloc env n" and "ops_ok ops ([], \<lambda>_. [])"
  shows "\<exists>s olds ks. io_run env ops (io_start unset input, \<lambda>_. []) = Some (s, olds)
    \<and> io_rel ks (s, olds) (spec_run ops ([], \<lambda>_. []))"
  using run_sim [OF assms(1) io_rel_start assms(2)] by fastforce

definition plenty :: ioEnv where
  "plenty = \<lparr>alloc = (\<lambda>_. True), junk = (\<lambda>_. NUL)\<rparr>"

theorem io_capture_witness:
  "\<exists>s olds ks. io_run plenty [(1, Print ''a''), (1, Push), (2, Print ''b''), (1, Print ''c''), (2, Push), (1, Fwrite ''d''), (2, Pop), (2, Print ''e'')]
      (io_start stdio_contexts [], \<lambda>_. []) = Some (s, olds)
    \<and> std_out s = ''abe'' \<and> list_all2 (holds s) (ks (1::nat)) [''cd'']"
proof -
  let ?ops = "[(1, Print ''a''), (1, Push), (2, Print ''b''), (1, Print ''c''), (2, Push), (1, Fwrite ''d''), (2, Pop), (2, Print ''e'')]"
  have al: "\<forall>n. alloc plenty n" by (simp add: plenty_def)
  have ok: "ops_ok ?ops ([], \<lambda>_. [])" by (simp add: spec_step_def spec_write_def)
  have sp: "fst (spec_run ?ops ([], \<lambda>_. [])) = ''abe''" "snd (spec_run ?ops ([], \<lambda>_. [])) 1 = [''cd'']"
    by (simp_all add: spec_step_def spec_write_def)
  from io_capture [OF al ok, of stdio_contexts "[]"] obtain s olds ks where
    "io_run plenty ?ops (io_start stdio_contexts [], \<lambda>_. []) = Some (s, olds)"
    and rel: "io_rel ks (s, olds) (spec_run ?ops ([], \<lambda>_. []))" by blast
  moreover have "std_out s = ''abe''" "list_all2 (holds s) (ks (1::nat)) [''cd'']"
    using io_relD(2) [OF rel] io_relD(4) [OF rel, of 1] unfolding sp by simp_all
  ultimately show ?thesis by blast
qed

section \<open>Headers written and taken off again\<close>

fun set_headers :: "ioEnv \<Rightarrow> nat \<Rightarrow> (string \<times> string) list \<Rightarrow> ioState \<Rightarrow> ioState option" where
  "set_headers env t [] s = Some s"
| "set_headers env t ((k, v) # hs) s =
     (case msIO_setHeader env t k (Some v) s of None \<Rightarrow> None | Some (s', _) \<Rightarrow> set_headers env t hs s')"

fun header_text :: "(string \<times> string) list \<Rightarrow> string" where
  "header_text [] = []"
| "header_text ((k, v) # hs) = k @ '': '' @ v @ CRLF @ header_text hs"

text \<open>Names and values that the line scanner can take apart.\<close>

definition plain_chars :: "string \<Rightarrow> bool" where
  "plain_chars w \<longleftrightarrow> (\<forall>c\<in>set w. c \<noteq> CHR 0x0D \<and> c \<noteq> CHR '':'' \<and> c \<noteq> NUL)"

definition plain_headers :: "(string \<times> string) list \<Rightarrow> bool" where
  "plain_headers hs \<longleftrightarrow> (\<forall>(k, v)\<in>set hs. plain_chars k \<and> plain_chars v)"

lemma scan_plain:
  assumes "\<forall>c\<in>set w. c \<noteq> CHR 0x0D \<and> c \<noteq> CHR '':''" and "length pre + length w \<le> off"
  shows "scan_header (pre @ w @ r) off (length pre) col = scan_header (pre @ w @ r) off (length pre + length w) col"
  using assms
proof (induction w arbitrary: pre)
  case (Cons c w)
  have "scan_header (pre @ (c # w) @ r) off (length pre) col = scan_header (pre @ (c # w) @ r) off (length pre + 1) col"
    using Cons.prems by (subst scan_header.simps) (simp add: nth_append)
  also have "\<dots> = scan_header ((pre @ [c]) @ w @ r) off (length (pre @ [c])) col" by simp
  also have "\<dots> = scan_header ((pre @ [c]) @ w @ r) off (length (pre @ [c]) + length w) col"
    using Cons.prems by (intro Cons.IH) auto
  finally show ?case by simp
qed simp

lemma scan_header_line:
  assumes "plain_chars k" and "plain_chars v" and "length pre + length k + length v + 4 \<le> off"
  shows "scan_header (pre @ k @ '': '' @ v @ CRLF @ r) off (length pre) None
    = (length pre + length k + 2 + length v, Some (length pre + length k))"
proof -
  let ?d = "pre @ k @ '': '' @ v @ CRLF @ r" and ?p = "length pre + length k"
  have "scan_header ?d off (length pre) None = scan_header ?d off ?p None"
    using scan_plain [of k pre off] assms by (simp add: plain_chars_def)
  also have "\<dots> = scan_header ?d off (?p + 1) (Some ?p)"
    using assms(3) by (subst scan_header.simps) (simp add: nth_append)
  also have "\<dots> = scan_header ((pre @ k @ '':'') @ ('' '' @ v) @ CRLF @ r) off (length (pre @ k @ '':'')) (Some ?p)" by simp
  also have "\<dots> = scan_header ((pre @ k @ '':'') @ ('' '' @ v) @ CRLF @ r) off (length (pre @ k @ '':'') + length ('' '' @ v)) (Some ?p)"
    using assms by (intro scan_plain) (auto simp: plain_chars_def)
  also have "\<dots> = scan_header ((pre @ k @ '': '' @ v) @ CRLF @ r) off (length (pre @ k @ '': '' @ v)) (Some ?p)"
    by (simp add: add.assoc)
  also have "\<dots> = (length (pre @ k @ '': '' @ v), Some ?p)"
    using assms(3) by (subst scan_header.simps) (simp add: nth_append)
  finally show ?thesis by simp
qed

lemma c_string_plain: "plain_chars w \<Longrightarrow> c_string w = w"
  unfolding c_string_def by (rule takeWhile_eq_all_conv [THEN iffD2]) (auto simp: plain_chars_def)


lemma mime_lines:
  assumes "plain_headers hs" and "hs \<noteq> []" and "off = length pre + length (header_text hs) + 2 + m"
  shows "mime_headers (pre @ header_text hs @ CRLF @ r) off (length pre) (Some tbl)
    = Found (Some (ht.writes tbl hs)) (length pre + length (header_text hs) + 2)"
  using assms
proof (induction hs arbitrary: pre tbl)
  case (Cons h hs)
  obtain k v where h: "h = (k, v)" by (cases h)
  let ?rest = "header_text hs @ CRLF @ r" and ?pre' = "pre @ k @ '': '' @ v @ CRLF"
  let ?d = "pre @ k @ '': '' @ v @ CRLF @ ?rest"
  have d: "pre @ header_text (h # hs) @ CRLF @ r = ?d" "?d = ?pre' @ ?rest" by (simp_all add: h)
  have pl: "plain_chars k" "plain_chars v" using Cons.prems(1) by (simp_all add: plain_headers_def h)
  have off: "off = length ?pre' + length (header_text hs) + 2 + m" using Cons.prems(3) by (simp add: h)
  have sc: "scan_header ?d off (length pre) None = (length pre + length k + 2 + length v, Some (length pre + length k))"
    using off by (intro scan_header_line [OF pl]) simp
  have key: "c_string (take (length k) (drop (length pre) ?d)) = k" using pl by (simp add: c_string_plain)
  have "drop (length pre + length k + 2) ?d = v @ CRLF @ ?rest" by simp
  then have val: "c_string (take (length v) (drop (length pre + length k + 2) ?d)) = v" using pl by (simp add: c_string_plain)
  have nxt: "?d ! (length ?pre') = ?rest ! 0" "?d ! (length ?pre' + 1) = ?rest ! 1" unfolding d(2) by (simp_all only: nth_append_length_plus nth_append_length) (simp_all add: nth_append)
  have step: "mime_headers ?d off (length pre) (Some tbl) =
      (if ?rest ! 0 = CHR 0x0D then
         (if length ?pre' + 1 = off \<or> ?rest ! 1 \<noteq> CHR 0x0A then Corrupt else Found (Some (tbl_insert tbl k v)) (length ?pre' + 2))
       else mime_headers ?d off (length ?pre') (Some (tbl_insert tbl k v)))"
  proof -
    have o: "length pre + length k + 2 + length v \<noteq> off" "length pre + length k + 2 + length v + 2 = length ?pre'" "length ?pre' \<noteq> off"
      using off by simp_all
    have kl: "length pre + length k - length pre = length k" "length pre + length k + 2 + length v - (length pre + length k + 2) = length v"
      by simp_all
    show ?thesis
      by (subst mime_headers.simps)
         (simp only: sc prod.case option.case Let_def kl key val o if_False nxt msInsertHashTable_Some fst_conv snd_conv)
  qed
  show ?case
  proof (cases hs)
    case Nil
    then show ?thesis using step off unfolding d by (simp add: h)
  next
    case (Cons h' hs')
    then have ne: "hs \<noteq> []" by simp
    obtain k' v' where h': "h' = (k', v')" by (cases h')
    have "plain_chars k'" using Cons.prems(1) Cons by (simp add: plain_headers_def h')
    then have "?rest ! 0 \<noteq> CHR 0x0D" using Cons h' by (cases k') (auto simp: plain_chars_def)
    then show ?thesis
      using step Cons.IH [OF _ ne off, of "tbl_insert tbl k v"] Cons.prems(1) unfolding d by (simp add: h plain_headers_def)
  qed
qed simp


lemma spec_write_append: "spec_write t y (spec_write t x a) = spec_write t (x @ y) a"
  by (auto simp: spec_write_def split: list.split)

lemma spec_write_top: "snd a t = b # bs \<Longrightarrow> spec_write t x a = (fst a, (snd a)(t := (b @ x) # bs))"
  by (simp add: spec_write_def)

lemma print_all_sim:
  assumes al: "\<forall>n. alloc env n"
  shows "io_rel ks (s, olds) a \<Longrightarrow> snd a t = b # bs \<Longrightarrow> length b + length (concat xs) \<le> IO_LIMIT \<Longrightarrow>
    \<exists>s'. print_all env t (map Some xs) s = Some (s', []) \<and> io_rel ks (s', olds) (spec_write t (concat xs) a)
      \<and> is_msIO_header_enabled s' = is_msIO_header_enabled s"
proof (induction xs arbitrary: s a b)
  case Nil
  then show ?case by (simp add: spec_write_def fun_upd_idem)
next
  case (Cons x xs)
  obtain s1 where w: "write_to env t x FStdout s = Some (length x, s1, [])" "io_rel ks (s1, olds) (spec_write t x a)"
    "is_msIO_header_enabled s1 = is_msIO_header_enabled s"
    using write_sim [OF al Cons.prems(1), of t x] Cons.prems(2,3) by auto
  have p: "msIO_vfprintf env t FStdout (Some x) s = Some (Some (length x), s1, [])"
    using printf_writes [OF al, of x] w(1) Cons.prems(3) by simp
  have "snd (spec_write t x a) t = (b @ x) # bs" using Cons.prems(2) by (simp add: spec_write_top)
  from Cons.IH [OF w(2) this] Cons.prems(3) show ?case using p w(3) by (auto simp: spec_write_append)
qed

lemma set_headers_sim:
  assumes al: "\<forall>n. alloc env n"
  shows "io_rel ks (s, olds) a \<Longrightarrow> snd a t = b # bs \<Longrightarrow> is_msIO_header_enabled s \<Longrightarrow>
    length b + length (header_text hs) \<le> IO_LIMIT \<Longrightarrow>
    \<exists>s'. set_headers env t hs s = Some s' \<and> io_rel ks (s', olds) (spec_write t (header_text hs) a) \<and> is_msIO_header_enabled s'"
proof (induction hs arbitrary: s a b)
  case Nil
  then show ?case by (simp add: spec_write_def fun_upd_idem)
next
  case (Cons h hs)
  obtain k v where h: "h = (k, v)" by (cases h)
  let ?x = "k @ '': '' @ v @ CRLF"
  obtain s1 where s1: "msIO_setHeader env t k (Some v) s = Some (s1, [])" "io_rel ks (s1, olds) (spec_write t ?x a)"
    "is_msIO_header_enabled s1"
    using print_all_sim [OF al Cons.prems(1,2), of "[k @ '': '', v, CRLF]"] Cons.prems(3,4) by (auto simp: msIO_setHeader_def h)
  have "snd (spec_write t ?x a) t = (b @ ?x) # bs" using Cons.prems(2) by (simp add: spec_write_top)
  from Cons.IH [OF s1(2) this s1(3)] Cons.prems(4) show ?case using s1(1) by (auto simp: h spec_write_append)
qed

text \<open>Taking the front off the text on top of a thread's stack.\<close>

lemma strip_sim:
  assumes rel: "io_rel ks (s, olds) a" and a: "snd a t = (front @ body) # bs" and ne: "front \<noteq> []"
    and scan: "\<And>r. scan (front @ body @ r) (length front + length body) = Found x (length front)"
  shows "\<exists>s'. strip_buffer routine msg scan t s = Some (Some x, s', []) \<and> io_rel ks (s', olds) (fst a, (snd a)(t := body # bs))"
proof -
  define s1 where "s1 = snd (msIO_getHandler t (FText ''stdout'') s)"
  note h = handler_ok [OF io_relD(1) [OF rel], where t = t and fp = "FText ''stdout''", folded s1_def]
  have rel1: "io_rel ks (s1, olds) a" by (rule io_rel_same [OF rel h(1,2,3)])
  obtain k kt where k: "ks t = k # kt" using io_relD(4) [OF rel, of t] a by (cases "ks t") auto
  have "stdout_context (thread_group t s) = buffer_context True k" using io_relD(3) [OF rel, of t] k by simp
  then have sb: "stdout_buffer t s = (Some k, s1)"
    using h(4) by (simp add: stdout_buffer_def buffer_context_def flip: s1_def)
  obtain buf where buf: "buffers s1 k = Some buf" "buf_holds buf (front @ body)"
    using io_relD(4) [OF rel1, of t] k a by (auto simp: holds_def)
  then obtain d where d: "buf_data buf = Some d" using ne by (cases "buf_data buf") (auto simp: buf_holds_def)
  have off: "data_offset buf = length front + length body" and tk: "take (length (front @ body)) d = front @ body"
    and ld: "length d = data_len buf" "length front + length body < data_len buf"
    using buf(2) d by (simp_all add: buf_holds_def)
  obtain r where dr: "d = front @ body @ r" using append_take_drop_id [of "length (front @ body)" d] unfolding tk by (metis append_assoc)
  define buf' where "buf' = buf\<lparr>buf_data := Some (take (length body) (drop (length front) d) @ NUL # drop (length body + 1) d),
    data_offset := length body\<rparr>"
  have df: "drop_front (length front) buf = Some buf'" by (simp add: drop_front_def d off buf'_def Let_def)
  have "buf_holds buf' body" using ld by (simp add: buf_holds_def buf'_def dr nth_append)
  from set_top [OF rel1 k a this]
  have "io_rel ks (set_buffer k buf' s1, olds) (fst a, (snd a)(t := body # bs))" by (simp add: set_buffer_def)
  moreover have "strip_buffer routine msg scan t s = Some (Some x, set_buffer k buf' s1, [])"
    using scan [of r] by (simp add: strip_buffer_def sb buf buffer_bytes_def d off df dr)
  ultimately show ?thesis by blast
qed

text \<open>C20. The headers of a captured response come back as they were set: when a thread writes any
  headers with \<open>msIO_setHeader\<close>, closes them with \<open>msIO_sendHeaders\<close> and prints a body into a fresh
  capture buffer, then \<open>msIO_getAndStripStdoutBufferMimeHeaders\<close> returns a table in which every name, in
  any spelling, has the last value set for it and no other name is present, and leaves exactly the body
  in the buffer. There is at least one header, names and values must not contain a colon, a carriage
  return or a NUL, headers are enabled, every allocation succeeds, and headers and body together have
  at most 715827849 bytes.\<close>

theorem mime_roundtrip:
  assumes al: "\<forall>n. alloc env n" and rel: "io_rel ks (s, olds) a" and a: "snd a t = [] # bs"
    and en: "is_msIO_header_enabled s" and hs: "plain_headers hs" "hs \<noteq> []"
    and len: "length (header_text hs) + 2 + length body \<le> IO_LIMIT"
  shows "\<exists>s1 s2 s3 s4 n tbl. set_headers env t hs s = Some s1 \<and> msIO_sendHeaders env t s1 = Some (s2, [])
    \<and> msIO_printf env t (Some body) s2 = Some (Some n, s3, [])
    \<and> msIO_getAndStripStdoutBufferMimeHeaders t s3 = Some (Some (Some tbl), s4, [])
    \<and> (\<forall>k. msLookupHashTable (Some tbl) (Some k) = map_of (rev (map (map_prod lower id) hs)) (lower k))
    \<and> io_rel ks (s4, olds) (fst a, (snd a)(t := body # bs))"
proof -
  obtain s1 where s1: "set_headers env t hs s = Some s1" "io_rel ks (s1, olds) (spec_write t (header_text hs) a)"
    "is_msIO_header_enabled s1"
    using set_headers_sim [OF al rel a en, of hs] len by auto
  have a1: "snd (spec_write t (header_text hs) a) t = header_text hs # bs" using a by (simp add: spec_write_top)
  obtain s2 where s2: "msIO_sendHeaders env t s1 = Some (s2, [])" "io_rel ks (s2, olds) (spec_write t (header_text hs @ CRLF) a)"
    using print_all_sim [OF al s1(2) a1, of "[CRLF]"] len s1(3) by (auto simp: msIO_sendHeaders_def spec_write_append)
  have a2: "snd (spec_write t (header_text hs @ CRLF) a) t = (header_text hs @ CRLF) # bs" using a by (simp add: spec_write_top)
  obtain s3 where s3: "msIO_printf env t (Some body) s2 = Some (Some (length body), s3, [])"
    "io_rel ks (s3, olds) (spec_write t ((header_text hs @ CRLF) @ body) a)"
    using write_sim [OF al s2(2), of t body] a2 len printf_writes [OF al, of body t FStdout s2]
    by (auto simp: msIO_printf_def spec_write_append)
  have a3: "snd (spec_write t ((header_text hs @ CRLF) @ body) a) t = ((header_text hs @ CRLF) @ body) # bs"
    using a by (simp add: spec_write_top)
  let ?scan = "\<lambda>d off. mime_headers d off 0 (Some msCreateHashTable)" and ?tbl = "ht.writes msCreateHashTable hs"
  have scan: "?scan ((header_text hs @ CRLF) @ body @ r) (length (header_text hs @ CRLF) + length body)
      = Found (Some ?tbl) (length (header_text hs @ CRLF))" for r
    using mime_lines [OF hs, of "length (header_text hs) + 2 + length body" "[]" "length body" "body @ r" msCreateHashTable] by simp
  have "header_text hs @ CRLF \<noteq> []" by simp
  from strip_sim [where scan = ?scan, OF s3(2) a3 this scan] obtain s4 where
    "msIO_getAndStripStdoutBufferMimeHeaders t s3 = Some (Some (Some ?tbl), s4, [])"
    "io_rel ks (s4, olds) (fst a, (snd a)(t := body # bs))"
    using a unfolding msIO_getAndStripStdoutBufferMimeHeaders_def by (auto simp: spec_write_top)
  moreover have "msLookupHashTable (Some ?tbl) (Some k) = map_of (rev (map (map_prod lower id) hs)) (lower k)" for k
    using ht.look_writes [OF msCreateHashTable_ok, of hs k]
    by (simp add: msLookupHashTable_def msCreateHashTable_def split: option.splits)
  ultimately show ?thesis using s1(1) s2(1) s3(1) by blast
qed

theorem mime_roundtrip_witness:
  "\<exists>s0 s1 s2 s3 s4 n tbl ks olds. snd (msIO_pushStdoutToBufferAndGetOldContext 7 (io_start stdio_contexts [])) = s0
    \<and> set_headers plenty 7 [(''Content-Type'', ''text/plain''), (''Status'', ''200'')] s0 = Some s1
    \<and> msIO_sendHeaders plenty 7 s1 = Some (s2, []) \<and> msIO_printf plenty 7 (Some ''hello: world'') s2 = Some (Some n, s3, [])
    \<and> msIO_getAndStripStdoutBufferMimeHeaders 7 s3 = Some (Some (Some tbl), s4, [])
    \<and> msLookupHashTable (Some tbl) (Some ''STATUS'') = Some ''200''
    \<and> io_rel ks (s4, olds) ([], (\<lambda>_. [])(7 := [''hello: world'']))"
proof -
  define old where "old = fst (msIO_pushStdoutToBufferAndGetOldContext 7 (io_start stdio_contexts []))"
  define s0 where "s0 = snd (msIO_pushStdoutToBufferAndGetOldContext 7 (io_start stdio_contexts []))"
  have p: "msIO_pushStdoutToBufferAndGetOldContext 7 (io_start stdio_contexts []) = (old, s0)"
    by (simp add: old_def s0_def)
  define a :: io_spec where "a = ([], (\<lambda>_. [])(7 := [[]]))"
  obtain ks where rel: "io_rel ks (s0, (\<lambda>_. [])(7 := [old])) a" and en: "is_msIO_header_enabled s0"
    using push_sim [OF io_rel_start p] by (auto simp: a_def io_start_def)
  let ?hs = "[(''Content-Type'', ''text/plain''), (''Status'', ''200'')]"
  have al: "\<forall>n. alloc plenty n" by (simp add: plenty_def)
  have top: "snd a 7 = [] # []" by (simp add: a_def)
  have hs: "plain_headers ?hs" "?hs \<noteq> []" by (simp_all add: plain_headers_def plain_chars_def)
  have len: "length (header_text ?hs) + 2 + length ''hello: world'' \<le> IO_LIMIT" by simp
  have lw: "map_of (rev (map (map_prod lower id) ?hs)) (lower ''STATUS'') = Some ''200''" by code_simp
  have fa: "(fst a, (snd a)(7 := [''hello: world''])) = ([], (\<lambda>_. [])(7 := [''hello: world'']))" by (simp add: a_def)
  from mime_roundtrip [OF al rel top en hs len, unfolded fa] obtain s1 s2 s3 s4 n tbl where
    r: "set_headers plenty 7 ?hs s0 = Some s1" "msIO_sendHeaders plenty 7 s1 = Some (s2, [])"
    "msIO_printf plenty 7 (Some ''hello: world'') s2 = Some (Some n, s3, [])"
    "msIO_getAndStripStdoutBufferMimeHeaders 7 s3 = Some (Some (Some tbl), s4, [])"
    "\<forall>k. msLookupHashTable (Some tbl) (Some k) = map_of (rev (map (map_prod lower id) ?hs)) (lower k)"
    "io_rel ks (s4, (\<lambda>_. [])(7 := [old])) ([], (\<lambda>_. [])(7 := [''hello: world'']))" by blast
  have "msLookupHashTable (Some tbl) (Some ''STATUS'') = Some ''200''" unfolding r(5) [rule_format] lw ..
  with r(1-4,6) s0_def [symmetric] show ?thesis by (intro exI conjI)
qed

section \<open>Corrupt headers\<close>

text \<open>
  A response that ends with the carriage return of its content type makes both strippers compute a
  start behind the end of the data, and the length of the move negative.
\<close>

lemma content_type_lone_cr:
  "scan_content_type (''Content-Type: x'' @ [CHR 0x0D]) 16 = Found ''x'' 17"
  "scan_content_headers (''Content-Type: x'' @ [CHR 0x0D]) 16 = Found () 17"
  by code_simp+

lemma lone_cr_undefined: "data_offset buf = 16 \<Longrightarrow> drop_front 17 buf = None"
  by (simp add: drop_front_def split: option.split)

text \<open>A header whose value is a URL is taken for corrupt: its second colon is not followed by a blank.\<close>

lemma mime_url_corrupt:
  "mime_headers (''Location: http://h/'' @ CRLF @ CRLF @ ''b'') 24 0 (Some msCreateHashTable) = Corrupt"
proof -
  have "scan_header (''Location: http://h/'' @ CRLF @ CRLF @ ''b'') 24 0 None = (14, None)" by code_simp
  then show ?thesis by (subst mime_headers.simps) simp
qed


text \<open>
  When the allocation for a longer buffer fails, the offset stays; once memory is there again, a write
  goes to that offset of a new buffer that is too short for it.
\<close>

lemma write_after_failed_realloc:
  assumes "buf_data buf = Some d" and "100 \<le> data_offset buf" and "data_len buf \<le> data_offset buf + length x"
    and "data_len buf * 2 + length x + 100 \<le> 2147483647" and "data_offset buf + length x \<le> 2147483647"
    and "\<not> alloc env (data_len buf * 2 + length x + 100)" and "alloc env' (length y + 100)"
  shows "\<exists>buf' es. msIO_bufferWrite env x buf = Some (0, buf', es) \<and> msIO_bufferWrite env' y buf' = None"
proof -
  have "msIO_bufferWrite env x buf = Some (0, buf\<lparr>buf_data := None, data_len := 0\<rparr>,
      [Report MS_MEMERR ''Failed to allocate %d bytes for capture buffer.'' ''msIO_bufferWrite()''])"
    using assms by (simp add: msIO_bufferWrite_def Let_def)
  moreover have "msIO_bufferWrite env' y (buf\<lparr>buf_data := None, data_len := 0\<rparr>) = None"
    using assms(2,7) by (simp add: msIO_bufferWrite_def Let_def store_bytes_def)
  ultimately show ?thesis by blast
qed

end
