(* ===== verification/OwsIp.thy ===== *)
theory OwsIp
  imports StringEdit "HOL-Library.Monad_Syntax"
begin

text \<open>
  \<^verbatim>\<open>mapows.cpp\<close>, the address lists that restrict who may use a service: parsing an IPv4 or IPv6
  address or range into arrays of sixteen bytes, and looking up an address in a list of ranges
  that stands in the metadata or in a file.

  A result \<open>None\<close> is a behaviour that C leaves undefined: a write outside an array, or the
  conversion of a \<open>double\<close> that does not fit. The entries of the arrays are written before they
  are read, so that what the arrays hold at the start does not matter.
\<close>

section \<open>Addresses and ranges\<close>

type_synonym u16 = "16 word"

definition store :: "nat \<Rightarrow> 'a \<Rightarrow> 'a list \<Rightarrow> 'a list option" where
  "store k v a = (if k < length a then Some (a[k := v]) else None)"

text \<open>The index of the last byte that was started, the length of the prefix, and the array.\<close>

fun ip4_loop :: "string \<Rightarrow> nat \<Rightarrow> byte list \<Rightarrow> (nat \<times> int \<times> byte list) option" where
  "ip4_loop [] v a = Some (v, 32, a)"
| "ip4_loop (c # ip) v a =
     (if digit_char c then store v (10 * a ! v + (word_of_nat (of_char c) - 48)) a \<bind> ip4_loop ip v
      else if c = CHR ''.'' then store (v + 1) 0 a \<bind> ip4_loop ip (v + 1)
      else if c = CHR ''/'' then Some (v, min 32 (atoi ip), a)
      else Some (v, 32, a))"

function ip4_mask :: "nat \<Rightarrow> int \<Rightarrow> byte list \<Rightarrow> byte list option" where
  "ip4_mask v masklen m =
     (if masklen = 0 then Some m
      else if masklen \<ge> 8 then store v 0xff m \<bind> ip4_mask (v + 1) (masklen - 8)
      else if masklen < 0 then None
      else store v (- word_of_int (2 ^ nat (8 - masklen))) m)"
  by auto
termination by (relation "measure (\<lambda>(v, masklen, m). nat masklen)") auto

declare ip4_mask.simps [simp del]

text \<open>The value of a hexadecimal digit.\<close>

definition hex_digit :: "char \<Rightarrow> nat option" where
  "hex_digit c =
     (let n = of_char c :: nat in
      if 48 \<le> n \<and> n \<le> 57 then Some (n - 48)
      else if 97 \<le> n \<and> n \<le> 102 then Some (n - 97 + 10)
      else if 65 \<le> n \<and> n \<le> 70 then Some (n - 65 + 10)
      else None)"

text \<open>\<open>while (seps <= 7)\<close>: the groups that two colons stand for.\<close>

definition zero_groups :: "nat \<Rightarrow> nat \<Rightarrow> u16 list \<Rightarrow> (nat \<times> u16 list) option" where
  "zero_groups seps v a =
     (let k = 8 - seps in
      if v + k < length a then Some (v + k, take (v + 1) a @ replicate k 0 @ drop (v + 1 + k) a) else None)"

fun ip6_loop :: "string \<Rightarrow> nat \<Rightarrow> nat \<Rightarrow> u16 list \<Rightarrow> (nat \<times> int \<times> u16 list) option" where
  "ip6_loop [] seps v a = Some (v, 128, a)"
| "ip6_loop (c # ip) seps v a =
     (case hex_digit c of
        Some n \<Rightarrow> store v (16 * a ! v + word_of_nat n) a \<bind> ip6_loop ip seps v
      | None \<Rightarrow>
          if c = CHR '':'' then
            do {
              a' \<leftarrow> store (v + 1) 0 a;
              (case ip of
                 d # ip' \<Rightarrow>
                   if d = CHR '':'' then zero_groups seps (v + 1) a' \<bind> (\<lambda>(v', a''). ip6_loop ip' (max seps 8) v' a'')
                   else ip6_loop ip seps (v + 1) a'
               | [] \<Rightarrow> ip6_loop ip seps (v + 1) a')
            }
          else if c = CHR ''/'' then Some (v, min 128 (atoi ip), a)
          else Some (v, 128, a))"

function ip6_mask :: "nat \<Rightarrow> int \<Rightarrow> u16 list \<Rightarrow> u16 list option" where
  "ip6_mask v masklen m =
     (if masklen = 0 then Some m
      else if masklen \<ge> 16 then store v 0xffff m \<bind> ip6_mask (v + 1) (masklen - 16)
      else if masklen < 0 then None
      else store v (- word_of_int (2 ^ nat (16 - masklen))) m)"
  by auto
termination by (relation "measure (\<lambda>(v, masklen, m). nat masklen)") auto

declare ip6_mask.simps [simp del]

text \<open>An array of \<open>unsigned short\<close> in the memory of the host.\<close>

definition short_bytes :: "bool \<Rightarrow> u16 list \<Rightarrow> byte list" where
  "short_bytes be a = concat (map (\<lambda>w. let lo = ucast w; hi = ucast (drop_bit 8 w) in if be then [hi, lo] else [lo, hi]) a)"

text \<open>
  The length that is returned, and the bytes of the address and of the mask when it is 4 or 16.
  The mask is only written if the caller has an array for it.
\<close>

definition msOWSIpParse :: "bool \<Rightarrow> string \<Rightarrow> bool \<Rightarrow> (nat \<times> byte list \<times> byte list) option" where
  "msOWSIpParse be ip want_mask =
     (let seps = msCountChars ip (CHR '':'') in
      if msCountChars ip (CHR ''.'') = 3 then
        do {
          (v, masklen, a) \<leftarrow> ip4_loop ip 0 (replicate 16 0);
          if v + 1 \<noteq> 4 then Some (0, [], [])
          else if \<not> want_mask then Some (4, take 4 a, [])
          else do {
            m \<leftarrow> ip4_mask 0 masklen (replicate 16 0);
            Some (4, take 4 a, take 4 m)
          }
        }
      else if 1 < seps \<and> seps < 8 then
        do {
          (v, masklen, a) \<leftarrow> ip6_loop ip seps 0 (replicate 8 0);
          if 2 * (v + 1) \<noteq> 16 then Some (0, [], [])
          else if \<not> want_mask then Some (16, short_bytes be a, [])
          else do {
            m \<leftarrow> ip6_mask 0 masklen (replicate 8 0);
            Some (16, short_bytes be a, short_bytes be m)
          }
        }
      else Some (0, [], []))"

definition masked_equal :: "byte list \<Rightarrow> byte list \<Rightarrow> byte list \<Rightarrow> bool" where
  "masked_equal m a b \<longleftrightarrow> map2 (AND) a m = map2 (AND) b m"

fun ip_search :: "bool \<Rightarrow> nat \<Rightarrow> byte list \<Rightarrow> string list \<Rightarrow> bool option" where
  "ip_search be iplen ip1 [] = Some False"
| "ip_search be iplen ip1 (s # ips) =
     do {
       (len, ip2, mask) \<leftarrow> msOWSIpParse be s True;
       if len = iplen \<and> masked_equal mask ip1 ip2 then Some True else ip_search be iplen ip1 ips
     }"

definition msOWSIpInList :: "bool \<Rightarrow> string \<Rightarrow> string \<Rightarrow> bool option" where
  "msOWSIpInList be ip_list ip =
     do {
       (iplen, ip1, _) \<leftarrow> msOWSIpParse be ip False;
       if iplen \<noteq> 4 \<and> iplen \<noteq> 16 then Some False
       else do {
         (numips, ips) \<leftarrow> msStringSplit ip_list (CHR '' '');
         ip_search be iplen ip1 ips
       }
     }"

text \<open>The lines of a file as \<open>fgets\<close> with a buffer of 2048 bytes gives them.\<close>

function fgets_lines :: "string \<Rightarrow> string list" where
  "fgets_lines s =
     (if s = [] then []
      else
        (let k = min 2047 (length (takeWhile (\<lambda>c. c \<noteq> CHR 0x0A) s) + 1) in
         takeWhile (\<lambda>c. c \<noteq> NUL) (take k s) # fgets_lines (drop k s)))"
  by auto
termination by (relation "measure length") auto

declare fgets_lines.simps [simp del]

fun ip_in_lines :: "bool \<Rightarrow> string list \<Rightarrow> string \<Rightarrow> bool option" where
  "ip_in_lines be [] ip = Some False"
| "ip_in_lines be (l # ls) ip = do { found \<leftarrow> msOWSIpInList be l ip; if found then Some True else ip_in_lines be ls ip }"

text \<open>\<open>files\<close> is what \<open>fopen\<close> for reading finds under a name.\<close>

definition msOWSIpInMetadata :: "bool \<Rightarrow> (string \<Rightarrow> string option) \<Rightarrow> string \<Rightarrow> string \<Rightarrow> bool option" where
  "msOWSIpInMetadata be files ip_list ip =
     (if lower (take 5 ip_list) = ''file:'' then
        (case files (drop 5 ip_list) of
           None \<Rightarrow> Some False
         | Some s \<Rightarrow> ip_in_lines be (fgets_lines s) ip)
      else msOWSIpInList be ip_list ip)"

section \<open>Parsing stays inside the arrays\<close>

lemma count_chars_filter: "msCountChars s ch = length (filter (\<lambda>c. c = ch) s)"
proof -
  have "foldl (\<lambda>n i. if s ! i = ch then n + 1 else n) k [0..<j] = k + length (filter (\<lambda>c. c = ch) (take j s))"
    if "j \<le> length s" for j k
    using that by (induction j) (simp_all add: take_Suc_conv_app_nth)
  from this [of "length s" 0] show ?thesis by (simp add: msCountChars_def)
qed









section \<open>Ranges of addresses\<close>

definition ip4_text :: "byte list \<Rightarrow> string" where
  "ip4_text ip = join_with ''.'' (map (\<lambda>b. digits_of (unat b)) ip)"

definition range_text :: "byte list \<times> nat \<Rightarrow> string" where
  "range_text r = ip4_text (fst r) @ ''/'' @ digits_of (snd r)"

lemma digit_char_char_of: "n < (10::nat) \<Longrightarrow> digit_char (char_of (48 + n))"
  by (auto simp: digit_char_def Let_def)

lemma ip4_loop_digits:
  "v < length a \<Longrightarrow> ip4_loop (digits_of n @ s) v a
    = ip4_loop s v (a[v := 10 ^ length (digits_of n) * a ! v + word_of_nat n])"
proof (induction n arbitrary: s a rule: digits_of.induct)
  case (1 n)
  have d: "(of_char (char_of (48 + m) :: char) :: nat) = 48 + m" if "m < 10" for m using that by simp
  show ?case
  proof (cases "n < 10")
    case True
    then show ?thesis using d [OF True] digit_char_char_of [OF True] 1(2)
      by (simp add: digits_of.simps [of n] store_def)
  next
    case False
    have m: "n mod 10 < 10" by simp
    have w: "(word_of_nat n :: byte) = 10 * word_of_nat (n div 10) + word_of_nat (n mod 10)"
      by (metis mult_div_mod_eq of_nat_add of_nat_mult of_nat_numeral)
    show ?thesis
      using 1(1) [OF False 1(2)] d [OF m] digit_char_char_of [OF m] 1(2) False
      by (simp add: digits_of.simps [of n] store_def w algebra_simps)
  qed
qed

lemma ip4_loop_text:
  assumes "length ip = 4"
  shows "ip4_loop (ip4_text ip @ s) 0 (replicate 16 0) = ip4_loop s 3 (ip @ replicate 12 0)"
proof -
  obtain a b c d where ip: "ip = [a, b, c, d]" using assms by (auto simp: numeral_eq_Suc length_Suc_conv)
  show ?thesis by (simp add: ip ip4_text_def ip4_loop_digits store_def digit_char_def numeral_eq_Suc)
qed

lemma digits_of_plain: "c \<in> set (digits_of n) \<Longrightarrow> c \<noteq> CHR ''.'' \<and> c \<noteq> CHR '' '' \<and> c \<noteq> CHR '':'' \<and> c \<noteq> CHR ''/''"
  using digits_of_digits [of c n] by (auto simp: digit_char_def)

lemma filter_digits: "filter (\<lambda>c. c = CHR ''.'') (digits_of n) = []"
  using digits_of_plain by (auto simp: filter_empty_conv)

lemma atoi_digits: "atoi (digits_of n) = int n"
proof -
  obtain c cs where c: "digits_of n = c # cs" using digits_of_nonempty by (cases "digits_of n") auto
  then have "digit_char c" using digits_of_digits [of c n] by simp
  then have "\<not> isspace c" "c \<noteq> CHR ''-''" "c \<noteq> CHR ''+''" by (auto simp: digit_char_def isspace_def Let_def)
  then show ?thesis using digits_value_digits_of [of n "[]" 0] c by (simp add: atoi_def)
qed

lemma parse_ip4:
  assumes "length ip = 4"
  shows "msOWSIpParse be (ip4_text ip) False = Some (4, ip, [])"
proof -
  obtain a b c d where ip: "ip = [a, b, c, d]" using assms by (auto simp: numeral_eq_Suc length_Suc_conv)
  have "msCountChars (ip4_text ip) (CHR ''.'') = 3"
    by (simp add: count_chars_filter ip ip4_text_def filter_digits)
  then show ?thesis using ip4_loop_text [OF assms, of "[]"] assms by (simp add: msOWSIpParse_def)
qed

text \<open>The bytes of the mask for a prefix of \<open>n\<close> bits.\<close>

definition prefix_byte :: "nat \<Rightarrow> byte" where
  "prefix_byte n = NOT (mask (8 - min 8 n))"

lemma ip4_mask_eq:
  "8 * v + n \<le> 32 \<Longrightarrow> length m = 16 \<Longrightarrow> \<forall>j. v \<le> j \<longrightarrow> j < 4 \<longrightarrow> m ! j = 0 \<Longrightarrow>
   \<exists>m'. ip4_mask v (int n) m = Some m' \<and> length m' = 16 \<and> (\<forall>j<v. m' ! j = m ! j) \<and> (\<forall>j. v \<le> j \<longrightarrow> j < 4 \<longrightarrow> m' ! j = prefix_byte (n - 8 * (j - v)))"
proof (induction n arbitrary: v m rule: less_induct)
  case (less n)
  consider "n = 0" | "8 \<le> n" | "0 < n" "n < 8" by linarith
  then show ?case
  proof cases
    case 1
    then show ?thesis using less.prems by (auto simp: ip4_mask.simps [of v] prefix_byte_def mask_eq_exp_minus_1)
  next
    case 2
    have st: "store v 0xff m = Some (m[v := 0xff])" using 2 less.prems by (simp add: store_def)
    obtain m' where m': "ip4_mask (v + 1) (int (n - 8)) (m[v := 0xff]) = Some m'" "length m' = 16"
      "\<forall>j<v + 1. m' ! j = m[v := 0xff] ! j" "\<forall>j. v + 1 \<le> j \<longrightarrow> j < 4 \<longrightarrow> m' ! j = prefix_byte (n - 8 - 8 * (j - (v + 1)))"
      using less.IH [of "n - 8" "v + 1" "m[v := 0xff]"] 2 less.prems by auto
    have "ip4_mask v (int n) m = Some m'" using 2 st m'(1) by (simp add: ip4_mask.simps [of v "int n"] of_nat_diff)
    moreover have "m' ! j = prefix_byte (n - 8 * (j - v))" if "v \<le> j" "j < 4" for j
    proof (cases "j = v")
      case True
      then show ?thesis using m'(3) 2 less.prems by (simp add: prefix_byte_def)
    next
      case False
      then have "n - 8 - 8 * (j - (v + 1)) = n - 8 * (j - v)" using that by simp
      then show ?thesis using m'(4) that False by simp
    qed
    moreover have "\<forall>j<v. m' ! j = m ! j" using m'(3) by simp
    ultimately show ?thesis using m'(2) by blast
  next
    case 3
    have v: "v < 4" "v < length m" using 3 less.prems by auto
    have "nat (8 - int n) = 8 - n" using 3 by simp
    then have "- word_of_int (2 ^ nat (8 - int n)) = prefix_byte n"
      using 3 by (simp add: prefix_byte_def minus_exp_eq_not_mask [symmetric])
    then have eq: "ip4_mask v (int n) m = Some (m[v := prefix_byte n])"
      using 3 v by (simp add: ip4_mask.simps [of v "int n"] store_def)
    have z: "prefix_byte (n - 8 * (j - v)) = 0" if "v < j" for j
    proof -
      have "n - 8 * (j - v) = 0" using 3 that by linarith
      then show ?thesis by (simp add: prefix_byte_def mask_eq_exp_minus_1)
    qed
    have "m[v := prefix_byte n] ! j = prefix_byte (n - 8 * (j - v))" if "v \<le> j" "j < 4" for j
      using that v less.prems(3) z [of j] by (cases "j = v") auto
    then show ?thesis using eq less.prems(2) by (intro exI [of _ "m[v := prefix_byte n]"]) auto
  qed
qed

lemma bit_prefix_byte: "bit (prefix_byte n) i \<longleftrightarrow> i < 8 \<and> 8 \<le> n + i"
  by (auto simp: prefix_byte_def bit_not_iff bit_mask_iff)

lemma drop_bit_eq_iff_bits: "drop_bit n x = drop_bit n y \<longleftrightarrow> (\<forall>k\<ge>n. bit x k = bit y k)" for x y :: u32
proof
  assume eq: "drop_bit n x = drop_bit n y"
  show "\<forall>k\<ge>n. bit x k = bit y k"
  proof (intro allI impI)
    fix k assume "n \<le> k"
    then obtain i where k: "k = n + i" using le_Suc_ex by blast
    show "bit x k = bit y k" using arg_cong [OF eq, of "\<lambda>z. bit z i"] by (simp add: bit_drop_bit_eq k)
  qed
next
  assume eq: "\<forall>k\<ge>n. bit x k = bit y k"
  show "drop_bit n x = drop_bit n y" by (rule bit_eqI) (simp add: bit_drop_bit_eq eq)
qed

lemma bit_octets: "bit (horner_sum uint (2 ^ 8) (bs :: byte list)) k \<longleftrightarrow> k div 8 < length bs \<and> bit (bs ! (k div 8)) (k mod 8)"
proof (induction bs arbitrary: k)
  case (Cons b bs)
  have "horner_sum uint (2 ^ 8) (b # bs) = concat_bit 8 (uint b) (horner_sum uint (2 ^ 8) bs)"
    by (simp add: concat_bit_eq push_bit_eq_mult take_bit_word_eq_self unsigned_take_bit_eq [symmetric])
  then have "bit (horner_sum uint (2 ^ 8) (b # bs)) k \<longleftrightarrow> k < 8 \<and> bit b k \<or> 8 \<le> k \<and> bit (horner_sum uint (2 ^ 8) bs) (k - 8)"
    by (simp only: bit_concat_bit_iff bit_uint_iff) (use less_le_trans in auto)
  also have "\<dots> \<longleftrightarrow> k div 8 < length (b # bs) \<and> bit ((b # bs) ! (k div 8)) (k mod 8)"
    by (cases "k < 8") (auto simp: Cons.IH [simplified] le_div_geq le_mod_geq not_less)
  finally show ?case .
qed simp

lemma masked_prefix:
  assumes len: "length a = 4" "length b = 4" "length M = 4" and n: "n \<le> 32" and M: "\<forall>j<4. M ! j = prefix_byte (n - 8 * j)"
  shows "masked_equal M a b \<longleftrightarrow> drop_bit (32 - n) (word_rcat a :: u32) = drop_bit (32 - n) (word_rcat b)"
proof -
  have "masked_equal M a b \<longleftrightarrow> (\<forall>j<4. a ! j AND M ! j = b ! j AND M ! j)"
    using len by (auto simp: masked_equal_def list_eq_iff_nth_eq)
  also have "\<dots> \<longleftrightarrow> (\<forall>j<4. \<forall>i<8. 8 \<le> n - 8 * j + i \<longrightarrow> bit (a ! j) i = bit (b ! j) i)"
    using M by (auto simp: bit_eq_iff bit_and_iff bit_prefix_byte)
  also have "\<dots> \<longleftrightarrow> (\<forall>k<32. 32 - n \<le> k \<longrightarrow> bit (a ! (3 - k div 8)) (k mod 8) = bit (b ! (3 - k div 8)) (k mod 8))"
  proof (rule iffI; intro allI impI)
    fix k :: nat
    assume all: "\<forall>j<4. \<forall>i<8. 8 \<le> n - 8 * j + i \<longrightarrow> bit (a ! j) i = bit (b ! j) i" and k: "k < 32" "32 - n \<le> k"
    have q: "k = 8 * (k div 8) + k mod 8" "k mod 8 < 8" "k div 8 < 4" using k by auto
    have "3 - k div 8 < 4" "k mod 8 < 8" "8 \<le> n - 8 * (3 - k div 8) + k mod 8" using q k by linarith+
    then show "bit (a ! (3 - k div 8)) (k mod 8) = bit (b ! (3 - k div 8)) (k mod 8)" using all by blast
  next
    fix j i :: nat
    assume all: "\<forall>k<32. 32 - n \<le> k \<longrightarrow> bit (a ! (3 - k div 8)) (k mod 8) = bit (b ! (3 - k div 8)) (k mod 8)"
      and j: "j < 4" "i < 8" "8 \<le> n - 8 * j + i"
    let ?k = "8 * (3 - j) + i"
    have "?k < 32" "32 - n \<le> ?k" using j by linarith+
    moreover have "3 - ?k div 8 = j" "?k mod 8 = i" using j by auto
    ultimately show "bit (a ! j) i = bit (b ! j) i" using all by metis
  qed
  also have "\<dots> \<longleftrightarrow> (\<forall>k. 32 - n \<le> k \<longrightarrow> bit (word_rcat a :: u32) k = bit (word_rcat b :: u32) k)"
  proof -
    have bit: "bit (word_rcat x :: u32) k \<longleftrightarrow> k < 32 \<and> bit (x ! (3 - k div 8)) (k mod 8)" if "length x = 4" for x :: "byte list" and k
    proof -
      have "rev x ! (k div 8) = x ! (3 - k div 8)" if "k < 32" using \<open>length x = 4\<close> that by (simp add: rev_nth)
      then show ?thesis using that by (auto simp: word_rcat_def bit_word_of_int_iff bit_octets [simplified])
    qed
    show ?thesis using bit [OF len(1)] bit [OF len(2)] by auto
  qed
  also have "\<dots> \<longleftrightarrow> drop_bit (32 - n) (word_rcat a :: u32) = drop_bit (32 - n) (word_rcat b)"
    by (simp add: drop_bit_eq_iff_bits)
  finally show ?thesis .
qed

lemma parse_range:
  assumes "length ip = 4" "n \<le> 32"
  shows "\<exists>M. msOWSIpParse be (range_text (ip, n)) True = Some (4, ip, M) \<and> length M = 4 \<and> (\<forall>j<4. M ! j = prefix_byte (n - 8 * j))"
proof -
  obtain a b c d where ip: "ip = [a, b, c, d]" using assms by (auto simp: numeral_eq_Suc length_Suc_conv)
  have dots: "msCountChars (range_text (ip, n)) (CHR ''.'') = 3"
    by (simp add: count_chars_filter ip range_text_def ip4_text_def filter_digits)
  have l: "ip4_loop (range_text (ip, n)) 0 (replicate 16 0) = Some (3, int n, ip @ replicate 12 0)"
    using ip4_loop_text [OF assms(1), of "''/'' @ digits_of n"] assms(2) by (simp add: range_text_def digit_char_def atoi_digits)
  obtain m where "ip4_mask 0 (int n) (replicate 16 0) = Some m" "length m = 16" "\<forall>j<4. m ! j = prefix_byte (n - 8 * j)"
    using ip4_mask_eq [of 0 n "replicate 16 0"] assms(2) by auto
  then show ?thesis using dots l assms by (auto simp: msOWSIpParse_def intro!: exI [of _ "take 4 m"])
qed

text \<open>A list of ranges, as it stands in the metadata.\<close>

definition in_range :: "byte list \<Rightarrow> byte list \<times> nat \<Rightarrow> bool" where
  "in_range ip r \<longleftrightarrow> drop_bit (32 - snd r) (word_rcat ip :: u32) = drop_bit (32 - snd r) (word_rcat (fst r))"

lemma ip_search_ranges:
  "length ip = 4 \<Longrightarrow> \<forall>r\<in>set rs. length (fst r) = 4 \<and> snd r \<le> 32 \<Longrightarrow>
   ip_search be 4 ip (map range_text rs) = Some (\<exists>r\<in>set rs. in_range ip r)"
proof (induction rs)
  case (Cons r rs)
  obtain M where M: "msOWSIpParse be (range_text r) True = Some (4, fst r, M)" "length M = 4" "\<forall>j<4. M ! j = prefix_byte (snd r - 8 * j)"
    using parse_range [of "fst r" "snd r" be] Cons.prems by auto
  have "masked_equal M ip (fst r) \<longleftrightarrow> in_range ip r"
    using masked_prefix [OF Cons.prems(1) _ M(2) _ M(3)] Cons.prems(2) by (simp add: in_range_def)
  then show ?case using Cons M(1) by simp
qed simp

lemma range_text_plain: "CHR '' '' \<notin> set (range_text r) \<and> range_text r \<noteq> []"
proof -
  have j: "c = CHR ''.'' \<or> c \<in> set (concat xs)" if "c \<in> set (join_with ''.'' xs)" for c xs
    using that by (induction "''.''" xs rule: join_with.induct) auto
  show ?thesis using j [of "CHR '' ''" "map (\<lambda>b. digits_of (unat b)) (fst r)"] digits_of_plain
    by (auto simp: range_text_def ip4_text_def)
qed

section \<open>Properties\<close>




text \<open>C23. An IPv4 address is found in a list of ranges exactly when it lies in one of them: the
  bits of the prefix agree, with prefixes of 0 to 32 bits that need not end at an octet.\<close>

theorem ip_list_ranges:
  assumes "length ip = 4" and "rs \<noteq> []" and "\<forall>r\<in>set rs. length (fst r) = 4 \<and> snd r \<le> 32"
  shows "msOWSIpInList be (join_with '' '' (map range_text rs)) (ip4_text ip) =
    Some (\<exists>(net, n)\<in>set rs. drop_bit (32 - n) (word_rcat ip :: u32) = drop_bit (32 - n) (word_rcat net))"
proof -
  have "split_spec (CHR '' '') NUL (join_with '' '' (map range_text rs)) [] = map range_text rs"
    by (rule split_join) (use assms(2) range_text_plain in \<open>auto simp: hd_map dest!: in_set_butlastD list.set_sel(2) [rotated], metis\<close>)
  then show ?thesis
    using ip_search_ranges [OF assms(1,3), of be]
    by (simp add: msOWSIpInList_def parse_ip4 [OF assms(1)] msStringSplit_eq in_range_def case_prod_beta)
qed

theorem ip_list_ranges_witness:
  "msOWSIpInList False ''10.1.0.0/20 192.168.1.0/24'' ''10.1.15.9'' = Some True"
proof -
  have d: "digits_of 10 = ''10''" "digits_of 1 = ''1''" "digits_of 0 = ''0''" "digits_of 192 = ''192''" "digits_of 168 = ''168''"
    "digits_of 20 = ''20''" "digits_of 24 = ''24''" "digits_of 15 = ''15''" "digits_of 9 = ''9''" by code_simp+
  show ?thesis
    using ip_list_ranges [of "[10, 1, 15, 9]" "[([10, 1, 0, 0], 20), ([192, 168, 1, 0], 24)]" False]
    by (simp add: range_text_def ip4_text_def d d(2) [unfolded One_nat_def]) code_simp
qed

end
