(* ===== verification/OwsAccess.thy ===== *)
theory OwsAccess
  imports OwsIp MapHash
begin

text \<open>
  \<^verbatim>\<open>mapows.cpp\<close>, who may ask what: looking up metadata under the prefixes of the services, reading
  the list of requests that a layer or the map enables, and the decisions built on it and on the
  address lists, for one layer, for the whole map and for the layers that a request may see.

  Results are options; \<open>None\<close> is undefined behaviour, that is a word that does not fit the buffer
  of 32 bytes, or what \<open>OwsIp\<close> leaves undefined. Metadata tables are those of \<open>MapHash\<close>.
\<close>

section \<open>Metadata\<close>

abbreviation (input) MS_WMSERR :: int where "MS_WMSERR \<equiv> 24"

text \<open>The assertion behind the report is compiled out in a release.\<close>

definition msOWSGetPrefixFromNamespace :: "char \<Rightarrow> string option \<times> report list" where
  "msOWSGetPrefixFromNamespace c =
     (if c = CHR ''O'' then (Some ''ows'', [])
      else if c = CHR ''A'' then (Some ''oga'', [])
      else if c = CHR ''M'' then (Some ''wms'', [])
      else if c = CHR ''F'' then (Some ''wfs'', [])
      else if c = CHR ''C'' then (Some ''wcs'', [])
      else if c = CHR ''G'' then (Some ''gml'', [])
      else if c = CHR ''S'' then (Some ''sos'', [])
      else (None, [Report MS_WMSERR ''Unsupported metadata namespace code (%c).'' ''msOWSGetPrefixFromNamespace()'']))"

fun lookup_namespaces :: "hashTableObj \<Rightarrow> string \<Rightarrow> string \<Rightarrow> string option \<times> report list" where
  "lookup_namespaces metadata [] name = (None, [])"
| "lookup_namespaces metadata (c # namespaces) name =
     (case msOWSGetPrefixFromNamespace c of
        (None, es) \<Rightarrow> (None, es)
      | (Some prefix, es) \<Rightarrow>
          (case msLookupHashTable (Some metadata) (Some (prefix @ ''_'' @ strlcpy name 96)) of
             Some v \<Rightarrow> (Some v, es)
           | None \<Rightarrow> (case lookup_namespaces metadata namespaces name of (v, fs) \<Rightarrow> (v, es @ fs))))"

definition msOWSLookupMetadata :: "hashTableObj \<Rightarrow> string option \<Rightarrow> string \<Rightarrow> string option \<times> report list" where
  "msOWSLookupMetadata metadata namespaces name =
     (case namespaces of
        None \<Rightarrow> (msLookupHashTable (Some metadata) (Some name), [])
      | Some ns \<Rightarrow> lookup_namespaces metadata ns name)"

definition msOWSLookupMetadataWithLanguage ::
  "hashTableObj \<Rightarrow> string option \<Rightarrow> string option \<Rightarrow> string option \<Rightarrow> string option \<times> report list" where
  "msOWSLookupMetadataWithLanguage metadata namespaces name validated_language =
     (case name of
        None \<Rightarrow> (None, [])
      | Some n \<Rightarrow>
          (let r = (case validated_language of
                      Some l \<Rightarrow> if l \<noteq> [] then msOWSLookupMetadata metadata namespaces (n @ ''.'' @ l) else (None, [])
                    | None \<Rightarrow> (None, [])) in
           case r of
             (Some v, es) \<Rightarrow> (Some v, es)
           | (None, es) \<Rightarrow> (case msOWSLookupMetadata metadata namespaces n of (v, fs) \<Rightarrow> (v, es @ fs))))"

definition msOWSLookupMetadata2 ::
  "hashTableObj \<Rightarrow> hashTableObj \<Rightarrow> string option \<Rightarrow> string \<Rightarrow> string option \<times> report list" where
  "msOWSLookupMetadata2 pri sec namespaces name =
     (case msOWSLookupMetadata pri namespaces name of
        (Some v, es) \<Rightarrow> (Some v, es)
      | (None, es) \<Rightarrow> (case msOWSLookupMetadata sec namespaces name of (v, fs) \<Rightarrow> (v, es @ fs)))"

section \<open>The list of enabled requests\<close>

record wordState =
  requestBuffer :: string
  wordFlag :: bool
  disableFlag :: bool
  allFlag :: bool
  disabledOut :: bool

text \<open>\<open>*bufferPtr = c; ++bufferPtr\<close>, and the terminating NUL.\<close>

definition buffer_put :: "char \<Rightarrow> string \<Rightarrow> string option" where
  "buffer_put c b = (if length b < 32 then Some (b @ [c]) else None)"

definition buffer_end :: "string \<Rightarrow> string option" where
  "buffer_end b = (if length b < 32 then Some b else None)"

definition word_end :: "string \<Rightarrow> wordState \<Rightarrow> wordState" where
  "word_end b st =
     (let star = (b = ''*'') in
      st\<lparr>disabledOut := disabledOut st \<or> (star \<and> disableFlag st),
         allFlag := (if star then \<not> disableFlag st else allFlag st),
         wordFlag := False, disableFlag := False, requestBuffer := []\<rparr>)"

fun request_loop :: "string \<Rightarrow> string \<Rightarrow> wordState \<Rightarrow> (bool \<times> bool) option" where
  "request_loop request [] st = do { b \<leftarrow> buffer_end (requestBuffer st); Some (allFlag st, disabledOut st) }"
| "request_loop request (c # s) st =
     (if \<not> wordFlag st \<and> isspace c then request_loop request s st
      else
        (let st1 = st\<lparr>wordFlag := True\<rparr> in
         if c = CHR ''!'' then request_loop request s (st1\<lparr>disableFlag := True\<rparr>)
         else if c = CHR '' '' \<or> s = [] then
           do {
             b1 \<leftarrow> (if s = [] \<and> c \<noteq> CHR '' '' then buffer_put c (requestBuffer st1) else Some (requestBuffer st1));
             b \<leftarrow> buffer_end b1;
             if strcasecmp request b = 0 then Some (\<not> disableFlag st1, True)
             else request_loop request s (word_end b st1)
           }
         else do { b \<leftarrow> buffer_put c (requestBuffer st1); request_loop request s (st1\<lparr>requestBuffer := b\<rparr>) }))"

text \<open>The result and \<open>*disabled\<close>.\<close>

definition msOWSParseRequestMetadata :: "string option \<Rightarrow> string \<Rightarrow> (bool \<times> bool) option" where
  "msOWSParseRequestMetadata metadata request =
     (case metadata of
        None \<Rightarrow> Some (False, False)
      | Some s \<Rightarrow> request_loop request s
          \<lparr>requestBuffer = [], wordFlag = False, disableFlag = False, allFlag = False, disabledOut = False\<rparr>)"

section \<open>Decisions\<close>

text \<open>The byte order of the host, the files, and \<open>getenv("REMOTE_ADDR")\<close>.\<close>

record owsEnv =
  host_be :: bool
  ow_files :: "string \<Rightarrow> string option"
  remote_ip :: "string option"

definition with_common :: "hashTableObj \<Rightarrow> string option \<Rightarrow> string \<Rightarrow> string option" where
  "with_common metadata namespaces name =
     (case fst (msOWSLookupMetadata metadata namespaces name) of
        None \<Rightarrow> fst (msOWSLookupMetadata metadata (Some ''O'') name)
      | Some v \<Rightarrow> Some v)"

definition msOWSIpDisabled :: "owsEnv \<Rightarrow> hashTableObj \<Rightarrow> string option \<Rightarrow> bool option" where
  "msOWSIpDisabled env metadata namespaces =
     (case remote_ip env of
        None \<Rightarrow> Some False
      | Some ip \<Rightarrow>
          do {
            disabled \<leftarrow> (case with_common metadata namespaces ''allowed_ip_list'' of
               None \<Rightarrow> Some False
             | Some l \<Rightarrow> map_option Not (msOWSIpInMetadata (host_be env) (ow_files env) l ip));
            (case with_common metadata namespaces ''denied_ip_list'' of
               None \<Rightarrow> Some disabled
             | Some l \<Rightarrow> do { found \<leftarrow> msOWSIpInMetadata (host_be env) (ow_files env) l ip; Some (disabled \<or> found) })
          })"

definition enable_request :: "hashTableObj \<Rightarrow> string option \<Rightarrow> string \<Rightarrow> (bool \<times> bool) option" where
  "enable_request metadata namespaces request =
     msOWSParseRequestMetadata (fst (msOWSLookupMetadata metadata namespaces ''enable_request'')) request"

record owsLayer =
  layer_metadata :: hashTableObj
  layer_index :: int

record owsMap =
  web_metadata :: hashTableObj
  ows_layers :: "owsLayer list"

text \<open>One block of checks, of a layer or of the map: \<open>Some b\<close> if the function returns there.\<close>

definition scope_check :: "owsEnv \<Rightarrow> hashTableObj \<Rightarrow> string option \<Rightarrow> string \<Rightarrow> bool option option" where
  "scope_check env metadata namespaces request =
     do {
       (r, disabled) \<leftarrow> enable_request metadata namespaces request;
       if r then Some (Some True) else if disabled then Some (Some False)
       else do {
         (r, disabled) \<leftarrow> enable_request metadata (Some ''O'') request;
         if r then Some (Some True) else if disabled then Some (Some False)
         else do {
           blocked \<leftarrow> msOWSIpDisabled env metadata namespaces;
           Some (if blocked then Some False else None)
         }
       }
     }"

text \<open>Whether the map enables a request for all layers, and the flag \<open>disabled\<close> behind it.\<close>

definition globally_enabled :: "owsEnv \<Rightarrow> hashTableObj \<Rightarrow> string option \<Rightarrow> string \<Rightarrow> (bool \<times> bool) option" where
  "globally_enabled env metadata namespaces request =
     do {
       (g, disabled) \<leftarrow> enable_request metadata namespaces request;
       (g, disabled) \<leftarrow> (if \<not> g \<and> \<not> disabled then enable_request metadata (Some ''O'') request else Some (g, disabled));
       if g then do { blocked \<leftarrow> msOWSIpDisabled env metadata namespaces; Some (\<not> blocked, disabled) }
       else Some (False, disabled)
     }"

text \<open>One round of the loops over all layers: whether the layer is enabled, and the flag again.\<close>

definition layer_round :: "owsEnv \<Rightarrow> bool \<Rightarrow> hashTableObj \<Rightarrow> string option \<Rightarrow> string \<Rightarrow> (bool \<times> bool) option" where
  "layer_round env glob metadata namespaces request =
     do {
       (result, disabled) \<leftarrow> enable_request metadata namespaces request;
       if \<not> result \<and> disabled then Some (False, disabled)
       else do {
         (result, disabled) \<leftarrow>
            (if \<not> result \<and> \<not> disabled then enable_request metadata (Some ''O'') request else Some (result, disabled));
         if \<not> result \<and> disabled then Some (False, disabled)
         else do {
           blocked \<leftarrow> msOWSIpDisabled env metadata namespaces;
           if blocked then Some (False, disabled) else Some (result \<or> (\<not> disabled \<and> glob), disabled)
         }
       }
     }"

fun any_layer :: "owsEnv \<Rightarrow> bool \<Rightarrow> string option \<Rightarrow> string \<Rightarrow> owsLayer list \<Rightarrow> bool \<Rightarrow> bool option" where
  "any_layer env glob namespaces request [] disabled = Some (\<not> disabled \<and> glob)"
| "any_layer env glob namespaces request (l # ls) disabled =
     do {
       (enabled, disabled') \<leftarrow> layer_round env glob (layer_metadata l) namespaces request;
       if enabled then Some True else any_layer env glob namespaces request ls disabled'
     }"

definition msOWSRequestIsEnabled ::
  "owsEnv \<Rightarrow> owsMap option \<Rightarrow> owsLayer option \<Rightarrow> string option \<Rightarrow> string option \<Rightarrow> bool \<Rightarrow> bool option" where
  "msOWSRequestIsEnabled env map_opt layer namespaces request_opt check_all_layers =
     (case request_opt of
        None \<Rightarrow> Some False
      | Some request \<Rightarrow>
          do {
            r1 \<leftarrow> (case layer of
                     Some l \<Rightarrow> if check_all_layers then Some None else scope_check env (layer_metadata l) namespaces request
                   | None \<Rightarrow> Some None);
            (case r1 of
               Some b \<Rightarrow> Some b
             | None \<Rightarrow>
                 do {
                   r2 \<leftarrow> (case map_opt of
                            Some m \<Rightarrow> if \<not> check_all_layers \<or> ows_layers m = []
                                      then scope_check env (web_metadata m) namespaces request else Some None
                          | None \<Rightarrow> Some None);
                   (case r2 of
                      Some b \<Rightarrow> Some b
                    | None \<Rightarrow>
                        (case map_opt of
                           Some m \<Rightarrow>
                             if check_all_layers then
                               do {
                                 (glob, disabled) \<leftarrow> globally_enabled env (web_metadata m) namespaces request;
                                 any_layer env glob namespaces request (ows_layers m) disabled
                               }
                             else Some False
                         | None \<Rightarrow> Some False))
                 })
          })"

fun enabled_loop :: "owsEnv \<Rightarrow> bool \<Rightarrow> string option \<Rightarrow> string \<Rightarrow> owsLayer list \<Rightarrow> int list option" where
  "enabled_loop env glob namespaces request [] = Some []"
| "enabled_loop env glob namespaces request (l # ls) =
     do {
       (enabled, _) \<leftarrow> layer_round env glob (layer_metadata l) namespaces request;
       rest \<leftarrow> enabled_loop env glob namespaces request ls;
       Some (if enabled then layer_index l # rest else rest)
     }"

text \<open>\<open>enabled_layers\<close> of the request, with \<open>numlayers\<close> entries.\<close>

definition msOWSRequestLayersEnabled :: "owsEnv \<Rightarrow> owsMap option \<Rightarrow> string option \<Rightarrow> string option \<Rightarrow> int list option" where
  "msOWSRequestLayersEnabled env map_opt namespaces request_opt =
     (case (request_opt, map_opt) of
        (Some request, Some m) \<Rightarrow>
          if ows_layers m = [] then Some []
          else do {
            (glob, _) \<leftarrow> globally_enabled env (web_metadata m) namespaces request;
            enabled_loop env glob namespaces request (ows_layers m)
          }
      | _ \<Rightarrow> Some [])"

section \<open>The list of enabled requests, word by word\<close>

text \<open>
  What the list means: its words are separated by blanks; a word counts as negative if it has an
  exclamation mark somewhere, and its name is the rest. A last word that ends in one does not count.
\<close>

function blank_words :: "string \<Rightarrow> string list" where
  "blank_words s =
     (case dropWhile (\<lambda>c. c \<noteq> CHR '' '') s of
        [] \<Rightarrow> [s]
      | _ # r \<Rightarrow> takeWhile (\<lambda>c. c \<noteq> CHR '' '') s # blank_words r)"
  by auto
termination
proof (relation "measure length")
  fix s :: string and c r
  assume "dropWhile (\<lambda>c. c \<noteq> CHR '' '') s = c # r"
  then have "length (c # r) \<le> length s" by (metis length_dropWhile_le)
  then show "(r, s) \<in> measure length" by simp
qed simp

declare blank_words.simps [simp del]

definition request_word :: "string \<Rightarrow> (bool \<times> string) list" where
  "request_word w =
     (let w' = dropWhile isspace w in
      if w' = [] then [] else [(CHR ''!'' \<in> set w', filter (\<lambda>c. c \<noteq> CHR ''!'') w')])"

definition request_words :: "string \<Rightarrow> (bool \<times> string) list" where
  "request_words s =
     (let ws = blank_words s; w = last ws in
      concat (map request_word (butlast ws)) @ (if w \<noteq> [] \<and> last w = CHR ''!'' then [] else request_word w))"

text \<open>
  The first word that names the request decides; otherwise the last \<open>*\<close> does. The second
  component is whether the request was decided or all requests were once refused.
\<close>

definition verdict_from :: "bool \<Rightarrow> bool \<Rightarrow> string \<Rightarrow> (bool \<times> string) list \<Rightarrow> bool \<times> bool" where
  "verdict_from al dis request ws =
     (case find (\<lambda>(neg, name). strcasecmp request name = 0) ws of
        Some (neg, _) \<Rightarrow> (\<not> neg, True)
      | None \<Rightarrow>
          (let stars = map fst (filter (\<lambda>(neg, name). name = ''*'') ws) in
           (if stars = [] then al else \<not> last stars, dis \<or> True \<in> set stars)))"

definition verdict :: "string \<Rightarrow> (bool \<times> string) list \<Rightarrow> bool \<times> bool" where
  "verdict = verdict_from False False"

abbreviation (input) fresh_word :: "bool \<Rightarrow> bool \<Rightarrow> wordState" where
  "fresh_word al dis \<equiv> \<lparr>requestBuffer = [], wordFlag = False, disableFlag = False, allFlag = al, disabledOut = dis\<rparr>"

abbreviation (input) in_word :: "string \<Rightarrow> bool \<Rightarrow> bool \<Rightarrow> bool \<Rightarrow> wordState" where
  "in_word b d al dis \<equiv> \<lparr>requestBuffer = b, wordFlag = True, disableFlag = d, allFlag = al, disabledOut = dis\<rparr>"

lemma loop_spaces:
  "request_loop request (s @ t) (fresh_word al dis) = request_loop request (dropWhile isspace s @ t) (fresh_word al dis)"
  by (induction s) auto

lemma loop_first:
  "\<not> isspace c \<Longrightarrow> request_loop request (c # s) (fresh_word al dis) = request_loop request (c # s) (in_word [] False al dis)"
  by simp

lemma loop_word:
  "CHR '' '' \<notin> set w \<Longrightarrow> t \<noteq> [] \<Longrightarrow> length b + length (filter (\<lambda>c. c \<noteq> CHR ''!'') w) \<le> 31 \<Longrightarrow>
   request_loop request (w @ t) (in_word b d al dis)
     = request_loop request t (in_word (b @ filter (\<lambda>c. c \<noteq> CHR ''!'') w) (d \<or> CHR ''!'' \<in> set w) al dis)"
proof (induction w arbitrary: b d)
  case (Cons c w)
  then show ?case using Cons.IH [of "b @ [c]" d] Cons.IH [of b True]
    by (auto simp: buffer_put_def)
qed simp

lemma word_end_fresh:
  "word_end b (in_word b d al dis) = fresh_word (if b = ''*'' then \<not> d else al) (dis \<or> (b = ''*'' \<and> d))"
  by (simp add: word_end_def)

lemma verdict_from_Cons:
  "verdict_from al dis request ((neg, name) # ws) =
    (if strcasecmp request name = 0 then (\<not> neg, True)
     else verdict_from (if name = ''*'' then \<not> neg else al) (dis \<or> (name = ''*'' \<and> neg)) request ws)"
  by (auto simp: verdict_from_def Let_def split: option.split)

lemma request_word_cases:
  obtains "dropWhile isspace w = []" "request_word w = []"
  | c v where "dropWhile isspace w = c # v" "\<not> isspace c" "request_word w = [(CHR ''!'' \<in> set (c # v), filter (\<lambda>c. c \<noteq> CHR ''!'') (c # v))]"
proof (cases "dropWhile isspace w")
  case (Cons c v)
  then have "\<not> isspace c" by (metis hd_dropWhile list.distinct(1) list.sel(1))
  then show ?thesis using that(2) Cons by (simp add: request_word_def)
qed (use that(1) in \<open>simp add: request_word_def\<close>)

lemma loop_blank_word:
  assumes w: "CHR '' '' \<notin> set w" and short: "\<forall>x\<in>set (request_word w). length (snd x) \<le> 31"
    and IH: "\<And>al dis. request_loop request t (fresh_word al dis) = Some (verdict_from al dis request ws)"
  shows "request_loop request (w @ CHR '' '' # t) (fresh_word al dis) = Some (verdict_from al dis request (request_word w @ ws))"
proof -
  have blank: "isspace (CHR '' '')" by (simp add: isspace_def)
  show ?thesis
  proof (cases w rule: request_word_cases)
    case 1
    then show ?thesis unfolding loop_spaces [of request w] 1 using IH blank by simp
  next
    case (2 c v)
    let ?b = "filter (\<lambda>c. c \<noteq> CHR ''!'') (c # v)" and ?neg = "CHR ''!'' \<in> set (c # v)"
    have cv: "CHR '' '' \<notin> set (c # v)" using w 2(1) by (metis set_dropWhileD)
    have l: "length ?b \<le> 31" using short 2(3) by simp
    have "request_loop request (w @ CHR '' '' # t) (fresh_word al dis) = request_loop request ((c # v) @ CHR '' '' # t) (in_word [] False al dis)"
      unfolding loop_spaces [of request w] 2(1) using loop_first [OF 2(2)] by simp
    also have "\<dots> = request_loop request (CHR '' '' # t) (in_word ?b ?neg al dis)"
      using loop_word [OF cv, of "CHR '' '' # t" "[]"] l by simp
    also have "\<dots> = Some (verdict_from al dis request (request_word w @ ws))"
      using l unfolding 2(3) by (simp only: append_Cons append_Nil verdict_from_Cons) (simp add: buffer_end_def word_end_fresh [simplified] IH)
    finally show ?thesis .
  qed
qed

lemma loop_last_char:
  "e \<noteq> CHR ''!'' \<Longrightarrow> e \<noteq> CHR '' '' \<Longrightarrow> length b < 31 \<Longrightarrow>
   request_loop request [e] (in_word b d al dis) = Some (verdict_from al dis request [(d, b @ [e])])"
  by (simp add: buffer_put_def buffer_end_def word_end_def verdict_from_Cons Let_def) (simp add: verdict_from_def)

lemma loop_last_word:
  assumes w: "CHR '' '' \<notin> set w" and short: "\<forall>x\<in>set (request_word w). length (snd x) \<le> 31"
  shows "request_loop request w (fresh_word al dis) =
    Some (verdict_from al dis request (if w \<noteq> [] \<and> last w = CHR ''!'' then [] else request_word w))"
proof (cases w rule: request_word_cases)
  case 1
  have "w = [] \<or> last w \<noteq> CHR ''!''" using 1(1) last_in_set [of w] by (force simp: isspace_def)
  moreover have "request_loop request w (fresh_word al dis) = request_loop request [] (fresh_word al dis)"
    using loop_spaces [of request w "[]"] 1(1) by simp
  ultimately show ?thesis using 1(2) by (simp add: verdict_from_def buffer_end_def)
next
  case (2 c v)
  let ?b = "filter (\<lambda>c. c \<noteq> CHR ''!'') (c # v)" and ?neg = "CHR ''!'' \<in> set (c # v)"
  let ?u = "butlast (c # v)" and ?e = "last (c # v)"
  have split: "c # v = ?u @ [?e]" by simp
  have cv: "CHR '' '' \<notin> set (c # v)" using w 2(1) by (metis set_dropWhileD)
  then have u: "CHR '' '' \<notin> set ?u" "?e \<noteq> CHR '' ''" by (metis in_set_butlastD, metis last_in_set list.distinct(1))
  have b: "?b = filter (\<lambda>c. c \<noteq> CHR ''!'') ?u @ (if ?e = CHR ''!'' then [] else [?e])"
    by (subst split, subst filter_append) simp
  have l: "length ?b \<le> 31" using short 2(3) by simp
  have lu: "length (filter (\<lambda>c. c \<noteq> CHR ''!'') ?u) \<le> 31" using l b by simp
  have n: "?neg \<longleftrightarrow> CHR ''!'' \<in> set ?u \<or> ?e = CHR ''!''" by (subst split, subst set_append) auto
  have "w = takeWhile isspace w @ c # v" using takeWhile_dropWhile_id [of isspace w] 2(1) by simp
  then have lw: "w \<noteq> []" "last w = ?e" by (metis append_is_Nil_conv list.distinct(1), metis last_appendR list.distinct(1))
  have "request_loop request w (fresh_word al dis) = request_loop request (?u @ [?e]) (in_word [] False al dis)"
    using loop_spaces [of request w "[]"] loop_first [OF 2(2), of request v al dis] 2(1)
    by (simp only: append_butlast_last_id [OF list.distinct(2)] append_Nil2)
  also have "\<dots> = request_loop request [?e] (in_word (filter (\<lambda>c. c \<noteq> CHR ''!'') ?u) (CHR ''!'' \<in> set ?u) al dis)"
    using loop_word [OF u(1), of "[?e]" "[]"] lu by simp
  also have "\<dots> = Some (verdict_from al dis request (if ?e = CHR ''!'' then [] else [(?neg, ?b)]))"
  proof (cases "?e = CHR ''!''")
    case True
    then show ?thesis using lu by (simp add: buffer_end_def verdict_from_def)
  next
    case False
    then have "length (filter (\<lambda>c. c \<noteq> CHR ''!'') ?u) < 31" using l b by simp
    from loop_last_char [OF False u(2) this, of request "CHR ''!'' \<in> set ?u" al dis]
    show ?thesis using False n by (simp only: b if_False simp_thms)
  qed
  finally show ?thesis using lw 2(3) by simp
qed

lemma blank_words_cases:
  obtains "CHR '' '' \<notin> set s" "blank_words s = [s]"
  | w t where "s = w @ CHR '' '' # t" "CHR '' '' \<notin> set w" "blank_words s = w # blank_words t"
proof (cases "dropWhile (\<lambda>c. c \<noteq> CHR '' '') s")
  case Nil
  moreover have "CHR '' '' \<notin> set s" using Nil by (auto simp: dropWhile_eq_Nil_conv)
  ultimately show ?thesis using that(1) by (simp only: blank_words.simps [of s] list.case) simp
next
  case (Cons c t)
  have c: "c = CHR '' ''" using Cons by (metis (mono_tags, lifting) hd_dropWhile list.distinct(1) list.sel(1))
  let ?w = "takeWhile (\<lambda>c. c \<noteq> CHR '' '') s"
  have "s = ?w @ CHR '' '' # t" using Cons c takeWhile_dropWhile_id [of "\<lambda>c. c \<noteq> CHR '' ''" s] by simp
  moreover have "CHR '' '' \<notin> set ?w" by (metis (mono_tags, lifting) set_takeWhileD)
  moreover have "blank_words s = ?w # blank_words t" using Cons by (simp only: blank_words.simps [of s] list.case)
  ultimately show ?thesis using that(2) by blast
qed

lemma blank_words_nonempty: "blank_words s \<noteq> []"
  by (cases s rule: blank_words_cases) auto

lemma request_words_Cons:
  "CHR '' '' \<notin> set w \<Longrightarrow> blank_words s = w # blank_words t \<Longrightarrow> request_words s = request_word w @ request_words t"
  using blank_words_nonempty [of t] by (simp add: request_words_def Let_def)

definition short_words :: "string \<Rightarrow> bool" where
  "short_words s \<longleftrightarrow> (\<forall>w\<in>set (blank_words s). \<forall>x\<in>set (request_word w). length (snd x) \<le> 31)"

lemma request_loop_words:
  "short_words s \<Longrightarrow> request_loop request s (fresh_word al dis) = Some (verdict_from al dis request (request_words s))"
proof (induction s arbitrary: al dis rule: length_induct)
  case (1 s)
  show ?case
  proof (cases s rule: blank_words_cases)
    case 1
    then show ?thesis using loop_last_word [OF 1(1)] "1.prems" by (simp add: request_words_def short_words_def)
  next
    case (2 w t)
    have "short_words t" "\<forall>x\<in>set (request_word w). length (snd x) \<le> 31" using "1.prems" 2(3) by (auto simp: short_words_def)
    moreover have "length t < length s" using 2(1) by simp
    ultimately have "request_loop request t (fresh_word al dis) = Some (verdict_from al dis request (request_words t))" for al dis
      using "1.IH" by blast
    from loop_blank_word [OF 2(2) \<open>\<forall>x\<in>set (request_word w). length (snd x) \<le> 31\<close> this]
    show ?thesis unfolding request_words_Cons [OF 2(2,3)] by (simp only: 2(1))
  qed
qed

section \<open>What the metadata says\<close>

datatype access = Granted | Refused | Silent

definition access_of :: "bool \<times> bool \<Rightarrow> access" where
  "access_of v = (if fst v then Granted else if snd v then Refused else Silent)"

definition listed :: "hashTableObj \<Rightarrow> string option \<Rightarrow> string \<Rightarrow> bool \<times> bool" where
  "listed metadata ns request =
     (case fst (msOWSLookupMetadata metadata ns ''enable_request'') of
        None \<Rightarrow> (False, False)
      | Some s \<Rightarrow> verdict request (request_words s))"

text \<open>The service's own list first, then the common one.\<close>

definition stated :: "hashTableObj \<Rightarrow> string option \<Rightarrow> string \<Rightarrow> access" where
  "stated metadata ns request =
     (case access_of (listed metadata ns request) of
        Silent \<Rightarrow> access_of (listed metadata (Some ''O'') request)
      | a \<Rightarrow> a)"

definition blocked :: "owsEnv \<Rightarrow> hashTableObj \<Rightarrow> string option \<Rightarrow> bool" where
  "blocked env metadata ns \<longleftrightarrow> msOWSIpDisabled env metadata ns = Some True"

text \<open>Metadata on which nothing is undefined.\<close>

definition usable :: "owsEnv \<Rightarrow> string option \<Rightarrow> hashTableObj \<Rightarrow> bool" where
  "usable env ns metadata \<longleftrightarrow> msOWSIpDisabled env metadata ns \<noteq> None
     \<and> (\<forall>n\<in>{ns, Some ''O''}. \<forall>s. fst (msOWSLookupMetadata metadata n ''enable_request'') = Some s \<longrightarrow> short_words s)"

definition map_grants :: "owsEnv \<Rightarrow> owsMap \<Rightarrow> string option \<Rightarrow> string \<Rightarrow> bool" where
  "map_grants env m ns request \<longleftrightarrow> stated (web_metadata m) ns request = Granted \<and> \<not> blocked env (web_metadata m) ns"

definition layer_allowed :: "owsEnv \<Rightarrow> owsMap \<Rightarrow> string option \<Rightarrow> string \<Rightarrow> owsLayer \<Rightarrow> bool" where
  "layer_allowed env m ns request l \<longleftrightarrow> \<not> blocked env (layer_metadata l) ns
     \<and> (case stated (layer_metadata l) ns request of
          Granted \<Rightarrow> True | Refused \<Rightarrow> False | Silent \<Rightarrow> map_grants env m ns request)"

lemma enable_request_listed:
  assumes "usable env ns metadata"
  shows "enable_request metadata ns request = Some (listed metadata ns request)"
    "enable_request metadata (Some ''O'') request = Some (listed metadata (Some ''O'') request)"
  using assms by (auto simp: enable_request_def msOWSParseRequestMetadata_def listed_def usable_def verdict_def
      request_loop_words split: option.split)

lemma ip_disabled_blocked: "usable env ns metadata \<Longrightarrow> msOWSIpDisabled env metadata ns = Some (blocked env metadata ns)"
  by (auto simp: usable_def blocked_def)

lemma globally_enabled_eq:
  "usable env ns (web_metadata m) \<Longrightarrow>
    \<exists>d. globally_enabled env (web_metadata m) ns request = Some (map_grants env m ns request, d)"
  by (cases "listed (web_metadata m) ns request"; cases "listed (web_metadata m) (Some ''O'') request")
    (auto simp: globally_enabled_def enable_request_listed ip_disabled_blocked map_grants_def stated_def access_of_def)

lemma layer_round_eq:
  "usable env ns (layer_metadata l) \<Longrightarrow>
    \<exists>d. layer_round env (map_grants env m ns request) (layer_metadata l) ns request = Some (layer_allowed env m ns request l, d)
      \<and> (stated (layer_metadata l) ns request = Refused \<longrightarrow> d)"
  by (cases "listed (layer_metadata l) ns request"; cases "listed (layer_metadata l) (Some ''O'') request")
    (auto simp: layer_round_def enable_request_listed ip_disabled_blocked layer_allowed_def stated_def access_of_def)

lemma scope_check_eq:
  "usable env ns metadata \<Longrightarrow> scope_check env metadata ns request =
    Some (case stated metadata ns request of
            Granted \<Rightarrow> Some True | Refused \<Rightarrow> Some False | Silent \<Rightarrow> if blocked env metadata ns then Some False else None)"
  by (cases "listed metadata ns request"; cases "listed metadata (Some ''O'') request")
    (auto simp: scope_check_def enable_request_listed ip_disabled_blocked stated_def access_of_def)

lemma enabled_loop_eq:
  "\<forall>l\<in>set ls. usable env ns (layer_metadata l) \<Longrightarrow>
    enabled_loop env (map_grants env m ns request) ns request ls = Some (map layer_index (filter (layer_allowed env m ns request) ls))"
proof (induction ls)
  case (Cons l ls)
  then show ?case using layer_round_eq [of env ns l m request] by auto
qed simp

lemma any_layer_eq:
  "\<forall>l\<in>set ls. usable env ns (layer_metadata l) \<Longrightarrow>
    \<exists>b. any_layer env (map_grants env m ns request) ns request ls d = Some b
      \<and> ((\<exists>l\<in>set ls. layer_allowed env m ns request l) \<longrightarrow> b)
      \<and> (b \<longrightarrow> (\<exists>l\<in>set ls. layer_allowed env m ns request l) \<or> map_grants env m ns request
             \<and> (ls = [] \<or> stated (layer_metadata (last ls)) ns request \<noteq> Refused))"
proof (induction ls arbitrary: d)
  case (Cons l ls)
  obtain d' where r: "layer_round env (map_grants env m ns request) (layer_metadata l) ns request = Some (layer_allowed env m ns request l, d')"
    "stated (layer_metadata l) ns request = Refused \<longrightarrow> d'" using layer_round_eq [of env ns l m request] Cons.prems by auto
  show ?case
  proof (cases "layer_allowed env m ns request l")
    case False
    then show ?thesis using r Cons.IH [of d'] Cons.prems by (cases ls) auto
  qed (use r in auto)
qed simp

section \<open>Properties\<close>

text \<open>C22. The list of enabled requests is read as it is meant: for every text whose words fit the buffer,
  \<open>msOWSParseRequestMetadata\<close> enables the request by the first word that names it, in any case and
  without an exclamation mark, or else by the last \<open>*\<close> of the list; and it sets \<open>disabled\<close> exactly
  when the request is named, or all requests are refused somewhere.\<close>

theorem request_list_words:
  assumes "short_words s"
  shows "msOWSParseRequestMetadata (Some s) request = Some (verdict request (request_words s))"
  using request_loop_words [OF assms] by (simp add: msOWSParseRequestMetadata_def verdict_def)

theorem request_list_words_witness:
  "msOWSParseRequestMetadata (Some ''* !GetFeature'') ''getfeature'' = Some (verdict ''getfeature'' [(False, ''*''), (True, ''GetFeature'')])"
proof -
  have "short_words ''* !GetFeature''" "request_words ''* !GetFeature'' = [(False, ''*''), (True, ''GetFeature'')]"
    unfolding short_words_def by code_simp+
  then show ?thesis using request_list_words [of "''* !GetFeature''" "''getfeature''"] by simp
qed

text \<open>C21. The layers that a request may see are exactly the allowed ones, in the order of the map:
  \<open>msOWSRequestLayersEnabled\<close> lists a layer when the address of the client is not blocked by the
  layer's lists of addresses and the request is granted by the layer's own metadata, or is left
  open there and granted by the map to this address. The decision on one layer does not depend
  on the others. The metadata of the map and of every layer must be such that nothing is undefined:
  the lists of addresses can be read and parsed, and the words of the \<open>enable_request\<close> lists fit the
  buffer of 32 characters (\<open>usable\<close>).\<close>

theorem layers_enabled_exact:
  assumes "usable env ns (web_metadata m)" and "\<forall>l\<in>set (ows_layers m). usable env ns (layer_metadata l)"
  shows "msOWSRequestLayersEnabled env (Some m) ns (Some request)
    = Some (map layer_index (filter (layer_allowed env m ns request) (ows_layers m)))"
  using globally_enabled_eq [OF assms(1), of request] enabled_loop_eq [OF assms(2), of m request]
  by (auto simp: msOWSRequestLayersEnabled_def)

text \<open>Asked whether any layer may be used (\<open>check_all_layers\<close>), \<open>msOWSRequestIsEnabled\<close> says yes if one
  of the layers is allowed, and no if none is and the map does not grant the request to this
  address; asked about one layer or the map alone, it follows the layer's metadata, then the
  layer's addresses, then the map's, and says no if all are silent.\<close>

theorem request_enabled:
  assumes "usable env ns (web_metadata m)" and "\<forall>l\<in>set (ows_layers m). usable env ns (layer_metadata l)" and "usable env ns (layer_metadata l)"
  shows "(\<exists>b. msOWSRequestIsEnabled env (Some m) None ns (Some request) True = Some b
      \<and> ((\<exists>k\<in>set (ows_layers m). layer_allowed env m ns request k) \<longrightarrow> b)
      \<and> (b \<longrightarrow> (\<exists>k\<in>set (ows_layers m). layer_allowed env m ns request k) \<or> stated (web_metadata m) ns request = Granted))
    \<and> msOWSRequestIsEnabled env (Some m) (Some l) ns (Some request) False =
      Some (case stated (layer_metadata l) ns request of
              Granted \<Rightarrow> True | Refused \<Rightarrow> False
            | Silent \<Rightarrow> \<not> blocked env (layer_metadata l) ns \<and> stated (web_metadata m) ns request = Granted)"
proof -
  note s = scope_check_eq [OF assms(1), of request] scope_check_eq [OF assms(3), of request]
  obtain d where g: "globally_enabled env (web_metadata m) ns request = Some (map_grants env m ns request, d)"
    using globally_enabled_eq [OF assms(1)] by blast
  obtain b where b: "any_layer env (map_grants env m ns request) ns request (ows_layers m) d = Some b"
      "(\<exists>k\<in>set (ows_layers m). layer_allowed env m ns request k) \<longrightarrow> b"
      "b \<longrightarrow> (\<exists>k\<in>set (ows_layers m). layer_allowed env m ns request k) \<or> stated (web_metadata m) ns request = Granted"
    using any_layer_eq [OF assms(2), of m request d] by (auto simp: map_grants_def)
  then have "\<exists>b. msOWSRequestIsEnabled env (Some m) None ns (Some request) True = Some b
      \<and> ((\<exists>k\<in>set (ows_layers m). layer_allowed env m ns request k) \<longrightarrow> b)
      \<and> (b \<longrightarrow> (\<exists>k\<in>set (ows_layers m). layer_allowed env m ns request k) \<or> stated (web_metadata m) ns request = Granted)"
    using g b s(1) by (cases "ows_layers m = []") (auto simp: msOWSRequestIsEnabled_def split: access.split)
  moreover have "msOWSRequestIsEnabled env (Some m) (Some l) ns (Some request) False =
      Some (case stated (layer_metadata l) ns request of
              Granted \<Rightarrow> True | Refused \<Rightarrow> False
            | Silent \<Rightarrow> \<not> blocked env (layer_metadata l) ns \<and> stated (web_metadata m) ns request = Granted)"
    using s by (auto simp: msOWSRequestIsEnabled_def split: access.split)
  ultimately show ?thesis by blast
qed

section \<open>A map with three layers\<close>

definition table :: "(string \<times> string) list \<Rightarrow> hashTableObj" where
  "table = foldl (\<lambda>t (k, v). tbl_insert t k v) msCreateHashTable"

definition client :: owsEnv where
  "client = \<lparr>host_be = False, ow_files = (\<lambda>_. None), remote_ip = Some ''10.1.2.3''\<rparr>"

definition demo_layers :: "owsLayer list" where
  "demo_layers =
     [\<lparr>layer_metadata = table [(''wms_denied_ip_list'', ''10.0.0.0/8'')], layer_index = 0\<rparr>,
      \<lparr>layer_metadata = table [], layer_index = 1\<rparr>,
      \<lparr>layer_metadata = table [(''wms_enable_request'', ''!GetMap'')], layer_index = 2\<rparr>]"

definition demo_map :: owsMap where
  "demo_map = \<lparr>web_metadata = table [(''ows_enable_request'', ''*'')], ows_layers = demo_layers\<rparr>"

lemma usableI:
  assumes "msOWSIpDisabled env metadata ns = Some b"
    and "\<And>s. fst (msOWSLookupMetadata metadata ns ''enable_request'') = Some s \<Longrightarrow> short_words s"
    and "\<And>s. fst (msOWSLookupMetadata metadata (Some ''O'') ''enable_request'') = Some s \<Longrightarrow> short_words s"
  shows "usable env ns metadata"
  using assms by (auto simp: usable_def)

lemma demo_usable:
  "usable client (Some ''M'') (web_metadata demo_map)" "\<forall>l\<in>set (ows_layers demo_map). usable client (Some ''M'') (layer_metadata l)"
proof -
  have short: "short_words ''*''" "short_words ''!GetMap''" by (unfold short_words_def) code_simp+
  have w: "msOWSIpDisabled client (web_metadata demo_map) (Some ''M'') = Some False"
    "fst (msOWSLookupMetadata (web_metadata demo_map) (Some ''M'') ''enable_request'') = None"
    "fst (msOWSLookupMetadata (web_metadata demo_map) (Some ''O'') ''enable_request'') = Some ''*''" by code_simp+
  show "usable client (Some ''M'') (web_metadata demo_map)" by (rule usableI [OF w(1)]) (use w short in auto)
  have l: "map (\<lambda>l. (msOWSIpDisabled client (layer_metadata l) (Some ''M''),
      fst (msOWSLookupMetadata (layer_metadata l) (Some ''M'') ''enable_request''),
      fst (msOWSLookupMetadata (layer_metadata l) (Some ''O'') ''enable_request''))) (ows_layers demo_map)
    = [(Some True, None, None), (Some False, None, None), (Some False, Some ''!GetMap'', None)]" by code_simp
  show "\<forall>l\<in>set (ows_layers demo_map). usable client (Some ''M'') (layer_metadata l)"
  proof
    fix x assume "x \<in> set (ows_layers demo_map)"
    then have "(msOWSIpDisabled client (layer_metadata x) (Some ''M''),
      fst (msOWSLookupMetadata (layer_metadata x) (Some ''M'') ''enable_request''),
      fst (msOWSLookupMetadata (layer_metadata x) (Some ''O'') ''enable_request''))
      \<in> set [(Some True, None, None), (Some False, None, None), (Some False, Some ''!GetMap'', None)]"
      unfolding l [symmetric] by simp
    then show "usable client (Some ''M'') (layer_metadata x)" using short by (auto intro: usableI)
  qed
qed

theorem layers_enabled_exact_witness:
  "msOWSRequestLayersEnabled client (Some demo_map) (Some ''M'') (Some ''GetMap'') = Some [1]
    \<and> map layer_index (filter (layer_allowed client demo_map (Some ''M'') ''GetMap'') (ows_layers demo_map)) = [1]"
proof -
  have "msOWSRequestLayersEnabled client (Some demo_map) (Some ''M'') (Some ''GetMap'') = Some [1]" by code_simp
  then show ?thesis using layers_enabled_exact [OF demo_usable, of "''GetMap''"] by simp
qed

theorem request_enabled_witness:
  "msOWSRequestIsEnabled client (Some demo_map) (Some (ows_layers demo_map ! 2)) (Some ''M'') (Some ''GetMap'') False = Some False
    \<and> stated (layer_metadata (ows_layers demo_map ! 2)) (Some ''M'') ''GetMap'' \<noteq> Granted"
proof -
  have l: "usable client (Some ''M'') (layer_metadata (ows_layers demo_map ! 2))"
    using demo_usable(2) nth_mem [of 2 "ows_layers demo_map"] by (simp add: demo_map_def demo_layers_def)
  have "msOWSRequestIsEnabled client (Some demo_map) (Some (ows_layers demo_map ! 2)) (Some ''M'') (Some ''GetMap'') False = Some False" by code_simp
  then show ?thesis using request_enabled [OF demo_usable l, of "''GetMap''"] by (auto split: access.splits)
qed

section \<open>Where the decisions disagree\<close>

text \<open>
  An explicit grant is returned before the list of addresses is looked at: a client that the
  layer, or the whole map, denies is let in. The list of layers is right.
\<close>

definition denied_layer :: owsLayer where
  "denied_layer = \<lparr>layer_metadata = table [(''ows_enable_request'', ''*''), (''ows_denied_ip_list'', ''10.0.0.0/8'')], layer_index = 0\<rparr>"

lemma address_list_bypassed:
  "msOWSRequestIsEnabled client (Some \<lparr>web_metadata = table [], ows_layers = [denied_layer]\<rparr>) (Some denied_layer)
     (Some ''AO'') (Some ''OGCAPI'') False = Some True"
  "msOWSRequestLayersEnabled client (Some \<lparr>web_metadata = table [], ows_layers = [denied_layer]\<rparr>) (Some ''AO'') (Some ''OGCAPI'') = Some []"
  "msOWSRequestIsEnabled client (Some \<lparr>web_metadata = table [(''ows_enable_request'', ''*''), (''ows_allowed_ip_list'', ''127.0.0.1'')],
     ows_layers = []\<rparr>) None (Some ''AO'') (Some ''OGCAPI'') False = Some True"
  by code_simp+

text \<open>
  With \<open>check_all_layers\<close> the flag of the last layer is left over behind the loop: the order of two
  layers, neither of which may be used, decides.
\<close>

lemma layer_order_decides:
  "msOWSRequestIsEnabled client (Some (demo_map\<lparr>ows_layers := [demo_layers ! 0, demo_layers ! 2]\<rparr>)) None (Some ''M'') (Some ''GetMap'') True = Some False"
  "msOWSRequestIsEnabled client (Some (demo_map\<lparr>ows_layers := [demo_layers ! 2, demo_layers ! 0]\<rparr>)) None (Some ''M'') (Some ''GetMap'') True = Some True"
  by code_simp+

text \<open>A word of 32 characters does not fit the buffer.\<close>

lemma long_word_overflows: "msOWSParseRequestMetadata (Some (replicate 32 (CHR ''a''))) ''GetMap'' = None"
  by code_simp

text \<open>Lists that cannot be opened let everybody through when they deny, and nobody when they allow.\<close>

lemma missing_list_file:
  "msOWSIpDisabled client (table [(''ows_denied_ip_list'', ''file:/none'')]) (Some ''M'') = Some False"
  "msOWSIpDisabled client (table [(''ows_allowed_ip_list'', ''file:/none'')]) (Some ''M'') = Some True"
  by code_simp+

end
