(* ===== verification/OwsCommon.thy ===== *)
theory OwsCommon
  imports OwsAccess CgiUtil
begin

text \<open>
  \<^verbatim>\<open>mapows.cpp\<close>, what all OGC services share: finding out the service, version and request of a
  CGI request, versions as numbers and their negotiation, unique names for the layers, the
  languages of a service, codes of projections, and the URL that capabilities documents print.
\<close>

section \<open>The request\<close>

abbreviation (input) MS_OWSERR :: int where "MS_OWSERR \<equiv> 40"

record owsRequestObj =
  service :: "string option"
  version :: "string option"
  ows_request :: "string option"

definition msOWSInitRequestObj :: owsRequestObj where
  "msOWSInitRequestObj = \<lparr>service = None, version = None, ows_request = None\<rparr>"

definition EQUAL :: "string \<Rightarrow> string \<Rightarrow> bool" where
  "EQUAL a b \<longleftrightarrow> strcasecmp a b = 0"

fun kvp_loop :: "(string \<times> string) list \<Rightarrow> owsRequestObj \<Rightarrow> owsRequestObj" where
  "kvp_loop [] r = r"
| "kvp_loop ((name, v) # ps) r =
     (let r' = (if service r = None \<and> EQUAL name ''SERVICE'' then r\<lparr>service := Some v\<rparr>
                else if version r = None \<and> (EQUAL name ''VERSION'' \<or> EQUAL name ''WMTVER'') then r\<lparr>version := Some v\<rparr>
                else if ows_request r = None \<and> EQUAL name ''REQUEST'' then r\<lparr>ows_request := Some v\<rparr>
                else r) in
      if service r' \<noteq> None \<and> version r' \<noteq> None \<and> ows_request r' \<noteq> None then r' else kvp_loop ps r')"

text \<open>
  \<open>parse_xml\<close> is what libxml2 finds in a document: the name of its root element and the attributes
  \<open>service\<close> and \<open>version\<close> of it, or \<open>None\<close> if there is none.
\<close>

type_synonym xml_root = "string \<times> string option \<times> string option"

definition msOWSPreParseRequest ::
  "(string \<Rightarrow> xml_root option) \<Rightarrow> cgiRequestObj \<Rightarrow> owsRequestObj \<Rightarrow> ms_return \<times> owsRequestObj \<times> report list" where
  "msOWSPreParseRequest parse_xml request r =
     (let kvp = (request_type request = MS_GET_REQUEST \<or>
                 (case contenttype request of None \<Rightarrow> False | Some ct \<Rightarrow> take (length form_type) ct = form_type));
          failed = (\<lambda>msg. (MS_FAILURE, r, [Report MS_OWSERR msg ''msOWSPreParseRequest()'']));
          fin = (\<lambda>r. if service r = None \<and> ows_request r \<noteq> None then
                       (if EQUAL (the (ows_request r)) ''GetMap'' \<or> EQUAL (the (ows_request r)) ''GetFeatureInfo''
                        then (MS_SUCCESS, r\<lparr>service := Some ''WMS''\<rparr>, []) else (MS_DONE, r, []))
                     else (MS_SUCCESS, r, [])) in
      if kvp then fin (kvp_loop (take (nat (NumParams request)) (zip (ParamNames request) (ParamValues request))) r)
      else
        (case postrequest request of
           None \<Rightarrow> failed ''POST request is empty.''
         | Some doc \<Rightarrow>
             if doc = [] then failed ''POST request is empty.''
             else (case parse_xml doc of
                     None \<Rightarrow> failed ''XML parsing error: %s''
                   | Some (name, s, v) \<Rightarrow>
                       fin (r\<lparr>service := (case s of Some _ \<Rightarrow> s | None \<Rightarrow> service r),
                              version := (case v of Some _ \<Rightarrow> v | None \<Rightarrow> version r), ows_request := Some name\<rparr>))))"

definition msOWSStrictCompliance :: "hashTableObj \<Rightarrow> bool" where
  "msOWSStrictCompliance web =
     (case fst (msOWSLookupMetadata web (Some ''MO'') ''compliance_mode'') of
        None \<Rightarrow> False | Some v \<Rightarrow> strcasecmp v ''true'' = 0)"

section \<open>Versions\<close>

abbreviation (input) OWS_VERSION_NOTSET :: int where "OWS_VERSION_NOTSET \<equiv> -1"
abbreviation (input) OWS_VERSION_BADFORMAT :: int where "OWS_VERSION_BADFORMAT \<equiv> -2"

definition msOWSParseVersionString :: "string option \<Rightarrow> int \<times> report list" where
  "msOWSParseVersionString pszVersion =
     (case pszVersion of
        None \<Rightarrow> (OWS_VERSION_NOTSET, [])
      | Some s \<Rightarrow>
          (let bad = (\<lambda>msg. (OWS_VERSION_BADFORMAT, [Report MS_OWSERR msg ''msOWSParseVersionString()''])) in
           case msStringSplit s (CHR ''.'') of
             None \<Rightarrow> bad (''Invalid version (%s). Version must be in the format 'x.y' or 'x.y.z'' @ [CHR 0x27])
           | Some (numDigits, digits) \<Rightarrow>
               if numDigits < 2 \<or> numDigits > 3 then bad (''Invalid version (%s). Version must be in the format 'x.y' or 'x.y.z'' @ [CHR 0x27])
               else if \<exists>d\<in>set digits. atoi d < 0 \<or> atoi d > 255 then bad ''Invalid version (%s). Each component must be between 0 and 255''
               else
                 (atoi (digits ! 0) * 0x10000 + atoi (digits ! 1) * 0x100
                    + (if numDigits > 2 then atoi (digits ! 2) else 0), [])))"

text \<open>\<open>%d\<close>, and the remainder and quotient of C, which truncate.\<close>

definition print_int :: "int \<Rightarrow> string" where
  "print_int n = (if n < 0 then CHR ''-'' # digits_of (nat (- n)) else digits_of (nat n))"

definition cdiv :: "int \<Rightarrow> int \<Rightarrow> int" where
  "cdiv a b = sgn a * sgn b * (\<bar>a\<bar> div \<bar>b\<bar>)"

definition cmod :: "int \<Rightarrow> int \<Rightarrow> int" where
  "cmod a b = a - cdiv a b * b"

text \<open>\<open>snprintf\<close> with a limit of 19 bytes.\<close>

definition msOWSGetVersionString :: "int \<Rightarrow> string" where
  "msOWSGetVersionString nVersion =
     take 18 (print_int (cmod (cdiv nVersion 0x10000) 0x100) @ ''.'' @ print_int (cmod (cdiv nVersion 0x100) 0x100)
       @ ''.'' @ print_int (cmod nVersion 0x100))"

text \<open>\<open>supported\<close> is not empty.\<close>

definition msOWSNegotiateVersion :: "int \<Rightarrow> int list \<Rightarrow> int" where
  "msOWSNegotiateVersion requested supported =
     (if requested = 0 then hd supported
      else if requested < last supported then last supported
      else (case find (\<lambda>v. v \<le> requested) supported of Some v \<Rightarrow> v | None \<Rightarrow> requested))"

section \<open>Names of layers\<close>

text \<open>\<open>snprintf(newname, nSize, "%s_%2.2d", lp->name, count)\<close>, with room for the number.\<close>

definition two_digits :: "nat \<Rightarrow> string" where
  "two_digits n = replicate (2 - length (digits_of n)) (CHR ''0'') @ digits_of n"

definition msRenameLayer :: "string \<Rightarrow> nat \<Rightarrow> string" where
  "msRenameLayer name n = name @ ''_'' @ two_digits n"

definition rename_at :: "nat \<Rightarrow> nat \<Rightarrow> string option list \<Rightarrow> string option list" where
  "rename_at i n names = names[i := map_option (\<lambda>s. msRenameLayer s n) (names ! i)]"

fun unique_loop ::
  "nat list \<Rightarrow> (string \<rightharpoonup> nat) \<Rightarrow> (string \<rightharpoonup> nat) \<Rightarrow> string option list \<Rightarrow> string option list" where
  "unique_loop [] namesToIdx namesToCount names = names"
| "unique_loop (i # is) namesToIdx namesToCount names =
     (case names ! i of
        None \<Rightarrow> unique_loop is namesToIdx namesToCount names
      | Some nm \<Rightarrow>
          (let name = lower nm in
           case namesToIdx name of
             None \<Rightarrow> unique_loop is (namesToIdx(name \<mapsto> i)) (namesToCount(name \<mapsto> 1)) names
           | Some j \<Rightarrow>
               (let c = the (namesToCount name);
                    names1 = (if c = 1 then rename_at j 1 names else names) in
                unique_loop is namesToIdx (namesToCount(name \<mapsto> c + 1)) (rename_at i (c + 1) names1))))"

definition msOWSMakeAllLayersUnique :: "string option list \<Rightarrow> string option list" where
  "msOWSMakeAllLayersUnique names = unique_loop [0..<length names] Map.empty Map.empty names"

section \<open>Languages\<close>

definition msStringInArray :: "string \<Rightarrow> string list \<Rightarrow> bool" where
  "msStringInArray s array \<longleftrightarrow> (\<exists>x\<in>set array. strcasecmp s x = 0)"

definition msOWSGetLanguageList :: "hashTableObj \<Rightarrow> string option \<Rightarrow> string list" where
  "msOWSGetLanguageList web namespaces =
     (case fst (msOWSLookupMetadata web namespaces ''languages'') of
        None \<Rightarrow> []
      | Some l \<Rightarrow> if l = [] then [] else (case msStringSplit l (CHR '','') of None \<Rightarrow> [] | Some (n, ls) \<Rightarrow> ls))"

definition msOWSGetLanguageFromList :: "hashTableObj \<Rightarrow> string option \<Rightarrow> string option \<Rightarrow> string option" where
  "msOWSGetLanguageFromList web namespaces requested_language =
     (let languages = msOWSGetLanguageList web namespaces in
      if languages = [] then None
      else (case requested_language of
              Some l \<Rightarrow> if msStringInArray l languages then Some l else Some (hd languages)
            | None \<Rightarrow> Some (hd languages)))"

definition msOWSLanguageNegotiation :: "hashTableObj \<Rightarrow> string option \<Rightarrow> string list \<Rightarrow> string option" where
  "msOWSLanguageNegotiation web namespaces accept_languages =
     (let languages = msOWSGetLanguageList web namespaces in
      if languages = [] then None
      else (case find (\<lambda>a. EQUAL a ''*'' \<or> msStringInArray a languages) accept_languages of
              Some a \<Rightarrow> if EQUAL a ''*'' then Some (hd languages) else Some a
            | None \<Rightarrow> Some (hd languages)))"

definition msOWSGetLanguage :: "hashTableObj \<Rightarrow> string \<Rightarrow> string" where
  "msOWSGetLanguage web ctx =
     (if ctx = ''exception'' then ''en-US''
      else (case msLookupHashTable (Some web) (Some ''ows_language'') of None \<Rightarrow> ''undefined'' | Some l \<Rightarrow> l))"

section \<open>URLs and codes of projections\<close>

definition msOWSTerminateOnlineResource :: "string option \<Rightarrow> string option" where
  "msOWSTerminateOnlineResource src_url =
     map_option (\<lambda>url. if CHR ''?'' \<notin> set url then url @ ''?''
                       else if last url \<noteq> CHR ''?'' \<and> last url \<noteq> CHR ''&'' then url @ ''&'' else url) src_url"

fun expanded_key :: "nat \<Rightarrow> string \<Rightarrow> string \<Rightarrow> string" where
  "expanded_key i [] name = []"
| "expanded_key i (c # namespaces) name =
     (if i > 0 then '' or '' else []) @ [CHR 0x22]
       @ (case fst (msOWSGetPrefixFromNamespace c) of None \<Rightarrow> [] | Some p \<Rightarrow> p) @ ''_'' @ name @ [CHR 0x22]
       @ expanded_key (i + 1) namespaces name"

definition msOWSGetExpandedMetadataKey :: "string \<Rightarrow> string \<Rightarrow> string" where
  "msOWSGetExpandedMetadataKey namespaces name = expanded_key 0 namespaces name"

definition toupper_char :: "char \<Rightarrow> char" where
  "toupper_char c = (let n = of_char c :: nat in if 97 \<le> n \<and> n \<le> 122 then char_of (n - 32) else c)"

definition prefix_ci :: "string \<Rightarrow> string \<Rightarrow> bool" where
  "prefix_ci p s \<longleftrightarrow> lower (take (length p) s) = lower p"

definition projection_code :: "string \<Rightarrow> string option" where
  "projection_code arg =
     (case strstr_at arg ''init=epsg:'' of
        Some k \<Rightarrow> Some (''EPSG:'' @ drop (k + 10) arg)
      | None \<Rightarrow>
        (case strstr_at arg ''init=crs:'' of
           Some k \<Rightarrow> Some (''CRS:'' @ drop (k + 9) arg)
         | None \<Rightarrow>
             if prefix_ci ''AUTO:'' arg \<or> prefix_ci ''AUTO2:'' arg then Some arg
             else if prefix_ci ''init='' arg then None
             else if CHR '':'' \<in> set arg then
               (let auth = takeWhile (\<lambda>c. c \<noteq> CHR '':'') arg in
                if length auth < 64 then Some (map toupper_char auth @ drop (length auth) arg) else None)
             else None))"

definition msOWSGetEPSGProj :: "string list option \<Rightarrow> hashTableObj option \<Rightarrow> string option \<Rightarrow> bool \<Rightarrow> string option" where
  "msOWSGetEPSGProj proj_args metadata namespaces bReturnOnlyFirstOne =
     (case (case metadata of None \<Rightarrow> None | Some md \<Rightarrow> fst (msOWSLookupMetadata md namespaces ''srs'')) of
        Some v \<Rightarrow> Some (if bReturnOnlyFirstOne then takeWhile (\<lambda>c. c \<noteq> CHR '' '') v else v)
      | None \<Rightarrow>
          (case proj_args of
             Some (arg # _) \<Rightarrow> projection_code arg
           | _ \<Rightarrow> None))"

text \<open>Metadata on the fields of a layer, where it has none; names are cut at 255 bytes.\<close>

definition add_if_unset :: "string \<Rightarrow> string \<Rightarrow> hashTableObj \<Rightarrow> hashTableObj" where
  "add_if_unset key v t = (if msLookupHashTable (Some t) (Some key) = None then tbl_insert t key v else t)"

definition msUpdateGMLFieldMetadata ::
  "hashTableObj \<Rightarrow> string \<Rightarrow> string \<Rightarrow> string \<Rightarrow> string \<Rightarrow> int \<Rightarrow> hashTableObj" where
  "msUpdateGMLFieldMetadata metadata field_name gml_type gml_width gml_precision nullable =
     (let key = (\<lambda>s. take 255 (''gml_'' @ field_name @ s));
          t1 = add_if_unset (key ''_type'') gml_type metadata;
          t2 = (if gml_width \<noteq> [] then add_if_unset (key ''_width'') gml_width t1 else t1);
          t3 = (if gml_precision \<noteq> [] then add_if_unset (key ''_precision'') gml_precision t2 else t2) in
      if nullable > 0 then add_if_unset (key ''_nillable'') ''true'' t3 else t3)"

section \<open>Versions\<close>

lemma cdiv_nonneg: "0 \<le> n \<Longrightarrow> 0 < k \<Longrightarrow> cdiv n k = n div k"
  by (cases "n = 0") (auto simp: cdiv_def)

lemma cmod_nonneg: "0 \<le> n \<Longrightarrow> 0 < k \<Longrightarrow> cmod n k = n mod k"
  by (simp add: cmod_def cdiv_nonneg minus_div_mult_eq_mod)

lemma digits_of_short: "n < 1000 \<Longrightarrow> length (digits_of n) \<le> 3"
  by (simp add: digits_of.simps [of n] digits_of.simps [of "n div 10"] digits_of.simps [of "n div 10 div 10"])

lemma split_three:
  "split_spec (CHR ''.'') NUL (digits_of a @ ''.'' @ digits_of b @ ''.'' @ digits_of c) [] = [digits_of a, digits_of b, digits_of c]"
proof -
  have "split_spec (CHR ''.'') NUL (join_with [CHR ''.''] [digits_of a, digits_of b, digits_of c]) [] = [digits_of a, digits_of b, digits_of c]"
    by (rule split_join) (use digits_of_plain digits_of_nonempty in auto)
  then show ?thesis by simp
qed

lemma version_text:
  assumes "0 \<le> n" "n < 2 ^ 24"
  shows "msOWSGetVersionString n = digits_of (nat (n div 65536)) @ ''.'' @ digits_of (nat (n div 256 mod 256)) @ ''.'' @ digits_of (nat (n mod 256))"
proof -
  have e: "cmod (cdiv n 65536) 256 = n div 65536" "cmod (cdiv n 256) 256 = n div 256 mod 256" "cmod n 256 = n mod 256"
    using assms by (simp_all add: cdiv_nonneg cmod_nonneg)
  have p: "print_int (n div 65536) = digits_of (nat (n div 65536))" "print_int (n div 256 mod 256) = digits_of (nat (n div 256 mod 256))"
    "print_int (n mod 256) = digits_of (nat (n mod 256))" using assms by (simp_all add: print_int_def not_less)
  have "nat (n div 65536) < 1000" "nat (n div 256 mod 256) < 1000" "nat (n mod 256) < 1000" using assms by simp_all
  then have "length (digits_of (nat (n div 65536))) \<le> 3" "length (digits_of (nat (n div 256 mod 256))) \<le> 3" "length (digits_of (nat (n mod 256))) \<le> 3"
    using digits_of_short by blast+
  then show ?thesis by (simp add: msOWSGetVersionString_def e p) linarith
qed

lemma find_first_le:
  "sorted_wrt (>) vs \<Longrightarrow> find (\<lambda>v. v \<le> r) vs = (if \<exists>v\<in>set vs. v \<le> r then Some (Max {v \<in> set vs. v \<le> r}) else None)"
  for vs :: "int list"
proof (induction vs)
  case (Cons v vs)
  show ?case
  proof (cases "v \<le> r")
    case True
    have "Max {u \<in> set (v # vs). u \<le> r} = v" by (rule Max_eqI) (use Cons.prems True in force)+
    then show ?thesis using True by simp
  next
    case False
    then have "{u \<in> set (v # vs). u \<le> r} = {u \<in> set vs. u \<le> r}" by auto
    then show ?thesis using False Cons by auto
  qed
qed simp

section \<open>The parameters of a request\<close>

definition first_param :: "(string \<Rightarrow> bool) \<Rightarrow> (string \<times> string) list \<Rightarrow> string option" where
  "first_param P ps = map_option snd (find (\<lambda>(n, v). P n) ps)"

definition or_first :: "string option \<Rightarrow> string option \<Rightarrow> string option" where
  "or_first a b = (case a of None \<Rightarrow> b | Some v \<Rightarrow> Some v)"

lemma or_first_set:
  "service r \<noteq> None \<Longrightarrow> version r \<noteq> None \<Longrightarrow> ows_request r \<noteq> None \<Longrightarrow>
   \<lparr>service = or_first (service r) x, version = or_first (version r) y, ows_request = or_first (ows_request r) z\<rparr> = r"
  by (cases r) (auto simp: or_first_def)

lemma kvp_loop_first:
  "kvp_loop ps r = \<lparr>service = or_first (service r) (first_param (\<lambda>n. EQUAL n ''SERVICE'') ps),
     version = or_first (version r) (first_param (\<lambda>n. EQUAL n ''VERSION'' \<or> EQUAL n ''WMTVER'') ps),
     ows_request = or_first (ows_request r) (first_param (\<lambda>n. EQUAL n ''REQUEST'') ps)\<rparr>"
proof (induction ps r rule: kvp_loop.induct)
  case (1 r)
  then show ?case by (simp add: first_param_def or_first_def split: option.split)
next
  case (2 name v ps r)
  have d: "\<not> (EQUAL name ''SERVICE'' \<and> (EQUAL name ''VERSION'' \<or> EQUAL name ''WMTVER''))"
    "\<not> (EQUAL name ''SERVICE'' \<and> EQUAL name ''REQUEST'')" "\<not> ((EQUAL name ''VERSION'' \<or> EQUAL name ''WMTVER'') \<and> EQUAL name ''REQUEST'')"
    by (auto simp: EQUAL_def strcasecmp_eq_0 tolower_char_def)
  let ?r = "if service r = None \<and> EQUAL name ''SERVICE'' then r\<lparr>service := Some v\<rparr>
                else if version r = None \<and> (EQUAL name ''VERSION'' \<or> EQUAL name ''WMTVER'') then r\<lparr>version := Some v\<rparr>
                else if ows_request r = None \<and> EQUAL name ''REQUEST'' then r\<lparr>ows_request := Some v\<rparr>
                else r"
  have f: "service ?r = or_first (service r) (if EQUAL name ''SERVICE'' then Some v else None)"
    "version ?r = or_first (version r) (if EQUAL name ''VERSION'' \<or> EQUAL name ''WMTVER'' then Some v else None)"
    "ows_request ?r = or_first (ows_request r) (if EQUAL name ''REQUEST'' then Some v else None)"
    using d by (auto simp: or_first_def split: option.split)
  have fp: "or_first a (first_param P ((name, v) # ps)) = or_first (or_first a (if P name then Some v else None)) (first_param P ps)" for a P
    by (auto simp: first_param_def or_first_def split: option.split)
  show ?case
  proof (cases "service ?r \<noteq> None \<and> version ?r \<noteq> None \<and> ows_request ?r \<noteq> None")
    case True
    then have eq: "kvp_loop ((name, v) # ps) r = ?r" by (simp only: kvp_loop.simps Let_def simp_thms if_True)
    show ?thesis unfolding fp f [symmetric] eq by (rule or_first_set [symmetric]) (use True in blast)+
  next
    case False
    then have eq: "kvp_loop ((name, v) # ps) r = kvp_loop ps ?r" by (simp only: kvp_loop.simps Let_def if_False)
    show ?thesis unfolding fp f [symmetric] eq by (rule 2 [OF refl False])
  qed
qed

section \<open>Unique names\<close>

text \<open>How many of the first \<open>k\<close> layers have the name \<open>key\<close>.\<close>

definition same_name :: "string option list \<Rightarrow> string \<Rightarrow> nat \<Rightarrow> bool" where
  "same_name names key j \<longleftrightarrow> map_option lower (names ! j) = Some key"

fun named_upto :: "string option list \<Rightarrow> nat \<Rightarrow> string \<Rightarrow> nat" where
  "named_upto names 0 key = 0"
| "named_upto names (Suc k) key = named_upto names k key + (if same_name names key k then 1 else 0)"

text \<open>The name of layer \<open>i\<close> after \<open>k\<close> rounds: numbered by its rank if another layer has its name.\<close>

definition unique_name :: "string option list \<Rightarrow> nat \<Rightarrow> nat \<Rightarrow> string option" where
  "unique_name names k i =
     (case names ! i of
        None \<Rightarrow> None
      | Some s \<Rightarrow> if named_upto names k (lower s) = 1 then Some s
                  else Some (msRenameLayer s (named_upto names (Suc i) (lower s))))"

lemma named_upto_mono: "i \<le> k \<Longrightarrow> named_upto names i key \<le> named_upto names k key"
  by (induction k) (auto simp: le_Suc_eq)

lemma named_upto_pos: "i < k \<Longrightarrow> same_name names key i \<Longrightarrow> named_upto names i key < named_upto names k key"
  using named_upto_mono [of "Suc i" k names key] by simp

lemma named_upto_two: "i < j \<Longrightarrow> j < k \<Longrightarrow> same_name names key i \<Longrightarrow> same_name names key j \<Longrightarrow> 2 \<le> named_upto names k key"
  using named_upto_pos [of i j names key] named_upto_pos [of j k names key] by simp

definition unique_inv :: "string option list \<Rightarrow> nat \<Rightarrow> (string \<rightharpoonup> nat) \<Rightarrow> (string \<rightharpoonup> nat) \<Rightarrow> string option list \<Rightarrow> bool" where
  "unique_inv names k idx cnt ns \<longleftrightarrow> length ns = length names
     \<and> (\<forall>i<length names. ns ! i = (if i < k then unique_name names k i else names ! i))
     \<and> (\<forall>key. cnt key = (if named_upto names k key = 0 then None else Some (named_upto names k key)))
     \<and> (\<forall>key. (idx key = None) = (named_upto names k key = 0))
     \<and> (\<forall>key j. idx key = Some j \<longrightarrow> j < k \<and> same_name names key j \<and> named_upto names j key = 0)"

lemma unique_name_other:
  "\<not> same_name names key i \<Longrightarrow> same_name names key k \<Longrightarrow> unique_name names (Suc k) i = unique_name names k i"
  by (auto simp: unique_name_def same_name_def split: option.split)

lemma unique_step:
  assumes inv: "unique_inv names k idx cnt ns" and k: "k < length names" and nm: "names ! k = Some nm" "lower nm = key"
    and j: "idx key = Some j" and c: "cnt key = Some c"
  shows "unique_inv names (Suc k) idx (cnt(key \<mapsto> c + 1)) (rename_at k (c + 1) (if c = 1 then rename_at j 1 ns else ns))"
proof -
  note I = inv [unfolded unique_inv_def]
  have sk: "same_name names key k" using nm by (simp add: same_name_def)
  have cnt: "named_upto names k key = c" "c \<noteq> 0" using I c by (auto split: if_splits)
  have jk: "j < k" "same_name names key j" "named_upto names j key = 0" using I j by auto
  obtain sj where sj: "names ! j = Some sj" "lower sj = key" using jk(2) by (auto simp: same_name_def)
  let ?ns = "rename_at k (c + 1) (if c = 1 then rename_at j 1 ns else ns)"
  have ne: "named_upto names (Suc k) key \<noteq> 1" using cnt sk by simp
  have "?ns ! i = (if i < Suc k then unique_name names (Suc k) i else names ! i)" if i: "i < length names" for i
  proof -
    consider "k < i" | "i = k" | "i < k" "i = j" | "i < k" "i \<noteq> j" "same_name names key i" | "i < k" "i \<noteq> j" "\<not> same_name names key i" by linarith
    then show ?thesis
    proof cases
      case 1
      then show ?thesis using I i jk(1) by (simp add: rename_at_def)
    next
      case 2
      have "(if c = 1 then rename_at j 1 ns else ns) ! k = Some nm" using I k nm jk(1) by (simp add: rename_at_def)
      then have "?ns ! k = Some (msRenameLayer nm (c + 1))" using I k by (simp add: rename_at_def)
      then show ?thesis using 2 nm ne cnt sk by (simp add: unique_name_def)
    next
      case 3
      have nj: "ns ! j = unique_name names k j" using I 3 i by simp
      have "?ns ! j = (if c = 1 then map_option (\<lambda>s. msRenameLayer s 1) (ns ! j) else ns ! j)" using I 3 i by (simp add: rename_at_def)
      then show ?thesis using 3 nj sj ne cnt sk jk by (auto simp: unique_name_def)
    next
      case 4
      have "named_upto names k key \<noteq> 1"
        using 4 jk named_upto_two [of i j k names key] named_upto_two [of j i k names key] by (cases "i < j") auto
      moreover obtain s where "names ! i = Some s" "lower s = key" using 4(3) by (auto simp: same_name_def)
      ultimately show ?thesis using 4 I i ne cnt by (auto simp: rename_at_def unique_name_def)
    next
      case 5
      then show ?thesis using I i unique_name_other [OF 5(3) sk] by (auto simp: rename_at_def)
    qed
  qed
  then show ?thesis using I jk sk cnt j by (auto simp: unique_inv_def rename_at_def same_name_def intro: less_SucI)
qed

lemma unique_first:
  assumes inv: "unique_inv names k idx cnt ns" and k: "k < length names" and nm: "names ! k = Some nm" "lower nm = key"
    and j: "idx key = None"
  shows "unique_inv names (Suc k) (idx(key \<mapsto> k)) (cnt(key \<mapsto> 1)) ns"
proof -
  note I = inv [unfolded unique_inv_def]
  have sk: "same_name names key k" using nm by (simp add: same_name_def)
  have z: "named_upto names k key = 0" using I j by auto
  have no: "\<not> same_name names key i" if "i < k" for i using named_upto_pos [OF that, of names key] z by auto
  have "ns ! i = (if i < Suc k then unique_name names (Suc k) i else names ! i)" if i: "i < length names" for i
  proof (cases "i < k")
    case True
    then show ?thesis using I i unique_name_other [OF no [OF True] sk] by simp
  next
    case False
    then show ?thesis using I i nm sk z by (cases "i = k") (auto simp: unique_name_def)
  qed
  then show ?thesis using I sk z by (auto simp: unique_inv_def same_name_def intro: less_SucI)
qed

lemma unique_none:
  assumes inv: "unique_inv names k idx cnt ns" and nm: "names ! k = None"
  shows "unique_inv names (Suc k) idx cnt ns"
proof -
  note I = inv [unfolded unique_inv_def]
  have no: "named_upto names (Suc k) key = named_upto names k key" for key using nm by (simp add: same_name_def)
  have "unique_name names (Suc k) i = unique_name names k i" for i by (simp only: unique_name_def no)
  moreover have "unique_name names k k = None" using nm by (simp add: unique_name_def)
  ultimately show ?thesis using I nm by (simp only: unique_inv_def no) (auto simp: less_Suc_eq)
qed

lemma unique_loop_eq:
  "unique_inv names k idx cnt ns \<Longrightarrow> k \<le> length names \<Longrightarrow>
   unique_loop [k..<length names] idx cnt ns = map (unique_name names (length names)) [0..<length names]"
proof (induction "length names - k" arbitrary: k idx cnt ns)
  case 0
  then show ?case by (auto simp: unique_inv_def intro!: nth_equalityI)
next
  case (Suc d)
  then have k: "k < length names" by simp
  have l: "[k..<length names] = k # [Suc k..<length names]" using k by (simp add: upt_rec)
  have nk: "ns ! k = names ! k" using Suc.prems(1) k by (simp add: unique_inv_def)
  have d: "d = length names - Suc k" using Suc.hyps(2) by simp
  show ?case
  proof (cases "names ! k")
    case None
    then show ?thesis using Suc.hyps(1) [OF d unique_none [OF Suc.prems(1) None]] k by (simp add: l nk)
  next
    case (Some nm)
    show ?thesis
    proof (cases "idx (lower nm)")
      case None
      then show ?thesis using Suc.hyps(1) [OF d unique_first [OF Suc.prems(1) k Some refl None]] k Some by (simp add: l nk)
    next
      case (Some j)
      have "named_upto names k (lower nm) \<noteq> 0" using Suc.prems(1) Some unfolding unique_inv_def by (metis option.distinct(1))
      then obtain c where c: "cnt (lower nm) = Some c" using Suc.prems(1) by (simp add: unique_inv_def)
      show ?thesis using Suc.hyps(1) [OF d unique_step [OF Suc.prems(1) k \<open>names ! k = Some nm\<close> refl Some c]] k \<open>names ! k = Some nm\<close> Some c
        by (simp add: l nk)
    qed
  qed
qed

lemma make_unique_eq: "msOWSMakeAllLayersUnique names = map (unique_name names (length names)) [0..<length names]"
  unfolding msOWSMakeAllLayersUnique_def by (rule unique_loop_eq) (simp_all add: unique_inv_def)

lemma digits_value_zeros: "digits_value (replicate k (CHR ''0'') @ s) 0 = digits_value s 0"
  by (induction k) auto

lemma two_digits_inj: "two_digits m = two_digits n \<Longrightarrow> m = n"
proof -
  have "digits_value (two_digits x) 0 = int x" for x
    using digits_value_digits_of [of x "[]" 0] by (simp add: two_digits_def digits_value_zeros)
  then show "two_digits m = two_digits n \<Longrightarrow> m = n" by (metis of_nat_eq_iff)
qed

lemma lower_digits: "(\<And>c. c \<in> set s \<Longrightarrow> digit_char c) \<Longrightarrow> lower s = s"
proof (induction s)
  case (Cons c s)
  have "digit_char c" using Cons.prems by simp
  then have "tolower_char c = c" by (simp add: tolower_char_def digit_char_def Let_def)
  then show ?case using Cons by simp
qed simp

lemma two_digits_digits: "c \<in> set (two_digits n) \<Longrightarrow> digit_char c"
  using digits_of_digits [of c n] by (auto simp: two_digits_def digit_char_def)

lemma lower_rename: "lower (msRenameLayer s n) = lower s @ ''_'' @ two_digits n"
proof -
  have "lower (two_digits n) = two_digits n" by (rule lower_digits) (rule two_digits_digits)
  moreover have "lower (s @ ''_'' @ t) = lower s @ ''_'' @ lower t" for t by (simp add: lower_def tolower_char_def)
  ultimately show ?thesis by (simp add: msRenameLayer_def)
qed

lemma last_separator_unique:
  assumes "a @ c # d = b @ c # e" and "c \<notin> set d" and "c \<notin> set e"
  shows "a = b \<and> d = e"
proof -
  have r: "takeWhile (\<lambda>x. x \<noteq> c) (rev (x @ c # y)) = rev y" if "c \<notin> set y" for x y
  proof -
    have "takeWhile (\<lambda>x. x \<noteq> c) (rev y @ c # rev x) = rev y" using that by (subst takeWhile_append2) auto
    then show ?thesis by simp
  qed
  have "rev d = rev e" using r [OF assms(2), of a] r [OF assms(3), of b] assms(1) by simp
  then show ?thesis using assms(1) by simp
qed

lemma rename_clash: "lower (msRenameLayer s m) = lower (msRenameLayer t n) \<Longrightarrow> lower s = lower t \<and> m = n"
proof -
  have "CHR ''_'' \<notin> set (two_digits k)" for k using two_digits_digits [of "CHR ''_''" k] by (auto simp: digit_char_def)
  moreover assume "lower (msRenameLayer s m) = lower (msRenameLayer t n)"
  ultimately show ?thesis using last_separator_unique [of "lower s" "CHR ''_''" "two_digits m" "lower t" "two_digits n"] two_digits_inj
    by (auto simp: lower_rename)
qed

lemma unique_names_distinct:
  assumes free: "\<And>i j s t m. i < length names \<Longrightarrow> j < length names \<Longrightarrow> names ! i = Some s \<Longrightarrow> names ! j = Some t \<Longrightarrow>
      lower t \<noteq> lower (msRenameLayer s m)"
    and i: "i < j" "j < length names" and n: "unique_name names (length names) i = Some a" "unique_name names (length names) j = Some b"
  shows "lower a \<noteq> lower b"
proof
  assume eq: "lower a = lower b"
  obtain s t where st: "names ! i = Some s" "names ! j = Some t" using n by (auto simp: unique_name_def split: option.splits)
  let ?c = "\<lambda>k x. named_upto names k (lower x)" and ?n = "length names"
  have a: "a = (if ?c ?n s = 1 then s else msRenameLayer s (?c (Suc i) s))" and b: "b = (if ?c ?n t = 1 then t else msRenameLayer t (?c (Suc j) t))"
    using n st by (auto simp: unique_name_def split: if_splits)
  have same: "same_name names (lower s) i" "same_name names (lower t) j" using st by (auto simp: same_name_def)
  have twice: "2 \<le> ?c ?n s" if "lower s = lower t" using named_upto_two [OF i same(1)] same(2) that by simp
  consider "?c ?n s = 1" "?c ?n t = 1" | "?c ?n s = 1" "?c ?n t \<noteq> 1" | "?c ?n s \<noteq> 1" "?c ?n t = 1" | "?c ?n s \<noteq> 1" "?c ?n t \<noteq> 1" by blast
  then show False
  proof cases
    case 1
    then show False using eq a b twice by simp
  next
    case 2
    then show False using eq a b free [of j i t s "?c (Suc j) t"] i st by simp
  next
    case 3
    then show False using eq a b free [of i j s t "?c (Suc i) s"] i st by simp
  next
    case 4
    then have "lower (msRenameLayer s (?c (Suc i) s)) = lower (msRenameLayer t (?c (Suc j) t))" using eq a b by (metis (no_types))
    then have "lower s = lower t" "?c (Suc i) s = ?c (Suc j) t" using rename_clash by blast+
    moreover have "?c (Suc i) s \<le> ?c j s" using i(1) by (intro named_upto_mono) simp
    ultimately show False using same(2) by simp
  qed
qed

lemma parse_version:
  "a < 256 \<Longrightarrow> b < 256 \<Longrightarrow> c < 256 \<Longrightarrow>
   msOWSParseVersionString (Some (digits_of a @ ''.'' @ digits_of b @ ''.'' @ digits_of c)) = (int a * 65536 + int b * 256 + int c, [])"
  unfolding msOWSParseVersionString_def option.case msStringSplit_eq split_three by (simp add: atoi_digits Let_def)

section \<open>Properties\<close>

text \<open>Versions survive being printed and read: for every version number of three components,
  \<open>msOWSParseVersionString\<close> of what \<open>msOWSGetVersionString\<close> prints is the number again, without an error,
  and the text fits its buffer.\<close>

theorem version_roundtrip:
  assumes "0 \<le> n" and "n < 2 ^ 24"
  shows "msOWSParseVersionString (Some (msOWSGetVersionString n)) = (n, []) \<and> length (msOWSGetVersionString n) \<le> 11"
proof -
  let ?a = "nat (n div 65536)" and ?b = "nat (n div 256 mod 256)" and ?c = "nat (n mod 256)"
  have r: "?a < 256" "?b < 256" "?c < 256" using assms by simp_all
  have l: "length (digits_of ?a) \<le> 3" "length (digits_of ?b) \<le> 3" "length (digits_of ?c) \<le> 3"
    using r digits_of_short by simp_all
  have q: "n div 65536 = n div 256 div 256" by (simp add: zdiv_zmult2_eq [of 256 n 256, simplified])
  have "n = n div 256 * 256 + n mod 256" "n div 256 = n div 256 div 256 * 256 + n div 256 mod 256" by simp_all
  then have "n div 65536 * 65536 + n div 256 mod 256 * 256 + n mod 256 = n" unfolding q by linarith
  then have "int ?a * 65536 + int ?b * 256 + int ?c = n" using assms by (simp add: pos_imp_zdiv_nonneg_iff)
  then show ?thesis using parse_version [OF r] l unfolding version_text [OF assms] by simp
qed

theorem version_roundtrip_witness: "msOWSParseVersionString (Some (msOWSGetVersionString 66304)) = (66304, [])"
  using version_roundtrip [of 66304] by simp

text \<open>C26. Version negotiation: from a list that is not empty and in descending order,
  \<open>msOWSNegotiateVersion\<close> returns, for a request that is not 0, the highest supported version that is
  not above the requested one, and the lowest if all are above it. For the request 0 it returns the
  highest. A version that the client does not give is parsed as -1, not as 0, and so gets the lowest
  version if none of the supported ones is negative, although the comment in the function says that a
  version that is not set gets the highest.\<close>

theorem negotiate_best:
  assumes "vs \<noteq> []" and "sorted_wrt (>) vs"
  shows "msOWSNegotiateVersion r vs =
    (if r = 0 then Max (set vs) else if \<exists>v\<in>set vs. v \<le> r then Max {v \<in> set vs. v \<le> r} else Min (set vs))
    \<and> ((\<forall>v\<in>set vs. 0 \<le> v) \<longrightarrow> msOWSNegotiateVersion (fst (msOWSParseVersionString None)) vs = Min (set vs))"
proof -
  have "hd vs = Max (set vs)" using assms by (cases vs) (auto intro!: Max_eqI [symmetric] simp: less_imp_le)
  moreover have lo: "last vs = Min (set vs)"
  proof -
    obtain us u where u: "vs = us @ [u]" using assms(1) by (metis rev_exhaust)
    then show ?thesis using assms(2) by (auto intro!: Min_eqI [symmetric] simp: sorted_wrt_append less_imp_le)
  qed
  moreover have "(\<exists>v\<in>set vs. v \<le> r) \<longleftrightarrow> \<not> r < last vs"
    using lo assms(1) by (simp add: not_less Min_le_iff)
  moreover have "-1 < last vs" if "\<forall>v\<in>set vs. 0 \<le> v"
  proof -
    have "0 \<le> last vs" using that assms(1) by simp
    then show ?thesis by simp
  qed
  ultimately show ?thesis using find_first_le [OF assms(2), of r]
    by (simp add: msOWSNegotiateVersion_def msOWSParseVersionString_def)
qed

theorem negotiate_best_witness:
  "msOWSNegotiateVersion 0x010105 [0x020001, 0x010102, 0x010000] = Max {v \<in> {0x020001, 0x010102, 0x010000}. v \<le> 0x010105}
    \<and> msOWSNegotiateVersion (fst (msOWSParseVersionString None)) [0x020001, 0x010102, 0x010000] = 0x010000"
  using negotiate_best [where vs = "[0x020001, 0x010102, 0x010000]" and r = "0x010105"] by simp

text \<open>Service, version and request of a key-value request are the first parameters of these names, in
  any case, wherever they stand and whatever other parameters there are; and a request for a map
  or for feature info without a service is one for WMS.\<close>

theorem preparse_first:
  assumes "request_type req = MS_GET_REQUEST" and "ps = take (nat (NumParams req)) (zip (ParamNames req) (ParamValues req))"
    and "first_param (\<lambda>n. EQUAL n ''REQUEST'') ps = Some q"
  shows "\<exists>st r. msOWSPreParseRequest parse_xml req msOWSInitRequestObj = (st, r, [])
    \<and> ows_request r = Some q \<and> version r = first_param (\<lambda>n. EQUAL n ''VERSION'' \<or> EQUAL n ''WMTVER'') ps
    \<and> (case first_param (\<lambda>n. EQUAL n ''SERVICE'') ps of
         Some s \<Rightarrow> st = MS_SUCCESS \<and> service r = Some s
       | None \<Rightarrow> if EQUAL q ''GetMap'' \<or> EQUAL q ''GetFeatureInfo'' then st = MS_SUCCESS \<and> service r = Some ''WMS''
                 else st = MS_DONE \<and> service r = None)"
  using assms(1,3) unfolding msOWSPreParseRequest_def assms(2) [symmetric]
  by (auto simp: Let_def kvp_loop_first msOWSInitRequestObj_def or_first_def split: option.split)

theorem preparse_first_witness:
  "\<exists>r. msOWSPreParseRequest (\<lambda>_. None) (demo_request\<lparr>request_type := MS_GET_REQUEST, NumParams := 2, ParamNames := [''Width'', ''request''],
       ParamValues := [''10'', ''getmap'']\<rparr>) msOWSInitRequestObj = (MS_SUCCESS, r, []) \<and> service r = Some ''WMS''"
proof -
  let ?q = "demo_request\<lparr>request_type := MS_GET_REQUEST, NumParams := 2, ParamNames := [''Width'', ''request''], ParamValues := [''10'', ''getmap'']\<rparr>"
    and ?ps = "[(''Width'', ''10''), (''request'', ''getmap'')]"
  have f: "first_param (\<lambda>n. EQUAL n ''REQUEST'') ?ps = Some ''getmap''" "first_param (\<lambda>n. EQUAL n ''SERVICE'') ?ps = None" "EQUAL ''getmap'' ''GetMap''"
    by code_simp+
  have "request_type ?q = MS_GET_REQUEST" "?ps = take (nat (NumParams ?q)) (zip (ParamNames ?q) (ParamValues ?q))" by simp_all
  from preparse_first [OF this f(1), of "\<lambda>_. None"] show ?thesis using f(2,3) by auto
qed

text \<open>C25. Making layer names unique numbers exactly the names that occur more than once, in any case, by
  their rank among the layers of that name, and no two layers share a name afterwards, provided
  that no layer already has a name which is another layer's name with an underscore and a
  number behind it.\<close>

theorem layer_names_unique:
  assumes "\<And>i j s t m. i < length names \<Longrightarrow> j < length names \<Longrightarrow> names ! i = Some s \<Longrightarrow> names ! j = Some t \<Longrightarrow>
      lower t \<noteq> lower (msRenameLayer s m)"
  shows "msOWSMakeAllLayersUnique names = map (unique_name names (length names)) [0..<length names]
    \<and> (\<forall>i j a b. i < j \<and> j < length names \<and> msOWSMakeAllLayersUnique names ! i = Some a
          \<and> msOWSMakeAllLayersUnique names ! j = Some b \<longrightarrow> lower a \<noteq> lower b)"
proof (intro conjI allI impI)
  fix i j a b
  assume h: "i < j \<and> j < length names \<and> msOWSMakeAllLayersUnique names ! i = Some a \<and> msOWSMakeAllLayersUnique names ! j = Some b"
  then have "unique_name names (length names) i = Some a" "unique_name names (length names) j = Some b" by (auto simp: make_unique_eq)
  then show "lower a \<noteq> lower b"
    by (rule unique_names_distinct [where names = names and i = i and j = j, OF assms, rotated -2]) (use h in auto)
qed (rule make_unique_eq)

theorem layer_names_unique_witness:
  "msOWSMakeAllLayersUnique [Some ''roads'', None, Some ''Roads'', Some ''lakes'']
    = map (unique_name [Some ''roads'', None, Some ''Roads'', Some ''lakes''] 4) [0..<4]"
proof -
  let ?n = "[Some ''roads'', None, Some ''Roads'', Some ''lakes'']"
  have no: "CHR ''_'' \<notin> set (lower t)" if "j < length ?n" "?n ! j = Some t" for j t
  proof -
    have "\<forall>x\<in>set ?n. case x of None \<Rightarrow> True | Some t \<Rightarrow> CHR ''_'' \<notin> set (lower t)" by code_simp
    then show ?thesis using nth_mem [OF that(1)] that(2) by fastforce
  qed
  have "lower t \<noteq> lower (msRenameLayer s m)" if "j < length ?n" "?n ! j = Some t" for j s t m
  proof
    assume "lower t = lower (msRenameLayer s m)"
    then have "CHR ''_'' \<in> set (lower t)" by (simp add: lower_rename)
    then show False using no [OF that] by simp
  qed
  then show ?thesis using layer_names_unique [of ?n] by (simp add: numeral_eq_Suc)
qed

text \<open>A number behind a name can collide with a name that the map has already.\<close>

lemma renamed_collides:
  "msOWSMakeAllLayersUnique [Some ''a'', Some ''a'', Some ''a_01''] = [Some ''a_01'', Some ''a_02'', Some ''a_01'']"
  by code_simp

text \<open>A version that is not set is -1 here, and negotiates to the lowest version.\<close>

lemma version_not_set: "msOWSNegotiateVersion (fst (msOWSParseVersionString None)) [0x010102, 0x010000] = 0x010000"
  by code_simp

end
