(* ===== verification/ShpLayer.thy ===== *)
theory ShpLayer
  imports ShapeStore DbfTable OwsCommon
begin

text \<open>
  \<^verbatim>\<open>mapshape.c\<close>, the layer driver of shapefiles: \<open>msShapefileOpen\<close>, \<open>msShapefileCreate\<close> and
  \<open>msShapefileClose\<close>, which put the geometry (\<open>MapShape\<close>, \<open>ShapeGeom\<close>, \<open>ShapeWrite\<close>) and the
  attribute table (\<open>MapXbase\<close>) together, and the functions of the virtual table of a layer:
  open, which shapes, next shape, get shape, get items, get extent, close.

  A result \<open>None\<close> stands for an access through a null pointer or outside an array. Arrays that are
  freed are not tracked. What GDAL makes of a \<^verbatim>\<open>.prj\<close> file is an argument.
\<close>

section \<open>Shapefiles\<close>

text \<open>
  \<open>shapefileObj\<close>: the count, the bounds, the source, the status and the last shape are in the view
  that the search uses (\<open>openShapefile\<close>).
\<close>

record 'f shapefile =
  view :: openShapefile
  shp_kind :: int
  hSHP :: "'f SHPInfo"
  hDBF :: "'f DBFInfo option"
  isopen :: bool

abbreviation (input) MS_NULLPARENTERR :: int where "MS_NULLPARENTERR \<equiv> 38"

definition close_dbf :: "'f vsi_rw \<Rightarrow> ('f, 'fs) vsi_disk \<Rightarrow> (nat \<Rightarrow> byte) \<Rightarrow> 'fs \<Rightarrow> 'f DBFInfo \<Rightarrow> 'fs" where
  "close_dbf ops dsk junk fs d = VSIFCloseL dsk fs (fst (msDBFClose ops junk d))"

text \<open>\<open>msShapefileOpenHandle\<close> with both handles; on a failure they are closed.\<close>

definition open_handle ::
  "'f vsi_rw \<Rightarrow> ('f, 'fs) vsi_disk \<Rightarrow> (nat \<Rightarrow> byte) \<Rightarrow> bool \<Rightarrow> 'fs \<Rightarrow> string \<Rightarrow> 'f SHPInfo \<Rightarrow> 'f DBFInfo
   \<Rightarrow> int \<times> 'f shapefile option \<times> 'fs \<times> report list" where
  "open_handle ops dsk junk bBigEndian fs filename h d =
     (case msShapefileOpenHandle ops bBigEndian filename h of
        (rc, None, es) \<Rightarrow> (rc, None, msSHPClose ops dsk bBigEndian h (close_dbf ops dsk junk fs d), es)
      | (rc, Some v, es) \<Rightarrow>
          (rc, Some \<lparr>view = v, shp_kind = snd (msSHPGetInfo h), hSHP = h, hDBF = Some d, isopen = True\<rparr>, fs, es))"

text \<open>Three open files; the functions that fail close theirs.\<close>

definition log_if :: "bool \<Rightarrow> report \<Rightarrow> report list" where
  "log_if log_failures r = (if log_failures then [r] else [])"

definition msShapefileOpenVirtualFile ::
  "'f vsi_rw \<Rightarrow> ('f, 'fs) vsi_disk \<Rightarrow> (nat \<Rightarrow> int) \<Rightarrow> (nat \<Rightarrow> byte) \<Rightarrow> bool \<Rightarrow> 'fs \<Rightarrow> string \<Rightarrow> 'f \<Rightarrow> 'f \<Rightarrow> 'f \<Rightarrow> bool
   \<Rightarrow> int \<times> 'f shapefile option \<times> 'fs \<times> report list" where
  "msShapefileOpenVirtualFile ops dsk junk junkb bBigEndian fs filename shp shx dbf log_failures =
     (let failed = log_if log_failures (Report MS_IOERR ''(%s)'' ''msShapefileOpen()'') in
      case msSHPOpenVirtualFile ops junk bBigEndian shp shx of
        (None, es) \<Rightarrow> (-1, None, VSIFCloseL dsk (VSIFCloseL dsk (VSIFCloseL dsk fs shp) shx) dbf, es @ failed)
      | (Some h, es) \<Rightarrow>
          (case msDBFOpenVirtualFile ops junkb dbf of
             None \<Rightarrow> (-1, None, msSHPClose ops dsk bBigEndian h (VSIFCloseL dsk fs dbf), es @ failed)
           | Some d \<Rightarrow>
               (case open_handle ops dsk junkb bBigEndian fs filename h d of
                  (rc, s, fs', es') \<Rightarrow> (rc, s, fs', es @ es'))))"

text \<open>
  Opening by name. The attribute table has the name of the shapefile with another extension; its
  encoding is read from a file beside it. Opening a file for reading leaves the disk as it is.
\<close>

definition read_cpg :: "'f vsi_rw \<Rightarrow> ('f, 'fs) vsi_disk \<Rightarrow> 'fs \<Rightarrow> string \<Rightarrow> byte list option" where
  "read_cpg ops dsk fs n = map_option (\<lambda>f. fst (snd (VSIFReadL ops f 1 99))) (fst (VSIFOpenL dsk fs n ''rb''))"

definition msShapefileOpen ::
  "'f vsi_rw \<Rightarrow> ('f, 'fs) vsi_disk \<Rightarrow> (nat \<Rightarrow> int) \<Rightarrow> (nat \<Rightarrow> byte) \<Rightarrow> bool \<Rightarrow> 'fs \<Rightarrow> string option \<Rightarrow> string option \<Rightarrow> bool
   \<Rightarrow> int \<times> 'f shapefile option \<times> 'fs \<times> report list" where
  "msShapefileOpen ops dsk junk junkb bBigEndian fs mode filename log_failures =
     (case filename of
        None \<Rightarrow> (-1, None, fs, log_if log_failures (Report MS_IOERR ''No (NULL) filename provided.'' ''msShapefileOpen()''))
      | Some name \<Rightarrow>
          (let failed = log_if log_failures (Report MS_IOERR ''(%s)'' ''msShapefileOpen()'') in
           case msSHPOpen ops dsk junk bBigEndian fs name (case mode of None \<Rightarrow> ''rb'' | Some m \<Rightarrow> m) of
             (None, fs1, es) \<Rightarrow> (-1, None, fs1, es @ failed)
           | (Some h, fs1, es) \<Rightarrow>
               (case msDBFOpen ops junkb (\<lambda>n m. fst (VSIFOpenL dsk fs1 n m)) (read_cpg ops dsk fs1)
                       (base_name name @ ''.dbf'') ''rb'' of
                  None \<Rightarrow> (-1, None, msSHPClose ops dsk bBigEndian h fs1, es @ failed)
                | Some d \<Rightarrow>
                    (case open_handle ops dsk junkb bBigEndian fs1 name h d of
                       (rc, s, fs2, es') \<Rightarrow> (rc, s, fs2, es @ es')))))"

text \<open>A new shapefile has no attribute table; its source is not set, \<open>src0\<close> is what the array held.\<close>

definition msShapefileCreate ::
  "'f vsi_rw \<Rightarrow> ('f, 'fs) vsi_disk \<Rightarrow> (nat \<Rightarrow> int) \<Rightarrow> bool \<Rightarrow> 'fs \<Rightarrow> string \<Rightarrow> string \<Rightarrow> int
   \<Rightarrow> int \<times> 'f shapefile option \<times> 'fs \<times> report list" where
  "msShapefileCreate ops dsk junk bBigEndian fs src0 filename ty =
     (if ty \<notin> {1, 8, 3, 5, 21, 28, 23, 25, 11, 18, 13, 15} then
        (-1, None, fs, [Report MS_SHPERR ''Invalid shape type.'' ''msNewSHPFile()''])
      else
        (case msSHPCreate ops dsk junk bBigEndian fs filename ty of
           (None, fs1, es) \<Rightarrow> (-1, None, fs1, es @ [Report MS_IOERR ''(%s)'' ''msNewSHPFile()''])
         | (Some h, fs1, es) \<Rightarrow>
             (0, Some \<lparr>view = open_view ops bBigEndian h src0, shp_kind = snd (msSHPGetInfo h), hSHP = h,
                       hDBF = None, isopen = True\<rparr>, fs1, es)))"

definition msShapefileClose ::
  "'f vsi_rw \<Rightarrow> ('f, 'fs) vsi_disk \<Rightarrow> (nat \<Rightarrow> byte) \<Rightarrow> bool \<Rightarrow> 'fs \<Rightarrow> 'f shapefile option \<Rightarrow> 'f shapefile option \<times> 'fs" where
  "msShapefileClose ops dsk junk bBigEndian fs shpfile =
     (case shpfile of
        None \<Rightarrow> (None, fs)
      | Some s \<Rightarrow>
          if \<not> isopen s then (Some s, fs)
          else
            (let fs1 = msSHPClose ops dsk bBigEndian (hSHP s) fs;
                 fs2 = (case hDBF s of None \<Rightarrow> fs1 | Some d \<Rightarrow> close_dbf ops dsk junk fs1 d) in
             (Some (s\<lparr>isopen := False\<rparr>), fs2)))"


section \<open>The layer\<close>

text \<open>
  What the driver uses of a layer and of its map; the paths are those of the map file and of the
  shapes. \<open>numitems\<close> is the length of \<open>items\<close>.
\<close>

record 'f shpLayer =
  layerinfo :: "'f shapefile option"
  iteminfo :: "int list option"
  items :: "string list"
  encoding :: "string option"
  layer_data :: "string option"
  gml_metadata :: hashTableObj
  map_paths :: "(string option \<times> string option) option"
  projection_args :: "string list"

record featureObj = shapeObj +
  shape_values :: "string list option"

definition with_values :: "shapeObj \<Rightarrow> string list option \<Rightarrow> featureObj" where
  "with_values s vs = shapeObj.extend s \<lparr>shape_values = vs\<rparr>"

definition not_opened :: "string \<Rightarrow> report list" where
  "not_opened routine = [Report MS_SHPERR ''Shapefile layer has not been opened.'' routine]"

definition msSHPLayerFreeItemInfo :: "'f shpLayer \<Rightarrow> 'f shpLayer" where
  "msSHPLayerFreeItemInfo layer = layer\<lparr>iteminfo := None\<rparr>"

definition msSHPLayerInitItemInfo :: "'f shpLayer \<Rightarrow> (ms_return \<times> 'f shpLayer \<times> report list) option" where
  "msSHPLayerInitItemInfo layer =
     (case layerinfo layer of
        None \<Rightarrow> Some (MS_FAILURE, layer, not_opened ''msSHPLayerInitItemInfo()'')
      | Some shpfile \<Rightarrow>
          (case hDBF shpfile of
             None \<Rightarrow> None
           | Some d \<Rightarrow>
               (case msDBFGetItemIndexes d (map Some (items layer)) of
                  (is, es) \<Rightarrow>
                    Some (if is = None then MS_FAILURE else MS_SUCCESS, (msSHPLayerFreeItemInfo layer)\<lparr>iteminfo := is\<rparr>, es))))"

text \<open>
  Opening. The path is tried below the shape path and then below the map file. \<open>gdal_prj\<close> stands for
  GDAL: the name with another extension, and the arguments of the projection that the text of a
  \<^verbatim>\<open>.prj\<close> file describes.
\<close>

record gdal_prj =
  CPLResetExtension :: "string \<Rightarrow> string \<Rightarrow> string"
  projection_of_prj :: "byte list \<Rightarrow> string list option"

definition auto_projection ::
  "'f vsi_rw \<Rightarrow> ('f, 'fs) vsi_disk \<Rightarrow> gdal_prj \<Rightarrow> 'fs \<Rightarrow> string \<Rightarrow> string list \<Rightarrow> string list" where
  "auto_projection ops dsk gdal fs szPath args =
     (case args of
        [] \<Rightarrow> args
      | a # _ \<Rightarrow>
          if \<not> EQUAL a ''auto'' then args
          else
            (case fst (VSIFOpenL dsk fs (CPLResetExtension gdal szPath ''prj'') ''rb'') of
               None \<Rightarrow> args
             | Some f \<Rightarrow>
                 (case projection_of_prj gdal (fst (snd (VSIFReadL ops f 1 2047))) of
                    None \<Rightarrow> args
                  | Some args' \<Rightarrow> args')))"

text \<open>The shapefile of a layer, under the first of the two paths that can be opened, and that path.\<close>

definition open_either ::
  "'f vsi_rw \<Rightarrow> ('f, 'fs) vsi_disk \<Rightarrow> (nat \<Rightarrow> int) \<Rightarrow> (nat \<Rightarrow> byte) \<Rightarrow> bool \<Rightarrow> 'fs \<Rightarrow> string option \<Rightarrow> string option \<Rightarrow> string option
   \<Rightarrow> ('f shapefile \<times> string) option \<times> 'fs \<times> report list" where
  "open_either ops dsk junk junkb bBigEndian fs mappath shapepath dat =
     (case msBuildPath3 mappath shapepath dat of (p0, path) \<Rightarrow>
        case msShapefileOpen ops dsk junk junkb bBigEndian fs (Some ''rb'') path True of
          (_, Some shp, fs1, es) \<Rightarrow> (Some (shp, the path), fs1, p0 @ es)
        | (_, None, fs1, es) \<Rightarrow>
            (case msBuildPath mappath dat of (p1, path1) \<Rightarrow>
               case msShapefileOpen ops dsk junk junkb bBigEndian fs1 (Some ''rb'') path1 True of
                 (_, s, fs2, es') \<Rightarrow> (map_option (\<lambda>shp. (shp, the path1)) s, fs2, p0 @ es @ p1 @ es')))"

definition msSHPLayerOpen ::
  "'f vsi_rw \<Rightarrow> ('f, 'fs) vsi_disk \<Rightarrow> gdal_prj \<Rightarrow> (nat \<Rightarrow> int) \<Rightarrow> (nat \<Rightarrow> byte) \<Rightarrow> bool \<Rightarrow> 'fs \<Rightarrow> 'f shpLayer
   \<Rightarrow> ms_return \<times> 'f shpLayer \<times> 'fs \<times> report list" where
  "msSHPLayerOpen ops dsk gdal junk junkb bBigEndian fs layer =
     (case layerinfo layer of
        Some _ \<Rightarrow> (MS_SUCCESS, layer, fs, [])
      | None \<Rightarrow>
          (case map_paths layer of
             None \<Rightarrow> (MS_FAILURE, layer, fs,
                      [Report MS_NULLPARENTERR ''The %s parent object is null'' ''msCheckParentPointer()''])
           | Some (mappath, shapepath) \<Rightarrow>
               (case open_either ops dsk junk junkb bBigEndian fs mappath shapepath (layer_data layer) of
                  (None, fs1, es) \<Rightarrow> (MS_FAILURE, layer, fs1, es)
                | (Some (shp, szPath), fs1, es) \<Rightarrow>
                    (let enc = (case encoding layer of
                          Some e \<Rightarrow> Some e
                        | None \<Rightarrow> (case hDBF shp of Some d \<Rightarrow> (case pszEncoding d of Some e \<Rightarrow> e | None \<Rightarrow> None) | None \<Rightarrow> None)) in
                     (MS_SUCCESS,
                      layer\<lparr>layerinfo := Some shp, encoding := enc,
                            projection_args := auto_projection ops dsk gdal fs1 szPath (projection_args layer)\<rparr>,
                      fs1, es)))))"

definition msSHPLayerIsOpen :: "'f shpLayer \<Rightarrow> bool" where
  "msSHPLayerIsOpen layer \<longleftrightarrow> layerinfo layer \<noteq> None"

definition msSHPLayerWhichShapes ::
  "nat \<Rightarrow> bool \<Rightarrow> fsys \<Rightarrow> 'f shpLayer \<Rightarrow> rectObj \<Rightarrow> bool \<Rightarrow> (ms_return \<times> 'f shpLayer \<times> report list) option" where
  "msSHPLayerWhichShapes fuel bBigEndian fs layer rect debug =
     (case layerinfo layer of
        None \<Rightarrow> Some (MS_FAILURE, layer, not_opened ''msSHPLayerWhichShapes()'')
      | Some shpfile \<Rightarrow>
          map_option (\<lambda>(rc, v, es). (rc, layer\<lparr>layerinfo := Some (shpfile\<lparr>view := v\<rparr>)\<rparr>, es))
            (msShapefileWhichShapes fuel bBigEndian fs (view shpfile) rect debug))"


text \<open>
  The attributes of a record: no values if the layer has no items, the values of the fields that
  \<open>iteminfo\<close> lists otherwise.
\<close>

definition item_values ::
  "'f vsi_rw \<Rightarrow> 'f shpLayer \<Rightarrow> 'f DBFInfo option \<Rightarrow> int \<Rightarrow> (string list option \<times> 'f DBFInfo option \<times> report list) option" where
  "item_values ops layer dbf i =
     (if items layer = [] then Some (None, dbf, [])
      else
        (case (dbf, iteminfo layer) of
           (Some d, Some is) \<Rightarrow>
             if length is < length (items layer) then None
             else map_option (\<lambda>(vs, d', es). (vs, Some d', es)) (msDBFGetValueList ops d i (take (length (items layer)) is))
         | _ \<Rightarrow> None))"

definition seek_shape :: "int \<Rightarrow> 'f shapefile \<Rightarrow> 'f shapefile" where
  "seek_shape i shp = shp\<lparr>view := (view shp)\<lparr>lastshape := i\<rparr>\<rparr>"

definition next_marked :: "openShapefile \<Rightarrow> ms_bitarray \<Rightarrow> int" where
  "next_marked v st = msGetNextBit st (nat (lastshape v + 1)) (nat (shp_numshapes v))"

lemma msGetNextBit_range: "msGetNextBit a i n = -1 \<or> (int i \<le> msGetNextBit a i n \<and> msGetNextBit a i n < int n)"
proof (induction a i n rule: msGetNextBit.induct)
  case (1 a i n)
  then show ?case by (subst (1 2 3) msGetNextBit.simps) (auto simp: Let_def)
qed

text \<open>The distance of a scan from its end.\<close>

definition scan_left :: "openShapefile \<Rightarrow> nat" where
  "scan_left v = nat (shp_numshapes v) - nat (lastshape v + 1)"

lemma scan_left_next:
  assumes "next_marked v st = i" and "i \<noteq> -1"
  shows "scan_left (v\<lparr>lastshape := i\<rparr>) < scan_left v"
proof -
  have "int (nat (lastshape v + 1)) \<le> i" "i < int (nat (shp_numshapes v))"
    using msGetNextBit_range [of st "nat (lastshape v + 1)" "nat (shp_numshapes v)"] assms
    by (auto simp: next_marked_def)
  then have "nat (shp_numshapes v) - nat (i + 1) < nat (shp_numshapes v) - nat (lastshape v + 1)" by linarith
  then show ?thesis by (simp add: scan_left_def)
qed

function msSHPLayerNextShape ::
  "'f vsi_rw \<Rightarrow> bool \<Rightarrow> 'f shpLayer \<Rightarrow> (ms_return \<times> featureObj option \<times> 'f shpLayer \<times> report list) option" where
  "msSHPLayerNextShape ops bBigEndian layer =
     (case layerinfo layer of
        None \<Rightarrow> Some (MS_FAILURE, None, layer, not_opened ''msSHPLayerNextShape()'')
      | Some shpfile \<Rightarrow>
          (case shp_status (view shpfile) of
             None \<Rightarrow> Some (MS_DONE, None, layer, [])
           | Some st \<Rightarrow>
               (let i = next_marked (view shpfile) st; shp1 = seek_shape i shpfile in
                if i = -1 then Some (MS_DONE, None, layer\<lparr>layerinfo := Some shp1\<rparr>, [])
                else
                  (case msSHPReadShape ops bBigEndian (hSHP shp1) i of
                     None \<Rightarrow> None
                   | Some (shape, h, es) \<Rightarrow>
                       if shape_type shape = MS_SHAPE_NULL then
                         map_option (\<lambda>(rc, f, l, es'). (rc, f, l, es @ es'))
                           (msSHPLayerNextShape ops bBigEndian (layer\<lparr>layerinfo := Some (shp1\<lparr>hSHP := h\<rparr>)\<rparr>))
                       else
                         (case item_values ops layer (hDBF shp1) i of
                            None \<Rightarrow> None
                          | Some (vs, d, es') \<Rightarrow>
                              Some (MS_SUCCESS, Some (with_values shape vs),
                                    layer\<lparr>layerinfo := Some (shp1\<lparr>hSHP := h, hDBF := d\<rparr>)\<rparr>, es @ es'))))))"
  by pat_completeness auto

termination
  by (relation "measure (\<lambda>(ops, be, layer). case layerinfo layer of None \<Rightarrow> 0 | Some s \<Rightarrow> scan_left (view s))")
    (auto simp: seek_shape_def intro: scan_left_next)

declare msSHPLayerNextShape.simps [simp del]

definition msSHPLayerGetShape ::
  "'f vsi_rw \<Rightarrow> bool \<Rightarrow> 'f shpLayer \<Rightarrow> int \<Rightarrow> (ms_return \<times> featureObj option \<times> 'f shpLayer \<times> report list) option" where
  "msSHPLayerGetShape ops bBigEndian layer shapeindex =
     (case layerinfo layer of
        None \<Rightarrow> Some (MS_FAILURE, None, layer, not_opened ''msSHPLayerGetShape()'')
      | Some shpfile \<Rightarrow>
          if shapeindex < 0 \<or> shp_numshapes (view shpfile) \<le> shapeindex then
            Some (MS_FAILURE, None, layer, [Report MS_MISCERR ''Invalid feature id.'' ''msSHPLayerGetShape()''])
          else
            (case msSHPReadShape ops bBigEndian (hSHP shpfile) shapeindex of
               None \<Rightarrow> None
             | Some (shape, h, es) \<Rightarrow>
                 (let shp1 = shpfile\<lparr>hSHP := h\<rparr> in
                  if items layer = [] \<or> iteminfo layer = None then
                    Some (MS_SUCCESS, Some (with_values shape None),
                          layer\<lparr>layerinfo := Some (seek_shape shapeindex shp1)\<rparr>, es)
                  else
                    (case item_values ops layer (hDBF shp1) shapeindex of
                       None \<Rightarrow> None
                     | Some (None, d, es') \<Rightarrow>
                         Some (MS_FAILURE, Some (with_values shape None), layer\<lparr>layerinfo := Some (shp1\<lparr>hDBF := d\<rparr>)\<rparr>, es @ es')
                     | Some (Some vs, d, es') \<Rightarrow>
                         Some (MS_SUCCESS, Some (with_values shape (Some vs)),
                               layer\<lparr>layerinfo := Some (seek_shape shapeindex (shp1\<lparr>hDBF := d\<rparr>))\<rparr>, es @ es')))))"

definition msSHPLayerClose ::
  "'f vsi_rw \<Rightarrow> ('f, 'fs) vsi_disk \<Rightarrow> (nat \<Rightarrow> byte) \<Rightarrow> bool \<Rightarrow> 'fs \<Rightarrow> 'f shpLayer \<Rightarrow> ms_return \<times> 'f shpLayer \<times> 'fs" where
  "msSHPLayerClose ops dsk junkb bBigEndian fs layer =
     (case layerinfo layer of
        None \<Rightarrow> (MS_SUCCESS, layer, fs)
      | Some s \<Rightarrow> (MS_SUCCESS, layer\<lparr>layerinfo := None\<rparr>, snd (msShapefileClose ops dsk junkb bBigEndian fs (Some s))))"

text \<open>The descriptions of the fields as metadata of the layer.\<close>

definition pass_field :: "'f DBFInfo \<Rightarrow> nat \<Rightarrow> hashTableObj \<Rightarrow> hashTableObj" where
  "pass_field d i metadata =
     (case msDBFGetFieldInfo d (int i) of
        (eType, item, nWidth, nPrecision) \<Rightarrow>
          msUpdateGMLFieldMetadata metadata item
            (case eType of FTInteger \<Rightarrow> ''Integer'' | FTDouble \<Rightarrow> ''Real'' | _ \<Rightarrow> ''Character'')
            (print_int nWidth) (case eType of FTDouble \<Rightarrow> print_int nPrecision | _ \<Rightarrow> []) 0)"

definition msSHPPassThroughFieldDefinitions :: "'f DBFInfo \<Rightarrow> hashTableObj \<Rightarrow> hashTableObj" where
  "msSHPPassThroughFieldDefinitions d metadata = fold (pass_field d) [0..<nat (msDBFGetFieldCount d)] metadata"

definition msSHPLayerGetItems :: "'f shpLayer \<Rightarrow> (ms_return \<times> 'f shpLayer \<times> report list) option" where
  "msSHPLayerGetItems layer =
     (case layerinfo layer of
        None \<Rightarrow> Some (MS_FAILURE, layer, not_opened ''msSHPLayerGetItems()'')
      | Some shpfile \<Rightarrow>
          (case hDBF shpfile of
             None \<Rightarrow> None
           | Some d \<Rightarrow>
               (case msDBFGetItems d of
                  (None, es) \<Rightarrow> Some (MS_SUCCESS, layer\<lparr>items := []\<rparr>, es)
                | (Some names, es) \<Rightarrow>
                    (let layer1 = layer\<lparr>items := names\<rparr>;
                         (types, es1) = msOWSLookupMetadata (gml_metadata layer) (Some ''G'') ''types'';
                         layer2 = (if types \<noteq> None \<and> strcasecmp (the types) ''auto'' = 0
                                   then layer1\<lparr>gml_metadata := msSHPPassThroughFieldDefinitions d (gml_metadata layer)\<rparr>
                                   else layer1) in
                     map_option (\<lambda>(rc, l, es2). (rc, l, es @ es1 @ es2)) (msSHPLayerInitItemInfo layer2)))))"

text \<open>The extent of a layer that is not open is read through a null pointer.\<close>

definition msSHPLayerGetExtent :: "'f shpLayer \<Rightarrow> rectObj option" where
  "msSHPLayerGetExtent layer = map_option (\<lambda>s. shp_bounds (view s)) (layerinfo layer)"

end
