(* ===== verification/ShpScan.thy ===== *)
theory ShpScan
  imports ShpLayer
begin

text \<open>
  Reading a shapefile layer to its end. The locale \<open>cursor\<close> is the contract of a \<open>next\<close> operation
  as the drawing and query loops use it: while it succeeds, the place of the cursor grows below a
  bound. The loop over it is analysed once; \<open>exact_cursor\<close> adds what each step returns. The
  driver of shapefiles is shown to be a cursor whatever the files contain, and an exact one on
  files that hold shapes and a table.
\<close>

section \<open>Cursors\<close>

text \<open>\<open>while ((status = next(&shape)) == MS_SUCCESS)\<close>, with the shapes that were read; \<open>None\<close> if \<open>n\<close>
  calls are not enough.\<close>

fun read_on :: "('s \<Rightarrow> (ms_return \<times> 'a option \<times> 's \<times> report list) option) \<Rightarrow> nat \<Rightarrow> 's \<Rightarrow> (ms_return \<times> 'a list \<times> 's) option" where
  "read_on nxt 0 s = None"
| "read_on nxt (Suc n) s =
     (case nxt s of
        Some (MS_SUCCESS, Some a, s', _) \<Rightarrow> map_option (\<lambda>(rc, xs, t). (rc, a # xs, t)) (read_on nxt n s')
      | Some (rc, None, s', _) \<Rightarrow> Some (rc, [], s')
      | _ \<Rightarrow> None)"

locale cursor =
  fixes nxt :: "'s \<Rightarrow> (ms_return \<times> 'a option \<times> 's \<times> report list) option"
    and inv :: "'s \<Rightarrow> bool" and place :: "'s \<Rightarrow> int" and key :: "'a \<Rightarrow> int" and good :: "'a \<Rightarrow> bool" and bound :: int
  assumes step: "inv s \<Longrightarrow>
      (\<exists>a s' es. nxt s = Some (MS_SUCCESS, Some a, s', es) \<and> inv s' \<and> place s < key a \<and> key a < bound
         \<and> place s' = key a \<and> good a)
      \<or> (\<exists>s' es. nxt s = Some (MS_DONE, None, s', es) \<and> inv s')"
begin

lemma read_to_end:
  "inv s \<Longrightarrow> nat (bound - place s) \<le> n \<Longrightarrow> 0 < n \<Longrightarrow>
   \<exists>xs s'. read_on nxt n s = Some (MS_DONE, xs, s') \<and> inv s' \<and> sorted_wrt (<) (map key xs)
     \<and> (\<forall>x\<in>set xs. place s < key x \<and> key x < bound \<and> good x)"
proof (induction n arbitrary: s)
  case (Suc n)
  from step [OF Suc.prems(1)] show ?case
  proof (elim disjE exE conjE)
    fix a s' es
    assume a: "nxt s = Some (MS_SUCCESS, Some a, s', es)" "inv s'" "place s < key a" "key a < bound" "place s' = key a" "good a"
    have "nat (bound - place s') \<le> n" "0 < n" using a Suc.prems(2) by linarith+
    then obtain xs t where "read_on nxt n s' = Some (MS_DONE, xs, t)" "inv t" "sorted_wrt (<) (map key xs)"
      "\<forall>x\<in>set xs. place s' < key x \<and> key x < bound \<and> good x" using Suc.IH [OF a(2)] by blast
    then show ?thesis using a by (auto intro!: exI [of _ "a # xs"])
  qed auto
qed simp

end

lemma first_from_filter:
  assumes "first_from P i n (int j)"
  shows "filter P [i..<n] = j # filter P [Suc j..<n]"
proof -
  have j: "i \<le> j" "j < n" "P j" "\<forall>k. i \<le> k \<and> k < j \<longrightarrow> \<not> P k" using assms by (auto simp: first_from_def)
  have "[i..<n] = [i..<j] @ j # [Suc j..<n]" using j(1,2) upt_add_eq_append [of i j "n - j"] by (simp add: upt_conv_Cons)
  moreover have "filter P [i..<j] = []" using j(4) by (auto simp: filter_empty_conv)
  ultimately show ?thesis using j(3) by simp
qed

text \<open>A cursor over the marked places of a range, with the value that belongs to each place.\<close>

locale exact_cursor = cursor +
  fixes mark :: "nat \<Rightarrow> bool" and feature :: "nat \<Rightarrow> 'b"
  assumes exact: "inv s \<Longrightarrow>
      (\<exists>i s' es. first_from mark (nat (place s + 1)) (nat bound) (int i) \<and> key (feature i) = int i
         \<and> nxt s = Some (MS_SUCCESS, Some (feature i), s', es))
      \<or> first_from mark (nat (place s + 1)) (nat bound) (-1) \<and> (\<exists>s' es. nxt s = Some (MS_DONE, None, s', es))"
begin

lemma read_exactly:
  "inv s \<Longrightarrow> nat (bound - place s) \<le> n \<Longrightarrow> 0 < n \<Longrightarrow>
   \<exists>s'. read_on nxt n s = Some (MS_DONE, map feature (filter mark [nat (place s + 1)..<nat bound]), s') \<and> inv s'"
proof (induction n arbitrary: s)
  case (Suc n)
  from exact [OF Suc.prems(1)] show ?case
  proof (elim disjE exE conjE)
    fix i s' es
    assume i: "first_from mark (nat (place s + 1)) (nat bound) (int i)" "key (feature i) = int i"
      "nxt s = Some (MS_SUCCESS, Some (feature i), s', es)"
    have s': "inv s'" "place s' = int i" "place s < int i" "int i < bound" using step [OF Suc.prems(1)] i(2,3) by auto
    have "nat (bound - place s') \<le> n" "0 < n" using s' Suc.prems(2) by linarith+
    then obtain t where t: "read_on nxt n s' = Some (MS_DONE, map feature (filter mark [nat (place s' + 1)..<nat bound]), t)" "inv t"
      using Suc.IH [OF s'(1)] by blast
    have "filter mark [nat (place s + 1)..<nat bound] = i # filter mark [Suc i..<nat bound]"
      by (rule first_from_filter [OF i(1)])
    then show ?thesis using t i(3) s'(2) by (simp add: nat_add_distrib)
  next
    fix s' es
    assume "first_from mark (nat (place s + 1)) (nat bound) (-1)" "nxt s = Some (MS_DONE, None, s', es)"
    then show ?thesis using step [OF Suc.prems(1)] by (auto simp: first_from_def filter_empty_conv)
  qed
qed simp

end

section \<open>The driver as a cursor\<close>

text \<open>The items of a layer are ready when \<open>iteminfo\<close> has an index for each.\<close>

definition items_ready :: "'f shpLayer \<Rightarrow> bool" where
  "items_ready l \<longleftrightarrow> items l = [] \<or> (\<exists>is. iteminfo l = Some is \<and> length is = length (items l))"

text \<open>
  The invariant of an attribute table over any file: its buffer has room for a record, and every field
  lies inside the buffer.
\<close>

definition table_ok :: "'f DBFInfo \<Rightarrow> bool" where
  "table_ok d \<longleftrightarrow>
     unat (nRecordLength d) \<le> length (pszCurrentRecord d)
     \<and> (\<forall>i<nFields d. 0 \<le> panFieldOffset d ! i \<and> 0 \<le> panFieldSize d ! i
          \<and> panFieldOffset d ! i + panFieldSize d ! i \<le> int (length (pszCurrentRecord d)))"

text \<open>
  The invariant of a layer: an open shapefile has both its files, its view agrees with the handle, its
  status array has a bit for every record, and its table is sound.
\<close>

definition shapefile_ok :: "bool \<Rightarrow> ('f \<Rightarrow> byte list) \<Rightarrow> 'f shapefile \<Rightarrow> bool" where
  "shapefile_ok be bytes s \<longleftrightarrow>
     isopen s \<and> shx_inv be bytes (hSHP s) \<and> (\<exists>d. hDBF s = Some d \<and> table_ok d) \<and> shp_numshapes (view s) = SHPInfo.nRecords (hSHP s)
     \<and> 0 \<le> shp_numshapes (view s) \<and> -1 \<le> lastshape (view s) \<and> (lastshape (view s) = -1 \<or> lastshape (view s) < shp_numshapes (view s))
     \<and> (\<forall>st. shp_status (view s) = Some st \<longrightarrow> bits_cover st (nat (shp_numshapes (view s))))"

definition layer_ok :: "bool \<Rightarrow> ('f \<Rightarrow> byte list) \<Rightarrow> 'f shpLayer \<Rightarrow> bool" where
  "layer_ok be bytes l \<longleftrightarrow> items_ready l \<and> (\<forall>s. layerinfo l = Some s \<longrightarrow> shapefile_ok be bytes s)"

text \<open>A layer on an open shapefile with the status \<open>st\<close>, in the middle of a scan.\<close>

definition reading :: "bool \<Rightarrow> ('f \<Rightarrow> byte list) \<Rightarrow> int \<Rightarrow> ms_bitarray \<Rightarrow> int \<Rightarrow> 'f shpLayer \<Rightarrow> bool" where
  "reading be bytes ty st n l \<longleftrightarrow>
     layer_ok be bytes l \<and>
     (\<exists>s. layerinfo l = Some s \<and> nShapeType (hSHP s) = ty \<and> shp_status (view s) = Some st \<and> shp_numshapes (view s) = n)"

definition place :: "'f shpLayer \<Rightarrow> int" where
  "place l = (case layerinfo l of None \<Rightarrow> -1 | Some s \<Rightarrow> lastshape (view s))"

text \<open>A feature that the driver may return.\<close>

definition fit_feature :: "int \<Rightarrow> ms_bitarray \<Rightarrow> featureObj \<Rightarrow> bool" where
  "fit_feature ty st f \<longleftrightarrow>
     decoded ty (shapeObj.truncate f) \<and> shape_type f \<noteq> MS_SHAPE_NULL \<and> 0 \<le> index f \<and> msGetBit st (nat (index f))"

lemma items_ready_info [simp]: "items_ready (l\<lparr>layerinfo := x\<rparr>) = items_ready l"
  by (simp add: items_ready_def)

lemma table_ok_flush: "table_ok d \<Longrightarrow> table_ok (flushRecord ops d)"
  by (simp add: flushRecord_def table_ok_def nFields_def)

lemma load_record_safe:
  assumes "table_ok d"
  shows "\<exists>b d'. load_record ops d r = Some (b, d') \<and> table_ok d' \<and> nFields d' = nFields d"
proof (cases "nCurrentRecord d = r")
  case False
  have "table_ok (flushRecord ops d)" "nFields (flushRecord ops d) = nFields d"
    using table_ok_flush [OF assms] by (simp_all add: flushRecord_def nFields_def)
  then show ?thesis using False
    by (fastforce simp: load_record_def Let_def table_ok_def nFields_def split: prod.split)
qed (use assms in \<open>auto simp: load_record_def\<close>)

lemma read_attribute_safe:
  assumes "table_ok d"
  shows "\<exists>v d' es. msDBFReadAttribute ops d r i = Some (v, d', es) \<and> table_ok d'"
proof (cases "i < 0 \<or> i \<ge> int (nFields d) \<or> r < 0 \<or> r \<ge> nRecords d")
  case False
  obtain b e where ld: "load_record ops d r = Some (b, e)" and e: "table_ok e" "nFields e = nFields d"
    using load_record_safe [OF assms] by blast
  define d2 where "d2 = (if nStringFieldLen e \<le> panFieldSize e ! nat i then e\<lparr>nStringFieldLen := panFieldSize e ! nat i * 2 + 10\<rparr> else e)"
  have d2: "table_ok d2" "nFields d2 = nFields d" using e by (simp_all add: d2_def table_ok_def nFields_def)
  then have "field_readable d2 (nat i) (pszCurrentRecord d2)" using False by (force simp: table_ok_def field_readable_def)
  then show ?thesis using False ld e(1) d2(1)
    by (cases b) (simp_all add: msDBFReadAttribute_def Let_def flip: d2_def)
qed (use assms in \<open>auto simp: msDBFReadAttribute_def\<close>)

lemma value_list_safe: "table_ok d \<Longrightarrow> \<exists>vs d' es. value_list ops d r js = Some (vs, d', es) \<and> table_ok d'"
proof (induction js arbitrary: d)
  case (Cons j js)
  obtain v e es where v: "msDBFReadAttribute ops d r j = Some (v, e, es)" "table_ok e"
    using read_attribute_safe [OF Cons.prems] by blast
  show ?case
  proof (cases v)
    case (Some s)
    then show ?thesis using Cons.IH [OF v(2)] v(1) by (fastforce simp: msDBFReadStringAttribute_def)
  qed (use v in \<open>simp add: msDBFReadStringAttribute_def\<close>)
qed simp

lemma item_values_ready:
  assumes "items_ready l" and "table_ok d"
  shows "\<exists>vs d' es. item_values ops l (Some d) i = Some (vs, Some d', es) \<and> table_ok d'"
proof (cases "items l = []")
  case False
  then obtain js where js: "iteminfo l = Some js" "length js = length (items l)" using assms(1) by (auto simp: items_ready_def)
  have "\<exists>vs d' es. msDBFGetValueList ops d i js = Some (vs, d', es) \<and> table_ok d'"
    using value_list_safe [OF assms(2)] assms(2) by (simp add: msDBFGetValueList_def)
  then show ?thesis using False js by (auto simp: item_values_def)
qed (use assms(2) in \<open>simp add: item_values_def\<close>)

text \<open>Opening a table checks that its last field ends inside the record; then all of them do.\<close>

lemma field_ends:
  assumes "i < length ss" and "\<forall>s\<in>set ss. 0 \<le> s"
  shows "field_offsets off ss ! i + ss ! i \<le> last (field_offsets off ss) + last ss"
proof -
  have l: "last (field_offsets off ss) = field_offsets off ss ! (length ss - 1)" "last ss = ss ! (length ss - 1)"
    using assms(1) by (cases "ss = []"; simp add: last_conv_nth)+
  have p: "0 \<le> ss ! (length ss - 1)" using assms by simp
  show ?thesis
  proof (cases "i = length ss - 1")
    case False
    then have "field_offsets off ss ! i + ss ! i \<le> field_offsets off ss ! (length ss - 1)"
      using assms by (intro field_apart) auto
    with p show ?thesis unfolding l by linarith
  qed (simp add: l)
qed

lemma field_sizes_pos: "0 \<le> fst (field_info h i)"
  by (auto simp: field_info_def Let_def)

lemma opened_table_ok:
  assumes "msDBFOpenVirtualFile ops junk f = Some d"
  shows "table_ok d"
proof -
  obtain n rl f2 hl sizes ds ts hdr where
    d: "d = \<lparr>nRecords = n, fp = f2, nRecordLength = word_of_int rl, nHeaderLength = hl, panFieldOffset = field_offsets 1 sizes,
      panFieldSize = sizes, panFieldDecimals = ds, pachFieldType = ts, pszHeader = hdr, nCurrentRecord = -1,
      bCurrentRecordModified = False, pszCurrentRecord = map junk [0..<nat rl], bNoHeader = False, bUpdated = False,
      nStringFieldLen = 0, pszEncoding = Some None\<rparr>"
    and rl: "0 \<le> rl" "rl < 65536" and fit: "sizes \<noteq> [] \<Longrightarrow> last (field_offsets 1 sizes) + last sizes \<le> rl"
    and pos: "\<forall>s\<in>set sizes. 0 \<le> s"
  proof -
    obtain k h f1 where 1: "VSIFReadL ops f 32 1 = (k, h, f1)" by (cases "VSIFReadL ops f 32 1")
    define rl where "rl = uint (h ! 10) + uint (h ! 11) * 256"
    define hl where "hl = uint (h ! 8) + uint (h ! 9) * 256"
    obtain k2 hdr f2 where 2: "VSIFReadL ops (vseek ops f1 32) (nat (hl - 32)) 1 = (k2, hdr, f2)"
      by (cases "VSIFReadL ops (vseek ops f1 32) (nat (hl - 32)) 1")
    define sizes where "sizes = map fst (map (field_info hdr) [0..<nat ((hl - 32) div 32)])"
    note op = assms [unfolded msDBFOpenVirtualFile_def 1 prod.case Let_def, folded rl_def hl_def, unfolded 2 prod.case, folded sizes_def]
    have "sizes \<noteq> [] \<Longrightarrow> last (field_offsets 1 sizes) + last sizes \<le> rl"
      using op by (auto simp: sizes_def split: if_splits)
    moreover have "\<exists>n ds ts. d = \<lparr>nRecords = n, fp = f2, nRecordLength = word_of_int rl, nHeaderLength = hl, panFieldOffset = field_offsets 1 sizes,
      panFieldSize = sizes, panFieldDecimals = ds, pachFieldType = ts, pszHeader = hdr, nCurrentRecord = -1,
      bCurrentRecordModified = False, pszCurrentRecord = map junk [0..<nat rl], bNoHeader = False, bUpdated = False,
      nStringFieldLen = 0, pszEncoding = Some None\<rparr>"
      using op by (auto split: if_splits)
    moreover have "rl < 65536" "0 \<le> rl" using uint_lt2p [of "h ! 10"] uint_lt2p [of "h ! 11"] by (simp_all add: rl_def)
    moreover have "\<forall>s\<in>set sizes. 0 \<le> s" using field_sizes_pos by (simp add: sizes_def)
    ultimately show ?thesis using that by blast
  qed
  have "unat (word_of_int rl :: u32) = nat rl"
    using rl by (simp add: unat_eq_nat_uint uint_word_of_int take_bit_eq_mod)
  moreover have "0 \<le> field_offsets 1 sizes ! i \<and> 0 \<le> sizes ! i \<and> field_offsets 1 sizes ! i + sizes ! i \<le> rl" if "i < length sizes" for i
    using field_span [OF that pos, of 1] field_ends [OF that pos, of 1] fit that pos by force
  ultimately show ?thesis using rl by (simp add: d table_ok_def nFields_def)
qed

lemma table_ok_encoding [simp]: "table_ok (d\<lparr>pszEncoding := e\<rparr>) = table_ok d"
  by (simp add: table_ok_def nFields_def)

lemma msDBFOpen_table: "msDBFOpen ops junk vopen cpg name mode = Some d \<Longrightarrow> table_ok d"
  using opened_table_ok by (fastforce simp: msDBFOpen_def Let_def split: if_splits option.splits)

lemma with_values_simps [simp]:
  "shapeObj.truncate (with_values s vs) = s" "index (with_values s vs) = index s" "shape_type (with_values s vs) = shape_type s"
  "shape_values (with_values s vs) = vs"
  by (simp_all add: with_values_def shapeObj.extend_def shapeObj.truncate_def)

lemma next_marked_first:
  "bits_cover st (nat (shp_numshapes v)) \<Longrightarrow>
   first_from (msGetBit st) (nat (lastshape v + 1)) (nat (shp_numshapes v)) (next_marked v st)"
  by (simp add: next_marked_def msGetNextBit_first)

lemma shapefile_ok_seek:
  "shapefile_ok be bytes s \<Longrightarrow> i = -1 \<or> 0 \<le> i \<and> i < shp_numshapes (view s) \<Longrightarrow> shx_inv be bytes h \<Longrightarrow>
   SHPInfo.nRecords h = SHPInfo.nRecords (hSHP s) \<Longrightarrow> \<exists>e. d = Some e \<and> table_ok e \<Longrightarrow> shapefile_ok be bytes (seek_shape i s\<lparr>hSHP := h, hDBF := d\<rparr>)"
  by (auto simp: shapefile_ok_def seek_shape_def)

lemma reading_seek:
  assumes "reading be bytes ty st n l" and "layerinfo l = Some s" and "i = -1 \<or> 0 \<le> i \<and> i < n" and "shx_inv be bytes h"
    and "same_file bytes (hSHP s) h" and "\<exists>e. d = Some e \<and> table_ok e"
  shows "reading be bytes ty st n (l\<lparr>layerinfo := Some (seek_shape i s\<lparr>hSHP := h, hDBF := d\<rparr>)\<rparr>)"
  using assms shapefile_ok_seek [of be bytes s i h d] by (auto simp: reading_def layer_ok_def seek_shape_def same_file_def)

lemma place_seek [simp]: "place (l\<lparr>layerinfo := Some (seek_shape i s\<lparr>hSHP := h, hDBF := d\<rparr>)\<rparr>) = i"
  by (simp add: place_def seek_shape_def)

lemma seek_same [simp]: "seek_shape i s\<lparr>hSHP := hSHP s, hDBF := hDBF s\<rparr> = seek_shape i s"
  "seek_shape i s\<lparr>hSHP := h, hDBF := hDBF s\<rparr> = seek_shape i s\<lparr>hSHP := h\<rparr>"
  "hSHP (seek_shape i s) = hSHP s" "hDBF (seek_shape i s) = hDBF s"
  by (simp_all add: seek_shape_def)

context writable_vsi
begin

text \<open>One call finds the first marked record that is not a null shape, or the end.\<close>

lemma next_shape_step:
  assumes "reading be bytes ty st n l"
  shows "(\<exists>a l' es. msSHPLayerNextShape ops be l = Some (MS_SUCCESS, Some a, l', es) \<and> reading be bytes ty st n l'
           \<and> place l < index a \<and> index a < n \<and> place l' = index a \<and> fit_feature ty st a)
      \<or> (\<exists>l' es. msSHPLayerNextShape ops be l = Some (MS_DONE, None, l', es) \<and> reading be bytes ty st n l')"
  using assms
proof (induction "scan_left (view (the (layerinfo l)))" arbitrary: l rule: less_induct)
  case less
  obtain s where s: "layerinfo l = Some s" "shapefile_ok be bytes s" "nShapeType (hSHP s) = ty"
    "shp_status (view s) = Some st" "shp_numshapes (view s) = n" "items_ready l"
    using less.prems by (auto simp: reading_def layer_ok_def)
  then have s': "shx_inv be bytes (hSHP s)" "\<exists>e. hDBF s = Some e \<and> table_ok e" "-1 \<le> lastshape (view s)" "bits_cover st (nat (shp_numshapes (view s)))"
    by (auto simp: shapefile_ok_def)
  obtain i where i: "i = next_marked (view s) st" by simp
  note nxt = msSHPLayerNextShape.simps [of ops be l, unfolded s(1) option.case s(4) Let_def, folded i]
  have ff: "first_from (msGetBit st) (nat (lastshape (view s) + 1)) (nat n) i"
    unfolding i s(5) [symmetric] by (rule next_marked_first [OF s'(4)])
  have same: "same_file bytes (hSHP s) (hSHP s)" by (simp add: same_file_def)
  show ?case
  proof (cases "i = -1")
    case True
    have "reading be bytes ty st n (l\<lparr>layerinfo := Some (seek_shape (-1) s)\<rparr>)"
      using reading_seek [OF less.prems s(1) _ s'(1) same s'(2), of "-1"] by simp
    then show ?thesis using nxt True by auto
  next
    case False
    have range: "lastshape (view s) < i" "i < n" "0 \<le> i" "msGetBit st (nat i)"
      using ff False s'(3) by (auto simp: first_from_def)
    have pl: "place l = lastshape (view s)" using s(1) by (simp add: place_def)
    obtain shape h es where r: "msSHPReadShape ops be (hSHP s) i = Some (shape, h, es)"
      "shape_result ty i shape" "kept be (hSHP s) h"
      using msSHPReadShape_safe [OF s'(1), of i] s(3) by auto
    have h: "shx_inv be bytes h" "same_file bytes (hSHP s) h" using r(3) by (auto simp: kept_def)
    let ?l1 = "l\<lparr>layerinfo := Some (seek_shape i s\<lparr>hSHP := h\<rparr>)\<rparr>"
    show ?thesis
    proof (cases "shape_type shape = MS_SHAPE_NULL")
      case null: True
      have l1: "reading be bytes ty st n ?l1" "place ?l1 = i"
        using reading_seek [OF less.prems s(1) _ h s'(2), of i]
          place_seek [where l = l and i = i and s = s and h = h and d = "hDBF s"] range(2,3) by auto
      have "scan_left (view (the (layerinfo ?l1))) < scan_left (view (the (layerinfo l)))"
        using scan_left_next [OF i [symmetric] False] s(1) by (simp add: seek_shape_def)
      from less.hyps [OF this l1(1)] show ?thesis
        using nxt False r(1) null range(1) pl l1(2) by fastforce
    next
      case shape: False
      obtain vs d es' where v: "item_values ops l (hDBF s) i = Some (vs, Some d, es')" "table_ok d"
        using item_values_ready [OF s(6)] s'(2) by metis
      have "decoded ty shape" "index shape = i" using r(2) shape by (auto simp: shape_result_def no_geometry_def)
      moreover have "reading be bytes ty st n (l\<lparr>layerinfo := Some (seek_shape i s\<lparr>hSHP := h, hDBF := Some d\<rparr>)\<rparr>)"
        using reading_seek [OF less.prems s(1) _ h, of i] range v(2) by simp
      ultimately show ?thesis
        using nxt False r(1) shape v range pl by (auto simp: fit_feature_def)
    qed
  qed
qed

lemma driver_cursor:
  "cursor (msSHPLayerNextShape ops be) (reading be bytes ty st n) place index (fit_feature ty st) n"
  by unfold_locales (use next_shape_step in blast)

end

interpretation stdio_driver: cursor "msSHPLayerNextShape stdio_rw be" "reading be content ty st n" place index "fit_feature ty st" n
  for be ty st n
  by (rule stdio_rw.driver_cursor)

section \<open>Every call keeps the invariant\<close>

lemma repeatM_keeps:
  "(\<And>s s'. P s \<Longrightarrow> step s = Some s' \<Longrightarrow> P s') \<Longrightarrow> P s \<Longrightarrow> repeatM n step s = Some s' \<Longrightarrow> P s'"
  by (induction n arbitrary: s) (auto split: option.splits)

lemma io_error_status [simp]: "status (io_error s) = status s"
  by (simp add: io_error_def)

lemma disk_search_cover:
  "searchDiskTreeNode fuel be h aoi s = Some s' \<Longrightarrow> bits_cover (status s) (nat (sint (nShapes h))) \<Longrightarrow>
   bits_cover (status s') (nat (sint (nShapes h)))"
proof (induction fuel arbitrary: s s')
  case (Suc fuel)
  have sub: "bits_cover (status s2) (nat (sint (nShapes h)))"
    if "repeatM k (searchDiskTreeNode fuel be h aoi) s1 = Some s2" "bits_cover (status s1) (nat (sint (nShapes h)))" for k s1 s2
    using repeatM_keeps [of "\<lambda>s. bits_cover (status s) (nat (sint (nShapes h)))" "searchDiskTreeNode fuel be h aoi" s1 k s2]
      Suc.IH that by blast
  show ?case using Suc.prems
    by (auto simp: searchDiskTreeNode.simps(2) Let_def set_ids_get split: prod.splits bool.splits option.splits if_splits elim!: sub)
qed simp

lemma disk_tree_cover:
  assumes "msSearchDiskTree fuel be fs nm rect debug n = Some (Some st, es)"
  shows "bits_cover st (nat n)"
proof -
  obtain t s0 s' where "searchDiskTreeNode fuel be t rect s0 = Some s'" "status s0 = msAllocBitArray (nat n)"
    "sint (nShapes t) = n" "st = status s'"
    using assms by (auto simp: msSearchDiskTree_def Let_def split: option.splits if_splits)
  then show ?thesis using disk_search_cover [of fuel be t rect s0 s'] by simp
qed

lemma scan_shapes_cover:
  "scan_shapes shp rect is st = (rc, st') \<Longrightarrow> bits_cover st n \<Longrightarrow> bits_cover st' n"
  by (induction "is" arbitrary: st) (auto split: option.splits if_splits)

text \<open>A search that succeeds starts a scan; one that does not leaves at most a status to read.\<close>

lemma which_shapes_view:
  assumes "msShapefileWhichShapes fuel be fs v rect debug = Some (rc, v', es)"
  shows "shp_numshapes v' = shp_numshapes v \<and> shp_bounds v' = shp_bounds v
    \<and> (lastshape v' = -1 \<or> rc \<noteq> MS_SUCCESS \<and> lastshape v' = lastshape v)
    \<and> (\<forall>st. shp_status v' = Some st \<longrightarrow> bits_cover st (nat (shp_numshapes v)))
    \<and> (rc = MS_SUCCESS \<longrightarrow> shp_status v' \<noteq> None)"
proof -
  have filt: "bits_cover st' (nat (shp_numshapes v))"
    if "msFilterTreeSearch (shapefileObj.truncate v) st rect = Some st'" "bits_cover st (nat (shp_numshapes v))" for st st'
    using msFilterTreeSearch_spec [of st "shapefileObj.truncate v" rect] that by auto
  have scan: "bits_cover st (nat (shp_numshapes v))"
    if "scan_shapes v rect (map int [0..<nat (shp_numshapes v)]) (msAllocBitArray (nat (shp_numshapes v))) = (c, st)" for c st
    using scan_shapes_cover [OF that] by simp
  show ?thesis using assms
    by (auto simp: msShapefileWhichShapes_def Let_def split: if_splits option.splits prod.splits ms_return.splits
        intro: filt scan dest: disk_tree_cover)
qed

text \<open>A search returns unless the recursion over the spatial index is deeper than the fuel.\<close>

lemma which_returns:
  assumes "msShapefileWhichShapes fuel be fs v rect debug = None"
  shows "msSearchDiskTree fuel be fs (index_name (source v)) rect debug (shp_numshapes v) = None"
proof (rule ccontr)
  assume "msSearchDiskTree fuel be fs (index_name (source v)) rect debug (shp_numshapes v) \<noteq> None"
  then obtain r es where r: "msSearchDiskTree fuel be fs (index_name (source v)) rect debug (shp_numshapes v) = Some (r, es)" by auto
  have "\<exists>st'. msFilterTreeSearch (shapefileObj.truncate v) st rect = Some st'" if "r = Some st" for st
    using msFilterTreeSearch_spec [of st "shapefileObj.truncate v" rect] disk_tree_cover r that by auto
  then show False using assms r
    by (cases r) (auto simp: msShapefileWhichShapes_def Let_def split: if_splits prod.splits ms_return.splits)
qed

lemma own_item_found:
  assumes "i < nFields d" and "i \<in> set is"
  shows "find_item d (fst (snd (msDBFGetFieldInfo d (int i)))) is \<noteq> -1"
  using assms(2) by (induction "is") auto

lemma own_items_found:
  assumes "\<forall>i\<in>set is. i < nFields d"
  shows "\<exists>js. item_indexes d (map (\<lambda>i. Some (fst (snd (msDBFGetFieldInfo d (int i))))) is) = (Some js, [])
    \<and> length js = length is \<and> (\<forall>j\<in>set js. 0 \<le> j \<and> j < int (nFields d))"
  using assms
proof (induction "is")
  case (Cons i "is")
  let ?j = "find_item d (fst (snd (msDBFGetFieldInfo d (int i)))) [0..<nFields d]"
  have j: "?j \<noteq> -1" using own_item_found [of i d "[0..<nFields d]"] Cons.prems by simp
  have "0 \<le> find_item d nm ks \<and> find_item d nm ks < int (nFields d) \<or> find_item d nm ks = -1" if "\<forall>k\<in>set ks. k < nFields d" for nm ks
    using that by (induction ks) auto
  then have "0 \<le> ?j" "?j < int (nFields d)" using j by (metis atLeastLessThan_iff set_upt)+
  then show ?case using Cons j by (auto simp: msDBFGetItemIndex_def Let_def)
qed simp

lemma item_indexes_length: "item_indexes d ns = (Some js, es) \<Longrightarrow> length js = length ns"
  by (induction ns arbitrary: js es) (auto split: prod.splits if_splits)

lemma init_items_ready:
  assumes "layer_ok be bytes l" and "msSHPLayerInitItemInfo (l\<lparr>items := names\<rparr>) = Some (MS_SUCCESS, l', es)"
  shows "layer_ok be bytes l'"
  using assms item_indexes_length
  by (fastforce simp: msSHPLayerInitItemInfo_def msSHPLayerFreeItemInfo_def layer_ok_def items_ready_def
      msDBFGetItemIndexes_def split: option.splits prod.splits if_splits)

lemma which_ok:
  assumes "layer_ok be bytes l" and "msSHPLayerWhichShapes fuel be fs l rect debug = Some (rc, l', es)"
  shows "layer_ok be bytes l' \<and> (rc = MS_SUCCESS \<longrightarrow>
    (\<exists>s st. layerinfo l' = Some s \<and> shp_status (view s) = Some st \<and> place l' = -1
       \<and> reading be bytes (nShapeType (hSHP s)) st (shp_numshapes (view s)) l'))"
proof (cases "layerinfo l")
  case None
  then show ?thesis using assms by (auto simp: msSHPLayerWhichShapes_def)
next
  case (Some s)
  obtain v where v: "msShapefileWhichShapes fuel be fs (view s) rect debug = Some (rc, v, es)"
    "l' = l\<lparr>layerinfo := Some (s\<lparr>view := v\<rparr>)\<rparr>"
    using assms(2) Some by (auto simp: msSHPLayerWhichShapes_def)
  have "layer_ok be bytes l'"
    using assms(1) which_shapes_view [OF v(1)] v(2) Some by (auto simp: layer_ok_def shapefile_ok_def)
  then show ?thesis using which_shapes_view [OF v(1)] v(2) by (auto simp: reading_def place_def)
qed

lemma get_items_ok:
  assumes "layer_ok be bytes l"
  shows "\<exists>rc l' es. msSHPLayerGetItems l = Some (rc, l', es) \<and> layer_ok be bytes l' \<and> layerinfo l' = layerinfo l
    \<and> (rc = MS_SUCCESS \<longleftrightarrow> layerinfo l \<noteq> None)"
proof (cases "layerinfo l")
  case None
  then show ?thesis using assms by (simp add: msSHPLayerGetItems_def)
next
  case (Some s)
  then obtain d where d: "hDBF s = Some d" using assms by (auto simp: layer_ok_def shapefile_ok_def)
  show ?thesis
  proof (cases "nFields d = 0")
    case True
    then show ?thesis using assms Some d by (auto simp: msSHPLayerGetItems_def msDBFGetItems_def layer_ok_def items_ready_def)
  next
    case False
    let ?names = "map (\<lambda>i. fst (snd (msDBFGetFieldInfo d (int i)))) [0..<nFields d]"
    obtain js where js: "item_indexes d (map Some ?names) = (Some js, [])" "length js = length ?names"
      using own_items_found [of "[0..<nFields d]" d] by (auto simp: comp_def)
    have idx: "msDBFGetItemIndexes d (map Some ?names) = (Some js, [])" using js(1) False by (simp add: msDBFGetItemIndexes_def)
    have "\<exists>l' es. msSHPLayerGetItems l = Some (MS_SUCCESS, l', es) \<and> items l' = ?names \<and> iteminfo l' = Some js \<and> layerinfo l' = layerinfo l"
      using Some d False idx
      by (auto simp: msSHPLayerGetItems_def msDBFGetItems_def msSHPLayerInitItemInfo_def msSHPLayerFreeItemInfo_def Let_def
          split: prod.split)
    then show ?thesis using assms Some js(2) by (auto simp: layer_ok_def items_ready_def)
  qed
qed

lemma close_layer_ok:
  "layer_ok be bytes l \<Longrightarrow> msSHPLayerClose ops dsk junkb be fs l = (rc, l', fs') \<Longrightarrow>
   layer_ok be bytes l' \<and> rc = MS_SUCCESS \<and> layerinfo l' = None"
  by (auto simp: msSHPLayerClose_def layer_ok_def split: option.splits)

context writable_vsi
begin

lemma msSHPOpen_handle:
  assumes "msSHPOpen ops dsk junk be fs name mode = (Some h, fs', es)"
  shows "shx_inv be bytes h \<and> 0 \<le> SHPInfo.nRecords h \<and> SHPInfo.nRecords h \<le> 256000000"
proof -
  obtain f1 f2 es' where "msSHPOpenVirtualFile ops junk be f1 f2 = (Some h, es')"
    using assms by (auto simp: msSHPOpen_def Let_def split: prod.splits option.splits)
  then show ?thesis using msSHPOpenVirtualFile_inv by blast
qed

lemma open_shapefile_ok:
  assumes "msShapefileOpen ops dsk junk junkb be fs mode name log = (rc, Some s, fs', es)"
  shows "shapefile_ok be bytes s"
proof -
  have "\<exists>h fs1 es1 nm m d es2. msSHPOpen ops dsk junk be fs nm m = (Some h, fs1, es1)
      \<and> open_handle ops dsk junkb be fs1 nm h d = (rc, Some s, fs', es2) \<and> table_ok d"
    using assms by (fastforce simp: msShapefileOpen_def Let_def split: prod.splits option.splits dest: msDBFOpen_table)
  then obtain h fs1 es1 nm m d es2 where "msSHPOpen ops dsk junk be fs nm m = (Some h, fs1, es1)"
    "open_handle ops dsk junkb be fs1 nm h d = (rc, Some s, fs', es2)" "table_ok d" by blast
  then show ?thesis using msSHPOpen_handle [of dsk junk be fs nm m h fs1 es1]
    by (auto simp: open_handle_def msShapefileOpenHandle_def Let_def shapefile_ok_def open_view_def msSHPGetInfo_def
        split: prod.splits option.splits if_splits)
qed

lemma open_ok:
  assumes "layer_ok be bytes l" and "msSHPLayerOpen ops dsk gdal junk junkb be fs l = (rc, l', fs', es)"
  shows "layer_ok be bytes l' \<and> (rc = MS_SUCCESS \<longleftrightarrow> layerinfo l' \<noteq> None)"
proof -
  have "shapefile_ok be bytes s" if "open_either ops dsk junk junkb be fs mp sp dt = (Some (s, p), fs1, es1)" for mp sp dt s p fs1 es1
    using that by (auto simp: open_either_def Let_def split: prod.splits option.splits dest: open_shapefile_ok)
  then show ?thesis using assms
    by (auto simp: msSHPLayerOpen_def Let_def layer_ok_def items_ready_def split: option.splits prod.splits)
qed

lemma get_shape_ok:
  assumes "layer_ok be bytes l"
  shows "\<exists>rc a l' es. msSHPLayerGetShape ops be l i = Some (rc, a, l', es) \<and> layer_ok be bytes l'"
proof (cases "layerinfo l")
  case None
  then show ?thesis using assms by (simp add: msSHPLayerGetShape_def)
next
  case (Some s)
  have s: "shapefile_ok be bytes s" "items_ready l" using assms Some by (auto simp: layer_ok_def)
  show ?thesis
  proof (cases "0 \<le> i \<and> i < shp_numshapes (view s)")
    case False
    then show ?thesis using assms Some by (auto simp: msSHPLayerGetShape_def)
  next
    case True
    have s': "shx_inv be bytes (hSHP s)" "\<exists>e. hDBF s = Some e \<and> table_ok e" using s(1) by (auto simp: shapefile_ok_def)
    obtain shape h es where r: "msSHPReadShape ops be (hSHP s) i = Some (shape, h, es)" "kept be (hSHP s) h"
      using msSHPReadShape_safe [OF s'(1), of i] by blast
    have h: "shx_inv be bytes h" "same_file bytes (hSHP s) h" using r(2) by (auto simp: kept_def)
    obtain vs d es' where v: "item_values ops l (hDBF s) i = Some (vs, Some d, es')" "table_ok d"
      using item_values_ready [OF s(2)] s'(2) by metis
    have ok: "shapefile_ok be bytes (seek_shape i (s\<lparr>hSHP := h, hDBF := e\<rparr>))" "shapefile_ok be bytes (s\<lparr>hSHP := h, hDBF := e\<rparr>)"
      if "\<exists>x. e = Some x \<and> table_ok x" for e
      using True s(1) h that by (auto simp: shapefile_ok_def same_file_def seek_shape_def)
    have "shapefile_ok be bytes (seek_shape i (s\<lparr>hSHP := h\<rparr>))" using True s(1) h by (auto simp: shapefile_ok_def same_file_def seek_shape_def)
    then show ?thesis
      using r(1) v True Some s(2) ok [of "Some d"]
      by (cases vs) (auto simp: msSHPLayerGetShape_def Let_def layer_ok_def)
  qed
qed

end


section \<open>Calls in any order\<close>

text \<open>
  What the layer code calls, on a layer and a disk. The index of a search, the fuel for it and the
  arbitrary contents of fresh memory may be anything. Items are selected by name; if that fails
  the callers stop.
\<close>

inductive driver_step ::
  "'f vsi_rw \<Rightarrow> ('f, 'fs) vsi_disk \<Rightarrow> gdal_prj \<Rightarrow> bool \<Rightarrow> 'f shpLayer \<times> 'fs \<Rightarrow> 'f shpLayer \<times> 'fs \<Rightarrow> bool"
  for ops dsk gdal be where
  call_open: "msSHPLayerOpen ops dsk gdal junk junkb be fs l = (rc, l', fs', es) \<Longrightarrow> driver_step ops dsk gdal be (l, fs) (l', fs')"
| call_which: "msSHPLayerWhichShapes fuel be idx l rect debug = Some (rc, l', es) \<Longrightarrow> driver_step ops dsk gdal be (l, fs) (l', fs)"
| call_next: "msSHPLayerNextShape ops be l = Some (rc, a, l', es) \<Longrightarrow> driver_step ops dsk gdal be (l, fs) (l', fs)"
| call_get: "msSHPLayerGetShape ops be l i = Some (rc, a, l', es) \<Longrightarrow> driver_step ops dsk gdal be (l, fs) (l', fs)"
| call_items: "msSHPLayerGetItems l = Some (rc, l', es) \<Longrightarrow> driver_step ops dsk gdal be (l, fs) (l', fs)"
| call_select: "msSHPLayerInitItemInfo (l\<lparr>items := names\<rparr>) = Some (MS_SUCCESS, l', es) \<Longrightarrow> driver_step ops dsk gdal be (l, fs) (l', fs)"
| call_close: "msSHPLayerClose ops dsk junkb be fs l = (rc, l', fs') \<Longrightarrow> driver_step ops dsk gdal be (l, fs) (l', fs')"

context writable_vsi
begin

lemma next_ok:
  assumes "layer_ok be bytes l"
  shows "\<exists>rc a l' es. msSHPLayerNextShape ops be l = Some (rc, a, l', es) \<and> layer_ok be bytes l'"
proof (cases "\<exists>s st. layerinfo l = Some s \<and> shp_status (view s) = Some st")
  case True
  then obtain s st where "layerinfo l = Some s" "shp_status (view s) = Some st" by blast
  then have "reading be bytes (nShapeType (hSHP s)) st (shp_numshapes (view s)) l" using assms by (simp add: reading_def)
  then show ?thesis using next_shape_step by (fastforce simp: reading_def)
next
  case False
  then show ?thesis using assms by (cases "layerinfo l") (auto simp: msSHPLayerNextShape.simps [of ops be l])
qed

lemma driver_step_ok:
  "driver_step ops dsk gdal be s s' \<Longrightarrow> layer_ok be bytes (fst s) \<Longrightarrow> layer_ok be bytes (fst s')"
proof (induction rule: driver_step.induct)
  case (call_open junk junkb fs l rc l' fs' es)
  then show ?case using open_ok [OF _ call_open.hyps] by simp
next
  case (call_which fuel idx l rect debug rc l' es fs)
  then show ?case using which_ok [OF _ call_which.hyps] by auto
next
  case (call_next l rc a l' es fs)
  then show ?case using next_ok [of be l] by auto
next
  case (call_get l i rc a l' es fs)
  then show ?case using get_shape_ok [of be l i] by auto
next
  case (call_items l rc l' es fs)
  then show ?case using get_items_ok [of be bytes l] by auto
next
  case (call_select l names l' es fs)
  then show ?case using init_items_ready [OF _ call_select.hyps] by auto
next
  case (call_close junkb fs l rc l' fs')
  then show ?case using close_layer_ok [OF _ call_close.hyps] by auto
qed

lemma driver_reach_ok:
  "(driver_step ops dsk gdal be)\<^sup>*\<^sup>* s s' \<Longrightarrow> layer_ok be bytes (fst s) \<Longrightarrow> layer_ok be bytes (fst s')"
  by (induction rule: rtranclp_induct) (auto dest: driver_step_ok)

end

definition new_layer :: "'f shpLayer \<Rightarrow> bool" where
  "new_layer l \<longleftrightarrow> layerinfo l = None \<and> items l = []"

lemma new_layer_ok: "new_layer l \<Longrightarrow> layer_ok be bytes l"
  by (simp add: new_layer_def layer_ok_def items_ready_def)

section \<open>Properties\<close>

text \<open>C6. The driver of shapefiles is memory-safe in every order of calls and on any files: from a
  layer that was never opened and has no items, whatever sequence of opening, searching, reading, selecting
  items and closing has run over files with arbitrary contents and an arbitrary spatial index, the
  invariant of the layer holds (both files open, a status bit for each record, an index for each
  item, every field of the table inside its record buffer), and the next call of
  \<open>msSHPLayerNextShape\<close>, \<open>msSHPLayerGetItems\<close>, \<open>msSHPLayerGetShape\<close> for any number and
  \<open>msSHPLayerInitItemInfo\<close> for any items returns, without an access outside an array or through a null
  pointer. A search returns as well unless the recursion over the spatial index does not, which a
  corrupt index can bring about (\<open>disk_search_unbounded\<close>); a sequence goes on behind a search only
  when it returned. Calls are made on a layer as the layer code makes them: it stops when items
  cannot be selected. Freed memory is not tracked, and the file system is any that satisfies
  \<open>writable_vsi\<close>.\<close>

theorem driver_safe:
  assumes "writable_vsi ops bytes at" and "new_layer l0" and "(driver_step ops dsk gdal be)\<^sup>*\<^sup>* (l0, fs0) (l, fs)"
  shows "layer_ok be bytes l \<and> msSHPLayerNextShape ops be l \<noteq> None \<and> msSHPLayerGetItems l \<noteq> None
    \<and> (\<forall>i. msSHPLayerGetShape ops be l i \<noteq> None) \<and> (\<forall>names. msSHPLayerInitItemInfo (l\<lparr>items := names\<rparr>) \<noteq> None)
    \<and> (\<forall>fuel idx rect debug. msSHPLayerWhichShapes fuel be idx l rect debug = None \<longrightarrow>
        (\<exists>s. layerinfo l = Some s
          \<and> msSearchDiskTree fuel be idx (index_name (source (view s))) rect debug (shp_numshapes (view s)) = None))"
proof -
  have ok: "layer_ok be bytes l"
    using writable_vsi.driver_reach_ok [OF assms(1,3)] new_layer_ok [OF assms(2)] by simp
  have "msSHPLayerInitItemInfo (l\<lparr>items := names\<rparr>) \<noteq> None" for names
    using ok by (auto simp: msSHPLayerInitItemInfo_def layer_ok_def shapefile_ok_def split: option.split prod.split)
  moreover have "\<exists>s. layerinfo l = Some s
      \<and> msSearchDiskTree fuel be idx (index_name (source (view s))) rect debug (shp_numshapes (view s)) = None"
    if "msSHPLayerWhichShapes fuel be idx l rect debug = None" for fuel idx rect debug
    using that which_returns by (auto simp: msSHPLayerWhichShapes_def split: option.splits)
  ultimately show ?thesis
    using ok writable_vsi.next_ok [OF assms(1) ok] get_items_ok [OF ok] writable_vsi.get_shape_ok [OF assms(1) ok] by force
qed

text \<open>C5. Every scan of a layer ends: however calls of the driver have reached the layer and whatever the
  files contain, after a search that returned and succeeded the loop over \<open>msSHPLayerNextShape\<close>
  gets \<open>MS_DONE\<close> after at most as many shapes as the file has records. The shapes come in
  increasing order of their record, each was marked by the search, none is a null shape, and each
  has the lines that the type of the file allows: none that is empty for polygons and arcs (there may be
  no line at all), one, which may be empty, for a multipoint, one of one vertex for a point. That every marked record is
  among them is not stated here.\<close>

theorem scan_ends:
  assumes "writable_vsi ops bytes at" and "new_layer l0" and "(driver_step ops dsk gdal be)\<^sup>*\<^sup>* (l0, fs0) (l, fs)"
    and "msSHPLayerWhichShapes fuel be idx l rect debug = Some (MS_SUCCESS, l1, es)"
  shows "\<exists>s st xs l2. layerinfo l1 = Some s \<and> shp_status (view s) = Some st
    \<and> read_on (msSHPLayerNextShape ops be) (Suc (nat (shp_numshapes (view s)))) l1 = Some (MS_DONE, xs, l2)
    \<and> sorted_wrt (<) (map index xs)
    \<and> (\<forall>x\<in>set xs. index x < shp_numshapes (view s) \<and> fit_feature (nShapeType (hSHP s)) st x)"
proof -
  have "layer_ok be bytes l"
    using writable_vsi.driver_reach_ok [OF assms(1,3)] new_layer_ok [OF assms(2)] by simp
  from which_ok [OF this assms(4)] obtain s st where s: "layerinfo l1 = Some s" "shp_status (view s) = Some st" "place l1 = -1"
    "reading be bytes (nShapeType (hSHP s)) st (shp_numshapes (view s)) l1" by auto
  have "nat (shp_numshapes (view s) - place l1) \<le> Suc (nat (shp_numshapes (view s)))" using s(3) by simp
  then show ?thesis
    using cursor.read_to_end [OF writable_vsi.driver_cursor [OF assms(1)] s(4)] s(1,2) by blast
qed


section \<open>A layer on a disk\<close>

definition demo_dbf :: "named_file DBFInfo" where
  "demo_dbf = snd (the (msDBFWriteStringAttribute stdio_rw
     (snd (msDBFAddField (\<lambda>_. 0) (the (msDBFCreate (Some \<lparr>content = [0], pos = 0, file_name = ''a.dbf''\<rparr>))) ''NAME'' FTString 3 0))
     0 0 ''ab''))"

definition demo_layer :: "named_file shpLayer" where
  "demo_layer = \<lparr>layerinfo = None, iteminfo = None, items = [], encoding = None, layer_data = Some ''a.shp'', gml_metadata = msCreateHashTable,
     map_paths = Some (None, None), projection_args = []\<rparr>"


definition demo_gdal :: gdal_prj where
  "demo_gdal = \<lparr>CPLResetExtension = \<lambda>n e. n, projection_of_prj = \<lambda>_. None\<rparr>"

definition demo_disk :: "string \<rightharpoonup> byte list" where
  "demo_disk =
     (case msSHPCreate stdio_rw map_disk (\<lambda>_. 9) False Map.empty ''a.shp'' 5 of
        (h, fs, _) \<Rightarrow> msSHPClose stdio_rw map_disk False (the (write_shapes stdio_rw (\<lambda>_. 9) (\<lambda>_ _. 7) False (the h) [triangle]))
          (close_dbf stdio_rw map_disk (\<lambda>_. 0) fs demo_dbf))"

definition demo_opened :: "named_file shpLayer" where
  "demo_opened = fst (snd (msSHPLayerOpen stdio_rw map_disk demo_gdal (\<lambda>_. 8) (\<lambda>_. 3) True demo_disk demo_layer))"

lemma demo_search:
  "map_option fst (msSHPLayerWhichShapes 1 True Map.empty demo_opened zero_rect False) = Some MS_SUCCESS"
  by code_simp

lemma demo_reached:
  "new_layer demo_layer" "\<exists>fs. driver_step stdio_rw map_disk demo_gdal True (demo_layer, demo_disk) (demo_opened, fs)"
proof -
  show "new_layer demo_layer" by (simp add: new_layer_def demo_layer_def)
  obtain rc l fs es where "msSHPLayerOpen stdio_rw map_disk demo_gdal (\<lambda>_. 8) (\<lambda>_. 3) True demo_disk demo_layer = (rc, l, fs, es)"
    by (cases "msSHPLayerOpen stdio_rw map_disk demo_gdal (\<lambda>_. 8) (\<lambda>_. 3) True demo_disk demo_layer")
  then show "\<exists>fs. driver_step stdio_rw map_disk demo_gdal True (demo_layer, demo_disk) (demo_opened, fs)"
    using call_open by (fastforce simp: demo_opened_def)
qed

theorem driver_safe_witness:
  "layer_ok True content demo_opened \<and> msSHPLayerNextShape stdio_rw True demo_opened \<noteq> None
    \<and> msSHPLayerGetShape stdio_rw True demo_opened 7 \<noteq> None"
proof -
  obtain fs where "(driver_step stdio_rw map_disk demo_gdal True)\<^sup>*\<^sup>* (demo_layer, demo_disk) (demo_opened, fs)"
    using demo_reached(2) by blast
  from driver_safe [OF stdio_rw.writable_vsi_axioms demo_reached(1) this] show ?thesis by blast
qed

theorem scan_ends_witness:
  "\<exists>l es n xs l2. msSHPLayerWhichShapes 1 True Map.empty demo_opened zero_rect False = Some (MS_SUCCESS, l, es)
    \<and> read_on (msSHPLayerNextShape stdio_rw True) n l = Some (MS_DONE, xs, l2)"
proof -
  obtain fs where r: "(driver_step stdio_rw map_disk demo_gdal True)\<^sup>*\<^sup>* (demo_layer, demo_disk) (demo_opened, fs)"
    using demo_reached(2) by blast
  obtain l es where w: "msSHPLayerWhichShapes 1 True Map.empty demo_opened zero_rect False = Some (MS_SUCCESS, l, es)"
    using demo_search by auto
  from scan_ends [OF stdio_rw.writable_vsi_axioms demo_reached(1) r w] w show ?thesis by blast
qed

end
