(* ===== verification/ShpQuery.thy ===== *)
theory ShpQuery
  imports ShpScan
begin

text \<open>
  What a query of a layer returns: over files that hold shapes and a table, the driver is an exact
  cursor. The loop over it gives, in order, every record that the search marked, with its
  geometry and the texts of its fields; and what the search marks is read off the shapes that
  were written.
\<close>

section \<open>The values of a record\<close>

definition row_values :: "'f DBFInfo \<Rightarrow> byte list \<Rightarrow> int list \<Rightarrow> string list" where
  "row_values d row js = map (\<lambda>j. field_text (pachFieldType d ! nat j) (field_bytes d (nat j) row)) js"

lemma row_values_layout: "same_layout d e \<Longrightarrow> row_values d = row_values e"
  by (simp add: row_values_def fun_eq_iff field_bytes_layout) (simp add: same_layout_def)

lemma same_layout_trans: "same_layout d e \<Longrightarrow> same_layout e f \<Longrightarrow> same_layout d f"
  by (simp add: same_layout_def)

lemma same_layout_fields: "same_layout d e \<Longrightarrow> nFields d = nFields e"
  by (simp add: same_layout_def nFields_def)

text \<open>The indexes of the items of a layer name fields.\<close>

definition items_valid :: "nat \<Rightarrow> 'f shpLayer \<Rightarrow> int list \<Rightarrow> bool" where
  "items_valid n l js \<longleftrightarrow>
     (items l = [] \<or> iteminfo l = Some js) \<and> length js = length (items l) \<and> (\<forall>j\<in>set js. 0 \<le> j \<and> j < int n)"

definition item_texts :: "'f DBFInfo \<Rightarrow> byte list \<Rightarrow> int list \<Rightarrow> string list option" where
  "item_texts d row js = (if js = [] then None else Some (row_values d row js))"

text \<open>The feature of a record.\<close>

definition feature_of :: "int \<Rightarrow> shapeObj list \<Rightarrow> 'f DBFInfo \<Rightarrow> byte list list \<Rightarrow> int list \<Rightarrow> nat \<Rightarrow> featureObj" where
  "feature_of ty ss d rows js i = with_values (stored_shape ty (int i) (ss ! i)) (item_texts d (rows ! i) js)"

lemma stored_shape_simps [simp]: "shape_type (stored_shape ty i s) \<noteq> MS_SHAPE_NULL" "index (stored_shape ty i s) = i"
  by (simp_all add: stored_shape_def)

context writable_vsi
begin

lemma value_list_texts:
  assumes "dbf_ok (bytes (fp d)) d" and "int r < nRecords d" and "\<forall>j\<in>set js. 0 \<le> j \<and> j < int (nFields d)"
  shows "\<exists>d'. value_list ops d (int r) js = Some (Some (row_values d (table_rows (bytes (fp d)) d ! r) js), d', [])
    \<and> dbf_ok (bytes (fp d')) d' \<and> table_rows (bytes (fp d')) d' = table_rows (bytes (fp d)) d \<and> same_layout d' d"
  using assms
proof (induction js arbitrary: d)
  case Nil
  then show ?case by (simp add: row_values_def same_layout_def)
next
  case (Cons j js)
  have j: "nat j < nFields d" "int (nat j) = j" using Cons.prems(3) by auto
  from read_attribute [OF Cons.prems(1) j(1) Cons.prems(2)] obtain d1 where
    d1: "msDBFReadAttribute ops d (int r) j
      = Some (Some (field_text (pachFieldType d ! nat j) (field_bytes d (nat j) (table_rows (bytes (fp d)) d ! r))), d1, [])"
    "dbf_ok (bytes (fp d1)) d1" "table_rows (bytes (fp d1)) d1 = table_rows (bytes (fp d)) d" "same_layout d1 d"
    unfolding j(2) by blast
  have "nRecords d1 = nRecords d"
    using arg_cong [OF d1(3), of length] dbf_okD(2) [OF d1(2)] dbf_okD(2) [OF Cons.prems(1)] by simp
  then obtain d2 where "value_list ops d1 (int r) js = Some (Some (row_values d1 (table_rows (bytes (fp d1)) d1 ! r) js), d2, [])"
    "dbf_ok (bytes (fp d2)) d2" "table_rows (bytes (fp d2)) d2 = table_rows (bytes (fp d1)) d1" "same_layout d2 d1"
    using Cons.IH [OF d1(2)] Cons.prems(2,3) same_layout_fields [OF d1(4)] by auto
  then show ?case
    using d1 row_values_layout [OF d1(4)] same_layout_trans [of d2 d1 d]
    by (simp add: msDBFReadStringAttribute_def) (simp add: row_values_def)
qed

text \<open>A layer over files that hold the shapes \<open>ss\<close> and the records \<open>rows\<close> of a table laid out as \<open>d0\<close>.\<close>

definition layer_holds :: "bool \<Rightarrow> int \<Rightarrow> shapeObj list \<Rightarrow> 'f DBFInfo \<Rightarrow> byte list list \<Rightarrow> int list \<Rightarrow> 'f shpLayer \<Rightarrow> bool" where
  "layer_holds be ty ss d0 rows js l \<longleftrightarrow>
     (\<exists>s d. layerinfo l = Some s \<and> shapefile_ok be bytes s \<and> reads_list be (hSHP s) ss \<and> nShapeType (hSHP s) = ty
        \<and> hDBF s = Some d \<and> dbf_ok (bytes (fp d)) d \<and> table_rows (bytes (fp d)) d = rows \<and> same_layout d d0)
     \<and> items_valid (nFields d0) l js \<and> length ss \<le> length rows"

lemma item_values_texts:
  assumes d: "dbf_ok (bytes (fp d)) d" "table_rows (bytes (fp d)) d = rows" "same_layout d d0"
    and js: "items_valid (nFields d0) l js" and r: "r < length rows"
  shows "\<exists>d'. item_values ops l (Some d) (int r) = Some (item_texts d0 (rows ! r) js, Some d', [])
    \<and> dbf_ok (bytes (fp d')) d' \<and> table_rows (bytes (fp d')) d' = rows \<and> same_layout d' d0"
proof (cases "items l = []")
  case True
  then show ?thesis using d js by (auto simp: item_values_def items_valid_def item_texts_def)
next
  case False
  have "int r < nRecords d" using r d(2) dbf_okD(2) [OF d(1)] by auto
  moreover have "\<forall>j\<in>set js. 0 \<le> j \<and> j < int (nFields d)" using js same_layout_fields [OF d(3)] by (simp add: items_valid_def)
  ultimately obtain d' where "value_list ops d (int r) js = Some (Some (row_values d (rows ! r) js), d', [])"
    "dbf_ok (bytes (fp d')) d'" "table_rows (bytes (fp d')) d' = rows" "same_layout d' d"
    using value_list_texts [OF d(1)] d(2) by blast
  moreover have "js \<noteq> []" "iteminfo l = Some js" "length js = length (items l)" using js False by (auto simp: items_valid_def)
  ultimately show ?thesis
    using False row_values_layout [OF d(3)] same_layout_trans [OF _ d(3)]
    by (auto simp: item_values_def msDBFGetValueList_def item_texts_def)
qed

lemma next_shape_exact:
  assumes "layer_holds be ty ss d0 rows js l" and "layerinfo l = Some s" and "shp_status (view s) = Some st"
  shows "(\<exists>i l' es. first_from (msGetBit st) (nat (place l + 1)) (length ss) (int i)
           \<and> msSHPLayerNextShape ops be l = Some (MS_SUCCESS, Some (feature_of ty ss d0 rows js i), l', es)
           \<and> layer_holds be ty ss d0 rows js l')
      \<or> first_from (msGetBit st) (nat (place l + 1)) (length ss) (-1)
         \<and> (\<exists>l' es. msSHPLayerNextShape ops be l = Some (MS_DONE, None, l', es) \<and> layer_holds be ty ss d0 rows js l')"
proof -
  obtain d where h: "shapefile_ok be bytes s" "reads_list be (hSHP s) ss" "nShapeType (hSHP s) = ty" "hDBF s = Some d"
    and d: "dbf_ok (bytes (fp d)) d" "table_rows (bytes (fp d)) d = rows" "same_layout d d0"
    and js: "items_valid (nFields d0) l js" and len: "length ss \<le> length rows"
    using assms by (auto simp: layer_holds_def)
  have n: "shp_numshapes (view s) = int (length ss)" "bits_cover st (nat (shp_numshapes (view s)))"
    using h(1,2) assms(3) by (auto simp: shapefile_ok_def reads_list_def)
  have pl: "place l = lastshape (view s)" using assms(2) by (simp add: place_def)
  obtain i where i: "i = next_marked (view s) st" by simp
  note nxt = msSHPLayerNextShape.simps [of ops be l, unfolded assms(2) option.case assms(3) Let_def, folded i]
  have ff: "first_from (msGetBit st) (nat (place l + 1)) (length ss) i"
    using next_marked_first [OF n(2)] unfolding i pl n(1) by simp
  have keep: "items_valid (nFields d0) (l\<lparr>layerinfo := x\<rparr>) js" for x using js by (simp add: items_valid_def)
  show ?thesis
  proof (cases "i = -1")
    case True
    have "layer_holds be ty ss d0 rows js (l\<lparr>layerinfo := Some (seek_shape (-1) s)\<rparr>)"
      using h d keep len by (auto simp: layer_holds_def seek_shape_def shapefile_ok_def)
    then show ?thesis using nxt True ff by auto
  next
    case False
    obtain k where k: "i = int k" "k < length ss" using ff False by (auto simp: first_from_def)
    obtain h' where r: "msSHPReadShape ops be (hSHP s) i = Some (stored_shape ty i (ss ! k), h', [])"
      "reads_list be h' ss" "nShapeType h' = ty"
      using read_listed [OF h(2) k(2)] h(3) k(1) by auto
    obtain d' where v: "item_values ops l (Some d) i = Some (item_texts d0 (rows ! k) js, Some d', [])"
      "dbf_ok (bytes (fp d')) d'" "table_rows (bytes (fp d')) d' = rows" "same_layout d' d0"
      using item_values_texts [OF d js, of k] k len by auto
    have "items_ready l" "table_ok d" using js h(1,4) by (auto simp: items_ready_def items_valid_def shapefile_ok_def)
    then have tok: "table_ok d'" using item_values_ready [of l d ops i] v(1) by auto
    have "shapefile_ok be bytes (seek_shape i s\<lparr>hSHP := h', hDBF := Some d'\<rparr>)"
    proof -
      have "shx_inv be bytes h'" "SHPInfo.nRecords h' = SHPInfo.nRecords (hSHP s)" "i = -1 \<or> 0 \<le> i \<and> i < shp_numshapes (view s)"
        using r(2) h(2) k n(1) by (simp_all add: reads_list_def)
      then show ?thesis by (intro shapefile_ok_seek [OF h(1)]) (simp_all add: tok)
    qed
    then have "layer_holds be ty ss d0 rows js (l\<lparr>layerinfo := Some (seek_shape i s\<lparr>hSHP := h', hDBF := Some d'\<rparr>)\<rparr>)"
      using r v keep len by (auto simp: layer_holds_def)
    then show ?thesis
      using nxt False r(1) v(1) h(4) k(1) ff by (auto simp: feature_of_def)
  qed
qed

lemma exact_driver:
  "exact_cursor (msSHPLayerNextShape ops be)
     (\<lambda>l. reading be bytes ty st (int (length ss)) l \<and> layer_holds be ty ss d0 rows js l) place index (fit_feature ty st) (int (length ss))
     (msGetBit st) (feature_of ty ss d0 rows js)"
proof unfold_locales
  fix l
  assume inv: "reading be bytes ty st (int (length ss)) l \<and> layer_holds be ty ss d0 rows js l"
  then obtain s where s: "layerinfo l = Some s" "shp_status (view s) = Some st" by (auto simp: reading_def)
  have "index (feature_of ty ss d0 rows js i) = int i" for i by (simp add: feature_of_def)
  then show "(\<exists>i s' es. first_from (msGetBit st) (nat (place l + 1)) (nat (int (length ss))) (int i)
      \<and> index (feature_of ty ss d0 rows js i) = int i
      \<and> msSHPLayerNextShape ops be l = Some (MS_SUCCESS, Some (feature_of ty ss d0 rows js i), s', es))
    \<or> first_from (msGetBit st) (nat (place l + 1)) (nat (int (length ss))) (- 1)
      \<and> (\<exists>s' es. msSHPLayerNextShape ops be l = Some (MS_DONE, None, s', es))"
    using next_shape_exact [OF conjunct2 [OF inv] s] by (simp only: nat_int) blast
  have holds: "layer_holds be ty ss d0 rows js l'" if "msSHPLayerNextShape ops be l = Some (rc, a, l', es)" for rc a l' es
    using next_shape_exact [OF conjunct2 [OF inv] s] that by auto
  from next_shape_step [OF conjunct1 [OF inv]] holds
  show "(\<exists>a s' es. msSHPLayerNextShape ops be l = Some (MS_SUCCESS, Some a, s', es)
        \<and> (reading be bytes ty st (int (length ss)) s' \<and> layer_holds be ty ss d0 rows js s')
        \<and> place l < index a \<and> index a < int (length ss) \<and> place s' = index a \<and> fit_feature ty st a)
      \<or> (\<exists>s' es. msSHPLayerNextShape ops be l = Some (MS_DONE, None, s', es)
        \<and> reading be bytes ty st (int (length ss)) s' \<and> layer_holds be ty ss d0 rows js s')"
    by blast
qed

end

interpretation stdio_exact: exact_cursor "msSHPLayerNextShape stdio_rw be"
  "\<lambda>l. reading be content ty st (int (length ss)) l \<and> stdio_rw.layer_holds be ty ss d0 rows js l" place index "fit_feature ty st"
  "int (length ss)" "msGetBit st" "feature_of ty ss d0 rows js"
  for be ty st ss d0 rows js
  by (rule stdio_rw.exact_driver)


section \<open>What a search marks\<close>

lemma record_holds: "record_bytes c off siz = Some r \<Longrightarrow> holds r k bs \<Longrightarrow> holds c (off + k) bs"
  by (auto simp: record_bytes_def holds_def peek_def drop_take min_def add.commute split: if_splits)

lemma rect_of_bytes: "holds c p (put_rect False False e) \<Longrightarrow> p + 32 \<le> length c \<and> get_rect be be (take 32 (drop p c)) = e"
  using holds_rect [of c p False e be] by (auto simp: ReadRect_def peek_def split: if_splits)

lemma double_of_bytes: "holds c p (le_bytes 8 d) \<Longrightarrow> p + 8 \<le> length c \<and> shp_double be (drop p c) 0 = d"
  using holds_double [of c p d be] by (auto simp: peek_double_def peek_def shp_double_def split: if_splits)

lemma holds_point_halves: "holds c p (point_bytes v) \<Longrightarrow> holds c p (le_bytes 8 (px v)) \<and> holds c (p + 8) (le_bytes 8 (py v))"
  using holds_part [of c p "point_bytes v" 0 8] holds_part [of c p "point_bytes v" 8 8] by (simp add: point_bytes_def)

lemma stored_bounds:
  assumes h: "holds_shape ty c off siz s" and s: "writable_shape ty s" and ty: "plain_type ty"
    and nan: "\<not> f64_nan (minx (stored_extent (line s)))"
  shows "bounds_at be c ty (nat off + 12) = Some (stored_extent (line s))"
proof -
  obtain r where r: "record_bytes c (nat off) (nat siz) = Some r" "geometry_blocks ty (line s) r" using h by (auto simp: holds_shape_def)
  show ?thesis
  proof (cases "ty = 1")
    case False
    then have "holds r 12 (put_rect False False (stored_extent (line s)))" "\<not> is_point_type ty"
      using r(2) ty by (auto simp: geometry_blocks_def poly_blocks_def part_blocks_def plain_type_def is_point_type_def poly_type_def split: if_splits)
    then show ?thesis using rect_of_bytes [OF record_holds [OF r(1)], of 12 _ be] nan by (auto simp: bounds_at_def Let_def)
  next
    case True
    then obtain v where v: "line s = [[v]]" using s by (auto simp: writable_shape_def length_Suc_conv)
    have "holds r 12 (point_bytes v)" using r(2) True v by (simp add: geometry_blocks_def)
    from holds_point_halves [OF record_holds [OF r(1) this]]
    have "nat off + 12 + 8 + 8 \<le> length c" "shp_double be (drop (nat off + 12) c) 0 = px v" "shp_double be (drop (nat off + 12 + 8) c) 0 = py v"
      using double_of_bytes [of c "nat off + 12" "px v" be] double_of_bytes [of c "nat off + 12 + 8" "py v" be] by auto
    then show ?thesis
      using True v by (simp add: bounds_at_def is_point_type_def stored_extent_def shape_extent_def first_vertex_def extend_same)
        (simp add: shp_double_def add.commute)
  qed
qed

context posix_vsi
begin

lemma listed_bounds:
  assumes ok: "reads_list be h ss" and i: "i < length ss" and nan: "\<not> f64_nan (minx (stored_extent (line (ss ! i))))"
  shows "read_bounds (open_view ops be h nm) (int i) = Some (stored_extent (line (ss ! i)))"
proof -
  obtain off siz where e: "shx_entry be (bytes (fpSHX h)) (SHPInfo.nRecords h) i = (off, siz)" by fastforce
  have s: "holds_shape (nShapeType h) (bytes (fpSHP h)) off siz (ss ! i)" "writable_shape (nShapeType h) (ss ! i)"
    "plain_type (nShapeType h)" and n: "int i < SHPInfo.nRecords h" and inv: "shx_inv be bytes h" and len: "length (bytes (fpSHP h)) < 2 ^ 31"
    using ok i e by (auto simp: reads_list_def)
  have sz: "20 \<le> siz" "100 \<le> off" "off < 2147483635"
    using s(1) len record_size_pos [of "nShapeType h" "line (ss ! i)"]
    by (auto simp: holds_shape_def record_bytes_def split: if_splits)
  have "file_bounds be (bytes (fpSHP h)) (bytes (fpSHX h)) (SHPInfo.nRecords h) (nShapeType h) i = Some (stored_extent (line (ss ! i)))"
    using e sz stored_bounds [OF s nan, of be] by (simp add: file_bounds_def)
  moreover obtain st r h' es where "msSHPReadBounds ops be h (int i) rect0 = (st, r, h', es)"
    "(if st = MS_SUCCESS then Some r else None) = file_bounds be (bytes (fpSHP h)) (bytes (fpSHX h)) (SHPInfo.nRecords h) (nShapeType h) i"
    using msSHPReadBounds_spec [OF inv, of "int i" rect0] n by auto
  ultimately show ?thesis by (simp add: open_view_def)
qed

end

text \<open>Without an index and with bounds for every record, a search marks what overlaps, or everything.\<close>

lemma scan_all_readable:
  assumes "\<forall>i\<in>set is. read_bounds v i \<noteq> None"
  shows "\<exists>st'. scan_shapes v rect is st = (MS_SUCCESS, st')"
  using assms by (induction "is" arbitrary: st) auto

lemma which_without_index:
  assumes over: "msRectOverlap (shp_bounds v) rect" and none: "msSHPDiskTreeOpen be idx (index_name (source v)) = None"
    and all: "\<forall>j<nat (shp_numshapes v). read_bounds v (int j) = Some (B j)"
  shows "\<exists>v' st es. msShapefileWhichShapes fuel be idx v rect debug = Some (MS_SUCCESS, v', es) \<and> shp_status v' = Some st
    \<and> (\<forall>j<nat (shp_numshapes v). msGetBit st j = (msRectContained (shp_bounds v) rect \<or> msRectOverlap (B j) rect))"
proof (cases "msRectContained (shp_bounds v) rect")
  case True
  have "msGetBit (msSetAllBits (msAllocBitArray n) n True) j" if "j < n" for n j
    using that bits_coverD [OF msAllocBitArray_cover that] by (simp add: msGetBit_msSetAllBits)
  then show ?thesis using over True by (auto simp: msShapefileWhichShapes_def Let_def)
next
  case False
  let ?n = "nat (shp_numshapes v)"
  obtain st where st: "scan_shapes v rect (map int [0..<?n]) (msAllocBitArray ?n) = (MS_SUCCESS, st)"
    using scan_all_readable [of "map int [0..<?n]" v rect] all by fastforce
  have "\<forall>j<?n. msGetBit st j = (msGetBit (msAllocBitArray ?n) j \<or> int j \<in> set (map int [0..<?n])
      \<and> (\<exists>b. read_bounds v (int j) = Some b \<and> msRectOverlap b rect))"
    by (rule scan_shapes_get [OF st]) auto
  then show ?thesis using over False none st all
    by (auto simp: msShapefileWhichShapes_def msSearchDiskTree_def Let_def)
qed


section \<open>Opening what was written\<close>

text \<open>The names of the fields of a table.\<close>

definition field_names :: "'f DBFInfo \<Rightarrow> string list" where
  "field_names d = map (\<lambda>i. fst (snd (msDBFGetFieldInfo d (int i)))) [0..<nFields d]"

lemma field_names_layout:
  assumes "same_layout d e"
  shows "field_names d = field_names e"
proof -
  have "field_name (pszHeader d) i = field_name (pszHeader e) i" if "i < nFields e" for i
  proof -
    have t: "take (32 * nFields e) (pszHeader d) = take (32 * nFields e) (pszHeader e)"
      using assms same_layout_fields [OF assms] by (simp add: same_layout_def)
    have "take 11 (drop (32 * i) x) = take 11 (drop (32 * i) (take (32 * nFields e) x))" for x :: "byte list"
      using that by (simp add: drop_take min_absorb1)
    then have "take 11 (drop (32 * i) (pszHeader d)) = take 11 (drop (32 * i) (pszHeader e))" using t by metis
    then show ?thesis by (simp add: field_name_def)
  qed
  then show ?thesis using same_layout_fields [OF assms] by (simp add: field_names_def msDBFGetFieldInfo_def)
qed

lemma find_item_distinct:
  assumes "distinct (map lower (field_names d))" and "i < nFields d" and "i \<in> set is" and "\<forall>k\<in>set is. k < nFields d"
  shows "find_item d (field_names d ! i) is = int i"
  using assms(3,4)
proof (induction "is")
  case (Cons k "is")
  have nm: "fst (snd (msDBFGetFieldInfo d (int k))) = field_names d ! k" using Cons.prems(2) by (simp add: field_names_def)
  have "lower (field_names d ! i) = lower (field_names d ! k) \<longleftrightarrow> i = k"
    using nth_eq_iff_index_eq [OF assms(1), of i k] assms(2) Cons.prems(2) by (simp add: field_names_def)
  then show ?case using Cons nm by (auto simp: strcasecmp_eq_0)
qed simp

lemma all_item_indexes:
  assumes "distinct (map lower (field_names d))"
  shows "item_indexes d (map Some (field_names d)) = (Some (map int [0..<nFields d]), [])"
proof -
  have "item_indexes d (map (\<lambda>i. Some (field_names d ! i)) is) = (Some (map int is), [])" if "\<forall>k\<in>set is. k < nFields d" for "is"
    using that
  proof (induction "is")
    case (Cons k "is")
    then show ?case using find_item_distinct [OF assms, of k "[0..<nFields d]"] by (simp add: msDBFGetItemIndex_def Let_def)
  qed simp
  moreover have "map Some (field_names d) = map (\<lambda>i. Some (field_names d ! i)) [0..<nFields d]"
    by (rule nth_equalityI) (simp_all add: field_names_def)
  ultimately show ?thesis by simp
qed

lemma dbf_ok_encoding [simp]: "dbf_ok c (d\<lparr>pszEncoding := x\<rparr>) = dbf_ok c d"
  by (simp add: dbf_ok_def header_ok_def rows_ok_def layout_ok_def row_at_def nFields_def)

lemma dbf_encoding_rest [simp]: "table_rows c (d\<lparr>pszEncoding := x\<rparr>) = table_rows c d" "same_layout (d\<lparr>pszEncoding := x\<rparr>) e = same_layout d e"
  by (simp_all add: table_rows_def row_at_def same_layout_def nFields_def)

lemma dbf_name_dbf: "dbf_name (b @ ''.dbf'') = b @ ''.dbf''"
  by (simp add: dbf_name_def has_ext_def)

context disk_vsi
begin

lemma name_vseek: "name_of (vseek ops f n) = name_of f"
  by (simp add: keep_name)

lemma name_close_dbf: "name_of (fst (msDBFClose ops junk d)) = name_of (fp d)"
proof -
  have "name_of (fp (writeHeader ops e)) = name_of (fp e)" "name_of (fp (flushRecord ops e)) = name_of (fp e)" for e
    by (simp_all add: writeHeader_def flushRecord_def Let_def keep_name)
  then show ?thesis by (simp add: msDBFClose_def Let_def keep_name split: prod.split) (metis keep_name snd_conv)
qed

lemma close_other:
  "named name_of b h \<Longrightarrow> n \<noteq> b @ ''.shp'' \<Longrightarrow> n \<noteq> b @ ''.shx'' \<Longrightarrow> disk (msSHPClose ops dsk be h fs) n = disk fs n"
  by (simp add: msSHPClose_def Let_def close_file named_def writeHeader_shp_def keep_name)

lemma open_dbf:
  assumes "disk fs (b @ ''.dbf'') = Some c" and "closed_file c d" and "nFields d \<noteq> 0"
  shows "\<exists>d'. msDBFOpen ops junk (\<lambda>n m. fst (VSIFOpenL dsk fs n m)) cpg (b @ ''.dbf'') ''rb'' = Some d' \<and> dbf_ok (bytes (fp d')) d'
    \<and> table_rows (bytes (fp d')) d' = map (row_at d c) [0..<nat (nRecords d)] \<and> same_layout d' d"
proof -
  obtain g where g: "VSIFOpenL dsk fs (b @ ''.dbf'') ''rb'' = (Some g, fs)" "bytes g = c" "at g = 0"
    using open_old [OF _ assms(1), of "''rb''"] by auto
  obtain d' where "msDBFOpenVirtualFile ops junk g = Some d'" "dbf_ok (bytes (fp d')) d'" "same_layout d' d"
    "table_rows (bytes (fp d')) d' = map (row_at d c) [0..<nat (nRecords d)]"
    using open_table [of g d junk] assms(2,3) g(2,3) by auto
  then show ?thesis using g(1) by (simp add: msDBFOpen_def Let_def dbf_name_dbf)
qed

end


context disk_vsi
begin

text \<open>The shapefile that opens over the two parts, written and closed.\<close>

definition stored_shapefile :: "bool \<Rightarrow> int \<Rightarrow> shapeObj list \<Rightarrow> 'f DBFInfo \<Rightarrow> byte list list \<Rightarrow> string \<Rightarrow> 'f shapefile \<Rightarrow> bool" where
  "stored_shapefile be ty ss d rows path s \<longleftrightarrow>
     shapefile_ok be bytes s \<and> reads_list be (hSHP s) ss \<and> nShapeType (hSHP s) = ty
     \<and> (adBoundsMin (hSHP s), adBoundsMax (hSHP s)) = file_extent ss
     \<and> view s = open_view ops be (hSHP s) (take 1023 path)
     \<and> (\<exists>e. hDBF s = Some e \<and> dbf_ok (bytes (fp e)) e \<and> table_rows (bytes (fp e)) e = rows \<and> same_layout e d)"

lemma open_stored:
  assumes shp: "shp_ok bytes at h ss" "ss \<noteq> []" "named name_of (base_name path) h" "nFileSize h < 2147483646"
    and dbf: "disk fs (base_name path @ ''.dbf'') = Some c" "closed_file c d" "nFields d \<noteq> 0"
  shows "\<exists>s. msShapefileOpen ops dsk junk junkb be' (msSHPClose ops dsk be h fs) (Some ''rb'') (Some path) log
      = (0, Some s, msSHPClose ops dsk be h fs, [])
    \<and> stored_shapefile be' (nShapeType h) ss d (map (row_at d c) [0..<nat (nRecords d)]) path s"
proof -
  let ?fs = "msSHPClose ops dsk be h fs" and ?b = "base_name path"
  obtain h2 where h2: "msSHPOpen ops dsk junk be' ?fs path ''rb'' = (Some h2, ?fs, [])" "reads_list be' h2 ss"
    "nShapeType h2 = nShapeType h" "(adBoundsMin h2, adBoundsMax h2) = file_extent ss"
    using reopen_ok [OF shp, of junk be' be fs "''rb''"] by blast
  have "disk ?fs (?b @ ''.dbf'') = Some c" using close_other [OF shp(3)] dbf(1) by simp
  then obtain e where e: "msDBFOpen ops junkb (\<lambda>n m. fst (VSIFOpenL dsk ?fs n m)) (read_cpg ops dsk ?fs) (?b @ ''.dbf'') ''rb'' = Some e"
    "dbf_ok (bytes (fp e)) e" "table_rows (bytes (fp e)) e = map (row_at d c) [0..<nat (nRecords d)]" "same_layout e d"
    using open_dbf [OF _ dbf(2,3), of ?fs ?b junkb "read_cpg ops dsk ?fs"] by blast
  have n: "SHPInfo.nRecords h2 = int (length ss)" "int (length ss) \<le> 256000000" "shx_inv be' bytes h2"
    using h2(2) msSHPOpen_handle [OF h2(1)] shp(1) by (auto simp: reads_list_def shp_ok_def)
  let ?s = "\<lparr>view = open_view ops be' h2 (take 1023 path), shp_kind = nShapeType h2, hSHP = h2, hDBF = Some e, isopen = True\<rparr>"
  have "open_handle ops dsk junkb be' ?fs path h2 e = (0, Some ?s, ?fs, [])"
    using n by (simp add: open_handle_def msShapefileOpenHandle_def Let_def open_view_def msSHPGetInfo_def)
  then have "msShapefileOpen ops dsk junk junkb be' ?fs (Some ''rb'') (Some path) log = (0, Some ?s, ?fs, [])"
    using h2(1) e(1) by (simp add: msShapefileOpen_def Let_def)
  moreover have "shapefile_ok be' bytes ?s"
    using n msDBFOpen_table [OF e(1)] by (simp add: shapefile_ok_def open_view_def msSHPGetInfo_def)
  ultimately show ?thesis using h2 e by (auto simp: stored_shapefile_def)
qed

lemma open_layer:
  assumes "msShapefileOpen ops dsk junk junkb be fs (Some ''rb'') (Some path) True = (0, Some s, fs, [])"
    and "layerinfo l = None" and "map_paths l = Some (mp, sp)" and "msBuildPath3 mp sp (layer_data l) = (es, Some path)"
  shows "\<exists>l'. msSHPLayerOpen ops dsk gdal junk junkb be fs l = (MS_SUCCESS, l', fs, es) \<and> layerinfo l' = Some s"
  using assms by (simp add: msSHPLayerOpen_def open_either_def Let_def)

lemma all_items:
  assumes "layerinfo l = Some s" and "stored_shapefile be ty ss d rows path s" and "nFields d \<noteq> 0"
    and "distinct (map lower (field_names d))" and "length ss \<le> length rows"
  shows "\<exists>l' es. msSHPLayerGetItems l = Some (MS_SUCCESS, l', es) \<and> items l' = field_names d \<and> layerinfo l' = Some s
    \<and> layer_ok be bytes l' \<and> layer_holds be ty ss d rows (map int [0..<nFields d]) l'"
proof -
  obtain e where e: "hDBF s = Some e" "dbf_ok (bytes (fp e)) e" "table_rows (bytes (fp e)) e = rows" "same_layout e d"
    using assms(2) by (auto simp: stored_shapefile_def)
  have nf: "nFields e = nFields d" "field_names e = field_names d"
    using same_layout_fields [OF e(4)] field_names_layout [OF e(4)] by auto
  then have nf': "distinct (map lower (field_names e))" "field_names e \<noteq> []" using assms(3,4) by (simp_all, simp add: field_names_def)
  have names: "msDBFGetItems e = (Some (field_names e), [])"
    using assms(3) nf(1) by (simp add: msDBFGetItems_def field_names_def)
  have idx: "msDBFGetItemIndexes e (map Some (field_names e)) = (Some (map int [0..<nFields d]), [])"
    using all_item_indexes [OF nf'(1)] nf(1) nf'(2) by (simp add: msDBFGetItemIndexes_def)
  have "\<exists>l' es. msSHPLayerGetItems l = Some (MS_SUCCESS, l', es) \<and> items l' = field_names d
      \<and> iteminfo l' = Some (map int [0..<nFields d]) \<and> layerinfo l' = Some s"
    using assms(1) e(1) names idx nf(2)
    by (auto simp: msSHPLayerGetItems_def msSHPLayerInitItemInfo_def msSHPLayerFreeItemInfo_def Let_def split: prod.split)
  then obtain l' es where l': "msSHPLayerGetItems l = Some (MS_SUCCESS, l', es)" "items l' = field_names d"
    "iteminfo l' = Some (map int [0..<nFields d])" "layerinfo l' = Some s" by blast
  have "length (field_names d) = nFields d" by (simp add: field_names_def)
  then have "layer_ok be bytes l'" "layer_holds be ty ss d rows (map int [0..<nFields d]) l'"
    using l' e assms(2,5) by (auto simp: layer_ok_def items_ready_def layer_holds_def items_valid_def stored_shapefile_def)
  then show ?thesis using l' by blast
qed

text \<open>A search of that layer and the scan behind it.\<close>

lemma search_stored:
  assumes l: "layerinfo l = Some s" "stored_shapefile be ty ss d rows path s" "layer_ok be bytes l" "layer_holds be ty ss d rows js l"
    and nan: "\<forall>s\<in>set ss. \<not> f64_nan (minx (stored_extent (line s)))"
    and none: "msSHPDiskTreeOpen be idx (index_name (take 1023 path)) = None"
    and over: "msRectOverlap (shp_bounds (view s)) rect"
  shows "\<exists>l1 es l2. msSHPLayerWhichShapes fuel be idx l rect debug = Some (MS_SUCCESS, l1, es)
    \<and> read_on (msSHPLayerNextShape ops be) (Suc (length ss)) l1 = Some (MS_DONE, map (feature_of ty ss d rows js)
        (filter (\<lambda>i. msRectContained (shp_bounds (view s)) rect \<or> msRectOverlap (stored_extent (line (ss ! i))) rect) [0..<length ss]), l2)"
proof -
  have v: "view s = open_view ops be (hSHP s) (take 1023 path)" and rl: "reads_list be (hSHP s) ss" using l(2) by (auto simp: stored_shapefile_def)
  have n: "shp_numshapes (view s) = int (length ss)" using v rl by (simp add: open_view_def msSHPGetInfo_def reads_list_def)
  have "\<forall>j<nat (shp_numshapes (view s)). read_bounds (view s) (int j) = Some (stored_extent (line (ss ! j)))"
    using listed_bounds [OF rl] nan n v by simp
  from which_without_index [OF over _ this, of be idx fuel debug] none obtain v' st es where
    w: "msShapefileWhichShapes fuel be idx (view s) rect debug = Some (MS_SUCCESS, v', es)" "shp_status v' = Some st"
    and mark: "\<forall>j<length ss. msGetBit st j = (msRectContained (shp_bounds (view s)) rect \<or> msRectOverlap (stored_extent (line (ss ! j))) rect)"
    using n v by (auto simp: open_view_def)
  let ?l1 = "l\<lparr>layerinfo := Some (s\<lparr>view := v'\<rparr>)\<rparr>"
  have w1: "msSHPLayerWhichShapes fuel be idx l rect debug = Some (MS_SUCCESS, ?l1, es)"
    using w(1) l(1) by (simp add: msSHPLayerWhichShapes_def)
  note wv = which_shapes_view [OF w(1)]
  have ok: "layer_ok be bytes ?l1" using which_ok [OF l(3) w1] by simp
  then have "reading be bytes ty st (int (length ss)) ?l1"
    using l(2) w(2) wv n by (simp add: reading_def stored_shapefile_def)
  moreover have "layer_holds be ty ss d rows js ?l1"
    using l(1,4) ok by (auto simp: layer_holds_def layer_ok_def items_valid_def)
  ultimately have inv: "reading be bytes ty st (int (length ss)) ?l1 \<and> layer_holds be ty ss d rows js ?l1" ..
  have pl: "place ?l1 = -1" "nat (int (length ss) - place ?l1) \<le> Suc (length ss)" using wv by (simp_all add: place_def)
  obtain l2 where "read_on (msSHPLayerNextShape ops be) (Suc (length ss)) ?l1
      = Some (MS_DONE, map (feature_of ty ss d rows js) (filter (msGetBit st) [nat (place ?l1 + 1)..<nat (int (length ss))]), l2)"
    using exact_cursor.read_exactly [OF exact_driver inv pl(2)] by blast
  moreover have "filter (msGetBit st) [0..<length ss]
      = filter (\<lambda>i. msRectContained (shp_bounds (view s)) rect \<or> msRectOverlap (stored_extent (line (ss ! i))) rect) [0..<length ss]"
    using mark by (intro filter_cong) auto
  ultimately show ?thesis using w1 unfolding pl(1) by (auto simp del: read_on.simps)
qed

end


section \<open>Properties\<close>

definition extent_rect :: "shapeObj list \<Rightarrow> rectObj" where
  "extent_rect ss = (case file_extent ss of (lo, hi) \<Rightarrow> \<lparr>minx = lo ! 0, miny = lo ! 1, maxx = hi ! 0, maxy = hi ! 1\<rparr>)"

definition record_texts :: "'f DBFInfo \<Rightarrow> byte list \<Rightarrow> string list" where
  "record_texts d row = map (\<lambda>j. field_text (pachFieldType d ! j) (field_bytes d j row)) [0..<nFields d]"

lemma feature_all: "nFields d \<noteq> 0 \<Longrightarrow>
  feature_of ty ss d rows (map int [0..<nFields d]) i = with_values (stored_shape ty (int i) (ss ! i)) (Some (record_texts d (rows ! i)))"
  by (simp add: feature_of_def item_texts_def row_values_def record_texts_def comp_def)

text \<open>C4. A query of a shapefile layer without a spatial index returns what was stored. Shapes written to a
  new shapefile, and a table of the same name with at least one record for each, both closed, are opened by
  \<open>msSHPLayerOpen\<close> under the path that the layer and its map give; \<open>msSHPLayerGetItems\<close> finds the
  fields of the table; and for a rectangle that meets the extent of the shapes the search succeeds and
  the loop over \<open>msSHPLayerNextShape\<close> returns, in the order of the records, each shape whose
  bounds overlap the rectangle (all of them if it contains the extent), with the geometry that
  \<open>stored_shape\<close> describes (plane coordinates, and the heights where the type has them; for measured
  types the height stands in the place of the measure) and the texts of its record, and then
  \<open>MS_DONE\<close>; for another rectangle the search itself ends with \<open>MS_DONE\<close>.

  This holds when: the shapefile has a polygon or arc type, or the multipoint or point type without heights
  and measures; there is at least one shape; no shape is a null shape, each has at least one part and
  no empty part, at most 50000000 vertices and 10000000 parts, a multipoint exactly one part, a point one
  part of one vertex; the smallest abscissa of no shape is a NaN; the shapefile stays below
  2147483646 bytes; the handle of the table satisfies \<open>dbf_ok\<close>, and the table has at least one field and
  field names that differ when case is ignored; the layer is new and has no items; and no index file
  (.qix) can be opened beside the shapefile. The file system is any that satisfies \<open>disk_vsi\<close>; the host
  that reads may have another byte order than the one that wrote, and fresh memory may contain
  anything.\<close>

theorem layer_query:
  assumes D: "disk_vsi ops bytes at dsk disk name_of"
    and made: "msSHPCreate ops dsk junk be fs path ty = (Some h, fs1, es)" "plain_type ty"
      "write_shapes ops junk fresh be h ss = Some h1"
    and shapes: "ss \<noteq> []" "\<forall>s\<in>set ss. writable_shape ty s \<and> \<not> f64_nan (minx (stored_extent (line s)))" "file_need ty ss < 2147483646"
    and table: "dbf_ok (bytes (fp d)) d" "name_of (fp d) = base_name path @ ''.dbf''" "nFields d \<noteq> 0"
      "distinct (map lower (field_names d))" "length ss \<le> nat (nRecords d)"
    and l: "new_layer l" "map_paths l = Some (mp, sp)" "msBuildPath3 mp sp (layer_data l) = (es', Some path)"
    and none: "msSHPDiskTreeOpen be' idx (index_name (take 1023 path)) = None"
  shows "\<exists>l1 l2 es2. msSHPLayerOpen ops dsk gdal junk' junkb' be' (msSHPClose ops dsk be h1 (close_dbf ops dsk junkb fs1 d)) l
        = (MS_SUCCESS, l1, msSHPClose ops dsk be h1 (close_dbf ops dsk junkb fs1 d), es')
    \<and> msSHPLayerGetItems l1 = Some (MS_SUCCESS, l2, es2) \<and> items l2 = field_names d
    \<and> (if msRectOverlap (extent_rect ss) rect
       then \<exists>l3 es3 l4. msSHPLayerWhichShapes fuel be' idx l2 rect debug = Some (MS_SUCCESS, l3, es3)
         \<and> read_on (msSHPLayerNextShape ops be') (Suc (length ss)) l3 = Some (MS_DONE,
             map (\<lambda>i. with_values (stored_shape ty (int i) (ss ! i)) (Some (record_texts d (table_rows (bytes (fp d)) d ! i))))
               (filter (\<lambda>i. msRectContained (extent_rect ss) rect \<or> msRectOverlap (stored_extent (line (ss ! i))) rect) [0..<length ss]), l4)
       else \<exists>l3. msSHPLayerWhichShapes fuel be' idx l2 rect debug = Some (MS_DONE, l3, []))"
proof -
  have w: "writable_vsi ops bytes at" using D by (simp add: disk_vsi_def)
  note c = disk_vsi.created_ok [OF D made(1,2)]
  have "\<exists>h1. write_shapes ops junk fresh be h ss = Some h1 \<and> shp_ok bytes at h1 ss \<and> nShapeType h1 = ty
      \<and> named name_of (base_name path) h1 \<and> nFileSize h1 = file_need ty ss"
    using disk_vsi.write_shapes_ok [OF D, of h "[]" ss "base_name path" junk fresh be] c shapes(2,3) by (auto simp: file_need_def)
  then have h1: "shp_ok bytes at h1 ss" "nShapeType h1 = ty" "named name_of (base_name path) h1" "nFileSize h1 < 2147483646"
    using made(3) shapes(3) by auto
  let ?g = "fst (msDBFClose ops junkb d)" and ?fs0 = "close_dbf ops dsk junkb fs1 d" and ?rows = "table_rows (bytes (fp d)) d"
  have g: "closed_file (bytes ?g) d" "map (row_at d (bytes ?g)) [0..<nat (nRecords d)] = ?rows"
    using writable_vsi.close_table [OF w table(1,3), of junkb] by auto
  have "disk ?fs0 (base_name path @ ''.dbf'') = Some (bytes ?g)"
    by (simp add: close_dbf_def disk_vsi.close_file [OF D] disk_vsi.name_close_dbf [OF D] table(2))
  from disk_vsi.open_stored [OF D h1(1) shapes(1) h1(3,4) this g(1) table(3), of junk' junkb' be' be True]
  obtain s where s: "msShapefileOpen ops dsk junk' junkb' be' (msSHPClose ops dsk be h1 ?fs0) (Some ''rb'') (Some path) True
      = (0, Some s, msSHPClose ops dsk be h1 ?fs0, [])"
    and st: "disk_vsi.stored_shapefile ops bytes be' ty ss d ?rows path s"
    unfolding g(2) h1(2) by blast
  have "layerinfo l = None" using l(1) by (simp add: new_layer_def)
  from disk_vsi.open_layer [OF D s this l(2,3), of gdal] obtain l1 where
    l1: "msSHPLayerOpen ops dsk gdal junk' junkb' be' (msSHPClose ops dsk be h1 ?fs0) l = (MS_SUCCESS, l1, msSHPClose ops dsk be h1 ?fs0, es')"
    "layerinfo l1 = Some s" by blast
  have "length ss \<le> length ?rows" using table(5) by simp
  from disk_vsi.all_items [OF D l1(2) st table(3,4) this] obtain l2 es2 where
    l2: "msSHPLayerGetItems l1 = Some (MS_SUCCESS, l2, es2)" "items l2 = field_names d" "layerinfo l2 = Some s" "layer_ok be' bytes l2"
    "writable_vsi.layer_holds bytes be' ty ss d ?rows (map int [0..<nFields d]) l2" by blast
  have v: "view s = open_view ops be' (hSHP s) (take 1023 path)" "SHPInfo.nRecords (hSHP s) = int (length ss)"
    "(adBoundsMin (hSHP s), adBoundsMax (hSHP s)) = file_extent ss"
    using st by (auto simp: disk_vsi.stored_shapefile_def [OF D] posix_vsi.reads_list_def [OF writable_vsi.axioms(1) [OF w]])
  have b: "shp_bounds (view s) = extent_rect ss"
    using v shapes(1) by (simp add: open_view_def msSHPReadBounds_def extent_rect_def flip: v(3))
  have nan: "\<forall>s\<in>set ss. \<not> f64_nan (minx (stored_extent (line s)))" using shapes(2) by blast
  show ?thesis
  proof (cases "msRectOverlap (extent_rect ss) rect")
    case True
    from disk_vsi.search_stored [OF D l2(3) st l2(4,5) nan none, of rect fuel debug] True b l1 l2(1,2)
    show ?thesis by (auto simp: feature_all [OF table(3)] simp del: read_on.simps)
  next
    case False
    have "\<exists>l3. msSHPLayerWhichShapes fuel be' idx l2 rect debug = Some (MS_DONE, l3, [])"
      using False b l2(3) by (simp add: msSHPLayerWhichShapes_def msShapefileWhichShapes_def Let_def)
    then show ?thesis using False l1(1) l2(1,2) by auto
  qed
qed


lemma demo_dbf_ok: "dbf_ok (content (fp demo_dbf)) demo_dbf"
  by code_simp

lemma demo_dbf_facts: "nFields demo_dbf = 1" "DBFInfo.nRecords demo_dbf = 1" "file_name (fp demo_dbf) = ''a.dbf''" "field_names demo_dbf = [''NAME'']"
    "record_texts demo_dbf (table_rows (content (fp demo_dbf)) demo_dbf ! 0) = [''ab'']"
  by code_simp+

lemma demo_rects: "msRectOverlap (extent_rect [triangle]) zero_rect" "msRectOverlap (stored_extent (line triangle)) zero_rect"
    "\<not> f64_nan (minx (stored_extent (line triangle)))" "base_name ''a.shp'' = ''a''"
  by code_simp+

theorem layer_query_witness:
  "\<exists>h fs es h1 fs2 l1 l2 es2 l3 es3 l4. msSHPCreate stdio_rw map_disk (\<lambda>_. 9) False Map.empty ''a.shp'' 5 = (Some h, fs, es)
    \<and> write_shapes stdio_rw (\<lambda>_. 9) (\<lambda>_ _. 7) False h [triangle] = Some h1
    \<and> fs2 = msSHPClose stdio_rw map_disk False h1 (close_dbf stdio_rw map_disk (\<lambda>_. 0) fs demo_dbf)
    \<and> msSHPLayerOpen stdio_rw map_disk \<lparr>CPLResetExtension = \<lambda>n e. n, projection_of_prj = \<lambda>_. None\<rparr> (\<lambda>_. 8) (\<lambda>_. 3) True fs2 demo_layer
        = (MS_SUCCESS, l1, fs2, [])
    \<and> msSHPLayerGetItems l1 = Some (MS_SUCCESS, l2, es2)
    \<and> msSHPLayerWhichShapes 1 True Map.empty l2 zero_rect False = Some (MS_SUCCESS, l3, es3)
    \<and> read_on (msSHPLayerNextShape stdio_rw True) (Suc 1) l3 = Some (MS_DONE, [with_values (stored_shape 5 0 triangle) (Some [''ab''])], l4)"
proof -
  obtain h fs es where c: "msSHPCreate stdio_rw map_disk (\<lambda>_. 9) False Map.empty ''a.shp'' 5 = (Some h, fs, es)" using demo_created by blast
  have p: "plain_type 5" "file_need 5 [triangle] < 2147483646" and t: "writable_shape 5 triangle"
    by (simp_all add: plain_type_def poly_type_def writable_shape_def countable_parts_def triangle_def msInitShape_def
        file_need_def record_size_def poly_size_def extra_type_def)
  note k = map_disk.created_ok [OF c p(1)]
  obtain h1 where h1: "write_shapes stdio_rw (\<lambda>_. 9) (\<lambda>_ _. 7) False h [triangle] = Some h1"
    using map_disk.write_shapes_ok [of h "[]" "[triangle]" "base_name ''a.shp''" "\<lambda>_. 9" "\<lambda>_ _. 7" False] k t p(2) by (auto simp: file_need_def)
  have s: "[triangle] \<noteq> []" "\<forall>s\<in>set [triangle]. writable_shape 5 s \<and> \<not> f64_nan (minx (stored_extent (line s)))"
    using t demo_rects by simp_all
  have d: "file_name (fp demo_dbf) = base_name ''a.shp'' @ ''.dbf''" "nFields demo_dbf \<noteq> 0" "distinct (map lower (field_names demo_dbf))"
    "length [triangle] \<le> nat (nRecords demo_dbf)"
    using demo_dbf_facts demo_rects(4) by simp_all
  have l: "new_layer demo_layer" "map_paths demo_layer = Some (None, None)" "msBuildPath3 None None (layer_data demo_layer) = ([], Some ''a.shp'')"
    by (simp_all add: demo_layer_def new_layer_def msBuildPath3_def msBuildPath_def)
  have n: "msSHPDiskTreeOpen True Map.empty (index_name (take 1023 ''a.shp'')) = None" by (simp add: msSHPDiskTreeOpen_def Let_def)
  let ?fs2 = "msSHPClose stdio_rw map_disk False h1 (close_dbf stdio_rw map_disk (\<lambda>_. 0) fs demo_dbf)"
  from layer_query [OF map_disk.disk_vsi_axioms c p(1) h1 s p(2) demo_dbf_ok d l n, where gdal = "\<lparr>CPLResetExtension = \<lambda>n e. n, projection_of_prj = \<lambda>_. None\<rparr>"
      and junkb = "\<lambda>_. 0" and junk' = "\<lambda>_. 8" and junkb' = "\<lambda>_. 3" and rect = zero_rect and fuel = 1 and debug = False]
  obtain l1 l2 es2 l3 es3 l4 where "msSHPLayerOpen stdio_rw map_disk \<lparr>CPLResetExtension = \<lambda>n e. n, projection_of_prj = \<lambda>_. None\<rparr> (\<lambda>_. 8) (\<lambda>_. 3) True ?fs2 demo_layer
        = (MS_SUCCESS, l1, ?fs2, [])"
    "msSHPLayerGetItems l1 = Some (MS_SUCCESS, l2, es2)"
    "msSHPLayerWhichShapes 1 True Map.empty l2 zero_rect False = Some (MS_SUCCESS, l3, es3)"
    "read_on (msSHPLayerNextShape stdio_rw True) (Suc (length [triangle])) l3 = Some (MS_DONE,
       map (\<lambda>i. with_values (stored_shape 5 (int i) ([triangle] ! i)) (Some (record_texts demo_dbf (table_rows (content (fp demo_dbf)) demo_dbf ! i))))
         (filter (\<lambda>i. msRectContained (extent_rect [triangle]) zero_rect \<or> msRectOverlap (stored_extent (line ([triangle] ! i))) zero_rect) [0..<length [triangle]]), l4)"
    unfolding if_P [OF demo_rects(1)] by blast
  then show ?thesis using c h1 demo_rects(2) demo_dbf_facts(5) by (auto simp del: read_on.simps)
qed

end
