(* ===== verification/Spec2Isabelle.thy ===== *)
theory Spec2Isabelle
  imports MapHash MapCrypto MapShape ShapeStore DbfTable ClassObject LayerObject MapLayers MapPool CgiUtil MapError StringSplit StringFormat IoCapture OwsCommon ShpQuery
begin

text \<open>
  A verification of the core of MapServer (the C sources under \<open>src/src\<close>).

  \<^bold>\<open>The program.\<close> MapServer reads a map description, a \<open>mapObj\<close> with layers, classes, styles and
  labels, and answers CGI requests by finding the shapes a layer shows in a rectangle and drawing
  them. This development models the parts that carry state or a data format of their own and are
  written by the project: the object tree and its arrays, the string tables in it, the shapefile
  reader with its spatial index, the pool of database connections, the decoding of requests, the
  encryption of connection strings, and the error and debug reports every part writes.

  \<^bold>\<open>Theories and sources.\<close>
  \<^item> \<open>MS_Prelude\<close>: C types, return codes, the reports handed to \<open>msSetError\<close>, the C library
    functions on strings that the sources call, list lemmas.
  \<^item> \<open>MapHash\<close> (\<open>maphash.c\<close>): the table with chained buckets for metadata and configuration. The locale
    \<open>ci_table\<close> is its contract as a case-insensitive map, interpreted on the operations; the
    properties are lookup after insert and remove, the invariant, and complete iteration.
  \<^item> \<open>MapBits\<close> (\<open>mapbits.c\<close>): bit arrays on 32-bit words; locale \<open>bit_set\<close>.
  \<^item> \<open>MapString\<close>, \<open>HtmlEntities\<close> (\<open>mapstring.cpp\<close>): paths, bounded copies, URL encoding, HTML entities
    with the size of the growing buffer kept.
  \<^item> \<open>StringEdit\<close>, \<open>StringSplit\<close>, \<open>StringFormat\<close> (\<open>mapstring.cpp\<close>): trimming, replacing, splitting, joining and
    tokenizing, JSON escaping, the string buffer, and the check of number formats from a mapfile;
    each routine against a specification without buffers, and where the buffers hold. A format is
    judged by the arguments \<open>printf\<close> would fetch for it (\<open>printf_args\<close>), with their types.
  \<^item> \<open>MapCrypto\<close> (\<open>mapcrypto.c\<close>): TEA on 32-bit words (locale \<open>block_cipher\<close>), hexadecimal coding, keys,
    strings and tokens; round trips.
  \<^item> \<open>Float64\<close>, \<open>MapRect\<close> (\<open>mapsearch.c\<close>): IEEE doubles as 64-bit words and the rectangle tests on them.
  \<^item> \<open>MapTree\<close> (\<open>maptree.c\<close> in memory): building, searching and trimming the quadtree; the search finds
    exactly the shapes a scan finds, once its candidates are filtered by their bounds.
  \<^item> \<open>ByteOrder\<close>, \<open>MapTreeDisk\<close> (\<open>maptree.c\<close> on disk): byte order, files, the \<open>.qix\<close> writer and the reader
    that searches the file; what is read back is what was written, on either byte order.
  \<^item> \<open>MapShape\<close> (\<open>mapshape.c\<close>, reading): \<open>.shp\<close> and \<open>.shx\<close> headers, the page cache of the index, record
    bounds, \<open>msShapefileWhichShapes\<close>. GDAL's file layer is the record of operations in \<open>Vsi\<close>, with the
    locales \<open>posix_vsi\<close> and \<open>writable_vsi\<close> for what its calls promise, interpreted on files as byte lists.
  \<^item> \<open>ShapeGeom\<close>, \<open>ShapeWrite\<close> (\<open>mapshape.c\<close>, geometry): decoding and building records, appending shapes,
    headers, creating, opening and closing. The sizes and positions of a record are int computations
    that are checked (\<open>c_int\<close>), and every copy into the record buffer is. \<open>ShapeGeom\<close> shows that no file makes the reader leave a
    record; \<open>ShapeRecord\<close>, \<open>ShapeFile\<close> and \<open>ShapeStore\<close> show what is read back of a record, through an open
    handle, and from the disk (locale \<open>disk_vsi\<close> of \<open>VsiDisk\<close>), and which types are not kept.
  \<^item> \<open>MapXbase\<close>, \<open>DbfTable\<close> (\<open>mapxbase.c\<close>): the attribute table with its header and its one-record buffer, whose
    reads and writes at the offset of a field are checked (\<open>field_readable\<close>, \<open>field_writable\<close>), and its
    refinement of a list of records: reads, writes, and closing and opening again.
  \<^item> \<open>ShpLayer\<close>, \<open>ShpScan\<close>, \<open>ShpQuery\<close> (\<open>mapshape.c\<close>, the layer driver): a shapefile with its table, and the calls of
    a layer on it. The locale \<open>cursor\<close> is the contract of the loop over \<open>next\<close>, \<open>exact_cursor\<close> adds what it
    returns; both are interpreted on the driver. Calls in any order, on any files, are a step
    relation with an invariant; no call leaves a buffer, and each returns, except that a search does
    not where the recursion into a crafted index does not; a scan ends; and a query returns what was
    written.
  \<^item> \<open>ChildArrays\<close>, \<open>ClassObject\<close>, \<open>LayerObject\<close>, \<open>MapLayers\<close> (\<open>classobject.c\<close>, \<open>layerobject.c\<close>, \<open>mapobject.c\<close> and
    the growing functions of \<open>mapfile.c\<close>): arrays of pointers to counted objects on a heap that
    records double frees; locale \<open>ordered_children\<close>, interpreted for styles, classes and layers; the
    drawing order of the layers stays a permutation.
  \<^item> \<open>MapPool\<close> (\<open>mappool.c\<close>): the pool as a step relation over threads; no two threads hold one
    connection, no connection that is held is closed.
  \<^item> \<open>CgiUtil\<close> (\<open>cgiutil.c\<close>): request bodies, parameters, URL decoding in place, shell escaping.
  \<^item> \<open>ThreadList\<close>, \<open>Redact\<close>, \<open>MapDebug\<close>, \<open>MapError\<close> (\<open>maperror.c\<close>, \<open>mapdebug.c\<close>): the list of per-thread objects
    (locale \<open>thread_store\<close>, interpreted on the linked list), hiding of passwords, the log target of
    a thread, and the error stack of a thread, as step relations over threads.
  \<^item> \<open>MapIO\<close>, \<open>IoCapture\<close> (\<open>mapio.c\<close>): the standard streams of a thread and their redirection; nested
    captures of interleaved threads refine one stack of texts per thread, and the headers a
    response was given are read back from its buffer.
  \<^item> \<open>OwsIp\<close>, \<open>OwsAccess\<close>, \<open>OwsCommon\<close> (\<open>mapows.cpp\<close>): address ranges bit by bit, the list of enabled requests
    word by word, and the decisions on layers built on both; versions, unique layer names and the
    parameters of a request.

  \<^bold>\<open>Correspondence.\<close> A definition has the name of the C function or type it models; helper
  definitions model a loop or a branch of one. Pointers to objects that are shared are addresses
  of an explicit heap; objects with one owner are values. \<open>None\<close> or a fault flag stands for what C
  leaves undefined (a write outside a buffer, a null pointer, a double free), and theorems show
  where it cannot happen. Calls of \<open>msSetError\<close> are returned as a list of reports, except in
  \<open>MapError\<close>, which models the call itself. Memory allocation succeeds unless a definition has it
  as an argument.

  \<^bold>\<open>Loops and fuel.\<close> Loops are recursive functions with a termination proof. \<open>msFilterTreeSearch\<close> makes
  at most as many rounds as the index has shapes. \<open>searchDiskTreeNode\<close> follows offsets stored in a
  file, so it takes fuel: for an index that \<open>msWriteTree\<close> wrote the height of the tree is enough, as
  \<open>disk_index_correct\<close> shows, and \<open>disk_search_unbounded\<close> shows a crafted file on which no amount of
  fuel is.

  \<^bold>\<open>Not modelled.\<close> The mapfile parser and the expression parser (a generated lexer and grammar),
  drawing and labels (AGG, Cairo, FreeType), the OGC services themselves, the drivers over GDAL, PostGIS and
  Oracle, projections and GEOS geometry, the language bindings and the vendored code: most of their
  behaviour is in libraries that are not in the repository. The manifest lists each with its
  reason.
\<close>

end
